(* ===== verification/Prelude.thy ===== *)
theory Prelude
  imports Main "HOL-Library.Word" "HOL-Library.Multiset"
begin

text \<open>
  Shared vocabulary of the development: the widths of the program's integers, the fact
  collections the component theories extend, and the generic lemmas on lists and numbers
  they have in common. Nothing here models code of the repository.

  Unsigned C++ integers are kept as \<^typ>\<open>nat\<close>: an operation that the code checks is
  translated with its check, and an operation that the code lets wrap is written with
  \<open>wrap64\<close> (or \<open>wrap32\<close>). Code that works on the bits of a value (hashes, checksums)
  uses \<^typ>\<open>32 word\<close> directly. A byte is an \<^typ>\<open>8 word\<close>.
\<close>

unbundle bit_operations_syntax

type_synonym byte = "8 word"
type_synonym bytes = "8 word list"
type_synonym u8 = nat
type_synonym u16 = nat
type_synonym u32 = nat
type_synonym u64 = nat
type_synonym size_t = nat

named_theorems result_simps "unfoldings of the Result combinators"
named_theorems length_simps "lengths of encoded values"
named_theorems region_simps "byte sets of the region structures"

subsection \<open>Widths\<close>

definition max64 :: nat where "max64 = 2 ^ 64 - 1"

definition max32 :: nat where "max32 = 2 ^ 32 - 1"

definition wrap64 :: "nat \<Rightarrow> nat" where "wrap64 n = n mod 2 ^ 64"

definition wrap32 :: "nat \<Rightarrow> nat" where "wrap32 n = n mod 2 ^ 32"

definition wrap_sub64 :: "nat \<Rightarrow> nat \<Rightarrow> nat" where
  "wrap_sub64 a b = (if b \<le> a then a - b else 2 ^ 64 + a - b)"

lemma wrap64_id [simp]: "n \<le> max64 \<Longrightarrow> wrap64 n = n"
  by (simp add: wrap64_def max64_def)

lemma wrap64_add: "wrap64 (wrap64 a + b) = wrap64 (a + b)"
  by (simp add: wrap64_def mod_add_left_eq)

lemma wrap64_Suc: "wrap64 (Suc (wrap64 a)) = wrap64 (Suc a)"
  using wrap64_add [of a 1] by simp

lemma wrap64_less: "wrap64 n \<le> max64"
proof -
  have "n mod 2 ^ 64 < 2 ^ 64" by simp
  then show ?thesis unfolding wrap64_def max64_def by linarith
qed

lemma max64_less_iff: "n \<le> max64 \<longleftrightarrow> n < 2 ^ 64"
  by (auto simp: max64_def)

lemma unat_byte_less [simp]: "unat (b :: byte) < 256"
  using unsigned_less [of b, where ?'a = nat] by simp

lemma digit_less: "a < 256 \<Longrightarrow> n < m \<Longrightarrow> a + 256 * n < 256 * (m :: nat)"
  by arith

subsection \<open>Lists\<close>

lemma nth_take_drop_append: "length xs = n \<Longrightarrow> take k (drop n (xs @ ys)) = take k ys"
  by simp

lemma take_drop_prefix:
  "a + k \<le> length xs \<Longrightarrow> take k (drop a (xs @ ys)) = take k (drop a xs)"
  by simp

lemma length_take_drop: "a + k \<le> length xs \<Longrightarrow> length (take k (drop a xs)) = k"
  by simp

lemma sorted_wrt_filter_prefix:
  "sorted_wrt R xs \<Longrightarrow> sorted_wrt R (filter P xs)"
  by (rule sorted_wrt_filter)

lemma takeWhile_dropWhile_set:
  "x \<in> set xs \<longleftrightarrow> x \<in> set (takeWhile P xs) \<or> x \<in> set (dropWhile P xs)"
  by (metis Un_iff set_append takeWhile_dropWhile_id)

text \<open>A symmetric pairwise property does not depend on the order of the list.\<close>

lemma sorted_wrt_iff_splits:
  assumes "symp R"
  shows "sorted_wrt R xs \<longleftrightarrow> (\<forall>p M. mset xs = add_mset p M \<longrightarrow> (\<forall>q \<in># M. R p q))"
proof (induction xs)
  case (Cons x xs)
  show ?case
  proof
    assume l: "sorted_wrt R (x # xs)"
    have mem: "p \<in> set xs" if "mset xs = add_mset p K" for p K
      using that by (metis set_mset_mset union_single_eq_member)
    show "\<forall>p M. mset (x # xs) = add_mset p M \<longrightarrow> (\<forall>q \<in># M. R p q)"
      using l Cons sympD [OF assms] mem by (fastforce simp: add_eq_conv_ex)
  next
    assume r: "\<forall>p M. mset (x # xs) = add_mset p M \<longrightarrow> (\<forall>q \<in># M. R p q)"
    then have "\<forall>q \<in> set xs. R x q" by (metis mset.simps(2) set_mset_mset)
    moreover have "\<forall>q \<in># M. R p q" if "mset xs = add_mset p M" for p M
      using r that by (metis add_mset_commute mset.simps(2) union_iff add_mset_add_single)
    ultimately show "sorted_wrt R (x # xs)" using Cons by simp
  qed
qed simp

lemma sorted_wrt_mset:
  "symp R \<Longrightarrow> mset xs = mset ys \<Longrightarrow> sorted_wrt R xs \<Longrightarrow> sorted_wrt R ys"
  by (simp add: sorted_wrt_iff_splits)

subsection \<open>Overwriting part of a buffer\<close>

definition overwrite :: "'a list \<Rightarrow> nat \<Rightarrow> 'a list \<Rightarrow> 'a list" where
  "overwrite raw at value = take at raw @ value @ drop (at + length value) raw"

lemma length_overwrite [simp, length_simps]:
  "at + length value \<le> length raw \<Longrightarrow> length (overwrite raw at value) = length raw"
  by (simp add: overwrite_def)

lemma take_drop_overwrite_same [simp]:
  "at + length value \<le> length raw \<Longrightarrow> w = length value \<Longrightarrow> take w (drop at (overwrite raw at value)) = value"
  by (simp add: overwrite_def)

lemma take_drop_overwrite_before [simp]:
  "a + w \<le> at \<Longrightarrow> at + length value \<le> length raw \<Longrightarrow>
   take w (drop a (overwrite raw at value)) = take w (drop a raw)"
  by (simp add: overwrite_def drop_take min_absorb1)

lemma take_drop_overwrite_after [simp]:
  "at + length value \<le> a \<Longrightarrow> at + length value \<le> length raw \<Longrightarrow>
   take w (drop a (overwrite raw at value)) = take w (drop a raw)"
  by (simp add: overwrite_def)

lemma drop_overwrite_last [simp]:
  "at + length value = length raw \<Longrightarrow> drop at (overwrite raw at value) = value"
  by (simp add: overwrite_def)

subsection \<open>Characters as bytes\<close>

definition byte_of_char :: "char \<Rightarrow> byte" where "byte_of_char ch = of_nat (of_char ch)"

definition char_of_byte :: "byte \<Rightarrow> char" where "char_of_byte b = char_of (unat b)"

lemma of_char_less_256: "(of_char ch :: nat) < 256"
  using of_char_mod_256 [of ch, where ?'a = nat] by (metis mod_less_divisor zero_less_numeral)

lemma char_of_byte_of_char [simp]: "char_of_byte (byte_of_char ch) = ch"
  using of_char_less_256 [of ch] by (simp add: char_of_byte_def byte_of_char_def unat_of_nat)

lemma byte_of_char_of_byte [simp]: "byte_of_char (char_of_byte b) = b"
  by (simp add: char_of_byte_def byte_of_char_def unat_byte_less)

lemma map_char_bytes [simp]: "map char_of_byte (map byte_of_char s) = s"
  by (simp add: comp_def)

end
