(* ===== verification/Result.thy ===== *)
theory Result
  imports Prelude
begin

text \<open>
  \<open>include/revenant/core/Error.hpp\<close>, \<open>Result.hpp\<close> and \<open>Confidence.hpp\<close>: the typed
  error, the value-or-error carrier every fallible operation returns, and the verdict scale
  that carving, filesystem grading and arbitration share. A \<open>Result<T>\<close> is a sum with
  the error on the left.
\<close>

datatype ErrorCode =
    kOutOfRange | kOverflow | kInvalidArgument | kNotFound | kIoFailure
  | kPermissionDenied | kNotBlockAddressable | kDestinationOnSource
  | kDestinationIdentityUnresolved | kSourceLost | kStorageExhausted

record Error =
  err_code :: ErrorCode
  err_offset :: u64
  err_osCode :: int

type_synonym 'a result = "Error + 'a"

definition mkError :: "ErrorCode \<Rightarrow> u64 \<Rightarrow> Error" where
  "mkError c off = \<lparr>err_code = c, err_offset = off, err_osCode = 0\<rparr>"

definition hasValue :: "'a result \<Rightarrow> bool" where
  "hasValue r = (case r of Inl _ \<Rightarrow> False | Inr _ \<Rightarrow> True)"

text \<open>\<open>Result::value\<close> on an error throws \<open>std::bad_variant_access\<close>: \<^term>\<open>None\<close> is that exception.\<close>

definition valueOf :: "'a result \<Rightarrow> 'a option" where
  "valueOf r = (case r of Inr v \<Rightarrow> Some v | Inl _ \<Rightarrow> None)"

definition mapResult :: "'a result \<Rightarrow> ('a \<Rightarrow> 'b) \<Rightarrow> 'b result" where
  "mapResult r f = (case r of Inl e \<Rightarrow> Inl e | Inr x \<Rightarrow> Inr (f x))"

definition andThen :: "'a result \<Rightarrow> ('a \<Rightarrow> 'b result) \<Rightarrow> 'b result" where
  "andThen r f = (case r of Inl e \<Rightarrow> Inl e | Inr x \<Rightarrow> f x)"

lemma hasValue_simps [simp]: "hasValue (Inl e) = False" "hasValue (Inr x) = True"
  by (simp_all add: hasValue_def)

lemma valueOf_simps [simp, result_simps]: "valueOf (Inr v) = Some v" "valueOf (Inl e) = None"
  by (simp_all add: valueOf_def)

lemma hasValue_iff: "hasValue r \<longleftrightarrow> (\<exists>x. r = Inr x)"
  by (cases r) auto

lemma mapResult_simps [simp]:
  "mapResult (Inl e) f = Inl e" "mapResult (Inr x) f = Inr (f x)"
  by (simp_all add: mapResult_def)

lemma andThen_simps [simp]: "andThen (Inl e) f = Inl e" "andThen (Inr x) f = f x"
  by (simp_all add: andThen_def)

lemma andThen_Inr_iff: "andThen r f = Inr y \<longleftrightarrow> (\<exists>x. r = Inr x \<and> f x = Inr y)"
  by (cases r) auto

lemma mapResult_Inr_iff: "mapResult r f = Inr y \<longleftrightarrow> (\<exists>x. r = Inr x \<and> y = f x)"
  by (cases r) auto

lemma mapResult_Inl_iff [simp]: "mapResult r f = Inl e \<longleftrightarrow> r = Inl e"
  by (cases r) auto

lemma hasValue_mapResult [simp]: "hasValue (mapResult r f) = hasValue r"
  by (cases r) auto

lemma andThen_assoc: "andThen (andThen r f) g = andThen r (\<lambda>x. andThen (f x) g)"
  by (cases r) auto

lemma err_code_mkError [simp]: "err_code (mkError c off) = c"
  by (simp add: mkError_def)

lemma err_offset_mkError [simp]: "err_offset (mkError c off) = off"
  by (simp add: mkError_def)

lemma mkError_inject [simp]: "mkError c a = mkError d b \<longleftrightarrow> c = d \<and> a = b"
  by (simp add: mkError_def)

lemmas [result_simps] = andThen_Inr_iff mapResult_Inr_iff hasValue_iff

subsection \<open>The verdict scale\<close>

datatype Confidence = kRejected | kUncertain | kValid

primrec confidence_value :: "Confidence \<Rightarrow> nat" where
  "confidence_value kRejected = 0"
| "confidence_value kUncertain = 1"
| "confidence_value kValid = 2"

lemma confidence_value_inject [simp]: "confidence_value a = confidence_value b \<longleftrightarrow> a = b"
  by (cases a; cases b) simp_all

instantiation Confidence :: linorder
begin

definition less_eq_Confidence :: "Confidence \<Rightarrow> Confidence \<Rightarrow> bool" where
  "less_eq_Confidence a b = (confidence_value a \<le> confidence_value b)"

definition less_Confidence :: "Confidence \<Rightarrow> Confidence \<Rightarrow> bool" where
  "less_Confidence a b = (confidence_value a < confidence_value b)"

instance
  by standard (auto simp: less_eq_Confidence_def less_Confidence_def)

end

text \<open>A loop that folds a fallible step over indices either collects every contribution or fails.\<close>

lemma foldl_andThen_Inr_iff:
  assumes "\<And>found i out. i \<in> set is \<Longrightarrow> step found i = Inr out \<longleftrightarrow> ok i \<and> out = found @ f i"
  shows "foldl (\<lambda>found i. andThen found (\<lambda>built. step built i)) (Inr acc) is = Inr out \<longleftrightarrow>
    (\<forall>i \<in> set is. ok i) \<and> out = acc @ concat (map f is)"
proof -
  have fails: "foldl (\<lambda>found i. andThen found (\<lambda>built. step built i)) (Inl e) js = Inl e" for e js
    by (induction js) simp_all
  show ?thesis
    using assms
  proof (induction "is" arbitrary: acc)
    case (Cons i rest)
    show ?case
    proof (cases "step acc i")
      case (Inl e)
      then have "\<not> ok i" using Cons.prems [of i acc "acc @ f i"] by auto
      then show ?thesis using Inl fails by simp
    next
      case (Inr found)
      then have "ok i \<and> found = acc @ f i" using Cons.prems [of i acc found] by simp
      moreover have "foldl (\<lambda>found i. andThen found (\<lambda>built. step built i)) (Inr found) rest = Inr out \<longleftrightarrow>
          (\<forall>j \<in> set rest. ok j) \<and> out = found @ concat (map f rest)"
        by (rule Cons.IH) (simp add: Cons.prems)
      ultimately show ?thesis using Inr by simp
    qed
  qed auto
qed

end
