(* ===== verification/Bytes.thy ===== *)
theory Bytes
  imports Result
begin

text \<open>
  \<open>include/revenant/core/Endian.hpp\<close>, \<open>ByteReader.hpp\<close>, \<open>BoundedCount.hpp\<close> and
  \<open>src/core/SafeArith.cpp\<close>: how every parser of the toolkit gets a number out of untrusted
  bytes and how it does arithmetic on that number. The endian conversions are translated over
  an explicit host byte order; \<open>leNat\<close> and \<open>beNat\<close> are the host-independent reference
  the other theories compute with.
\<close>

subsection \<open>Byte order\<close>

datatype endian = Little | Big

fun leNat :: "bytes \<Rightarrow> nat" where
  "leNat [] = 0"
| "leNat (b # bs) = unat b + 256 * leNat bs"

definition beNat :: "bytes \<Rightarrow> nat" where
  "beNat bs = leNat (rev bs)"

fun leBytes :: "nat \<Rightarrow> nat \<Rightarrow> bytes" where
  "leBytes 0 v = []"
| "leBytes (Suc w) v = of_nat (v mod 256) # leBytes w (v div 256)"

definition beBytes :: "nat \<Rightarrow> nat \<Rightarrow> bytes" where
  "beBytes w v = rev (leBytes w v)"

text \<open>
  \<open>detail::byteSwap\<close> on a \<open>w\<close>-byte unsigned integer: the loop runs \<open>w\<close> times over the
  pair (result, value); both shifts stay inside the type's width.
\<close>

fun byteSwapLoop :: "nat \<Rightarrow> nat \<Rightarrow> nat \<Rightarrow> nat \<Rightarrow> nat" where
  "byteSwapLoop w 0 res val = res"
| "byteSwapLoop w (Suc k) res val =
     byteSwapLoop w k (take_bit (8 * w) (push_bit 8 res) OR (val AND 255)) (drop_bit 8 val)"

definition byteSwap :: "nat \<Rightarrow> nat \<Rightarrow> nat" where
  "byteSwap w val = byteSwapLoop w w 0 val"

definition nativeFromBytes :: "endian \<Rightarrow> bytes \<Rightarrow> nat" where
  "nativeFromBytes native raw = (case native of Little \<Rightarrow> leNat raw | Big \<Rightarrow> beNat raw)"

definition nativeToBytes :: "endian \<Rightarrow> nat \<Rightarrow> nat \<Rightarrow> bytes" where
  "nativeToBytes native w v = (case native of Little \<Rightarrow> leBytes w v | Big \<Rightarrow> beBytes w v)"

definition crossed :: "endian \<Rightarrow> nat \<Rightarrow> nat \<Rightarrow> endian \<Rightarrow> nat" where
  "crossed native w val stored = (if native = stored then val else byteSwap w val)"

definition fromLittleEndian :: "endian \<Rightarrow> bytes \<Rightarrow> nat" where
  "fromLittleEndian native raw = crossed native (length raw) (nativeFromBytes native raw) Little"

definition fromBigEndian :: "endian \<Rightarrow> bytes \<Rightarrow> nat" where
  "fromBigEndian native raw = crossed native (length raw) (nativeFromBytes native raw) Big"

definition toLittleEndian :: "endian \<Rightarrow> nat \<Rightarrow> nat \<Rightarrow> bytes" where
  "toLittleEndian native w v = nativeToBytes native w (crossed native w v Little)"

definition toBigEndian :: "endian \<Rightarrow> nat \<Rightarrow> nat \<Rightarrow> bytes" where
  "toBigEndian native w v = nativeToBytes native w (crossed native w v Big)"

subsection \<open>The bounds-checked reader\<close>

definition bytesAt :: "bytes \<Rightarrow> u64 \<Rightarrow> size_t \<Rightarrow> bytes result" where
  "bytesAt data off cnt =
     (if off > length data then Inl (mkError kOutOfRange off)
      else if cnt > length data - off then Inl (mkError kOutOfRange off)
      else Inr (take cnt (drop off data)))"

definition readLe :: "nat \<Rightarrow> bytes \<Rightarrow> u64 \<Rightarrow> nat result" where
  "readLe w data off = mapResult (bytesAt data off w) leNat"

definition readBe :: "nat \<Rightarrow> bytes \<Rightarrow> u64 \<Rightarrow> nat result" where
  "readBe w data off = mapResult (bytesAt data off w) beNat"

definition boundedCount :: "nat \<Rightarrow> size_t \<Rightarrow> size_t result" where
  "boundedCount untrusted bound =
     (if untrusted > bound then Inl (mkError kOutOfRange 0) else Inr untrusted)"

subsection \<open>Overflow-checked arithmetic\<close>

definition safeMul32 :: "u32 \<Rightarrow> u32 \<Rightarrow> u64 \<Rightarrow> u32 result" where
  "safeMul32 a b off =
     (let product = wrap64 (a * b)
      in if product > max32 then Inl (mkError kOverflow off) else Inr (wrap32 product))"

definition safeMul64 :: "u64 \<Rightarrow> u64 \<Rightarrow> u64 \<Rightarrow> u64 result" where
  "safeMul64 a b off =
     (if a \<noteq> 0 \<and> b > max64 div a then Inl (mkError kOverflow off) else Inr (wrap64 (a * b)))"

definition safeAdd64 :: "u64 \<Rightarrow> u64 \<Rightarrow> u64 \<Rightarrow> u64 result" where
  "safeAdd64 a b off =
     (if b > max64 - a then Inl (mkError kOverflow off) else Inr (wrap64 (a + b)))"

definition saturatingAdd64 :: "u64 \<Rightarrow> u64 \<Rightarrow> u64" where
  "saturatingAdd64 a b = (if b > max64 - a then max64 else wrap64 (a + b))"

subsection \<open>Laws of the reference encodings\<close>

lemma length_leBytes [simp, length_simps]: "length (leBytes w v) = w"
  by (induction w arbitrary: v) auto

lemma length_beBytes [simp, length_simps]: "length (beBytes w v) = w"
  by (simp add: beBytes_def)

lemma leNat_less: "leNat bs < 256 ^ length bs"
proof (induction bs)
  case (Cons b bs)
  have "unat b < 256" by (rule unat_byte_less)
  then show ?case using digit_less [OF _ Cons.IH] by simp
qed simp

lemma beNat_less: "beNat bs < 256 ^ length bs"
  using leNat_less [of "rev bs"] by (simp add: beNat_def)

lemma leNat_append: "leNat (xs @ ys) = leNat xs + 256 ^ length xs * leNat ys"
  by (induction xs) (auto simp: algebra_simps)

lemma unat_of_nat_byte: "unat (of_nat (v mod 256) :: byte) = v mod 256"
  by (simp add: unat_of_nat)

lemma leNat_leBytes: "leNat (leBytes w v) = v mod 256 ^ w"
proof (induction w arbitrary: v)
  case (Suc w)
  have "leNat (leBytes (Suc w) v) = v mod 256 + 256 * (v div 256 mod 256 ^ w)"
    by (simp add: unat_of_nat_byte Suc.IH)
  also have "\<dots> = v mod (256 * 256 ^ w)"
    by (simp add: mod_mult2_eq)
  finally show ?case by simp
qed simp

lemma leBytes_leNat: "leBytes (length bs) (leNat bs) = bs"
proof (induction bs)
  case (Cons b bs)
  have b: "unat b < 256" by (rule unat_byte_less)
  then have "(unat b + 256 * leNat bs) div 256 = leNat bs" by simp
  with Cons b show ?case by simp
qed simp

lemma leNat_leBytes_id [simp]: "v < 256 ^ w \<Longrightarrow> leNat (leBytes w v) = v"
  by (simp add: leNat_leBytes)

lemma beNat_beBytes_id [simp]: "v < 256 ^ w \<Longrightarrow> beNat (beBytes w v) = v"
  by (simp add: beNat_def beBytes_def)

subsection \<open>The byte swap reverses the digits\<close>

lemma or_byte: "push_bit 8 r OR (v AND 255) = 256 * r + v mod (256 :: nat)"
proof -
  have v: "v AND 255 = take_bit 8 (v :: nat)"
    using take_bit_eq_mask [of 8 v] by (simp add: mask_eq_exp_minus_1)
  have "push_bit 8 r OR take_bit 8 v = push_bit 8 r + take_bit 8 v"
    by (rule disjunctive_add [symmetric]) (auto simp: bit_simps)
  then show ?thesis using v by (simp add: push_bit_eq_mult take_bit_eq_mod)
qed

lemma byteSwapLoop_spec:
  "k \<le> w \<Longrightarrow> res < 256 ^ (w - k) \<Longrightarrow>
   byteSwapLoop w k res val = leNat (rev (leBytes k val)) + 256 ^ k * res"
proof (induction k arbitrary: res val)
  case (Suc k)
  have res: "256 * res < 256 ^ (w - k)"
  proof -
    have "w - k = Suc (w - Suc k)" using Suc.prems(1) by simp
    then show ?thesis using Suc.prems(2) by simp
  qed
  have "(256::nat) ^ (w - k) \<le> 256 ^ w" by (simp add: power_increasing)
  with res have "256 * res < 256 ^ w" by linarith
  then have small: "push_bit 8 res < 2 ^ (8 * w)"
    unfolding power_mult by (simp add: push_bit_eq_mult mult.commute)
  have next_res: "take_bit (8 * w) (push_bit 8 res) OR (val AND 255) = 256 * res + val mod 256"
    using small by (simp add: take_bit_nat_eq_self or_byte)
  have "256 * res + val mod 256 < 256 ^ (w - k)"
  proof -
    have "(256::nat) ^ (w - k) = 256 * 256 ^ (w - Suc k)"
      using Suc.prems(1) by (simp flip: power_Suc add: Suc_diff_Suc)
    then show ?thesis using digit_less [OF _ Suc.prems(2), of "val mod 256"] by simp
  qed
  then have "byteSwapLoop w k (256 * res + val mod 256) (val div 256)
      = leNat (rev (leBytes k (val div 256))) + 256 ^ k * (256 * res + val mod 256)"
    using Suc.IH Suc.prems(1) by simp
  then show ?case
    unfolding byteSwapLoop.simps next_res
    by (simp add: drop_bit_eq_div leNat_append unat_of_nat_byte algebra_simps)
qed simp

lemma byteSwap_eq: "byteSwap w v = leNat (rev (leBytes w v))"
  by (simp add: byteSwap_def byteSwapLoop_spec)

lemma byteSwap_leNat: "byteSwap (length bs) (leNat bs) = beNat bs"
  by (simp add: byteSwap_eq leBytes_leNat beNat_def)

lemma byteSwap_beNat: "byteSwap (length bs) (beNat bs) = leNat bs"
  using byteSwap_leNat [of "rev bs"] by (simp add: beNat_def)

lemma leBytes_byteSwap: "leBytes w (byteSwap w v) = beBytes w v"
  using leBytes_leNat [of "rev (leBytes w v)"] by (simp add: byteSwap_eq beBytes_def)

text \<open>The host's byte order never shows: both hosts decode and encode the same.\<close>

lemma fromLittleEndian_host: "fromLittleEndian native raw = leNat raw"
  by (cases native)
     (simp_all add: fromLittleEndian_def crossed_def nativeFromBytes_def byteSwap_beNat)

lemma fromBigEndian_host: "fromBigEndian native raw = beNat raw"
  by (cases native)
     (simp_all add: fromBigEndian_def crossed_def nativeFromBytes_def byteSwap_leNat)

lemma toLittleEndian_host: "toLittleEndian native w v = leBytes w v"
  by (cases native)
     (simp_all add: toLittleEndian_def crossed_def nativeToBytes_def beBytes_def [of _ "byteSwap _ _"]
       leBytes_byteSwap, simp add: beBytes_def)

lemma toBigEndian_host: "toBigEndian native w v = beBytes w v"
  by (cases native)
     (simp_all add: toBigEndian_def crossed_def nativeToBytes_def leBytes_byteSwap)

subsection \<open>Reads\<close>

lemma bytesAt_Inr_iff:
  "bytesAt data off cnt = Inr bs \<longleftrightarrow> off + cnt \<le> length data \<and> bs = take cnt (drop off data)"
  by (auto simp: bytesAt_def)

lemma bytesAt_in_range [simp]:
  "off + cnt \<le> length data \<Longrightarrow> bytesAt data off cnt = Inr (take cnt (drop off data))"
  by (simp add: bytesAt_Inr_iff)

lemma bytesAt_out_of_range [simp]:
  "length data < off + cnt \<Longrightarrow> bytesAt data off cnt = Inl (mkError kOutOfRange off)"
  by (auto simp: bytesAt_def)

lemma readLe_in_range [simp]:
  "off + w \<le> length data \<Longrightarrow> readLe w data off = Inr (leNat (take w (drop off data)))"
  by (simp add: readLe_def)

lemma readLe_out_of_range [simp]:
  "length data < off + w \<Longrightarrow> readLe w data off = Inl (mkError kOutOfRange off)"
  by (simp add: readLe_def)

lemma readBe_in_range [simp]:
  "off + w \<le> length data \<Longrightarrow> readBe w data off = Inr (beNat (take w (drop off data)))"
  by (simp add: readBe_def)

lemma readBe_out_of_range [simp]:
  "length data < off + w \<Longrightarrow> readBe w data off = Inl (mkError kOutOfRange off)"
  by (simp add: readBe_def)

lemma hasValue_readLe [simp]: "hasValue (readLe w data off) \<longleftrightarrow> off + w \<le> length data"
  by (cases "off + w \<le> length data") auto

lemma readLe_Inr_less: "readLe w data off = Inr v \<Longrightarrow> v < 256 ^ w"
  by (auto simp: readLe_def mapResult_Inr_iff bytesAt_Inr_iff)
     (metis diff_diff_add le_diff_conv2 leNat_less length_drop length_take min.absorb2
        add.commute add_leD1)

lemma readBe_Inr_less: "readBe w data off = Inr v \<Longrightarrow> v < 256 ^ w"
proof -
  assume "readBe w data off = Inr v"
  then have "off + w \<le> length data" and v: "v = beNat (take w (drop off data))"
    by (auto simp: readBe_def mapResult_Inr_iff bytesAt_Inr_iff)
  then have "length (take w (drop off data)) = w" by simp
  then show ?thesis using beNat_less [of "take w (drop off data)"] v by simp
qed

lemma boundedCount_Inr_iff [simp]: "boundedCount n b = Inr m \<longleftrightarrow> n \<le> b \<and> m = n"
  by (auto simp: boundedCount_def)

lemma hasValue_boundedCount [simp]: "hasValue (boundedCount n b) \<longleftrightarrow> n \<le> b"
  by (simp add: boundedCount_def)

subsection \<open>Exactness of the checked operations\<close>

lemma safeMul32_exact:
  assumes "a \<le> max32" and "b \<le> max32"
  shows "safeMul32 a b off = (if a * b \<le> max32 then Inr (a * b) else Inl (mkError kOverflow off))"
proof -
  have "a * b \<le> max32 * max32" using assms by (rule mult_le_mono)
  then have "a * b \<le> max64" by (simp add: max32_def max64_def)
  then show ?thesis
    by (auto simp: safeMul32_def wrap32_def max32_def)
qed

lemma safeMul64_exact:
  "safeMul64 a b off = (if a * b \<le> max64 then Inr (a * b) else Inl (mkError kOverflow off))"
proof (cases "a = 0")
  case False
  have "b > max64 div a \<longleftrightarrow> max64 < a * b"
    using False by (simp add: div_less_iff_less_mult mult.commute)
  then show ?thesis using False by (auto simp: safeMul64_def)
qed (simp add: safeMul64_def)

lemma safeAdd64_exact:
  "a \<le> max64 \<Longrightarrow>
   safeAdd64 a b off = (if a + b \<le> max64 then Inr (a + b) else Inl (mkError kOverflow off))"
  by (auto simp: safeAdd64_def)

lemma saturatingAdd64_eq: "a \<le> max64 \<Longrightarrow> saturatingAdd64 a b = min max64 (a + b)"
  by (auto simp: saturatingAdd64_def)

lemma saturatingAdd64_le: "saturatingAdd64 a b \<le> max64"
  by (simp add: saturatingAdd64_def wrap64_less)

subsection \<open>Fields of a byte string\<close>

definition le_at :: "nat \<Rightarrow> bytes \<Rightarrow> nat \<Rightarrow> nat" where
  "le_at w sector at = leNat (take w (drop at sector))"

lemma le_at_less: "le_at w sector at < 256 ^ w"
proof -
  have "leNat (take w (drop at sector)) < 256 ^ length (take w (drop at sector))" by (rule leNat_less)
  also have "\<dots> \<le> 256 ^ w" by (rule power_increasing) simp_all
  finally show ?thesis by (simp add: le_at_def)
qed

lemma le_at_take: "at + w \<le> k \<Longrightarrow> le_at w (take k sector) at = le_at w sector at"
  by (simp add: le_at_def drop_take min_absorb1)

lemma readLe_le_at: "at + w \<le> length sector \<Longrightarrow> readLe w sector at = Inr (le_at w sector at)"
  by (simp add: le_at_def)

subsection \<open>Properties\<close>

text \<open>
  The host's byte order never shows: on a little-endian and on a big-endian host alike the endian
  helpers decode a stored integer to the same number and encode a number to the same bytes, so
  that encoding and decoding are inverse for every value of the type's width.
\<close>
theorem endian_helpers_ignore_host:
  "fromLittleEndian h raw = leNat raw \<and> fromBigEndian h raw = beNat raw \<and>
   toLittleEndian h w v = leBytes w v \<and> toBigEndian h w v = beBytes w v \<and>
   (v < 256 ^ w \<longrightarrow> fromLittleEndian h (toLittleEndian h' w v) = v \<and> fromBigEndian h (toBigEndian h' w v) = v)"
  by (simp add: fromLittleEndian_host fromBigEndian_host toLittleEndian_host toBigEndian_host)

theorem endian_helpers_ignore_host_witness:
  "fromLittleEndian Big (toLittleEndian Little 2 0x1234) = 0x1234 \<and> toBigEndian Little 2 0x1234 = [0x12, 0x34]"
proof -
  have "(0x1234::nat) < 256 ^ 2" by simp
  moreover have "toBigEndian Little 2 0x1234 = [0x12, 0x34]"
    by (simp add: toBigEndian_host beBytes_def numeral_2_eq_2)
  ultimately show ?thesis using endian_helpers_ignore_host [where v = "0x1234" and w = 2] by blast
qed

text \<open>
  The checked operations on untrusted sizes are exact: the product or sum when it fits the type, and
  the overflow error at the caller's offset when it does not; no intermediate result wraps.
\<close>
theorem checked_arithmetic_is_exact:
  assumes "a \<le> max64" and "b \<le> max64" and "c \<le> max32" and "d \<le> max32"
  shows "safeMul64 a b off = (if a * b \<le> max64 then Inr (a * b) else Inl (mkError kOverflow off)) \<and>
    safeAdd64 a b off = (if a + b \<le> max64 then Inr (a + b) else Inl (mkError kOverflow off)) \<and>
    safeMul32 c d off = (if c * d \<le> max32 then Inr (c * d) else Inl (mkError kOverflow off)) \<and>
    saturatingAdd64 a b = min max64 (a + b)"
  using assms by (simp add: safeMul64_exact safeAdd64_exact safeMul32_exact saturatingAdd64_eq)

theorem checked_arithmetic_is_exact_witness:
  "safeAdd64 max64 1 7 = Inl (mkError kOverflow 7) \<and> safeMul32 65536 65536 7 = Inl (mkError kOverflow 7) \<and>
   safeMul64 (2 ^ 32) 4 7 = Inr (2 ^ 34)"
  using checked_arithmetic_is_exact [of max64 1 65536 65536 7] checked_arithmetic_is_exact [of "2 ^ 32" 4 0 0 7]
  by (simp add: max64_def max32_def)

end
