(* ===== verification/Sha256.thy ===== *)
theory Sha256
  imports Bytes
begin

text \<open>
  \<open>src/core/Sha256Block.cpp\<close> and \<open>src/core/Sha256.cpp\<close>: the streaming digest every
  recovered artifact is identified by. The fixed 64-byte pending buffer and its fill count are
  kept as the code has them; the loops of \<open>update\<close> and \<open>padToLengthField\<close> return \<open>None\<close>
  where they would not terminate, so that the digest's existence is part of what is proved.
\<close>

type_synonym w32 = "32 word"

subsection \<open>One block\<close>

definition kSha256BlockBytes :: nat where "kSha256BlockBytes = 64"

text \<open>The sixty-four constants, in the rows of seven the source lists them in.\<close>

definition kRoundConstants :: "w32 list" where
  "kRoundConstants = concat
    [[0x428a2f98, 0x71374491, 0xb5c0fbcf, 0xe9b5dba5, 0x3956c25b, 0x59f111f1, 0x923f82a4],
     [0xab1c5ed5, 0xd807aa98, 0x12835b01, 0x243185be, 0x550c7dc3, 0x72be5d74, 0x80deb1fe],
     [0x9bdc06a7, 0xc19bf174, 0xe49b69c1, 0xefbe4786, 0x0fc19dc6, 0x240ca1cc, 0x2de92c6f],
     [0x4a7484aa, 0x5cb0a9dc, 0x76f988da, 0x983e5152, 0xa831c66d, 0xb00327c8, 0xbf597fc7],
     [0xc6e00bf3, 0xd5a79147, 0x06ca6351, 0x14292967, 0x27b70a85, 0x2e1b2138, 0x4d2c6dfc],
     [0x53380d13, 0x650a7354, 0x766a0abb, 0x81c2c92e, 0x92722c85, 0xa2bfe8a1, 0xa81a664b],
     [0xc24b8b70, 0xc76c51a3, 0xd192e819, 0xd6990624, 0xf40e3585, 0x106aa070, 0x19a4c116],
     [0x1e376c08, 0x2748774c, 0x34b0bcb5, 0x391c0cb3, 0x4ed8aa4a, 0x5b9cca4f, 0x682e6ff3],
     [0x748f82ee, 0x78a5636f, 0x84c87814, 0x8cc70208, 0x90befffa, 0xa4506ceb, 0xbef9a3f7],
     [0xc67178f2]]"

record Working =
  wa :: w32
  wb :: w32
  wc :: w32
  wd :: w32
  we :: w32
  wf :: w32
  wg :: w32
  wh :: w32

definition rotr :: "w32 \<Rightarrow> nat \<Rightarrow> w32" where
  "rotr x k = drop_bit k x OR push_bit (32 - k) x"

definition bigSigma0 :: "w32 \<Rightarrow> w32" where
  "bigSigma0 x = rotr x 2 XOR rotr x 13 XOR rotr x 22"

definition bigSigma1 :: "w32 \<Rightarrow> w32" where
  "bigSigma1 x = rotr x 6 XOR rotr x 11 XOR rotr x 25"

definition smallSigma0 :: "w32 \<Rightarrow> w32" where
  "smallSigma0 x = rotr x 7 XOR rotr x 18 XOR drop_bit 3 x"

definition smallSigma1 :: "w32 \<Rightarrow> w32" where
  "smallSigma1 x = rotr x 17 XOR rotr x 19 XOR drop_bit 10 x"

definition wordAt :: "bytes \<Rightarrow> nat \<Rightarrow> w32" where
  "wordAt block index = of_nat (beNat (take 4 (drop (index * 4) block)))"

definition blockWords :: "bytes \<Rightarrow> w32 list" where
  "blockWords block =
     foldl (\<lambda>schedule at. schedule[at := wordAt block at]) (replicate 64 0) [0..<16]"

definition expandStep :: "w32 list \<Rightarrow> nat \<Rightarrow> w32 list" where
  "expandStep schedule at =
     schedule[at := smallSigma1 (schedule ! (at - 2)) + schedule ! (at - 7) +
                    smallSigma0 (schedule ! (at - 15)) + schedule ! (at - 16)]"

definition expand :: "w32 list \<Rightarrow> w32 list" where
  "expand schedule = foldl expandStep schedule [16..<64]"

definition scheduleOf :: "bytes \<Rightarrow> w32 list" where
  "scheduleOf block = expand (blockWords block)"

definition round :: "w32 list \<Rightarrow> Working \<Rightarrow> nat \<Rightarrow> Working" where
  "round schedule v at =
     (let choice = (we v AND wf v) XOR (NOT (we v) AND wg v);
          majority = (wa v AND wb v) XOR (wa v AND wc v) XOR (wb v AND wc v);
          first = wh v + bigSigma1 (we v) + choice + kRoundConstants ! at + schedule ! at;
          second = bigSigma0 (wa v) + majority
      in \<lparr>wa = first + second, wb = wa v, wc = wb v, wd = wc v,
          we = wd v + first, wf = we v, wg = wf v, wh = wg v\<rparr>)"

definition workingFrom :: "w32 list \<Rightarrow> Working" where
  "workingFrom st =
     \<lparr>wa = st ! 0, wb = st ! 1, wc = st ! 2, wd = st ! 3,
      we = st ! 4, wf = st ! 5, wg = st ! 6, wh = st ! 7\<rparr>"

definition compress :: "Working \<Rightarrow> w32 list \<Rightarrow> Working" where
  "compress start schedule = foldl (round schedule) start [0..<64]"

definition addInto :: "w32 list \<Rightarrow> Working \<Rightarrow> w32 list" where
  "addInto st v =
     [st ! 0 + wa v, st ! 1 + wb v, st ! 2 + wc v, st ! 3 + wd v,
      st ! 4 + we v, st ! 5 + wf v, st ! 6 + wg v, st ! 7 + wh v]"

definition compressSha256Block :: "w32 list \<Rightarrow> bytes \<Rightarrow> w32 list" where
  "compressSha256Block st block = addInto st (compress (workingFrom st) (scheduleOf block))"

subsection \<open>Streaming\<close>

record Sha256 =
  sh_state :: "w32 list"
  sh_pending :: bytes
  sh_pendingBytes :: size_t
  sh_totalBytes :: u64

definition kInitialState :: "w32 list" where
  "kInitialState =
     [0x6a09e667, 0xbb67ae85, 0x3c6ef372, 0xa54ff53a, 0x510e527f, 0x9b05688c, 0x1f83d9ab, 0x5be0cd19]"

definition sha256Fresh :: Sha256 where
  "sha256Fresh =
     \<lparr>sh_state = kInitialState, sh_pending = replicate kSha256BlockBytes 0,
      sh_pendingBytes = 0, sh_totalBytes = 0\<rparr>"

definition absorb :: "Sha256 \<Rightarrow> Sha256" where
  "absorb h = h\<lparr>sh_state := compressSha256Block (sh_state h) (sh_pending h)\<rparr>"

definition absorbIfWhole :: "Sha256 \<Rightarrow> Sha256" where
  "absorbIfWhole h =
     (if sh_pendingBytes h = kSha256BlockBytes then (absorb h)\<lparr>sh_pendingBytes := 0\<rparr> else h)"

definition fillPending :: "Sha256 \<Rightarrow> bytes \<Rightarrow> Sha256 \<times> bytes" where
  "fillPending h data =
     (let taken = min (kSha256BlockBytes - sh_pendingBytes h) (length data)
      in (h\<lparr>sh_pending := overwrite (sh_pending h) (sh_pendingBytes h) (take taken data),
            sh_pendingBytes := sh_pendingBytes h + taken\<rparr>,
          drop taken data))"

partial_function (option) updateLoop :: "Sha256 \<Rightarrow> bytes \<Rightarrow> Sha256 option" where
  "updateLoop h rest =
     (if rest = [] then Some h
      else updateLoop (absorbIfWhole (fst (fillPending h rest))) (snd (fillPending h rest)))"

definition update :: "Sha256 \<Rightarrow> bytes \<Rightarrow> Sha256 option" where
  "update h data = updateLoop (h\<lparr>sh_totalBytes := wrap64 (sh_totalBytes h + length data)\<rparr>) data"

definition appendPadByte :: "Sha256 \<Rightarrow> byte \<Rightarrow> Sha256" where
  "appendPadByte h val =
     absorbIfWhole (h\<lparr>sh_pending := (sh_pending h)[sh_pendingBytes h := val],
                      sh_pendingBytes := sh_pendingBytes h + 1\<rparr>)"

partial_function (option) padZeros :: "Sha256 \<Rightarrow> Sha256 option" where
  "padZeros h =
     (if sh_pendingBytes h \<noteq> kSha256BlockBytes - 8 then padZeros (appendPadByte h 0) else Some h)"

definition padToLengthField :: "Sha256 \<Rightarrow> Sha256 option" where
  "padToLengthField h = padZeros (appendPadByte h 0x80)"

definition absorbTail :: "Sha256 \<Rightarrow> Sha256 option" where
  "absorbTail h =
     map_option (\<lambda>padded. foldl appendPadByte padded (beBytes 8 (wrap64 (sh_totalBytes h * 8))))
       (padToLengthField h)"

definition digestOf :: "w32 list \<Rightarrow> bytes" where
  "digestOf st = concat (map (\<lambda>w. beBytes 4 (unat w)) st)"

definition finish :: "Sha256 \<Rightarrow> bytes option" where
  "finish h = map_option (\<lambda>t. digestOf (sh_state t)) (absorbTail h)"

definition sha256 :: "bytes \<Rightarrow> bytes option" where
  "sha256 data = Option.bind (update sha256Fresh data) finish"

definition kHexDigits :: string where "kHexDigits = ''0123456789abcdef''"

definition toHex :: "bytes \<Rightarrow> string" where
  "toHex digest = concat (map (\<lambda>b. [kHexDigits ! (unat b div 16), kHexDigits ! (unat b mod 16)]) digest)"

subsection \<open>The reference: one pass over the padded message\<close>

definition padMessage :: "bytes \<Rightarrow> bytes" where
  "padMessage msg =
     msg @ 0x80 # replicate ((119 - length msg mod 64) mod 64) 0 @ beBytes 8 (wrap64 (length msg * 8))"

fun hashBlocks :: "nat \<Rightarrow> w32 list \<Rightarrow> bytes \<Rightarrow> w32 list" where
  "hashBlocks 0 st msg = st"
| "hashBlocks (Suc n) st msg = hashBlocks n (compressSha256Block st (take 64 msg)) (drop 64 msg)"

definition sha256_reference :: "bytes \<Rightarrow> bytes" where
  "sha256_reference msg =
     digestOf (hashBlocks (length (padMessage msg) div 64) kInitialState (padMessage msg))"

subsection \<open>Feeding one byte at a time\<close>

definition feed :: "w32 list \<times> bytes \<Rightarrow> byte \<Rightarrow> w32 list \<times> bytes" where
  "feed s b =
     (let buf = snd s @ [b]
      in if length buf = 64 then (compressSha256Block (fst s) buf, []) else (fst s, buf))"

definition sha_abs :: "Sha256 \<Rightarrow> w32 list \<times> bytes" where
  "sha_abs h = (sh_state h, take (sh_pendingBytes h) (sh_pending h))"

definition sha_ok :: "Sha256 \<Rightarrow> bool" where
  "sha_ok h \<longleftrightarrow> length (sh_pending h) = 64 \<and> sh_pendingBytes h < 64"

lemma feed_partial:
  "length buf + length ys < 64 \<Longrightarrow> foldl feed (st, buf) ys = (st, buf @ ys)"
  by (induction ys arbitrary: buf) (simp_all add: feed_def)

lemma feed_block:
  assumes "ys \<noteq> []" and "length buf + length ys = 64"
  shows "foldl feed (st, buf) ys = (compressSha256Block st (buf @ ys), [])"
proof -
  obtain zs z where ys: "ys = zs @ [z]" using assms(1) by (metis rev_exhaust)
  then have "foldl feed (st, buf) zs = (st, buf @ zs)" using assms(2) by (intro feed_partial) simp
  then show ?thesis using ys assms(2) by (simp add: feed_def)
qed

lemma appendPadByte_spec:
  assumes "sha_ok h"
  shows "sha_ok (appendPadByte h b)" and "sha_abs (appendPadByte h b) = feed (sha_abs h) b"
    and "sh_totalBytes (appendPadByte h b) = sh_totalBytes h"
    and "sh_pendingBytes (appendPadByte h b) = (sh_pendingBytes h + 1) mod 64"
proof -
  have p: "sh_pendingBytes h < length (sh_pending h)" "length (sh_pending h) = 64"
    using assms by (simp_all add: sha_ok_def)
  then have t: "take (Suc (sh_pendingBytes h)) ((sh_pending h)[sh_pendingBytes h := b]) =
      take (sh_pendingBytes h) (sh_pending h) @ [b]"
    by (simp add: take_Suc_conv_app_nth)
  have full: "(sh_pending h)[sh_pendingBytes h := b] = take (sh_pendingBytes h) (sh_pending h) @ [b]"
    if "Suc (sh_pendingBytes h) = 64"
    using t that p by simp
  show "sha_ok (appendPadByte h b)"
    using p by (auto simp: appendPadByte_def absorbIfWhole_def absorb_def sha_ok_def kSha256BlockBytes_def)
  show "sha_abs (appendPadByte h b) = feed (sha_abs h) b"
    using p t full
    by (auto simp: appendPadByte_def absorbIfWhole_def absorb_def sha_abs_def feed_def Let_def kSha256BlockBytes_def)
  show "sh_totalBytes (appendPadByte h b) = sh_totalBytes h"
    by (simp add: appendPadByte_def absorbIfWhole_def absorb_def)
  show "sh_pendingBytes (appendPadByte h b) = (sh_pendingBytes h + 1) mod 64"
    using p by (auto simp: appendPadByte_def absorbIfWhole_def absorb_def kSha256BlockBytes_def)
qed

lemma appendPadBytes_spec:
  "sha_ok h \<Longrightarrow> sha_ok (foldl appendPadByte h bs) \<and>
   sha_abs (foldl appendPadByte h bs) = foldl feed (sha_abs h) bs \<and>
   sh_totalBytes (foldl appendPadByte h bs) = sh_totalBytes h \<and>
   sh_pendingBytes (foldl appendPadByte h bs) = (sh_pendingBytes h + length bs) mod 64"
proof (induction bs arbitrary: h)
  case (Cons b bs)
  then show ?case
    using Cons.IH [OF appendPadByte_spec(1) [OF Cons.prems, of b]] appendPadByte_spec [OF Cons.prems, of b]
    by (simp add: mod_Suc_eq mod_add_left_eq)
qed (simp add: sha_ok_def)

subsection \<open>The loops return, and feed\<close>

lemma fillPending_spec:
  assumes "sha_ok h" and "rest \<noteq> []"
  defines "h' \<equiv> absorbIfWhole (fst (fillPending h rest))"
    and "taken \<equiv> min (64 - sh_pendingBytes h) (length rest)"
  shows "sha_ok h'" and "sha_abs h' = foldl feed (sha_abs h) (take taken rest)"
    and "sh_totalBytes h' = sh_totalBytes h" and "0 < taken" and "snd (fillPending h rest) = drop taken rest"
proof -
  have p: "sh_pendingBytes h < 64" "length (sh_pending h) = 64" using assms(1) by (simp_all add: sha_ok_def)
  show "0 < taken" using p assms(2) by (simp add: taken_def)
  show "snd (fillPending h rest) = drop taken rest"
    by (simp add: fillPending_def Let_def taken_def kSha256BlockBytes_def)
  define buf where "buf = overwrite (sh_pending h) (sh_pendingBytes h) (take taken rest)"
  have len: "length (take taken rest) = taken" "sh_pendingBytes h + taken \<le> 64"
    using p by (simp_all add: taken_def)
  have buf: "length buf = 64" "take (sh_pendingBytes h + taken) buf = take (sh_pendingBytes h) (sh_pending h) @ take taken rest"
    using p len by (simp_all add: buf_def) (simp add: overwrite_def)
  have fst: "fst (fillPending h rest) = h\<lparr>sh_pending := buf, sh_pendingBytes := sh_pendingBytes h + taken\<rparr>"
    by (simp add: fillPending_def Let_def buf_def taken_def kSha256BlockBytes_def)
  show "sha_ok h'"
    using buf len p by (auto simp: h'_def fst absorbIfWhole_def absorb_def sha_ok_def kSha256BlockBytes_def)
  show "sh_totalBytes h' = sh_totalBytes h" by (simp add: h'_def fst absorbIfWhole_def absorb_def)
  show "sha_abs h' = foldl feed (sha_abs h) (take taken rest)"
  proof (cases "sh_pendingBytes h + taken = 64")
    case True
    have "foldl feed (sha_abs h) (take taken rest) =
        (compressSha256Block (sh_state h) (take (sh_pendingBytes h) (sh_pending h) @ take taken rest), [])"
      unfolding sha_abs_def using True p len \<open>0 < taken\<close> assms(2) by (intro feed_block) auto
    then show ?thesis
      using True buf by (simp add: h'_def fst absorbIfWhole_def absorb_def sha_abs_def kSha256BlockBytes_def)
  next
    case False
    have "foldl feed (sha_abs h) (take taken rest) =
        (sh_state h, take (sh_pendingBytes h) (sh_pending h) @ take taken rest)"
      unfolding sha_abs_def using False p len by (intro feed_partial) auto
    then show ?thesis
      using False buf by (simp add: h'_def fst absorbIfWhole_def absorb_def sha_abs_def kSha256BlockBytes_def)
  qed
qed

lemma updateLoop_spec:
  "sha_ok h \<Longrightarrow> \<exists>h'. updateLoop h rest = Some h' \<and> sha_ok h' \<and>
     sha_abs h' = foldl feed (sha_abs h) rest \<and> sh_totalBytes h' = sh_totalBytes h"
proof (induction "length rest" arbitrary: h rest rule: less_induct)
  case less
  show ?case
  proof (cases "rest = []")
    case True
    then show ?thesis using less.prems by (subst updateLoop.simps) simp
  next
    case False
    define taken where "taken = min (64 - sh_pendingBytes h) (length rest)"
    note step = fillPending_spec [OF less.prems False, folded taken_def]
    let ?h = "absorbIfWhole (fst (fillPending h rest))"
    have "length (drop taken rest) < length rest" using step(4) False by simp
    then obtain h' where h': "updateLoop ?h (drop taken rest) = Some h'" "sha_ok h'"
      "sha_abs h' = foldl feed (sha_abs ?h) (drop taken rest)" "sh_totalBytes h' = sh_totalBytes ?h"
      using less.hyps step(1) by blast
    have "foldl feed (sha_abs ?h) (drop taken rest) = foldl feed (sha_abs h) rest"
      using step(2) by (metis append_take_drop_id foldl_append)
    then show ?thesis
      using h' step(3,5) False by (subst updateLoop.simps) simp
  qed
qed

definition zerosTo :: "nat \<Rightarrow> nat" where
  "zerosTo p = (if p \<le> 56 then 56 - p else 120 - p)"

lemma zerosTo_step:
  assumes "p < 64" and "p \<noteq> 56"
  shows "zerosTo p = Suc (zerosTo ((p + 1) mod 64))"
proof (cases "p = 63")
  case False
  then have "(p + 1) mod 64 = p + 1" using assms(1) by simp
  then show ?thesis using assms False unfolding zerosTo_def by simp arith
qed (simp add: zerosTo_def)

lemma padZeros_spec:
  "sha_ok h \<Longrightarrow> padZeros h = Some (foldl appendPadByte h (replicate (zerosTo (sh_pendingBytes h)) 0))"
proof (induction "zerosTo (sh_pendingBytes h)" arbitrary: h rule: less_induct)
  case less
  have lt: "sh_pendingBytes h < 64" using less.prems by (simp add: sha_ok_def)
  show ?case
  proof (cases "sh_pendingBytes h = 56")
    case True
    then show ?thesis by (subst padZeros.simps) (simp add: kSha256BlockBytes_def zerosTo_def)
  next
    case False
    note step = appendPadByte_spec [OF less.prems, of 0]
    have z: "zerosTo (sh_pendingBytes h) = Suc (zerosTo (sh_pendingBytes (appendPadByte h 0)))"
      using zerosTo_step [OF lt False] step(4) by simp
    have "padZeros h = padZeros (appendPadByte h 0)"
      using False by (subst padZeros.simps) (simp add: kSha256BlockBytes_def)
    also have "\<dots> = Some (foldl appendPadByte (appendPadByte h 0)
        (replicate (zerosTo (sh_pendingBytes (appendPadByte h 0))) 0))"
      using less.hyps step(1) z by simp
    finally show ?thesis by (simp add: z)
  qed
qed

lemma update_spec:
  assumes "sha_ok h"
  obtains h' where "update h data = Some h'" "sha_ok h'" "sha_abs h' = foldl feed (sha_abs h) data"
    "sh_totalBytes h' = wrap64 (sh_totalBytes h + length data)"
proof -
  let ?h = "h\<lparr>sh_totalBytes := wrap64 (sh_totalBytes h + length data)\<rparr>"
  have "sha_ok ?h" "sha_abs ?h = sha_abs h" using assms by (simp_all add: sha_ok_def sha_abs_def)
  then show thesis using that updateLoop_spec [of ?h data] by (auto simp: update_def)
qed

subsection \<open>The streamed digest is the reference digest\<close>

lemma zerosTo_pad:
  assumes p: "p < 64"
  shows "zerosTo ((p + 1) mod 64) = (119 - p) mod 64"
proof (cases "p = 63")
  case False
  then have m: "(p + 1) mod 64 = p + 1" using p by (intro mod_less) linarith
  show ?thesis
  proof (cases "p \<le> 55")
    case True
    then have "119 - p = 64 + (55 - p)" by linarith
    then have "(119 - p) mod 64 = (55 - p) mod 64" by (simp only: mod_add_self1)
    also have "\<dots> = 55 - p" by (intro mod_less) linarith
    finally show ?thesis unfolding m using True by (simp add: zerosTo_def)
  next
    case less: False
    have "(119 - p) mod 64 = 119 - p" using less by (intro mod_less) linarith
    then show ?thesis unfolding m using less by (simp add: zerosTo_def)
  qed
qed (simp add: zerosTo_def)

lemma feed_pending: "length (snd s) < 64 \<Longrightarrow> length (snd (foldl feed s xs)) = (length (snd s) + length xs) mod 64"
proof (induction xs arbitrary: s)
  case (Cons x xs)
  have "length (snd (feed s x)) = (length (snd s) + 1) mod 64" and "length (snd (feed s x)) < 64"
    using Cons.prems by (auto simp: feed_def Let_def)
  then show ?case using Cons.IH [of "feed s x"] by (simp add: mod_add_left_eq)
qed simp

lemma feed_blocks:
  "length msg = 64 * n \<Longrightarrow> foldl feed (st, []) msg = (hashBlocks n st msg, [])"
proof (induction n arbitrary: st msg)
  case (Suc n)
  have "foldl feed (st, []) msg = foldl feed (foldl feed (st, []) (take 64 msg)) (drop 64 msg)"
    by (metis append_take_drop_id foldl_append)
  also have "foldl feed (st, []) (take 64 msg) = (compressSha256Block st (take 64 msg), [])"
    using feed_block [of "take 64 msg" "[]" st] Suc.prems by (cases msg) simp_all
  finally show ?case using Suc.IH [of "drop 64 msg"] Suc.prems by simp
qed simp

lemma finish_spec:
  assumes "sha_ok h"
  shows "finish h = Some (digestOf (fst (foldl feed (sha_abs h)
    (0x80 # replicate ((119 - sh_pendingBytes h) mod 64) 0 @ beBytes 8 (wrap64 (sh_totalBytes h * 8))))))"
proof -
  let ?m = "appendPadByte h 0x80"
  let ?zs = "replicate ((119 - sh_pendingBytes h) mod 64) (0::byte)"
  note one = appendPadByte_spec [OF assms, of "0x80"]
  have "zerosTo (sh_pendingBytes ?m) = (119 - sh_pendingBytes h) mod 64"
    using zerosTo_pad [of "sh_pendingBytes h"] assms one(4) by (simp add: sha_ok_def)
  then have pad: "padToLengthField h = Some (foldl appendPadByte ?m ?zs)"
    by (simp add: padToLengthField_def padZeros_spec [OF one(1)])
  define len where "len = beBytes 8 (wrap64 (sh_totalBytes h * 8))"
  have "sha_abs (foldl appendPadByte ?m (?zs @ len)) = foldl feed (sha_abs h) (0x80 # ?zs @ len)"
    using appendPadBytes_spec [OF one(1), of "?zs @ len"] one(2) by simp
  then have "sh_state (foldl appendPadByte (foldl appendPadByte ?m ?zs) len) =
      fst (foldl feed (sha_abs h) (0x80 # ?zs @ len))"
    by (metis fst_conv foldl_append sha_abs_def)
  then show ?thesis by (simp add: finish_def absorbTail_def pad flip: len_def)
qed

lemma padMessage_whole: "64 dvd length (padMessage msg)"
proof -
  define p q k z where "p = length msg mod 64" and "q = length msg div 64"
    and "k = (119 - p) div 64" and "z = (119 - p) mod 64"
  have "length msg = 64 * q + p" by (simp add: p_def q_def)
  moreover have "119 - p = 64 * k + z" by (simp add: k_def z_def)
  moreover have "p < 64" by (simp add: p_def)
  ultimately have "length msg + 1 + z + 8 = 64 * (q + 2 - k)" by (simp add: algebra_simps)
  moreover have "length (padMessage msg) = length msg + 1 + z + 8" by (simp add: padMessage_def z_def p_def)
  ultimately show ?thesis by simp
qed

fun updateAll :: "Sha256 \<Rightarrow> bytes list \<Rightarrow> Sha256 option" where
  "updateAll h [] = Some h"
| "updateAll h (d # ds) = Option.bind (update h d) (\<lambda>h'. updateAll h' ds)"

lemma updateAll_spec:
  "sha_ok h \<Longrightarrow> \<exists>h'. updateAll h ds = Some h' \<and> sha_ok h' \<and>
     sha_abs h' = foldl feed (sha_abs h) (concat ds) \<and>
     sh_totalBytes h' mod 2 ^ 64 = (sh_totalBytes h + length (concat ds)) mod 2 ^ 64"
proof (induction ds arbitrary: h)
  case (Cons d ds)
  obtain m where m: "update h d = Some m" "sha_ok m" "sha_abs m = foldl feed (sha_abs h) d"
    "sh_totalBytes m = wrap64 (sh_totalBytes h + length d)"
    using update_spec [OF Cons.prems] by metis
  obtain h' where h': "updateAll m ds = Some h'" "sha_ok h'" "sha_abs h' = foldl feed (sha_abs m) (concat ds)"
    "sh_totalBytes h' mod 2 ^ 64 = (sh_totalBytes m + length (concat ds)) mod 2 ^ 64"
    using Cons.IH [OF m(2)] by blast
  have "sh_totalBytes h' mod 2 ^ 64 = (sh_totalBytes h + length (concat (d # ds))) mod 2 ^ 64"
    using h'(4) m(4) by (simp add: wrap64_def mod_add_left_eq add.assoc)
  then show ?case using m(1,3) h'(1,2,3) by simp
qed simp

lemma fresh_ok: "sha_ok sha256Fresh" and fresh_abs: "sha_abs sha256Fresh = (kInitialState, [])"
  by (simp_all add: sha_ok_def sha_abs_def sha256Fresh_def kSha256BlockBytes_def)

lemma streamed_reference:
  "Option.bind (updateAll sha256Fresh ds) finish = Some (sha256_reference (concat ds))"
proof -
  let ?msg = "concat ds"
  obtain h where h: "updateAll sha256Fresh ds = Some h" "sha_ok h"
    "sha_abs h = foldl feed (kInitialState, []) ?msg"
    "sh_totalBytes h mod 2 ^ 64 = length ?msg mod 2 ^ 64"
    using updateAll_spec [OF fresh_ok, of ds] by (auto simp: fresh_abs) (simp add: sha256Fresh_def)
  have "sh_pendingBytes h = length (snd (sha_abs h))" using h(2) by (simp add: sha_abs_def sha_ok_def)
  also have "\<dots> = length ?msg mod 64"
    using h(3) feed_pending [of "(kInitialState, [])" ?msg] by simp
  finally have p: "sh_pendingBytes h = length ?msg mod 64" .
  have w: "wrap64 (sh_totalBytes h * 8) = wrap64 (length ?msg * 8)"
    using h(4) unfolding wrap64_def by (metis mod_mult_left_eq)
  have "finish h = Some (digestOf (fst (foldl feed (kInitialState, []) (padMessage ?msg))))"
    using finish_spec [OF h(2)] h(3) by (simp add: p w padMessage_def)
  moreover obtain n where "length (padMessage ?msg) = 64 * n" using padMessage_whole by (auto elim: dvdE)
  ultimately show ?thesis using h(1) by (simp add: sha256_reference_def feed_blocks)
qed

subsection \<open>Properties\<close>

text \<open>
  C17: Hashing content in any chunks, however they cut it, always finishes and gives the digest of the
  padded concatenation taken block by block: the digest of an artifact does not depend on how the
  copy loop sliced it.
\<close>
theorem streamed_digest_is_reference:
  "Option.bind (updateAll sha256Fresh chunks) finish = Some (sha256_reference (concat chunks))"
  by (rule streamed_reference)

end
