(* ===== verification/Regions.thy ===== *)
theory Regions
  imports Bytes
begin

text \<open>
  \<open>src/recovery/RegionSet.cpp\<close> with the vocabulary of \<open>include/revenant/fs/Types.hpp\<close>:
  which bytes of the device are already spoken for. The \<open>std::map\<close> from a region's start
  to one past its end is an association list in key order; \<open>regionBytes\<close> abstracts it to
  the set of device bytes it claims, \<open>regions_ok\<close> is the representation invariant, and
  the locale \<open>claim_set\<close> is the contract byte accounting and arbitration rely on.
\<close>

subsection \<open>Data\<close>

record Extent =
  deviceOffset :: u64
  lengthBytes :: u64

record ScanRegion =
  sr_offset :: u64
  sr_length :: u64

record Timestamps =
  ts_created :: u64
  ts_modified :: u64
  ts_accessed :: u64

datatype EntryState = kLive | kDeleted | kOrphaned

type_synonym Regions = "(u64 \<times> u64) list"

subsection \<open>Operations\<close>

definition endOf :: "Extent \<Rightarrow> u64" where
  "endOf region =
     (if lengthBytes region > max64 - deviceOffset region then max64
      else deviceOffset region + lengthBytes region)"

text \<open>
  \<open>firstTouching\<close> yields an iterator; here it splits the map at that iterator, into the
  regions before it and the regions from it on.
\<close>

definition firstTouching :: "Regions \<Rightarrow> u64 \<Rightarrow> Regions \<times> Regions" where
  "firstTouching regions start =
     (let before = takeWhile (\<lambda>r. fst r \<le> start) regions;
          after = dropWhile (\<lambda>r. fst r \<le> start) regions
      in if before \<noteq> [] \<and> snd (last before) \<ge> start
         then (butlast before, last before # after)
         else (before, after))"

fun absorbFrom :: "Regions \<Rightarrow> u64 \<times> u64 \<Rightarrow> Regions \<times> (u64 \<times> u64)" where
  "absorbFrom [] span = ([], span)"
| "absorbFrom ((s, f) # at) (a, b) =
     (if s \<le> b then absorbFrom at (min a s, max b f) else ((s, f) # at, (a, b)))"

fun mapPut :: "Regions \<Rightarrow> u64 \<Rightarrow> u64 \<Rightarrow> Regions" where
  "mapPut [] k v = [(k, v)]"
| "mapPut ((k', v') # m) k v =
     (if k < k' then (k, v) # (k', v') # m
      else if k = k' then (k, v) # m
      else (k', v') # mapPut m k v)"

definition regionAdd :: "Regions \<Rightarrow> Extent \<Rightarrow> Regions" where
  "regionAdd regions region =
     (if lengthBytes region = 0 then regions
      else
        (let (before, at) = firstTouching regions (deviceOffset region);
             (rest, fused) = absorbFrom at (deviceOffset region, endOf region)
         in mapPut (before @ rest) (fst fused) (snd fused)))"

definition regionOverlaps :: "Regions \<Rightarrow> Extent \<Rightarrow> bool" where
  "regionOverlaps regions region =
     (if lengthBytes region = 0 then False
      else
        (let before = takeWhile (\<lambda>r. fst r \<le> deviceOffset region) regions;
             after = dropWhile (\<lambda>r. fst r \<le> deviceOffset region) regions
         in if before \<noteq> [] \<and> snd (last before) > deviceOffset region then True
            else after \<noteq> [] \<and> fst (hd after) < endOf region))"

record Complement =
  c_gaps :: "ScanRegion list"
  c_cursor :: u64

definition takeUpTo :: "Complement \<Rightarrow> u64 \<Rightarrow> Complement" where
  "takeUpTo complement upTo =
     (if upTo \<le> c_cursor complement then complement
      else \<lparr>c_gaps = c_gaps complement @
                [\<lparr>sr_offset = c_cursor complement, sr_length = upTo - c_cursor complement\<rparr>],
            c_cursor = upTo\<rparr>)"

definition gapStep :: "u64 \<Rightarrow> Complement \<Rightarrow> u64 \<times> u64 \<Rightarrow> Complement" where
  "gapStep deviceSize complement r =
     (let taken = takeUpTo complement (min (fst r) deviceSize)
      in taken\<lparr>c_cursor := max (c_cursor taken) (min (snd r) deviceSize)\<rparr>)"

definition regionGaps :: "Regions \<Rightarrow> u64 \<Rightarrow> ScanRegion list" where
  "regionGaps regions deviceSize =
     c_gaps (takeUpTo
       (foldl (gapStep deviceSize) \<lparr>c_gaps = [], c_cursor = 0\<rparr> regions) deviceSize)"

definition claimedBytes :: "Regions \<Rightarrow> u64" where
  "claimedBytes regions = foldl (\<lambda>sum r. wrap64 (sum + (snd r - fst r))) 0 regions"

definition regionCount :: "Regions \<Rightarrow> nat" where
  "regionCount regions = length regions"

subsection \<open>Meaning and invariant\<close>

definition regionBytes :: "Regions \<Rightarrow> nat set" where
  "regionBytes regions = (\<Union>(s, f) \<in> set regions. {s..<f})"

definition extentBytes :: "Extent \<Rightarrow> nat set" where
  "extentBytes e = {deviceOffset e..<endOf e}"

definition scanBytes :: "ScanRegion list \<Rightarrow> nat set" where
  "scanBytes gs = (\<Union>g \<in> set gs. {sr_offset g..<sr_offset g + sr_length g})"

text \<open>The bytes an extent names, and that it names bytes the device has.\<close>

definition extent_bytes :: "bytes \<Rightarrow> Extent \<Rightarrow> bytes" where
  "extent_bytes content extent = take (lengthBytes extent) (drop (deviceOffset extent) content)"

definition extent_inside :: "bytes \<Rightarrow> Extent \<Rightarrow> bool" where
  "extent_inside content extent \<longleftrightarrow> deviceOffset extent + lengthBytes extent \<le> length content"

text \<open>
  A region is non-empty, except that a claim starting at the last representable offset
  saturates to an empty one; regions neither overlap nor touch.
\<close>

definition region_ok :: "u64 \<times> u64 \<Rightarrow> bool" where
  "region_ok r \<longleftrightarrow> snd r \<le> max64 \<and> (fst r < snd r \<or> fst r = max64 \<and> snd r = max64)"

definition regions_ok :: "Regions \<Rightarrow> bool" where
  "regions_ok regions \<longleftrightarrow>
     list_all region_ok regions \<and> sorted_wrt (\<lambda>a b. snd a < fst b) regions"

definition gaps_between :: "nat \<Rightarrow> nat \<Rightarrow> nat set \<Rightarrow> ScanRegion list \<Rightarrow> bool" where
  "gaps_between lo hi claimed new \<longleftrightarrow>
     scanBytes new = {lo..<hi} - claimed \<and>
     (\<forall>g \<in> set new. 0 < sr_length g \<and> lo \<le> sr_offset g) \<and>
     sorted_wrt (\<lambda>g h. sr_offset g + sr_length g < sr_offset h) new"

definition extent_ok :: "Extent \<Rightarrow> bool" where
  "extent_ok e \<longleftrightarrow> deviceOffset e \<le> max64 \<and> lengthBytes e \<le> max64"

lemma regionBytes_simps [simp, region_simps]:
  "regionBytes [] = {}"
  "regionBytes (r # rs) = {fst r..<snd r} \<union> regionBytes rs"
  "regionBytes (xs @ ys) = regionBytes xs \<union> regionBytes ys"
  by (auto simp: regionBytes_def)

lemma scanBytes_simps [simp, region_simps]:
  "scanBytes [] = {}"
  "scanBytes (g # gs) = {sr_offset g..<sr_offset g + sr_length g} \<union> scanBytes gs"
  "scanBytes (gs @ hs) = scanBytes gs \<union> scanBytes hs"
  by (auto simp: scanBytes_def)

lemma region_okD: "region_ok r \<Longrightarrow> fst r \<le> snd r \<and> snd r \<le> max64"
  by (auto simp: region_ok_def)

lemma regions_ok_Nil [simp]: "regions_ok []"
  by (simp add: regions_ok_def)

lemma regions_ok_Cons:
  "regions_ok (r # rs) \<longleftrightarrow> region_ok r \<and> (\<forall>q \<in> set rs. snd r < fst q) \<and> regions_ok rs"
  by (auto simp: regions_ok_def)

lemma regions_ok_append:
  "regions_ok (xs @ ys) \<longleftrightarrow>
     regions_ok xs \<and> regions_ok ys \<and> (\<forall>x \<in> set xs. \<forall>y \<in> set ys. snd x < fst y)"
  by (auto simp: regions_ok_def sorted_wrt_append)

lemma regions_ok_memberD: "regions_ok rs \<Longrightarrow> r \<in> set rs \<Longrightarrow> region_ok r"
  by (auto simp: regions_ok_def list_all_iff)

lemma endOf_bounds: "extent_ok e \<Longrightarrow> deviceOffset e \<le> endOf e \<and> endOf e \<le> max64"
  by (auto simp: endOf_def extent_ok_def)

lemma extentBytes_empty: "lengthBytes e = 0 \<Longrightarrow> extent_ok e \<Longrightarrow> extentBytes e = {}"
  by (simp add: extentBytes_def endOf_def extent_ok_def)

lemma extent_span_ok:
  "extent_ok e \<Longrightarrow> lengthBytes e \<noteq> 0 \<Longrightarrow> region_ok (deviceOffset e, endOf e)"
  by (auto simp: region_ok_def endOf_def extent_ok_def)

lemma length_extent_bytes: "extent_inside content extent \<Longrightarrow> length (extent_bytes content extent) = lengthBytes extent"
  by (simp add: extent_inside_def extent_bytes_def)

subsection \<open>Splitting at the upper bound\<close>

lemma upper_bound_split:
  fixes k :: u64 and rs :: Regions
  assumes "regions_ok rs"
  defines "before \<equiv> takeWhile (\<lambda>r. fst r \<le> k) rs" and "after \<equiv> dropWhile (\<lambda>r. fst r \<le> k) rs"
  shows "rs = before @ after" and "\<forall>r \<in> set before. fst r \<le> k" and "\<forall>r \<in> set after. k < fst r"
proof -
  show split: "rs = before @ after" by (simp add: before_def after_def)
  show "\<forall>r \<in> set before. fst r \<le> k" using set_takeWhileD before_def by fastforce
  show "\<forall>r \<in> set after. k < fst r"
  proof (cases after)
    case (Cons a rest)
    then have a: "k < fst a"
      unfolding after_def using hd_dropWhile [of "\<lambda>r. fst r \<le> k" rs] by (metis list.sel(1) not_le list.distinct(1))
    have "regions_ok (a # rest)"
      using assms(1) split Cons by (simp add: regions_ok_append)
    then show ?thesis
      using a Cons by (auto simp: regions_ok_Cons dest!: region_okD)
  qed simp
qed

lemma firstTouching_spec:
  assumes ok: "regions_ok rs" and ft: "firstTouching rs start = (before, at)"
  shows "rs = before @ at" and "\<forall>r \<in> set before. snd r < start"
    and "\<forall>r \<in> set at. start \<le> snd r"
proof -
  define b where "b = takeWhile (\<lambda>r. fst r \<le> start) rs"
  define a where "a = dropWhile (\<lambda>r. fst r \<le> start) rs"
  note split = upper_bound_split [OF ok, of start, folded b_def a_def]
  have a_ge: "\<forall>r \<in> set a. start \<le> snd r"
    using split ok by (auto simp: regions_ok_append dest!: regions_ok_memberD region_okD)
  have cases: "(before, at) = (if b \<noteq> [] \<and> snd (last b) \<ge> start
      then (butlast b, last b # a) else (b, a))"
    using ft unfolding firstTouching_def Let_def b_def a_def by (rule sym)
  have "rs = before @ at \<and> (\<forall>r \<in> set before. snd r < start) \<and> (\<forall>r \<in> set at. start \<le> snd r)"
  proof (cases "b \<noteq> [] \<and> snd (last b) \<ge> start")
    case True
    then have eqs: "before = butlast b" "at = last b # a" using cases by auto
    have bl: "b = butlast b @ [last b]" using True by simp
    have "\<forall>r \<in> set (butlast b). snd r < fst (last b)"
      using ok split(1) bl by (metis regions_ok_append list.set_intros(1))
    moreover have "fst (last b) \<le> start" using True split(2) by simp
    ultimately show ?thesis using eqs split(1) bl True a_ge by fastforce
  next
    case False
    then have eqs: "before = b" "at = a" using cases by (auto split: if_splits)
    have "\<forall>r \<in> set b. snd r < start"
    proof (cases "b = []")
      case b_ne: False
      then have bl: "b = butlast b @ [last b]" by simp
      have "\<forall>r \<in> set (butlast b). snd r < fst (last b)"
        using ok split(1) bl by (metis regions_ok_append list.set_intros(1))
      moreover have "fst (last b) \<le> start" using b_ne split(2) by simp
      moreover have "snd (last b) < start" using False b_ne by simp
      ultimately show ?thesis using bl by (metis Un_iff empty_iff insert_iff list.set(1,2) order.strict_trans2 set_append)
    qed simp
    then show ?thesis using eqs split(1) a_ge by simp
  qed
  then show "rs = before @ at" "\<forall>r \<in> set before. snd r < start"
    "\<forall>r \<in> set at. start \<le> snd r" by auto
qed

subsection \<open>Absorbing\<close>

lemma absorbFrom_spec:
  assumes "regions_ok at" and "region_ok (a, b)" and "\<forall>r \<in> set at. a \<le> snd r"
    and "absorbFrom at (a, b) = (rest, (a', b'))"
  shows "regionBytes rest \<union> {a'..<b'} = regionBytes at \<union> {a..<b} \<and> region_ok (a', b') \<and>
    regions_ok rest \<and> (\<forall>r \<in> set rest. b' < fst r) \<and> set rest \<subseteq> set at \<and>
    a' \<le> a \<and> (a' = a \<or> a' \<in> fst ` set at)"
  using assms
proof (induction at "(a, b)" arbitrary: a b rule: absorbFrom.induct)
  case (2 s f at a b)
  show ?case
  proof (cases "s \<le> b")
    case True
    have r: "region_ok (s, f)" "\<forall>q \<in> set at. f < fst q" "regions_ok at"
      using "2.prems"(1) by (auto simp: regions_ok_Cons)
    have af: "a \<le> f" using "2.prems"(3) by simp
    have ok: "region_ok (min a s, max b f)"
      using r(1) "2.prems"(2) by (auto simp: region_ok_def)
    have reach: "\<forall>q \<in> set at. min a s \<le> snd q" using "2.prems"(3) by auto
    have fuse: "{min a s..<max b f} = {a..<b} \<union> {s..<f}"
      using True af r(1) "2.prems"(2) by (auto simp: region_ok_def)
    have rec: "absorbFrom at (min a s, max b f) = (rest, (a', b'))"
      using "2.prems"(4) True by simp
    show ?thesis
      using "2.hyps" [OF True r(3) ok reach rec] fuse by (auto simp: min_def split: if_splits)
  next
    case False
    then have "rest = (s, f) # at" "a' = a" "b' = b" using "2.prems"(4) by auto
    moreover have "\<forall>q \<in> set at. b < fst q"
      using "2.prems"(1) False by (auto simp: regions_ok_Cons dest!: region_okD)
    ultimately show ?thesis using "2.prems" False by auto
  qed
qed auto

lemma mapPut_between:
  "\<forall>r \<in> set xs. fst r < k \<Longrightarrow> \<forall>r \<in> set ys. k < fst r \<Longrightarrow>
   mapPut (xs @ ys) k v = xs @ (k, v) # ys"
proof (induction xs)
  case Nil
  then show ?case by (cases ys) auto
next
  case (Cons x xs)
  then show ?case by (cases x) auto
qed

lemma regionAdd_spec:
  assumes ok: "regions_ok rs" and e: "extent_ok e"
  shows "regions_ok (regionAdd rs e) \<and> regionBytes (regionAdd rs e) = regionBytes rs \<union> extentBytes e"
proof (cases "lengthBytes e = 0")
  case True
  then show ?thesis using ok e by (simp add: regionAdd_def extentBytes_empty)
next
  case False
  obtain before at where ft: "firstTouching rs (deviceOffset e) = (before, at)"
    by (cases "firstTouching rs (deviceOffset e)")
  obtain rest a b where ab: "absorbFrom at (deviceOffset e, endOf e) = (rest, (a, b))"
    by (metis prod.exhaust)
  note split = firstTouching_spec [OF ok ft]
  have at_ok: "regions_ok at" and before_ok: "regions_ok before"
    and cross: "\<forall>x \<in> set before. \<forall>y \<in> set at. snd x < fst y"
    using ok split(1) by (auto simp: regions_ok_append)
  note absorbed = absorbFrom_spec [OF at_ok extent_span_ok [OF e False] split(3) ab]
  have before_lt: "\<forall>x \<in> set before. snd x < a"
    using absorbed cross split(2) by auto
  then have "\<forall>x \<in> set before. fst x < a"
    using before_ok by (meson le_less_trans region_okD regions_ok_memberD)
  moreover have "a \<le> b" and "\<forall>r \<in> set rest. b < fst r"
    using absorbed region_okD [of "(a, b)"] by simp_all
  then have "\<forall>r \<in> set rest. a < fst r" by (meson le_less_trans)
  ultimately have res: "regionAdd rs e = before @ (a, b) # rest"
    using False ft ab by (simp add: regionAdd_def mapPut_between)
  have cross_rest: "\<forall>x \<in> set before. \<forall>y \<in> set rest. snd x < fst y"
    using absorbed cross by blast
  have "regions_ok (before @ (a, b) # rest)"
    unfolding regions_ok_append regions_ok_Cons
    using before_ok before_lt absorbed cross_rest by simp
  moreover have "regionBytes (before @ (a, b) # rest) = regionBytes rs \<union> extentBytes e"
    using absorbed split(1) by (auto simp: extentBytes_def)
  ultimately show ?thesis using res by simp
qed

subsection \<open>Overlap\<close>

lemma regionOverlaps_spec:
  assumes ok: "regions_ok rs" and e: "extent_ok e"
  shows "regionOverlaps rs e \<longleftrightarrow> regionBytes rs \<inter> extentBytes e \<noteq> {}"
proof (cases "lengthBytes e = 0")
  case True
  then show ?thesis using e by (simp add: regionOverlaps_def extentBytes_empty)
next
  case False
  define b where "b = takeWhile (\<lambda>r. fst r \<le> deviceOffset e) rs"
  define a where "a = dropWhile (\<lambda>r. fst r \<le> deviceOffset e) rs"
  note split = upper_bound_split [OF ok, of "deviceOffset e", folded b_def a_def]
  have ends: "deviceOffset e \<le> endOf e" "endOf e \<le> max64" using endOf_bounds [OF e] by auto
  have before: "regionBytes b \<inter> extentBytes e \<noteq> {} \<longleftrightarrow> b \<noteq> [] \<and> snd (last b) > deviceOffset e"
  proof (cases "b = []")
    case b_ne: False
    then have bl: "b = butlast b @ [last b]" by simp
    have lt: "\<forall>r \<in> set (butlast b). snd r < fst (last b)" "region_ok (last b)"
      using ok split(1) bl by (metis regions_ok_append list.set_intros(1))
        (use ok split(1) b_ne in \<open>auto intro: regions_ok_memberD simp: regions_ok_append\<close>)
    have le: "fst (last b) \<le> deviceOffset e" using b_ne split(2) by simp
    have "regionBytes (butlast b) \<inter> extentBytes e = {}"
      using lt(1) le by (fastforce simp: regionBytes_def extentBytes_def)
    then have "regionBytes b \<inter> extentBytes e = {fst (last b)..<snd (last b)} \<inter> extentBytes e"
      using bl by (metis Int_Un_distrib2 Un_empty_right regionBytes_simps Un_empty_left)
    moreover have "\<dots> \<noteq> {} \<longleftrightarrow> snd (last b) > deviceOffset e"
      using le lt(2) False e by (auto simp: extentBytes_def endOf_def extent_ok_def region_ok_def)
    ultimately show ?thesis using b_ne by simp
  qed simp
  have after: "regionBytes a \<inter> extentBytes e \<noteq> {} \<longleftrightarrow> a \<noteq> [] \<and> fst (hd a) < endOf e"
  proof (cases a)
    case (Cons r rest)
    have r: "regions_ok (r # rest)" using ok split(1) Cons by (simp add: regions_ok_append)
    have gt: "deviceOffset e < fst r" using split(3) Cons by simp
    have "\<forall>q \<in> set rest. fst r \<le> fst q"
      using r by (auto simp: regions_ok_Cons dest!: region_okD)
    then have "fst r < endOf e" if "regionBytes a \<inter> extentBytes e \<noteq> {}"
      using that Cons by (fastforce simp: regionBytes_def extentBytes_def)
    moreover have "fst r \<in> regionBytes a \<inter> extentBytes e" if "fst r < endOf e"
      using that r gt ends Cons by (auto simp: extentBytes_def regions_ok_Cons region_ok_def)
    ultimately show ?thesis using Cons by auto
  qed simp
  have "regionOverlaps rs e \<longleftrightarrow>
      (b \<noteq> [] \<and> snd (last b) > deviceOffset e) \<or> (a \<noteq> [] \<and> fst (hd a) < endOf e)"
    using False by (simp add: regionOverlaps_def Let_def flip: b_def a_def)
  also have "\<dots> \<longleftrightarrow> regionBytes rs \<inter> extentBytes e \<noteq> {}"
    using before after split(1) by (metis Int_Un_distrib2 Un_empty regionBytes_simps(3))
  finally show ?thesis .
qed

subsection \<open>The complement\<close>

lemma gapStep_simps:
  "c_cursor c \<le> fst r \<Longrightarrow> fst r \<le> snd r \<Longrightarrow> c_cursor c \<le> ds \<Longrightarrow>
   c_cursor (gapStep ds c r) = max (c_cursor c) (min (snd r) ds)"
  "c_gaps (gapStep ds c r) = c_gaps c @ (if min (fst r) ds \<le> c_cursor c then []
      else [\<lparr>sr_offset = c_cursor c, sr_length = min (fst r) ds - c_cursor c\<rparr>])"
  by (auto simp: gapStep_def takeUpTo_def Let_def)

lemma gaps_between_skip:
  assumes "gaps_between (min f ds) ds claimed new" and "s \<le> f" and "lo \<le> s"
    and "min s ds \<le> lo" and "claimed \<inter> {..f} = {}" and "lo \<le> ds"
  shows "gaps_between lo ds ({s..<f} \<union> claimed) new"
  using assms unfolding gaps_between_def by (auto simp: min_def split: if_splits)

lemma gaps_between_empty: "gaps_between lo hi claimed new \<Longrightarrow> hi \<le> lo \<Longrightarrow> new = []"
  by (cases new) (auto simp: gaps_between_def)

lemma gaps_between_emit:
  assumes "gaps_between (min f ds) ds claimed new" and "s < f \<or> ds \<le> s" and "s \<le> f"
    and "lo < min s ds" and "claimed \<inter> {..f} = {}"
  shows "gaps_between lo ds ({s..<f} \<union> claimed)
    (\<lparr>sr_offset = lo, sr_length = min s ds - lo\<rparr> # new)"
proof (cases "s < ds")
  case True
  then have "min s ds = s" "s < min f ds" using assms(2) by auto
  then show ?thesis
    using assms True unfolding gaps_between_def by (auto simp: min_def split: if_splits)
next
  case False
  then have "new = []" using gaps_between_empty [OF assms(1)] assms(3) by simp
  moreover have "claimed \<inter> {lo..<ds} = {}" using assms(3,5) False by fastforce
  ultimately show ?thesis
    using assms False by (auto simp: gaps_between_def)
qed

lemma gapStep_fold:
  "regions_ok rs \<Longrightarrow> \<forall>r \<in> set rs. c_cursor c \<le> fst r \<Longrightarrow> c_cursor c \<le> ds \<Longrightarrow> ds \<le> max64 \<Longrightarrow>
   \<exists>new. c_gaps (takeUpTo (foldl (gapStep ds) c rs) ds) = c_gaps c @ new \<and>
         gaps_between (c_cursor c) ds (regionBytes rs) new"
proof (induction rs arbitrary: c)
  case Nil
  show ?case
    using Nil.prems by (cases "ds \<le> c_cursor c") (auto simp: takeUpTo_def gaps_between_def)
next
  case (Cons r rs)
  have ok: "region_ok r" "\<forall>q \<in> set rs. snd r < fst q" "regions_ok rs"
    using Cons.prems(1) by (auto simp: regions_ok_Cons)
  have cur: "c_cursor c \<le> fst r" "fst r \<le> snd r"
    using Cons.prems(2) ok(1) region_okD by auto
  note step = gapStep_simps(1) [OF cur Cons.prems(3)]
  have cursor: "c_cursor (gapStep ds c r) = min (snd r) ds"
    using step cur Cons.prems(3) by auto
  have le: "\<forall>q \<in> set rs. c_cursor (gapStep ds c r) \<le> fst q" "c_cursor (gapStep ds c r) \<le> ds"
    using ok(2) by (auto simp: cursor)
  obtain new where
    new: "c_gaps (takeUpTo (foldl (gapStep ds) (gapStep ds c r) rs) ds) = c_gaps (gapStep ds c r) @ new"
    "gaps_between (min (snd r) ds) ds (regionBytes rs) new"
    using Cons.IH [OF ok(3) le Cons.prems(4)] unfolding cursor by blast
  have apart: "regionBytes rs \<inter> {..snd r} = {}"
    using ok(2) by (fastforce simp: regionBytes_def)
  show ?case
  proof (cases "min (fst r) ds \<le> c_cursor c")
    case True
    then show ?thesis
      using gaps_between_skip [OF new(2) cur(2,1) True apart] new(1) Cons.prems(3)
      by (auto simp: gapStep_simps(2))
  next
    case False
    have "fst r < snd r \<or> ds \<le> fst r" using ok(1) Cons.prems(4) by (auto simp: region_ok_def)
    moreover have "c_cursor c < min (fst r) ds" using False by (simp only: not_le)
    ultimately show ?thesis
      using gaps_between_emit [OF new(2) _ cur(2) _ apart] False new(1) by (simp add: gapStep_simps(2))
  qed
qed

lemma regionGaps_spec:
  "regions_ok rs \<Longrightarrow> ds \<le> max64 \<Longrightarrow> gaps_between 0 ds (regionBytes rs) (regionGaps rs ds)"
  using gapStep_fold [of rs "\<lparr>c_gaps = [], c_cursor = 0\<rparr>" ds] by (auto simp: regionGaps_def)

subsection \<open>Counting\<close>

lemma regionBytes_bounded: "regions_ok rs \<Longrightarrow> regionBytes rs \<subseteq> {..<max64}"
  by (fastforce simp: regionBytes_def dest: regions_ok_memberD region_okD)

lemma claimedBytes_fold:
  "regions_ok rs \<Longrightarrow> n + card (regionBytes rs) \<le> max64 \<Longrightarrow>
   foldl (\<lambda>sum r. wrap64 (sum + (snd r - fst r))) n rs = n + card (regionBytes rs)"
proof (induction rs arbitrary: n)
  case (Cons r rs)
  have "regionBytes rs \<inter> {fst r..<snd r} = {}" and ok: "regions_ok rs"
    using Cons.prems(1) by (fastforce simp: regions_ok_Cons regionBytes_def)+
  moreover have "finite (regionBytes rs)"
    using regionBytes_bounded [OF ok] finite_subset by blast
  ultimately have card: "card (regionBytes (r # rs)) = (snd r - fst r) + card (regionBytes rs)"
    by (simp add: card_Un_disjoint Int_commute)
  then have "n + (snd r - fst r) + card (regionBytes rs) \<le> max64" using Cons.prems(2) by simp
  then show ?case using Cons.IH [OF ok, of "n + (snd r - fst r)"] card by simp
qed simp

lemma claimedBytes_spec:
  assumes "regions_ok rs"
  shows "claimedBytes rs = card (regionBytes rs)"
proof -
  have "card (regionBytes rs) \<le> card {..<max64}"
    using regionBytes_bounded [OF assms] by (intro card_mono) simp_all
  then show ?thesis using claimedBytes_fold [OF assms, of 0] by (simp add: claimedBytes_def)
qed

subsection \<open>The contract\<close>

text \<open>
  What a client of the region set may rely on: claims accumulate as sets of bytes, the
  overlap test is intersection, and the representation invariant is kept.
\<close>

locale claim_set =
  fixes empty :: 'r
    and add :: "'r \<Rightarrow> Extent \<Rightarrow> 'r"
    and overlaps :: "'r \<Rightarrow> Extent \<Rightarrow> bool"
    and bytes_of :: "'r \<Rightarrow> nat set"
    and invar :: "'r \<Rightarrow> bool"
  assumes bytes_empty: "bytes_of empty = {}"
    and invar_empty: "invar empty"
    and invar_add: "invar r \<Longrightarrow> extent_ok e \<Longrightarrow> invar (add r e)"
    and bytes_add: "invar r \<Longrightarrow> extent_ok e \<Longrightarrow> bytes_of (add r e) = bytes_of r \<union> extentBytes e"
    and overlaps_iff:
      "invar r \<Longrightarrow> extent_ok e \<Longrightarrow> overlaps r e \<longleftrightarrow> bytes_of r \<inter> extentBytes e \<noteq> {}"
begin

lemma invar_foldl: "invar r \<Longrightarrow> list_all extent_ok es \<Longrightarrow> invar (foldl add r es)"
  by (induction es arbitrary: r) (simp_all add: invar_add)

lemma bytes_foldl:
  "invar r \<Longrightarrow> list_all extent_ok es \<Longrightarrow>
   bytes_of (foldl add r es) = bytes_of r \<union> (\<Union>e \<in> set es. extentBytes e)"
  by (induction es arbitrary: r) (auto simp: invar_add bytes_add)

lemma list_ex_overlaps_iff:
  "invar r \<Longrightarrow> list_all extent_ok es \<Longrightarrow>
   list_ex (overlaps r) es \<longleftrightarrow> bytes_of r \<inter> (\<Union>e \<in> set es. extentBytes e) \<noteq> {}"
  by (auto simp: list_ex_iff list_all_iff overlaps_iff)

lemma add_blocks: "invar r \<Longrightarrow> extent_ok e \<Longrightarrow> extentBytes e \<noteq> {} \<Longrightarrow> overlaps (add r e) e"
  by (auto simp: overlaps_iff invar_add bytes_add)

end

interpretation rs: claim_set "[]" regionAdd regionOverlaps regionBytes regions_ok
  by unfold_locales (simp_all add: regionAdd_spec regionOverlaps_spec)

subsection \<open>Properties\<close>

lemmas region_eval =
  regions_ok_def region_ok_def extent_ok_def endOf_def max64_def firstTouching_def regionAdd_def
  regionOverlaps_def regionGaps_def gapStep_def takeUpTo_def claimedBytes_def

text \<open>
  C10: Adding a claim to a well-formed region set (sorted, disjoint, no two regions touching) keeps it
  well-formed and makes the claimed bytes exactly the old ones together with the extent's, whatever
  regions the extent overlaps, touches or bridges, and even where the extent's end saturates at
  the last representable offset.
\<close>
theorem region_set_add_is_union:
  assumes "regions_ok rs" and "extent_ok e"
  shows "regions_ok (regionAdd rs e) \<and> regionBytes (regionAdd rs e) = regionBytes rs \<union> extentBytes e"
  using assms by (simp add: rs.invar_add rs.bytes_add)

theorem region_set_add_is_union_witness:
  "regions_ok [(10, 20), (30, 40)] \<and> extent_ok \<lparr>deviceOffset = 20, lengthBytes = 10\<rparr> \<and>
   regionAdd [(10, 20), (30, 40)] \<lparr>deviceOffset = 20, lengthBytes = 10\<rparr> = [(10, 40)] \<and>
   regionBytes [(10, 40)] = regionBytes [(10, 20), (30, 40)] \<union> extentBytes \<lparr>deviceOffset = 20, lengthBytes = 10\<rparr>"
proof -
  have ok: "regions_ok [(10, 20), (30, 40)]" "extent_ok \<lparr>deviceOffset = 20, lengthBytes = 10\<rparr>"
    and add: "regionAdd [(10, 20), (30, 40)] \<lparr>deviceOffset = 20, lengthBytes = 10\<rparr> = [(10, 40)]"
    by (simp_all add: region_eval wrap64_def Let_def)
  show ?thesis using ok add region_set_add_is_union [OF ok] by simp
qed

text \<open>
  The overlap test that arbitration decides conflicts by is exact: it answers true precisely
  when the extent and the claimed regions share a byte; touching end to end is no overlap.
\<close>
theorem region_set_overlap_is_intersection:
  assumes "regions_ok rs" and "extent_ok e"
  shows "regionOverlaps rs e \<longleftrightarrow> regionBytes rs \<inter> extentBytes e \<noteq> {}"
  using assms by (rule rs.overlaps_iff)

theorem region_set_overlap_is_intersection_witness:
  "regions_ok [(10, 20), (30, 40)] \<and> extent_ok \<lparr>deviceOffset = 20, lengthBytes = 10\<rparr> \<and>
   regionBytes [(10, 20), (30, 40)] \<inter> extentBytes \<lparr>deviceOffset = 20, lengthBytes = 10\<rparr> = {}"
proof -
  have ok: "regions_ok [(10, 20), (30, 40)]" "extent_ok \<lparr>deviceOffset = 20, lengthBytes = 10\<rparr>"
    and no: "\<not> regionOverlaps [(10, 20), (30, 40)] \<lparr>deviceOffset = 20, lengthBytes = 10\<rparr>"
    by (simp_all add: region_eval wrap64_def Let_def)
  show ?thesis using ok no region_set_overlap_is_intersection [OF ok] by simp
qed

text \<open>
  The gaps of a region set over a device are exactly the device's unclaimed bytes, as non-empty
  regions in device order that neither overlap nor touch.
\<close>
theorem region_gaps_are_complement:
  assumes "regions_ok rs" and "ds \<le> max64"
  shows "scanBytes (regionGaps rs ds) = {..<ds} - regionBytes rs \<and>
    (\<forall>g \<in> set (regionGaps rs ds). 0 < sr_length g) \<and>
    sorted_wrt (\<lambda>g h. sr_offset g + sr_length g < sr_offset h) (regionGaps rs ds)"
  using regionGaps_spec [OF assms] by (auto simp: gaps_between_def)

theorem region_gaps_are_complement_witness:
  "regions_ok [(10, 20), (30, 40)] \<and>
   scanBytes [\<lparr>sr_offset = 0, sr_length = 10\<rparr>, \<lparr>sr_offset = 20, sr_length = 10\<rparr>] =
     {..<35} - regionBytes [(10, 20), (30, 40)]"
proof -
  have ok: "regions_ok [(10, 20), (30, 40)]" "(35::nat) \<le> max64"
    and gaps: "regionGaps [(10, 20), (30, 40)] 35 = [\<lparr>sr_offset = 0, sr_length = 10\<rparr>, \<lparr>sr_offset = 20, sr_length = 10\<rparr>]"
    by (simp_all add: region_eval wrap64_def Let_def)
  show ?thesis using ok(1) region_gaps_are_complement [OF ok] unfolding gaps by simp
qed

text \<open>The byte count a region set reports is the number of distinct bytes it claims; the sum never wraps.\<close>
theorem claimed_bytes_is_cardinality:
  assumes "regions_ok rs"
  shows "claimedBytes rs = card (regionBytes rs)"
  using assms by (rule claimedBytes_spec)

theorem claimed_bytes_is_cardinality_witness:
  "regions_ok [(10, 20), (30, 40)] \<and> card (regionBytes [(10, 20), (30, 40)]) = 20"
proof -
  have ok: "regions_ok [(10, 20), (30, 40)]" and n: "claimedBytes [(10, 20), (30, 40)] = 20" by (simp_all add: region_eval wrap64_def Let_def)
  show ?thesis using ok n claimed_bytes_is_cardinality [OF ok] by simp
qed

end
