(* ===== verification/Accounting.thy ===== *)
theory Accounting
  imports Regions
begin

text \<open>
  \<open>src/recovery/ByteAccounting.cpp\<close> and \<open>ScanRegions.cpp\<close>: which bytes the confident
  filesystem entries account for, the gaps that leaves for the carve pass, the part of those
  gaps a resumed run still has to read, and their division into bounded chunks.
  \<open>RecoveredEntry\<close> is the record of \<open>include/revenant/fs/RecoveredEntry.hpp\<close>.
\<close>

subsection \<open>Entries and accounting\<close>

record RecoveredEntry =
  re_path :: string
  re_sizeInBytes :: u64
  re_extents :: "Extent list"
  re_residentContent :: bytes
  re_timestamps :: Timestamps
  re_state :: EntryState
  re_recoverability :: Confidence

definition kMaxAccountedRegions :: nat where "kMaxAccountedRegions = 2 ^ 16"

record ByteAccounting =
  ba_claimed :: Regions
  ba_dropped :: u64

definition emptyAccounting :: ByteAccounting where
  "emptyAccounting = \<lparr>ba_claimed = [], ba_dropped = 0\<rparr>"

definition addRegion :: "ByteAccounting \<Rightarrow> Extent \<Rightarrow> ByteAccounting" where
  "addRegion acc extent =
     (if regionCount (ba_claimed acc) \<ge> kMaxAccountedRegions
      then acc\<lparr>ba_dropped := wrap64 (ba_dropped acc + 1)\<rparr>
      else acc\<lparr>ba_claimed := regionAdd (ba_claimed acc) extent\<rparr>)"

definition account :: "ByteAccounting \<Rightarrow> RecoveredEntry \<Rightarrow> ByteAccounting" where
  "account acc entry =
     (if re_recoverability entry \<noteq> kValid then acc
      else foldl addRegion acc (re_extents entry))"

definition accountingGaps :: "ByteAccounting \<Rightarrow> u64 \<Rightarrow> ScanRegion list" where
  "accountingGaps acc deviceSize = regionGaps (ba_claimed acc) deviceSize"

definition accountedBytes :: "ByteAccounting \<Rightarrow> u64" where
  "accountedBytes acc = claimedBytes (ba_claimed acc)"

definition droppedRegions :: "ByteAccounting \<Rightarrow> u64" where
  "droppedRegions acc = ba_dropped acc"

subsection \<open>Clipping and chunking\<close>

definition srEnd :: "ScanRegion \<Rightarrow> u64" where
  "srEnd region = wrap64 (sr_offset region + sr_length region)"

definition tailOf :: "ScanRegion \<Rightarrow> u64 \<Rightarrow> ScanRegion" where
  "tailOf region cursor =
     (let start = max (sr_offset region) cursor
      in \<lparr>sr_offset = start, sr_length = wrap_sub64 (srEnd region) start\<rparr>)"

fun regionsFrom :: "ScanRegion list \<Rightarrow> u64 \<Rightarrow> ScanRegion list" where
  "regionsFrom [] cursor = []"
| "regionsFrom (region # regions) cursor =
     (if srEnd region > cursor then tailOf region cursor # regionsFrom regions cursor
      else regionsFrom regions cursor)"

text \<open>
  The inner loop of \<open>chunked\<close> advances by \<open>min chunkBytes (end - at)\<close>, which is no advance
  at all for a zero \<open>chunkBytes\<close>: \<open>None\<close> is a loop that does not return.
\<close>

partial_function (option) appendChunks ::
  "ScanRegion \<Rightarrow> u64 \<Rightarrow> u64 \<Rightarrow> ScanRegion list \<Rightarrow> ScanRegion list option" where
  "appendChunks region chunkBytes at chunks =
     (if at < srEnd region
      then appendChunks region chunkBytes
             (wrap64 (at + min chunkBytes (srEnd region - at)))
             (chunks @ [\<lparr>sr_offset = at, sr_length = min chunkBytes (srEnd region - at)\<rparr>])
      else Some chunks)"

fun chunkedOnto :: "ScanRegion list \<Rightarrow> u64 \<Rightarrow> ScanRegion list \<Rightarrow> ScanRegion list option" where
  "chunkedOnto [] chunkBytes chunks = Some chunks"
| "chunkedOnto (region # regions) chunkBytes chunks =
     (case appendChunks region chunkBytes (sr_offset region) chunks of
        None \<Rightarrow> None
      | Some longer \<Rightarrow> chunkedOnto regions chunkBytes longer)"

definition chunked :: "ScanRegion list \<Rightarrow> u64 \<Rightarrow> ScanRegion list option" where
  "chunked regions chunkBytes = chunkedOnto regions chunkBytes []"

subsection \<open>Meaning\<close>

definition validExtents :: "RecoveredEntry list \<Rightarrow> Extent list" where
  "validExtents entries =
     concat (map re_extents (filter (\<lambda>e. re_recoverability e = kValid) entries))"

definition entry_ok :: "RecoveredEntry \<Rightarrow> bool" where
  "entry_ok entry \<longleftrightarrow> list_all extent_ok (re_extents entry)"

definition scan_ok :: "ScanRegion \<Rightarrow> bool" where
  "scan_ok r \<longleftrightarrow> sr_offset r + sr_length r \<le> max64"

definition extentsBytes :: "Extent list \<Rightarrow> nat set" where
  "extentsBytes es = (\<Union>e \<in> set es. extentBytes e)"

lemma extentsBytes_simps [simp, region_simps]:
  "extentsBytes [] = {}" "extentsBytes (e # es) = extentBytes e \<union> extentsBytes es"
  "extentsBytes (xs @ ys) = extentsBytes xs \<union> extentsBytes ys"
  by (auto simp: extentsBytes_def)

lemma validExtents_simps [simp]:
  "validExtents [] = []"
  "validExtents (e # es) =
     (if re_recoverability e = kValid then re_extents e @ validExtents es else validExtents es)"
  by (simp_all add: validExtents_def)

subsection \<open>Accounting only ever shrinks the scan by what confident entries claim\<close>

lemma addRegion_sound:
  assumes "regions_ok (ba_claimed acc)" and "extent_ok e"
  shows "regions_ok (ba_claimed (addRegion acc e))"
    and "regionBytes (ba_claimed (addRegion acc e)) \<subseteq> regionBytes (ba_claimed acc) \<union> extentBytes e"
  using assms by (auto simp: addRegion_def rs.invar_add rs.bytes_add)

lemma addRegion_foldl_sound:
  "regions_ok (ba_claimed acc) \<Longrightarrow> list_all extent_ok es \<Longrightarrow>
   regions_ok (ba_claimed (foldl addRegion acc es)) \<and>
   regionBytes (ba_claimed (foldl addRegion acc es)) \<subseteq> regionBytes (ba_claimed acc) \<union> extentsBytes es"
proof (induction es arbitrary: acc)
  case (Cons e es)
  then have e: "regions_ok (ba_claimed (addRegion acc e))" "list_all extent_ok es" "extent_ok e"
    by (auto intro: addRegion_sound)
  then show ?case
    using Cons.IH [OF e(1,2)] addRegion_sound(2) [OF Cons.prems(1) e(3)] by auto
qed simp

lemma account_foldl_sound:
  "regions_ok (ba_claimed acc) \<Longrightarrow> list_all entry_ok entries \<Longrightarrow>
   regions_ok (ba_claimed (foldl account acc entries)) \<and>
   regionBytes (ba_claimed (foldl account acc entries))
     \<subseteq> regionBytes (ba_claimed acc) \<union> extentsBytes (validExtents entries)"
proof (induction entries arbitrary: acc)
  case (Cons e entries)
  have ok: "regions_ok (ba_claimed (account acc e))"
    and sub: "regionBytes (ba_claimed (account acc e)) \<subseteq>
      regionBytes (ba_claimed acc) \<union> (if re_recoverability e = kValid then extentsBytes (re_extents e) else {})"
    using addRegion_foldl_sound [OF Cons.prems(1), of "re_extents e"] Cons.prems
    by (auto simp: account_def entry_ok_def)
  show ?case
    using Cons.IH [OF ok] sub Cons.prems(2) by auto
qed simp

text \<open>Once the cap refuses an extent the drop is counted, and stays counted.\<close>

lemma addRegion_dropped_mono:
  "ba_dropped acc < max64 \<Longrightarrow> ba_dropped acc \<le> ba_dropped (addRegion acc e)"
  by (simp add: addRegion_def)

lemma addRegion_foldl_exact:
  "regions_ok (ba_claimed acc) \<Longrightarrow> list_all extent_ok es \<Longrightarrow>
   ba_dropped acc + length es \<le> max64 \<Longrightarrow>
   ba_dropped acc \<le> ba_dropped (foldl addRegion acc es) \<and>
   ba_dropped (foldl addRegion acc es) \<le> ba_dropped acc + length es \<and>
   (ba_dropped (foldl addRegion acc es) = ba_dropped acc \<longrightarrow>
      regionBytes (ba_claimed (foldl addRegion acc es)) = regionBytes (ba_claimed acc) \<union> extentsBytes es)"
proof (induction es arbitrary: acc)
  case (Cons e es)
  define acc' where "acc' = addRegion acc e"
  have ok: "regions_ok (ba_claimed acc')" and es: "list_all extent_ok es" and e: "extent_ok e"
    using Cons.prems by (auto simp: acc'_def intro: addRegion_sound)
  have step: "ba_dropped acc' = ba_dropped acc + (if regionCount (ba_claimed acc) \<ge> kMaxAccountedRegions then 1 else 0)"
    using Cons.prems(3) by (simp add: acc'_def addRegion_def)
  have exact: "ba_dropped acc' = ba_dropped acc \<Longrightarrow>
      regionBytes (ba_claimed acc') = regionBytes (ba_claimed acc) \<union> extentBytes e"
    using Cons.prems e step by (auto simp: acc'_def addRegion_def rs.bytes_add split: if_splits)
  have "ba_dropped acc' + length es \<le> max64" using Cons.prems(3) step by auto
  note IH = Cons.IH [OF ok es this]
  show ?case
    using IH exact step by (auto simp flip: acc'_def split: if_splits)
qed simp

lemma account_foldl_exact:
  "regions_ok (ba_claimed acc) \<Longrightarrow> list_all entry_ok entries \<Longrightarrow>
   ba_dropped acc + length (validExtents entries) \<le> max64 \<Longrightarrow>
   ba_dropped acc \<le> ba_dropped (foldl account acc entries) \<and>
   ba_dropped (foldl account acc entries) \<le> ba_dropped acc + length (validExtents entries) \<and>
   (ba_dropped (foldl account acc entries) = ba_dropped acc \<longrightarrow>
      regionBytes (ba_claimed (foldl account acc entries)) =
      regionBytes (ba_claimed acc) \<union> extentsBytes (validExtents entries))"
proof (induction entries arbitrary: acc)
  case (Cons e entries)
  show ?case
  proof (cases "re_recoverability e = kValid")
    case True
    define acc' where "acc' = account acc e"
    have es: "list_all extent_ok (re_extents e)" using Cons.prems(2) by (simp add: entry_ok_def)
    have acc': "acc' = foldl addRegion acc (re_extents e)"
      using True by (simp add: acc'_def account_def)
    note step = addRegion_foldl_exact [OF Cons.prems(1) es, folded acc']
    have ok: "regions_ok (ba_claimed acc')"
      using addRegion_foldl_sound [OF Cons.prems(1) es] acc' by simp
    have bound: "ba_dropped acc + length (re_extents e) \<le> max64" using Cons.prems(3) True by simp
    have "ba_dropped acc' + length (validExtents entries) \<le> max64"
      using step [OF bound] Cons.prems(3) True by simp
    note IH = Cons.IH [OF ok _ this]
    show ?thesis using IH step [OF bound] Cons.prems(2) True by (auto simp flip: acc'_def)
  next
    case False
    then show ?thesis using Cons by (simp add: account_def)
  qed
qed simp

subsection \<open>Clipping\<close>

lemma srEnd_ok [simp]: "scan_ok r \<Longrightarrow> srEnd r = sr_offset r + sr_length r"
  by (simp add: srEnd_def scan_ok_def)

lemma tailOf_ok:
  "scan_ok r \<Longrightarrow> cursor < srEnd r \<Longrightarrow>
   scan_ok (tailOf r cursor) \<and>
   {sr_offset (tailOf r cursor)..<sr_offset (tailOf r cursor) + sr_length (tailOf r cursor)} =
   {sr_offset r..<sr_offset r + sr_length r} \<inter> {cursor..}"
  by (auto simp: tailOf_def Let_def wrap_sub64_def scan_ok_def max_def)

lemma regionsFrom_spec:
  "list_all scan_ok rs \<Longrightarrow>
   list_all scan_ok (regionsFrom rs cursor) \<and> scanBytes (regionsFrom rs cursor) = scanBytes rs \<inter> {cursor..}"
proof (induction rs)
  case (Cons r rs)
  then show ?case using tailOf_ok [of r cursor] by auto
qed simp

subsection \<open>Chunking\<close>

lemma appendChunks_spec:
  assumes "0 < chunkBytes" and "scan_ok region"
  shows "\<exists>new. appendChunks region chunkBytes at chunks = Some (chunks @ new) \<and>
    scanBytes new = {at..<srEnd region} \<and>
    (\<forall>c \<in> set new. 0 < sr_length c \<and> sr_length c \<le> chunkBytes \<and> scan_ok c \<and>
       at \<le> sr_offset c \<and> sr_offset c + sr_length c \<le> srEnd region) \<and>
    sorted_wrt (\<lambda>g h. sr_offset g + sr_length g \<le> sr_offset h) new"
proof (induction "srEnd region - at" arbitrary: at chunks rule: less_induct)
  case less
  show ?case
  proof (cases "at < srEnd region")
    case True
    define len where "len = min chunkBytes (srEnd region - at)"
    define c where "c = \<lparr>sr_offset = at, sr_length = len\<rparr>"
    have len: "0 < len" "len \<le> chunkBytes" "at + len \<le> srEnd region"
      using assms(1) True by (auto simp: len_def)
    have bound: "srEnd region \<le> max64" using assms(2) by (simp add: scan_ok_def)
    have "wrap64 (at + len) = at + len" using len bound by simp
    then have unf: "appendChunks region chunkBytes at chunks =
        appendChunks region chunkBytes (at + len) (chunks @ [c])"
      using True by (subst appendChunks.simps) (simp flip: len_def add: c_def)
    have "srEnd region - (at + len) < srEnd region - at" using len True by simp
    from less.hyps [OF this, of "chunks @ [c]"] obtain new where new:
      "appendChunks region chunkBytes (at + len) (chunks @ [c]) = Some ((chunks @ [c]) @ new)"
      "scanBytes new = {at + len..<srEnd region}"
      "\<forall>d \<in> set new. 0 < sr_length d \<and> sr_length d \<le> chunkBytes \<and> scan_ok d \<and>
         at + len \<le> sr_offset d \<and> sr_offset d + sr_length d \<le> srEnd region"
      "sorted_wrt (\<lambda>g h. sr_offset g + sr_length g \<le> sr_offset h) new"
      by blast
    have c: "scan_ok c" using len bound by (simp add: scan_ok_def c_def)
    show ?thesis
      using unf new len c
      by (intro exI [of _ "c # new"]) (auto simp: c_def)
  next
    case False
    then show ?thesis by (subst appendChunks.simps) simp
  qed
qed

lemma chunkedOnto_spec:
  assumes "0 < chunkBytes"
  shows "list_all scan_ok rs \<Longrightarrow>
    \<exists>new. chunkedOnto rs chunkBytes chunks = Some (chunks @ new) \<and> scanBytes new = scanBytes rs \<and>
      (\<forall>c \<in> set new. 0 < sr_length c \<and> sr_length c \<le> chunkBytes \<and> scan_ok c)"
proof (induction rs arbitrary: chunks)
  case (Cons r rs)
  have r: "scan_ok r" using Cons.prems by simp
  obtain first where first: "appendChunks r chunkBytes (sr_offset r) chunks = Some (chunks @ first)"
    "scanBytes first = {sr_offset r..<srEnd r}"
    "\<forall>c \<in> set first. 0 < sr_length c \<and> sr_length c \<le> chunkBytes \<and> scan_ok c"
    using appendChunks_spec [OF assms r, of "sr_offset r" chunks] by blast
  obtain rest where rest: "chunkedOnto rs chunkBytes (chunks @ first) = Some ((chunks @ first) @ rest)"
    "scanBytes rest = scanBytes rs"
    "\<forall>c \<in> set rest. 0 < sr_length c \<and> sr_length c \<le> chunkBytes \<and> scan_ok c"
    using Cons.IH [of "chunks @ first"] Cons.prems by auto
  show ?case
    using first rest r by (intro exI [of _ "first @ rest"]) auto
qed simp

text \<open>A zero interval on a region with bytes in it never returns.\<close>

lemma appendChunks_zero:
  assumes ret: "appendChunks region 0 at chunks = Some res"
  shows "srEnd region \<le> at"
proof -
  have bound: "srEnd region \<le> max64" by (simp add: srEnd_def wrap64_less)
  have "chunkBytes = 0 \<longrightarrow> a \<le> max64 \<longrightarrow> srEnd r \<le> a"
    if "appendChunks r chunkBytes a cs = Some x" for r chunkBytes a cs x
  proof (rule appendChunks.raw_induct
      [where P = "\<lambda>r c a cs x. c = 0 \<longrightarrow> a \<le> max64 \<longrightarrow> srEnd r \<le> a", OF _ that])
    fix f r c a cs x
    assume IH: "\<And>r c a cs x. f r c a cs = Some x \<Longrightarrow> c = 0 \<longrightarrow> a \<le> max64 \<longrightarrow> srEnd r \<le> a"
      and eq: "(if a < srEnd r
        then f r c (wrap64 (a + min c (srEnd r - a)))
               (cs @ [\<lparr>sr_offset = a, sr_length = min c (srEnd r - a)\<rparr>])
        else Some cs) = Some x"
    show "c = 0 \<longrightarrow> a \<le> max64 \<longrightarrow> srEnd r \<le> a"
    proof (intro impI, rule ccontr)
      assume c: "c = 0" and a: "a \<le> max64" and "\<not> srEnd r \<le> a"
      then have "f r 0 a (cs @ [\<lparr>sr_offset = a, sr_length = 0\<rparr>]) = Some x" using eq by simp
      from IH [OF this] a \<open>\<not> srEnd r \<le> a\<close> show False by simp
    qed
  qed
  from this [OF ret] have "at \<le> max64 \<longrightarrow> srEnd region \<le> at" by simp
  then show ?thesis using bound by (cases "at \<le> max64") simp_all
qed

subsection \<open>Properties\<close>

text \<open>
  C13: Whatever entries a filesystem walk reports, the gaps left for carving contain every device byte
  that no confidently recoverable entry claims: accounting never hides a byte from the scan. When
  no extent was dropped for lack of room the gaps are exactly those bytes.
\<close>
theorem accounting_never_hides_bytes:
  assumes "list_all entry_ok entries" and "ds \<le> max64"
  defines "acc \<equiv> foldl account emptyAccounting entries"
  shows "{..<ds} - extentsBytes (validExtents entries) \<subseteq> scanBytes (accountingGaps acc ds) \<and>
    (length (validExtents entries) \<le> max64 \<and> droppedRegions acc = 0 \<longrightarrow>
       scanBytes (accountingGaps acc ds) = {..<ds} - extentsBytes (validExtents entries))"
proof -
  have start: "regions_ok (ba_claimed emptyAccounting)" "regionBytes (ba_claimed emptyAccounting) = {}"
    "ba_dropped emptyAccounting = 0"
    by (simp_all add: emptyAccounting_def)
  have sound: "regions_ok (ba_claimed acc)" "regionBytes (ba_claimed acc) \<subseteq> extentsBytes (validExtents entries)"
    using account_foldl_sound [OF start(1) assms(1)] start(2) by (simp_all add: acc_def)
  have "scanBytes (accountingGaps acc ds) = {..<ds} - regionBytes (ba_claimed acc)"
    using regionGaps_spec [OF sound(1) assms(2)] by (auto simp: accountingGaps_def gaps_between_def)
  moreover have "regionBytes (ba_claimed acc) = extentsBytes (validExtents entries)"
    if "length (validExtents entries) \<le> max64" "droppedRegions acc = 0"
    using account_foldl_exact [OF start(1) assms(1)] that start
    by (simp add: acc_def droppedRegions_def)
  ultimately show ?thesis using sound(2) by auto
qed

text \<open>
  Cutting the scan into checkpoint intervals returns for every positive interval, and a resumed
  scan looks at exactly the bytes of the gaps at or after the recorded cursor, in pieces that are
  non-empty and no longer than the interval.
\<close>
theorem resumed_scan_covers_the_rest:
  assumes "list_all scan_ok regions" and "0 < chunkBytes"
  shows "\<exists>chunks. chunked (regionsFrom regions cursor) chunkBytes = Some chunks \<and>
    scanBytes chunks = scanBytes regions \<inter> {cursor..} \<and>
    (\<forall>c \<in> set chunks. 0 < sr_length c \<and> sr_length c \<le> chunkBytes)"
  using chunkedOnto_spec [OF assms(2), of "regionsFrom regions cursor" "[]"]
    regionsFrom_spec [OF assms(1), of cursor]
  by (auto simp: chunked_def)

theorem resumed_scan_covers_the_rest_witness:
  "\<exists>chunks. chunked (regionsFrom [\<lparr>sr_offset = 0, sr_length = 10\<rparr>, \<lparr>sr_offset = 20, sr_length = 7\<rparr>] 22) 3 = Some chunks \<and>
    scanBytes chunks = scanBytes [\<lparr>sr_offset = 0, sr_length = 10\<rparr>, \<lparr>sr_offset = 20, sr_length = 7\<rparr>] \<inter> {22..}"
proof -
  have "list_all scan_ok [\<lparr>sr_offset = 0, sr_length = 10\<rparr>, \<lparr>sr_offset = 20, sr_length = 7\<rparr>]" "0 < (3::nat)"
    by (simp_all add: scan_ok_def max64_def)
  from resumed_scan_covers_the_rest [OF this, of 22] show ?thesis by blast
qed

definition sampleEntry :: "Extent list \<Rightarrow> Confidence \<Rightarrow> RecoveredEntry" where
  "sampleEntry extents confidence =
     \<lparr>re_path = ''a'', re_sizeInBytes = 0, re_extents = extents, re_residentContent = [],
      re_timestamps = \<lparr>ts_created = 0, ts_modified = 0, ts_accessed = 0\<rparr>, re_state = kLive,
      re_recoverability = confidence\<rparr>"

theorem accounting_never_hides_bytes_witness:
  "scanBytes (accountingGaps (foldl account emptyAccounting
     [sampleEntry [\<lparr>deviceOffset = 4, lengthBytes = 4\<rparr>] kValid, sampleEntry [\<lparr>deviceOffset = 0, lengthBytes = 6\<rparr>] kUncertain]) 10) =
   {..<10} - {4..<8}"
proof -
  let ?es = "[sampleEntry [\<lparr>deviceOffset = 4, lengthBytes = 4\<rparr>] kValid, sampleEntry [\<lparr>deviceOffset = 0, lengthBytes = 6\<rparr>] kUncertain]"
  have ok: "list_all entry_ok ?es" "(10::nat) \<le> max64"
    and room: "length (validExtents ?es) \<le> max64" "droppedRegions (foldl account emptyAccounting ?es) = 0"
    by (simp_all add: sampleEntry_def entry_ok_def account_def addRegion_def emptyAccounting_def
        droppedRegions_def kMaxAccountedRegions_def regionCount_def region_eval)
  have "extentsBytes (validExtents ?es) = {4..<8}"
    by (simp add: sampleEntry_def extentBytes_def endOf_def max64_def)
  then show ?thesis using accounting_never_hides_bytes [OF ok] room by simp
qed

end
