(* ===== verification/Arbitration.thy ===== *)
theory Arbitration
  imports Accounting "HOL-Library.Product_Lexorder"
begin

text \<open>
  \<open>include/revenant/recovery/Candidate.hpp\<close> and \<open>src/recovery/Arbitration.cpp\<close>:
  competing explanations of the same bytes, offered in rank order to a greedy accept loop
  over a region set. \<open>std::ranges::sort\<close> does not say in which order it leaves elements of
  equal rank, so \<open>arbitrates\<close> relates the candidates to every result some such sort allows;
  \<open>arbitrate\<close> is the result of the stable one, for evaluation.
\<close>

subsection \<open>Data\<close>

datatype CandidateSource = kFilesystem | kCarve

record Candidate =
  cd_name :: string
  cd_extents :: "Extent list"
  cd_residentContent :: bytes
  cd_timestamps :: Timestamps
  cd_confidence :: Confidence
  cd_source :: CandidateSource

record Arbitration =
  ar_winners :: "Candidate list"
  ar_suppressed :: u64

primrec source_value :: "CandidateSource \<Rightarrow> nat" where
  "source_value kFilesystem = 0"
| "source_value kCarve = 1"

subsection \<open>Operations\<close>

definition startOf :: "Candidate \<Rightarrow> u64" where
  "startOf candidate =
     (case cd_extents candidate of [] \<Rightarrow> 0 | first # _ \<Rightarrow> deviceOffset first)"

definition totalBytes :: "Candidate \<Rightarrow> u64" where
  "totalBytes candidate =
     foldl (\<lambda>sum extent. wrap64 (sum + lengthBytes extent))
       (length (cd_residentContent candidate)) (cd_extents candidate)"

definition rankOf :: "Candidate \<Rightarrow> nat \<times> int \<times> u64 \<times> u64" where
  "rankOf candidate =
     (source_value (cd_source candidate),
      - int (confidence_value (cd_confidence candidate)),
      startOf candidate,
      max64 - totalBytes candidate)"

definition isBlocked :: "Regions \<Rightarrow> Candidate \<Rightarrow> bool" where
  "isBlocked claimed candidate = list_ex (regionOverlaps claimed) (cd_extents candidate)"

definition claimAll :: "Regions \<Rightarrow> Candidate \<Rightarrow> Regions" where
  "claimAll claimed candidate = foldl regionAdd claimed (cd_extents candidate)"

definition acceptOrSuppress :: "Arbitration \<times> Regions \<Rightarrow> Candidate \<Rightarrow> Arbitration \<times> Regions" where
  "acceptOrSuppress st candidate =
     (let (result, claimed) = st
      in if cd_confidence candidate = kRejected \<or> isBlocked claimed candidate
         then (result\<lparr>ar_suppressed := wrap64 (ar_suppressed result + 1)\<rparr>, claimed)
         else (result\<lparr>ar_winners := ar_winners result @ [candidate]\<rparr>, claimAll claimed candidate))"

definition offerAll :: "Candidate list \<Rightarrow> Arbitration \<times> Regions" where
  "offerAll offered = foldl acceptOrSuppress (\<lparr>ar_winners = [], ar_suppressed = 0\<rparr>, []) offered"

text \<open>What \<open>std::ranges::sort\<close> with a projection promises of its result.\<close>

definition ranges_sorted :: "('a \<Rightarrow> 'k::linorder) \<Rightarrow> 'a list \<Rightarrow> 'a list \<Rightarrow> bool" where
  "ranges_sorted proj xs ys \<longleftrightarrow> mset ys = mset xs \<and> sorted (map proj ys)"

definition arbitrates :: "Candidate list \<Rightarrow> Arbitration \<Rightarrow> bool" where
  "arbitrates candidates result \<longleftrightarrow>
     (\<exists>offered. ranges_sorted rankOf candidates offered \<and>
        ranges_sorted startOf (ar_winners (fst (offerAll offered))) (ar_winners result) \<and>
        ar_suppressed result = ar_suppressed (fst (offerAll offered)))"

definition arbitrate :: "Candidate list \<Rightarrow> Arbitration" where
  "arbitrate candidates =
     (let result = fst (offerAll (sort_key rankOf candidates))
      in result\<lparr>ar_winners := sort_key startOf (ar_winners result)\<rparr>)"

subsection \<open>Meaning\<close>

definition candidateBytes :: "Candidate \<Rightarrow> nat set" where
  "candidateBytes c = extentsBytes (cd_extents c)"

definition candidate_ok :: "Candidate \<Rightarrow> bool" where
  "candidate_ok c \<longleftrightarrow> list_all extent_ok (cd_extents c)"

definition disjoint_cands :: "Candidate \<Rightarrow> Candidate \<Rightarrow> bool" where
  "disjoint_cands a b \<longleftrightarrow> candidateBytes a \<inter> candidateBytes b = {}"

text \<open>
  The state of the accept loop, seen from outside: what was offered is what won plus what
  lost, the claimed regions are the winners' bytes, winners are pairwise disjoint, and every
  loser was rejected by its carver or overlaps a winner offered before it.
\<close>

definition loop_inv :: "Candidate list \<Rightarrow> Arbitration \<times> Regions \<Rightarrow> Candidate list \<Rightarrow> bool" where
  "loop_inv offered st losers \<longleftrightarrow>
     regions_ok (snd st) \<and>
     regionBytes (snd st) = \<Union> (candidateBytes ` set (ar_winners (fst st))) \<and>
     mset offered = mset (ar_winners (fst st)) + mset losers \<and>
     ar_suppressed (fst st) = wrap64 (length losers) \<and>
     sorted_wrt disjoint_cands (ar_winners (fst st)) \<and>
     (\<forall>w \<in> set (ar_winners (fst st)). cd_confidence w \<noteq> kRejected) \<and>
     (\<forall>l \<in> set losers. cd_confidence l = kRejected \<or>
        (\<exists>w \<in> set (ar_winners (fst st)). rankOf w \<le> rankOf l \<and> \<not> disjoint_cands w l))"

subsection \<open>The accept loop\<close>

lemma disjoint_cands_sym: "disjoint_cands a b \<longleftrightarrow> disjoint_cands b a"
  by (auto simp: disjoint_cands_def)

lemma isBlocked_iff:
  "regions_ok claimed \<Longrightarrow> candidate_ok c \<Longrightarrow>
   isBlocked claimed c \<longleftrightarrow> regionBytes claimed \<inter> candidateBytes c \<noteq> {}"
  unfolding isBlocked_def candidate_ok_def candidateBytes_def extentsBytes_def
  by (rule rs.list_ex_overlaps_iff)

lemma claimAll_spec:
  assumes "regions_ok claimed" and "candidate_ok c"
  shows "regions_ok (claimAll claimed c)"
    and "regionBytes (claimAll claimed c) = regionBytes claimed \<union> candidateBytes c"
  using assms unfolding claimAll_def candidate_ok_def candidateBytes_def extentsBytes_def
  by (rule rs.invar_foldl, rule rs.bytes_foldl)

lemma loop_inv_step:
  assumes inv: "loop_inv offered st losers" and c: "candidate_ok c"
    and below: "\<forall>w \<in> set (ar_winners (fst st)). rankOf w \<le> rankOf c"
  shows "\<exists>losers'. loop_inv (offered @ [c]) (acceptOrSuppress st c) losers'"
proof (cases "cd_confidence c = kRejected \<or> isBlocked (snd st) c")
  case True
  then have res: "acceptOrSuppress st c =
      ((fst st)\<lparr>ar_suppressed := wrap64 (ar_suppressed (fst st) + 1)\<rparr>, snd st)"
    by (simp add: acceptOrSuppress_def split_beta)
  have "cd_confidence c = kRejected \<or> (\<exists>w \<in> set (ar_winners (fst st)). rankOf w \<le> rankOf c \<and> \<not> disjoint_cands w c)"
  proof (cases "isBlocked (snd st) c")
    case True
    then have "regionBytes (snd st) \<inter> candidateBytes c \<noteq> {}"
      using isBlocked_iff c inv by (simp add: loop_inv_def)
    then show ?thesis using inv below by (auto simp: loop_inv_def disjoint_cands_def)
  qed (use True in simp)
  then show ?thesis
    using inv res by (intro exI [of _ "losers @ [c]"]) (auto simp: loop_inv_def wrap64_Suc)
next
  case False
  then have res: "acceptOrSuppress st c =
      ((fst st)\<lparr>ar_winners := ar_winners (fst st) @ [c]\<rparr>, claimAll (snd st) c)"
    by (simp add: acceptOrSuppress_def split_beta)
  have ok: "regions_ok (snd st)" using inv by (simp add: loop_inv_def)
  have "regionBytes (snd st) \<inter> candidateBytes c = {}"
    using False isBlocked_iff [OF ok c] by simp
  then have "\<forall>w \<in> set (ar_winners (fst st)). disjoint_cands w c"
    using inv by (auto simp: loop_inv_def disjoint_cands_def)
  then show ?thesis
    using inv res False claimAll_spec [OF ok c]
    by (intro exI [of _ losers]) (auto simp: loop_inv_def sorted_wrt_append)
qed

lemma offerAll_inv:
  assumes "sorted (map rankOf offered)" and "list_all candidate_ok offered"
  shows "\<exists>losers. loop_inv offered (offerAll offered) losers"
  using assms
proof (induction offered rule: rev_induct)
  case Nil
  have "loop_inv [] (offerAll []) []" by (simp add: loop_inv_def offerAll_def wrap64_def)
  then show ?case by blast
next
  case (snoc c offered)
  then obtain losers where inv: "loop_inv offered (offerAll offered) losers"
    by (auto simp: sorted_append)
  then have "set (ar_winners (fst (offerAll offered))) \<subseteq> set offered"
    by (metis loop_inv_def set_mset_mset set_mset_union Un_upper1)
  then have "\<forall>w \<in> set (ar_winners (fst (offerAll offered))). rankOf w \<le> rankOf c"
    using snoc.prems(1) by (auto simp: sorted_append)
  moreover have "candidate_ok c" using snoc.prems(2) by simp
  ultimately show ?case
    using loop_inv_step [OF inv] by (simp add: offerAll_def)
qed

subsection \<open>What arbitration promises\<close>

lemma ranges_sorted_sort_key: "ranges_sorted proj xs (sort_key proj xs)"
  by (simp add: ranges_sorted_def)

lemma ranges_sorted_set: "ranges_sorted proj xs ys \<Longrightarrow> set ys = set xs"
  unfolding ranges_sorted_def by (metis set_mset_mset)

lemma arbitrate_arbitrates: "arbitrates candidates (arbitrate candidates)"
  unfolding arbitrates_def arbitrate_def Let_def
  by (intro exI [of _ "sort_key rankOf candidates"]) (simp add: ranges_sorted_sort_key)

lemma arbitrates_inv:
  assumes "arbitrates candidates result" and "list_all candidate_ok candidates"
  shows "\<exists>losers. mset candidates = mset (ar_winners result) + mset losers \<and>
    ar_suppressed result = wrap64 (length losers) \<and>
    sorted_wrt disjoint_cands (ar_winners result) \<and>
    (\<forall>w \<in> set (ar_winners result). cd_confidence w \<noteq> kRejected) \<and>
    (\<forall>l \<in> set losers. cd_confidence l = kRejected \<or>
       (\<exists>w \<in> set (ar_winners result). rankOf w \<le> rankOf l \<and> \<not> disjoint_cands w l))"
proof -
  obtain offered where off: "ranges_sorted rankOf candidates offered"
    and win: "ranges_sorted startOf (ar_winners (fst (offerAll offered))) (ar_winners result)"
    and sup: "ar_suppressed result = ar_suppressed (fst (offerAll offered))"
    using assms(1) by (auto simp: arbitrates_def)
  have "list_all candidate_ok offered"
    using assms(2) ranges_sorted_set [OF off] by (simp add: list_all_iff)
  then obtain losers where inv: "loop_inv offered (offerAll offered) losers"
    using offerAll_inv off by (auto simp: ranges_sorted_def)
  have ms: "mset (ar_winners result) = mset (ar_winners (fst (offerAll offered)))"
    using win by (simp add: ranges_sorted_def)
  have "sorted_wrt disjoint_cands (ar_winners result)"
    using sorted_wrt_mset [of disjoint_cands, OF _ ms [symmetric]] inv disjoint_cands_sym
    by (auto simp: symp_def loop_inv_def)
  moreover have "mset candidates = mset (ar_winners result) + mset losers"
    using inv off ms by (simp add: loop_inv_def ranges_sorted_def)
  ultimately show ?thesis
    using inv sup ranges_sorted_set [OF win] by (intro exI [of _ losers]) (simp add: loop_inv_def)
qed

lemma winners_are_candidates:
  "arbitrates candidates result \<Longrightarrow> list_all candidate_ok candidates \<Longrightarrow>
   set (ar_winners result) \<subseteq> set candidates"
  using arbitrates_inv by (metis Un_upper1 set_mset_mset set_mset_union)

subsection \<open>Properties\<close>

definition sampleCandidate :: "CandidateSource \<Rightarrow> Confidence \<Rightarrow> Extent list \<Rightarrow> Candidate" where
  "sampleCandidate source confidence extents =
     \<lparr>cd_name = ''png'', cd_extents = extents, cd_residentContent = [],
      cd_timestamps = \<lparr>ts_created = 0, ts_modified = 0, ts_accessed = 0\<rparr>,
      cd_confidence = confidence, cd_source = source\<rparr>"

lemmas arbitration_eval =
  sampleCandidate_def candidate_ok_def arbitrate_def offerAll_def acceptOrSuppress_def isBlocked_def
  claimAll_def rankOf_def startOf_def totalBytes_def region_eval wrap64_def

text \<open>
  C9: However the sort leaves candidates of equal rank, arbitration splits the candidates into winners
  and losers with nothing lost: no two winners share a device byte, no winner was rejected by
  its own carver, the winners are in device order, every loser was rejected or shares a byte
  with a winner that ranks at least as high, and the suppressed count is the number of losers.
\<close>
theorem arbitration_is_a_fair_partition:
  assumes "arbitrates candidates result" and "list_all candidate_ok candidates"
  shows "\<exists>losers. mset candidates = mset (ar_winners result) + mset losers \<and>
    ar_suppressed result = wrap64 (length losers) \<and>
    sorted_wrt disjoint_cands (ar_winners result) \<and>
    sorted (map startOf (ar_winners result)) \<and>
    (\<forall>w \<in> set (ar_winners result). cd_confidence w \<noteq> kRejected) \<and>
    (\<forall>l \<in> set losers. cd_confidence l = kRejected \<or>
       (\<exists>w \<in> set (ar_winners result). rankOf w \<le> rankOf l \<and> \<not> disjoint_cands w l))"
proof -
  have "sorted (map startOf (ar_winners result))"
    using assms(1) by (auto simp: arbitrates_def ranges_sorted_def)
  then show ?thesis using arbitrates_inv [OF assms] by blast
qed

theorem arbitration_is_a_fair_partition_witness:
  "let a = sampleCandidate kCarve kValid [\<lparr>deviceOffset = 0, lengthBytes = 8\<rparr>];
       b = sampleCandidate kFilesystem kUncertain [\<lparr>deviceOffset = 4, lengthBytes = 8\<rparr>]
   in ar_winners (arbitrate [a, b]) = [b] \<and> (\<exists>losers. mset [a, b] = mset [b] + mset losers)"
proof -
  define a where "a = sampleCandidate kCarve kValid [\<lparr>deviceOffset = 0, lengthBytes = 8\<rparr>]"
  define b where "b = sampleCandidate kFilesystem kUncertain [\<lparr>deviceOffset = 4, lengthBytes = 8\<rparr>]"
  have ok: "list_all candidate_ok [a, b]" by (simp add: a_def b_def arbitration_eval)
  have "ar_winners (arbitrate [a, b]) = [b]" by (simp add: a_def b_def arbitration_eval)
  then show ?thesis
    using arbitration_is_a_fair_partition [OF arbitrate_arbitrates ok] unfolding Let_def a_def b_def by auto
qed

text \<open>
  A named filesystem entry that was not rejected never loses its bytes to a carve: if it conflicts
  with no other filesystem entry it wins, whatever the carvers claimed and however confident.
\<close>
theorem filesystem_entry_never_loses_to_carve:
  assumes "arbitrates candidates result" and "list_all candidate_ok candidates"
    and "c \<in> set candidates" and "cd_source c = kFilesystem" and "cd_confidence c \<noteq> kRejected"
    and "\<forall>d \<in> set candidates. cd_source d = kFilesystem \<and> d \<noteq> c \<longrightarrow> disjoint_cands d c"
  shows "c \<in> set (ar_winners result)"
proof -
  obtain losers where ms: "mset candidates = mset (ar_winners result) + mset losers"
    and lost: "\<forall>l \<in> set losers. cd_confidence l = kRejected \<or>
       (\<exists>w \<in> set (ar_winners result). rankOf w \<le> rankOf l \<and> \<not> disjoint_cands w l)"
    using arbitrates_inv [OF assms(1,2)] by blast
  have sets: "set candidates = set (ar_winners result) \<union> set losers"
    by (metis ms set_mset_mset set_mset_union)
  show ?thesis
  proof (rule ccontr)
    assume no: "c \<notin> set (ar_winners result)"
    then obtain w where w: "w \<in> set (ar_winners result)" "rankOf w \<le> rankOf c" "\<not> disjoint_cands w c"
      using assms(3,5) sets lost by blast
    have "source_value (cd_source w) \<le> 0"
      using w(2) assms(4) by (auto simp: rankOf_def less_eq_prod_def)
    then have "cd_source w = kFilesystem" by (cases "cd_source w") simp_all
    then show False using w no assms(6) sets by (metis UnCI)
  qed
qed

theorem filesystem_entry_never_loses_to_carve_witness:
  "let a = sampleCandidate kCarve kValid [\<lparr>deviceOffset = 0, lengthBytes = 8\<rparr>];
       b = sampleCandidate kFilesystem kUncertain [\<lparr>deviceOffset = 4, lengthBytes = 8\<rparr>]
   in b \<in> set (ar_winners (arbitrate [a, b]))"
proof -
  define a where "a = sampleCandidate kCarve kValid [\<lparr>deviceOffset = 0, lengthBytes = 8\<rparr>]"
  define b where "b = sampleCandidate kFilesystem kUncertain [\<lparr>deviceOffset = 4, lengthBytes = 8\<rparr>]"
  have ok: "list_all candidate_ok [a, b]" by (simp add: a_def b_def arbitration_eval)
  have "b \<in> set (ar_winners (arbitrate [a, b]))"
    by (rule filesystem_entry_never_loses_to_carve [OF arbitrate_arbitrates ok])
       (simp_all add: a_def b_def sampleCandidate_def)
  then show ?thesis by (simp add: a_def b_def Let_def)
qed

end
