(* ===== verification/CandidateFiles.thy ===== *)
theory CandidateFiles
  imports Arbitration
begin

text \<open>
  \<open>src/recovery/CandidateRecord.cpp\<close>, \<open>CandidateIndex.cpp\<close> and
  \<open>CandidateIndexRead.cpp\<close>: the durable list of candidates, two append-only files of which
  the record file points into the blob. A file is its byte content, a missing file has none.
  \<open>appending\<close> is the write protocol byte by byte, so that an append cut short anywhere is a
  reachable state.

  A \<open>Confidence\<close> or \<open>CandidateSource\<close> read back is a cast of a stored byte, which need not
  be one of the enumerators; \<open>StoredCandidate\<close> keeps the byte.
\<close>

subsection \<open>The record format\<close>

definition kIndexMagic :: bytes where
  "kIndexMagic = [0x52, 0x56, 0x4E, 0x54, 0x49, 0x44, 0x58, 0x00]"

definition kIndexVersion :: u32 where "kIndexVersion = 1"
definition kIndexHeaderBytes :: size_t where "kIndexHeaderBytes = 16"
definition kRecordBytes :: size_t where "kRecordBytes = 48"
definition kExtentBytes :: size_t where "kExtentBytes = 16"

record CandidateRecord =
  cr_blobOffset :: u64
  cr_created :: u64
  cr_modified :: u64
  cr_accessed :: u64
  cr_nameLength :: u32
  cr_residentLength :: u32
  cr_extentCount :: u32
  cr_confidence :: u8
  cr_source :: u8

definition putLe :: "nat \<Rightarrow> bytes \<Rightarrow> size_t \<Rightarrow> nat \<Rightarrow> bytes" where
  "putLe w target off v = overwrite target off (leBytes w v)"

definition putTimestamps :: "bytes \<Rightarrow> CandidateRecord \<Rightarrow> bytes" where
  "putTimestamps raw r =
     putLe 8 (putLe 8 (putLe 8 raw 0x08 (cr_created r)) 0x10 (cr_modified r)) 0x18 (cr_accessed r)"

definition putBlobLengths :: "bytes \<Rightarrow> CandidateRecord \<Rightarrow> bytes" where
  "putBlobLengths raw r =
     putLe 4 (putLe 4 (putLe 4 raw 0x20 (cr_nameLength r)) 0x24 (cr_residentLength r))
       0x28 (cr_extentCount r)"

definition encodeIndexHeader :: bytes where
  "encodeIndexHeader =
     putLe 4 (putLe 4 (overwrite (replicate kIndexHeaderBytes 0) 0 kIndexMagic) 0x08 kIndexVersion)
       0x0C kRecordBytes"

definition headerIsOurs :: "bytes \<Rightarrow> bool" where
  "headerIsOurs raw =
     (if length raw < kIndexHeaderBytes \<or> take (length kIndexMagic) raw \<noteq> kIndexMagic then False
      else leNat (take 4 (drop 0x08 raw)) = kIndexVersion \<and>
           leNat (take 4 (drop 0x0C raw)) = kRecordBytes)"

definition encodeRecord :: "CandidateRecord \<Rightarrow> bytes" where
  "encodeRecord r =
     (let raw = putLe 8 (replicate kRecordBytes 0) 0x00 (cr_blobOffset r);
          raw = putTimestamps raw r;
          raw = putBlobLengths raw r;
          raw = putLe 1 raw 0x2C (cr_confidence r)
      in putLe 1 raw 0x2D (cr_source r))"

definition decodeRecord :: "bytes \<Rightarrow> CandidateRecord" where
  "decodeRecord raw =
     (let field = (\<lambda>w off. leNat (take w (drop off (take kRecordBytes raw))))
      in \<lparr>cr_blobOffset = field 8 0x00, cr_created = field 8 0x08, cr_modified = field 8 0x10,
          cr_accessed = field 8 0x18, cr_nameLength = field 4 0x20,
          cr_residentLength = field 4 0x24, cr_extentCount = field 4 0x28,
          cr_confidence = field 1 0x2C, cr_source = field 1 0x2D\<rparr>)"

subsection \<open>Writing\<close>

definition appendExtent :: "bytes \<Rightarrow> Extent \<Rightarrow> bytes" where
  "appendExtent blob extent = blob @ leBytes 8 (deviceOffset extent) @ leBytes 8 (lengthBytes extent)"

definition encodeBlobEntry :: "Candidate \<Rightarrow> bytes" where
  "encodeBlobEntry candidate =
     foldl appendExtent (map byte_of_char (cd_name candidate)) (cd_extents candidate)
       @ cd_residentContent candidate"

definition recordFor :: "Candidate \<Rightarrow> u64 \<Rightarrow> CandidateRecord" where
  "recordFor candidate blobOffset =
     \<lparr>cr_blobOffset = blobOffset,
      cr_created = ts_created (cd_timestamps candidate),
      cr_modified = ts_modified (cd_timestamps candidate),
      cr_accessed = ts_accessed (cd_timestamps candidate),
      cr_nameLength = wrap32 (length (cd_name candidate)),
      cr_residentLength = wrap32 (length (cd_residentContent candidate)),
      cr_extentCount = wrap32 (length (cd_extents candidate)),
      cr_confidence = confidence_value (cd_confidence candidate),
      cr_source = source_value (cd_source candidate)\<rparr>"

record IndexFiles =
  if_records :: bytes
  if_blob :: bytes

record CandidateIndex =
  ci_files :: IndexFiles
  ci_recordsGood :: bool
  ci_blobGood :: bool
  ci_blobBytes :: u64
  ci_count :: u64

text \<open>
  What the host does to one operation: whether the two streams open, how many bytes it lets
  each of them write, and whether it can shorten a file. A stream that failed stays failed and
  writes nothing more.
\<close>

record IndexHost =
  ih_opensRecords :: bool
  ih_opensBlob :: bool
  ih_roomRecords :: nat
  ih_roomBlob :: nat
  ih_resizeError :: "int option"

definition streamWrite :: "nat \<Rightarrow> bytes \<times> bool \<Rightarrow> bytes \<Rightarrow> bytes \<times> bool" where
  "streamWrite room stream raw =
     (let (file, good) = stream
      in if \<not> good then stream else (file @ take room raw, length raw \<le> room))"

definition indexCreate :: "IndexHost \<Rightarrow> CandidateIndex result" where
  "indexCreate host =
     (let (records, good) = streamWrite (ih_roomRecords host) ([], ih_opensRecords host) encodeIndexHeader
      in if \<not> good \<or> \<not> ih_opensBlob host then Inl (mkError kIoFailure 0)
         else Inr \<lparr>ci_files = \<lparr>if_records = records, if_blob = []\<rparr>, ci_recordsGood = True,
                   ci_blobGood = True, ci_blobBytes = 0, ci_count = 0\<rparr>)"

definition writeEntry :: "IndexHost \<Rightarrow> CandidateIndex \<Rightarrow> Candidate \<Rightarrow> CandidateIndex \<times> u64 result" where
  "writeEntry host index candidate =
     (let entry = encodeBlobEntry candidate;
          (blob, blobGood) =
            streamWrite (ih_roomBlob host) (if_blob (ci_files index), ci_blobGood index) entry;
          (records, recordsGood) =
            streamWrite (ih_roomRecords host) (if_records (ci_files index), ci_recordsGood index)
              (encodeRecord (recordFor candidate (ci_blobBytes index)));
          index' = index\<lparr>ci_files := \<lparr>if_records = records, if_blob = blob\<rparr>,
                         ci_recordsGood := recordsGood, ci_blobGood := blobGood\<rparr>
      in if \<not> blobGood \<or> \<not> recordsGood then (index', Inl (mkError kIoFailure (ci_blobBytes index)))
         else (index'\<lparr>ci_blobBytes := wrap64 (ci_blobBytes index + length entry),
                      ci_count := wrap64 (ci_count index + 1)\<rparr>,
               Inr (ci_count index)))"

definition recordAreaBytes :: "u64 \<Rightarrow> nat" where
  "recordAreaBytes records = kIndexHeaderBytes + records * kRecordBytes"

definition continued :: "IndexHost \<Rightarrow> IndexFiles \<Rightarrow> u64 \<Rightarrow> u64 \<Rightarrow> CandidateIndex result" where
  "continued host files records blobBytes =
     (if \<not> ih_opensRecords host \<or> \<not> ih_opensBlob host then Inl (mkError kIoFailure 0)
      else Inr \<lparr>ci_files = files, ci_recordsGood = True, ci_blobGood = True,
                ci_blobBytes = blobBytes, ci_count = records\<rparr>)"

definition indexReopen :: "IndexHost \<Rightarrow> IndexFiles \<Rightarrow> u64 \<Rightarrow> CandidateIndex result" where
  "indexReopen host files records =
     (let wanted = recordAreaBytes records
      in if length (if_records files) < wanted then Inl (mkError kInvalidArgument 0)
         else case ih_resizeError host of
                Some failed \<Rightarrow> Inl \<lparr>err_code = kIoFailure, err_offset = 0, err_osCode = failed\<rparr>
              | None \<Rightarrow> continued host (files\<lparr>if_records := take wanted (if_records files)\<rparr>)
                          records (length (if_blob files)))"

text \<open>
  The same append as a sequence of single-byte writes: the blob stream is written and flushed
  to its end before the first byte of the record is written.
\<close>

inductive appending :: "bytes \<Rightarrow> bytes \<Rightarrow> IndexFiles \<Rightarrow> IndexFiles \<Rightarrow> bool"
  for entry :: bytes and rec :: bytes where
  untouched: "appending entry rec files files"
| blob_byte: "appending entry rec files fs \<Longrightarrow> if_blob fs = if_blob files @ take i entry \<Longrightarrow>
    if_records fs = if_records files \<Longrightarrow> i < length entry \<Longrightarrow>
    appending entry rec files (fs\<lparr>if_blob := if_blob fs @ [entry ! i]\<rparr>)"
| record_byte: "appending entry rec files fs \<Longrightarrow> if_blob fs = if_blob files @ entry \<Longrightarrow>
    if_records fs = if_records files @ take j rec \<Longrightarrow> j < length rec \<Longrightarrow>
    appending entry rec files (fs\<lparr>if_records := if_records fs @ [rec ! j]\<rparr>)"

subsection \<open>Reading back\<close>

definition kMaxCandidateNameBytes :: nat where "kMaxCandidateNameBytes = 4096"
definition kMaxCandidateExtents :: nat where "kMaxCandidateExtents = 4096"
definition kMaxResidentBytes :: nat where "kMaxResidentBytes = 2 ^ 16"
definition kMaxIndexedCandidates :: nat where "kMaxIndexedCandidates = 2 ^ 20"

record StoredCandidate =
  sc_name :: string
  sc_extents :: "Extent list"
  sc_residentContent :: bytes
  sc_timestamps :: Timestamps
  sc_confidence :: u8
  sc_source :: u8

record IndexContents =
  ic_candidates :: "StoredCandidate list"
  ic_droppedRecords :: u64

definition fileReadAt :: "bytes \<Rightarrow> u64 \<Rightarrow> size_t \<Rightarrow> bytes" where
  "fileReadAt file off len = take len (drop off file @ replicate len 0)"

definition lengthsAreSane :: "CandidateRecord \<Rightarrow> bool" where
  "lengthsAreSane r \<longleftrightarrow>
     hasValue (boundedCount (cr_nameLength r) kMaxCandidateNameBytes) \<and>
     hasValue (boundedCount (cr_extentCount r) kMaxCandidateExtents) \<and>
     hasValue (boundedCount (cr_residentLength r) kMaxResidentBytes)"

definition entryBytes :: "CandidateRecord \<Rightarrow> u64" where
  "entryBytes r = wrap64 (cr_nameLength r + cr_extentCount r * kExtentBytes + cr_residentLength r)"

definition blobRangeFits :: "CandidateRecord \<Rightarrow> u64 \<Rightarrow> bool" where
  "blobRangeFits r blobBytes \<longleftrightarrow>
     cr_blobOffset r \<le> blobBytes \<and> entryBytes r \<le> blobBytes - cr_blobOffset r"

definition decodeExtents :: "bytes \<Rightarrow> u32 \<Rightarrow> Extent list" where
  "decodeExtents raw cnt =
     map (\<lambda>i. \<lparr>deviceOffset = leNat (take 8 (drop (i * kExtentBytes) raw)),
               lengthBytes = leNat (take 8 (drop (i * kExtentBytes + 8) raw))\<rparr>) [0..<cnt]"

definition decodeCandidate :: "CandidateRecord \<Rightarrow> bytes \<Rightarrow> StoredCandidate" where
  "decodeCandidate r entry =
     \<lparr>sc_name = map char_of_byte (take (cr_nameLength r) entry),
      sc_extents = decodeExtents
        (take (cr_extentCount r * kExtentBytes) (drop (cr_nameLength r) entry)) (cr_extentCount r),
      sc_residentContent = drop (length entry - cr_residentLength r) entry,
      sc_timestamps = \<lparr>ts_created = cr_created r, ts_modified = cr_modified r, ts_accessed = cr_accessed r\<rparr>,
      sc_confidence = cr_confidence r, sc_source = cr_source r\<rparr>"

definition readCandidate :: "CandidateRecord \<Rightarrow> bytes \<Rightarrow> StoredCandidate option" where
  "readCandidate r blob =
     (if \<not> lengthsAreSane r \<or> \<not> blobRangeFits r (length blob) then None
      else Some (decodeCandidate r (fileReadAt blob (cr_blobOffset r) (entryBytes r))))"

definition recordCount :: "bytes \<Rightarrow> size_t result" where
  "recordCount records =
     (if length records < kIndexHeaderBytes \<or> \<not> headerIsOurs (fileReadAt records 0 kIndexHeaderBytes)
      then Inl (mkError kInvalidArgument 0)
      else boundedCount ((length records - kIndexHeaderBytes) div kRecordBytes) kMaxIndexedCandidates)"

definition tornTailRecords :: "bytes \<Rightarrow> u64" where
  "tornTailRecords records =
     (if (length records - kIndexHeaderBytes) mod kRecordBytes = 0 then 0 else 1)"

definition appendCandidate :: "IndexContents \<Rightarrow> StoredCandidate option \<Rightarrow> IndexContents" where
  "appendCandidate contents candidate =
     (case candidate of
        None \<Rightarrow> contents\<lparr>ic_droppedRecords := wrap64 (ic_droppedRecords contents + 1)\<rparr>
      | Some c \<Rightarrow> contents\<lparr>ic_candidates := ic_candidates contents @ [c]\<rparr>)"

definition readOneRecord :: "IndexFiles \<Rightarrow> IndexContents \<Rightarrow> size_t \<Rightarrow> IndexContents" where
  "readOneRecord files contents ordinal =
     appendCandidate contents
       (readCandidate
         (decodeRecord (fileReadAt (if_records files) (kIndexHeaderBytes + ordinal * kRecordBytes) kRecordBytes))
         (if_blob files))"

definition readAll :: "IndexFiles \<Rightarrow> size_t \<Rightarrow> IndexContents" where
  "readAll files cnt =
     foldl (readOneRecord files)
       \<lparr>ic_candidates = [], ic_droppedRecords = tornTailRecords (if_records files)\<rparr> [0..<cnt]"

definition readIndex :: "IndexFiles \<Rightarrow> IndexContents result" where
  "readIndex files =
     (case recordCount (if_records files) of
        Inl e \<Rightarrow> Inl e | Inr cnt \<Rightarrow> Inr (readAll files cnt))"

definition storedOf :: "Candidate \<Rightarrow> StoredCandidate" where
  "storedOf c =
     \<lparr>sc_name = cd_name c, sc_extents = cd_extents c, sc_residentContent = cd_residentContent c,
      sc_timestamps = cd_timestamps c, sc_confidence = confidence_value (cd_confidence c),
      sc_source = source_value (cd_source c)\<rparr>"

subsection \<open>Meaning and invariant\<close>

definition record_ok :: "CandidateRecord \<Rightarrow> bool" where
  "record_ok r \<longleftrightarrow>
     cr_blobOffset r \<le> max64 \<and> cr_created r \<le> max64 \<and> cr_modified r \<le> max64 \<and> cr_accessed r \<le> max64 \<and>
     cr_nameLength r \<le> max32 \<and> cr_residentLength r \<le> max32 \<and> cr_extentCount r \<le> max32 \<and>
     cr_confidence r < 256 \<and> cr_source r < 256"

definition storable :: "Candidate \<Rightarrow> bool" where
  "storable c \<longleftrightarrow>
     length (cd_name c) \<le> kMaxCandidateNameBytes \<and> length (cd_extents c) \<le> kMaxCandidateExtents \<and>
     length (cd_residentContent c) \<le> kMaxResidentBytes \<and> list_all extent_ok (cd_extents c) \<and>
     ts_created (cd_timestamps c) \<le> max64 \<and> ts_modified (cd_timestamps c) \<le> max64 \<and>
     ts_accessed (cd_timestamps c) \<le> max64"

definition record_at :: "IndexFiles \<Rightarrow> nat \<Rightarrow> bytes" where
  "record_at files i = take kRecordBytes (drop (kIndexHeaderBytes + i * kRecordBytes) (if_records files))"

definition stored_at :: "IndexFiles \<Rightarrow> nat \<Rightarrow> Candidate \<Rightarrow> bool" where
  "stored_at files i c \<longleftrightarrow>
     (\<exists>off. off \<le> max64 \<and> record_at files i = encodeRecord (recordFor c off) \<and>
        off + length (encodeBlobEntry c) \<le> length (if_blob files) \<and>
        take (length (encodeBlobEntry c)) (drop off (if_blob files)) = encodeBlobEntry c)"

definition holds :: "IndexFiles \<Rightarrow> Candidate list \<Rightarrow> bool" where
  "holds files cs \<longleftrightarrow>
     take kIndexHeaderBytes (if_records files) = encodeIndexHeader \<and>
     kIndexHeaderBytes + length cs * kRecordBytes \<le> length (if_records files) \<and>
     (\<forall>i < length cs. stored_at files i (cs ! i))"

definition index_ok :: "CandidateIndex \<Rightarrow> Candidate list \<Rightarrow> bool" where
  "index_ok index cs \<longleftrightarrow>
     holds (ci_files index) cs \<and>
     length (if_records (ci_files index)) = kIndexHeaderBytes + length cs * kRecordBytes \<and>
     ci_blobBytes index = length (if_blob (ci_files index)) \<and> ci_count index = length cs"

fun appendAll :: "CandidateIndex \<Rightarrow> (IndexHost \<times> Candidate) list \<Rightarrow> CandidateIndex result" where
  "appendAll index [] = Inr index"
| "appendAll index ((host, c) # rest) =
     (case writeEntry host index c of
        (index', Inl e) \<Rightarrow> Inl e
      | (index', Inr _) \<Rightarrow> appendAll index' rest)"

definition blobSize :: "Candidate list \<Rightarrow> nat" where
  "blobSize cs = sum_list (map (\<lambda>c. length (encodeBlobEntry c)) cs)"

subsection \<open>Records round-trip\<close>

lemmas index_consts = kIndexHeaderBytes_def kRecordBytes_def kExtentBytes_def

lemma length_putLe [simp, length_simps]:
  "off + w \<le> length raw \<Longrightarrow> length (putLe w raw off v) = length raw"
  by (simp add: putLe_def)

lemma length_encodeIndexHeader [simp, length_simps]: "length encodeIndexHeader = kIndexHeaderBytes"
  by (simp add: encodeIndexHeader_def kIndexMagic_def index_consts)

lemma length_putTimestamps [simp]: "length raw = 48 \<Longrightarrow> length (putTimestamps raw r) = 48"
  by (simp add: putTimestamps_def)

lemma length_putBlobLengths [simp]: "length raw = 48 \<Longrightarrow> length (putBlobLengths raw r) = 48"
  by (simp add: putBlobLengths_def)

lemma length_encodeRecord [simp, length_simps]: "length (encodeRecord r) = kRecordBytes"
  by (simp add: encodeRecord_def Let_def kRecordBytes_def)

lemma putLe_same [simp]:
  "off + w \<le> length raw \<Longrightarrow> v < 256 ^ w \<Longrightarrow> leNat (take w (drop off (putLe w raw off v))) = v"
  by (simp add: putLe_def)

lemma putLe_other [simp]:
  "a + k \<le> off \<or> off + w \<le> a \<Longrightarrow> off + w \<le> length raw \<Longrightarrow>
   take k (drop a (putLe w raw off v)) = take k (drop a raw)"
  by (auto simp: putLe_def)

lemma putLe_first [simp]:
  "w \<le> length raw \<Longrightarrow> v < 256 ^ w \<Longrightarrow> leNat (take w (putLe w raw 0 v)) = v"
  "k \<le> off \<Longrightarrow> off + w \<le> length raw \<Longrightarrow> take k (putLe w raw off v) = take k raw"
  using putLe_same [of 0 w raw v] putLe_other [of 0 k off w raw v] by simp_all

lemma headerIsOurs_encode: "headerIsOurs encodeIndexHeader"
  by code_simp

lemma decode_encode_record:
  assumes "record_ok r"
  shows "decodeRecord (encodeRecord r) = r"
proof -
  have e: "take kRecordBytes (encodeRecord r) = encodeRecord r" by simp
  show ?thesis
    using assms unfolding decodeRecord_def Let_def e
    by (simp add: encodeRecord_def Let_def kRecordBytes_def putTimestamps_def putBlobLengths_def
        record_ok_def max64_def max32_def)
qed

subsection \<open>Entries round-trip\<close>

definition extentsBlob :: "Extent list \<Rightarrow> bytes" where
  "extentsBlob es = concat (map (\<lambda>e. leBytes 8 (deviceOffset e) @ leBytes 8 (lengthBytes e)) es)"

lemma foldl_appendExtent: "foldl appendExtent blob es = blob @ extentsBlob es"
  by (induction es arbitrary: blob) (simp_all add: appendExtent_def extentsBlob_def)

lemma length_extentsBlob [simp, length_simps]: "length (extentsBlob es) = length es * kExtentBytes"
  by (induction es) (simp_all add: extentsBlob_def kExtentBytes_def)

lemma encodeBlobEntry_eq:
  "encodeBlobEntry c = map byte_of_char (cd_name c) @ extentsBlob (cd_extents c) @ cd_residentContent c"
  by (simp add: encodeBlobEntry_def foldl_appendExtent)

lemma length_encodeBlobEntry:
  "length (encodeBlobEntry c) =
     length (cd_name c) + length (cd_extents c) * kExtentBytes + length (cd_residentContent c)"
  by (simp add: encodeBlobEntry_eq)

lemma decodeExtents_extentsBlob:
  "list_all extent_ok es \<Longrightarrow> decodeExtents (extentsBlob es) (length es) = es"
proof (induction es)
  case (Cons e es)
  let ?raw = "leBytes 8 (deviceOffset e) @ leBytes 8 (lengthBytes e)"
  have raw: "extentsBlob (e # es) = ?raw @ extentsBlob es" by (simp add: extentsBlob_def)
  have upt: "[0..<length (e # es)] = 0 # map Suc [0..<length es]"
    by (subst upt_conv_Cons) (simp_all add: map_Suc_upt)
  have hd: "leNat (leBytes 8 (deviceOffset e)) = deviceOffset e"
    "leNat (leBytes 8 (lengthBytes e)) = lengthBytes e"
    using Cons.prems by (simp_all add: extent_ok_def max64_def)
  have "decodeExtents (extentsBlob (e # es)) (length (e # es)) =
      e # decodeExtents (extentsBlob es) (length es)"
    unfolding decodeExtents_def upt raw by (simp add: hd kExtentBytes_def add.commute)
  then show ?case using Cons by simp
qed (simp add: decodeExtents_def)

lemma recordFor_simps:
  assumes "storable c"
  shows "cr_nameLength (recordFor c off) = length (cd_name c)"
    "cr_extentCount (recordFor c off) = length (cd_extents c)"
    "cr_residentLength (recordFor c off) = length (cd_residentContent c)"
    "cr_blobOffset (recordFor c off) = off"
  using assms
  by (simp_all add: recordFor_def storable_def wrap32_def kMaxCandidateNameBytes_def
      kMaxCandidateExtents_def kMaxResidentBytes_def)

lemma recordFor_ok: "storable c \<Longrightarrow> off \<le> max64 \<Longrightarrow> record_ok (recordFor c off)"
  by (cases "cd_confidence c"; cases "cd_source c")
     (auto simp: record_ok_def recordFor_def storable_def wrap32_def max32_def kMaxCandidateNameBytes_def
       kMaxCandidateExtents_def kMaxResidentBytes_def)

lemma lengthsAreSane_recordFor: "storable c \<Longrightarrow> lengthsAreSane (recordFor c off)"
  by (simp add: lengthsAreSane_def recordFor_simps) (simp add: storable_def)

lemma entryBytes_recordFor: "storable c \<Longrightarrow> entryBytes (recordFor c off) = length (encodeBlobEntry c)"
  by (simp add: entryBytes_def recordFor_simps length_encodeBlobEntry)
     (simp add: storable_def kMaxCandidateNameBytes_def kMaxCandidateExtents_def kMaxResidentBytes_def
       kExtentBytes_def max64_def)

lemma decodeCandidate_encode:
  assumes "storable c"
  shows "decodeCandidate (recordFor c off) (encodeBlobEntry c) = storedOf c"
proof -
  have ext: "decodeExtents (extentsBlob (cd_extents c)) (length (cd_extents c)) = cd_extents c"
    using assms by (intro decodeExtents_extentsBlob) (simp add: storable_def)
  have "drop (length (encodeBlobEntry c) - length (cd_residentContent c)) (encodeBlobEntry c) =
      cd_residentContent c"
    by (simp add: encodeBlobEntry_eq)
  then show ?thesis
    using assms ext
    by (simp add: decodeCandidate_def recordFor_simps storedOf_def)
       (simp add: encodeBlobEntry_eq recordFor_def comp_def)
qed

lemma fileReadAt_in [simp]: "off + len \<le> length file \<Longrightarrow> fileReadAt file off len = take len (drop off file)"
  by (simp add: fileReadAt_def)

lemma readCandidate_stored:
  assumes "storable c" and "off \<le> max64" and "off + length (encodeBlobEntry c) \<le> length blob"
    and "take (length (encodeBlobEntry c)) (drop off blob) = encodeBlobEntry c"
  shows "readCandidate (recordFor c off) blob = Some (storedOf c)"
proof -
  have "blobRangeFits (recordFor c off) (length blob)"
    using assms by (simp add: blobRangeFits_def recordFor_simps entryBytes_recordFor)
  then show ?thesis
    using assms
    by (simp add: readCandidate_def lengthsAreSane_recordFor recordFor_simps entryBytes_recordFor
        decodeCandidate_encode)
qed

subsection \<open>Files that hold candidates\<close>

lemma stored_at_mono:
  assumes "stored_at files i c" and "kIndexHeaderBytes + Suc i * kRecordBytes \<le> length (if_records files)"
  shows "stored_at \<lparr>if_records = if_records files @ x, if_blob = if_blob files @ y\<rparr> i c"
  using assms by (auto simp: stored_at_def record_at_def)

lemma holds_mono:
  assumes "holds files cs"
  shows "holds \<lparr>if_records = if_records files @ x, if_blob = if_blob files @ y\<rparr> cs"
proof -
  have "kIndexHeaderBytes + Suc i * kRecordBytes \<le> length (if_records files)" if "i < length cs" for i
  proof -
    have "Suc i * kRecordBytes \<le> length cs * kRecordBytes" using that by (intro mult_le_mono1) simp
    then show ?thesis using assms by (simp add: holds_def)
  qed
  then show ?thesis using assms stored_at_mono by (auto simp: holds_def)
qed

lemma holds_snoc:
  assumes "holds files cs" and "length (if_records files) = kIndexHeaderBytes + length cs * kRecordBytes"
    and "length (if_blob files) \<le> max64"
  shows "holds \<lparr>if_records = if_records files @ encodeRecord (recordFor c (length (if_blob files))) @ x,
      if_blob = if_blob files @ encodeBlobEntry c @ y\<rparr> (cs @ [c])"
    (is "holds ?files _")
proof -
  have old: "holds ?files cs" using holds_mono [OF assms(1)] by simp
  have "stored_at ?files (length cs) c"
    unfolding stored_at_def record_at_def
    using assms(2,3) by (intro exI [of _ "length (if_blob files)"]) simp
  then show ?thesis
    using old assms(2) by (auto simp: holds_def nth_append less_Suc_eq kRecordBytes_def)
qed

lemma readOneRecord_holds:
  assumes "holds files cs" and "i < length cs" and "storable (cs ! i)"
  shows "readOneRecord files contents i =
    contents\<lparr>ic_candidates := ic_candidates contents @ [storedOf (cs ! i)]\<rparr>"
proof -
  obtain off where off: "off \<le> max64" "record_at files i = encodeRecord (recordFor (cs ! i) off)"
    "off + length (encodeBlobEntry (cs ! i)) \<le> length (if_blob files)"
    "take (length (encodeBlobEntry (cs ! i))) (drop off (if_blob files)) = encodeBlobEntry (cs ! i)"
    using assms by (auto simp: holds_def stored_at_def)
  have "length (record_at files i) = kRecordBytes" using off(2) by simp
  then have "fileReadAt (if_records files) (kIndexHeaderBytes + i * kRecordBytes) kRecordBytes = record_at files i"
    by (simp add: record_at_def kRecordBytes_def)
  then show ?thesis
    using readCandidate_stored [OF assms(3) off(1,3,4)] recordFor_ok [OF assms(3) off(1)] off(2)
    by (simp add: readOneRecord_def decode_encode_record appendCandidate_def)
qed

lemma readAll_holds:
  assumes "holds files cs" and "list_all storable cs" and "k \<le> length cs"
  shows "readAll files k =
    \<lparr>ic_candidates = map storedOf (take k cs), ic_droppedRecords = tornTailRecords (if_records files)\<rparr>"
  using assms(3)
proof (induction k)
  case (Suc k)
  have "storable (cs ! k)" using assms(2) Suc.prems by (simp add: list_all_length)
  then show ?case
    using Suc readOneRecord_holds [OF assms(1), of k]
    by (simp add: readAll_def take_Suc_conv_app_nth)
qed (simp add: readAll_def)

lemma readIndex_holds:
  assumes "holds files cs" and "list_all storable cs" and "length cs \<le> kMaxIndexedCandidates"
    and "length (if_records files) < kIndexHeaderBytes + Suc (length cs) * kRecordBytes"
  shows "readIndex files = Inr
    \<lparr>ic_candidates = map storedOf cs, ic_droppedRecords = tornTailRecords (if_records files)\<rparr>"
proof -
  have len: "kIndexHeaderBytes + length cs * kRecordBytes \<le> length (if_records files)"
    and hdr: "take kIndexHeaderBytes (if_records files) = encodeIndexHeader"
    using assms(1) by (simp_all add: holds_def)
  have "(length (if_records files) - kIndexHeaderBytes) div kRecordBytes = length cs"
    using len assms(4) by (intro div_nat_eqI) (simp_all add: mult.commute)
  moreover have "fileReadAt (if_records files) 0 kIndexHeaderBytes = encodeIndexHeader"
    using hdr len by simp
  ultimately have "recordCount (if_records files) = Inr (length cs)"
    using len assms(3) headerIsOurs_encode by (simp add: recordCount_def)
  then show ?thesis using readAll_holds [OF assms(1,2)] by (simp add: readIndex_def)
qed

subsection \<open>Every operation keeps the invariant\<close>

lemma streamWrite_simps [simp]:
  "streamWrite room (file, False) raw = (file, False)"
  "streamWrite room (file, True) raw = (file @ take room raw, length raw \<le> room)"
  by (simp_all add: streamWrite_def)

lemma streamWrite_True: "streamWrite room (file, good) raw = (file', True) \<Longrightarrow> file' = file @ raw"
  by (auto simp: streamWrite_def split: if_splits)

lemma indexCreate_ok: "indexCreate host = Inr index \<Longrightarrow> index_ok index []"
  by (auto simp: index_ok_def indexCreate_def holds_def streamWrite_def split: if_splits)

lemma writeEntry_Inr:
  assumes "writeEntry host index c = (index', Inr n)"
  shows "ci_files index' = \<lparr>if_records = if_records (ci_files index) @ encodeRecord (recordFor c (ci_blobBytes index)),
      if_blob = if_blob (ci_files index) @ encodeBlobEntry c\<rparr>"
    and "ci_blobBytes index' = wrap64 (ci_blobBytes index + length (encodeBlobEntry c))"
    and "ci_count index' = wrap64 (ci_count index + 1)" and "n = ci_count index"
  using assms by (auto simp: writeEntry_def Let_def split_beta streamWrite_def split: if_splits)

lemma writeEntry_Inl:
  assumes "writeEntry host index c = (index', Inl e)"
  shows "\<exists>i j. ci_files index' =
      \<lparr>if_records = if_records (ci_files index) @ take j (encodeRecord (recordFor c (ci_blobBytes index))),
       if_blob = if_blob (ci_files index) @ take i (encodeBlobEntry c)\<rparr>"
    and "e = mkError kIoFailure (ci_blobBytes index)"
proof -
  have take0: "\<exists>k. xs = xs @ take k ys" for xs ys :: bytes by (rule exI [of _ 0]) simp
  show "\<exists>i j. ci_files index' =
      \<lparr>if_records = if_records (ci_files index) @ take j (encodeRecord (recordFor c (ci_blobBytes index))),
       if_blob = if_blob (ci_files index) @ take i (encodeBlobEntry c)\<rparr>"
    using assms take0
    by (cases "ci_blobGood index"; cases "ci_recordsGood index")
       (auto simp: writeEntry_def Let_def split: if_splits)
  show "e = mkError kIoFailure (ci_blobBytes index)"
    using assms by (auto simp: writeEntry_def Let_def split_beta split: if_splits)
qed

lemma writeEntry_ok:
  assumes "index_ok index cs" and "ci_blobBytes index + length (encodeBlobEntry c) \<le> max64"
    and "length cs < max64" and w: "writeEntry host index c = (index', Inr n)"
  shows "index_ok index' (cs @ [c])" and "n = length cs"
    and "ci_blobBytes index' = ci_blobBytes index + length (encodeBlobEntry c)"
proof -
  define files where "files = ci_files index"
  have ok: "holds files cs" "length (if_records files) = kIndexHeaderBytes + length cs * kRecordBytes"
    "ci_blobBytes index = length (if_blob files)" "ci_count index = length cs"
    using assms(1) by (simp_all add: index_ok_def files_def)
  note new = writeEntry_Inr [OF w, folded files_def]
  have "length (if_blob files) \<le> max64" using assms(2) ok(3) by simp
  from holds_snoc [OF ok(1,2) this, of c "[]" "[]"]
  have "holds (ci_files index') (cs @ [c])" by (simp add: new(1) ok(3))
  then show "index_ok index' (cs @ [c])" using ok assms(2,3) new by (simp add: index_ok_def)
  show "n = length cs" using ok new by simp
  show "ci_blobBytes index' = ci_blobBytes index + length (encodeBlobEntry c)" using new(2) assms(2) by simp
qed

lemma appendAll_ok:
  "index_ok index cs \<Longrightarrow> ci_blobBytes index + blobSize (map snd new) \<le> max64 \<Longrightarrow>
   length cs + length new \<le> max64 \<Longrightarrow> appendAll index new = Inr index' \<Longrightarrow>
   index_ok index' (cs @ map snd new)"
proof (induction new arbitrary: index cs)
  case (Cons p new)
  obtain host c where p: "p = (host, c)" by (cases p)
  obtain mid n where w: "writeEntry host index c = (mid, Inr n)" and rest: "appendAll mid new = Inr index'"
    using Cons.prems(4) by (auto simp: p split: prod.splits sum.splits)
  have "ci_blobBytes index + length (encodeBlobEntry c) \<le> max64" "length cs < max64"
    using Cons.prems(2,3) by (simp_all add: blobSize_def p)
  note step = writeEntry_ok [OF Cons.prems(1) this w]
  have "index_ok index' ((cs @ [c]) @ map snd new)"
    using Cons.prems(2,3) step(3) rest by (intro Cons.IH [OF step(1)]) (simp_all add: blobSize_def p)
  then show ?case by (simp add: p)
qed simp

lemma indexReopen_ok:
  assumes "holds files cs" and "n \<le> length cs"
    and "ih_resizeError host = None" and "ih_opensRecords host" and "ih_opensBlob host"
  shows "\<exists>index. indexReopen host files n = Inr index \<and> index_ok index (take n cs)"
proof -
  let ?wanted = "recordAreaBytes n" and ?cut = "files\<lparr>if_records := take (recordAreaBytes n) (if_records files)\<rparr>"
  have "n * kRecordBytes \<le> length cs * kRecordBytes" using assms(2) by (rule mult_le_mono1)
  then have len: "?wanted \<le> length (if_records files)"
    using assms(1) unfolding holds_def recordAreaBytes_def by linarith
  have rec: "record_at ?cut i = record_at files i" if "i < n" for i
  proof -
    have "Suc i * kRecordBytes \<le> n * kRecordBytes" using that by (intro mult_le_mono1) simp
    then have "kIndexHeaderBytes + i * kRecordBytes + kRecordBytes \<le> ?wanted"
      by (simp add: recordAreaBytes_def)
    then show ?thesis by (simp add: record_at_def drop_take min_absorb1)
  qed
  have "stored_at ?cut i (cs ! i)" if "i < n" for i
    using assms that rec [OF that] by (auto simp: holds_def stored_at_def)
  then have "holds ?cut (take n cs)"
    using assms(1,2) len by (auto simp: holds_def recordAreaBytes_def min_absorb1)
  then show ?thesis
    using len assms(2-)
    by (simp add: indexReopen_def continued_def index_ok_def recordAreaBytes_def min_absorb1)
qed

subsection \<open>An append cut short\<close>

lemma appending_shape:
  assumes "appending entry rec files fs"
  shows "(\<exists>i \<le> length entry. if_blob fs = if_blob files @ take i entry \<and> if_records fs = if_records files) \<or>
    (\<exists>j \<le> length rec. if_blob fs = if_blob files @ entry \<and> if_records fs = if_records files @ take j rec)"
  using assms
proof (induction rule: appending.induct)
  case (untouched files)
  then show ?case by (intro disjI1 exI [of _ 0]) simp
next
  case (blob_byte files fs i)
  then show ?case by (intro disjI1 exI [of _ "Suc i"]) (simp add: take_Suc_conv_app_nth)
next
  case (record_byte files fs j)
  then show ?case by (intro disjI2 exI [of _ "Suc j"]) (simp add: take_Suc_conv_app_nth)
qed

lemma unbacked_record_dropped:
  assumes h: "holds files cs" "length (if_records files) = kIndexHeaderBytes + length cs * kRecordBytes"
    and st: "list_all storable (cs @ [c])" and len: "length cs < kMaxIndexedCandidates"
    and room: "length (if_blob files) \<le> max64" and short: "i < length (encodeBlobEntry c)"
  shows "readIndex \<lparr>if_records = if_records files @ encodeRecord (recordFor c (length (if_blob files))),
      if_blob = if_blob files @ take i (encodeBlobEntry c)\<rparr> =
    Inr \<lparr>ic_candidates = map storedOf cs, ic_droppedRecords = 1\<rparr>"
    (is "readIndex ?fs = _")
proof -
  let ?rec = "recordFor c (length (if_blob files))"
  have one: "wrap64 (Suc 0) = Suc 0" by (simp add: wrap64_def)
  have held: "holds ?fs cs" using holds_mono [OF h(1)] by simp
  have cnt: "recordCount (if_records ?fs) = Inr (Suc (length cs))"
  proof -
    have "take kIndexHeaderBytes (if_records files) = encodeIndexHeader" using h(1) by (simp add: holds_def)
    then have "headerIsOurs (fileReadAt (if_records ?fs) 0 kIndexHeaderBytes)"
      using h(2) headerIsOurs_encode by simp
    moreover have "(length (if_records ?fs) - kIndexHeaderBytes) div kRecordBytes = Suc (length cs)"
      using h(2) by (simp add: kRecordBytes_def)
    ultimately show ?thesis using h(2) len by (simp add: recordCount_def boundedCount_def)
  qed
  have "fileReadAt (if_records ?fs) (kIndexHeaderBytes + length cs * kRecordBytes) kRecordBytes = encodeRecord ?rec"
    using h(2) by simp
  moreover have "decodeRecord (encodeRecord ?rec) = ?rec"
    using st room by (intro decode_encode_record recordFor_ok) simp_all
  moreover have "readCandidate ?rec (if_blob ?fs) = None"
    using st short by (simp add: readCandidate_def blobRangeFits_def entryBytes_recordFor recordFor_simps)
  ultimately have last: "readOneRecord ?fs contents (length cs) =
      contents\<lparr>ic_droppedRecords := wrap64 (ic_droppedRecords contents + 1)\<rparr>" for contents
    unfolding readOneRecord_def by (simp only: appendCandidate_def option.case)
  have "readAll ?fs (Suc (length cs)) = readOneRecord ?fs (readAll ?fs (length cs)) (length cs)"
    by (simp add: readAll_def)
  then show ?thesis
    using readAll_holds [OF held _ order_refl] st h(2) last cnt one
    by (simp add: readIndex_def tornTailRecords_def)
qed

lemma partial_append_reads_back:
  assumes h: "holds files cs" "length (if_records files) = kIndexHeaderBytes + length cs * kRecordBytes"
    and st: "list_all storable (cs @ [c])" and len: "length cs < kMaxIndexedCandidates"
    and room: "length (if_blob files) \<le> max64"
    and fs: "fs = \<lparr>if_records = if_records files @ take j (encodeRecord (recordFor c (length (if_blob files)))),
      if_blob = if_blob files @ take i (encodeBlobEntry c)\<rparr>"
  shows "(\<exists>torn \<le> 1. readIndex fs = Inr \<lparr>ic_candidates = map storedOf cs, ic_droppedRecords = torn\<rparr>) \<or>
    readIndex fs = Inr \<lparr>ic_candidates = map storedOf (cs @ [c]), ic_droppedRecords = 0\<rparr>"
proof (cases "j < kRecordBytes")
  case True
  then have "readIndex fs = Inr \<lparr>ic_candidates = map storedOf cs,
      ic_droppedRecords = tornTailRecords (if_records fs)\<rparr>"
    unfolding fs using holds_mono [OF h(1)] st len h(2) by (intro readIndex_holds) auto
  then show ?thesis by (auto simp: tornTailRecords_def)
next
  case False
  then have rec: "take j (encodeRecord (recordFor c (length (if_blob files)))) =
      encodeRecord (recordFor c (length (if_blob files)))" by simp
  show ?thesis
  proof (cases "i < length (encodeBlobEntry c)")
    case True
    then show ?thesis using unbacked_record_dropped [OF h st len room True] unfolding fs rec by auto
  next
    case False
    then have "holds fs (cs @ [c])" unfolding fs rec
      using holds_snoc [OF h room, of c "[]" "[]"] by simp
    then have "readIndex fs = Inr \<lparr>ic_candidates = map storedOf (cs @ [c]),
        ic_droppedRecords = tornTailRecords (if_records fs)\<rparr>"
      using st len h(2) unfolding fs rec by (intro readIndex_holds) (auto simp: kRecordBytes_def)
    moreover have "tornTailRecords (if_records fs) = 0"
      unfolding fs rec using h(2) by (simp add: tornTailRecords_def)
    ultimately show ?thesis by auto
  qed
qed

lemma appending_partial:
  "appending entry rec files fs \<Longrightarrow>
   \<exists>i j. fs = \<lparr>if_records = if_records files @ take j rec, if_blob = if_blob files @ take i entry\<rparr>"
  using appending_shape [of entry rec files fs]
  by (metis append_Nil2 IndexFiles.surjective old.unit.exhaust order_refl take0 take_all)

subsection \<open>Properties\<close>

definition indexable :: "Candidate list \<Rightarrow> bool" where
  "indexable cs \<longleftrightarrow> list_all storable cs \<and> length cs \<le> kMaxIndexedCandidates \<and> blobSize cs \<le> max64"

lemma appendAll_reads_back:
  assumes "index_ok index cs" and "appendAll index new = Inr index'"
    and "list_all storable (cs @ map snd new)" and "length cs + length new \<le> kMaxIndexedCandidates"
    and "ci_blobBytes index + blobSize (map snd new) \<le> max64"
  shows "readIndex (ci_files index') =
    Inr \<lparr>ic_candidates = map storedOf (cs @ map snd new), ic_droppedRecords = 0\<rparr>"
proof -
  have "kMaxIndexedCandidates \<le> max64" by (simp add: kMaxIndexedCandidates_def max64_def)
  then have ok: "index_ok index' (cs @ map snd new)"
    using assms by (intro appendAll_ok [OF assms(1,5) _ assms(2)]) simp
  then have "readIndex (ci_files index') = Inr \<lparr>ic_candidates = map storedOf (cs @ map snd new),
      ic_droppedRecords = tornTailRecords (if_records (ci_files index'))\<rparr>"
    using assms(3,4) by (intro readIndex_holds) (simp_all add: index_ok_def kRecordBytes_def)
  moreover have "tornTailRecords (if_records (ci_files index')) = 0"
    using ok by (simp add: index_ok_def tornTailRecords_def)
  ultimately show ?thesis by simp
qed

text \<open>
  C14: The candidate index round-trips: candidates appended to a freshly created index, as long as every
  append succeeded and they are within the bounds the reader enforces, are read back exactly, in
  order, with no record dropped.
\<close>
theorem index_round_trip:
  assumes "indexCreate host = Inr index" and "appendAll index new = Inr index'"
    and "indexable (map snd new)"
  shows "readIndex (ci_files index') =
    Inr \<lparr>ic_candidates = map storedOf (map snd new), ic_droppedRecords = 0\<rparr>"
proof -
  have "ci_blobBytes index = 0"
    using assms(1) by (auto simp: indexCreate_def split: prod.splits if_splits)
  then show ?thesis
    using appendAll_reads_back [OF indexCreate_ok [OF assms(1)] assms(2)] assms(3)
    by (simp add: indexable_def)
qed

definition roomyHost :: IndexHost where
  "roomyHost = \<lparr>ih_opensRecords = True, ih_opensBlob = True, ih_roomRecords = 4096, ih_roomBlob = 4096,
                ih_resizeError = None\<rparr>"

definition sampleStored :: Candidate where
  "sampleStored = sampleCandidate kCarve kValid [\<lparr>deviceOffset = 4, lengthBytes = 8\<rparr>]"

lemma length_sampleStored: "length (encodeBlobEntry sampleStored) = 19"
  by (simp add: length_encodeBlobEntry sampleStored_def sampleCandidate_def kExtentBytes_def)

lemma sampleStored_storable: "storable sampleStored"
  by (simp add: sampleStored_def sampleCandidate_def storable_def kMaxCandidateNameBytes_def
      kMaxCandidateExtents_def kMaxResidentBytes_def region_eval)

lemma roomy_create: "\<exists>index. indexCreate roomyHost = Inr index \<and> ci_recordsGood index \<and> ci_blobGood index"
  by (simp add: indexCreate_def roomyHost_def kIndexHeaderBytes_def)

lemma roomy_append:
  "ci_recordsGood index \<Longrightarrow> ci_blobGood index \<Longrightarrow> \<exists>index'. appendAll index [(roomyHost, sampleStored)] = Inr index'"
  by (simp add: writeEntry_def Let_def roomyHost_def length_sampleStored kRecordBytes_def)

theorem index_round_trip_witness:
  "\<exists>index index'. indexCreate roomyHost = Inr index \<and> appendAll index [(roomyHost, sampleStored)] = Inr index' \<and>
     readIndex (ci_files index') = Inr \<lparr>ic_candidates = [storedOf sampleStored], ic_droppedRecords = 0\<rparr>"
proof -
  obtain index index' where run: "indexCreate roomyHost = Inr index" "appendAll index [(roomyHost, sampleStored)] = Inr index'"
    using roomy_create roomy_append by metis
  have "indexable (map snd [(roomyHost, sampleStored)])"
    by (simp add: indexable_def sampleStored_storable blobSize_def length_sampleStored kMaxIndexedCandidates_def max64_def)
  from index_round_trip [OF run this] run show ?thesis by auto
qed

text \<open>
  C12: An append that is interrupted between any two bytes it writes, or that fails because the host
  refuses bytes to either file, never damages the index: reading it back yields every candidate
  appended before, intact and in order, plus either the new one whole or at most one dropped record.
\<close>
theorem interrupted_append_is_harmless:
  assumes "index_ok index cs" and "list_all storable (cs @ [c])"
    and "length cs < kMaxIndexedCandidates" and "ci_blobBytes index \<le> max64"
    and "appending (encodeBlobEntry c) (encodeRecord (recordFor c (ci_blobBytes index))) (ci_files index) fs
      \<or> (\<exists>host index' e. writeEntry host index c = (index', Inl e) \<and> fs = ci_files index')"
  shows "(\<exists>torn \<le> 1. readIndex fs = Inr \<lparr>ic_candidates = map storedOf cs, ic_droppedRecords = torn\<rparr>) \<or>
    readIndex fs = Inr \<lparr>ic_candidates = map storedOf (cs @ [c]), ic_droppedRecords = 0\<rparr>"
proof -
  have h: "holds (ci_files index) cs"
    "length (if_records (ci_files index)) = kIndexHeaderBytes + length cs * kRecordBytes"
    "ci_blobBytes index = length (if_blob (ci_files index))"
    using assms(1) by (simp_all add: index_ok_def)
  obtain i j where "fs = \<lparr>if_records = if_records (ci_files index) @
        take j (encodeRecord (recordFor c (length (if_blob (ci_files index))))),
      if_blob = if_blob (ci_files index) @ take i (encodeBlobEntry c)\<rparr>"
    using assms(5) appending_partial writeEntry_Inl(1) h(3) by (metis (no_types, lifting))
  then show ?thesis using h assms(4) by (intro partial_append_reads_back [OF h(1,2) assms(2,3)]) simp_all
qed

theorem interrupted_append_is_harmless_witness:
  "\<exists>index. index_ok index [] \<and>
     ((\<exists>torn \<le> 1. readIndex (ci_files (fst (writeEntry (roomyHost\<lparr>ih_roomBlob := 2\<rparr>) index sampleStored))) =
        Inr \<lparr>ic_candidates = [], ic_droppedRecords = torn\<rparr>) \<or>
      readIndex (ci_files (fst (writeEntry (roomyHost\<lparr>ih_roomBlob := 2\<rparr>) index sampleStored))) =
        Inr \<lparr>ic_candidates = [storedOf sampleStored], ic_droppedRecords = 0\<rparr>)"
proof -
  obtain index where index: "indexCreate roomyHost = Inr index" "ci_recordsGood index" "ci_blobGood index"
    using roomy_create by blast
  have ok: "index_ok index []" using indexCreate_ok [OF index(1)] .
  have bytes: "ci_blobBytes index \<le> max64"
    using index(1) by (auto simp: indexCreate_def split: prod.splits if_splits)
  have "\<exists>index' e. writeEntry (roomyHost\<lparr>ih_roomBlob := 2\<rparr>) index sampleStored = (index', Inl e)"
    using index by (simp add: writeEntry_def Let_def length_sampleStored)
  then obtain index' e where "writeEntry (roomyHost\<lparr>ih_roomBlob := 2\<rparr>) index sampleStored = (index', Inl e)" by blast
  then have "(\<exists>torn \<le> 1. readIndex (ci_files index') = Inr \<lparr>ic_candidates = map storedOf [], ic_droppedRecords = torn\<rparr>) \<or>
    readIndex (ci_files index') = Inr \<lparr>ic_candidates = map storedOf ([] @ [sampleStored]), ic_droppedRecords = 0\<rparr>"
    using sampleStored_storable bytes
    by (intro interrupted_append_is_harmless [OF ok]) (auto simp: kMaxIndexedCandidates_def)
  then show ?thesis using ok \<open>writeEntry _ index _ = _\<close> by (intro exI [of _ index]) simp
qed

text \<open>
  Resuming a session: reopening an index at the record count its checkpoint promised succeeds
  whenever the files hold that many candidates, forgets everything after them, and candidates
  appended from there read back after the kept ones, however many stray blob bytes were left over.
\<close>
theorem reopened_index_continues:
  assumes "holds files cs" and "n \<le> length cs"
    and "ih_resizeError host = None" and "ih_opensRecords host" and "ih_opensBlob host"
    and "list_all storable (take n cs @ map snd new)" and "n + length new \<le> kMaxIndexedCandidates"
    and "length (if_blob files) + blobSize (map snd new) \<le> max64"
  shows "\<exists>index. indexReopen host files n = Inr index \<and> ci_count index = n \<and>
    (\<forall>index'. appendAll index new = Inr index' \<longrightarrow>
       readIndex (ci_files index') =
       Inr \<lparr>ic_candidates = map storedOf (take n cs @ map snd new), ic_droppedRecords = 0\<rparr>)"
proof -
  obtain index where index: "indexReopen host files n = Inr index" "index_ok index (take n cs)"
    using indexReopen_ok [OF assms(1-5)] by blast
  have "if_blob (ci_files index) = if_blob files"
    using index(1) by (auto simp: indexReopen_def continued_def Let_def split: if_splits option.splits)
  then have "ci_blobBytes index = length (if_blob files)" using index(2) by (simp add: index_ok_def)
  then have "readIndex (ci_files index') =
      Inr \<lparr>ic_candidates = map storedOf (take n cs @ map snd new), ic_droppedRecords = 0\<rparr>"
    if "appendAll index new = Inr index'" for index'
    using appendAll_reads_back [OF index(2) that] assms(2,6-8) by (simp add: min_absorb2)
  then show ?thesis using index assms(2) by (auto simp: index_ok_def min_absorb2)
qed

theorem reopened_index_continues_witness:
  "\<exists>files index. holds files [] \<and> indexReopen roomyHost files 0 = Inr index \<and>
     (\<forall>index'. appendAll index [(roomyHost, sampleStored)] = Inr index' \<longrightarrow>
        readIndex (ci_files index') = Inr \<lparr>ic_candidates = [storedOf sampleStored], ic_droppedRecords = 0\<rparr>)"
proof -
  let ?files = "\<lparr>if_records = encodeIndexHeader @ [1, 2, 3], if_blob = [9, 9]\<rparr>"
  have h: "holds ?files []" by (simp add: holds_def)
  have "\<exists>index. indexReopen roomyHost ?files 0 = Inr index \<and> ci_count index = 0 \<and>
    (\<forall>index'. appendAll index [(roomyHost, sampleStored)] = Inr index' \<longrightarrow>
       readIndex (ci_files index') =
       Inr \<lparr>ic_candidates = map storedOf (take 0 [] @ map snd [(roomyHost, sampleStored)]), ic_droppedRecords = 0\<rparr>)"
    by (rule reopened_index_continues [OF h])
       (simp_all add: roomyHost_def sampleStored_storable blobSize_def length_sampleStored kMaxIndexedCandidates_def max64_def)
  then show ?thesis using h by (intro exI [of _ ?files]) auto
qed

end
