(* ===== verification/Checkpoints.thy ===== *)
theory Checkpoints
  imports Bytes
begin

text \<open>
  \<open>src/recovery/Checkpoint.cpp\<close>, \<open>SessionFile.cpp\<close> and \<open>StorageRoom.cpp\<close>: how far a run
  had got, in a fixed 64-byte file that is replaced by writing a pending file beside it and
  renaming over it. A session directory maps file names to contents. What the host does to a
  write (whether the file opens, how many bytes it takes, what \<open>std::filesystem::space\<close> and
  \<open>rename\<close> answer) is the parameter \<open>host\<close>; \<open>replacing\<close> is the same replacement step by
  step, for runs that stop in the middle of it.
\<close>

subsection \<open>The host\<close>

type_synonym directory = "string \<rightharpoonup> bytes"

record HostIo =
  hio_opens :: bool
  hio_accepts :: "bytes \<Rightarrow> nat"
  hio_available :: "nat option"
  hio_renameError :: "int option"

definition writeFailureAt :: "nat option \<Rightarrow> ErrorCode" where
  "writeFailureAt room =
     (case room of
        None \<Rightarrow> kIoFailure
      | Some available \<Rightarrow> if available > 0 then kIoFailure else kStorageExhausted)"

subsection \<open>Replacing a file\<close>

definition kPendingSuffix :: string where "kPendingSuffix = ''.pending''"

definition putPending :: "HostIo \<Rightarrow> directory \<Rightarrow> string \<Rightarrow> bytes \<Rightarrow> directory \<times> string result" where
  "putPending host dir path content =
     (if \<not> hio_opens host then (dir, Inl (mkError (writeFailureAt (hio_available host)) 0))
      else let dir' = dir(path \<mapsto> take (hio_accepts host content) content)
           in if hio_accepts host content < length content
              then (dir', Inl (mkError (writeFailureAt (hio_available host)) 0))
              else (dir', Inr path))"

definition renameOver :: "HostIo \<Rightarrow> directory \<Rightarrow> string \<Rightarrow> string \<Rightarrow> directory \<times> string result" where
  "renameOver host dir pending target =
     (case hio_renameError host of
        Some failure \<Rightarrow> (dir, Inl \<lparr>err_code = kIoFailure, err_offset = 0, err_osCode = failure\<rparr>)
      | None \<Rightarrow> ((dir(target := dir pending))(pending := None), Inr target))"

definition replaceFile :: "HostIo \<Rightarrow> directory \<Rightarrow> string \<Rightarrow> bytes \<Rightarrow> directory \<times> string result" where
  "replaceFile host dir target content =
     (let pending = target @ kPendingSuffix;
          (dir', written) = putPending host dir pending content
      in case written of
           Inl e \<Rightarrow> (dir', Inl e)
         | Inr _ \<Rightarrow> renameOver host dir' pending target)"

inductive replacing :: "string \<Rightarrow> bytes \<Rightarrow> directory \<Rightarrow> directory \<Rightarrow> bool"
  for target :: string and content :: bytes where
  not_begun: "replacing target content dir dir"
| pending_written: "replacing target content dir d \<Longrightarrow> d target = dir target \<Longrightarrow> k \<le> length content \<Longrightarrow>
    replacing target content dir (d(target @ kPendingSuffix \<mapsto> take k content))"
| renamed: "replacing target content dir d \<Longrightarrow> d (target @ kPendingSuffix) = Some content \<Longrightarrow>
    replacing target content dir ((d(target \<mapsto> content))(target @ kPendingSuffix := None))"

subsection \<open>The checkpoint\<close>

definition kCheckpointFileName :: string where "kCheckpointFileName = ''checkpoint''"

definition kPendingFileName :: string where "kPendingFileName = ''checkpoint.new''"

definition kCheckpointBytes :: size_t where "kCheckpointBytes = 64"

definition kCheckpointMagic :: bytes where
  "kCheckpointMagic = [0x52, 0x56, 0x4E, 0x54, 0x43, 0x4B, 0x50, 0x00]"

definition kCheckpointVersion :: u32 where "kCheckpointVersion = 1"

record Checkpoint =
  cp_shape :: bytes
  cp_scanCursor :: u64
  cp_indexRecords :: u64

definition encodeCheckpoint :: "Checkpoint \<Rightarrow> bytes" where
  "encodeCheckpoint checkpoint =
     (let raw = overwrite (replicate kCheckpointBytes 0) 0 kCheckpointMagic;
          raw = overwrite raw 8 (leBytes 4 kCheckpointVersion);
          raw = overwrite raw 16 (cp_shape checkpoint);
          raw = overwrite raw 48 (leBytes 8 (cp_scanCursor checkpoint))
      in overwrite raw 56 (leBytes 8 (cp_indexRecords checkpoint)))"

definition checkpointHeaderIsOurs :: "bytes \<Rightarrow> bool" where
  "checkpointHeaderIsOurs raw \<longleftrightarrow>
     take 8 raw = kCheckpointMagic \<and> leNat (take 4 (drop 8 raw)) = kCheckpointVersion"

definition writeCheckpoint :: "HostIo \<Rightarrow> directory \<Rightarrow> Checkpoint \<Rightarrow> directory \<times> string result" where
  "writeCheckpoint host dir checkpoint =
     replaceFile host dir kCheckpointFileName (encodeCheckpoint checkpoint)"

definition readCheckpoint :: "directory \<Rightarrow> Checkpoint result" where
  "readCheckpoint dir =
     (case dir kCheckpointFileName of
        None \<Rightarrow> Inl (mkError kNotFound 0)
      | Some raw \<Rightarrow>
          if length raw \<noteq> kCheckpointBytes \<or> \<not> checkpointHeaderIsOurs raw
          then Inl (mkError kInvalidArgument 0)
          else Inr \<lparr>cp_shape = take 32 (drop 16 raw),
                    cp_scanCursor = leNat (take 8 (drop 48 raw)),
                    cp_indexRecords = leNat (take 8 (drop 56 raw))\<rparr>)"

definition clearCheckpoint :: "directory \<Rightarrow> directory" where
  "clearCheckpoint dir = (dir(kCheckpointFileName := None))(kPendingFileName := None)"

definition checkpoint_ok :: "Checkpoint \<Rightarrow> bool" where
  "checkpoint_ok c \<longleftrightarrow>
     length (cp_shape c) = 32 \<and> cp_scanCursor c \<le> max64 \<and> cp_indexRecords c \<le> max64"

subsection \<open>Encoding\<close>

lemma length_encodeCheckpoint:
  "length (cp_shape c) = 32 \<Longrightarrow> length (encodeCheckpoint c) = kCheckpointBytes"
  by (simp add: encodeCheckpoint_def Let_def kCheckpointBytes_def kCheckpointMagic_def)

lemma take_overwrite_first:
  "length v = k \<Longrightarrow> k \<le> length raw \<Longrightarrow> take k (overwrite raw 0 v) = v"
  "k \<le> at \<Longrightarrow> at + length v \<le> length raw \<Longrightarrow> take k (overwrite raw at v) = take k raw"
  by (simp_all add: overwrite_def)

lemma encodeCheckpoint_fields:
  assumes "length (cp_shape c) = 32"
  shows "take 8 (encodeCheckpoint c) = kCheckpointMagic"
    "take 4 (drop 8 (encodeCheckpoint c)) = leBytes 4 kCheckpointVersion"
    "take 32 (drop 16 (encodeCheckpoint c)) = cp_shape c"
    "take 8 (drop 48 (encodeCheckpoint c)) = leBytes 8 (cp_scanCursor c)"
    "take 8 (drop 56 (encodeCheckpoint c)) = leBytes 8 (cp_indexRecords c)"
  using assms
  by (simp_all add: encodeCheckpoint_def Let_def kCheckpointBytes_def kCheckpointMagic_def take_overwrite_first)

lemma readCheckpoint_encode:
  assumes "checkpoint_ok c" and "dir kCheckpointFileName = Some (encodeCheckpoint c)"
  shows "readCheckpoint dir = Inr c"
proof -
  have len: "length (cp_shape c) = 32" using assms(1) by (simp add: checkpoint_ok_def)
  have "checkpointHeaderIsOurs (encodeCheckpoint c)"
    using encodeCheckpoint_fields [OF len] by (simp add: checkpointHeaderIsOurs_def kCheckpointVersion_def)
  then show ?thesis
    using assms encodeCheckpoint_fields [OF len] length_encodeCheckpoint [OF len]
    by (simp add: readCheckpoint_def checkpoint_ok_def max64_def)
qed

subsection \<open>Replacement is all or nothing\<close>

lemma pending_neq [simp]: "kPendingSuffix \<noteq> []"
  by (simp add: kPendingSuffix_def)

lemma replaceFile_outcome:
  "replaceFile host dir target content = (dir', res) \<Longrightarrow>
   (hasValue res \<longrightarrow> dir' target = Some content) \<and>
   (\<not> hasValue res \<longrightarrow> dir' target = dir target) \<and>
   (\<forall>name. name \<noteq> target \<longrightarrow> name \<noteq> target @ kPendingSuffix \<longrightarrow> dir' name = dir name)"
  by (auto simp: replaceFile_def putPending_def renameOver_def Let_def
      split: if_splits option.splits)

lemma replacing_target:
  "replacing target content dir d \<Longrightarrow> d target = dir target \<or> d target = Some content"
  by (induction rule: replacing.induct) (auto simp: pending_neq)

text \<open>The step relation reaches exactly what the function returns.\<close>

lemma replaceFile_replacing:
  assumes "replaceFile host dir target content = (dir', res)"
  shows "replacing target content dir dir'"
proof -
  have written: "replacing target content dir (dir(target @ kPendingSuffix \<mapsto> take k content))"
    if "k \<le> length content" for k
    using that by (intro replacing.pending_written replacing.not_begun) simp_all
  then have full: "replacing target content dir (dir(target @ kPendingSuffix \<mapsto> content))"
    by (metis order_refl take_all)
  let ?k = "min (hio_accepts host content) (length content)"
  have cut: "take (hio_accepts host content) content = take ?k content" by (simp add: min_def)
  have "dir' = dir \<or> dir' = dir(target @ kPendingSuffix \<mapsto> take ?k content) \<or>
      dir' = ((dir(target @ kPendingSuffix \<mapsto> content))(target \<mapsto> content))(target @ kPendingSuffix := None)"
    using assms cut
    by (auto simp: replaceFile_def putPending_def renameOver_def Let_def split: if_splits option.splits)
  then show ?thesis
    using written [of ?k] replacing.not_begun replacing.renamed [OF full] by fastforce
qed

subsection \<open>Properties\<close>

text \<open>
  C16: A checkpoint that was written successfully reads back as the checkpoint that was written: digest
  of the run's shape, scan cursor and record count.
\<close>
theorem checkpoint_round_trip:
  assumes "checkpoint_ok c" and "writeCheckpoint host dir c = (dir', Inr p)"
  shows "readCheckpoint dir' = Inr c"
  using assms replaceFile_outcome [of host dir kCheckpointFileName "encodeCheckpoint c" dir' "Inr p"]
  by (intro readCheckpoint_encode) (simp_all add: writeCheckpoint_def)

definition willingHost :: HostIo where
  "willingHost = \<lparr>hio_opens = True, hio_accepts = length, hio_available = Some 1, hio_renameError = None\<rparr>"

definition sampleCheckpoint :: Checkpoint where
  "sampleCheckpoint = \<lparr>cp_shape = replicate 32 7, cp_scanCursor = 4096, cp_indexRecords = 3\<rparr>"

theorem checkpoint_round_trip_witness:
  "readCheckpoint (fst (writeCheckpoint willingHost Map.empty sampleCheckpoint)) = Inr sampleCheckpoint"
proof -
  have ok: "checkpoint_ok sampleCheckpoint" by (simp add: checkpoint_ok_def sampleCheckpoint_def max64_def)
  have "\<exists>dir' p. writeCheckpoint willingHost Map.empty sampleCheckpoint = (dir', Inr p)"
    by (simp add: writeCheckpoint_def replaceFile_def putPending_def renameOver_def willingHost_def Let_def)
  then show ?thesis using checkpoint_round_trip [OF ok] by fastforce
qed



text \<open>
  \<open>clearCheckpoint\<close> removes \<open>checkpoint.new\<close>, but the pending file of an interrupted
  replacement is called \<open>checkpoint.pending\<close>: it stays.
\<close>

lemma clear_leaves_pending:
  "replacing kCheckpointFileName [1] Map.empty d \<and> d = Map.empty(''checkpoint.pending'' \<mapsto> [1]) \<Longrightarrow>
   clearCheckpoint d ''checkpoint.pending'' = Some [1]"
  by (simp add: clearCheckpoint_def kCheckpointFileName_def kPendingFileName_def)

end
