(* ===== verification/OutputPaths.thy ===== *)
theory OutputPaths
  imports Bytes "HOL-Library.Sublist"
begin

text \<open>
  \<open>src/recovery/OutputPath.cpp\<close> and \<open>OutputPathSegment.cpp\<close>: the one place a name read
  off a disk becomes a path below the destination. A host path is the list of the file-name
  elements of an absolute path; \<open>std::filesystem::weakly_canonical\<close>, which consults the host
  file system, is the parameter \<open>canon\<close> of the definitions that use it.
\<close>

type_synonym path = "string list"

subsection \<open>Characters\<close>

definition char_byte :: "char \<Rightarrow> nat" where
  "char_byte ch = of_char ch"

definition is_alpha :: "char \<Rightarrow> bool" where
  "is_alpha ch \<longleftrightarrow> 65 \<le> char_byte ch \<and> char_byte ch \<le> 90 \<or> 97 \<le> char_byte ch \<and> char_byte ch \<le> 122"

definition to_lower :: "char \<Rightarrow> char" where
  "to_lower ch = (if 65 \<le> char_byte ch \<and> char_byte ch \<le> 90 then char_of (char_byte ch + 32) else ch)"

definition is_separator :: "char \<Rightarrow> bool" where
  "is_separator ch \<longleftrightarrow> ch = CHR ''/'' \<or> ch = CHR 0x5C"

subsection \<open>Segments\<close>

definition kMaxSegmentBytes :: nat where "kMaxSegmentBytes = 240"

definition kMaxSegments :: nat where "kMaxSegments = 64"

definition kReservedBasenames :: "string list" where
  "kReservedBasenames =
     [''CON'', ''PRN'', ''AUX'', ''NUL'', ''COM1'', ''COM2'', ''COM3'', ''COM4'', ''COM5'',
      ''COM6'', ''COM7'', ''COM8'', ''COM9'', ''LPT1'', ''LPT2'', ''LPT3'', ''LPT4'', ''LPT5'',
      ''LPT6'', ''LPT7'', ''LPT8'', ''LPT9'']"

datatype Disposition = kSkip | kKeep

definition segmentEnd :: "string \<Rightarrow> nat \<Rightarrow> nat" where
  "segmentEnd name start = start + length (takeWhile (\<lambda>ch. \<not> is_separator ch) (drop start name))"

function splitFrom :: "string \<Rightarrow> nat \<Rightarrow> string list" where
  "splitFrom name start =
     (if start \<le> length name
      then take (segmentEnd name start - start) (drop start name)
             # splitFrom name (segmentEnd name start + 1)
      else [])"
  by pat_completeness auto
termination
  by (relation "measure (\<lambda>(name, start). Suc (length name) - start)") (auto simp: segmentEnd_def)

declare splitFrom.simps [simp del]

definition splitRawSegments :: "string \<Rightarrow> string list" where
  "splitRawSegments name = splitFrom name 0"

definition looksLikeDrivePrefix :: "string \<Rightarrow> bool" where
  "looksLikeDrivePrefix segment \<longleftrightarrow>
     2 \<le> length segment \<and> is_alpha (segment ! 0) \<and> segment ! 1 = CHR '':''"

definition equalsIgnoreCase :: "string \<Rightarrow> string \<Rightarrow> bool" where
  "equalsIgnoreCase a b \<longleftrightarrow> length a = length b \<and> map to_lower a = map to_lower b"

definition isReservedBasename :: "string \<Rightarrow> bool" where
  "isReservedBasename basename = list_ex (equalsIgnoreCase basename) kReservedBasenames"

definition neutralizeReservedName :: "string \<Rightarrow> string" where
  "neutralizeReservedName segment =
     (if \<not> isReservedBasename (takeWhile (\<lambda>ch. ch \<noteq> CHR ''.'') segment) then segment
      else CHR ''_'' # segment)"

fun stripLoop :: "string \<Rightarrow> string" where
  "stripLoop segment =
     (if segment \<noteq> [] \<and> (last segment = CHR ''.'' \<or> last segment = CHR '' '')
      then stripLoop (butlast segment) else segment)"

declare stripLoop.simps [simp del]

definition stripTrailingDotsAndSpaces :: "string \<Rightarrow> string" where
  "stripTrailingDotsAndSpaces segment =
     (let stripped = stripLoop segment in if stripped \<noteq> [] then stripped else ''_'')"

definition cleanSegment :: "string \<Rightarrow> string result" where
  "cleanSegment rawSegment =
     (let cleaned = neutralizeReservedName (stripTrailingDotsAndSpaces rawSegment)
      in if \<not> hasValue (boundedCount (length cleaned) kMaxSegmentBytes)
         then Inl (mkError kInvalidArgument 0) else Inr cleaned)"

definition classifyRawSegment :: "string \<Rightarrow> Disposition result" where
  "classifyRawSegment rawSegment =
     (if rawSegment = [] \<or> rawSegment = ''.'' then Inr kSkip
      else if rawSegment = ''..'' \<or> looksLikeDrivePrefix rawSegment
      then Inl (mkError kInvalidArgument 0)
      else Inr kKeep)"

definition keepCleanedSegment :: "string list \<Rightarrow> string \<Rightarrow> string list result" where
  "keepCleanedSegment segments rawSegment =
     (case cleanSegment rawSegment of Inl e \<Rightarrow> Inl e | Inr cleaned \<Rightarrow> Inr (segments @ [cleaned]))"

definition absorbRawSegment :: "string list \<Rightarrow> string \<Rightarrow> string list result" where
  "absorbRawSegment segments rawSegment =
     (case classifyRawSegment rawSegment of
        Inl e \<Rightarrow> Inl e
      | Inr kSkip \<Rightarrow> Inr segments
      | Inr kKeep \<Rightarrow> keepCleanedSegment segments rawSegment)"

fun foldSegmentsOnto :: "string list \<Rightarrow> string list \<Rightarrow> string list result" where
  "foldSegmentsOnto segments [] = Inr segments"
| "foldSegmentsOnto segments (raw # raws) =
     (case absorbRawSegment segments raw of
        Inl e \<Rightarrow> Inl e | Inr segments' \<Rightarrow> foldSegmentsOnto segments' raws)"

definition foldSegments :: "string \<Rightarrow> string list result" where
  "foldSegments name = foldSegmentsOnto [] (splitRawSegments name)"

definition checkSegmentCount :: "string list \<Rightarrow> string list result" where
  "checkSegmentCount segments =
     (if \<not> hasValue (boundedCount (length segments) kMaxSegments)
      then Inl (mkError kInvalidArgument 0) else Inr segments)"

definition collectSegments :: "string \<Rightarrow> string list result" where
  "collectSegments name =
     (case foldSegments name of Inl e \<Rightarrow> Inl e | Inr folded \<Rightarrow> checkSegmentCount folded)"

subsection \<open>Paths\<close>

definition isForbiddenByte :: "char \<Rightarrow> bool" where
  "isForbiddenByte ch \<longleftrightarrow> char_byte ch < 0x20 \<or> char_byte ch = 0x7F"

definition hasForbiddenBytes :: "string \<Rightarrow> bool" where
  "hasForbiddenBytes name = list_ex isForbiddenByte name"

definition startsWithSeparator :: "string \<Rightarrow> bool" where
  "startsWithSeparator name \<longleftrightarrow> name \<noteq> [] \<and> is_separator (hd name)"

definition isUsableRawName :: "string \<Rightarrow> bool" where
  "isUsableRawName name \<longleftrightarrow> \<not> hasForbiddenBytes name \<and> \<not> startsWithSeparator name"

definition assembleUnder :: "path \<Rightarrow> string list \<Rightarrow> path" where
  "assembleUnder root segments = foldl (\<lambda>joined segment. joined @ [segment]) root segments"

text \<open>\<open>std::filesystem::path::lexically_normal\<close> on the elements of an absolute path.\<close>

definition normalStep :: "path \<Rightarrow> string \<Rightarrow> path" where
  "normalStep acc element =
     (if element = [] \<or> element = ''.'' then acc
      else if element = ''..'' then butlast acc
      else acc @ [element])"

definition lexically_normal :: "path \<Rightarrow> path" where
  "lexically_normal p = foldl normalStep [] p"

fun isContainedWithin :: "path \<Rightarrow> path \<Rightarrow> bool" where
  "isContainedWithin candidate [] = True"
| "isContainedWithin [] (r # root) = False"
| "isContainedWithin (c # candidate) (r # root) = (if c \<noteq> r then False else isContainedWithin candidate root)"

definition confineToRoot :: "(path \<Rightarrow> path) \<Rightarrow> path \<Rightarrow> string list \<Rightarrow> path result" where
  "confineToRoot canon root segments =
     (let joined = lexically_normal (assembleUnder root segments)
      in if \<not> isContainedWithin (canon joined) (canon root)
         then Inl (mkError kInvalidArgument 0) else Inr joined)"

definition confineNonEmptySegments :: "(path \<Rightarrow> path) \<Rightarrow> path \<Rightarrow> string list \<Rightarrow> path result" where
  "confineNonEmptySegments canon root segments =
     (if segments = [] then Inl (mkError kInvalidArgument 0) else confineToRoot canon root segments)"

definition sanitizeOutputPath :: "(path \<Rightarrow> path) \<Rightarrow> path \<Rightarrow> string \<Rightarrow> path result" where
  "sanitizeOutputPath canon destinationRoot relativeName =
     (if \<not> isUsableRawName relativeName then Inl (mkError kInvalidArgument 0)
      else case collectSegments relativeName of
             Inl e \<Rightarrow> Inl e
           | Inr segments \<Rightarrow> confineNonEmptySegments canon destinationRoot segments)"

subsection \<open>What a safe segment is\<close>

definition safe_segment :: "string \<Rightarrow> bool" where
  "safe_segment seg \<longleftrightarrow>
     seg \<noteq> [] \<and> length seg \<le> kMaxSegmentBytes \<and>
     list_all (\<lambda>ch. \<not> is_separator ch \<and> \<not> isForbiddenByte ch) seg \<and>
     last seg \<noteq> CHR ''.'' \<and> last seg \<noteq> CHR '' '' \<and>
     \<not> looksLikeDrivePrefix seg \<and>
     \<not> isReservedBasename (takeWhile (\<lambda>ch. ch \<noteq> CHR ''.'') seg)"

definition clean_chars :: "string \<Rightarrow> bool" where
  "clean_chars seg \<longleftrightarrow> list_all (\<lambda>ch. \<not> is_separator ch \<and> \<not> isForbiddenByte ch) seg"

fun joinSlash :: "string list \<Rightarrow> string" where
  "joinSlash [] = []"
| "joinSlash [s] = s"
| "joinSlash (s # t # ss) = s @ CHR ''/'' # joinSlash (t # ss)"

subsection \<open>Splitting\<close>

lemma segmentEnd_le: "start \<le> length name \<Longrightarrow> segmentEnd name start \<le> length name"
proof -
  assume "start \<le> length name"
  moreover have "length (takeWhile (\<lambda>ch. \<not> is_separator ch) (drop start name)) \<le> length (drop start name)"
    by (rule length_takeWhile_le)
  ultimately show ?thesis by (simp add: segmentEnd_def)
qed

lemma splitFrom_take: "take (segmentEnd name start - start) (drop start name)
    = takeWhile (\<lambda>ch. \<not> is_separator ch) (drop start name)"
  by (simp add: segmentEnd_def flip: takeWhile_eq_take)

lemma splitFrom_segments:
  "seg \<in> set (splitFrom name start) \<Longrightarrow> set seg \<subseteq> set name \<and> (\<forall>ch \<in> set seg. \<not> is_separator ch)"
proof (induction name start rule: splitFrom.induct)
  case (1 name start)
  show ?case
  proof (cases "start \<le> length name")
    case True
    then have "seg = takeWhile (\<lambda>ch. \<not> is_separator ch) (drop start name) \<or>
        seg \<in> set (splitFrom name (segmentEnd name start + 1))"
      using "1.prems" by (subst (asm) splitFrom.simps) (auto simp: splitFrom_take)
    then show ?thesis
    proof
      assume "seg = takeWhile (\<lambda>ch. \<not> is_separator ch) (drop start name)"
      then show ?thesis by (auto dest: set_takeWhileD in_set_dropD)
    next
      assume "seg \<in> set (splitFrom name (segmentEnd name start + 1))"
      then show ?thesis using "1.IH" True by blast
    qed
  next
    case False
    then show ?thesis using "1.prems" by (subst (asm) splitFrom.simps) simp
  qed
qed

text \<open>The loop over positions is the recursive split of the remaining text.\<close>

lemma splitFrom_drop:
  "start \<le> length name \<Longrightarrow> splitFrom name start =
     (let rest = drop start name; first = takeWhile (\<lambda>ch. \<not> is_separator ch) rest
      in first # (if length first = length rest then []
                  else splitFrom name (start + length first + 1)))"
proof -
  assume le: "start \<le> length name"
  have "splitFrom name (Suc (length name)) = []" by (simp add: splitFrom.simps)
  then show ?thesis
    unfolding splitFrom.simps [of name start] splitFrom_take
    using le by (auto simp: segmentEnd_def Let_def)
qed

lemma splitFrom_append:
  assumes "list_all (\<lambda>ch. \<not> is_separator ch) seg" and "is_separator sep"
  shows "splitFrom (pre @ seg @ sep # rest) (length pre) = seg # splitFrom (pre @ seg @ sep # rest) (length pre + length seg + 1)"
    and "splitFrom (pre @ seg) (length pre) = [seg]"
proof -
  have seg: "takeWhile (\<lambda>ch. \<not> is_separator ch) seg = seg"
    using assms(1) by (simp add: takeWhile_eq_all_conv list_all_iff)
  have "takeWhile (\<lambda>ch. \<not> is_separator ch) (seg @ sep # rest) = seg"
    using assms by (simp add: list_all_iff takeWhile_append2)
  then show "splitFrom (pre @ seg @ sep # rest) (length pre) =
      seg # splitFrom (pre @ seg @ sep # rest) (length pre + length seg + 1)"
    by (subst splitFrom_drop) (simp_all add: Let_def)
  show "splitFrom (pre @ seg) (length pre) = [seg]"
    by (subst splitFrom_drop) (simp_all add: Let_def seg)
qed

lemma splitFrom_joinSlash:
  assumes "segs \<noteq> []" and "list_all (list_all (\<lambda>ch. \<not> is_separator ch)) segs"
  shows "splitFrom (pre @ joinSlash segs) (length pre) = segs"
  using assms
proof (induction segs arbitrary: pre rule: joinSlash.induct)
  case (2 s)
  then show ?case using splitFrom_append(2) [of s "CHR ''/''"] by (simp add: is_separator_def)
next
  case (3 s t ss)
  have "splitFrom (pre @ s @ CHR ''/'' # joinSlash (t # ss)) (length pre) =
      s # splitFrom ((pre @ s @ [CHR ''/'']) @ joinSlash (t # ss)) (length (pre @ s @ [CHR ''/'']))"
    using splitFrom_append(1) [of s "CHR ''/''" pre "joinSlash (t # ss)"] "3.prems"
    by (simp add: is_separator_def)
  also have "\<dots> = s # t # ss"
    using "3.IH" [of "pre @ s @ [CHR ''/'']"] "3.prems" by simp
  finally show ?case by simp
qed simp

subsection \<open>Cleaning\<close>

lemma stripLoop_spec:
  "\<exists>suffix. segment = stripLoop segment @ suffix \<and>
     (stripLoop segment \<noteq> [] \<longrightarrow> last (stripLoop segment) \<noteq> CHR ''.'' \<and> last (stripLoop segment) \<noteq> CHR '' '')"
proof (induction segment rule: stripLoop.induct)
  case (1 segment)
  show ?case
  proof (cases "segment \<noteq> [] \<and> (last segment = CHR ''.'' \<or> last segment = CHR '' '')")
    case True
    then have eq: "stripLoop segment = stripLoop (butlast segment)"
      by (simp add: stripLoop.simps [of segment])
    obtain suffix where "butlast segment = stripLoop segment @ suffix"
      and last: "stripLoop segment \<noteq> [] \<longrightarrow>
        last (stripLoop segment) \<noteq> CHR ''.'' \<and> last (stripLoop segment) \<noteq> CHR '' ''"
      using "1.IH" [OF True] eq by auto
    then have "segment = stripLoop segment @ suffix @ [last segment]"
      using True by (metis append_assoc append_butlast_last_id)
    then show ?thesis using last by blast
  next
    case False
    then show ?thesis by (auto simp: stripLoop.simps [of segment])
  qed
qed

lemma stripLoop_id:
  "segment = [] \<or> last segment \<noteq> CHR ''.'' \<and> last segment \<noteq> CHR '' '' \<Longrightarrow> stripLoop segment = segment"
  by (auto simp: stripLoop.simps [of segment])

lemma drive_prefix_append:
  "looksLikeDrivePrefix xs \<Longrightarrow> looksLikeDrivePrefix (xs @ ys)"
  by (auto simp: looksLikeDrivePrefix_def nth_append)

lemma clean_chars_underscore [simp]: "clean_chars []" "clean_chars (CHR ''_'' # seg) = clean_chars seg"
  by (simp_all add: clean_chars_def is_separator_def isForbiddenByte_def char_byte_def)

lemma underscore_not_reserved: "\<not> isReservedBasename (CHR ''_'' # seg)"
proof
  assume "isReservedBasename (CHR ''_'' # seg)"
  then obtain r where r: "r \<in> set kReservedBasenames" "map to_lower (CHR ''_'' # seg) = map to_lower r"
    by (auto simp: isReservedBasename_def list_ex_iff equalsIgnoreCase_def)
  then obtain c cs where "r = c # cs" and c: "to_lower (CHR ''_'') = to_lower c"
    by (metis list.simps(9) map_eq_Cons_D)
  then have "c \<in> set (map hd kReservedBasenames)"
    using r(1) by (metis image_eqI list.sel(1) list.set_map)
  then have "to_lower (CHR ''_'') \<in> set (map to_lower (map hd kReservedBasenames))"
    using c by (metis image_eqI list.set_map)
  moreover have "to_lower (CHR ''_'') \<notin> set (map to_lower (map hd kReservedBasenames))"
    by code_simp
  ultimately show False by blast
qed

lemma underscore_not_drive: "\<not> looksLikeDrivePrefix (CHR ''_'' # seg)"
  by (simp add: looksLikeDrivePrefix_def is_alpha_def char_byte_def)

lemma strip_safe:
  assumes "clean_chars raw" and "\<not> looksLikeDrivePrefix raw"
  defines "s \<equiv> stripTrailingDotsAndSpaces raw"
  shows "s \<noteq> [] \<and> clean_chars s \<and> \<not> looksLikeDrivePrefix s \<and> last s \<noteq> CHR ''.'' \<and> last s \<noteq> CHR '' ''"
proof (cases "stripLoop raw = []")
  case True
  then show ?thesis by (simp add: s_def stripTrailingDotsAndSpaces_def underscore_not_drive)
next
  case False
  obtain suffix where raw: "raw = stripLoop raw @ suffix"
    and last: "last (stripLoop raw) \<noteq> CHR ''.'' \<and> last (stripLoop raw) \<noteq> CHR '' ''"
    using stripLoop_spec [of raw] False by blast
  have "clean_chars (stripLoop raw)" using assms(1) raw by (metis clean_chars_def list_all_append)
  moreover have "\<not> looksLikeDrivePrefix (stripLoop raw)"
    using assms(2) raw drive_prefix_append by metis
  ultimately show ?thesis
    using False last by (simp add: s_def stripTrailingDotsAndSpaces_def Let_def)
qed

lemma cleanSegment_safe:
  assumes "clean_chars raw" and "\<not> looksLikeDrivePrefix raw" and "cleanSegment raw = Inr seg"
  shows "safe_segment seg"
proof -
  define s where "s = stripTrailingDotsAndSpaces raw"
  note strip = strip_safe [OF assms(1,2), folded s_def]
  have seg: "seg = neutralizeReservedName s" "length seg \<le> kMaxSegmentBytes"
    using assms(3) by (auto simp: cleanSegment_def Let_def s_def split: if_splits)
  show ?thesis
  proof (cases "isReservedBasename (takeWhile (\<lambda>ch. ch \<noteq> CHR ''.'') s)")
    case True
    then have "seg = CHR ''_'' # s" using seg(1) by (simp add: neutralizeReservedName_def)
    then show ?thesis
      using strip seg(2) underscore_not_reserved underscore_not_drive
      by (simp add: safe_segment_def flip: clean_chars_def)
  next
    case False
    then have "seg = s" using seg(1) by (simp add: neutralizeReservedName_def)
    then show ?thesis
      using strip seg(2) False by (simp add: safe_segment_def flip: clean_chars_def)
  qed
qed

lemma cleanSegment_id: "safe_segment seg \<Longrightarrow> cleanSegment seg = Inr seg"
  by (simp add: cleanSegment_def safe_segment_def stripTrailingDotsAndSpaces_def stripLoop_id
      neutralizeReservedName_def)

lemma classify_safe: "safe_segment seg \<Longrightarrow> classifyRawSegment seg = Inr kKeep"
  by (auto simp: classifyRawSegment_def safe_segment_def)

subsection \<open>Collecting\<close>

lemma absorbRawSegment_safe:
  assumes "list_all safe_segment segments" and "clean_chars raw"
    and "absorbRawSegment segments raw = Inr segments'"
  shows "list_all safe_segment segments'"
  using assms cleanSegment_safe [OF assms(2)]
  by (auto simp: absorbRawSegment_def classifyRawSegment_def keepCleanedSegment_def
      split: if_splits sum.splits)

lemma foldSegmentsOnto_safe:
  "list_all safe_segment segments \<Longrightarrow> list_all clean_chars raws \<Longrightarrow>
   foldSegmentsOnto segments raws = Inr res \<Longrightarrow> list_all safe_segment res"
proof (induction segments raws rule: foldSegmentsOnto.induct)
  case (2 segments raw raws)
  then obtain segments' where "absorbRawSegment segments raw = Inr segments'"
    and "foldSegmentsOnto segments' raws = Inr res"
    by (auto split: sum.splits)
  then show ?case
    using "2.IH" "2.prems" absorbRawSegment_safe [of segments raw segments'] by simp
qed simp

lemma foldSegmentsOnto_id:
  "list_all safe_segment raws \<Longrightarrow> foldSegmentsOnto segments raws = Inr (segments @ raws)"
  by (induction segments raws rule: foldSegmentsOnto.induct)
     (simp_all add: absorbRawSegment_def classify_safe keepCleanedSegment_def cleanSegment_id)

lemma foldSegmentsOnto_error:
  "foldSegmentsOnto segments raws = Inl e \<Longrightarrow> e = mkError kInvalidArgument 0"
  by (induction segments raws rule: foldSegmentsOnto.induct)
     (auto simp: absorbRawSegment_def classifyRawSegment_def keepCleanedSegment_def cleanSegment_def
        Let_def split: sum.splits if_splits Disposition.splits)

lemma collectSegments_safe:
  assumes "\<not> hasForbiddenBytes name" and "collectSegments name = Inr segs"
  shows "list_all safe_segment segs \<and> length segs \<le> kMaxSegments"
proof -
  have "list_all clean_chars (splitRawSegments name)"
    using assms(1) splitFrom_segments
    by (fastforce simp: list_all_iff clean_chars_def splitRawSegments_def hasForbiddenBytes_def list_ex_iff)
  moreover have "foldSegments name = Inr segs" and "length segs \<le> kMaxSegments"
    using assms(2) by (auto simp: collectSegments_def checkSegmentCount_def split: sum.splits if_splits)
  ultimately show ?thesis
    using foldSegmentsOnto_safe [of "[]" "splitRawSegments name"] by (simp add: foldSegments_def)
qed

subsection \<open>Confinement\<close>

lemma isContainedWithin_iff: "isContainedWithin candidate root \<longleftrightarrow> prefix root candidate"
  by (induction candidate root rule: isContainedWithin.induct) auto

lemma assembleUnder_eq: "assembleUnder root segments = root @ segments"
  by (induction segments arbitrary: root) (simp_all add: assembleUnder_def)

lemma foldl_normal_safe:
  "list_all safe_segment segs \<Longrightarrow> foldl normalStep acc segs = acc @ segs"
  by (induction segs arbitrary: acc) (auto simp: normalStep_def safe_segment_def)

lemma lexically_normal_safe:
  "list_all safe_segment segs \<Longrightarrow> lexically_normal (root @ segs) = lexically_normal root @ segs"
  by (simp add: lexically_normal_def foldl_normal_safe)

lemma sanitize_Inr:
  assumes "sanitizeOutputPath canon root name = Inr p"
  obtains segs where "collectSegments name = Inr segs" "segs \<noteq> []" "list_all safe_segment segs"
    "length segs \<le> kMaxSegments" "p = lexically_normal root @ segs" "prefix (canon root) (canon p)"
proof -
  from assms have usable: "isUsableRawName name"
    by (auto simp: sanitizeOutputPath_def split: if_splits)
  with assms obtain segs where segs: "collectSegments name = Inr segs"
    and conf: "confineNonEmptySegments canon root segs = Inr p"
    by (auto simp: sanitizeOutputPath_def split: sum.splits)
  have safe: "list_all safe_segment segs" "length segs \<le> kMaxSegments"
    using collectSegments_safe usable segs by (auto simp: isUsableRawName_def)
  show thesis
    using that [OF segs _ safe] conf safe(1)
    by (auto simp: confineNonEmptySegments_def confineToRoot_def Let_def assembleUnder_eq
        lexically_normal_safe isContainedWithin_iff split: if_splits)
qed

lemma sanitize_Inl: "sanitizeOutputPath canon root name = Inl e \<Longrightarrow> e = mkError kInvalidArgument 0"
  using foldSegmentsOnto_error
  by (auto simp: sanitizeOutputPath_def collectSegments_def checkSegmentCount_def foldSegments_def
      confineNonEmptySegments_def confineToRoot_def Let_def split: sum.splits if_splits)

lemma set_joinSlash: "set (joinSlash segs) \<subseteq> insert (CHR ''/'') (\<Union> (set ` set segs))"
  by (induction segs rule: joinSlash.induct) auto

lemma joinSlash_usable:
  assumes "segs \<noteq> []" and "list_all safe_segment segs"
  shows "isUsableRawName (joinSlash segs)"
proof -
  have chars: "\<forall>seg \<in> set segs. \<forall>ch \<in> set seg. \<not> is_separator ch \<and> \<not> isForbiddenByte ch"
    using assms(2) by (auto simp: list_all_iff safe_segment_def)
  have "\<not> isForbiddenByte (CHR ''/'')" by (simp add: isForbiddenByte_def char_byte_def)
  then have "\<not> hasForbiddenBytes (joinSlash segs)"
    using chars set_joinSlash [of segs] by (auto simp: hasForbiddenBytes_def list_ex_iff)
  moreover obtain s ss where segs: "segs = s # ss" "s \<noteq> []"
    using assms by (cases segs) (auto simp: safe_segment_def)
  then have "hd (joinSlash segs) = hd s" by (cases ss) auto
  then have "\<not> startsWithSeparator (joinSlash segs)"
    using chars segs by (auto simp: startsWithSeparator_def)
  ultimately show ?thesis by (simp add: isUsableRawName_def)
qed

lemma collectSegments_joinSlash:
  assumes "segs \<noteq> []" and "list_all safe_segment segs" and "length segs \<le> kMaxSegments"
  shows "collectSegments (joinSlash segs) = Inr segs"
proof -
  have "list_all (list_all (\<lambda>ch. \<not> is_separator ch)) segs"
    using assms(2) by (auto simp: list_all_iff safe_segment_def)
  then have "splitRawSegments (joinSlash segs) = segs"
    using splitFrom_joinSlash [OF assms(1), of "[]"] by (simp add: splitRawSegments_def)
  then show ?thesis
    using foldSegmentsOnto_id [OF assms(2), of "[]"] assms(3)
    by (simp add: collectSegments_def foldSegments_def checkSegmentCount_def)
qed

subsection \<open>Properties\<close>

text \<open>
  C11: A path the sanitizer lets through is the normalised destination root followed by one to
  sixty-four safe segments (non-empty, at most 240 bytes, no separator, control byte, drive
  prefix, trailing dot or space, reserved device name, and never a dot-dot), and its canonical
  form lies under the canonical root, whatever the untrusted name was.
\<close>
theorem sanitized_path_is_confined:
  assumes "sanitizeOutputPath canon root name = Inr p"
  shows "\<exists>segs. p = lexically_normal root @ segs \<and> segs \<noteq> [] \<and> length segs \<le> kMaxSegments \<and>
    list_all safe_segment segs \<and> ''..'' \<notin> set segs \<and> prefix (canon root) (canon p)"
proof -
  obtain segs where segs: "segs \<noteq> []" "list_all safe_segment segs" "length segs \<le> kMaxSegments"
    "p = lexically_normal root @ segs" "prefix (canon root) (canon p)"
    using sanitize_Inr [OF assms] by metis
  have "''..'' \<notin> set segs" using segs(2) by (auto simp: list_all_iff safe_segment_def)
  then show ?thesis using segs by blast
qed

theorem sanitized_path_is_confined_witness:
  "sanitizeOutputPath (\<lambda>p. p) [''out''] ''a/./CON.x'' = Inr [''out'', ''a'', ''_CON.x''] \<and>
   (\<exists>segs. [''out'', ''a'', ''_CON.x''] = lexically_normal [''out''] @ segs \<and> list_all safe_segment segs)"
proof -
  have run: "sanitizeOutputPath (\<lambda>p. p) [''out''] ''a/./CON.x'' = Inr [''out'', ''a'', ''_CON.x'']" by code_simp
  show ?thesis using run sanitized_path_is_confined [OF run] by blast
qed

text \<open>
  Sanitizing is a projection: a relative name spelled from the segments of an accepted path is
  accepted again and yields the same path, for any canonicalisation under which that path stays
  inside the root.
\<close>
theorem sanitize_is_idempotent:
  assumes "sanitizeOutputPath canon root name = Inr p"
  shows "\<exists>segs. p = lexically_normal root @ segs \<and> sanitizeOutputPath canon root (joinSlash segs) = Inr p"
proof -
  obtain segs where segs: "segs \<noteq> []" "list_all safe_segment segs" "length segs \<le> kMaxSegments"
    "p = lexically_normal root @ segs" "prefix (canon root) (canon p)"
    using sanitize_Inr [OF assms] by metis
  have "sanitizeOutputPath canon root (joinSlash segs) = Inr p"
    using segs collectSegments_joinSlash [OF segs(1-3)] joinSlash_usable [OF segs(1,2)]
    by (simp add: sanitizeOutputPath_def confineNonEmptySegments_def confineToRoot_def Let_def
        isContainedWithin_iff assembleUnder_eq lexically_normal_safe)
  then show ?thesis using segs(4) by blast
qed

theorem sanitize_is_idempotent_witness:
  "sanitizeOutputPath (\<lambda>p. p) [''out''] ''x// y.'' = Inr [''out'', ''x'', '' y''] \<and>
   (\<exists>segs. [''out'', ''x'', '' y''] = lexically_normal [''out''] @ segs \<and>
      sanitizeOutputPath (\<lambda>p. p) [''out''] (joinSlash segs) = Inr [''out'', ''x'', '' y''])"
proof -
  have run: "sanitizeOutputPath (\<lambda>p. p) [''out''] ''x// y.'' = Inr [''out'', ''x'', '' y'']" by code_simp
  show ?thesis using run sanitize_is_idempotent [OF run] by blast
qed

end
