(* ===== verification/Naming.thy ===== *)
theory Naming
  imports Arbitration OutputPaths
begin

text \<open>
  \<open>src/recovery/Disambiguate.cpp\<close>, \<open>OutputName.cpp\<close> and \<open>WriteOrder.cpp\<close>: the
  destination-relative name a winner is given, the suffix that keeps it apart from names
  already used, and the order winners are written in. \<open>std::to_string\<close> and the zero-padded
  stream output of an ordinal are \<open>dec\<close> and \<open>padded\<close>.
\<close>

subsection \<open>Decimal text\<close>

fun dec :: "nat \<Rightarrow> string" where
  "dec n = (if n < 10 then [char_of (48 + n)] else dec (n div 10) @ [char_of (48 + n mod 10)])"

declare dec.simps [simp del]

definition padded :: "nat \<Rightarrow> nat \<Rightarrow> string" where
  "padded width n = replicate (width - length (dec n)) (CHR ''0'') @ dec n"

subsection \<open>Collision suffixes\<close>

definition kMaxDisambiguationAttempts :: nat where "kMaxDisambiguationAttempts = 10000"

record NameParts =
  np_stem :: string
  np_extension :: string

definition splitAtLastDot :: "string \<Rightarrow> NameParts" where
  "splitAtLastDot name =
     (if CHR ''.'' \<notin> set name then \<lparr>np_stem = name, np_extension = []\<rparr>
      else let dotPos = length name - 1 - length (takeWhile (\<lambda>ch. ch \<noteq> CHR ''.'') (rev name))
           in \<lparr>np_stem = take dotPos name, np_extension = drop dotPos name\<rparr>)"

definition numberedCandidate :: "NameParts \<Rightarrow> nat \<Rightarrow> string" where
  "numberedCandidate parts attemptNumber =
     np_stem parts @ '' ('' @ dec attemptNumber @ '')'' @ np_extension parts"

function firstFreeFrom :: "NameParts \<Rightarrow> (string \<Rightarrow> bool) \<Rightarrow> nat \<Rightarrow> string option" where
  "firstFreeFrom parts taken attemptNumber =
     (if attemptNumber \<le> kMaxDisambiguationAttempts + 1
      then if \<not> taken (numberedCandidate parts attemptNumber)
           then Some (numberedCandidate parts attemptNumber)
           else firstFreeFrom parts taken (attemptNumber + 1)
      else None)"
  by pat_completeness auto
termination
  by (relation "measure (\<lambda>(parts, taken, n). kMaxDisambiguationAttempts + 2 - n)") auto

declare firstFreeFrom.simps [simp del]

definition firstFreeNumberedCandidate :: "string \<Rightarrow> (string \<Rightarrow> bool) \<Rightarrow> string option" where
  "firstFreeNumberedCandidate desired taken = firstFreeFrom (splitAtLastDot desired) taken 2"

definition overflowFallback :: "string \<Rightarrow> string" where
  "overflowFallback desired = desired @ '' (overflow)'' @ dec kMaxDisambiguationAttempts"

definition disambiguate :: "string \<Rightarrow> (string \<Rightarrow> bool) \<Rightarrow> string" where
  "disambiguate desired taken =
     (if \<not> taken desired then desired
      else case firstFreeNumberedCandidate desired taken of
             Some candidate \<Rightarrow> candidate
           | None \<Rightarrow> overflowFallback desired)"

subsection \<open>Output names\<close>

definition kOrdinalDigits :: nat where "kOrdinalDigits = 8"

definition isPlainTag :: "string \<Rightarrow> bool" where
  "isPlainTag extension \<longleftrightarrow>
     extension \<noteq> [] \<and> length extension \<le> 8 \<and>
     list_all (\<lambda>letter. 97 \<le> char_byte letter \<and> char_byte letter \<le> 122 \<or>
                        48 \<le> char_byte letter \<and> char_byte letter \<le> 57) extension"

definition bucketOf :: "Candidate \<Rightarrow> string" where
  "bucketOf candidate = (if isPlainTag (cd_name candidate) then cd_name candidate else ''bin'')"

definition carvedName :: "Candidate \<Rightarrow> u64 \<Rightarrow> string" where
  "carvedName candidate ordinal =
     ''carved'' @ ''/'' @ bucketOf candidate @ ''/f'' @ padded kOrdinalDigits ordinal @ ''.'' @
     bucketOf candidate"

definition outputNameFor :: "Candidate \<Rightarrow> u64 \<Rightarrow> string" where
  "outputNameFor candidate ordinal =
     (if cd_source candidate = kFilesystem then cd_name candidate else carvedName candidate ordinal)"

subsection \<open>Write order\<close>

fun ofSourceFrom :: "Candidate list \<Rightarrow> CandidateSource \<Rightarrow> nat \<Rightarrow> (Candidate \<times> u64) list" where
  "ofSourceFrom [] source ordinal = []"
| "ofSourceFrom (winner # winners) source ordinal =
     (if cd_source winner = source
      then (winner, ordinal) # ofSourceFrom winners source (ordinal + 1)
      else ofSourceFrom winners source (ordinal + 1))"

definition ofSource :: "Candidate list \<Rightarrow> CandidateSource \<Rightarrow> (Candidate \<times> u64) list" where
  "ofSource winners source = ofSourceFrom winners source 0"

definition orderedForWriting :: "Candidate list \<Rightarrow> (Candidate \<times> u64) list" where
  "orderedForWriting winners = ofSource winners kFilesystem @ ofSource winners kCarve"

subsection \<open>Decimal text reads back\<close>

definition undec :: "string \<Rightarrow> nat" where
  "undec s = foldl (\<lambda>v ch. 10 * v + (char_byte ch - 48)) 0 s"

lemma char_byte_char_of: "n < 256 \<Longrightarrow> char_byte (char_of n) = n"
  by (simp add: char_byte_def)

lemma undec_snoc: "undec (s @ [ch]) = 10 * undec s + (char_byte ch - 48)"
  by (simp add: undec_def)

lemma undec_dec: "undec (dec n) = n"
proof (induction n rule: dec.induct)
  case (1 n)
  show ?case
  proof (cases "n < 10")
    case True
    then show ?thesis by (simp add: dec.simps [of n] undec_def char_byte_char_of)
  next
    case False
    have "char_byte (char_of (48 + n mod 10)) = 48 + n mod 10" by (simp add: char_byte_char_of)
    then show ?thesis using False "1.IH" by (simp add: dec.simps [of n] undec_snoc)
  qed
qed

lemma dec_inject [simp]: "dec m = dec n \<longleftrightarrow> m = n"
  by (metis undec_dec)

lemma undec_zeros: "undec (replicate k (CHR ''0'') @ s) = undec s"
  by (induction k) (simp_all add: undec_def char_byte_def)

lemma padded_inject [simp]: "padded w m = padded w n \<longleftrightarrow> m = n"
  by (metis padded_def undec_dec undec_zeros)

lemma dec_digits: "ch \<in> set (dec n) \<Longrightarrow> 48 \<le> char_byte ch \<and> char_byte ch \<le> 57"
proof (induction n rule: dec.induct)
  case (1 n)
  show ?case
  proof (cases "n < 10")
    case True
    then show ?thesis using "1.prems" by (simp add: dec.simps [of n] char_byte_char_of)
  next
    case False
    have "n mod 10 < 10" by simp
    then show ?thesis
      using False "1.IH" "1.prems" by (auto simp: dec.simps [of n] char_byte_char_of)
  qed
qed

lemma padded_digits: "ch \<in> set (padded w n) \<Longrightarrow> 48 \<le> char_byte ch \<and> char_byte ch \<le> 57"
  using dec_digits by (auto simp: padded_def char_byte_def)

subsection \<open>Freshness\<close>

lemma splitAtLastDot_join: "np_stem (splitAtLastDot name) @ np_extension (splitAtLastDot name) = name"
  by (simp add: splitAtLastDot_def Let_def)

lemma numberedCandidate_inject [simp]: "numberedCandidate p m = numberedCandidate p n \<longleftrightarrow> m = n"
  by (simp add: numberedCandidate_def)

lemma numberedCandidate_neq: "numberedCandidate (splitAtLastDot desired) n \<noteq> desired"
proof
  assume "numberedCandidate (splitAtLastDot desired) n = desired"
  then have "length (numberedCandidate (splitAtLastDot desired) n) = length desired" by simp
  moreover have "length desired = length (np_stem (splitAtLastDot desired)) + length (np_extension (splitAtLastDot desired))"
    by (metis length_append splitAtLastDot_join)
  ultimately show False by (simp add: numberedCandidate_def)
qed

lemma firstFreeFrom_Some:
  "firstFreeFrom parts taken n = Some name \<Longrightarrow>
   \<not> taken name \<and> (\<exists>k. n \<le> k \<and> k \<le> kMaxDisambiguationAttempts + 1 \<and> name = numberedCandidate parts k \<and>
     (\<forall>j. n \<le> j \<and> j < k \<longrightarrow> taken (numberedCandidate parts j)))"
proof (induction parts taken n rule: firstFreeFrom.induct)
  case (1 parts taken n)
  show ?case
  proof (cases "n \<le> kMaxDisambiguationAttempts + 1 \<and> taken (numberedCandidate parts n)")
    case True
    then have "firstFreeFrom parts taken (n + 1) = Some name"
      using "1.prems" by (simp add: firstFreeFrom.simps [of parts taken n])
    then obtain k where "\<not> taken name" "n + 1 \<le> k" "k \<le> kMaxDisambiguationAttempts + 1"
      "name = numberedCandidate parts k" "\<forall>j. n + 1 \<le> j \<and> j < k \<longrightarrow> taken (numberedCandidate parts j)"
      using "1.IH" True by auto
    moreover from this True have "\<forall>j. n \<le> j \<and> j < k \<longrightarrow> taken (numberedCandidate parts j)"
      by (metis Suc_eq_plus1 le_antisym not_less_eq_eq)
    ultimately show ?thesis by (metis add_leD1)
  next
    case False
    then have "n \<le> kMaxDisambiguationAttempts + 1" "\<not> taken (numberedCandidate parts n)"
      "name = numberedCandidate parts n"
      using "1.prems" by (auto simp: firstFreeFrom.simps [of parts taken n] split: if_splits)
    then show ?thesis by (metis leD order_refl)
  qed
qed

lemma firstFreeFrom_None:
  "firstFreeFrom parts taken n = None \<Longrightarrow> n \<le> k \<Longrightarrow> k \<le> kMaxDisambiguationAttempts + 1 \<Longrightarrow>
   taken (numberedCandidate parts k)"
proof (induction parts taken n rule: firstFreeFrom.induct)
  case (1 parts taken n)
  then have le: "n \<le> kMaxDisambiguationAttempts + 1" by simp
  with "1.prems"(1) have t: "taken (numberedCandidate parts n)" "firstFreeFrom parts taken (n + 1) = None"
    by (auto simp: firstFreeFrom.simps [of parts taken n] split: if_splits)
  show ?case
  proof (cases "k = n")
    case False
    then show ?thesis using "1.IH" [OF le] t "1.prems" by simp
  qed (simp add: t)
qed

lemma disambiguate_fresh:
  assumes "finite used" and "card used \<le> kMaxDisambiguationAttempts"
  shows "disambiguate desired (\<lambda>name. name \<in> used) \<notin> used"
proof (cases "desired \<in> used")
  case True
  let ?parts = "splitAtLastDot desired" and ?taken = "\<lambda>name. name \<in> used"
  show ?thesis
  proof (cases "firstFreeFrom ?parts ?taken 2")
    case None
    let ?tried = "numberedCandidate ?parts ` {2..kMaxDisambiguationAttempts + 1}"
    have "inj_on (numberedCandidate ?parts) {2..kMaxDisambiguationAttempts + 1}"
      by (simp add: inj_on_def)
    then have "card ?tried = kMaxDisambiguationAttempts" by (simp add: card_image)
    moreover have "desired \<notin> ?tried" by (auto simp: numberedCandidate_neq [symmetric])
    ultimately have "card (insert desired ?tried) = Suc kMaxDisambiguationAttempts" by simp
    moreover have "insert desired ?tried \<subseteq> used" using True firstFreeFrom_None [OF None] by auto
    ultimately show ?thesis using assms card_mono [of used "insert desired ?tried"] by simp
  next
    case (Some name)
    then show ?thesis
      using firstFreeFrom_Some [OF Some] True
      by (simp add: disambiguate_def firstFreeNumberedCandidate_def)
  qed
qed (simp add: disambiguate_def)

subsection \<open>Carved names\<close>

lemma bucketOf_plain: "isPlainTag (bucketOf c)"
  by (simp add: bucketOf_def) (simp add: isPlainTag_def char_byte_def)

lemma plain_no_slash: "isPlainTag tag \<Longrightarrow> CHR ''/'' \<notin> set tag"
  by (auto simp: isPlainTag_def list_all_iff char_byte_def)

lemma digits_no_dot: "CHR ''.'' \<notin> set (padded w n)"
  using padded_digits [of "CHR ''.''" w n] by (auto simp: char_byte_def)

lemma append_sep_inject:
  "x \<notin> set as \<Longrightarrow> x \<notin> set bs \<Longrightarrow> as @ x # cs = bs @ x # ds \<longleftrightarrow> as = bs \<and> cs = ds"
proof (induction as arbitrary: bs)
  case Nil
  then show ?case by (cases bs) auto
next
  case (Cons a as)
  then show ?case by (cases bs) auto
qed

lemma carvedName_inject:
  assumes "carvedName c m = carvedName d n"
  shows "m = n \<and> bucketOf c = bucketOf d"
proof -
  have "bucketOf c @ CHR ''/'' # CHR ''f'' # padded kOrdinalDigits m @ CHR ''.'' # bucketOf c =
      bucketOf d @ CHR ''/'' # CHR ''f'' # padded kOrdinalDigits n @ CHR ''.'' # bucketOf d"
    using assms by (simp add: carvedName_def)
  then have "bucketOf c = bucketOf d \<and> CHR ''f'' # padded kOrdinalDigits m @ CHR ''.'' # bucketOf c =
      CHR ''f'' # padded kOrdinalDigits n @ CHR ''.'' # bucketOf d"
    unfolding append_sep_inject
      [OF plain_no_slash [OF bucketOf_plain [of c]] plain_no_slash [OF bucketOf_plain [of d]]] .
  then have b: "bucketOf c = bucketOf d"
    and rest: "padded kOrdinalDigits m @ CHR ''.'' # bucketOf c = padded kOrdinalDigits n @ CHR ''.'' # bucketOf d"
    by (auto simp only: list.inject)
  from rest have "padded kOrdinalDigits m = padded kOrdinalDigits n"
    unfolding append_sep_inject [OF digits_no_dot digits_no_dot] by (rule conjunct1)
  then show ?thesis using b by simp
qed

subsection \<open>Order\<close>

lemma ofSourceFrom_eq:
  "ofSourceFrom winners source k =
     filter (\<lambda>p. cd_source (fst p) = source) (zip winners [k..<k + length winners])"
proof (induction winners arbitrary: k)
  case (Cons w ws)
  have "[k..<k + length (w # ws)] = k # [Suc k..<Suc k + length ws]"
    by (subst upt_conv_Cons) simp_all
  then show ?case using Cons [of "Suc k"] by simp
qed simp

lemma orderedForWriting_mset:
  "mset (orderedForWriting winners) = mset (zip winners [0..<length winners])"
proof -
  have "filter (\<lambda>p. cd_source (fst p) = kCarve) ps = filter (\<lambda>p. \<not> cd_source (fst p) = kFilesystem) ps"
    for ps :: "(Candidate \<times> u64) list"
    by (rule filter_cong) (auto intro: CandidateSource.exhaust)
  then show ?thesis
    by (simp add: orderedForWriting_def ofSource_def ofSourceFrom_eq mset_filter
        multiset_partition [symmetric])
qed

subsection \<open>Properties\<close>

text \<open>
  As long as no more than ten thousand names are in use, disambiguation answers a name that is not
  in use: the desired one if it is free, otherwise the first free numbered variant.
\<close>
theorem disambiguated_name_is_fresh:
  assumes "finite used" and "card used \<le> kMaxDisambiguationAttempts"
  shows "disambiguate desired (\<lambda>name. name \<in> used) \<notin> used"
  using assms by (rule disambiguate_fresh)

theorem disambiguated_name_is_fresh_witness:
  "disambiguate ''a.b'' (\<lambda>name. name \<in> {''a.b'', ''a (2).b''}) \<notin> {''a.b'', ''a (2).b''}"
  by (rule disambiguated_name_is_fresh) (simp_all add: kMaxDisambiguationAttempts_def)

text \<open>
  Carved files never collide: two carved names are equal only for the same ordinal and the same
  bucket, and the bucket directory is always a plain lowercase alphanumeric tag, whatever
  extension the carver reported.
\<close>
theorem carved_names_are_distinct:
  "(carvedName c m = carvedName d n \<longrightarrow> m = n \<and> bucketOf c = bucketOf d) \<and> isPlainTag (bucketOf c)"
  using carvedName_inject bucketOf_plain by blast

theorem carved_names_are_distinct_witness:
  "carvedName (sampleCandidate kCarve kValid []) 7 = ''carved/png/f00000007.png'' \<and>
   carvedName (sampleCandidate kCarve kValid []) 7 \<noteq> carvedName (sampleCandidate kCarve kValid []) 8"
proof -
  have "carvedName (sampleCandidate kCarve kValid []) 7 = ''carved/png/f00000007.png''" by code_simp
  then show ?thesis
    using carved_names_are_distinct [of "sampleCandidate kCarve kValid []" 7 "sampleCandidate kCarve kValid []" 8]
    by fastforce
qed

text \<open>
  The writing order is a reordering of the winners with their device-order ordinals: every winner
  exactly once, all filesystem entries before all carved ones, each group in device order.
\<close>
theorem write_order_is_a_permutation:
  "mset (orderedForWriting winners) = mset (zip winners [0..<length winners]) \<and>
   (\<exists>named carved. orderedForWriting winners = named @ carved \<and>
      list_all (\<lambda>p. cd_source (fst p) = kFilesystem) named \<and> list_all (\<lambda>p. cd_source (fst p) = kCarve) carved \<and>
      sorted_wrt (<) (map snd named) \<and> sorted_wrt (<) (map snd carved))"
proof -
  have asc: "sorted_wrt (<) (map snd (filter P (zip winners [0..<length winners])))" for P
  proof -
    have "sorted_wrt (\<lambda>p q. snd p < snd q) (zip winners [0..<length winners])"
      by (simp add: sorted_wrt_iff_nth_less)
    then show ?thesis by (simp add: sorted_wrt_map sorted_wrt_filter)
  qed
  have "orderedForWriting winners = ofSource winners kFilesystem @ ofSource winners kCarve"
    by (simp add: orderedForWriting_def)
  moreover have "list_all (\<lambda>p. cd_source (fst p) = s) (ofSource winners s)" "sorted_wrt (<) (map snd (ofSource winners s))"
    for s using asc by (simp_all add: ofSource_def ofSourceFrom_eq list_all_iff)
  ultimately show ?thesis using orderedForWriting_mset by blast
qed

end
