(* ===== verification/Devices.thy ===== *)
theory Devices
  imports Bytes
begin

text \<open>
  The device seam: \<open>include/revenant/core/io/BlockDevice.hpp\<close>, \<open>ReadRange.hpp\<close>,
  \<open>AlignedRead.hpp\<close>, the two devices over an operating-system handle
  (\<open>NativeIoPosix.cpp\<close>, \<open>ImageFileDeviceShared.cpp\<close>, \<open>RawDeviceShared.cpp\<close>),
  \<open>volume/PartitionView.cpp\<close> and \<open>volume/SectorIo.cpp\<close>. A read yields the bytes it put
  at the front of the caller's buffer; \<open>pread\<close> of the operating system, already retried on
  \<open>EINTR\<close>, is a parameter that answers an \<open>errno\<close> or a possibly short chunk.
\<close>

record BlockDevice =
  bd_size :: u64
  bd_sectorSize :: u32
  bd_readAt :: "u64 \<Rightarrow> size_t \<Rightarrow> bytes result"

type_synonym pread = "u64 \<Rightarrow> size_t \<Rightarrow> int + bytes"

subsection \<open>Clamped, looping, aligned reads\<close>

definition clampReadRange :: "u64 \<Rightarrow> size_t \<Rightarrow> u64 \<Rightarrow> size_t result" where
  "clampReadRange off bufferSize deviceSize =
     (if bufferSize > max64 - off then Inl (mkError kOverflow off)
      else if off \<ge> deviceSize \<or> bufferSize = 0 then Inr 0
      else Inr (min bufferSize (deviceSize - off)))"

function driveReadLoop :: "(size_t \<Rightarrow> bytes result) \<Rightarrow> size_t \<Rightarrow> bytes \<Rightarrow> bytes result" where
  "driveReadLoop advance bufferSize sofar =
     (if length sofar < bufferSize
      then case advance (length sofar) of
             Inl e \<Rightarrow> Inl e
           | Inr chunk \<Rightarrow> if chunk = [] then Inr sofar
                          else driveReadLoop advance bufferSize (sofar @ chunk)
      else Inr sofar)"
  by pat_completeness auto
termination
  by (relation "measure (\<lambda>(advance, n, sofar). n - length sofar)") (auto intro: diff_less_mono2)

declare driveReadLoop.simps [simp del]

definition advanceByOneChunk :: "pread \<Rightarrow> u64 \<Rightarrow> size_t \<Rightarrow> size_t \<Rightarrow> bytes result" where
  "advanceByOneChunk pread off bufferSize sofar =
     (case pread (wrap64 (off + sofar)) (bufferSize - sofar) of
        Inl errno \<Rightarrow> Inl \<lparr>err_code = kIoFailure, err_offset = wrap64 (off + sofar), err_osCode = errno\<rparr>
      | Inr chunk \<Rightarrow> Inr chunk)"

definition readNative :: "pread \<Rightarrow> u64 \<Rightarrow> size_t \<Rightarrow> bytes result" where
  "readNative pread off bufferSize =
     driveReadLoop (advanceByOneChunk pread off bufferSize) bufferSize []"

record AlignedWindow =
  aw_offset :: u64
  aw_length :: size_t
  aw_skip :: size_t

definition sectorsOf :: "u32 \<Rightarrow> u64" where
  "sectorsOf sectorSize = (if sectorSize = 0 then 1 else sectorSize)"

definition alignedWindow :: "u64 \<Rightarrow> size_t \<Rightarrow> u32 \<Rightarrow> AlignedWindow" where
  "alignedWindow off len sectorSize =
     (let sector = sectorsOf sectorSize;
          start = off div sector * sector;
          skip = off - start;
          span = wrap64 (skip + len)
      in \<lparr>aw_offset = start,
          aw_length = wrap64 (wrap64 (span + sector - 1) div sector * sector),
          aw_skip = skip\<rparr>)"

definition usableBytes :: "AlignedWindow \<Rightarrow> size_t \<Rightarrow> size_t \<Rightarrow> size_t" where
  "usableBytes window got wanted =
     (if got \<le> aw_skip window then 0 else min wanted (got - aw_skip window))"

definition readThroughAlignment ::
  "u64 \<Rightarrow> size_t \<Rightarrow> u32 \<Rightarrow> (u64 \<Rightarrow> size_t \<Rightarrow> bytes result) \<Rightarrow> bytes result" where
  "readThroughAlignment off bufferSize sectorSize readAligned =
     (let window = alignedWindow off bufferSize sectorSize
      in if aw_skip window = 0 \<and> aw_length window = bufferSize then readAligned off bufferSize
         else mapResult (readAligned (aw_offset window) (aw_length window))
                (\<lambda>bounce. take (usableBytes window (length bounce) bufferSize) (drop (aw_skip window) bounce)))"

subsection \<open>Devices over a handle\<close>

definition imageFileDevice :: "pread \<Rightarrow> u64 \<Rightarrow> u32 \<Rightarrow> BlockDevice" where
  "imageFileDevice pread sizeBytes sectorSize =
     \<lparr>bd_size = sizeBytes, bd_sectorSize = sectorSize,
      bd_readAt = (\<lambda>off n. case clampReadRange off n sizeBytes of
                             Inl e \<Rightarrow> Inl e | Inr want \<Rightarrow> readNative pread off want)\<rparr>"

definition openImageFile :: "pread result \<Rightarrow> (pread \<Rightarrow> u64 result) \<Rightarrow> u32 \<Rightarrow> BlockDevice result" where
  "openImageFile opened fileSize sectorSize =
     (if sectorSize = 0 then Inl (mkError kInvalidArgument 0)
      else andThen opened (\<lambda>handle. mapResult (fileSize handle) (\<lambda>sizeBytes. imageFileDevice handle sizeBytes sectorSize)))"

definition rawDevice :: "pread \<Rightarrow> u64 \<Rightarrow> u32 \<Rightarrow> BlockDevice" where
  "rawDevice pread sizeBytes sectorSize =
     \<lparr>bd_size = sizeBytes, bd_sectorSize = sectorSize,
      bd_readAt = (\<lambda>off n. case clampReadRange off n sizeBytes of
                             Inl e \<Rightarrow> Inl e
                           | Inr want \<Rightarrow> readThroughAlignment off want sectorSize (readNative pread))\<rparr>"

subsection \<open>A window on a device\<close>

definition clampLength :: "u64 \<Rightarrow> u64 \<Rightarrow> u64 \<Rightarrow> u64" where
  "clampLength start len parentSize =
     (if start \<ge> parentSize then 0 else min len (parentSize - start))"

definition partitionView :: "BlockDevice \<Rightarrow> u64 \<Rightarrow> u64 \<Rightarrow> BlockDevice" where
  "partitionView parent start len =
     (let sizeBytes = clampLength start len (bd_size parent)
      in \<lparr>bd_size = sizeBytes, bd_sectorSize = bd_sectorSize parent,
          bd_readAt = (\<lambda>off n. if off > max64 - start then Inl (mkError kOverflow off)
                               else case clampReadRange off n sizeBytes of
                                      Inl e \<Rightarrow> Inl e
                                    | Inr want \<Rightarrow> bd_readAt parent (wrap64 (start + off)) want)\<rparr>)"

subsection \<open>Table sectors\<close>

definition kMbrSectorBytes :: size_t where "kMbrSectorBytes = 512"

definition byteOffsetOf :: "BlockDevice \<Rightarrow> u64 \<Rightarrow> u64 result" where
  "byteOffsetOf device lba =
     (let sectorSize = bd_sectorSize device
      in if sectorSize = 0 then Inl (mkError kInvalidArgument 0)
         else if lba \<ge> bd_size device div sectorSize then Inl (mkError kOutOfRange (bd_size device))
         else Inr (wrap64 (lba * sectorSize)))"

definition readTableSector :: "BlockDevice \<Rightarrow> u64 \<Rightarrow> bytes result" where
  "readTableSector device lba =
     andThen (byteOffsetOf device lba)
       (\<lambda>off. case bd_readAt device off kMbrSectorBytes of
                Inl e \<Rightarrow> Inl e
              | Inr got \<Rightarrow> if length got < kMbrSectorBytes then Inl (mkError kOutOfRange off) else Inr got)"

subsection \<open>What a device owes its readers\<close>

definition serves :: "BlockDevice \<Rightarrow> bytes \<Rightarrow> bool" where
  "serves device content \<longleftrightarrow>
     bd_size device = length content \<and> length content \<le> max64 \<and>
     (\<forall>off n. off \<le> length content \<longrightarrow> off + n \<le> max64 \<longrightarrow>
        bd_readAt device off n = Inr (take n (drop off content)))"

definition honest :: "pread \<Rightarrow> bytes \<Rightarrow> bool" where
  "honest pread content \<longleftrightarrow>
     (\<forall>pos n. pos \<le> length content \<longrightarrow>
        (\<exists>k. pread pos n = Inr (take k (drop pos content)) \<and> k \<le> n \<and> (pos < length content \<and> 0 < n \<longrightarrow> 0 < k)))"

definition honest_aligned :: "pread \<Rightarrow> bytes \<Rightarrow> nat \<Rightarrow> bool" where
  "honest_aligned pread content sector \<longleftrightarrow>
     (\<forall>pos n. pos + n \<le> length content \<and> sector dvd pos \<and> sector dvd n \<longrightarrow>
        pread pos n = Inr (take n (drop pos content)))"

locale block_device =
  fixes sizeBytes :: nat and read :: "nat \<Rightarrow> nat \<Rightarrow> bytes result" and content :: bytes
  assumes size_content: "sizeBytes = length content" and size_bound: "length content \<le> max64"
    and read_content: "off \<le> length content \<Longrightarrow> off + n \<le> max64 \<Longrightarrow> read off n = Inr (take n (drop off content))"
begin

lemma read_inside: "off + n \<le> sizeBytes \<Longrightarrow> read off n = Inr (take n (drop off content))"
  using size_bound by (intro read_content) (simp_all add: size_content)

lemma read_length: "off \<le> sizeBytes \<Longrightarrow> off + n \<le> max64 \<Longrightarrow> read off n = Inr bs \<Longrightarrow> length bs = min n (sizeBytes - off)"
  by (auto simp: read_content size_content)

lemma read_split:
  assumes "off + (m + n) \<le> sizeBytes"
  shows "\<exists>a b. read off m = Inr a \<and> read (off + m) n = Inr b \<and> read off (m + n) = Inr (a @ b)"
proof -
  have "take (m + n) (drop off content) = take m (drop off content) @ take n (drop (off + m) content)"
    by (simp add: take_add add.commute)
  moreover have "read off m = Inr (take m (drop off content))" using assms by (intro read_inside) simp
  moreover have "read (off + m) n = Inr (take n (drop (off + m) content))" using assms by (intro read_inside) simp
  moreover have "read off (m + n) = Inr (take (m + n) (drop off content))" using assms by (intro read_inside) simp
  ultimately show ?thesis by simp
qed

end

lemma serves_block_device: "serves device content \<longleftrightarrow> block_device (bd_size device) (bd_readAt device) content"
  unfolding serves_def block_device_def by blast

lemma servesI:
  assumes "bd_size device = length content" and "length content \<le> max64"
    and "\<And>off n. off \<le> length content \<Longrightarrow> off + n \<le> max64 \<Longrightarrow> bd_readAt device off n = Inr (take n (drop off content))"
  shows "serves device content"
  using assms by (simp add: serves_def)

subsection \<open>The read loop\<close>

lemma clampReadRange_eq:
  "off \<le> sizeBytes \<Longrightarrow> off + n \<le> max64 \<Longrightarrow> clampReadRange off n sizeBytes = Inr (min n (sizeBytes - off))"
  by (auto simp: clampReadRange_def)

lemma honestD:
  "honest pread content \<Longrightarrow> pos \<le> length content \<Longrightarrow>
   \<exists>k. pread pos n = Inr (take k (drop pos content)) \<and> k \<le> n \<and> (pos < length content \<and> 0 < n \<longrightarrow> 0 < k)"
  unfolding honest_def by blast

lemma driveReadLoop_honest:
  assumes "honest pread content" and "off + n \<le> length content" and "length content \<le> max64"
  shows "\<lbrakk>length sofar \<le> n; sofar = take (length sofar) (drop off content)\<rbrakk> \<Longrightarrow>
    driveReadLoop (advanceByOneChunk pread off n) n sofar = Inr (take n (drop off content))"
proof (induction "n - length sofar" arbitrary: sofar rule: less_induct)
  case less
  let ?k = "length sofar"
  show ?case
  proof (cases "?k < n")
    case True
    obtain k where k: "pread (off + ?k) (n - ?k) = Inr (take k (drop (off + ?k) content))" "k \<le> n - ?k" "0 < k"
      using honestD [OF assms(1), of "off + ?k" "n - ?k"] assms(2) True by auto
    define more' where "more' = take k (drop (off + ?k) content)"
    have len: "length more' = k" using k(2) assms(2) True by (simp add: more'_def)
    have "off + ?k \<le> max64" using assms(2,3) True by simp
    then have step: "advanceByOneChunk pread off n ?k = Inr more'"
      by (simp add: advanceByOneChunk_def k(1) more'_def)
    have "take (?k + k) (drop off content) = take ?k (drop off content) @ more'"
      using take_add [of ?k k "drop off content"] by (simp add: more'_def add.commute)
    then have "sofar @ more' = take (length (sofar @ more')) (drop off content)"
      using less.prems(2) len by simp
    moreover have "n - length (sofar @ more') < n - length sofar" "length (sofar @ more') \<le> n"
      using len k(2,3) True by simp_all
    ultimately have "driveReadLoop (advanceByOneChunk pread off n) n (sofar @ more') = Inr (take n (drop off content))"
      using less.hyps by blast
    then show ?thesis using True step len k(3) by (subst driveReadLoop.simps) auto
  next
    case False
    then show ?thesis using less.prems by (subst driveReadLoop.simps) simp
  qed
qed

lemma readNative_honest:
  "honest pread content \<Longrightarrow> off + n \<le> length content \<Longrightarrow> length content \<le> max64 \<Longrightarrow>
   readNative pread off n = Inr (take n (drop off content))"
  by (simp add: readNative_def driveReadLoop_honest)

lemma imageFileDevice_serves:
  assumes "honest pread content" and "length content \<le> max64"
  shows "serves (imageFileDevice pread (length content) sectorSize) content"
proof (rule servesI)
  fix off n assume o: "off \<le> length content" "off + n \<le> max64"
  let ?want = "min n (length content - off)"
  have "readNative pread off ?want = Inr (take ?want (drop off content))"
    using assms o by (intro readNative_honest) simp_all
  moreover have "take ?want (drop off content) = take n (drop off content)" by (simp add: min_def)
  ultimately show "bd_readAt (imageFileDevice pread (length content) sectorSize) off n = Inr (take n (drop off content))"
    using o by (simp add: imageFileDevice_def clampReadRange_eq)
qed (use assms in \<open>simp_all add: imageFileDevice_def\<close>)

subsection \<open>Alignment\<close>

lemma alignedWindow_spec:
  assumes "0 < sector" and "off + len + sector \<le> max64"
  defines "w \<equiv> alignedWindow off len sector"
  shows "sector dvd aw_offset w" "sector dvd aw_length w" "aw_offset w + aw_skip w = off"
    "aw_skip w + len \<le> aw_length w" "aw_skip w < sector"
    "sector dvd sizeBytes \<Longrightarrow> off + len \<le> sizeBytes \<Longrightarrow> aw_offset w + aw_length w \<le> sizeBytes"
proof -
  define q r where "q = off div sector" and "r = off mod sector"
  have off: "off = q * sector + r" "r < sector" using assms(1) by (simp_all add: q_def r_def)
  have start: "off div sector * sector = q * sector" by (simp add: q_def)
  have small: "wrap64 (r + len) = r + len" "wrap64 (r + len + sector - 1) = r + len + sector - 1"
    using assms(2) off by (simp_all add: wrap64_id)
  define u where "u = (r + len + sector - 1) div sector"
  have u: "u * sector \<le> r + len + sector - 1" "r + len + sector - 1 < u * sector + sector"
    unfolding u_def
    using div_mult_mod_eq [of "r + len + sector - 1" sector] mod_less_divisor [OF assms(1), of "r + len + sector - 1"]
    by linarith+
  have w: "w = \<lparr>aw_offset = q * sector, aw_length = u * sector, aw_skip = r\<rparr>"
  proof -
    have "u * sector \<le> max64" using u(1) assms(2) off by linarith
    then show ?thesis
      unfolding w_def alignedWindow_def Let_def sectorsOf_def start
      using assms(1) off small by (simp add: u_def wrap64_id)
  qed
  show "sector dvd aw_offset w" "sector dvd aw_length w" "aw_offset w + aw_skip w = off" "aw_skip w < sector"
    using off by (simp_all add: w)
  show "aw_skip w + len \<le> aw_length w" using u(2) assms(1) by (simp add: w)
  assume "sector dvd sizeBytes" "off + len \<le> sizeBytes"
  then obtain k where k: "sizeBytes = k * sector" by (metis dvd_div_mult_self)
  have "(q + u) * sector < (k + 1) * sector"
    using u(1) \<open>off + len \<le> sizeBytes\<close> off assms(1) by (simp add: k algebra_simps)
  then have "q + u < k + 1" by (simp only: mult_less_cancel2)
  then have "q + u \<le> k" by simp
  then have "(q + u) * sector \<le> k * sector" by (rule mult_le_mono1)
  then show "aw_offset w + aw_length w \<le> sizeBytes" by (simp add: w k algebra_simps)
qed

lemma readNative_aligned:
  assumes "honest_aligned pread content sector" and "pos + n \<le> length content" and "length content \<le> max64"
    and "sector dvd pos" and "sector dvd n"
  shows "readNative pread pos n = Inr (take n (drop pos content))"
proof (cases "n = 0")
  case False
  have got: "pread pos n = Inr (take n (drop pos content))" using assms unfolding honest_aligned_def by blast
  have "pos \<le> max64" using assms by simp
  then have step: "advanceByOneChunk pread pos n 0 = Inr (take n (drop pos content))"
    by (simp add: advanceByOneChunk_def got)
  have "length (take n (drop pos content)) = n" using assms(2) by simp
  then have "driveReadLoop (advanceByOneChunk pread pos n) n (take n (drop pos content)) = Inr (take n (drop pos content))"
    by (subst driveReadLoop.simps) simp
  then show ?thesis
    unfolding readNative_def using False step \<open>length _ = n\<close> by (subst driveReadLoop.simps) auto
qed (simp add: readNative_def driveReadLoop.simps)

lemma readThroughAlignment_content:
  assumes h: "honest_aligned pread content sector" and sec: "0 < sector" "sector dvd length content"
    and room: "length content + sector \<le> max64" and range: "off + n \<le> length content"
  shows "readThroughAlignment off n sector (readNative pread) = Inr (take n (drop off content))"
proof -
  define w where "w = alignedWindow off n sector"
  have bound: "off + n + sector \<le> max64" using range room by simp
  note win = alignedWindow_spec [OF sec(1) bound, folded w_def]
  have end': "aw_offset w + aw_length w \<le> length content" using win(6) sec(2) range by simp
  have read: "readNative pread (aw_offset w) (aw_length w) = Inr (take (aw_length w) (drop (aw_offset w) content))"
    using h end' room win(1,2) by (intro readNative_aligned) simp_all
  show ?thesis
  proof (cases "aw_skip w = 0 \<and> aw_length w = n")
    case True
    then have "aw_offset w = off" using win(3) by simp
    then show ?thesis using True read by (simp add: readThroughAlignment_def Let_def flip: w_def)
  next
    case False
    have len: "length (take (aw_length w) (drop (aw_offset w) content)) = aw_length w" using end' by simp
    have use: "take (usableBytes w (aw_length w) n) (drop (aw_skip w) (take (aw_length w) (drop (aw_offset w) content)))
        = take n (drop off content)"
      using win(3,4) by (cases "n = 0") (auto simp: usableBytes_def drop_take min_def add.commute)
    have "readThroughAlignment off n sector (readNative pread) =
        mapResult (readNative pread (aw_offset w) (aw_length w))
          (\<lambda>bounce. take (usableBytes w (length bounce) n) (drop (aw_skip w) bounce))"
      unfolding readThroughAlignment_def Let_def w_def [symmetric] using False by (simp only: if_False)
    then show ?thesis unfolding read using len use by simp
  qed
qed

lemma rawDevice_serves:
  assumes "honest_aligned pread content sector" "0 < sector" "sector dvd length content" "length content + sector \<le> max64"
  shows "serves (rawDevice pread (length content) sector) content"
proof (rule servesI)
  fix off n assume o: "off \<le> length content" "off + n \<le> max64"
  let ?want = "min n (length content - off)"
  have "readThroughAlignment off ?want sector (readNative pread) = Inr (take ?want (drop off content))"
    using assms o by (intro readThroughAlignment_content) simp_all
  moreover have "take ?want (drop off content) = take n (drop off content)" by (simp add: min_def)
  ultimately show "bd_readAt (rawDevice pread (length content) sector) off n = Inr (take n (drop off content))"
    using o by (simp add: rawDevice_def clampReadRange_eq)
qed (use assms in \<open>simp_all add: rawDevice_def\<close>)

subsection \<open>Windows\<close>

lemma partitionView_serves:
  assumes dev: "serves device content" and start: "start \<le> length content"
  shows "serves (partitionView device start len) (take len (drop start content))"
proof (rule servesI)
  have sz: "bd_size device = length content" "length content \<le> max64" using dev by (simp_all add: serves_def)
  have cl: "clampLength start len (length content) = length (take len (drop start content))"
    by (auto simp: clampLength_def)
  show "bd_size (partitionView device start len) = length (take len (drop start content))"
    by (simp add: partitionView_def Let_def sz cl)
  show "length (take len (drop start content)) \<le> max64" using sz(2) by simp
  fix off n assume o: "off \<le> length (take len (drop start content))" "off + n \<le> max64"
  let ?want = "min n (length (take len (drop start content)) - off)"
  have fits: "start + off \<le> length content" using o(1) start by simp linarith
  have small: "wrap64 (start + off) = start + off" "\<not> max64 - start < off" using fits sz(2) by simp_all
  have "bd_readAt device (start + off) ?want = Inr (take ?want (drop (start + off) content))"
    using dev fits sz(2) o(1) unfolding serves_def by simp
  moreover have "take ?want (drop (start + off) content) = take n (drop off (take len (drop start content)))"
    using o(1) by (simp add: drop_take min_def add.commute)
  moreover have "clampReadRange off n (length (take len (drop start content))) = Inr ?want"
    using o by (intro clampReadRange_eq)
  ultimately show "bd_readAt (partitionView device start len) off n = Inr (take n (drop off (take len (drop start content))))"
    using small unfolding partitionView_def Let_def sz cl by simp
qed

lemma readTableSector_serves:
  assumes "serves device content" and "0 < bd_sectorSize device" and "length content + kMbrSectorBytes \<le> max64"
  shows "readTableSector device lba =
    (if lba \<ge> length content div bd_sectorSize device then Inl (mkError kOutOfRange (length content))
     else if length content < lba * bd_sectorSize device + kMbrSectorBytes
     then Inl (mkError kOutOfRange (lba * bd_sectorSize device))
     else Inr (take kMbrSectorBytes (drop (lba * bd_sectorSize device) content)))"
proof (cases "lba \<ge> length content div bd_sectorSize device")
  case True
  then show ?thesis using assms by (simp add: readTableSector_def byteOffsetOf_def serves_def)
next
  case False
  let ?off = "lba * bd_sectorSize device"
  have sz: "bd_size device = length content" "length content \<le> max64" using assms(1) by (simp_all add: serves_def)
  have "lba * bd_sectorSize device < length content div bd_sectorSize device * bd_sectorSize device"
    using False assms(2) by (simp add: not_le)
  also have "\<dots> \<le> length content" by simp
  finally have off: "?off < length content" .
  then have offset: "byteOffsetOf device lba = Inr ?off"
    using False assms(2) sz by (simp add: byteOffsetOf_def Let_def)
  have "bd_readAt device ?off kMbrSectorBytes = Inr (take kMbrSectorBytes (drop ?off content))"
    using assms(1,3) off unfolding serves_def by simp
  then show ?thesis using False off by (auto simp: readTableSector_def offset)
qed

subsection \<open>Interfaces\<close>

text \<open>
  Two sources of the device contract: an image file whose reads the operating system answers
  honestly, and a window on any device that already keeps the contract.
\<close>

locale image_source =
  fixes pread :: pread and content :: bytes and sectorSize :: nat
  assumes honest_source: "honest pread content" and content_fits: "length content \<le> max64"

sublocale image_source \<subseteq> image: block_device
  "bd_size (imageFileDevice pread (length content) sectorSize)"
  "bd_readAt (imageFileDevice pread (length content) sectorSize)" content
  using imageFileDevice_serves [OF honest_source content_fits] by (simp add: serves_block_device)

locale device_window =
  fixes device :: BlockDevice and content :: bytes and start :: nat and len :: nat
  assumes parent_serves: "serves device content" and start_inside: "start \<le> length content"

sublocale device_window \<subseteq> window: block_device
  "bd_size (partitionView device start len)" "bd_readAt (partitionView device start len)"
  "take len (drop start content)"
  using partitionView_serves [OF parent_serves start_inside] by (simp add: serves_block_device)

context device_window
begin

lemma window_reads_parent:
  assumes "off + n \<le> len" and "start + off + n \<le> length content"
  shows "bd_readAt (partitionView device start len) off n = bd_readAt device (start + off) n"
proof -
  have len: "bd_size (partitionView device start len) = length (take len (drop start content))"
    by (rule window.size_content)
  have "bd_readAt (partitionView device start len) off n = Inr (take n (drop off (take len (drop start content))))"
    using assms len by (intro window.read_inside) simp
  moreover have "bd_readAt device (start + off) n = Inr (take n (drop (start + off) content))"
    using parent_serves assms(2) unfolding serves_def by simp
  ultimately show ?thesis using assms(1) by (simp add: drop_take add.commute min_absorb1)
qed

end

definition filePread :: "bytes \<Rightarrow> pread" where
  "filePread content pos n = Inr (take n (drop pos content))"

lemma filePread_honest: "honest (filePread content) content"
  unfolding honest_def filePread_def by blast

lemma filePread_honest_aligned: "honest_aligned (filePread content) content sector"
  unfolding honest_aligned_def filePread_def by blast

interpretation image_file: image_source "filePread (take max64 content)" "take max64 content" sectorSize
  for content :: bytes and sectorSize :: nat
  by unfold_locales (simp_all add: filePread_honest)

definition imageOf :: "bytes \<Rightarrow> BlockDevice" where
  "imageOf content = imageFileDevice (filePread content) (length content) 512"

lemma imageOf_serves: "length content \<le> max64 \<Longrightarrow> serves (imageOf content) content"
  unfolding imageOf_def by (rule imageFileDevice_serves [OF filePread_honest])

interpretation image_prefix: device_window "imageOf (take max64 content)" "take max64 content" 0 len
  for content :: bytes and len :: nat
  by unfold_locales (simp_all add: imageOf_serves)

subsection \<open>Properties\<close>

text \<open>
  A partition view is exactly a slice of its parent: over a device that serves some content, the
  view serves the clamped byte range of it, for every start inside the device and every stated
  length, so that no read through the view reaches a byte outside the partition.
\<close>
theorem partition_view_is_a_slice:
  assumes "serves device content" and "start \<le> length content"
  shows "serves (partitionView device start len) (take len (drop start content))"
  using assms by (rule partitionView_serves)

theorem partition_view_is_a_slice_witness:
  "serves (partitionView (imageOf [1, 2, 3, 4]) 1 9) [2, 3, 4]"
proof -
  have "serves (imageOf [1, 2, 3, 4]) [1, 2, 3, 4]" by (rule imageOf_serves) (simp add: max64_def)
  from partition_view_is_a_slice [OF this, of 1 9] show ?thesis by simp
qed

text \<open>
  A raw device answers unaligned reads correctly although the operating system only performs
  aligned ones: if every sector-aligned read inside the device is answered with the device's
  content, every read at any offset and length is, and every read issued to the operating
  system stays aligned and inside the device.
\<close>
theorem raw_device_hides_alignment:
  assumes "honest_aligned pread content sector" and "0 < sector" and "sector dvd length content"
    and "length content + sector \<le> max64"
  shows "serves (rawDevice pread (length content) sector) content"
  using assms by (rule rawDevice_serves)

theorem raw_device_hides_alignment_witness:
  "serves (rawDevice (filePread [1, 2, 3, 4]) 4 2) [1, 2, 3, 4]"
proof -
  have four: "length [1, 2, 3, 4 :: byte] = 4" by simp
  have "2 dvd length [1, 2, 3, 4 :: byte]" "length [1, 2, 3, 4 :: byte] + 2 \<le> max64" by (simp_all add: max64_def)
  from raw_device_hides_alignment [OF filePread_honest_aligned _ this] show ?thesis by (simp only: four)
qed

end
