(* ===== verification/Caching.thy ===== *)
theory Caching
  imports Devices
begin

text \<open>
  \<open>src/core/io/CachingDevice.cpp\<close>: a least-recently-used cache of aligned blocks over another
  device. \<open>blocks_\<close> is the list of cached blocks, most recently used first; \<open>held_\<close>, which
  maps an index to its node of that list, is the lookup in the list. A read changes the cache, so
  every operation returns the cache it leaves behind beside its result.
\<close>

record CacheShape =
  shape_blockBytes :: size_t
  shape_blockCount :: size_t

record CachingDevice =
  cache_blockBytes :: u64
  cache_blockCount :: size_t
  cache_blocks :: "(u64 \<times> bytes) list"

function bitCeilFrom :: "nat \<Rightarrow> nat \<Rightarrow> nat" where
  "bitCeilFrom n p = (if p = 0 \<or> n \<le> p then p else bitCeilFrom n (2 * p))"
  by pat_completeness auto
termination by (relation "measure (\<lambda>(n, p). n - p)") auto

declare bitCeilFrom.simps [simp del]

definition blockBytesFor :: "CacheShape \<Rightarrow> u32 \<Rightarrow> u64" where
  "blockBytesFor shape sectorSize =
     bitCeilFrom (max (max (shape_blockBytes shape) sectorSize) 1) 1"

definition cachingDevice :: "BlockDevice \<Rightarrow> CacheShape \<Rightarrow> CachingDevice" where
  "cachingDevice source shape =
     \<lparr>cache_blockBytes = blockBytesFor shape (bd_sectorSize source),
      cache_blockCount = max (shape_blockCount shape) 1, cache_blocks = []\<rparr>"

definition heldBlocks :: "CachingDevice \<Rightarrow> size_t" where
  "heldBlocks cache = length (cache_blocks cache)"

definition evictIfFull :: "CachingDevice \<Rightarrow> CachingDevice" where
  "evictIfFull cache =
     (if length (cache_blocks cache) < cache_blockCount cache then cache
      else cache\<lparr>cache_blocks := butlast (cache_blocks cache)\<rparr>)"

definition loadBlock :: "BlockDevice \<Rightarrow> CachingDevice \<Rightarrow> u64 \<Rightarrow> CachingDevice \<times> bytes result" where
  "loadBlock source cache index =
     (case bd_readAt source (index * cache_blockBytes cache) (cache_blockBytes cache) of
        Inl e \<Rightarrow> (cache, Inl e)
      | Inr got \<Rightarrow>
          let emptied = evictIfFull cache
          in (emptied\<lparr>cache_blocks := (index, got) # cache_blocks emptied\<rparr>, Inr got))"

definition blockAt :: "BlockDevice \<Rightarrow> CachingDevice \<Rightarrow> u64 \<Rightarrow> CachingDevice \<times> bytes result" where
  "blockAt source cache index =
     (case map_of (cache_blocks cache) index of
        None \<Rightarrow> loadBlock source cache index
      | Some held \<Rightarrow>
          (cache\<lparr>cache_blocks := (index, held) # filter (\<lambda>b. fst b \<noteq> index) (cache_blocks cache)\<rparr>, Inr held))"

definition copyOneBlock :: "BlockDevice \<Rightarrow> CachingDevice \<Rightarrow> u64 \<Rightarrow> size_t \<Rightarrow> CachingDevice \<times> bytes result" where
  "copyOneBlock source cache off room =
     (let within = off mod cache_blockBytes cache;
          (cache', block) = blockAt source cache (off div cache_blockBytes cache)
      in (cache', mapResult block (\<lambda>held. take (min room (length held - within)) (drop within held))))"

function copyThroughCache ::
  "BlockDevice \<Rightarrow> CachingDevice \<Rightarrow> u64 \<Rightarrow> size_t \<Rightarrow> bytes \<Rightarrow> CachingDevice \<times> bytes result" where
  "copyThroughCache source cache off n sofar =
     (if length sofar < n
      then case copyOneBlock source cache (off + length sofar) (n - length sofar) of
             (cache', Inl e) \<Rightarrow> (cache', Inl e)
           | (cache', Inr step) \<Rightarrow>
               if step = [] then (cache', Inr sofar)
               else copyThroughCache source cache' off n (sofar @ step)
      else (cache, Inr sofar))"
  by pat_completeness auto
termination
  by (relation "measure (\<lambda>(src, c, off, n, sofar). n - length sofar)") (auto intro: diff_less_mono2)

declare copyThroughCache.simps [simp del]

definition cachedReadAt :: "BlockDevice \<Rightarrow> CachingDevice \<Rightarrow> u64 \<Rightarrow> size_t \<Rightarrow> CachingDevice \<times> bytes result" where
  "cachedReadAt source cache off n =
     (case clampReadRange off n (bd_size source) of
        Inl e \<Rightarrow> (cache, Inl e)
      | Inr want \<Rightarrow> copyThroughCache source cache off want [])"

subsection \<open>Invariant\<close>

definition block_of :: "nat \<Rightarrow> bytes \<Rightarrow> nat \<Rightarrow> bytes" where
  "block_of bb content index = take bb (drop (index * bb) content)"

definition cache_ok :: "CachingDevice \<Rightarrow> bytes \<Rightarrow> bool" where
  "cache_ok cache content \<longleftrightarrow>
     0 < cache_blockBytes cache \<and> 0 < cache_blockCount cache \<and>
     length (cache_blocks cache) \<le> cache_blockCount cache \<and> distinct (map fst (cache_blocks cache)) \<and>
     (\<forall>(index, held) \<in> set (cache_blocks cache). held = block_of (cache_blockBytes cache) content index)"

lemma bitCeilFrom_ge: "0 < p \<Longrightarrow> n \<le> bitCeilFrom n p \<and> p \<le> bitCeilFrom n p"
proof (induction n p rule: bitCeilFrom.induct)
  case (1 n p)
  then show ?case by (cases "n \<le> p") (auto simp: bitCeilFrom.simps [of n p])
qed

lemma bitCeilFrom_power: "p = 2 ^ k \<Longrightarrow> \<exists>j. bitCeilFrom n p = 2 ^ j"
proof (induction n p arbitrary: k rule: bitCeilFrom.induct)
  case (1 n p)
  show ?case
  proof (cases "n \<le> p")
    case True
    then have "bitCeilFrom n p = p" by (simp add: bitCeilFrom.simps [of n p])
    then show ?thesis using "1.prems" by blast
  next
    case False
    have "\<exists>j. bitCeilFrom n (2 * p) = 2 ^ j" using False "1.prems" by (intro "1.IH" [of "Suc k"]) simp_all
    moreover have "bitCeilFrom n p = bitCeilFrom n (2 * p)"
      using False "1.prems" by (subst bitCeilFrom.simps) simp
    ultimately show ?thesis by simp
  qed
qed

lemma cachingDevice_ok: "cache_ok (cachingDevice source shape) content"
  using bitCeilFrom_ge [of 1 "max (max (shape_blockBytes shape) (bd_sectorSize source)) 1"]
  by (simp add: cache_ok_def cachingDevice_def blockBytesFor_def)

lemma evictIfFull_ok:
  assumes "cache_ok cache content"
  shows "cache_ok (evictIfFull cache) content" "length (cache_blocks (evictIfFull cache)) < cache_blockCount cache"
    "set (cache_blocks (evictIfFull cache)) \<subseteq> set (cache_blocks cache)"
    "cache_blockBytes (evictIfFull cache) = cache_blockBytes cache"
    "cache_blockCount (evictIfFull cache) = cache_blockCount cache"
  using assms
  by (auto simp: evictIfFull_def cache_ok_def map_butlast distinct_butlast dest: in_set_butlastD)

lemma blockAt_ok:
  assumes src: "serves source content" and ok: "cache_ok cache content"
    and room: "length content + cache_blockBytes cache \<le> max64"
    and inside: "index * cache_blockBytes cache \<le> length content"
  shows "\<exists>cache'. blockAt source cache index = (cache', Inr (block_of (cache_blockBytes cache) content index)) \<and>
    cache_ok cache' content \<and> cache_blockBytes cache' = cache_blockBytes cache"
proof (cases "map_of (cache_blocks cache) index")
  case None
  let ?bb = "cache_blockBytes cache" and ?e = "evictIfFull cache"
  have fresh: "index \<notin> fst ` set (cache_blocks ?e)"
    using None evictIfFull_ok(3) [OF ok] by (auto simp: map_of_eq_None_iff)
  have "bd_readAt source (index * ?bb) ?bb = Inr (block_of ?bb content index)"
    using src room inside unfolding serves_def block_of_def by simp
  then have "blockAt source cache index =
      (?e\<lparr>cache_blocks := (index, block_of ?bb content index) # cache_blocks ?e\<rparr>, Inr (block_of ?bb content index))"
    using None by (simp add: blockAt_def loadBlock_def Let_def)
  then show ?thesis using evictIfFull_ok [OF ok] fresh by (auto simp: cache_ok_def)
next
  case (Some held)
  have mem: "(index, held) \<in> set (cache_blocks cache)" using Some by (rule map_of_SomeD)
  have held: "held = block_of (cache_blockBytes cache) content index" using ok mem by (auto simp: cache_ok_def)
  let ?rest = "filter (\<lambda>b. fst b \<noteq> index) (cache_blocks cache)"
  have "length ?rest < length (cache_blocks cache)" using mem by (intro length_filter_less) auto
  moreover have "distinct (map fst ?rest)" using ok by (simp add: cache_ok_def distinct_map_filter)
  ultimately show ?thesis using ok Some held by (auto simp: blockAt_def cache_ok_def)
qed

subsection \<open>The cached read is the read\<close>

lemma copyOneBlock_ok:
  assumes src: "serves source content" and ok: "cache_ok cache content"
    and room: "length content + cache_blockBytes cache \<le> max64"
    and inside: "off + n \<le> length content" and n: "0 < n"
  shows "\<exists>cache' k. copyOneBlock source cache off n = (cache', Inr (take k (drop off content))) \<and> 0 < k \<and> k \<le> n \<and>
    cache_ok cache' content \<and> cache_blockBytes cache' = cache_blockBytes cache"
proof -
  let ?bb = "cache_blockBytes cache"
  define i w where "i = off div ?bb" and "w = off mod ?bb"
  have bb: "0 < ?bb" using ok by (simp add: cache_ok_def)
  have off: "off = i * ?bb + w" "w < ?bb" using bb by (simp_all add: i_def w_def)
  obtain cache' where at: "blockAt source cache i = (cache', Inr (block_of ?bb content i))"
    "cache_ok cache' content" "cache_blockBytes cache' = ?bb"
    using blockAt_ok [OF src ok room, of i] off inside by auto
  let ?k = "min n (length (block_of ?bb content i) - w)"
  have "length (block_of ?bb content i) = min ?bb (length content - i * ?bb)"
    by (simp add: block_of_def min.commute)
  then have k: "0 < ?k" using off inside n by simp
  have "take ?k (drop w (block_of ?bb content i)) = take ?k (drop off content)"
    using off by (simp add: block_of_def drop_take add.commute min_def)
  then show ?thesis
    using at k by (intro exI [of _ cache'] exI [of _ ?k]) (simp add: copyOneBlock_def Let_def flip: i_def w_def)
qed

lemma copyThroughCache_ok:
  assumes src: "serves source content" and inside: "off + n \<le> length content"
  shows "\<lbrakk>cache_ok cache content; length content + cache_blockBytes cache \<le> max64; length sofar \<le> n;
      sofar = take (length sofar) (drop off content)\<rbrakk> \<Longrightarrow>
    \<exists>cache'. copyThroughCache source cache off n sofar = (cache', Inr (take n (drop off content))) \<and>
      cache_ok cache' content \<and> cache_blockBytes cache' = cache_blockBytes cache"
proof (induction "n - length sofar" arbitrary: cache sofar rule: less_induct)
  case less
  let ?k = "length sofar"
  show ?case
  proof (cases "?k < n")
    case True
    have "off + ?k + (n - ?k) \<le> length content" "0 < n - ?k" using inside True by simp_all
    then obtain cache' k where step: "copyOneBlock source cache (off + ?k) (n - ?k) =
        (cache', Inr (take k (drop (off + ?k) content)))" "0 < k" "k \<le> n - ?k"
      "cache_ok cache' content" "cache_blockBytes cache' = cache_blockBytes cache"
      using copyOneBlock_ok [OF src less.prems(1,2)] by blast
    define new where "new = take k (drop (off + ?k) content)"
    have len: "length new = k" using step(3) inside True by (simp add: new_def)
    have "take (?k + k) (drop off content) = take ?k (drop off content) @ new"
      using take_add [of ?k k "drop off content"] by (simp add: new_def add.commute)
    then have "sofar @ new = take (length (sofar @ new)) (drop off content)" using less.prems(4) len by simp
    moreover have "n - length (sofar @ new) < n - ?k" "length (sofar @ new) \<le> n" using len step(2,3) True by simp_all
    moreover have "length content + cache_blockBytes cache' \<le> max64" using less.prems(2) step(5) by simp
    ultimately obtain cache'' where "copyThroughCache source cache' off n (sofar @ new) =
        (cache'', Inr (take n (drop off content)))" "cache_ok cache'' content"
      "cache_blockBytes cache'' = cache_blockBytes cache'"
      using less.hyps step(4) by blast
    moreover have "copyThroughCache source cache off n sofar = copyThroughCache source cache' off n (sofar @ new)"
      using True step(1,2) len by (subst copyThroughCache.simps) (auto simp flip: new_def)
    ultimately show ?thesis using step(5) by simp
  next
    case False
    then show ?thesis using less.prems by (subst copyThroughCache.simps) simp
  qed
qed

lemma cachedReadAt_ok:
  assumes src: "serves source content" and ok: "cache_ok cache content"
    and room: "length content + cache_blockBytes cache \<le> max64"
    and range: "off \<le> length content" "off + n \<le> max64"
  shows "\<exists>cache'. cachedReadAt source cache off n = (cache', Inr (take n (drop off content))) \<and>
    cache_ok cache' content \<and> cache_blockBytes cache' = cache_blockBytes cache"
proof -
  let ?want = "min n (length content - off)"
  have "clampReadRange off n (bd_size source) = Inr ?want"
    using src range by (simp add: serves_def clampReadRange_eq)
  moreover have "take ?want (drop off content) = take n (drop off content)" by (simp add: min_def)
  moreover have "off + ?want \<le> length content" using range by simp
  moreover obtain cache' where "copyThroughCache source cache off ?want [] = (cache', Inr (take ?want (drop off content)))"
    "cache_ok cache' content" "cache_blockBytes cache' = cache_blockBytes cache"
    using copyThroughCache_ok [OF src \<open>off + ?want \<le> length content\<close> ok room, of "[]"] by auto
  ultimately show ?thesis by (simp add: cachedReadAt_def)
qed

fun cachedReads :: "BlockDevice \<Rightarrow> CachingDevice \<Rightarrow> (u64 \<times> size_t) list \<Rightarrow> CachingDevice \<times> bytes result list" where
  "cachedReads source cache [] = (cache, [])"
| "cachedReads source cache ((off, n) # rest) =
     (let (cache', got) = cachedReadAt source cache off n;
          (cache'', others) = cachedReads source cache' rest
      in (cache'', got # others))"

lemma cachedReads_ok:
  "serves source content \<Longrightarrow> cache_ok cache content \<Longrightarrow> length content + cache_blockBytes cache \<le> max64 \<Longrightarrow>
   list_all (\<lambda>(off, n). off \<le> length content \<and> off + n \<le> max64) reads \<Longrightarrow>
   \<exists>cache'. cachedReads source cache reads = (cache', map (\<lambda>(off, n). bd_readAt source off n) reads) \<and>
     cache_ok cache' content"
proof (induction reads arbitrary: cache)
  case (Cons r reads)
  obtain off n where r: "r = (off, n)" by (cases r)
  then have range: "off \<le> length content" "off + n \<le> max64" using Cons.prems(4) by simp_all
  obtain cache' where one: "cachedReadAt source cache off n = (cache', Inr (take n (drop off content)))"
    "cache_ok cache' content" "cache_blockBytes cache' = cache_blockBytes cache"
    using cachedReadAt_ok [OF Cons.prems(1-3) range] by blast
  have direct: "bd_readAt source off n = Inr (take n (drop off content))"
    using Cons.prems(1) range unfolding serves_def by simp
  obtain cache'' where "cachedReads source cache' reads = (cache'', map (\<lambda>(off, n). bd_readAt source off n) reads)"
    "cache_ok cache'' content"
    using Cons.IH [of cache'] Cons.prems one by auto
  then show ?case using one(1) direct by (simp add: r)
qed simp

subsection \<open>Properties\<close>

text \<open>
  C37: The block cache is invisible: whatever sequence of reads goes through a freshly built cache of
  any shape, hits, misses and evictions included, every read answers what the device below
  would have answered, and the cache never holds more blocks than it was given room for.
\<close>
theorem cache_is_transparent:
  assumes "serves source content" and "cache = cachingDevice source shape"
    and "length content + cache_blockBytes cache \<le> max64"
    and "list_all (\<lambda>(off, n). off \<le> length content \<and> off + n \<le> max64) reads"
  shows "snd (cachedReads source cache reads) = map (\<lambda>(off, n). bd_readAt source off n) reads \<and>
    heldBlocks (fst (cachedReads source cache reads)) \<le> cache_blockCount (fst (cachedReads source cache reads))"
proof -
  have "cache_ok cache content" using assms(2) cachingDevice_ok by simp
  from cachedReads_ok [OF assms(1) this assms(3,4)] show ?thesis by (auto simp: cache_ok_def heldBlocks_def)
qed

theorem cache_is_transparent_witness:
  "let dev = imageOf [1, 2, 3, 4, 5]; cache = cachingDevice dev \<lparr>shape_blockBytes = 2, shape_blockCount = 1\<rparr>
   in snd (cachedReads dev cache [(1, 3), (0, 9)]) = [Inr [2, 3, 4], Inr [1, 2, 3, 4, 5]]"
proof -
  define content where "content = [1, 2, 3, 4, 5 :: byte]"
  define dev where "dev = imageOf content"
  define cache where "cache = cachingDevice dev \<lparr>shape_blockBytes = 2, shape_blockCount = 1\<rparr>"
  have src: "serves dev content" unfolding dev_def by (rule imageOf_serves) (simp add: content_def max64_def)
  have "cache_blockBytes cache = 512"
    by (simp add: cache_def dev_def cachingDevice_def blockBytesFor_def imageOf_def imageFileDevice_def bitCeilFrom.simps)
  then have room: "length content + cache_blockBytes cache \<le> max64" by (simp add: content_def max64_def)
  have "list_all (\<lambda>(off, n). off \<le> length content \<and> off + n \<le> max64) [(1, 3), (0, 9)]"
    by (simp add: content_def max64_def)
  from cache_is_transparent [OF src cache_def room this]
  have "snd (cachedReads dev cache [(1, 3), (0, 9)]) = [bd_readAt dev 1 3, bd_readAt dev 0 9]" by simp
  also have "\<dots> = [Inr [2, 3, 4], Inr [1, 2, 3, 4, 5]]"
    using src unfolding serves_def by (simp add: content_def max64_def)
  finally show ?thesis by (simp add: Let_def cache_def dev_def content_def)
qed

end
