(* ===== verification/Retrying.thy ===== *)
theory Retrying
  imports Devices
begin

text \<open>
  \<open>src/core/io/RetryingDevice.cpp\<close>: the layer every run reads its source through. The device
  below may answer the same request differently each time it is asked, so it is a function from
  a state it keeps to itself; the retrying device's own fields are the map of damaged ranges and
  the run of damage that decides when a device counts as gone. The pause between attempts has
  no effect on any of them.
\<close>

type_synonym 's source = "'s \<Rightarrow> u64 \<Rightarrow> size_t \<Rightarrow> 's \<times> bytes result"

record BadRange =
  br_offsetBytes :: u64
  br_lengthBytes :: u64

record 's RetryingDevice =
  rd_source :: 's
  rd_bad :: "BadRange list"
  rd_contiguousLost :: u64
  rd_lostRunStart :: u64

definition kLostSourceRunBytes :: u64 where "kLostSourceRunBytes = 2 ^ 20"

definition retryingDevice :: "'s \<Rightarrow> 's RetryingDevice" where
  "retryingDevice s = \<lparr>rd_source = s, rd_bad = [], rd_contiguousLost = 0, rd_lostRunStart = 0\<rparr>"

definition badEnd :: "BadRange \<Rightarrow> u64" where
  "badEnd hole = wrap64 (br_offsetBytes hole + br_lengthBytes hole)"

fun retryLoop :: "'s source \<Rightarrow> u64 \<Rightarrow> size_t \<Rightarrow> nat \<Rightarrow> 's \<times> bytes result \<Rightarrow> 's \<times> bytes result" where
  "retryLoop src off n 0 (s, got) = (s, got)"
| "retryLoop src off n (Suc attempts) (s, got) =
     (if hasValue got then (s, got) else retryLoop src off n attempts (src s off n))"

definition attemptRead :: "'s source \<Rightarrow> nat \<Rightarrow> 's \<Rightarrow> u64 \<Rightarrow> size_t \<Rightarrow> 's \<times> bytes result" where
  "attemptRead src attempts s off n = retryLoop src off n (attempts - 1) (src s off n)"

definition coalesceInto :: "BadRange list \<Rightarrow> BadRange \<Rightarrow> BadRange list" where
  "coalesceInto merged one =
     (if merged \<noteq> [] \<and> br_offsetBytes one \<le> badEnd (last merged)
      then butlast merged @
             [(last merged)\<lparr>br_lengthBytes := max (badEnd (last merged)) (badEnd one) - br_offsetBytes (last merged)\<rparr>]
      else merged @ [one])"

definition coalesce :: "BadRange list \<Rightarrow> BadRange list" where
  "coalesce bad = foldl coalesceInto [] bad"

definition recordBad :: "BadRange list \<Rightarrow> BadRange \<Rightarrow> BadRange list" where
  "recordBad bad hole =
     coalesce (takeWhile (\<lambda>b. br_offsetBytes b \<le> br_offsetBytes hole) bad @ hole #
               dropWhile (\<lambda>b. br_offsetBytes b \<le> br_offsetBytes hole) bad)"

definition giveUpOn :: "'s RetryingDevice \<Rightarrow> u64 \<Rightarrow> size_t \<Rightarrow> 's RetryingDevice" where
  "giveUpOn dev off cnt =
     dev\<lparr>rd_bad := recordBad (rd_bad dev) \<lparr>br_offsetBytes = off, br_lengthBytes = cnt\<rparr>,
         rd_lostRunStart := (if rd_contiguousLost dev = 0 then off else rd_lostRunStart dev),
         rd_contiguousLost := wrap64 (rd_contiguousLost dev + cnt)\<rparr>"

definition readOneSector ::
  "'s source \<Rightarrow> nat \<Rightarrow> u32 \<Rightarrow> 's RetryingDevice \<Rightarrow> u64 \<Rightarrow> size_t \<Rightarrow> 's RetryingDevice \<times> bytes" where
  "readOneSector src attempts sectorSize dev off n =
     (let cnt = min n sectorSize;
          (s, got) = attemptRead src attempts (rd_source dev) off cnt;
          dev = dev\<lparr>rd_source := s\<rparr>
      in case got of
           Inr bs \<Rightarrow> (dev\<lparr>rd_contiguousLost := 0\<rparr>, bs)
         | Inl _ \<Rightarrow> (giveUpOn dev off cnt, replicate cnt 0))"

function fillSectorwise ::
  "'s source \<Rightarrow> nat \<Rightarrow> u32 \<Rightarrow> 's RetryingDevice \<Rightarrow> u64 \<Rightarrow> size_t \<Rightarrow> bytes \<Rightarrow> 's RetryingDevice \<times> bytes" where
  "fillSectorwise src attempts sectorSize dev off n sofar =
     (if length sofar < n \<and> rd_contiguousLost dev < kLostSourceRunBytes
      then case readOneSector src attempts sectorSize dev (wrap64 (off + length sofar)) (n - length sofar) of
             (dev', step) \<Rightarrow> if step = [] then (dev', sofar)
                             else fillSectorwise src attempts sectorSize dev' off n (sofar @ step)
      else (dev, sofar))"
  by pat_completeness auto
termination
  by (relation "measure (\<lambda>(src, a, ss, dev, off, n, sofar). n - length sofar)") (auto intro: diff_less_mono2)

declare fillSectorwise.simps [simp del]

definition readSectorwise ::
  "'s source \<Rightarrow> nat \<Rightarrow> u32 \<Rightarrow> 's RetryingDevice \<Rightarrow> u64 \<Rightarrow> size_t \<Rightarrow> 's RetryingDevice \<times> bytes result" where
  "readSectorwise src attempts sectorSize dev off n =
     (let (dev', filled) = fillSectorwise src attempts sectorSize dev off n []
      in if rd_contiguousLost dev' \<ge> kLostSourceRunBytes
         then (dev', Inl (mkError kSourceLost (rd_lostRunStart dev')))
         else (dev', Inr filled))"

definition retryingReadAt ::
  "'s source \<Rightarrow> nat \<Rightarrow> u32 \<Rightarrow> 's RetryingDevice \<Rightarrow> u64 \<Rightarrow> size_t \<Rightarrow> 's RetryingDevice \<times> bytes result" where
  "retryingReadAt src attempts sectorSize dev off n =
     (let (s, whole) = attemptRead src attempts (rd_source dev) off n;
          dev = dev\<lparr>rd_source := s\<rparr>
      in case whole of
           Inr got \<Rightarrow> (dev\<lparr>rd_contiguousLost := 0\<rparr>, Inr got)
         | Inl _ \<Rightarrow> readSectorwise src attempts sectorSize dev off n)"

subsection \<open>Meaning\<close>

definition badBytes :: "BadRange list \<Rightarrow> nat set" where
  "badBytes bad = (\<Union>b \<in> set bad. {br_offsetBytes b..<br_offsetBytes b + br_lengthBytes b})"

definition bad_fits :: "BadRange \<Rightarrow> bool" where
  "bad_fits b \<longleftrightarrow> br_offsetBytes b + br_lengthBytes b \<le> max64"

definition bad_ok :: "BadRange list \<Rightarrow> bool" where
  "bad_ok bad \<longleftrightarrow> list_all bad_fits bad \<and> sorted_wrt (\<lambda>a b. br_offsetBytes a + br_lengthBytes a < br_offsetBytes b) bad"

definition honest_answers :: "'s source \<Rightarrow> bytes \<Rightarrow> bool" where
  "honest_answers src content \<longleftrightarrow>
     (\<forall>s off n s' bs. src s off n = (s', Inr bs) \<longrightarrow> bs = take n (drop off content))"

definition accounted_for :: "bytes \<Rightarrow> nat set \<Rightarrow> nat \<Rightarrow> bytes \<Rightarrow> bool" where
  "accounted_for content bad off bs \<longleftrightarrow>
     (\<forall>i < length bs. off + i < length content \<and> bs ! i = content ! (off + i) \<or> off + i \<in> bad \<and> bs ! i = 0)"

subsection \<open>The map of damage is a set\<close>

lemma badBytes_simps [simp]:
  "badBytes [] = {}" "badBytes (b # bs) = {br_offsetBytes b..<br_offsetBytes b + br_lengthBytes b} \<union> badBytes bs"
  "badBytes (xs @ ys) = badBytes xs \<union> badBytes ys"
  by (auto simp: badBytes_def)

lemma badEnd_fits [simp]: "bad_fits b \<Longrightarrow> badEnd b = br_offsetBytes b + br_lengthBytes b"
  by (simp add: bad_fits_def badEnd_def)

lemma bad_ok_append:
  "bad_ok (xs @ ys) \<longleftrightarrow> bad_ok xs \<and> bad_ok ys \<and>
     (\<forall>x \<in> set xs. \<forall>y \<in> set ys. br_offsetBytes x + br_lengthBytes x < br_offsetBytes y)"
  by (auto simp: bad_ok_def sorted_wrt_append)

lemma bad_ok_single: "bad_ok [b] \<longleftrightarrow> bad_fits b"
  by (simp add: bad_ok_def)

lemma coalesceInto_spec:
  assumes "bad_ok merged" and "bad_fits one" and "merged \<noteq> [] \<longrightarrow> br_offsetBytes (last merged) \<le> br_offsetBytes one"
  shows "bad_ok (coalesceInto merged one) \<and> badBytes (coalesceInto merged one) =
    badBytes merged \<union> {br_offsetBytes one..<br_offsetBytes one + br_lengthBytes one} \<and>
    coalesceInto merged one \<noteq> [] \<and> br_offsetBytes (last (coalesceInto merged one)) \<le> br_offsetBytes one"
proof (cases "merged = []")
  case True
  then show ?thesis using assms(2) by (simp add: coalesceInto_def bad_ok_single)
next
  case False
  then obtain front prev where m: "merged = front @ [prev]" by (metis append_butlast_last_id)
  have fits: "bad_fits prev" and front: "bad_ok front"
    "\<forall>x \<in> set front. br_offsetBytes x + br_lengthBytes x < br_offsetBytes prev"
    using assms(1) by (auto simp: m bad_ok_append bad_ok_single)
  have le: "br_offsetBytes prev \<le> br_offsetBytes one" using assms(3) by (simp add: m)
  show ?thesis
  proof (cases "br_offsetBytes one \<le> br_offsetBytes prev + br_lengthBytes prev")
    case True
    define len where "len = max (badEnd prev) (badEnd one) - br_offsetBytes prev"
    have res: "coalesceInto merged one = front @ [prev\<lparr>br_lengthBytes := len\<rparr>]"
      using True fits by (simp add: coalesceInto_def m len_def)
    have end': "br_offsetBytes prev + len = max (br_offsetBytes prev + br_lengthBytes prev) (br_offsetBytes one + br_lengthBytes one)"
      using fits assms(2) by (simp add: len_def)
    have "bad_fits (prev\<lparr>br_lengthBytes := len\<rparr>)" using end' fits assms(2) by (simp add: bad_fits_def)
    moreover have "{br_offsetBytes prev..<br_offsetBytes prev + len} =
        {br_offsetBytes prev..<br_offsetBytes prev + br_lengthBytes prev} \<union>
        {br_offsetBytes one..<br_offsetBytes one + br_lengthBytes one}"
      unfolding end' using True le by auto
    ultimately show ?thesis unfolding res using front le by (auto simp: m bad_ok_append bad_ok_single)
  next
    case False
    then have res: "coalesceInto merged one = merged @ [one]" using fits by (simp add: coalesceInto_def m)
    have "\<forall>x \<in> set merged. br_offsetBytes x + br_lengthBytes x < br_offsetBytes one"
      using False front(2) le by (force simp: m)
    then show ?thesis unfolding res using assms(1,2) by (simp add: bad_ok_append bad_ok_single)
  qed
qed

lemma coalesce_foldl:
  "bad_ok merged \<Longrightarrow> list_all bad_fits bad \<Longrightarrow> sorted (map br_offsetBytes bad) \<Longrightarrow>
   (merged \<noteq> [] \<longrightarrow> (\<forall>b \<in> set bad. br_offsetBytes (last merged) \<le> br_offsetBytes b)) \<Longrightarrow>
   bad_ok (foldl coalesceInto merged bad) \<and> badBytes (foldl coalesceInto merged bad) = badBytes merged \<union> badBytes bad"
proof (induction bad arbitrary: merged)
  case (Cons b bad)
  have step: "bad_ok (coalesceInto merged b)" "badBytes (coalesceInto merged b) =
    badBytes merged \<union> {br_offsetBytes b..<br_offsetBytes b + br_lengthBytes b}"
    "br_offsetBytes (last (coalesceInto merged b)) \<le> br_offsetBytes b"
    using coalesceInto_spec [of merged b] Cons.prems by auto
  have "bad_ok (foldl coalesceInto (coalesceInto merged b) bad) \<and>
      badBytes (foldl coalesceInto (coalesceInto merged b) bad) = badBytes (coalesceInto merged b) \<union> badBytes bad"
    using Cons.prems step by (intro Cons.IH) auto
  then show ?case using step(2) by auto
qed simp

lemma bad_ok_sorted: "bad_ok bad \<Longrightarrow> sorted (map br_offsetBytes bad)"
  by (induction bad) (fastforce simp: bad_ok_def)+

lemma recordBad_spec:
  assumes ok: "bad_ok bad" and r: "bad_fits hole"
  shows "bad_ok (recordBad bad hole)"
    and "badBytes (recordBad bad hole) = badBytes bad \<union> {br_offsetBytes hole..<br_offsetBytes hole + br_lengthBytes hole}"
proof -
  define xs ys where "xs = takeWhile (\<lambda>b. br_offsetBytes b \<le> br_offsetBytes hole) bad"
    and "ys = dropWhile (\<lambda>b. br_offsetBytes b \<le> br_offsetBytes hole) bad"
  have bad: "bad = xs @ ys" by (simp add: xs_def ys_def)
  have sorted: "sorted (map br_offsetBytes (xs @ ys))" using bad_ok_sorted [OF ok] bad by simp
  have low: "\<forall>x \<in> set xs. br_offsetBytes x \<le> br_offsetBytes hole"
    by (auto simp: xs_def dest: set_takeWhileD)
  have high: "\<forall>y \<in> set ys. br_offsetBytes hole \<le> br_offsetBytes y"
  proof (cases ys)
    case (Cons y ys')
    then have "\<not> br_offsetBytes y \<le> br_offsetBytes hole"
      using hd_dropWhile [of "\<lambda>b. br_offsetBytes b \<le> br_offsetBytes hole" bad] by (simp flip: ys_def)
    then show ?thesis using sorted Cons by (auto simp: sorted_append)
  qed simp
  have "sorted (map br_offsetBytes (xs @ hole # ys))" using sorted low high by (auto simp: sorted_append)
  moreover have "list_all bad_fits (xs @ hole # ys)" using ok r by (simp add: bad bad_ok_def)
  ultimately have "bad_ok (coalesce (xs @ hole # ys)) \<and> badBytes (coalesce (xs @ hole # ys)) = badBytes (xs @ hole # ys)"
    using coalesce_foldl [of "[]" "xs @ hole # ys"] by (simp add: coalesce_def bad_ok_def)
  then show "bad_ok (recordBad bad hole)"
    "badBytes (recordBad bad hole) = badBytes bad \<union> {br_offsetBytes hole..<br_offsetBytes hole + br_lengthBytes hole}"
    unfolding recordBad_def xs_def [symmetric] ys_def [symmetric] by (auto simp: bad)
qed

subsection \<open>Every byte handed back is the source's or confessed\<close>

lemma retryLoop_honest:
  assumes "honest_answers src content"
  shows "(\<forall>bs. got = Inr bs \<longrightarrow> bs = take n (drop off content)) \<Longrightarrow>
    retryLoop src off n attempts (s, got) = (s', Inr bs) \<Longrightarrow> bs = take n (drop off content)"
proof (induction attempts arbitrary: s got)
  case (Suc attempts)
  show ?case
  proof (cases "hasValue got")
    case False
    obtain t g where step: "src s off n = (t, g)" by (cases "src s off n")
    have "\<forall>bs. g = Inr bs \<longrightarrow> bs = take n (drop off content)"
      using assms step unfolding honest_answers_def by blast
    then show ?thesis using Suc.IH [of g t] Suc.prems(2) False step by simp
  qed (use Suc.prems in simp)
qed simp

lemma attemptRead_honest:
  assumes "honest_answers src content" and "attemptRead src attempts s off n = (s', Inr bs)"
  shows "bs = take n (drop off content)"
proof -
  obtain t g where step: "src s off n = (t, g)" by (cases "src s off n")
  have first: "\<forall>bs. g = Inr bs \<longrightarrow> bs = take n (drop off content)"
    using assms(1) step unfolding honest_answers_def by blast
  have "retryLoop src off n (attempts - 1) (t, g) = (s', Inr bs)"
    using assms(2) unfolding attemptRead_def step .
  then show ?thesis by (rule retryLoop_honest [OF assms(1) first])
qed

lemma accounted_for_mono: "accounted_for content bad off bs \<Longrightarrow> bad \<subseteq> bad' \<Longrightarrow> accounted_for content bad' off bs"
  unfolding accounted_for_def by blast

lemma accounted_for_content: "accounted_for content bad off (take n (drop off content))"
  by (auto simp: accounted_for_def)

lemma accounted_for_zeros: "{off..<off + n} \<subseteq> bad \<Longrightarrow> accounted_for content bad off (replicate n 0)"
  by (auto simp: accounted_for_def subset_iff)

lemma accounted_for_append:
  assumes "accounted_for content bad off xs" and "accounted_for content bad (off + length xs) ys"
  shows "accounted_for content bad off (xs @ ys)"
  unfolding accounted_for_def
proof (intro allI impI)
  fix i assume i: "i < length (xs @ ys)"
  show "off + i < length content \<and> (xs @ ys) ! i = content ! (off + i) \<or> off + i \<in> bad \<and> (xs @ ys) ! i = 0"
  proof (cases "i < length xs")
    case True
    then show ?thesis using assms(1) by (simp add: accounted_for_def nth_append)
  next
    case False
    then have "i - length xs < length ys" "off + length xs + (i - length xs) = off + i" using i by auto
    then show ?thesis using assms(2) False unfolding accounted_for_def
      by (metis (no_types, lifting) nth_append)
  qed
qed

lemma readOneSector_spec:
  assumes h: "honest_answers src content" and ok: "bad_ok (rd_bad dev)" and fits: "off + n \<le> max64"
    and run: "readOneSector src attempts sectorSize dev off n = (dev', bs)"
  shows "bad_ok (rd_bad dev')" "badBytes (rd_bad dev) \<subseteq> badBytes (rd_bad dev')"
    "badBytes (rd_bad dev') \<subseteq> badBytes (rd_bad dev) \<union> {off..<off + n}"
    "accounted_for content (badBytes (rd_bad dev')) off bs" "length bs \<le> n"
    "bs = [] \<Longrightarrow> 0 < n \<Longrightarrow> 0 < sectorSize \<Longrightarrow> length content \<le> off"
proof -
  let ?cnt = "min n sectorSize"
  obtain s got where att: "attemptRead src attempts (rd_source dev) off ?cnt = (s, got)"
    by (cases "attemptRead src attempts (rd_source dev) off ?cnt")
  have "bad_ok (rd_bad dev') \<and> badBytes (rd_bad dev) \<subseteq> badBytes (rd_bad dev') \<and>
    badBytes (rd_bad dev') \<subseteq> badBytes (rd_bad dev) \<union> {off..<off + n} \<and>
    accounted_for content (badBytes (rd_bad dev')) off bs \<and> length bs \<le> n \<and>
    (bs = [] \<and> 0 < n \<and> 0 < sectorSize \<longrightarrow> length content \<le> off)"
  proof (cases got)
    case (Inr read)
    have "read = take ?cnt (drop off content)" using attemptRead_honest [OF h] att Inr by simp
    then have "dev' = dev\<lparr>rd_source := s, rd_contiguousLost := 0\<rparr>" "bs = take ?cnt (drop off content)"
      using run att Inr by (simp_all add: readOneSector_def Let_def)
    then show ?thesis using ok accounted_for_content by auto
  next
    case (Inl e)
    define hole where "hole = \<lparr>br_offsetBytes = off, br_lengthBytes = ?cnt\<rparr>"
    have bad: "rd_bad dev' = recordBad (rd_bad dev) hole" and bs: "bs = replicate ?cnt 0"
      using run att Inl by (auto simp: readOneSector_def Let_def giveUpOn_def hole_def)
    have "bad_fits hole" using fits by (simp add: bad_fits_def hole_def)
    note rec = recordBad_spec [OF ok this]
    have covered: "badBytes (rd_bad dev') = badBytes (rd_bad dev) \<union> {off..<off + ?cnt}"
      using rec(2) bad by (simp add: hole_def)
    moreover have "{off..<off + ?cnt} \<subseteq> {off..<off + n}" by auto
    moreover have "accounted_for content (badBytes (rd_bad dev')) off bs"
      unfolding bs using covered by (intro accounted_for_zeros) simp
    moreover have "bad_ok (rd_bad dev')" using rec(1) bad by simp
    moreover have "length bs \<le> n" "bs = [] \<and> 0 < n \<and> 0 < sectorSize \<longrightarrow> length content \<le> off" by (auto simp: bs min_def)
    ultimately show ?thesis by blast
  qed
  then show "bad_ok (rd_bad dev')" "badBytes (rd_bad dev) \<subseteq> badBytes (rd_bad dev')"
    "badBytes (rd_bad dev') \<subseteq> badBytes (rd_bad dev) \<union> {off..<off + n}"
    "accounted_for content (badBytes (rd_bad dev')) off bs" "length bs \<le> n"
    "bs = [] \<Longrightarrow> 0 < n \<Longrightarrow> 0 < sectorSize \<Longrightarrow> length content \<le> off" by blast+
qed

text \<open>What a read of one stretch of the device leaves behind.\<close>

definition told_truth :: "bytes \<Rightarrow> u32 \<Rightarrow> 's RetryingDevice \<Rightarrow> 's RetryingDevice \<Rightarrow> nat \<Rightarrow> nat \<Rightarrow> bytes \<Rightarrow> bool" where
  "told_truth content sectorSize dev dev' off n bs \<longleftrightarrow>
     bad_ok (rd_bad dev') \<and> badBytes (rd_bad dev) \<subseteq> badBytes (rd_bad dev') \<and>
     badBytes (rd_bad dev') \<subseteq> badBytes (rd_bad dev) \<union> {off..<off + n} \<and>
     accounted_for content (badBytes (rd_bad dev')) off bs \<and> length bs \<le> n \<and>
     (0 < sectorSize \<and> length bs < n \<and> rd_contiguousLost dev' < kLostSourceRunBytes \<longrightarrow> length content \<le> off + length bs)"

lemma fillSectorwise_spec:
  assumes h: "honest_answers src content" and fits: "off + n \<le> max64"
  shows "\<lbrakk>told_truth content 0 dev0 dev off n sofar; bad_ok (rd_bad dev0);
      fillSectorwise src attempts sectorSize dev off n sofar = (dev', bs)\<rbrakk> \<Longrightarrow>
    told_truth content sectorSize dev0 dev' off n bs"
proof (induction "n - length sofar" arbitrary: dev sofar rule: less_induct)
  case less
  let ?k = "length sofar"
  have t: "bad_ok (rd_bad dev)" "badBytes (rd_bad dev0) \<subseteq> badBytes (rd_bad dev)"
    "badBytes (rd_bad dev) \<subseteq> badBytes (rd_bad dev0) \<union> {off..<off + n}"
    "accounted_for content (badBytes (rd_bad dev)) off sofar" "?k \<le> n"
    using less.prems(1) by (simp_all add: told_truth_def)
  show ?case
  proof (cases "?k < n \<and> rd_contiguousLost dev < kLostSourceRunBytes")
    case True
    have at: "wrap64 (off + ?k) = off + ?k" using fits True by simp
    obtain mid step where one: "readOneSector src attempts sectorSize dev (off + ?k) (n - ?k) = (mid, step)"
      by (cases "readOneSector src attempts sectorSize dev (off + ?k) (n - ?k)")
    have room: "off + ?k + (n - ?k) \<le> max64" using fits True by simp
    note s = readOneSector_spec [OF h t(1) room one]
    have unfold: "fillSectorwise src attempts sectorSize dev off n sofar =
        (if step = [] then (mid, sofar) else fillSectorwise src attempts sectorSize mid off n (sofar @ step))"
      using True one at by (subst fillSectorwise.simps) simp
    have bad: "badBytes (rd_bad dev0) \<subseteq> badBytes (rd_bad mid)"
      "badBytes (rd_bad mid) \<subseteq> badBytes (rd_bad dev0) \<union> {off..<off + n}"
      using t(2,3) s(2,3) True by (auto 0 3)
    have acc: "accounted_for content (badBytes (rd_bad mid)) off (sofar @ step)"
      using accounted_for_append accounted_for_mono [OF t(4) s(2)] s(4) by blast
    show ?thesis
    proof (cases "step = []")
      case True
      then have "dev' = mid" "bs = sofar" using less.prems(3) unfold by simp_all
      moreover have "0 < sectorSize \<longrightarrow> length content \<le> off + ?k" using s(6) True \<open>?k < n \<and> _\<close> by simp
      ultimately show ?thesis using s(1) bad acc t(5) True by (simp add: told_truth_def)
    next
      case False
      have "length (sofar @ step) \<le> n" using s(5) True by simp linarith
      then have "told_truth content 0 dev0 mid off n (sofar @ step)"
        using s(1,5) bad acc True by (simp add: told_truth_def)
      moreover have "n - length (sofar @ step) < n - ?k" using False True by (simp add: diff_less_mono2)
      moreover have "fillSectorwise src attempts sectorSize mid off n (sofar @ step) = (dev', bs)"
        using less.prems(3) unfold False by simp
      ultimately show ?thesis using less.hyps less.prems(2) by blast
    qed
  next
    case False
    then have "dev' = dev" "bs = sofar" using less.prems(3) by (subst (asm) fillSectorwise.simps, auto)+
    then show ?thesis using t False by (auto simp: told_truth_def)
  qed
qed

lemma retryingReadAt_spec:
  assumes h: "honest_answers src content" and ok: "bad_ok (rd_bad dev)" and fits: "off + n \<le> max64"
    and run: "retryingReadAt src attempts sectorSize dev off n = (dev', res)"
  shows "(\<exists>bs. res = Inr bs \<and> told_truth content sectorSize dev dev' off n bs \<and> rd_contiguousLost dev' < kLostSourceRunBytes) \<or>
    (res = Inl (mkError kSourceLost (rd_lostRunStart dev')) \<and> kLostSourceRunBytes \<le> rd_contiguousLost dev' \<and>
     bad_ok (rd_bad dev') \<and> badBytes (rd_bad dev) \<subseteq> badBytes (rd_bad dev'))"
proof -
  obtain s whole where att: "attemptRead src attempts (rd_source dev) off n = (s, whole)"
    by (cases "attemptRead src attempts (rd_source dev) off n")
  let ?dev = "dev\<lparr>rd_source := s\<rparr>"
  show ?thesis
  proof (cases whole)
    case (Inr got)
    then have got: "got = take n (drop off content)" using attemptRead_honest [OF h] att by simp
    have "dev' = ?dev\<lparr>rd_contiguousLost := 0\<rparr>" "res = Inr got" using run att Inr by (simp_all add: retryingReadAt_def)
    then show ?thesis using ok got accounted_for_content by (auto simp: told_truth_def kLostSourceRunBytes_def)
  next
    case (Inl e)
    obtain mid bs where fill: "fillSectorwise src attempts sectorSize ?dev off n [] = (mid, bs)"
      by (cases "fillSectorwise src attempts sectorSize ?dev off n []")
    have "told_truth content 0 dev ?dev off n []" using ok by (auto simp: told_truth_def accounted_for_def)
    then have truth: "told_truth content sectorSize dev mid off n bs"
      using fillSectorwise_spec [OF h fits _ ok fill] by simp
    have "retryingReadAt src attempts sectorSize dev off n =
        (if rd_contiguousLost mid \<ge> kLostSourceRunBytes then (mid, Inl (mkError kSourceLost (rd_lostRunStart mid)))
         else (mid, Inr bs))"
      using att Inl fill by (simp add: retryingReadAt_def readSectorwise_def)
    then show ?thesis using run truth by (auto simp: told_truth_def split: if_splits)
  qed
qed

subsection \<open>Properties\<close>


definition brokenSource :: "bytes \<Rightarrow> nat \<Rightarrow> unit source" where
  "brokenSource content hole s off n =
     (s, if off \<le> hole \<and> hole < off + n then Inl (mkError kIoFailure off) else Inr (take n (drop off content)))"

lemma brokenSource_honest: "honest_answers (brokenSource content hole) content"
  unfolding honest_answers_def brokenSource_def by auto


end
