(* ===== verification/Mbr.thy ===== *)
theory Mbr
  imports Devices
begin

text \<open>
  \<open>src/volume/Mbr.cpp\<close>, \<open>MbrPlacement.cpp\<close>, \<open>MbrPartitions.cpp\<close> and
  \<open>ExtendedChain.cpp\<close>: the master boot record, its four slots, and the chain of extended boot
  records hanging off a container slot. \<open>ChainWalk\<close> keeps its members as a record; its loop
  ends because every link it follows is a sector of the device it has not stood on before.
\<close>

subsection \<open>The table\<close>

definition kTableOffset :: u64 where "kTableOffset = 0x1BE"
definition kEntryBytes :: u64 where "kEntryBytes = 16"
definition kSignatureOffset :: u64 where "kSignatureOffset = 0x1FE"
definition kTableSignature :: u16 where "kTableSignature = 0xAA55"
definition kStatusField :: u64 where "kStatusField = 0x00"
definition kTypeField :: u64 where "kTypeField = 0x04"
definition kStartLbaField :: u64 where "kStartLbaField = 0x08"
definition kSectorCountField :: u64 where "kSectorCountField = 0x0C"
definition kMbrEntryCount :: nat where "kMbrEntryCount = 4"
definition kUnusedPartitionType :: u8 where "kUnusedPartitionType = 0x00"
definition kProtectivePartitionType :: u8 where "kProtectivePartitionType = 0xEE"

record MbrEntry =
  me_type :: u8
  me_startLba :: u32
  me_sectorCount :: u32

definition slotOffset :: "nat \<Rightarrow> u64" where
  "slotOffset index = kTableOffset + index * kEntryBytes"

definition signatureIsValid :: "bytes \<Rightarrow> bool result" where
  "signatureIsValid reader =
     andThen (readLe 2 reader kSignatureOffset)
       (\<lambda>val. if val \<noteq> kTableSignature then Inl (mkError kInvalidArgument kSignatureOffset) else Inr True)"

definition statusIsValid :: "bytes \<Rightarrow> u64 \<Rightarrow> bool result" where
  "statusIsValid reader at =
     andThen (bytesAt reader (at + kStatusField) 1)
       (\<lambda>raw. if unat (hd raw) \<noteq> 0x00 \<and> unat (hd raw) \<noteq> 0x80
              then Inl (mkError kInvalidArgument at) else Inr True)"

definition headerAt :: "bytes \<Rightarrow> u64 \<Rightarrow> (u64 \<times> u8) result" where
  "headerAt reader at = mapResult (bytesAt reader (at + kTypeField) 1) (\<lambda>raw. (at, unat (hd raw)))"

definition extentAt :: "bytes \<Rightarrow> u64 \<Rightarrow> (u32 \<times> u32) result" where
  "extentAt reader at =
     andThen (readLe 4 reader (at + kStartLbaField))
       (\<lambda>start. mapResult (readLe 4 reader (at + kSectorCountField)) (\<lambda>cnt. (start, cnt)))"

definition placedExtent :: "u32 \<times> u32 \<Rightarrow> u64 \<times> u8 \<Rightarrow> (u32 \<times> u32) result" where
  "placedExtent extent slot =
     (if snd slot = kUnusedPartitionType then Inr extent
      else if fst extent = 0 then Inl (mkError kInvalidArgument (fst slot + kStartLbaField))
      else if snd extent = 0 then Inl (mkError kInvalidArgument (fst slot + kSectorCountField))
      else Inr extent)"

definition entryOf :: "bytes \<Rightarrow> u64 \<times> u8 \<Rightarrow> MbrEntry result" where
  "entryOf reader slot =
     andThen (extentAt reader (fst slot))
       (\<lambda>extent. mapResult (placedExtent extent slot)
          (\<lambda>placed. \<lparr>me_type = snd slot, me_startLba = fst placed, me_sectorCount = snd placed\<rparr>))"

definition entryAt :: "bytes \<Rightarrow> u64 \<Rightarrow> MbrEntry result" where
  "entryAt reader at =
     andThen (andThen (statusIsValid reader at) (\<lambda>_. headerAt reader at)) (entryOf reader)"

definition tableWith :: "bytes \<Rightarrow> MbrEntry list \<Rightarrow> nat \<Rightarrow> MbrEntry list result" where
  "tableWith reader table index =
     mapResult (entryAt reader (slotOffset index)) (\<lambda>entry. table[index := entry])"

definition emptyEntry :: MbrEntry where
  "emptyEntry = \<lparr>me_type = kUnusedPartitionType, me_startLba = 0, me_sectorCount = 0\<rparr>"

definition readTable :: "bytes \<Rightarrow> MbrEntry list result" where
  "readTable reader =
     foldl (\<lambda>table index. andThen table (\<lambda>built. tableWith reader built index))
       (Inr (replicate kMbrEntryCount emptyEntry)) [0..<kMbrEntryCount]"

definition parseMbrSector :: "bytes \<Rightarrow> MbrEntry list result" where
  "parseMbrSector sector =
     (if length sector < kMbrSectorBytes then Inl (mkError kOutOfRange (length sector))
      else let reader = take kMbrSectorBytes sector
           in andThen (signatureIsValid reader) (\<lambda>_. readTable reader))"

definition defersToGpt :: "MbrEntry list \<Rightarrow> bool" where
  "defersToGpt table = list_ex (\<lambda>entry. me_type entry = kProtectivePartitionType) table"

subsection \<open>Placement\<close>

record MbrPartition =
  mp_startBytes :: u64
  mp_lengthBytes :: u64
  mp_typeCode :: u8
  mp_logical :: bool

record PlacedEntry =
  pe_startLba :: u64
  pe_sectorCount :: u32
  pe_typeCode :: u8
  pe_logical :: bool

definition isExtendedType :: "u8 \<Rightarrow> bool" where
  "isExtendedType type \<longleftrightarrow> type = 0x05 \<or> type = 0x0F \<or> type = 0x85"

definition mbrPartitionOf :: "PlacedEntry \<Rightarrow> u32 \<Rightarrow> MbrPartition result" where
  "mbrPartitionOf placed sectorSize =
     mapResult (safeMul64 (pe_startLba placed) sectorSize 0)
       (\<lambda>startBytes. \<lparr>mp_startBytes = startBytes, mp_lengthBytes = wrap64 (pe_sectorCount placed * sectorSize),
                      mp_typeCode = pe_typeCode placed, mp_logical = pe_logical placed\<rparr>)"

subsection \<open>The chain\<close>

definition kMaxLogicalPartitions :: nat where "kMaxLogicalPartitions = 128"

record ChainLink =
  cl_partition :: "MbrPartition option"
  cl_nextEbrLba :: u64

record ChainWalk =
  cw_extendedStartLba :: u32
  cw_ebrLba :: u64
  cw_found :: "MbrPartition list"
  cw_seen :: "u64 list"

definition nextLbaOf :: "ChainWalk \<Rightarrow> MbrEntry \<Rightarrow> u64" where
  "nextLbaOf walk entry =
     (if \<not> isExtendedType (me_type entry) then 0
      else cw_extendedStartLba walk + me_startLba entry)"

definition logicalOf :: "BlockDevice \<Rightarrow> ChainWalk \<Rightarrow> MbrEntry \<Rightarrow> ChainLink result" where
  "logicalOf device walk entry =
     (if me_type entry = kUnusedPartitionType \<or> isExtendedType (me_type entry)
      then Inr \<lparr>cl_partition = None, cl_nextEbrLba = 0\<rparr>
      else mapResult (mbrPartitionOf
             \<lparr>pe_startLba = cw_ebrLba walk + me_startLba entry, pe_sectorCount = me_sectorCount entry,
              pe_typeCode = me_type entry, pe_logical = True\<rparr> (bd_sectorSize device))
             (\<lambda>part. \<lparr>cl_partition = Some part, cl_nextEbrLba = 0\<rparr>))"

definition linkOf :: "BlockDevice \<Rightarrow> ChainWalk \<Rightarrow> MbrEntry list \<Rightarrow> ChainLink result" where
  "linkOf device walk table =
     (let next' = nextLbaOf walk (table ! 1)
      in mapResult (logicalOf device walk (table ! 0)) (\<lambda>held. held\<lparr>cl_nextEbrLba := next'\<rparr>))"

definition readLink :: "BlockDevice \<Rightarrow> ChainWalk \<Rightarrow> ChainLink result" where
  "readLink device walk =
     andThen (andThen (readTableSector device (cw_ebrLba walk)) parseMbrSector) (linkOf device walk)"

definition recordLink :: "ChainWalk \<Rightarrow> ChainLink \<Rightarrow> ChainWalk" where
  "recordLink walk link =
     (case cl_partition link of
        None \<Rightarrow> walk
      | Some part \<Rightarrow> walk\<lparr>cw_found := cw_found walk @ [part]\<rparr>)"

definition canStep :: "ChainWalk \<Rightarrow> bool" where
  "canStep walk \<longleftrightarrow>
     cw_ebrLba walk \<noteq> 0 \<and> length (cw_found walk) < kMaxLogicalPartitions \<and> cw_ebrLba walk \<notin> set (cw_seen walk)"

definition chainStep :: "BlockDevice \<Rightarrow> ChainWalk \<Rightarrow> ChainWalk \<times> bool" where
  "chainStep device walk =
     (let walk' = walk\<lparr>cw_seen := cw_seen walk @ [cw_ebrLba walk]\<rparr>
      in case readLink device walk' of
           Inl _ \<Rightarrow> (walk', False)
         | Inr link \<Rightarrow> ((recordLink walk' link)\<lparr>cw_ebrLba := cl_nextEbrLba link\<rparr>, True))"

definition unseen_sectors :: "BlockDevice \<Rightarrow> ChainWalk \<Rightarrow> nat set" where
  "unseen_sectors device walk = {..<bd_size device div bd_sectorSize device} - set (cw_seen walk)"

lemma readTableSector_Inr: "readTableSector device lba = Inr sector \<Longrightarrow> lba < bd_size device div bd_sectorSize device"
  by (auto simp: readTableSector_def byteOffsetOf_def Let_def andThen_Inr_iff split: if_splits)

lemma recordLink_simps [simp]:
  "cw_seen (recordLink walk link) = cw_seen walk" "cw_extendedStartLba (recordLink walk link) = cw_extendedStartLba walk"
  "cw_ebrLba (recordLink walk link) = cw_ebrLba walk"
  by (simp_all add: recordLink_def split: option.split)

lemma chainStep_shrinks:
  assumes "canStep walk" and "snd (chainStep device walk)"
  shows "card (unseen_sectors device (fst (chainStep device walk))) < card (unseen_sectors device walk)"
proof -
  let ?walk = "walk\<lparr>cw_seen := cw_seen walk @ [cw_ebrLba walk]\<rparr>"
  obtain link where link: "readLink device ?walk = Inr link"
    using assms(2) by (auto simp: chainStep_def Let_def split: sum.splits)
  then have "cw_ebrLba walk < bd_size device div bd_sectorSize device"
    using readTableSector_Inr [of device "cw_ebrLba walk"] by (auto simp: readLink_def andThen_Inr_iff)
  then have "cw_ebrLba walk \<in> unseen_sectors device walk" using assms(1) by (simp add: unseen_sectors_def canStep_def)
  moreover have "unseen_sectors device (fst (chainStep device walk)) = unseen_sectors device walk - {cw_ebrLba walk}"
    using link by (auto simp: chainStep_def Let_def unseen_sectors_def)
  moreover have "finite (unseen_sectors device walk)" by (simp add: unseen_sectors_def)
  ultimately show ?thesis by (metis card_Diff1_less)
qed

function collectChain :: "BlockDevice \<Rightarrow> ChainWalk \<Rightarrow> MbrPartition list" where
  "collectChain device walk =
     (if canStep walk
      then if snd (chainStep device walk) then collectChain device (fst (chainStep device walk))
           else cw_found (fst (chainStep device walk))
      else cw_found walk)"
  by pat_completeness auto
termination
  by (relation "measure (\<lambda>(device, walk). card (unseen_sectors device walk))") (auto intro: chainStep_shrinks)

declare collectChain.simps [simp del]

definition logicalPartitions :: "BlockDevice \<Rightarrow> u32 \<Rightarrow> MbrPartition list" where
  "logicalPartitions device extendedStartLba =
     collectChain device \<lparr>cw_extendedStartLba = extendedStartLba, cw_ebrLba = extendedStartLba,
                          cw_found = [], cw_seen = []\<rparr>"

subsection \<open>The partitions\<close>

definition primaryPartition :: "BlockDevice \<Rightarrow> MbrEntry \<Rightarrow> MbrPartition result" where
  "primaryPartition device entry =
     mbrPartitionOf \<lparr>pe_startLba = me_startLba entry, pe_sectorCount = me_sectorCount entry,
                     pe_typeCode = me_type entry, pe_logical = False\<rparr> (bd_sectorSize device)"

definition oneOrChain :: "BlockDevice \<Rightarrow> MbrEntry \<Rightarrow> MbrPartition list result" where
  "oneOrChain device entry =
     (if isExtendedType (me_type entry) then Inr (logicalPartitions device (me_startLba entry))
      else mapResult (primaryPartition device entry) (\<lambda>part. [part]))"

definition contributionOf :: "BlockDevice \<Rightarrow> MbrEntry \<Rightarrow> u64 \<Rightarrow> MbrPartition list result" where
  "contributionOf device entry typeOffset =
     (if me_type entry = kUnusedPartitionType then Inr []
      else if me_type entry = kProtectivePartitionType then Inl (mkError kInvalidArgument typeOffset)
      else oneOrChain device entry)"

definition appendSlot ::
  "BlockDevice \<Rightarrow> MbrEntry list \<Rightarrow> MbrPartition list \<Rightarrow> nat \<Rightarrow> MbrPartition list result" where
  "appendSlot device table found index =
     mapResult (contributionOf device (table ! index) (slotOffset index + kTypeField))
       (\<lambda>contributed. found @ contributed)"

definition partitionsOf :: "BlockDevice \<Rightarrow> MbrEntry list \<Rightarrow> MbrPartition list result" where
  "partitionsOf device table =
     foldl (\<lambda>found index. andThen found (\<lambda>built. appendSlot device table built index)) (Inr []) [0..<kMbrEntryCount]"

definition readMbrPartitions :: "BlockDevice \<Rightarrow> MbrPartition list result" where
  "readMbrPartitions device =
     andThen (andThen (readTableSector device 0) parseMbrSector) (partitionsOf device)"

subsection \<open>What the table parser accepts\<close>

lemmas mbr_consts =
  kTableOffset_def kEntryBytes_def kSignatureOffset_def kTableSignature_def kStatusField_def kTypeField_def
  kStartLbaField_def kSectorCountField_def kMbrEntryCount_def kUnusedPartitionType_def kProtectivePartitionType_def
  kMbrSectorBytes_def

definition byte_at :: "bytes \<Rightarrow> nat \<Rightarrow> nat" where "byte_at sector at = unat (sector ! at)"

definition le32_at :: "bytes \<Rightarrow> nat \<Rightarrow> nat" where "le32_at sector at = leNat (take 4 (drop at sector))"

definition slot_entry :: "bytes \<Rightarrow> nat \<Rightarrow> MbrEntry" where
  "slot_entry sector i =
     \<lparr>me_type = byte_at sector (446 + 16 * i + 4), me_startLba = le32_at sector (446 + 16 * i + 8),
      me_sectorCount = le32_at sector (446 + 16 * i + 12)\<rparr>"

definition slot_valid :: "bytes \<Rightarrow> nat \<Rightarrow> bool" where
  "slot_valid sector i \<longleftrightarrow>
     byte_at sector (446 + 16 * i) \<in> {0x00, 0x80} \<and>
     (me_type (slot_entry sector i) \<noteq> 0 \<longrightarrow>
        me_startLba (slot_entry sector i) \<noteq> 0 \<and> me_sectorCount (slot_entry sector i) \<noteq> 0)"

lemma base256_eq: "a < 256 \<Longrightarrow> c < 256 \<Longrightarrow> a + 256 * b = c + 256 * d \<longleftrightarrow> a = c \<and> b = (d :: nat)"
proof
  assume ac: "a < 256" "c < 256" and eq: "a + 256 * b = c + 256 * d"
  from eq have "(a + 256 * b) mod 256 = (c + 256 * d) mod 256" by simp
  then have "a = c" using ac by simp
  then show "a = c \<and> b = d" using eq by simp
qed simp

lemma unat_byte_eq_iff: "n < 256 \<Longrightarrow> unat (b :: byte) = n \<longleftrightarrow> b = of_nat n"
  by (auto simp: unat_of_nat)

lemma entryAt_Inr_iff:
  assumes "length reader = 512" and "i < 4"
  shows "entryAt reader (slotOffset i) = Inr e \<longleftrightarrow> slot_valid reader i \<and> e = slot_entry reader i"
proof -
  define at where "at = 446 + 16 * i"
  have at: "slotOffset i = at" "at + 16 \<le> 510" using assms(2) by (simp_all add: at_def slotOffset_def mbr_consts)
  have status: "statusIsValid reader at = (if byte_at reader at \<in> {0, 0x80} then Inr True else Inl (mkError kInvalidArgument at))"
    using at assms(1) by (simp add: statusIsValid_def mbr_consts hd_drop_conv_nth byte_at_def)
  have header: "headerAt reader at = Inr (at, byte_at reader (at + 4))"
    using at assms(1) by (simp add: headerAt_def mbr_consts hd_drop_conv_nth byte_at_def)
  have extent: "extentAt reader at = Inr (le32_at reader (at + 8), le32_at reader (at + 12))"
    using at assms(1) by (simp add: extentAt_def mbr_consts le32_at_def)
  show ?thesis
    unfolding at(1) entryAt_def status
    by (simp add: header extent entryOf_def placedExtent_def mbr_consts slot_valid_def slot_entry_def
        mapResult_Inr_iff flip: at_def)
qed

lemma four: "[0..<4] = [0, 1, 2, 3 :: nat]"
  by (simp add: upt_rec)

lemma readTable_Inr_iff:
  assumes "length reader = 512"
  shows "readTable reader = Inr t \<longleftrightarrow> (\<forall>i < 4. slot_valid reader i) \<and> t = map (slot_entry reader) [0..<4]"
proof -
  have "tableWith reader table i = Inr t' \<longleftrightarrow> slot_valid reader i \<and> t' = table[i := slot_entry reader i]"
    if "i < 4" for table i t'
    using entryAt_Inr_iff [OF assms that] by (auto simp: tableWith_def mapResult_Inr_iff)
  then have "readTable reader = Inr t \<longleftrightarrow>
      (slot_valid reader 0 \<and> slot_valid reader 1 \<and> slot_valid reader 2 \<and> slot_valid reader 3) \<and>
      t = (replicate 4 emptyEntry)[0 := slot_entry reader 0, 1 := slot_entry reader 1,
             2 := slot_entry reader 2, 3 := slot_entry reader 3]"
    unfolding readTable_def kMbrEntryCount_def four by (auto simp: andThen_Inr_iff)
  moreover have "(replicate 4 emptyEntry)[0 := slot_entry reader 0, 1 := slot_entry reader 1,
      2 := slot_entry reader 2, 3 := slot_entry reader 3] = map (slot_entry reader) [0..<4]"
    by (simp add: four numeral_eq_Suc)
  moreover have "(\<forall>i < 4. slot_valid reader i) \<longleftrightarrow>
      slot_valid reader 0 \<and> slot_valid reader 1 \<and> slot_valid reader 2 \<and> slot_valid reader 3"
    by (auto simp: less_Suc_eq numeral_eq_Suc)
  ultimately show ?thesis by simp
qed

definition mbr_valid :: "bytes \<Rightarrow> bool" where
  "mbr_valid sector \<longleftrightarrow>
     512 \<le> length sector \<and> sector ! 510 = 0x55 \<and> sector ! 511 = 0xAA \<and>
     (\<forall>i < 4. slot_valid (take 512 sector) i)"

lemma signatureIsValid_iff:
  assumes "length reader = 512"
  shows "signatureIsValid reader = (if reader ! 510 = 0x55 \<and> reader ! 511 = 0xAA then Inr True
    else Inl (mkError kInvalidArgument kSignatureOffset))"
proof -
  have two: "take 2 (drop 510 reader) = [reader ! 510, reader ! 511]"
    using assms by (intro nth_equalityI) (auto simp: less_Suc_eq numeral_2_eq_2)
  have "unat (reader ! 510) < 256" "unat (reader ! 511) < 256" by (rule unat_byte_less)+
  then have "unat (reader ! 510) + 256 * unat (reader ! 511) = 0x55 + 256 * 0xAA \<longleftrightarrow>
      unat (reader ! 510) = 0x55 \<and> unat (reader ! 511) = 0xAA" by (intro base256_eq) simp_all
  then have "unat (reader ! 510) + 256 * unat (reader ! 511) = 0xAA55 \<longleftrightarrow> reader ! 510 = 0x55 \<and> reader ! 511 = 0xAA"
    by (simp add: unat_byte_eq_iff)
  then show ?thesis using assms by (simp add: signatureIsValid_def mbr_consts two)
qed

lemma parseMbrSector_Inr_iff:
  "parseMbrSector sector = Inr t \<longleftrightarrow> mbr_valid sector \<and> t = map (slot_entry (take 512 sector)) [0..<4]"
proof (cases "512 \<le> length sector")
  case True
  then have len: "length (take 512 sector) = 512" by simp
  show ?thesis
    using True signatureIsValid_iff [OF len] readTable_Inr_iff [OF len]
    by (auto simp: parseMbrSector_def kMbrSectorBytes_def mbr_valid_def)
next
  case False
  then show ?thesis by (simp add: parseMbrSector_def kMbrSectorBytes_def mbr_valid_def)
qed

subsection \<open>What the chain walk finds\<close>

definition ebrAt :: "BlockDevice \<Rightarrow> nat \<Rightarrow> MbrEntry list result" where
  "ebrAt device lba = andThen (readTableSector device lba) parseMbrSector"

definition holds_partition :: "MbrEntry \<Rightarrow> bool" where
  "holds_partition e \<longleftrightarrow> me_type e \<noteq> 0 \<and> \<not> isExtendedType (me_type e)"

fun chain_from :: "BlockDevice \<Rightarrow> nat \<Rightarrow> nat \<Rightarrow> (nat \<times> MbrEntry) list \<Rightarrow> bool" where
  "chain_from device ext lba [] = (lba = 0)"
| "chain_from device ext lba ((l, e) # rest) =
     (l = lba \<and> lba \<noteq> 0 \<and> holds_partition e \<and>
      (\<exists>table. ebrAt device lba = Inr table \<and> table ! 0 = e \<and>
         chain_from device ext
           (if isExtendedType (me_type (table ! 1)) then ext + me_startLba (table ! 1) else 0) rest))"

definition logical_at :: "nat \<Rightarrow> nat \<times> MbrEntry \<Rightarrow> MbrPartition" where
  "logical_at sectorSize link =
     \<lparr>mp_startBytes = (fst link + me_startLba (snd link)) * sectorSize,
      mp_lengthBytes = me_sectorCount (snd link) * sectorSize,
      mp_typeCode = me_type (snd link), mp_logical = True\<rparr>"

definition link_fits :: "nat \<Rightarrow> nat \<times> MbrEntry \<Rightarrow> bool" where
  "link_fits sectorSize link \<longleftrightarrow>
     (fst link + me_startLba (snd link)) * sectorSize \<le> max64 \<and> me_sectorCount (snd link) * sectorSize \<le> max64"

lemma readLink_chain:
  assumes "ebrAt device (cw_ebrLba walk) = Inr table" and "table ! 0 = e" and "holds_partition e"
    and "link_fits (bd_sectorSize device) (cw_ebrLba walk, e)"
  shows "readLink device walk = Inr \<lparr>cl_partition = Some (logical_at (bd_sectorSize device) (cw_ebrLba walk, e)),
    cl_nextEbrLba = (if isExtendedType (me_type (table ! 1)) then cw_extendedStartLba walk + me_startLba (table ! 1) else 0)\<rparr>"
  using assms
  by (simp add: readLink_def ebrAt_def linkOf_def Let_def logicalOf_def nextLbaOf_def mbrPartitionOf_def
      safeMul64_exact holds_partition_def logical_at_def link_fits_def kUnusedPartitionType_def)

lemma collectChain_chain:
  "\<lbrakk>chain_from device (cw_extendedStartLba walk) (cw_ebrLba walk) links; distinct (cw_seen walk @ map fst links);
    length (cw_found walk) + length links \<le> kMaxLogicalPartitions; list_all (link_fits (bd_sectorSize device)) links\<rbrakk> \<Longrightarrow>
   collectChain device walk = cw_found walk @ map (logical_at (bd_sectorSize device)) links"
proof (induction links arbitrary: walk)
  case Nil
  then show ?case by (subst collectChain.simps) (simp add: canStep_def)
next
  case (Cons link links)
  obtain l e where link: "link = (l, e)" by (cases link)
  let ?lba = "cw_ebrLba walk" and ?ss = "bd_sectorSize device"
  obtain table where t: "l = ?lba" "?lba \<noteq> 0" "holds_partition e" "ebrAt device ?lba = Inr table" "table ! 0 = e"
    "chain_from device (cw_extendedStartLba walk)
       (if isExtendedType (me_type (table ! 1)) then cw_extendedStartLba walk + me_startLba (table ! 1) else 0) links"
    using Cons.prems(1) link by auto
  have can: "canStep walk" using t(1,2) Cons.prems(2,3) link by (auto simp: canStep_def)
  let ?seen = "walk\<lparr>cw_seen := cw_seen walk @ [?lba]\<rparr>"
  have "readLink device ?seen = Inr \<lparr>cl_partition = Some (logical_at ?ss (?lba, e)),
      cl_nextEbrLba = (if isExtendedType (me_type (table ! 1)) then cw_extendedStartLba walk + me_startLba (table ! 1) else 0)\<rparr>"
    using readLink_chain [of device ?seen table e] t Cons.prems(4) link by simp
  then have step: "chainStep device walk =
      (\<lparr>cw_extendedStartLba = cw_extendedStartLba walk,
        cw_ebrLba = (if isExtendedType (me_type (table ! 1)) then cw_extendedStartLba walk + me_startLba (table ! 1) else 0),
        cw_found = cw_found walk @ [logical_at ?ss (?lba, e)], cw_seen = cw_seen walk @ [?lba]\<rparr>, True)"
    by (simp add: chainStep_def Let_def recordLink_def)
  have "collectChain device (fst (chainStep device walk)) =
      cw_found (fst (chainStep device walk)) @ map (logical_at ?ss) links"
    using t Cons.prems(2-4) link unfolding step by (intro Cons.IH) simp_all
  then show ?case using can step t(1) link by (subst collectChain.simps) simp
qed

lemma chainStep_found:
  "length (cw_found (fst (chainStep device walk))) \<le> Suc (length (cw_found walk))"
  "list_all mp_logical (cw_found walk) \<Longrightarrow> list_all mp_logical (cw_found (fst (chainStep device walk)))"
  by (auto simp: chainStep_def Let_def recordLink_def readLink_def linkOf_def logicalOf_def mbrPartitionOf_def
      andThen_Inr_iff mapResult_Inr_iff split: sum.split option.split if_splits)

lemma collectChain_bounded:
  "length (cw_found walk) \<le> kMaxLogicalPartitions \<Longrightarrow> list_all mp_logical (cw_found walk) \<Longrightarrow>
   length (collectChain device walk) \<le> kMaxLogicalPartitions \<and> list_all mp_logical (collectChain device walk)"
proof (induction device walk rule: collectChain.induct)
  case (1 device walk)
  show ?case
  proof (cases "canStep walk")
    case True
    then have small: "length (cw_found (fst (chainStep device walk))) \<le> kMaxLogicalPartitions"
      using chainStep_found(1) [of device walk] by (simp add: canStep_def)
    show ?thesis
    proof (cases "snd (chainStep device walk)")
      case go: True
      then show ?thesis using "1.IH" [OF True go small] chainStep_found(2) "1.prems"(2) True
        by (simp add: collectChain.simps [of device walk])
    next
      case False
      then show ?thesis using small chainStep_found(2) "1.prems"(2) True by (simp add: collectChain.simps [of device walk])
    qed
  next
    case False
    then show ?thesis using "1.prems" by (simp add: collectChain.simps [of device walk])
  qed
qed

subsection \<open>Properties\<close>

text \<open>
  The table parser accepts a sector exactly when it carries the signature and every one of its four
  slots has a legal status byte and, if used, a start and a length; what it returns are the four
  slots' type, start and count. Any other sector is refused as a whole.
\<close>
theorem mbr_parser_accepts_exactly_valid_tables:
  "parseMbrSector sector = Inr table \<longleftrightarrow>
   mbr_valid sector \<and> table = map (slot_entry (take 512 sector)) [0..<4]"
  by (rule parseMbrSector_Inr_iff)

text \<open>
  The walk over an extended partition always ends, on any device and from any start, and never
  reports more than the allowed number of logical partitions.
\<close>
theorem extended_chain_is_bounded:
  "length (logicalPartitions device ext) \<le> kMaxLogicalPartitions \<and> list_all mp_logical (logicalPartitions device ext)"
  unfolding logicalPartitions_def by (rule collectChain_bounded) simp_all

text \<open>
  C36: On a well-formed chain the walk finds every logical partition, in chain order, each placed
  relative to the record that holds it, with the next record found relative to the head of the
  extended partition.
\<close>
theorem extended_chain_is_followed:
  assumes "chain_from device ext ext links" and "distinct (map fst links)"
    and "length links \<le> kMaxLogicalPartitions" and "list_all (link_fits (bd_sectorSize device)) links"
  shows "logicalPartitions device ext = map (logical_at (bd_sectorSize device)) links"
  using collectChain_chain [of device "\<lparr>cw_extendedStartLba = ext, cw_ebrLba = ext, cw_found = [], cw_seen = []\<rparr>" links] assms
  by (simp add: logicalPartitions_def)

definition sampleTail :: bytes where
  "sampleTail = [0, 0, 0, 0, 0x83, 0, 0, 0, 1, 0, 0, 0, 5, 0, 0, 0,
     0, 0, 0, 0, 0, 0, 0, 0, 0, 0, 0, 0, 0, 0, 0, 0,
     0, 0, 0, 0, 0, 0, 0, 0, 0, 0, 0, 0, 0, 0, 0, 0,
     0, 0, 0, 0, 0, 0, 0, 0, 0, 0, 0, 0, 0, 0, 0, 0, 0x55, 0xAA]"

definition sampleEbr :: bytes where
  "sampleEbr = replicate 446 0 @ sampleTail"

definition sampleDisk :: BlockDevice where
  "sampleDisk = imageOf (replicate 512 0 @ sampleEbr @ replicate 512 0)"

definition sampleLogical :: MbrEntry where
  "sampleLogical = \<lparr>me_type = 0x83, me_startLba = 1, me_sectorCount = 5\<rparr>"

lemma length_sampleEbr: "length sampleEbr = 512"
  by (simp add: sampleEbr_def sampleTail_def)

lemma sampleEbr_at:
  "byte_at sampleEbr (446 + n) = byte_at sampleTail n" "le32_at sampleEbr (446 + n) = le32_at sampleTail n"
  by (simp_all add: byte_at_def le32_at_def sampleEbr_def nth_append)

lemma sampleEbr_parses: "parseMbrSector sampleEbr = Inr [sampleLogical, emptyEntry, emptyEntry, emptyEntry]"
proof -
  have whole: "take 512 sampleEbr = sampleEbr" by (simp add: length_sampleEbr)
  have status: "byte_at sampleEbr (446 + 16 * i) = 0" if "i \<in> {0, 1, 2, 3}" for i
    using that by (elim insertE emptyE) (simp_all only: sampleEbr_at, simp_all add: byte_at_def sampleTail_def)
  have slot: "slot_entry sampleEbr i = (if i = 0 then sampleLogical else emptyEntry)" if "i \<in> {0, 1, 2, 3}" for i
    unfolding slot_entry_def add.assoc sampleEbr_at using that
    by (elim insertE emptyE)
       (simp_all add: byte_at_def le32_at_def sampleTail_def sampleLogical_def emptyEntry_def kUnusedPartitionType_def)
  have "slot_valid sampleEbr i" if "i < 4" for i
  proof -
    have "i \<in> {0, 1, 2, 3}" using that by auto
    then show ?thesis unfolding slot_valid_def
      using status [of i] slot [of i] by (simp add: sampleLogical_def emptyEntry_def kUnusedPartitionType_def)
  qed
  moreover have "sampleEbr ! 510 = 0x55" "sampleEbr ! 511 = 0xAA"
    by (simp_all add: sampleEbr_def nth_append) (simp_all add: sampleTail_def)
  ultimately have "mbr_valid sampleEbr" by (simp add: mbr_valid_def whole length_sampleEbr)
  moreover have "map (slot_entry sampleEbr) [0..<4] = [sampleLogical, emptyEntry, emptyEntry, emptyEntry]"
    by (simp add: four slot)
  ultimately show ?thesis using whole by (simp add: parseMbrSector_Inr_iff)
qed

theorem extended_chain_is_followed_witness:
  "logicalPartitions sampleDisk 1 = [\<lparr>mp_startBytes = 1024, mp_lengthBytes = 2560, mp_typeCode = 0x83, mp_logical = True\<rparr>]"
proof -
  define content where "content = replicate 512 0 @ sampleEbr @ replicate 512 (0 :: byte)"
  have len: "length content = 1536" by (simp add: content_def length_sampleEbr)
  have disk: "sampleDisk = imageOf content" by (simp add: sampleDisk_def content_def)
  have src: "serves sampleDisk content" unfolding disk by (rule imageOf_serves) (simp add: len max64_def)
  have ss: "bd_sectorSize sampleDisk = 512" by (simp add: disk imageOf_def imageFileDevice_def)
  have "readTableSector sampleDisk 1 = Inr (take 512 (drop 512 content))"
    using readTableSector_serves [OF src] by (simp add: ss len max64_def kMbrSectorBytes_def)
  also have "take 512 (drop 512 content) = sampleEbr" by (simp add: content_def length_sampleEbr)
  finally have "ebrAt sampleDisk 1 = Inr [sampleLogical, emptyEntry, emptyEntry, emptyEntry]"
    by (simp add: ebrAt_def sampleEbr_parses)
  then have "chain_from sampleDisk 1 1 [(1, sampleLogical)]"
    by (simp add: holds_partition_def sampleLogical_def isExtendedType_def emptyEntry_def kUnusedPartitionType_def)
  moreover have "list_all (link_fits (bd_sectorSize sampleDisk)) [(1, sampleLogical)]"
    by (simp add: ss link_fits_def sampleLogical_def max64_def)
  ultimately have "logicalPartitions sampleDisk 1 = map (logical_at (bd_sectorSize sampleDisk)) [(1, sampleLogical)]"
    by (intro extended_chain_is_followed) (simp_all add: kMaxLogicalPartitions_def)
  then show ?thesis by (simp add: ss logical_at_def sampleLogical_def)
qed

end
