(* ===== verification/Names.thy ===== *)
theory Names
  imports Bytes
begin

text \<open>
  \<open>src/core/NameEscape.cpp\<close>, \<open>src/core/Utf16Name.cpp\<close>, \<open>src/fs/PathSafeByte.cpp\<close> and
  \<open>src/fs/RawName.cpp\<close>: how an untrusted on-disk name becomes text. A \<open>std::string\<close> of
  UTF-8 is its list of bytes. Both decoders are compared with an independent description of
  UTF-8: the concatenated encodings of a list of Unicode scalar values.
\<close>

subsection \<open>Escapes\<close>

definition kEscapeSigil :: byte where "kEscapeSigil = 37"

definition hexDigit :: "nat \<Rightarrow> byte" where
  "hexDigit nibble =
     [48, 49, 50, 51, 52, 53, 54, 55, 56, 57, 65, 66, 67, 68, 69, 70] ! (nibble AND 0xF)"

definition appendEscapedByte :: "bytes \<Rightarrow> byte \<Rightarrow> bytes" where
  "appendEscapedByte out raw =
     (let val = unat raw in out @ [kEscapeSigil, hexDigit (drop_bit 4 val), hexDigit val])"

definition appendEscapedCodeUnit :: "bytes \<Rightarrow> u16 \<Rightarrow> bytes" where
  "appendEscapedCodeUnit out u =
     out @ [kEscapeSigil, 117, hexDigit (drop_bit 12 u), hexDigit (drop_bit 8 u),
            hexDigit (drop_bit 4 u), hexDigit u]"

subsection \<open>UTF-16\<close>

record DecodedName =
  dn_utf8 :: bytes
  dn_lossless :: bool

definition isHighSurrogate :: "u16 \<Rightarrow> bool" where
  "isHighSurrogate u \<longleftrightarrow> 0xD800 \<le> u \<and> u \<le> 0xDBFF"

definition isLowSurrogate :: "u16 \<Rightarrow> bool" where
  "isLowSurrogate u \<longleftrightarrow> 0xDC00 \<le> u \<and> u \<le> 0xDFFF"

definition isDirectlyEscapable :: "u16 \<Rightarrow> bool" where
  "isDirectlyEscapable u \<longleftrightarrow> u = 0 \<or> isLowSurrogate u"

definition unitAt :: "bytes \<Rightarrow> size_t \<Rightarrow> u16" where
  "unitAt utf16le unitIndex = leNat (take 2 (drop (unitIndex * 2) utf16le))"

definition combineSurrogatePair :: "u16 \<Rightarrow> u16 \<Rightarrow> u32" where
  "combineSurrogatePair high low = 0x10000 + push_bit 10 (high - 0xD800) + (low - 0xDC00)"

definition continuationByte :: "u32 \<Rightarrow> nat \<Rightarrow> byte" where
  "continuationByte codePoint shift = of_nat (0x80 OR (drop_bit shift codePoint AND 0x3F))"

definition appendUtf8CodePoint :: "bytes \<Rightarrow> u32 \<Rightarrow> bytes" where
  "appendUtf8CodePoint out codePoint =
     (if codePoint < 0x80 then out @ [of_nat codePoint]
      else if codePoint < 0x800 then
        out @ [of_nat (0xC0 OR drop_bit 6 codePoint), continuationByte codePoint 0]
      else if codePoint < 0x10000 then
        out @ [of_nat (0xE0 OR drop_bit 12 codePoint), continuationByte codePoint 6,
               continuationByte codePoint 0]
      else
        out @ [of_nat (0xF0 OR drop_bit 18 codePoint), continuationByte codePoint 12,
               continuationByte codePoint 6, continuationByte codePoint 0])"

definition appendCodePoint :: "DecodedName \<Rightarrow> u32 \<Rightarrow> DecodedName" where
  "appendCodePoint st codePoint = st\<lparr>dn_utf8 := appendUtf8CodePoint (dn_utf8 st) codePoint\<rparr>"

definition appendEscapedUnit :: "DecodedName \<Rightarrow> u16 \<Rightarrow> DecodedName" where
  "appendEscapedUnit st u =
     st\<lparr>dn_utf8 := appendEscapedCodeUnit (dn_utf8 st) u, dn_lossless := False\<rparr>"

definition appendTrailingByte :: "DecodedName \<Rightarrow> byte \<Rightarrow> DecodedName" where
  "appendTrailingByte st raw =
     st\<lparr>dn_utf8 := appendEscapedByte (dn_utf8 st) raw, dn_lossless := False\<rparr>"

definition decodeHighSurrogate ::
  "DecodedName \<Rightarrow> bytes \<Rightarrow> size_t \<Rightarrow> size_t \<Rightarrow> u16 \<Rightarrow> DecodedName \<times> size_t" where
  "decodeHighSurrogate st utf16le unitCount unitIndex high =
     (let hasNext = unitIndex + 1 < unitCount;
          low = if hasNext then unitAt utf16le (unitIndex + 1) else 0
      in if hasNext \<and> isLowSurrogate low
         then (appendCodePoint st (combineSurrogatePair high low), 2)
         else (appendEscapedUnit st high, 1))"

definition decodeStep ::
  "DecodedName \<Rightarrow> bytes \<Rightarrow> size_t \<Rightarrow> size_t \<Rightarrow> DecodedName \<times> size_t" where
  "decodeStep st utf16le unitCount unitIndex =
     (let u = unitAt utf16le unitIndex
      in if isDirectlyEscapable u then (appendEscapedUnit st u, 1)
         else if isHighSurrogate u then decodeHighSurrogate st utf16le unitCount unitIndex u
         else (appendCodePoint st u, 1))"

lemma decodeStep_advances: "0 < snd (decodeStep st utf16le unitCount unitIndex)"
  by (simp add: decodeStep_def decodeHighSurrogate_def Let_def)

function decodeFullUnits :: "DecodedName \<Rightarrow> bytes \<Rightarrow> size_t \<Rightarrow> size_t \<Rightarrow> DecodedName" where
  "decodeFullUnits st utf16le unitCount unitIndex =
     (if unitIndex < unitCount
      then decodeFullUnits (fst (decodeStep st utf16le unitCount unitIndex)) utf16le unitCount
             (unitIndex + snd (decodeStep st utf16le unitCount unitIndex))
      else st)"
  by pat_completeness auto
termination
  by (relation "measure (\<lambda>(st, raw, n, i). n - i)") (auto simp: decodeStep_advances diff_less_mono2)

declare decodeFullUnits.simps [simp del]

definition decodeUtf16Name :: "bytes \<Rightarrow> DecodedName" where
  "decodeUtf16Name utf16le =
     (let st = decodeFullUnits \<lparr>dn_utf8 = [], dn_lossless = True\<rparr> utf16le (length utf16le div 2) 0
      in if length utf16le mod 2 \<noteq> 0 then appendTrailingByte st (last utf16le) else st)"

subsection \<open>Raw names\<close>

definition passesThroughAsItself :: "byte \<Rightarrow> bool" where
  "passesThroughAsItself raw \<longleftrightarrow>
     0x20 \<le> unat raw \<and> unat raw \<le> 0x7E \<and> raw \<noteq> 47 \<and> raw \<noteq> kEscapeSigil"

definition sequenceLength :: "nat \<Rightarrow> size_t" where
  "sequenceLength lead =
     (if lead < 0x80 then 1
      else if 0xC2 \<le> lead \<and> lead \<le> 0xDF then 2
      else if 0xE0 \<le> lead \<and> lead \<le> 0xEF then 3
      else if 0xF0 \<le> lead \<and> lead \<le> 0xF4 then 4 else 0)"

record SecondByte =
  sb_low :: nat
  sb_high :: nat

definition kNarrowLeads :: "(nat \<times> SecondByte) list" where
  "kNarrowLeads =
     [(0xE0, \<lparr>sb_low = 0xA0, sb_high = 0xBF\<rparr>), (0xED, \<lparr>sb_low = 0x80, sb_high = 0x9F\<rparr>),
      (0xF0, \<lparr>sb_low = 0x90, sb_high = 0xBF\<rparr>), (0xF4, \<lparr>sb_low = 0x80, sb_high = 0x8F\<rparr>)]"

definition secondByteRange :: "nat \<Rightarrow> SecondByte" where
  "secondByteRange lead =
     (case map_of kNarrowLeads lead of
        Some narrow \<Rightarrow> narrow
      | None \<Rightarrow> \<lparr>sb_low = 0x80, sb_high = 0xBF\<rparr>)"

definition isContinuation :: "byte \<Rightarrow> bool" where
  "isContinuation raw \<longleftrightarrow> unat raw AND 0xC0 = 0x80"

definition sequenceIsWellFormed :: "bytes \<Rightarrow> size_t \<Rightarrow> bool" where
  "sequenceIsWellFormed at len =
     (if length at < len then False
      else let allowed = secondByteRange (unat (at ! 0));
               second = unat (at ! 1)
           in sb_low allowed \<le> second \<and> second \<le> sb_high allowed \<and>
              list_all isContinuation (take (len - 2) (drop 2 at)))"

definition appendSingleByte :: "DecodedName \<Rightarrow> byte \<Rightarrow> bool \<Rightarrow> DecodedName" where
  "appendSingleByte st raw isAscii =
     (if isAscii \<and> passesThroughAsItself raw then st\<lparr>dn_utf8 := dn_utf8 st @ [raw]\<rparr>
      else st\<lparr>dn_utf8 := appendEscapedByte (dn_utf8 st) raw, dn_lossless := False\<rparr>)"

definition rawDecodeStep :: "DecodedName \<Rightarrow> bytes \<Rightarrow> DecodedName \<times> size_t" where
  "rawDecodeStep st at =
     (let len = sequenceLength (unat (at ! 0))
      in if 1 < len \<and> sequenceIsWellFormed at len
         then (st\<lparr>dn_utf8 := dn_utf8 st @ take len at\<rparr>, len)
         else (appendSingleByte st (at ! 0) (len = 1), 1))"

lemma rawDecodeStep_advances: "0 < snd (rawDecodeStep st at)"
  by (simp add: rawDecodeStep_def Let_def)

function decodeRawFrom :: "DecodedName \<Rightarrow> bytes \<Rightarrow> size_t \<Rightarrow> DecodedName" where
  "decodeRawFrom st raw at =
     (if at < length raw
      then decodeRawFrom (fst (rawDecodeStep st (drop at raw))) raw
             (at + snd (rawDecodeStep st (drop at raw)))
      else st)"
  by pat_completeness auto
termination
  by (relation "measure (\<lambda>(st, raw, i). length raw - i)") (auto simp: rawDecodeStep_advances diff_less_mono2)

declare decodeRawFrom.simps [simp del]

definition decodeRawName :: "bytes \<Rightarrow> DecodedName" where
  "decodeRawName raw = decodeRawFrom \<lparr>dn_utf8 = [], dn_lossless = True\<rparr> raw 0"

subsection \<open>What UTF-8 is\<close>

definition scalar :: "nat \<Rightarrow> bool" where
  "scalar cp \<longleftrightarrow> cp < 0x110000 \<and> \<not> (0xD800 \<le> cp \<and> cp \<le> 0xDFFF)"

definition utf8_of :: "nat \<Rightarrow> bytes" where
  "utf8_of cp =
     (if cp < 0x80 then [of_nat cp]
      else if cp < 0x800 then [of_nat (0xC0 + cp div 64), of_nat (0x80 + cp mod 64)]
      else if cp < 0x10000 then
        [of_nat (0xE0 + cp div 4096), of_nat (0x80 + cp div 64 mod 64), of_nat (0x80 + cp mod 64)]
      else
        [of_nat (0xF0 + cp div 262144), of_nat (0x80 + cp div 4096 mod 64),
         of_nat (0x80 + cp div 64 mod 64), of_nat (0x80 + cp mod 64)])"

definition utf8_text :: "bytes \<Rightarrow> bool" where
  "utf8_text bs \<longleftrightarrow> (\<exists>cps. list_all scalar cps \<and> bs = concat (map utf8_of cps))"

definition utf16le_of :: "nat \<Rightarrow> bytes" where
  "utf16le_of cp =
     (if cp < 0x10000 then leBytes 2 cp
      else leBytes 2 (0xD800 + (cp - 0x10000) div 1024) @ leBytes 2 (0xDC00 + (cp - 0x10000) mod 1024))"

lemma utf8_text_Nil [simp]: "utf8_text []"
  by (auto simp: utf8_text_def intro!: exI [of _ "[]"])

lemma utf8_text_append: "utf8_text xs \<Longrightarrow> utf8_text ys \<Longrightarrow> utf8_text (xs @ ys)"
  by (auto simp: utf8_text_def) (metis concat_append list_all_append map_append)

lemma utf8_text_concat: "list_all utf8_text xss \<Longrightarrow> utf8_text (concat xss)"
  by (induction xss) (auto intro: utf8_text_append)

lemma utf8_text_one: "scalar cp \<Longrightarrow> utf8_text (utf8_of cp)"
  by (auto simp: utf8_text_def intro!: exI [of _ "[cp]"])

lemma utf8_text_ascii: "list_all (\<lambda>b. unat b < 0x80) bs \<Longrightarrow> utf8_text bs"
proof (induction bs)
  case (Cons b bs)
  have "scalar (unat b)" "utf8_of (unat b) = [b]" using Cons.prems by (auto simp: scalar_def utf8_of_def)
  then have "utf8_text [b]" using utf8_text_one by metis
  then show ?case using Cons utf8_text_append [of "[b]" bs] by simp
qed simp

lemma or_add: "b < 2 ^ k \<Longrightarrow> 2 ^ k * a OR b = 2 ^ k * a + (b :: nat)"
proof -
  assume b: "b < 2 ^ k"
  then have "\<not> bit b n" if "k \<le> n" for n
    using that by (metis bit_take_bit_iff linorder_not_le take_bit_nat_eq_self_iff)
  then have "push_bit k a OR b = push_bit k a + b"
    by (intro disjunctive_add [symmetric]) (auto simp: bit_simps)
  then show ?thesis by (simp add: push_bit_eq_mult mult.commute)
qed

lemma or_lead:
  "b < 64 \<Longrightarrow> 0x80 OR b = 0x80 + b" "b < 32 \<Longrightarrow> 0xC0 OR b = 0xC0 + b"
  "b < 16 \<Longrightarrow> 0xE0 OR b = 0xE0 + b" "b < 8 \<Longrightarrow> 0xF0 OR b = 0xF0 + (b :: nat)"
  using or_add [of b 6 2] or_add [of b 5 6] or_add [of b 4 14] or_add [of b 3 30] by simp_all

lemma and_mask: "v AND 0x3F = v mod (64 :: nat)" "v AND 0xF = v mod (16 :: nat)"
  using take_bit_eq_mask [of 6 v] take_bit_eq_mask [of 4 v]
  by (simp_all add: mask_eq_exp_minus_1 take_bit_eq_mod)

lemma appendUtf8CodePoint_eq:
  assumes "cp < 0x110000"
  shows "appendUtf8CodePoint out cp = out @ utf8_of cp"
proof -
  have "cp < 0x800 \<Longrightarrow> cp div 64 < 32" "cp < 0x10000 \<Longrightarrow> cp div 4096 < 16" "cp div 262144 < 8"
    using assms by linarith+
  then show ?thesis
    by (simp add: appendUtf8CodePoint_def utf8_of_def continuationByte_def and_mask or_lead
        drop_bit_eq_div)
qed

subsection \<open>Hexadecimal escapes read back\<close>

definition unhex :: "byte \<Rightarrow> nat" where
  "unhex b = (if unat b < 58 then unat b - 48 else unat b - 55)"

lemma less_16: "(n :: nat) < 16 \<Longrightarrow> n \<in> {0, 1, 2, 3, 4, 5, 6, 7, 8, 9, 10, 11, 12, 13, 14, 15}"
  by simp arith

lemma hexDigit_cases: "unhex (hexDigit n) = n mod 16" "48 \<le> unat (hexDigit n)" "unat (hexDigit n) < 71"
proof -
  have "n mod 16 \<in> {0, 1, 2, 3, 4, 5, 6, 7, 8, 9, 10, 11, 12, 13, 14, 15}" by (rule less_16) simp
  then have "unhex (hexDigit n) = n mod 16 \<and> 48 \<le> unat (hexDigit n) \<and> unat (hexDigit n) < 71"
    unfolding hexDigit_def and_mask by (elim insertE emptyE) (simp_all add: unhex_def)
  then show "unhex (hexDigit n) = n mod 16" "48 \<le> unat (hexDigit n)" "unat (hexDigit n) < 71" by auto
qed

definition escapedByte :: "byte \<Rightarrow> bytes" where "escapedByte b = appendEscapedByte [] b"

definition escapedUnit :: "u16 \<Rightarrow> bytes" where "escapedUnit u = appendEscapedCodeUnit [] u"

lemma appendEscaped_eq:
  "appendEscapedByte out b = out @ escapedByte b" "appendEscapedCodeUnit out u = out @ escapedUnit u"
  by (simp_all add: escapedByte_def escapedUnit_def appendEscapedByte_def appendEscapedCodeUnit_def Let_def)

definition plain_ascii :: "byte \<Rightarrow> bool" where "plain_ascii b \<longleftrightarrow> 0x20 \<le> unat b \<and> unat b < 0x7F \<and> b \<noteq> 47"

lemma hexDigit_plain: "plain_ascii (hexDigit n)"
proof -
  have "hexDigit n \<noteq> 47" using hexDigit_cases(2) [of n] by auto
  then show ?thesis using hexDigit_cases [of n] by (simp add: plain_ascii_def)
qed

lemma escapes_plain:
  "list_all plain_ascii (escapedByte b)" "list_all plain_ascii (escapedUnit u)"
  by (simp_all add: escapedByte_def escapedUnit_def appendEscapedByte_def appendEscapedCodeUnit_def Let_def
      hexDigit_plain) (simp_all add: plain_ascii_def kEscapeSigil_def)

lemma plain_utf8: "list_all plain_ascii bs \<Longrightarrow> utf8_text bs"
  by (rule utf8_text_ascii) (auto simp: list_all_iff plain_ascii_def)

subsection \<open>The UTF-16 loop\<close>

datatype piece = Code nat | Unit u16 | Trail byte

fun piece_text :: "piece \<Rightarrow> bytes" where
  "piece_text (Code cp) = utf8_of cp"
| "piece_text (Unit u) = escapedUnit u"
| "piece_text (Trail b) = escapedByte b"

fun piece_raw :: "piece \<Rightarrow> bytes" where
  "piece_raw (Code cp) = utf16le_of cp"
| "piece_raw (Unit u) = leBytes 2 u"
| "piece_raw (Trail b) = [b]"

fun piece_code :: "piece \<Rightarrow> bool" where
  "piece_code (Code cp) = True"
| "piece_code _ = False"

fun piece_ok :: "piece \<Rightarrow> bool" where
  "piece_ok (Code cp) = (scalar cp \<and> cp \<noteq> 0)"
| "piece_ok (Unit u) = (u < 0x10000)"
| "piece_ok (Trail b) = True"

lemma unitAt_bytes:
  assumes "(i + 1) * 2 \<le> length raw"
  shows "leBytes 2 (unitAt raw i) = take 2 (drop (i * 2) raw)" and "unitAt raw i < 0x10000"
proof -
  have len: "length (take 2 (drop (i * 2) raw)) = 2" using assms by simp
  show "leBytes 2 (unitAt raw i) = take 2 (drop (i * 2) raw)"
    using leBytes_leNat [of "take 2 (drop (i * 2) raw)"] len by (simp add: unitAt_def)
  show "unitAt raw i < 0x10000"
    using leNat_less [of "take 2 (drop (i * 2) raw)"] len by (simp add: unitAt_def)
qed

lemma surrogate_pair:
  assumes "isHighSurrogate h" and "isLowSurrogate l"
  shows "scalar (combineSurrogatePair h l)" and "combineSurrogatePair h l \<noteq> 0"
    and "utf16le_of (combineSurrogatePair h l) = leBytes 2 h @ leBytes 2 l"
proof -
  define a b where "a = h - 0xD800" and "b = l - 0xDC00"
  have hl: "h = 0xD800 + a" "l = 0xDC00 + b" "a < 1024" "b < 1024"
    using assms by (auto simp: a_def b_def isHighSurrogate_def isLowSurrogate_def)
  have cp: "combineSurrogatePair h l = 0x10000 + (1024 * a + b)"
    by (simp add: combineSurrogatePair_def hl push_bit_eq_mult)
  show "scalar (combineSurrogatePair h l)" "combineSurrogatePair h l \<noteq> 0"
    using hl unfolding cp by (simp_all add: scalar_def)
  have "(1024 * a + b) div 1024 = a" "(1024 * a + b) mod 1024 = b" using hl by simp_all
  then show "utf16le_of (combineSurrogatePair h l) = leBytes 2 h @ leBytes 2 l"
    unfolding cp utf16le_of_def by (simp add: hl)
qed

lemma decodeStep_piece:
  assumes "i < n" and "n * 2 \<le> length raw"
  shows "\<exists>p. piece_ok p \<and> dn_utf8 (fst (decodeStep st raw n i)) = dn_utf8 st @ piece_text p \<and>
    dn_lossless (fst (decodeStep st raw n i)) = (dn_lossless st \<and> piece_code p) \<and>
    i + snd (decodeStep st raw n i) \<le> n \<and>
    take (snd (decodeStep st raw n i) * 2) (drop (i * 2) raw) = piece_raw p"
proof -
  let ?u = "unitAt raw i"
  have u: "leBytes 2 ?u = take 2 (drop (i * 2) raw)" "?u < 0x10000" using assms by (intro unitAt_bytes; simp)+
  consider "isDirectlyEscapable ?u" | "\<not> isDirectlyEscapable ?u" "\<not> isHighSurrogate ?u"
    | "isHighSurrogate ?u" "\<not> isDirectlyEscapable ?u" "i + 1 < n" "isLowSurrogate (unitAt raw (i + 1))"
    | "isHighSurrogate ?u" "\<not> isDirectlyEscapable ?u" "\<not> (i + 1 < n \<and> isLowSurrogate (unitAt raw (i + 1)))"
    by blast
  then show ?thesis
  proof cases
    case 1
    then show ?thesis using u assms(1)
      by (intro exI [of _ "Unit ?u"]) (simp add: decodeStep_def Let_def appendEscapedUnit_def appendEscaped_eq)
  next
    case 2
    then have "scalar ?u" "?u \<noteq> 0" using u(2)
      by (auto simp: scalar_def isDirectlyEscapable_def isLowSurrogate_def isHighSurrogate_def)
    then show ?thesis using 2 u assms(1)
      by (intro exI [of _ "Code ?u"])
         (simp add: decodeStep_def Let_def appendCodePoint_def appendUtf8CodePoint_eq scalar_def utf16le_of_def)
  next
    case 3
    let ?l = "unitAt raw (i + 1)" and ?cp = "combineSurrogatePair ?u (unitAt raw (i + 1))"
    note pair = surrogate_pair [OF 3(1,4)]
    have l: "leBytes 2 ?l = take 2 (drop (i * 2 + 2) raw)"
      using 3(3) assms(2) unitAt_bytes(1) [of "i + 1" raw] by simp
    have "take 4 (drop (i * 2) raw) = take 2 (drop (i * 2) raw) @ take 2 (drop (i * 2 + 2) raw)"
      using take_add [of 2 2 "drop (i * 2) raw"] by (simp add: add.commute)
    then show ?thesis using 3 pair u(1) l
      by (intro exI [of _ "Code ?cp"])
         (simp add: decodeStep_def decodeHighSurrogate_def Let_def appendCodePoint_def appendUtf8CodePoint_eq scalar_def)
  next
    case 4
    then have "decodeStep st raw n i = (appendEscapedUnit st ?u, 1)"
      by (auto simp: decodeStep_def decodeHighSurrogate_def Let_def)
    then show ?thesis using u assms(1)
      by (intro exI [of _ "Unit ?u"]) (simp add: appendEscapedUnit_def appendEscaped_eq)
  qed
qed

lemma decodeFullUnits_pieces:
  "i \<le> n \<Longrightarrow> n * 2 \<le> length raw \<Longrightarrow>
   \<exists>ps. list_all piece_ok ps \<and>
     dn_utf8 (decodeFullUnits st raw n i) = dn_utf8 st @ concat (map piece_text ps) \<and>
     dn_lossless (decodeFullUnits st raw n i) = (dn_lossless st \<and> list_all piece_code ps) \<and>
     drop (i * 2) (take (n * 2) raw) = concat (map piece_raw ps)"
proof (induction st raw n i rule: decodeFullUnits.induct)
  case (1 st raw n i)
  show ?case
  proof (cases "i < n")
    case True
    let ?st = "fst (decodeStep st raw n i)" and ?k = "snd (decodeStep st raw n i)"
    obtain p where p: "piece_ok p" "dn_utf8 ?st = dn_utf8 st @ piece_text p"
      "dn_lossless ?st = (dn_lossless st \<and> piece_code p)" "i + ?k \<le> n" "take (?k * 2) (drop (i * 2) raw) = piece_raw p"
      using decodeStep_piece [OF True "1.prems"(2), of st] by blast
    obtain ps where ps: "list_all piece_ok ps"
      "dn_utf8 (decodeFullUnits ?st raw n (i + ?k)) = dn_utf8 ?st @ concat (map piece_text ps)"
      "dn_lossless (decodeFullUnits ?st raw n (i + ?k)) = (dn_lossless ?st \<and> list_all piece_code ps)"
      "drop ((i + ?k) * 2) (take (n * 2) raw) = concat (map piece_raw ps)"
      using "1.IH" [OF True p(4) "1.prems"(2)] by blast
    have "drop (i * 2) (take (n * 2) raw) =
        take (?k * 2) (drop (i * 2) (take (n * 2) raw)) @ drop (?k * 2) (drop (i * 2) (take (n * 2) raw))"
      by (simp only: append_take_drop_id)
    also have "take (?k * 2) (drop (i * 2) (take (n * 2) raw)) = piece_raw p"
      using p(4,5) by (simp add: drop_take min_absorb1 algebra_simps)
    also have "drop (?k * 2) (drop (i * 2) (take (n * 2) raw)) = concat (map piece_raw ps)"
      using ps(4) by (simp add: algebra_simps)
    finally show ?thesis
      using True p ps by (intro exI [of _ "p # ps"]) (simp add: decodeFullUnits.simps [of st raw n i])
  next
    case False
    then show ?thesis by (intro exI [of _ "[]"]) (simp add: decodeFullUnits.simps [of st raw n i])
  qed
qed

lemma decodeUtf16Name_pieces:
  "\<exists>ps. list_all piece_ok ps \<and> dn_utf8 (decodeUtf16Name raw) = concat (map piece_text ps) \<and>
     dn_lossless (decodeUtf16Name raw) = list_all piece_code ps \<and> raw = concat (map piece_raw ps)"
proof -
  define st where "st = decodeFullUnits \<lparr>dn_utf8 = [], dn_lossless = True\<rparr> raw (length raw div 2) 0"
  obtain ps where ps: "list_all piece_ok ps" "dn_utf8 st = concat (map piece_text ps)"
    "dn_lossless st = list_all piece_code ps" "take (length raw div 2 * 2) raw = concat (map piece_raw ps)"
    using decodeFullUnits_pieces [of 0 "length raw div 2" raw "\<lparr>dn_utf8 = [], dn_lossless = True\<rparr>"]
    by (auto simp: st_def)
  show ?thesis
  proof (cases "length raw mod 2 = 0")
    case True
    then have "length raw div 2 * 2 = length raw" by presburger
    then have "raw = concat (map piece_raw ps)" using ps(4) by (metis order_refl take_all)
    moreover have "decodeUtf16Name raw = st" using True by (simp add: decodeUtf16Name_def st_def)
    ultimately show ?thesis using ps(1-3) by metis
  next
    case False
    then have "length raw div 2 * 2 = length raw - 1" "raw \<noteq> []" by (presburger, auto)
    then have "raw = take (length raw div 2 * 2) raw @ [last raw]" by (metis append_butlast_last_id butlast_conv_take)
    then have "raw = concat (map piece_raw (ps @ [Trail (last raw)]))" using ps(4) by simp
    moreover have "decodeUtf16Name raw = appendTrailingByte st (last raw)"
      using False by (simp add: decodeUtf16Name_def st_def)
    then have "dn_utf8 (decodeUtf16Name raw) = concat (map piece_text (ps @ [Trail (last raw)]))"
      "dn_lossless (decodeUtf16Name raw) = list_all piece_code (ps @ [Trail (last raw)])"
      using ps(2) by (simp_all add: appendTrailingByte_def appendEscaped_eq)
    moreover have "list_all piece_ok (ps @ [Trail (last raw)])" using ps(1) by simp
    ultimately show ?thesis by blast
  qed
qed

lemma unat_of_nat_byte_less [simp]: "n < 256 \<Longrightarrow> unat (of_nat n :: byte) = n"
  by (simp add: unat_of_nat)

lemma of_nat_byte_neq_0: "0 < n \<Longrightarrow> n < 256 \<Longrightarrow> (of_nat n :: byte) \<noteq> 0"
  by (metis less_numeral_extra(3) unat_0 unat_of_nat_byte_less)

lemma utf8_of_bytes:
  assumes "scalar cp" and "b \<in> set (utf8_of cp)"
  shows "cp < 0x80 \<and> b = of_nat cp \<or> 0x80 \<le> cp \<and> 0x80 \<le> unat b"
proof -
  have "0xC0 + cp div 64 < 256" if "cp < 0x800" using that by linarith
  moreover have "0xE0 + cp div 4096 < 256" if "cp < 0x10000" using that by linarith
  moreover have "0xF0 + cp div 262144 < 256" using assms(1) by (simp add: scalar_def) linarith
  moreover have "0x80 + m mod 64 < 256" for m :: nat
    using mod_less_divisor [of 64 m] by linarith
  ultimately show ?thesis
    using assms(2) by (auto simp: utf8_of_def split: if_splits simp del: of_nat_add)
qed

lemma utf8_of_no_nul: "scalar cp \<Longrightarrow> cp \<noteq> 0 \<Longrightarrow> 0 \<notin> set (utf8_of cp)"
  using utf8_of_bytes [of cp 0] of_nat_byte_neq_0 [of cp] by auto

lemma piece_text_ok: "piece_ok p \<Longrightarrow> utf8_text (piece_text p) \<and> 0 \<notin> set (piece_text p)"
  by (cases p) (auto simp: utf8_text_one utf8_of_no_nul plain_utf8 escapes_plain
      dest!: escapes_plain [unfolded list_all_iff, rule_format] simp: plain_ascii_def)

subsection \<open>The raw loop\<close>

lemma and_push_bit: "n AND push_bit k m = push_bit k (drop_bit k n AND (m :: nat))"
  by (rule bit_eqI) (auto simp: bit_simps)

lemma isContinuation_iff: "isContinuation b \<longleftrightarrow> 0x80 \<le> unat b \<and> unat b < 0xC0"
proof -
  define n where "n = unat b"
  have "n < 256" unfolding n_def by (rule unat_byte_less)
  have "n AND 0xC0 = 64 * (n div 64 AND 3)"
    using and_push_bit [of n 6 3] by (simp add: push_bit_eq_mult drop_bit_eq_div)
  moreover have "n div 64 AND 3 = n div 64 mod 4"
    using take_bit_eq_mask [of 2 "n div 64"] by (simp add: mask_eq_exp_minus_1 take_bit_eq_mod)
  moreover have "n div 64 < 4" using \<open>n < 256\<close> by simp
  ultimately have "n AND 0xC0 = 64 * (n div 64)" by simp
  then show ?thesis unfolding isContinuation_def n_def [symmetric] by auto
qed

lemma byte_eq_of_nat: "unat b = n \<Longrightarrow> b = (of_nat n :: byte)"
  by auto

lemma horner64: "z < 64 \<Longrightarrow> (64 * q + z) div 64 = q" "z < 64 \<Longrightarrow> (64 * q + z) mod 64 = (z :: nat)"
  by simp_all

lemma take_few:
  "2 \<le> length xs \<Longrightarrow> take 2 xs = [xs ! 0, xs ! 1]" "3 \<le> length xs \<Longrightarrow> take 3 xs = [xs ! 0, xs ! 1, xs ! 2]"
  "4 \<le> length xs \<Longrightarrow> take 4 xs = [xs ! 0, xs ! 1, xs ! 2, xs ! 3]"
  by (simp_all add: numeral_eq_Suc take_Suc_conv_app_nth) (cases xs; simp)+

text \<open>A well-formed sequence is the encoding of one scalar value.\<close>

lemma two_byte_scalar:
  assumes "0xC2 \<le> unat a" "unat a \<le> 0xDF" "0x80 \<le> unat b" "unat b < 0xC0"
  shows "\<exists>cp. scalar cp \<and> [a, b] = utf8_of cp"
proof -
  define x y where "x = unat a - 0xC0" and "y = unat b - 0x80"
  have xy: "unat a = 0xC0 + x" "unat b = 0x80 + y" "2 \<le> x" "x < 32" "y < 64"
    using assms by (auto simp: x_def y_def)
  have dm: "(64 * x + y) div 64 = x" "(64 * x + y) mod 64 = y" using xy by simp_all
  show ?thesis
    using xy dm byte_eq_of_nat [OF xy(1)] byte_eq_of_nat [OF xy(2)]
    by (intro exI [of _ "64 * x + y"]) (simp add: scalar_def utf8_of_def)
qed

lemma three_byte_scalar:
  assumes "0xE0 \<le> unat a" "unat a \<le> 0xEF" "0x80 \<le> unat b" "unat b < 0xC0" "0x80 \<le> unat c" "unat c < 0xC0"
    and "unat a = 0xE0 \<Longrightarrow> 0xA0 \<le> unat b" and "unat a = 0xED \<Longrightarrow> unat b \<le> 0x9F"
  shows "\<exists>cp. scalar cp \<and> [a, b, c] = utf8_of cp"
proof -
  define x y z where "x = unat a - 0xE0" and "y = unat b - 0x80" and "z = unat c - 0x80"
  have xyz: "unat a = 0xE0 + x" "unat b = 0x80 + y" "unat c = 0x80 + z" "x < 16" "y < 64" "z < 64"
    using assms(1-6) by (auto simp: x_def y_def z_def)
  have low: "32 \<le> y" if "x = 0" using assms(7) xyz(1,2) that by simp
  have sur: "y < 32" if "x = 13" using assms(8) xyz(1,2) that by simp
  let ?cp = "64 * (64 * x + y) + z"
  have "?cp div (64 * 64) = ?cp div 64 div 64" by (rule div_mult2_eq)
  then have dm: "?cp div 4096 = x" "?cp div 64 = 64 * x + y" "?cp mod 64 = z" "(64 * x + y) mod 64 = y"
    using xyz by (simp_all only: horner64) simp_all
  have "0x800 \<le> ?cp" "?cp < 0x10000" using xyz low by (cases "x = 0"; simp)+
  moreover have "\<not> (0xD800 \<le> ?cp \<and> ?cp \<le> 0xDFFF)"
    using xyz sur by (cases "x = 13") auto
  ultimately show ?thesis
    using dm byte_eq_of_nat [OF xyz(1)] byte_eq_of_nat [OF xyz(2)] byte_eq_of_nat [OF xyz(3)]
    by (intro exI [of _ ?cp]) (simp add: scalar_def utf8_of_def)
qed

lemma four_byte_scalar:
  assumes "0xF0 \<le> unat a" "unat a \<le> 0xF4" "0x80 \<le> unat b" "unat b < 0xC0" "0x80 \<le> unat c" "unat c < 0xC0"
    "0x80 \<le> unat d" "unat d < 0xC0"
    and "unat a = 0xF0 \<Longrightarrow> 0x90 \<le> unat b" and "unat a = 0xF4 \<Longrightarrow> unat b \<le> 0x8F"
  shows "\<exists>cp. scalar cp \<and> [a, b, c, d] = utf8_of cp"
proof -
  define x y z w where "x = unat a - 0xF0" and "y = unat b - 0x80" and "z = unat c - 0x80" and "w = unat d - 0x80"
  have xyz: "unat a = 0xF0 + x" "unat b = 0x80 + y" "unat c = 0x80 + z" "unat d = 0x80 + w"
    "x < 5" "y < 64" "z < 64" "w < 64"
    using assms(1-8) by (auto simp: x_def y_def z_def w_def)
  have low: "16 \<le> y" if "x = 0" using assms(9) xyz(1,2) that by simp
  have high: "y < 16" if "x = 4" using assms(10) xyz(1,2) that by simp
  let ?cp = "64 * (64 * (64 * x + y) + z) + w"
  have "?cp div (64 * (64 * 64)) = ?cp div 64 div 64 div 64" "?cp div (64 * 64) = ?cp div 64 div 64"
    by (simp_all only: div_mult2_eq)
  then have dm: "?cp div 262144 = x" "?cp div 4096 = 64 * x + y" "?cp div 64 = 64 * (64 * x + y) + z" "?cp mod 64 = w"
    "(64 * x + y) mod 64 = y" "(64 * (64 * x + y) + z) mod 64 = z"
    using xyz by (simp_all only: horner64) simp_all
  have "0x10000 \<le> ?cp" using xyz low by (cases "x = 0") simp_all
  moreover have "?cp < 0x110000" using xyz high by (cases "x = 4") simp_all
  ultimately show ?thesis
    using dm byte_eq_of_nat [OF xyz(1)] byte_eq_of_nat [OF xyz(2)] byte_eq_of_nat [OF xyz(3)] byte_eq_of_nat [OF xyz(4)]
    by (intro exI [of _ ?cp]) (simp add: scalar_def utf8_of_def)
qed

lemma secondByteRange_continuation:
  "sb_low (secondByteRange l) \<le> n \<Longrightarrow> n \<le> sb_high (secondByteRange l) \<Longrightarrow> 0x80 \<le> n \<and> n < 0xC0"
  by (auto simp: secondByteRange_def kNarrowLeads_def split: option.splits if_splits)

lemma secondByteRange_narrow:
  "secondByteRange 0xE0 = \<lparr>sb_low = 0xA0, sb_high = 0xBF\<rparr>" "secondByteRange 0xED = \<lparr>sb_low = 0x80, sb_high = 0x9F\<rparr>"
  "secondByteRange 0xF0 = \<lparr>sb_low = 0x90, sb_high = 0xBF\<rparr>" "secondByteRange 0xF4 = \<lparr>sb_low = 0x80, sb_high = 0x8F\<rparr>"
  by (simp_all add: secondByteRange_def kNarrowLeads_def)

lemma sequenceLength_cases:
  assumes "1 < sequenceLength l"
  obtains (two) "sequenceLength l = 2" "0xC2 \<le> l" "l \<le> 0xDF"
    | (three) "sequenceLength l = 3" "0xE0 \<le> l" "l \<le> 0xEF"
    | (four) "sequenceLength l = 4" "0xF0 \<le> l" "l \<le> 0xF4"
proof -
  show thesis
  proof (cases "0xC2 \<le> l \<and> l \<le> 0xDF")
    case True
    then show thesis by (intro two) (simp_all add: sequenceLength_def)
  next
    case a: False
    show thesis
    proof (cases "0xE0 \<le> l \<and> l \<le> 0xEF")
      case True
      then show thesis by (intro three) (simp_all add: sequenceLength_def)
    next
      case b: False
      have "0xF0 \<le> l \<and> l \<le> 0xF4"
        using assms unfolding sequenceLength_def if_not_P [OF a] if_not_P [OF b] by (metis less_irrefl not_less_zero)
      then show thesis by (intro four) (simp_all add: sequenceLength_def)
    qed
  qed
qed

lemma sequence_scalar:
  assumes wf: "sequenceIsWellFormed at len" and len: "len = sequenceLength (unat (at ! 0))" "1 < len"
  shows "len \<le> length at" and "\<exists>cp. scalar cp \<and> take len at = utf8_of cp"
proof -
  show l: "len \<le> length at" using wf unfolding sequenceIsWellFormed_def by (metis not_le)
  then have second: "sb_low (secondByteRange (unat (at ! 0))) \<le> unat (at ! 1)"
      "unat (at ! 1) \<le> sb_high (secondByteRange (unat (at ! 0)))"
    and rest: "list_all isContinuation (take (len - 2) (drop 2 at))"
    using wf by (simp_all add: sequenceIsWellFormed_def Let_def)
  note cont = secondByteRange_continuation [OF second]
  have nth: "0x80 \<le> unat (at ! (2 + j)) \<and> unat (at ! (2 + j)) < 0xC0" if "2 + j < len" for j
  proof -
    have "j < length (take (len - 2) (drop 2 at))" using that l by simp
    then have "isContinuation (take (len - 2) (drop 2 at) ! j)" using rest by (simp add: list_all_length)
    then show ?thesis using that l by (simp add: isContinuation_iff)
  qed
  have narrow: "0xA0 \<le> unat (at ! 1)" if "unat (at ! 0) = 0xE0" using second that by (simp add: secondByteRange_narrow)
  have narrow2: "unat (at ! 1) \<le> 0x9F" if "unat (at ! 0) = 0xED" using second that by (simp add: secondByteRange_narrow)
  have narrow3: "0x90 \<le> unat (at ! 1)" if "unat (at ! 0) = 0xF0" using second that by (simp add: secondByteRange_narrow)
  have narrow4: "unat (at ! 1) \<le> 0x8F" if "unat (at ! 0) = 0xF4" using second that by (simp add: secondByteRange_narrow)
  have "1 < sequenceLength (unat (at ! 0))" using len by simp
  then show "\<exists>cp. scalar cp \<and> take len at = utf8_of cp"
  proof (cases rule: sequenceLength_cases)
    case two
    then show ?thesis using two_byte_scalar [OF two(2,3)] cont take_few(1) [of at] l len(1) by metis
  next
    case three
    have c: "0x80 \<le> unat (at ! 2)" "unat (at ! 2) < 0xC0" using nth [of 0] three(1) len(1) by simp_all
    show ?thesis
      using three_byte_scalar [OF three(2,3) _ _ c narrow narrow2] cont take_few(2) [of at] l len(1) three(1) by metis
  next
    case four
    have c: "0x80 \<le> unat (at ! 2)" "unat (at ! 2) < 0xC0" "0x80 \<le> unat (at ! 3)" "unat (at ! 3) < 0xC0"
      using nth [of 0] nth [of 1] four(1) len(1) by simp_all
    show ?thesis
      using four_byte_scalar [OF four(2,3) _ _ c narrow3 narrow4] cont take_few(3) [of at] l len(1) four(1) by metis
  qed
qed

lemma sequence_high:
  assumes "sequenceIsWellFormed at len" "len = sequenceLength (unat (at ! 0))" "1 < len" "b \<in> set (take len at)"
  shows "0x80 \<le> unat b"
proof -
  obtain cp where cp: "scalar cp" "take len at = utf8_of cp" using sequence_scalar [OF assms(1-3)] by blast
  have "length (utf8_of cp) \<noteq> 1"
    using cp(2) sequence_scalar(1) [OF assms(1-3)] assms(3) by (metis length_take min.absorb2 nat_neq_iff)
  then have "\<not> cp < 0x80" by (auto simp: utf8_of_def)
  then show ?thesis using utf8_of_bytes [OF cp(1)] assms(4) cp(2) by metis
qed

fun unescape :: "bytes \<Rightarrow> bytes" where
  "unescape [] = []"
| "unescape (b # bs) =
     (if b = kEscapeSigil
      then case bs of
             h # l # rest \<Rightarrow> of_nat (16 * unhex h + unhex l) # unescape rest
           | _ \<Rightarrow> []
      else b # unescape bs)"

lemma unescape_plain: "kEscapeSigil \<notin> set xs \<Longrightarrow> unescape (xs @ rest) = xs @ unescape rest"
  by (induction xs) auto

lemma unescape_escaped: "unescape (escapedByte b @ rest) = b # unescape rest"
proof -
  have "unat b < 256" by (rule unat_byte_less)
  then have "unat b div 16 < 16" by linarith
  then have "16 * (unat b div 16 mod 16) + unat b mod 16 = unat b" by simp
  then show ?thesis
    by (simp add: escapedByte_def appendEscapedByte_def Let_def hexDigit_cases drop_bit_eq_div del: of_nat_add of_nat_mult)
qed

definition text_for :: "bytes \<Rightarrow> bytes \<Rightarrow> bool" where
  "text_for raw t \<longleftrightarrow> utf8_text t \<and> 0 \<notin> set t \<and> 47 \<notin> set t \<and> (\<forall>rest. unescape (t @ rest) = raw @ unescape rest)"

lemma text_for_Nil: "text_for [] []"
  by (simp add: text_for_def)

lemma text_for_append: "text_for r t \<Longrightarrow> text_for r' t' \<Longrightarrow> text_for (r @ r') (t @ t')"
  by (simp add: text_for_def utf8_text_append)

lemma text_for_escaped: "text_for [b] (escapedByte b)"
  using escapes_plain(1) [of b]
  by (auto simp: text_for_def plain_utf8 unescape_escaped list_all_iff plain_ascii_def)

lemma text_for_verbatim:
  assumes "utf8_text t" and "\<forall>b \<in> set t. 0x80 \<le> unat b \<or> passesThroughAsItself b"
  shows "text_for t t"
proof -
  have "b \<noteq> 0 \<and> b \<noteq> 47 \<and> b \<noteq> kEscapeSigil" if "b \<in> set t" for b
    using assms(2) that by (auto simp: passesThroughAsItself_def kEscapeSigil_def dest: bspec)
  then show ?thesis using assms(1) unescape_plain by (auto simp: text_for_def)
qed

lemma rawDecodeStep_text:
  assumes "at \<noteq> []"
  shows "\<exists>t. text_for (take (snd (rawDecodeStep st at)) at) t \<and> snd (rawDecodeStep st at) \<le> length at \<and>
    dn_utf8 (fst (rawDecodeStep st at)) = dn_utf8 st @ t \<and>
    (dn_lossless (fst (rawDecodeStep st at)) \<longrightarrow> dn_lossless st \<and> t = take (snd (rawDecodeStep st at)) at)"
proof -
  define len where "len = sequenceLength (unat (at ! 0))"
  have one: "take 1 at = [at ! 0]" using assms by (cases at) simp_all
  consider "1 < len" "sequenceIsWellFormed at len" | "\<not> (1 < len \<and> sequenceIsWellFormed at len)" "len = 1 \<and> passesThroughAsItself (at ! 0)"
    | "\<not> (1 < len \<and> sequenceIsWellFormed at len)" "\<not> (len = 1 \<and> passesThroughAsItself (at ! 0))"
    by blast
  then show ?thesis
  proof cases
    case 1
    note seq = sequence_scalar [OF 1(2) len_def 1(1)]
    have "text_for (take len at) (take len at)"
      using seq(2) utf8_text_one sequence_high [OF 1(2) len_def 1(1)] by (intro text_for_verbatim) metis+
    then show ?thesis using 1 seq(1) by (intro exI [of _ "take len at"]) (simp add: rawDecodeStep_def flip: len_def)
  next
    case 2
    have "utf8_text [at ! 0]" using 2(2) by (intro utf8_text_ascii) (simp add: passesThroughAsItself_def)
    then have "text_for [at ! 0] [at ! 0]" using 2(2) by (intro text_for_verbatim) simp_all
    then show ?thesis using 2 one assms
      by (intro exI [of _ "[at ! 0]"]) (simp add: rawDecodeStep_def appendSingleByte_def Suc_le_eq flip: len_def)
  next
    case 3
    then show ?thesis using one assms text_for_escaped [of "at ! 0"]
      by (intro exI [of _ "escapedByte (at ! 0)"])
         (auto simp: rawDecodeStep_def appendSingleByte_def appendEscaped_eq Suc_le_eq simp flip: len_def)
  qed
qed

lemma decodeRawFrom_text:
  "\<exists>t. text_for (drop i raw) t \<and> dn_utf8 (decodeRawFrom st raw i) = dn_utf8 st @ t \<and>
     (dn_lossless (decodeRawFrom st raw i) \<longrightarrow> dn_lossless st \<and> t = drop i raw)"
proof (induction st raw i rule: decodeRawFrom.induct)
  case (1 st raw i)
  show ?case
  proof (cases "i < length raw")
    case True
    let ?st = "fst (rawDecodeStep st (drop i raw))" and ?k = "snd (rawDecodeStep st (drop i raw))"
    obtain t where t: "text_for (take ?k (drop i raw)) t" "dn_utf8 ?st = dn_utf8 st @ t"
      "dn_lossless ?st \<longrightarrow> dn_lossless st \<and> t = take ?k (drop i raw)"
      using rawDecodeStep_text [of "drop i raw" st] True by auto
    obtain t' where t': "text_for (drop (i + ?k) raw) t'"
      "dn_utf8 (decodeRawFrom ?st raw (i + ?k)) = dn_utf8 ?st @ t'"
      "dn_lossless (decodeRawFrom ?st raw (i + ?k)) \<longrightarrow> dn_lossless ?st \<and> t' = drop (i + ?k) raw"
      using "1.IH" [OF True] by blast
    have split: "take ?k (drop i raw) @ drop (i + ?k) raw = drop i raw"
      by (metis add.commute append_take_drop_id drop_drop)
    then have "text_for (drop i raw) (t @ t')" using text_for_append [OF t(1) t'(1)] by simp
    moreover have "decodeRawFrom st raw i = decodeRawFrom ?st raw (i + ?k)"
      using True by (simp add: decodeRawFrom.simps [of st raw i])
    ultimately show ?thesis using t(2,3) t'(2,3) split by (intro exI [of _ "t @ t'"]) auto
  next
    case False
    then show ?thesis by (intro exI [of _ "[]"]) (simp add: decodeRawFrom.simps [of st raw i] text_for_Nil)
  qed
qed

subsection \<open>Properties\<close>

text \<open>
  C39: Decoding a name of unknown encoding always yields valid UTF-8 without a NUL or a path separator,
  and never loses information: undoing the percent escapes gives back exactly the bytes that were
  on disk, and a name reported lossless is those bytes themselves.
\<close>
theorem raw_name_decoding_is_safe_and_invertible:
  "utf8_text (dn_utf8 (decodeRawName raw)) \<and> 0 \<notin> set (dn_utf8 (decodeRawName raw)) \<and>
   47 \<notin> set (dn_utf8 (decodeRawName raw)) \<and> unescape (dn_utf8 (decodeRawName raw)) = raw \<and>
   (\<not> dn_lossless (decodeRawName raw) \<or> dn_utf8 (decodeRawName raw) = raw)"
proof -
  obtain t where "text_for raw t" "dn_utf8 (decodeRawName raw) = t"
    "dn_lossless (decodeRawName raw) \<longrightarrow> t = raw"
    using decodeRawFrom_text [of 0 raw "\<lparr>dn_utf8 = [], dn_lossless = True\<rparr>"] by (auto simp: decodeRawName_def)
  moreover from this have "unescape (t @ []) = raw @ unescape []" unfolding text_for_def by blast
  ultimately show ?thesis unfolding text_for_def by auto
qed

theorem raw_name_decoding_is_safe_and_invertible_witness:
  "decodeRawName [97, 47, 0xC3, 0xA9, 0xFF] = \<lparr>dn_utf8 = [97, 37, 50, 70, 0xC3, 0xA9, 37, 70, 70], dn_lossless = False\<rparr> \<and>
   unescape [97, 37, 50, 70, 0xC3, 0xA9, 37, 70, 70] = [97, 47, 0xC3, 0xA9, 0xFF]"
proof -
  have "decodeRawName [97, 47, 0xC3, 0xA9, 0xFF] = \<lparr>dn_utf8 = [97, 37, 50, 70, 0xC3, 0xA9, 37, 70, 70], dn_lossless = False\<rparr>"
    by code_simp
  then show ?thesis using raw_name_decoding_is_safe_and_invertible [of "[97, 47, 0xC3, 0xA9, 0xFF]"] by simp
qed

text \<open>
  C40: Decoding a UTF-16 name always yields valid UTF-8 without a NUL byte, whatever surrogates and
  trailing bytes it has; and a name reported lossless is a faithful transcoding: one list of
  Unicode scalar values has the name's bytes as its UTF-16 and the result as its UTF-8.
\<close>
theorem utf16_name_decoding_is_valid_and_faithful:
  "utf8_text (dn_utf8 (decodeUtf16Name raw)) \<and> 0 \<notin> set (dn_utf8 (decodeUtf16Name raw)) \<and>
   (dn_lossless (decodeUtf16Name raw) \<longrightarrow>
      (\<exists>cps. list_all scalar cps \<and> raw = concat (map utf16le_of cps) \<and>
         dn_utf8 (decodeUtf16Name raw) = concat (map utf8_of cps)))"
proof -
  obtain ps where ps: "list_all piece_ok ps" "dn_utf8 (decodeUtf16Name raw) = concat (map piece_text ps)"
    "dn_lossless (decodeUtf16Name raw) = list_all piece_code ps" "raw = concat (map piece_raw ps)"
    using decodeUtf16Name_pieces by blast
  have "utf8_text (concat (map piece_text ps))" "0 \<notin> set (concat (map piece_text ps))"
    using ps(1) piece_text_ok by (auto intro!: utf8_text_concat simp: list_all_iff)
  moreover have "\<exists>cps. list_all scalar cps \<and> raw = concat (map utf16le_of cps) \<and>
      concat (map piece_text ps) = concat (map utf8_of cps)" if "list_all piece_code ps"
  proof -
    have "\<exists>cps. ps = map Code cps \<and> list_all scalar cps"
      using ps(1) that
    proof (induction ps)
      case (Cons p ps)
      then obtain cp cps where "p = Code cp" "ps = map Code cps" "scalar cp" "list_all scalar cps"
        by (auto elim: piece_code.elims)
      then show ?case by (intro exI [of _ "cp # cps"]) simp
    qed simp
    then obtain cps where cps: "ps = map Code cps" "list_all scalar cps" by blast
    have "map piece_raw (map Code cps) = map utf16le_of cps" "map piece_text (map Code cps) = map utf8_of cps"
      by simp_all
    then show ?thesis using ps(4) cps by metis
  qed
  ultimately show ?thesis using ps(2,3) by simp
qed

lemmas utf16_eval =
  decodeUtf16Name_def decodeFullUnits.simps decodeStep_def decodeHighSurrogate_def unitAt_def Let_def
  isDirectlyEscapable_def isHighSurrogate_def isLowSurrogate_def appendCodePoint_def appendEscapedUnit_def
  appendUtf8CodePoint_def appendEscapedCodeUnit_def hexDigit_def kEscapeSigil_def

theorem utf16_name_decoding_is_valid_and_faithful_witness:
  "dn_lossless (decodeUtf16Name [0x3D, 0xD8, 0x00, 0xDE]) \<and>
   (\<exists>cps. [0x3D, 0xD8, 0x00, 0xDE] = concat (map utf16le_of cps) \<and>
     dn_utf8 (decodeUtf16Name [0x3D, 0xD8, 0x00, 0xDE]) = concat (map utf8_of cps))"
proof -
  have "dn_lossless (decodeUtf16Name [0x3D, 0xD8, 0x00, 0xDE])" by (simp add: utf16_eval)
  then show ?thesis using utf16_name_decoding_is_valid_and_faithful [of "[0x3D, 0xD8, 0x00, 0xDE]"] by blast
qed

text \<open>
  The UTF-16 decoder passes the escape sigil through, so an escape it emits cannot be told from
  the same text on disk.
\<close>

lemma utf16_escape_is_ambiguous:
  "decodeUtf16Name ([0, 0] @ [37, 0, 117, 0, 48, 0, 48, 0, 48, 0, 48, 0]) =
   decodeUtf16Name ([37, 0, 117, 0, 48, 0, 48, 0, 48, 0, 48, 0] @ [0, 0])"
  by (simp add: utf16_eval)

end
