(* ===== verification/Crc32.thy ===== *)
theory Crc32
  imports Bytes
begin

text \<open>
  \<open>src/core/Crc32.cpp\<close>: the table-driven checksum the GPT reader trusts. The reference is the
  bit-serial shift register; the table entry is eight of its steps, and the two agree because the
  register is linear over exclusive or.
\<close>

type_synonym crc = "32 word"

definition kPolynomial :: crc where "kPolynomial = 0xEDB88320"
definition kInitial :: crc where "kInitial = 0xFFFFFFFF"
definition kTableSize :: nat where "kTableSize = 256"

definition crcBit :: "crc \<Rightarrow> crc" where
  "crcBit val = (if val AND 1 \<noteq> 0 then kPolynomial XOR drop_bit 1 val else drop_bit 1 val)"

definition tableEntry :: "crc \<Rightarrow> crc" where
  "tableEntry index = (crcBit ^^ 8) index"

definition makeTable :: "crc list" where
  "makeTable = map (\<lambda>index. tableEntry (of_nat index)) [0..<kTableSize]"

definition crcByte :: "crc \<Rightarrow> byte \<Rightarrow> crc" where
  "crcByte crc val = makeTable ! unat ((crc XOR ucast val) AND 0xFF) XOR drop_bit 8 crc"

definition crc32 :: "bytes \<Rightarrow> crc" where
  "crc32 data = foldl crcByte kInitial data XOR kInitial"

subsection \<open>The register is linear and invertible\<close>

definition crc_reference :: "bytes \<Rightarrow> crc" where
  "crc_reference data = foldl (\<lambda>crc b. (crcBit ^^ 8) (crc XOR ucast b)) kInitial data XOR kInitial"

lemma crcBit_bit: "crcBit v = (if bit v 0 then kPolynomial XOR drop_bit 1 v else drop_bit 1 v)"
proof -
  have "v AND 1 \<noteq> 0 \<longleftrightarrow> bit v 0" by (simp add: bit_0 and_one_eq mod_2_eq_odd)
  then show ?thesis by (simp only: crcBit_def)
qed

lemma drop_bit_xor_word: "drop_bit n (x XOR y) = drop_bit n x XOR drop_bit n (y :: crc)"
  by (rule bit_eqI) (simp add: bit_simps)

lemma crcBit_xor: "crcBit (x XOR y) = crcBit x XOR crcBit y"
  by (auto simp: crcBit_bit bit_xor_iff drop_bit_xor_word xor.assoc xor.left_commute)

lemma crcBits_xor: "(crcBit ^^ n) (x XOR y) = (crcBit ^^ n) x XOR (crcBit ^^ n) y"
  by (induction n) (simp_all add: crcBit_xor)

lemma crcBits_even: "(\<forall>i < n. \<not> bit v i) \<Longrightarrow> (crcBit ^^ n) v = drop_bit n (v :: crc)"
proof (induction n)
  case (Suc n)
  then have "(crcBit ^^ n) v = drop_bit n v" by simp
  moreover have "\<not> bit (drop_bit n v) 0" using Suc.prems by (simp add: bit_drop_bit_eq)
  then have "crcBit (drop_bit n v) = drop_bit 1 (drop_bit n v)" by (simp only: crcBit_bit if_False)
  ultimately show ?case by (simp add: drop_bit_drop_bit)
qed simp

lemma kPolynomial_top: "bit kPolynomial 31"
  by (simp add: kPolynomial_def)

lemma crc_bit_high: "bit (v :: crc) n \<Longrightarrow> n < 32"
  by (drule bit_imp_le_length) simp

lemma byte_bit_high: "bit (b :: byte) n \<Longrightarrow> n < 8"
  by (drule bit_imp_le_length) simp

lemma crcBit_top: "bit (crcBit v) 31 = bit v 0"
proof -
  have "\<not> bit v 32" using crc_bit_high [of v 32] by blast
  then show ?thesis by (simp add: crcBit_bit bit_simps kPolynomial_top)
qed

lemma xor_cancel: "a XOR x = a XOR y \<Longrightarrow> x = (y :: crc)"
proof -
  assume "a XOR x = a XOR y"
  then have "a XOR (a XOR x) = a XOR (a XOR y)" by (rule arg_cong)
  then show "x = y" by (simp only: xor.assoc [symmetric] xor_self_eq xor.left_neutral)
qed

lemma crcBit_inj: "crcBit x = crcBit y \<Longrightarrow> x = y"
proof -
  assume eq: "crcBit x = crcBit y"
  have zero: "bit x 0 = bit y 0"
    using arg_cong [OF eq, of "\<lambda>v. bit v 31"] by (simp only: crcBit_top)
  have dropped: "drop_bit 1 x = drop_bit 1 y"
  proof (cases "bit x 0")
    case True
    then show ?thesis using eq zero by (simp only: crcBit_bit if_True xor_cancel simp_thms)
  next
    case False
    then show ?thesis using eq zero by (simp only: crcBit_bit if_False simp_thms)
  qed
  have "bit x (Suc n) = bit y (Suc n)" for n
    using arg_cong [OF dropped, of "\<lambda>v. bit v n"] by (simp add: bit_drop_bit_eq)
  then have "bit x n = bit y n" for n using zero by (cases n) simp_all
  then show "x = y" by (intro bit_eqI) simp
qed

lemma crcBits_inj: "(crcBit ^^ n) x = (crcBit ^^ n) y \<Longrightarrow> x = y"
  by (induction n) (auto dest: crcBit_inj)

subsection \<open>The table computes the register\<close>

lemma crcByte_eq: "crcByte crc b = (crcBit ^^ 8) (crc XOR ucast b)"
proof -
  define x where "x = crc XOR ucast b"
  define lo where "lo = x AND 0xFF"
  define hi where "hi = x AND NOT 0xFF"
  have mask: "(0xFF :: crc) = mask 8" by (simp add: mask_eq_exp_minus_1)
  have split: "x = lo XOR hi" unfolding lo_def hi_def mask by (rule bit_eqI) (auto simp: bit_simps)
  have "unat lo < 256"
  proof -
    have "lo = take_bit 8 x" by (simp add: lo_def mask take_bit_eq_mask)
    then have "unat lo < 2 ^ 8" by (simp only: unsigned_take_bit_eq take_bit_nat_less_exp)
    then show ?thesis by simp
  qed
  then have table: "makeTable ! unat lo = (crcBit ^^ 8) lo"
    by (simp add: makeTable_def kTableSize_def tableEntry_def)
  have "(crcBit ^^ 8) hi = drop_bit 8 hi"
    by (intro crcBits_even) (auto simp: hi_def mask bit_simps)
  also have "drop_bit 8 hi = drop_bit 8 crc"
    unfolding hi_def mask x_def
    by (rule bit_eqI) (auto simp: bit_simps dest: byte_bit_high crc_bit_high)
  finally have "(crcBit ^^ 8) x = (crcBit ^^ 8) lo XOR drop_bit 8 crc"
    unfolding split crcBits_xor by simp
  then show ?thesis using table by (simp add: crcByte_def flip: x_def lo_def)
qed

lemma crc32_reference: "crc32 data = crc_reference data"
  by (simp add: crc32_def crc_reference_def crcByte_eq [abs_def])

lemma crcByte_inj_crc: "crcByte c b = crcByte d b \<Longrightarrow> c = d"
proof -
  assume "crcByte c b = crcByte d b"
  then have "c XOR ucast b = d XOR ucast b" unfolding crcByte_eq by (rule crcBits_inj)
  then have "ucast b XOR c = ucast b XOR d" by (simp only: xor.commute)
  then show "c = d" by (rule xor_cancel)
qed

lemma ucast_byte_inj: "(ucast (a :: byte) :: crc) = ucast b \<Longrightarrow> a = b"
proof -
  assume eq: "(ucast a :: crc) = ucast b"
  have "bit a n = bit b n" if "n < 8" for n
    using arg_cong [OF eq, of "\<lambda>v. bit v n"] that by (simp add: bit_simps)
  then show "a = b" by (intro bit_eqI) simp
qed

lemma crcByte_inj_byte: "crcByte c a = crcByte c b \<Longrightarrow> a = b"
proof -
  assume "crcByte c a = crcByte c b"
  then have "c XOR ucast a = c XOR ucast b" unfolding crcByte_eq by (rule crcBits_inj)
  then show "a = b" by (rule ucast_byte_inj [OF xor_cancel])
qed

lemma foldl_crcByte_inj: "foldl crcByte c data = foldl crcByte d data \<Longrightarrow> c = d"
  by (induction data arbitrary: c d) (auto dest: crcByte_inj_crc)

lemma crc32_inj_fold:
  assumes "crc32 xs = crc32 ys"
  shows "foldl crcByte kInitial xs = foldl crcByte kInitial ys"
proof -
  have "kInitial XOR foldl crcByte kInitial xs = kInitial XOR foldl crcByte kInitial ys"
    using assms by (simp only: crc32_def xor.commute)
  then show ?thesis by (rule xor_cancel)
qed

lemma crc32_detects:
  assumes "a \<noteq> b"
  shows "crc32 (xs @ a # ys) \<noteq> crc32 (xs @ b # ys)"
proof
  assume "crc32 (xs @ a # ys) = crc32 (xs @ b # ys)"
  then have "foldl crcByte (crcByte (foldl crcByte kInitial xs) a) ys
      = foldl crcByte (crcByte (foldl crcByte kInitial xs) b) ys"
    by (drule_tac crc32_inj_fold) simp
  then have "crcByte (foldl crcByte kInitial xs) a = crcByte (foldl crcByte kInitial xs) b"
    by (rule foldl_crcByte_inj)
  then show False using assms crcByte_inj_byte by blast
qed

subsection \<open>Properties\<close>

text \<open>
  the 256-entry table lookup computes, on every input, exactly the bit-serial reflected
  CRC-32 register with polynomial 0xEDB88320.
\<close>
theorem table_checksum_is_bit_serial: "crc32 data = crc_reference data"
  by (rule crc32_reference)

text \<open>
  replacing any one byte of a message by a different one always changes its checksum, whatever
  precedes and follows it, so no single-byte corruption passes the check.
\<close>
theorem checksum_detects_corrupt_byte:
  assumes "a \<noteq> b"
  shows "crc32 (xs @ a # ys) \<noteq> crc32 (xs @ b # ys)"
  using assms by (rule crc32_detects)

theorem checksum_detects_corrupt_byte_witness:
  "crc32 ([0x45, 0x46] @ 0x49 # [0x20]) \<noteq> crc32 ([0x45, 0x46] @ 0x48 # [0x20])"
  by (rule checksum_detects_corrupt_byte) simp

end
