(* ===== verification/Gpt.thy ===== *)
theory Gpt
  imports Devices Names Crc32
begin

text \<open>
  \<open>src/volume/Gpt.cpp\<close>, \<open>GptHeaderFields.cpp\<close>, \<open>GptEntry.cpp\<close>,
  \<open>GptEntryArray.cpp\<close>, \<open>GptPlacement.cpp\<close> and \<open>GptPartitions.cpp\<close>: the GUID
  partition table, its checksummed header and entry array, and the choice between the primary copy
  and the backup in the last sector.
\<close>

subsection \<open>Layout\<close>

definition kPrimaryHeaderLba :: u64 where "kPrimaryHeaderLba = 1"
definition kGptHeaderBytes :: size_t where "kGptHeaderBytes = 92"
definition kGuidBytes :: size_t where "kGuidBytes = 16"
definition kGptEntryBytes :: size_t where "kGptEntryBytes = 128"
definition kMaxEntryArrayBytes :: size_t where "kMaxEntryArrayBytes = 2 ^ 22"

definition kGptSignatureOffset :: u64 where "kGptSignatureOffset = 0x00"
definition kHeaderSizeOffset :: u64 where "kHeaderSizeOffset = 0x0C"
definition kHeaderCrcOffset :: u64 where "kHeaderCrcOffset = 0x10"
definition kMyLbaOffset :: u64 where "kMyLbaOffset = 0x18"
definition kAlternateLbaOffset :: u64 where "kAlternateLbaOffset = 0x20"
definition kFirstUsableOffset :: u64 where "kFirstUsableOffset = 0x28"
definition kLastUsableOffset :: u64 where "kLastUsableOffset = 0x30"
definition kEntryArrayLbaOffset :: u64 where "kEntryArrayLbaOffset = 0x48"
definition kEntryCountOffset :: u64 where "kEntryCountOffset = 0x50"
definition kEntryBytesOffset :: u64 where "kEntryBytesOffset = 0x54"
definition kEntryArrayCrcOffset :: u64 where "kEntryArrayCrcOffset = 0x58"
definition kGptSignature :: bytes where
  "kGptSignature = [0x45, 0x46, 0x49, 0x20, 0x50, 0x41, 0x52, 0x54]"

definition kTypeGuidOffset :: u64 where "kTypeGuidOffset = 0x00"
definition kEntryFirstLbaOffset :: u64 where "kEntryFirstLbaOffset = 0x20"
definition kEntryLastLbaOffset :: u64 where "kEntryLastLbaOffset = 0x28"
definition kEntryNameOffset :: u64 where "kEntryNameOffset = 0x38"
definition kEntryNameBytes :: size_t where "kEntryNameBytes = 72"
definition kEntrySizeGranularity :: u32 where "kEntrySizeGranularity = 8"
definition kCrcFieldBytes :: size_t where "kCrcFieldBytes = 4"

lemmas gpt_consts =
  kPrimaryHeaderLba_def kGptHeaderBytes_def kGuidBytes_def kGptEntryBytes_def kMaxEntryArrayBytes_def
  kGptSignatureOffset_def kHeaderSizeOffset_def kHeaderCrcOffset_def kMyLbaOffset_def kAlternateLbaOffset_def
  kFirstUsableOffset_def kLastUsableOffset_def kEntryArrayLbaOffset_def kEntryCountOffset_def
  kEntryBytesOffset_def kEntryArrayCrcOffset_def kTypeGuidOffset_def kEntryFirstLbaOffset_def
  kEntryLastLbaOffset_def kEntryNameOffset_def kEntryNameBytes_def kEntrySizeGranularity_def kCrcFieldBytes_def

subsection \<open>The header\<close>

record GptHeader =
  gh_myLba :: u64
  gh_alternateLba :: u64
  gh_firstUsableLba :: u64
  gh_lastUsableLba :: u64
  gh_entryArrayLba :: u64
  gh_entryCount :: u32
  gh_entryBytes :: u32
  gh_entryArrayCrc :: u32

definition emptyGptHeader :: GptHeader where
  "emptyGptHeader = \<lparr>gh_myLba = 0, gh_alternateLba = 0, gh_firstUsableLba = 0, gh_lastUsableLba = 0,
     gh_entryArrayLba = 0, gh_entryCount = 0, gh_entryBytes = 0, gh_entryArrayCrc = 0\<rparr>"

definition checksumField :: "bytes \<Rightarrow> nat \<times> nat" where
  "checksumField header =
     (if length header < kHeaderCrcOffset + kCrcFieldBytes then (0, 0) else (kHeaderCrcOffset, kCrcFieldBytes))"

definition withoutChecksum :: "bytes \<Rightarrow> bytes" where
  "withoutChecksum header =
     (case checksumField header of (at, len) \<Rightarrow> overwrite header at (replicate len 0))"

definition withUsableRange :: "bytes \<Rightarrow> GptHeader \<Rightarrow> GptHeader result" where
  "withUsableRange reader header =
     andThen (readLe 8 reader kFirstUsableOffset) (\<lambda>first.
     andThen (readLe 8 reader kLastUsableOffset) (\<lambda>last'.
       if first > last' then Inl (mkError kInvalidArgument kFirstUsableOffset)
       else Inr (header\<lparr>gh_firstUsableLba := first, gh_lastUsableLba := last'\<rparr>)))"

definition entrySizeIn :: "bytes \<Rightarrow> u32 result" where
  "entrySizeIn reader =
     andThen (readLe 4 reader kEntryBytesOffset)
       (\<lambda>sz. if sz < kGptEntryBytes \<or> sz mod kEntrySizeGranularity \<noteq> 0
             then Inl (mkError kInvalidArgument kEntryBytesOffset) else Inr sz)"

definition entryCountIn :: "bytes \<Rightarrow> u32 \<Rightarrow> u32 result" where
  "entryCountIn reader entryBytes =
     andThen (readLe 4 reader kEntryCountOffset)
       (\<lambda>cnt. if wrap64 (cnt * entryBytes) > kMaxEntryArrayBytes
              then Inl (mkError kOutOfRange kEntryCountOffset) else Inr cnt)"

definition withEntryArray :: "bytes \<Rightarrow> GptHeader \<Rightarrow> GptHeader result" where
  "withEntryArray reader header =
     andThen (entrySizeIn reader) (\<lambda>entryBytes.
       mapResult (entryCountIn reader entryBytes)
         (\<lambda>cnt. header\<lparr>gh_entryBytes := entryBytes, gh_entryCount := cnt\<rparr>))"

definition withPlacement :: "bytes \<Rightarrow> GptHeader \<Rightarrow> GptHeader result" where
  "withPlacement reader header =
     andThen (readLe 8 reader kMyLbaOffset) (\<lambda>mine.
       mapResult (readLe 8 reader kAlternateLbaOffset)
         (\<lambda>alternate. header\<lparr>gh_myLba := mine, gh_alternateLba := alternate\<rparr>))"

definition withArrayLocation :: "bytes \<Rightarrow> GptHeader \<Rightarrow> GptHeader result" where
  "withArrayLocation reader header =
     andThen (readLe 8 reader kEntryArrayLbaOffset) (\<lambda>lba.
       mapResult (readLe 4 reader kEntryArrayCrcOffset)
         (\<lambda>crc. header\<lparr>gh_entryArrayLba := lba, gh_entryArrayCrc := crc\<rparr>))"

definition namesGpt :: "bytes \<Rightarrow> bool result" where
  "namesGpt reader =
     andThen (bytesAt reader kGptSignatureOffset (length kGptSignature))
       (\<lambda>raw. if raw \<noteq> kGptSignature then Inl (mkError kInvalidArgument kGptSignatureOffset) else Inr True)"

definition headerSizeIn :: "bytes \<Rightarrow> size_t \<Rightarrow> size_t result" where
  "headerSizeIn reader available =
     andThen (readLe 4 reader kHeaderSizeOffset)
       (\<lambda>sz. if sz < kGptHeaderBytes \<or> sz > available then Inl (mkError kInvalidArgument kHeaderSizeOffset)
             else Inr sz)"

definition checksumIsValid :: "bytes \<Rightarrow> bool result" where
  "checksumIsValid header =
     andThen (readLe 4 header kHeaderCrcOffset)
       (\<lambda>stated. if unat (crc32 (withoutChecksum header)) \<noteq> stated
                 then Inl (mkError kInvalidArgument kHeaderCrcOffset) else Inr True)"

definition placedAt :: "bytes \<Rightarrow> u64 \<Rightarrow> bool result" where
  "placedAt reader atLba =
     andThen (readLe 8 reader kMyLbaOffset)
       (\<lambda>mine. if mine \<noteq> atLba then Inl (mkError kInvalidArgument kMyLbaOffset) else Inr True)"

definition headerBodyOf :: "bytes \<Rightarrow> GptHeader result" where
  "headerBodyOf reader =
     andThen (andThen (andThen (withPlacement reader emptyGptHeader) (withUsableRange reader))
       (withArrayLocation reader)) (withEntryArray reader)"

definition verifiedHeader :: "bytes \<Rightarrow> u64 \<Rightarrow> GptHeader result" where
  "verifiedHeader header atLba =
     andThen (andThen (checksumIsValid header) (\<lambda>_. placedAt header atLba)) (\<lambda>_. headerBodyOf header)"

definition parseGptHeader :: "bytes \<Rightarrow> u64 \<Rightarrow> GptHeader result" where
  "parseGptHeader sector atLba =
     (if length sector < kGptHeaderBytes then Inl (mkError kOutOfRange (length sector))
      else andThen (andThen (namesGpt sector) (\<lambda>_. headerSizeIn sector (length sector)))
             (\<lambda>sz. verifiedHeader (take sz sector) atLba))"

subsection \<open>Entries\<close>

record GptEntry =
  ge_typeGuid :: bytes
  ge_firstLba :: u64
  ge_lastLba :: u64
  ge_name :: bytes
  ge_nameIsExact :: bool

fun nameUnitsOf :: "bytes \<Rightarrow> bytes" where
  "nameUnitsOf (a # b # rest) = (if a = 0 \<and> b = 0 then [] else a # b # nameUnitsOf rest)"
| "nameUnitsOf field = field"

definition rangeOf :: "bytes \<Rightarrow> (u64 \<times> u64) result" where
  "rangeOf reader =
     andThen (readLe 8 reader kEntryFirstLbaOffset) (\<lambda>first.
     andThen (readLe 8 reader kEntryLastLbaOffset) (\<lambda>last'.
       if last' < first then Inl (mkError kInvalidArgument kEntryLastLbaOffset) else Inr (first, last')))"

definition entryWith :: "bytes \<Rightarrow> u64 \<times> u64 \<Rightarrow> GptEntry result" where
  "entryWith reader lbas =
     andThen (bytesAt reader kTypeGuidOffset kGuidBytes) (\<lambda>guid.
       mapResult (bytesAt reader kEntryNameOffset kEntryNameBytes)
         (\<lambda>field. let decoded = decodeUtf16Name (nameUnitsOf field)
                  in \<lparr>ge_typeGuid = guid, ge_firstLba = fst lbas, ge_lastLba = snd lbas,
                      ge_name = dn_utf8 decoded, ge_nameIsExact = dn_lossless decoded\<rparr>))"

definition parseGptEntry :: "bytes \<Rightarrow> GptEntry result" where
  "parseGptEntry slot =
     (if length slot < kGptEntryBytes then Inl (mkError kOutOfRange (length slot))
      else let reader = take kGptEntryBytes slot in andThen (rangeOf reader) (entryWith reader))"

definition isUnusedEntry :: "GptEntry \<Rightarrow> bool" where
  "isUnusedEntry entry = list_all (\<lambda>val. val = 0) (ge_typeGuid entry)"

subsection \<open>The entry array\<close>

definition arrayBytesOf :: "GptHeader \<Rightarrow> size_t" where
  "arrayBytesOf header = wrap64 (gh_entryCount header * gh_entryBytes header)"

definition arrayAt :: "BlockDevice \<Rightarrow> u64 \<Rightarrow> size_t \<Rightarrow> bytes result" where
  "arrayAt device off want =
     (case bd_readAt device off want of
        Inl e \<Rightarrow> Inl e
      | Inr got \<Rightarrow> if length got < want then Inl (mkError kOutOfRange off) else Inr got)"

definition checksummed :: "bytes \<Rightarrow> GptHeader \<Rightarrow> bytes result" where
  "checksummed array header =
     (if unat (crc32 array) \<noteq> gh_entryArrayCrc header then Inl (mkError kInvalidArgument kEntryArrayCrcOffset)
      else Inr array)"

definition readEntryArray :: "BlockDevice \<Rightarrow> GptHeader \<Rightarrow> bytes result" where
  "readEntryArray device header =
     andThen (andThen (byteOffsetOf device (gh_entryArrayLba header))
       (\<lambda>off. arrayAt device off (arrayBytesOf header))) (\<lambda>array. checksummed array header)"

subsection \<open>Placement\<close>

record GptPartition =
  gp_startBytes :: u64
  gp_lengthBytes :: u64
  gp_typeGuid :: bytes
  gp_name :: bytes
  gp_nameIsExact :: bool

definition lengthBytesOf :: "GptEntry \<Rightarrow> u32 \<Rightarrow> u64 result" where
  "lengthBytesOf entry sectorSize =
     andThen (safeAdd64 (wrap_sub64 (ge_lastLba entry) (ge_firstLba entry)) 1 0)
       (\<lambda>sectors. safeMul64 sectors sectorSize 0)"

definition gptPartitionOf :: "GptEntry \<Rightarrow> u32 \<Rightarrow> GptPartition result" where
  "gptPartitionOf entry sectorSize =
     andThen (safeMul64 (ge_firstLba entry) sectorSize 0) (\<lambda>startBytes.
       mapResult (lengthBytesOf entry sectorSize)
         (\<lambda>lengthBytes. \<lparr>gp_startBytes = startBytes, gp_lengthBytes = lengthBytes,
            gp_typeGuid = ge_typeGuid entry, gp_name = ge_name entry, gp_nameIsExact = ge_nameIsExact entry\<rparr>))"

definition appendEntry :: "bytes \<Rightarrow> GptPartition list \<Rightarrow> u32 \<Rightarrow> GptPartition list result" where
  "appendEntry slot found sectorSize =
     andThen (parseGptEntry slot) (\<lambda>entry.
       if isUnusedEntry entry then Inr found
       else mapResult (gptPartitionOf entry sectorSize) (\<lambda>part. found @ [part]))"

definition slotAt :: "bytes \<Rightarrow> GptHeader \<Rightarrow> nat \<Rightarrow> bytes" where
  "slotAt array header index = take (gh_entryBytes header) (drop (wrap64 (index * gh_entryBytes header)) array)"

definition partitionsIn :: "bytes \<Rightarrow> GptHeader \<Rightarrow> u32 \<Rightarrow> GptPartition list result" where
  "partitionsIn array header sectorSize =
     foldl (\<lambda>found index. andThen found (\<lambda>built. appendEntry (slotAt array header index) built sectorSize))
       (Inr []) [0..<gh_entryCount header]"

subsection \<open>The two copies\<close>

record GptDisk =
  gd_partitions :: "GptPartition list"
  gd_fromBackupHeader :: bool

definition lastLbaOf :: "BlockDevice \<Rightarrow> u64 result" where
  "lastLbaOf device =
     (let sectorSize = bd_sectorSize device
      in if sectorSize = 0 \<or> bd_size device < sectorSize then Inl (mkError kInvalidArgument 0)
         else Inr (bd_size device div sectorSize - 1))"

definition partitionsFor :: "BlockDevice \<Rightarrow> GptHeader \<Rightarrow> GptPartition list result" where
  "partitionsFor device header =
     andThen (readEntryArray device header) (\<lambda>array. partitionsIn array header (bd_sectorSize device))"

definition tableAt :: "BlockDevice \<Rightarrow> u64 \<Rightarrow> GptPartition list result" where
  "tableAt device lba =
     andThen (andThen (readTableSector device lba) (\<lambda>sector. parseGptHeader sector lba)) (partitionsFor device)"

definition backupTable :: "BlockDevice \<Rightarrow> GptPartition list result" where
  "backupTable device = andThen (lastLbaOf device) (tableAt device)"

definition readGptPartitions :: "BlockDevice \<Rightarrow> GptDisk result" where
  "readGptPartitions device =
     (case tableAt device kPrimaryHeaderLba of
        Inr parts \<Rightarrow> Inr \<lparr>gd_partitions = parts, gd_fromBackupHeader = False\<rparr>
      | Inl primary \<Rightarrow>
          (case backupTable device of
             Inl _ \<Rightarrow> Inl primary
           | Inr parts \<Rightarrow> Inr \<lparr>gd_partitions = parts, gd_fromBackupHeader = True\<rparr>))"

subsection \<open>What the header parser accepts\<close>

definition header_size :: "bytes \<Rightarrow> nat" where "header_size sector = le_at 4 sector 12"

definition header_of :: "bytes \<Rightarrow> GptHeader" where
  "header_of sector =
     \<lparr>gh_myLba = le_at 8 sector 24, gh_alternateLba = le_at 8 sector 32,
      gh_firstUsableLba = le_at 8 sector 40, gh_lastUsableLba = le_at 8 sector 48,
      gh_entryArrayLba = le_at 8 sector 72, gh_entryCount = le_at 4 sector 80,
      gh_entryBytes = le_at 4 sector 84, gh_entryArrayCrc = le_at 4 sector 88\<rparr>"

definition header_rules :: "GptHeader \<Rightarrow> bool" where
  "header_rules h \<longleftrightarrow>
     gh_firstUsableLba h \<le> gh_lastUsableLba h \<and> 128 \<le> gh_entryBytes h \<and> 8 dvd gh_entryBytes h \<and>
     gh_entryCount h * gh_entryBytes h \<le> kMaxEntryArrayBytes"

definition signed_by_crc :: "bytes \<Rightarrow> bool" where
  "signed_by_crc header \<longleftrightarrow>
     unat (crc32 (take 16 header @ replicate 4 0 @ drop 20 header)) = le_at 4 header 16"

definition gpt_header_valid :: "bytes \<Rightarrow> nat \<Rightarrow> bool" where
  "gpt_header_valid sector lba \<longleftrightarrow>
     92 \<le> length sector \<and> take 8 sector = kGptSignature \<and>
     92 \<le> header_size sector \<and> header_size sector \<le> length sector \<and>
     signed_by_crc (take (header_size sector) sector) \<and>
     gh_myLba (header_of sector) = lba \<and> header_rules (header_of sector)"

lemma header_of_take: "92 \<le> k \<Longrightarrow> header_of (take k sector) = header_of sector"
  by (simp add: header_of_def le_at_take)

lemma array_product: "wrap64 (le_at 4 s a * le_at 4 s b) = le_at 4 s a * le_at 4 s b"
proof -
  have "le_at 4 s a \<le> max32" "le_at 4 s b \<le> max32"
    using le_at_less [of 4 s a] le_at_less [of 4 s b] by (simp_all add: max32_def)
  then have "le_at 4 s a * le_at 4 s b \<le> max32 * max32" by (rule mult_le_mono)
  then show ?thesis by (intro wrap64_id) (simp add: max32_def max64_def)
qed

lemma withoutChecksum_eq: "92 \<le> length h \<Longrightarrow> withoutChecksum h = take 16 h @ replicate 4 0 @ drop 20 h"
  by (simp add: withoutChecksum_def checksumField_def gpt_consts overwrite_def)

lemma headerBodyOf_Inr_iff:
  assumes "92 \<le> length h"
  shows "headerBodyOf h = Inr g \<longleftrightarrow> header_rules (header_of h) \<and> g = header_of h"
proof -
  have "headerBodyOf h = Inr g \<longleftrightarrow>
      le_at 8 h 40 \<le> le_at 8 h 48 \<and> (128 \<le> le_at 4 h 84 \<and> le_at 4 h 84 mod 8 = 0) \<and>
      le_at 4 h 80 * le_at 4 h 84 \<le> kMaxEntryArrayBytes \<and> g = header_of h"
    using assms array_product [of h 80 84]
    by (auto simp: headerBodyOf_def withPlacement_def withUsableRange_def withArrayLocation_def withEntryArray_def
        entrySizeIn_def entryCountIn_def gpt_consts readLe_le_at andThen_Inr_iff mapResult_Inr_iff
        emptyGptHeader_def header_of_def simp del: readLe_in_range split: if_splits)
  then show ?thesis by (auto simp: header_rules_def header_of_def dvd_eq_mod_eq_0)
qed

lemma verifiedHeader_Inr_iff:
  assumes "92 \<le> length h"
  shows "verifiedHeader h lba = Inr g \<longleftrightarrow>
    signed_by_crc h \<and> gh_myLba (header_of h) = lba \<and> header_rules (header_of h) \<and> g = header_of h"
proof -
  have "checksumIsValid h = (if signed_by_crc h then Inr True else Inl (mkError kInvalidArgument kHeaderCrcOffset))"
    using assms by (simp add: checksumIsValid_def kHeaderCrcOffset_def readLe_le_at signed_by_crc_def withoutChecksum_eq
        del: readLe_in_range)
  moreover have "placedAt h lba = (if gh_myLba (header_of h) = lba then Inr True
      else Inl (mkError kInvalidArgument kMyLbaOffset))"
    using assms by (simp add: placedAt_def kMyLbaOffset_def readLe_le_at header_of_def del: readLe_in_range)
  ultimately show ?thesis by (auto simp: verifiedHeader_def headerBodyOf_Inr_iff [OF assms])
qed

lemma parseGptHeader_Inr_iff:
  "parseGptHeader sector lba = Inr g \<longleftrightarrow> gpt_header_valid sector lba \<and> g = header_of sector"
proof (cases "92 \<le> length sector")
  case True
  let ?h = "take (header_size sector) sector"
  have sig: "length kGptSignature = 8" by (simp add: kGptSignature_def)
  have "namesGpt sector = (if take 8 sector = kGptSignature then Inr True
      else Inl (mkError kInvalidArgument kGptSignatureOffset))"
    using True sig by (simp add: namesGpt_def kGptSignatureOffset_def)
  moreover have "headerSizeIn sector (length sector) =
      (if 92 \<le> header_size sector \<and> header_size sector \<le> length sector then Inr (header_size sector)
       else Inl (mkError kInvalidArgument kHeaderSizeOffset))"
    using True by (auto simp: headerSizeIn_def header_size_def readLe_le_at kHeaderSizeOffset_def kGptHeaderBytes_def
        simp del: readLe_in_range)
  moreover have "verifiedHeader ?h lba = Inr g \<longleftrightarrow>
      signed_by_crc ?h \<and> gh_myLba (header_of sector) = lba \<and> header_rules (header_of sector) \<and> g = header_of sector"
    if "92 \<le> header_size sector" "header_size sector \<le> length sector"
    using verifiedHeader_Inr_iff [of ?h lba g] that by (simp add: header_of_take)
  ultimately show ?thesis using True by (auto simp: parseGptHeader_def kGptHeaderBytes_def gpt_header_valid_def)
next
  case False
  then show ?thesis by (simp add: parseGptHeader_def kGptHeaderBytes_def gpt_header_valid_def)
qed

subsection \<open>Corruption\<close>

lemma le_at_update_other: "i < at \<or> at + w \<le> i \<Longrightarrow> le_at w (sector[i := b]) at = le_at w sector at"
  by (auto simp: le_at_def drop_update_swap)

lemma le_at_update_same:
  assumes "at \<le> i" and "i < at + w" and "i < length sector" and "b \<noteq> sector ! i"
  shows "le_at w (sector[i := b]) at \<noteq> le_at w sector at"
proof
  let ?x = "take w (drop at (sector[i := b]))" and ?y = "take w (drop at sector)"
  assume "le_at w (sector[i := b]) at = le_at w sector at"
  moreover have "length ?x = length ?y" by simp
  ultimately have "?x = ?y" unfolding le_at_def by (metis leBytes_leNat)
  then have "?x ! (i - at) = ?y ! (i - at)" by simp
  then show False using assms by simp
qed

lemma signed_by_crc_update:
  assumes "signed_by_crc h" and "i < length h" and "b \<noteq> h ! i" and "20 \<le> length h"
  shows "\<not> signed_by_crc (h[i := b])"
proof -
  consider "i < 16" | "16 \<le> i" "i < 20" | "20 \<le> i" by linarith
  then show ?thesis
  proof cases
    case 1
    let ?rest = "drop (Suc i) (take 16 h) @ replicate 4 0 @ drop 20 h"
    have split: "take 16 (h[i := c]) @ replicate 4 0 @ drop 20 (h[i := c]) = take i (take 16 h) @ c # ?rest" for c
    proof -
      have "take 16 (h[i := c]) = (take 16 h)[i := c]" by (simp add: take_update_swap)
      also have "\<dots> = take i (take 16 h) @ c # drop (Suc i) (take 16 h)"
        using 1 assms(4) by (intro upd_conv_take_nth_drop) simp
      finally show ?thesis using 1 by simp
    qed
    have self: "take 16 h @ replicate 4 0 @ drop 20 h = take i (take 16 h) @ h ! i # ?rest"
      using split [of "h ! i"] by simp
    have "crc32 (take i (take 16 h) @ b # ?rest) \<noteq> crc32 (take i (take 16 h) @ h ! i # ?rest)"
      using assms(3) by (rule crc32_detects)
    then have "unat (crc32 (take i (take 16 h) @ b # ?rest)) \<noteq> unat (crc32 (take i (take 16 h) @ h ! i # ?rest))"
      by (simp only: word_unat_eq_iff [symmetric] simp_thms)
    moreover have "le_at 4 (h[i := b]) 16 = le_at 4 h 16" using 1 by (intro le_at_update_other) simp
    ultimately show ?thesis using assms(1) unfolding signed_by_crc_def split self by simp
  next
    case 2
    then have "take 16 (h[i := b]) = take 16 h" "drop 20 (h[i := b]) = drop 20 h" by simp_all
    moreover have "le_at 4 (h[i := b]) 16 \<noteq> le_at 4 h 16"
      using 2 assms(2,3) by (intro le_at_update_same) simp_all
    ultimately show ?thesis using assms(1) by (simp add: signed_by_crc_def)
  next
    case 3
    let ?pre = "take 16 h @ replicate 4 0 @ take (i - 20) (drop 20 h)" and ?post = "drop (Suc i) h"
    have split: "take 16 (h[i := c]) @ replicate 4 0 @ drop 20 (h[i := c]) = ?pre @ c # ?post" for c
    proof -
      have "drop 20 (h[i := c]) = (drop 20 h)[i - 20 := c]" using 3 by (simp add: drop_update_swap)
      also have "\<dots> = take (i - 20) (drop 20 h) @ c # drop (Suc i) h"
        using 3 assms(2) by (simp add: upd_conv_take_nth_drop Suc_diff_le [symmetric] add.commute)
      finally show ?thesis using 3 by simp
    qed
    have self: "take 16 h @ replicate 4 0 @ drop 20 h = ?pre @ h ! i # ?post"
      using split [of "h ! i"] by simp
    have "crc32 (?pre @ b # ?post) \<noteq> crc32 (?pre @ h ! i # ?post)"
      using assms(3) by (rule crc32_detects)
    then have "unat (crc32 (?pre @ b # ?post)) \<noteq> unat (crc32 (?pre @ h ! i # ?post))"
      by (simp only: word_unat_eq_iff [symmetric] simp_thms)
    moreover have "le_at 4 (h[i := b]) 16 = le_at 4 h 16" using 3 by (intro le_at_update_other) simp
    ultimately show ?thesis using assms(1) unfolding signed_by_crc_def split self by simp
  qed
qed

lemma corrupt_header_invalid:
  assumes "gpt_header_valid sector lba" and "i < header_size sector" and "i \<notin> {12..<16}" and "b \<noteq> sector ! i"
  shows "\<not> gpt_header_valid (sector[i := b]) lba'"
proof -
  have size: "header_size (sector[i := b]) = header_size sector"
    unfolding header_size_def using assms(3) by (intro le_at_update_other) auto
  have "\<not> signed_by_crc ((take (header_size sector) sector)[i := b])"
    using assms by (intro signed_by_crc_update) (auto simp: gpt_header_valid_def)
  then show ?thesis using assms(2) by (simp add: gpt_header_valid_def size take_update_swap)
qed

subsection \<open>What the entry array says\<close>

definition entry_of :: "bytes \<Rightarrow> GptEntry" where
  "entry_of slot =
     (let name = decodeUtf16Name (nameUnitsOf (take 72 (drop 56 slot)))
      in \<lparr>ge_typeGuid = take 16 slot, ge_firstLba = le_at 8 slot 32, ge_lastLba = le_at 8 slot 40,
          ge_name = dn_utf8 name, ge_nameIsExact = dn_lossless name\<rparr>)"

definition slot_bytes :: "bytes \<Rightarrow> nat \<Rightarrow> nat \<Rightarrow> bytes" where
  "slot_bytes array stride i = take 128 (drop (i * stride) array)"

definition gpt_partition :: "nat \<Rightarrow> GptEntry \<Rightarrow> GptPartition" where
  "gpt_partition ss e =
     \<lparr>gp_startBytes = ge_firstLba e * ss, gp_lengthBytes = (ge_lastLba e - ge_firstLba e + 1) * ss,
      gp_typeGuid = ge_typeGuid e, gp_name = ge_name e, gp_nameIsExact = ge_nameIsExact e\<rparr>"

definition entry_fits :: "nat \<Rightarrow> GptEntry \<Rightarrow> bool" where
  "entry_fits ss e \<longleftrightarrow>
     ge_firstLba e \<le> ge_lastLba e \<and>
     (\<not> isUnusedEntry e \<longrightarrow>
        ge_firstLba e * ss \<le> max64 \<and> ge_lastLba e - ge_firstLba e < max64 \<and>
        (ge_lastLba e - ge_firstLba e + 1) * ss \<le> max64)"

lemma parseGptEntry_Inr_iff:
  assumes "128 \<le> length slot"
  shows "parseGptEntry slot = Inr e \<longleftrightarrow>
    ge_firstLba e \<le> ge_lastLba e \<and> e = entry_of (take 128 slot)"
proof -
  let ?r = "take 128 slot"
  have "bytesAt ?r 0 16 = Inr (take 16 ?r)" "bytesAt ?r 56 72 = Inr (take 72 (drop 56 ?r))"
    using assms by (simp_all add: bytesAt_Inr_iff)
  moreover have "readLe 8 ?r 32 = Inr (le_at 8 ?r 32)" "readLe 8 ?r 40 = Inr (le_at 8 ?r 40)"
    using assms by (simp_all add: readLe_le_at del: readLe_in_range take_take drop_take)
  ultimately show ?thesis
    using assms
    by (auto simp: parseGptEntry_def rangeOf_def entryWith_def gpt_consts Let_def entry_of_def
        simp del: readLe_in_range bytesAt_in_range take_take drop_take)
qed

lemma gptPartitionOf_Inr_iff:
  assumes "ge_firstLba e \<le> ge_lastLba e" and "ge_lastLba e \<le> max64" and "\<not> isUnusedEntry e"
  shows "gptPartitionOf e ss = Inr p \<longleftrightarrow> entry_fits ss e \<and> p = gpt_partition ss e"
  using assms
  by (auto simp: gptPartitionOf_def lengthBytesOf_def wrap_sub64_def safeAdd64_exact safeMul64_exact
      andThen_Inr_iff mapResult_Inr_iff entry_fits_def gpt_partition_def split: if_splits)

lemma entry_of_lba: "ge_lastLba (entry_of slot) \<le> max64"
proof -
  have "le_at 8 slot 40 < 256 ^ 8" by (rule le_at_less)
  also have "(256 :: nat) ^ 8 = 2 ^ 64" by simp
  finally show ?thesis by (simp add: entry_of_def Let_def max64_less_iff)
qed

lemma appendEntry_Inr_iff:
  assumes "128 \<le> length slot"
  shows "appendEntry slot found ss = Inr out \<longleftrightarrow>
    entry_fits ss (entry_of (take 128 slot)) \<and>
    out = found @ (if isUnusedEntry (entry_of (take 128 slot)) then [] else [gpt_partition ss (entry_of (take 128 slot))])"
proof -
  let ?e = "entry_of (take 128 slot)"
  have "appendEntry slot found ss = Inr out \<longleftrightarrow> ge_firstLba ?e \<le> ge_lastLba ?e \<and>
      (if isUnusedEntry ?e then out = found
       else \<exists>p. gptPartitionOf ?e ss = Inr p \<and> out = found @ [p])"
    by (auto simp: appendEntry_def andThen_Inr_iff parseGptEntry_Inr_iff [OF assms] mapResult_Inr_iff)
  then show ?thesis
    using gptPartitionOf_Inr_iff [of ?e ss] entry_of_lba [of "take 128 slot"]
    by (cases "isUnusedEntry ?e") (auto simp: entry_fits_def)
qed

lemma concat_map_filter: "concat (map (\<lambda>i. if P i then [] else [f i]) is) = map f (filter (\<lambda>i. \<not> P i) is)"
  by (induction "is") simp_all

lemma slotAt_eq:
  assumes "i < gh_entryCount h" and "length array = gh_entryCount h * gh_entryBytes h"
    and "length array \<le> max64" and "128 \<le> gh_entryBytes h"
  shows "128 \<le> length (slotAt array h i)" and "take 128 (slotAt array h i) = slot_bytes array (gh_entryBytes h) i"
proof -
  have "(i + 1) * gh_entryBytes h \<le> length array" using assms(1,2) by (simp add: mult_le_mono1 del: mult_Suc)
  then have "i * gh_entryBytes h + gh_entryBytes h \<le> length array" by (simp add: algebra_simps)
  moreover from this have "wrap64 (i * gh_entryBytes h) = i * gh_entryBytes h" using assms(3) by simp
  ultimately show "128 \<le> length (slotAt array h i)"
    and "take 128 (slotAt array h i) = slot_bytes array (gh_entryBytes h) i"
    using assms(4) by (simp_all add: slotAt_def slot_bytes_def)
qed

lemma partitionsIn_Inr_iff:
  assumes "header_rules h" and "length array = gh_entryCount h * gh_entryBytes h"
  shows "partitionsIn array h ss = Inr ps \<longleftrightarrow>
    (\<forall>i < gh_entryCount h. entry_fits ss (entry_of (slot_bytes array (gh_entryBytes h) i))) \<and>
    ps = map (gpt_partition ss) (filter (\<lambda>e. \<not> isUnusedEntry e)
           (map (\<lambda>i. entry_of (slot_bytes array (gh_entryBytes h) i)) [0..<gh_entryCount h]))"
proof -
  let ?e = "\<lambda>i. entry_of (slot_bytes array (gh_entryBytes h) i)"
  have "length array \<le> max64" "128 \<le> gh_entryBytes h"
    using assms by (simp_all add: header_rules_def kMaxEntryArrayBytes_def max64_def)
  then have step: "appendEntry (slotAt array h i) found ss = Inr out \<longleftrightarrow> entry_fits ss (?e i) \<and>
      out = found @ (if isUnusedEntry (?e i) then [] else [gpt_partition ss (?e i)])"
    if "i < gh_entryCount h" for i found out
    using slotAt_eq [OF that assms(2)] appendEntry_Inr_iff [of "slotAt array h i" found ss out] by simp
  have "partitionsIn array h ss = Inr ps \<longleftrightarrow> (\<forall>i \<in> set [0..<gh_entryCount h]. entry_fits ss (?e i)) \<and>
      ps = [] @ concat (map (\<lambda>i. if isUnusedEntry (?e i) then [] else [gpt_partition ss (?e i)]) [0..<gh_entryCount h])"
    unfolding partitionsIn_def using step by (intro foldl_andThen_Inr_iff) auto
  then show ?thesis by (simp add: concat_map_filter filter_map comp_def Ball_def)
qed

subsection \<open>A whole copy of the table\<close>

definition table_sector :: "bytes \<Rightarrow> nat \<Rightarrow> nat \<Rightarrow> bytes" where
  "table_sector content ss lba = take 512 (drop (lba * ss) content)"

definition table_array :: "bytes \<Rightarrow> nat \<Rightarrow> GptHeader \<Rightarrow> bytes" where
  "table_array content ss h = take (gh_entryCount h * gh_entryBytes h) (drop (gh_entryArrayLba h * ss) content)"

definition table_entries :: "bytes \<Rightarrow> nat \<Rightarrow> GptHeader \<Rightarrow> GptEntry list" where
  "table_entries content ss h =
     map (\<lambda>i. entry_of (slot_bytes (table_array content ss h) (gh_entryBytes h) i)) [0..<gh_entryCount h]"

definition gpt_copy_valid :: "bytes \<Rightarrow> nat \<Rightarrow> nat \<Rightarrow> bool" where
  "gpt_copy_valid content ss lba \<longleftrightarrow>
     (let h = header_of (table_sector content ss lba)
      in lba < length content div ss \<and> lba * ss + 512 \<le> length content \<and>
         gpt_header_valid (table_sector content ss lba) lba \<and>
         gh_entryArrayLba h < length content div ss \<and>
         gh_entryArrayLba h * ss + gh_entryCount h * gh_entryBytes h \<le> length content \<and>
         unat (crc32 (table_array content ss h)) = gh_entryArrayCrc h \<and>
         list_all (entry_fits ss) (table_entries content ss h))"

definition gpt_copy_partitions :: "bytes \<Rightarrow> nat \<Rightarrow> nat \<Rightarrow> GptPartition list" where
  "gpt_copy_partitions content ss lba =
     map (gpt_partition ss) (filter (\<lambda>e. \<not> isUnusedEntry e)
       (table_entries content ss (header_of (table_sector content ss lba))))"

lemma sector_offset: "a < length content div ss \<Longrightarrow> 0 < ss \<Longrightarrow> a * ss + ss \<le> length content"
proof -
  assume "a < length content div ss" "0 < ss"
  then have "Suc a * ss \<le> length content" by (metis Suc_leI less_eq_div_iff_mult_less_eq)
  then show ?thesis by simp
qed

lemma readEntryArray_Inr_iff:
  assumes "serves device content" and "bd_sectorSize device = ss" and "0 < ss" and "header_rules h"
    and "length content + kMaxEntryArrayBytes \<le> max64"
  shows "readEntryArray device h = Inr array \<longleftrightarrow>
    gh_entryArrayLba h < length content div ss \<and>
    gh_entryArrayLba h * ss + gh_entryCount h * gh_entryBytes h \<le> length content \<and>
    unat (crc32 (table_array content ss h)) = gh_entryArrayCrc h \<and> array = table_array content ss h"
proof (cases "gh_entryArrayLba h < length content div ss")
  case True
  let ?off = "gh_entryArrayLba h * ss" and ?n = "gh_entryCount h * gh_entryBytes h"
  have off: "?off \<le> length content" using sector_offset [OF True assms(3)] by simp
  have n: "?n \<le> kMaxEntryArrayBytes" using assms(4) by (simp add: header_rules_def)
  have small: "?off + ?n \<le> max64" "?off \<le> max64" "?n \<le> max64" using off n assms(5) by simp_all
  have "byteOffsetOf device (gh_entryArrayLba h) = Inr ?off"
    using True assms(1-3) small by (simp add: byteOffsetOf_def serves_def)
  moreover have "bd_readAt device ?off ?n = Inr (table_array content ss h)"
    using assms(1) off small by (simp add: serves_def table_array_def)
  moreover have "length (table_array content ss h) < ?n \<longleftrightarrow> length content < ?off + ?n"
    using off by (auto simp: table_array_def)
  ultimately show ?thesis
    using True small by (auto simp: readEntryArray_def arrayBytesOf_def arrayAt_def checksummed_def)
next
  case False
  then have "byteOffsetOf device (gh_entryArrayLba h) = Inl (mkError kOutOfRange (length content))"
    using assms(1-3) by (simp add: byteOffsetOf_def serves_def)
  then show ?thesis using False by (simp add: readEntryArray_def)
qed

lemma partitionsFor_Inr_iff:
  assumes "serves device content" and "bd_sectorSize device = ss" and "0 < ss" and "header_rules h"
    and "length content + kMaxEntryArrayBytes \<le> max64"
  shows "partitionsFor device h = Inr ps \<longleftrightarrow>
    gh_entryArrayLba h < length content div ss \<and>
    gh_entryArrayLba h * ss + gh_entryCount h * gh_entryBytes h \<le> length content \<and>
    unat (crc32 (table_array content ss h)) = gh_entryArrayCrc h \<and>
    list_all (entry_fits ss) (table_entries content ss h) \<and>
    ps = map (gpt_partition ss) (filter (\<lambda>e. \<not> isUnusedEntry e) (table_entries content ss h))"
proof -
  have "partitionsIn (table_array content ss h) h ss = Inr ps \<longleftrightarrow>
      list_all (entry_fits ss) (table_entries content ss h) \<and>
      ps = map (gpt_partition ss) (filter (\<lambda>e. \<not> isUnusedEntry e) (table_entries content ss h))"
    if "gh_entryArrayLba h * ss + gh_entryCount h * gh_entryBytes h \<le> length content"
  proof -
    have "length (table_array content ss h) = gh_entryCount h * gh_entryBytes h"
      using that by (simp add: table_array_def)
    from partitionsIn_Inr_iff [OF assms(4) this, of ss ps] show ?thesis
      by (auto simp: table_entries_def list_all_iff)
  qed
  then show ?thesis
    using readEntryArray_Inr_iff [OF assms] assms(2) by (auto simp: partitionsFor_def andThen_Inr_iff)
qed

lemma tableAt_Inr_iff:
  assumes "serves device content" and "bd_sectorSize device = ss" and "0 < ss"
    and "length content + kMaxEntryArrayBytes \<le> max64"
  shows "tableAt device lba = Inr ps \<longleftrightarrow> gpt_copy_valid content ss lba \<and> ps = gpt_copy_partitions content ss lba"
proof -
  let ?s = "table_sector content ss lba"
  have roomy: "length content + kMbrSectorBytes \<le> max64"
    using assms(4) by (simp add: kMbrSectorBytes_def kMaxEntryArrayBytes_def)
  have "readTableSector device lba = Inr sector \<longleftrightarrow>
      lba < length content div ss \<and> lba * ss + 512 \<le> length content \<and> sector = ?s" for sector
    using readTableSector_serves [OF assms(1) _ roomy] assms(2,3)
    by (auto simp: kMbrSectorBytes_def table_sector_def)
  then have "tableAt device lba = Inr ps \<longleftrightarrow> lba < length content div ss \<and> lba * ss + 512 \<le> length content \<and>
      gpt_header_valid ?s lba \<and> partitionsFor device (header_of ?s) = Inr ps"
    by (auto simp: tableAt_def andThen_Inr_iff parseGptHeader_Inr_iff)
  moreover have "header_rules (header_of ?s)" if "gpt_header_valid ?s lba"
    using that by (simp add: gpt_header_valid_def)
  ultimately show ?thesis
    using partitionsFor_Inr_iff [OF assms(1-3) _ assms(4), of "header_of ?s" ps]
    by (auto simp: gpt_copy_valid_def gpt_copy_partitions_def Let_def)
qed

lemma readGptPartitions_serves:
  assumes "serves device content" and "bd_sectorSize device = ss" and "512 \<le> ss"
    and "length content + kMaxEntryArrayBytes \<le> max64"
  shows "readGptPartitions device = Inr disk \<longleftrightarrow>
    (if gpt_copy_valid content ss 1
     then disk = \<lparr>gd_partitions = gpt_copy_partitions content ss 1, gd_fromBackupHeader = False\<rparr>
     else gpt_copy_valid content ss (length content div ss - 1) \<and>
          disk = \<lparr>gd_partitions = gpt_copy_partitions content ss (length content div ss - 1), gd_fromBackupHeader = True\<rparr>)"
proof -
  have pos: "0 < ss" using assms(3) by simp
  note table = tableAt_Inr_iff [OF assms(1,2) pos assms(4)]
  have small: "\<not> gpt_copy_valid content ss (length content div ss - 1)" if "length content < ss"
    using that by (simp add: gpt_copy_valid_def Let_def)
  have backup: "backupTable device = Inr ps \<longleftrightarrow> gpt_copy_valid content ss (length content div ss - 1) \<and>
      ps = gpt_copy_partitions content ss (length content div ss - 1)" for ps
    using table pos assms(1,2) small
    by (auto simp: backupTable_def lastLbaOf_def Let_def serves_def)
  show ?thesis
  proof (cases "gpt_copy_valid content ss 1")
    case True
    then show ?thesis using table [of 1 "gpt_copy_partitions content ss 1"]
      by (auto simp: readGptPartitions_def kPrimaryHeaderLba_def)
  next
    case False
    then obtain e where "tableAt device 1 = Inl e" using table [of 1] by (cases "tableAt device 1") auto
    then show ?thesis using False backup
      by (cases "backupTable device") (auto simp: readGptPartitions_def kPrimaryHeaderLba_def)
  qed
qed

subsection \<open>Writing a header\<close>

definition unsigned_header :: "GptHeader \<Rightarrow> bytes" where
  "unsigned_header h =
     kGptSignature @ [0, 0, 1, 0] @ leBytes 4 92 @ replicate 4 0 @ replicate 4 0 @
     leBytes 8 (gh_myLba h) @ leBytes 8 (gh_alternateLba h) @ leBytes 8 (gh_firstUsableLba h) @
     leBytes 8 (gh_lastUsableLba h) @ replicate 16 0 @ leBytes 8 (gh_entryArrayLba h) @
     leBytes 4 (gh_entryCount h) @ leBytes 4 (gh_entryBytes h) @ leBytes 4 (gh_entryArrayCrc h)"

definition signed_header :: "GptHeader \<Rightarrow> bytes" where
  "signed_header h = overwrite (unsigned_header h) 16 (leBytes 4 (unat (crc32 (unsigned_header h))))"

definition header_in_width :: "GptHeader \<Rightarrow> bool" where
  "header_in_width h \<longleftrightarrow>
     gh_myLba h \<le> max64 \<and> gh_alternateLba h \<le> max64 \<and> gh_firstUsableLba h \<le> max64 \<and> gh_lastUsableLba h \<le> max64 \<and>
     gh_entryArrayLba h \<le> max64 \<and> gh_entryCount h \<le> max32 \<and> gh_entryBytes h \<le> max32 \<and> gh_entryArrayCrc h \<le> max32"

lemma length_kGptSignature [simp]: "length kGptSignature = 8"
  by (simp add: kGptSignature_def)

lemma length_unsigned_header [simp]: "length (unsigned_header h) = 92"
  by (simp add: unsigned_header_def)

lemma length_signed_header [simp]: "length (signed_header h) = 92"
  by (simp add: signed_header_def)

lemma le_at_append: "at + w \<le> length s \<Longrightarrow> le_at w (s @ t) at = le_at w s at"
  by (simp add: le_at_def)

lemma le_at_overwrite:
  "16 + length v \<le> length s \<Longrightarrow> at + w \<le> 16 \<or> 16 + length v \<le> at \<Longrightarrow> le_at w (overwrite s 16 v) at = le_at w s at"
  by (auto simp: le_at_def)

lemma le_at_piece:
  "length a = at \<Longrightarrow> le_at w (a @ leBytes w v @ c) at = v mod 256 ^ w"
  by (simp add: le_at_def leNat_leBytes)

lemma unsigned_fields:
  "le_at 4 (unsigned_header h) 12 = 92"
  "le_at 8 (unsigned_header h) 24 = gh_myLba h mod 256 ^ 8"
  "le_at 8 (unsigned_header h) 32 = gh_alternateLba h mod 256 ^ 8"
  "le_at 8 (unsigned_header h) 40 = gh_firstUsableLba h mod 256 ^ 8"
  "le_at 8 (unsigned_header h) 48 = gh_lastUsableLba h mod 256 ^ 8"
  "le_at 8 (unsigned_header h) 72 = gh_entryArrayLba h mod 256 ^ 8"
  "le_at 4 (unsigned_header h) 80 = gh_entryCount h mod 256 ^ 4"
  "le_at 4 (unsigned_header h) 84 = gh_entryBytes h mod 256 ^ 4"
  "le_at 4 (unsigned_header h) 88 = gh_entryArrayCrc h mod 256 ^ 4"
  by (simp_all add: unsigned_header_def le_at_def leNat_leBytes)

lemma signed_field: "at + w \<le> 16 \<or> 20 \<le> at \<Longrightarrow> at + w \<le> 92 \<Longrightarrow>
  le_at w (signed_header h @ pad) at = le_at w (unsigned_header h) at"
  by (auto simp: le_at_append signed_header_def le_at_overwrite)

lemma header_of_signed:
  assumes "header_in_width h"
  shows "header_of (signed_header h @ pad) = h"
proof -
  have "256 ^ 8 = Suc max64" "256 ^ 4 = Suc max32" by (simp_all add: max64_def max32_def)
  then show ?thesis
    using assms by (simp add: header_of_def signed_field unsigned_fields header_in_width_def)
qed

lemma signed_header_signed: "signed_by_crc (signed_header h)"
proof -
  let ?u = "unsigned_header h"
  have zero: "take 16 (signed_header h) @ replicate 4 0 @ drop 20 (signed_header h) = ?u"
    by (simp add: signed_header_def overwrite_def) (simp add: unsigned_header_def)
  have "unat (crc32 ?u) < 256 ^ 4" using unsigned_less [of "crc32 ?u", where ?'a = nat] by simp
  then have "le_at 4 (signed_header h) 16 = unat (crc32 ?u)"
    by (simp add: le_at_def signed_header_def)
  then show ?thesis by (simp only: signed_by_crc_def zero)
qed

lemma signed_header_valid:
  assumes "header_in_width h" and "header_rules h"
  shows "gpt_header_valid (signed_header h @ pad) (gh_myLba h)" and "header_size (signed_header h @ pad) = 92"
proof -
  show size: "header_size (signed_header h @ pad) = 92"
    by (simp add: header_size_def signed_field unsigned_fields)
  have "take 8 (signed_header h @ pad) = kGptSignature"
    by (simp add: signed_header_def overwrite_def) (simp add: unsigned_header_def)
  then show "gpt_header_valid (signed_header h @ pad) (gh_myLba h)"
    using assms size by (simp add: gpt_header_valid_def header_of_signed signed_header_signed)
qed

subsection \<open>Properties\<close>

text \<open>
  The header parser accepts a sector at a given address exactly when it carries the signature, a
  header size that lies inside the sector, a checksum that matches the header with its own checksum
  field zeroed, that same address, an ordered usable range and an entry array of whole slots within
  the allocation bound; what it returns are the stored fields.
\<close>
theorem gpt_header_parser_accepts_exactly_valid_headers:
  "parseGptHeader sector lba = Inr g \<longleftrightarrow> gpt_header_valid sector lba \<and> g = header_of sector"
  by (rule parseGptHeader_Inr_iff)

text \<open>
  Every header that keeps the rules survives being written in the on-disk layout with its checksum:
  the parser returns exactly that header, whatever follows it in the sector.
\<close>
theorem gpt_header_roundtrip:
  assumes "header_in_width h" and "header_rules h"
  shows "parseGptHeader (signed_header h @ pad) (gh_myLba h) = Inr h"
  using signed_header_valid(1) [OF assms] header_of_signed [OF assms(1)] by (simp add: parseGptHeader_Inr_iff)

definition sampleGptEntry :: bytes where
  "sampleGptEntry = replicate 16 1 @ replicate 16 0 @ leBytes 8 2 @ leBytes 8 3 @ replicate 80 0"

definition sampleGptHeader :: "nat \<Rightarrow> nat \<Rightarrow> GptHeader" where
  "sampleGptHeader mine alternate =
     \<lparr>gh_myLba = mine, gh_alternateLba = alternate, gh_firstUsableLba = 2, gh_lastUsableLba = 2,
      gh_entryArrayLba = 2, gh_entryCount = 1, gh_entryBytes = 128, gh_entryArrayCrc = unat (crc32 sampleGptEntry)\<rparr>"

definition sampleGptDisk :: bytes where
  "sampleGptDisk = replicate 512 0 @ (signed_header (sampleGptHeader 1 3) @ replicate 420 0) @
     (sampleGptEntry @ replicate 384 0) @ (signed_header (sampleGptHeader 3 1) @ replicate 420 0)"

lemma sampleGptHeader_ok:
  "lba \<le> 3 \<Longrightarrow> alt \<le> 3 \<Longrightarrow> header_in_width (sampleGptHeader lba alt)"
  "header_rules (sampleGptHeader lba alt)"
proof -
  have "unat (crc32 sampleGptEntry) < 2 ^ 32" using unsigned_less [of "crc32 sampleGptEntry", where ?'a = nat] by simp
  then show "lba \<le> 3 \<Longrightarrow> alt \<le> 3 \<Longrightarrow> header_in_width (sampleGptHeader lba alt)"
    by (simp add: header_in_width_def sampleGptHeader_def max64_def max32_def)
  show "header_rules (sampleGptHeader lba alt)" by (simp add: header_rules_def sampleGptHeader_def kMaxEntryArrayBytes_def)
qed

theorem gpt_header_roundtrip_witness:
  "parseGptHeader (signed_header (sampleGptHeader 1 3) @ [0]) 1 = Inr (sampleGptHeader 1 3)"
proof -
  have "gh_myLba (sampleGptHeader 1 3) = 1" by (simp add: sampleGptHeader_def)
  then show ?thesis using gpt_header_roundtrip [of "sampleGptHeader 1 3" "[0]"] sampleGptHeader_ok [of 1 3] by simp
qed

text \<open>
  C35: Over a device that serves some content, the partitions reported are those of the primary copy if
  its header and entry array verify, and otherwise those of the copy in the last sector, marked as
  such; if neither verifies there is an error. The partitions of a copy are its used slots in array
  order, each at its exact byte range.
\<close>
theorem gpt_disk_is_read_exactly:
  assumes "serves device content" and "bd_sectorSize device = ss" and "512 \<le> ss"
    and "length content + kMaxEntryArrayBytes \<le> max64"
  shows "readGptPartitions device = Inr disk \<longleftrightarrow>
    (if gpt_copy_valid content ss 1
     then disk = \<lparr>gd_partitions = gpt_copy_partitions content ss 1, gd_fromBackupHeader = False\<rparr>
     else gpt_copy_valid content ss (length content div ss - 1) \<and>
          disk = \<lparr>gd_partitions = gpt_copy_partitions content ss (length content div ss - 1), gd_fromBackupHeader = True\<rparr>)"
  using assms by (rule readGptPartitions_serves)

lemma sampleGptDisk_length: "length sampleGptDisk = 2048"
  by (simp add: sampleGptDisk_def sampleGptEntry_def)

lemma length_sampleGptEntry: "length sampleGptEntry = 128"
  by (simp add: sampleGptEntry_def)

lemma sampleGptDisk_sectors:
  "table_sector sampleGptDisk 512 1 = signed_header (sampleGptHeader 1 3) @ replicate 420 0"
  "table_sector sampleGptDisk 512 3 = signed_header (sampleGptHeader 3 1) @ replicate 420 0"
  "table_array sampleGptDisk 512 (sampleGptHeader a b) = sampleGptEntry"
  by (simp_all add: sampleGptDisk_def table_sector_def table_array_def sampleGptHeader_def length_sampleGptEntry)

lemma sampleGptEntry_parsed:
  "entry_of sampleGptEntry =
     \<lparr>ge_typeGuid = replicate 16 1, ge_firstLba = 2, ge_lastLba = 3, ge_name = [], ge_nameIsExact = True\<rparr>"
proof -
  have "take 72 (drop 56 sampleGptEntry) = 0 # 0 # replicate 70 0"
    by (simp add: sampleGptEntry_def flip: replicate_Suc)
  then have "decodeUtf16Name (nameUnitsOf (take 72 (drop 56 sampleGptEntry))) = \<lparr>dn_utf8 = [], dn_lossless = True\<rparr>"
    by (simp add: decodeUtf16Name_def decodeFullUnits.simps)
  then show ?thesis by (simp add: entry_of_def Let_def) (simp add: sampleGptEntry_def le_at_def)
qed

lemma sampleGptDisk_entries:
  "table_entries sampleGptDisk 512 (sampleGptHeader a b) = [entry_of sampleGptEntry]"
  unfolding table_entries_def sampleGptDisk_sectors(3)
  by (simp add: sampleGptHeader_def slot_bytes_def length_sampleGptEntry)

definition samplePartitions :: "GptPartition list" where
  "samplePartitions = [\<lparr>gp_startBytes = 1024, gp_lengthBytes = 1024, gp_typeGuid = replicate 16 1,
     gp_name = [], gp_nameIsExact = True\<rparr>]"

lemma sampleGptDisk_copy:
  assumes "(lba, alt :: nat) = (1, 3) \<or> (lba, alt) = (3, 1)"
  shows "gpt_copy_valid sampleGptDisk 512 lba" and "gpt_copy_partitions sampleGptDisk 512 lba = samplePartitions"
proof -
  have sector: "table_sector sampleGptDisk 512 lba = signed_header (sampleGptHeader lba alt) @ replicate 420 0"
    using assms sampleGptDisk_sectors(1,2) by auto
  have small: "lba \<le> 3" "alt \<le> 3" using assms by auto
  have header: "header_of (table_sector sampleGptDisk 512 lba) = sampleGptHeader lba alt"
    unfolding sector by (rule header_of_signed [OF sampleGptHeader_ok(1) [OF small]])
  have "gh_myLba (sampleGptHeader lba alt) = lba" by (simp add: sampleGptHeader_def)
  then have "gpt_header_valid (table_sector sampleGptDisk 512 lba) lba"
    unfolding sector using signed_header_valid(1) [OF sampleGptHeader_ok(1) [OF small] sampleGptHeader_ok(2)] by metis
  moreover have "entry_fits 512 (entry_of sampleGptEntry)"
    by (simp add: sampleGptEntry_parsed entry_fits_def max64_def)
  ultimately show "gpt_copy_valid sampleGptDisk 512 lba"
    unfolding gpt_copy_valid_def Let_def header sampleGptDisk_entries sampleGptDisk_sectors(3)
    using small by (simp add: sampleGptDisk_length sampleGptHeader_def)
  have "\<not> isUnusedEntry (entry_of sampleGptEntry)"
    by (simp add: sampleGptEntry_parsed isUnusedEntry_def numeral_eq_Suc)
  then show "gpt_copy_partitions sampleGptDisk 512 lba = samplePartitions"
    unfolding gpt_copy_partitions_def header sampleGptDisk_entries
    by (simp add: sampleGptEntry_parsed gpt_partition_def samplePartitions_def)
qed

theorem gpt_disk_is_read_exactly_witness:
  "readGptPartitions (imageOf sampleGptDisk) = Inr \<lparr>gd_partitions = samplePartitions, gd_fromBackupHeader = False\<rparr>"
proof -
  have "serves (imageOf sampleGptDisk) sampleGptDisk" by (rule imageOf_serves) (simp add: sampleGptDisk_length max64_def)
  moreover have "bd_sectorSize (imageOf sampleGptDisk) = 512" by (simp add: imageOf_def imageFileDevice_def)
  moreover have "length sampleGptDisk + kMaxEntryArrayBytes \<le> max64"
    by (simp add: sampleGptDisk_length kMaxEntryArrayBytes_def max64_def)
  ultimately show ?thesis
    using gpt_disk_is_read_exactly [of "imageOf sampleGptDisk" sampleGptDisk 512] sampleGptDisk_copy [of 1 3] by simp
qed

text \<open>
  Damage to a single byte of the primary header, anywhere but in its size field, is never believed:
  with the backup copy intact the disk's partitions are read from it, and the result says so.
\<close>
theorem damaged_primary_falls_back_to_backup:
  assumes "serves device (content[ss + i := b])" and "bd_sectorSize device = ss" and "512 \<le> ss"
    and "length content + kMaxEntryArrayBytes \<le> max64"
    and "gpt_header_valid (table_sector content ss 1) 1"
    and "i < header_size (table_sector content ss 1)" and "i \<notin> {12..<16}" and "b \<noteq> content ! (ss + i)"
    and "gpt_copy_valid (content[ss + i := b]) ss (length content div ss - 1)"
  shows "readGptPartitions device =
    Inr \<lparr>gd_partitions = gpt_copy_partitions (content[ss + i := b]) ss (length content div ss - 1),
         gd_fromBackupHeader = True\<rparr>"
proof -
  have inside: "i < length (table_sector content ss 1)" using assms(5,6) by (simp add: gpt_header_valid_def)
  then have "table_sector (content[ss + i := b]) ss 1 = (table_sector content ss 1)[i := b]"
    by (simp add: table_sector_def drop_update_swap take_update_swap)
  moreover have "b \<noteq> table_sector content ss 1 ! i" using assms(8) inside by (auto simp: table_sector_def)
  then have "\<not> gpt_header_valid ((table_sector content ss 1)[i := b]) 1"
    using assms(5-7) by (intro corrupt_header_invalid)
  ultimately have "\<not> gpt_copy_valid (content[ss + i := b]) ss 1" by (simp add: gpt_copy_valid_def Let_def)
  then show ?thesis using readGptPartitions_serves [OF assms(1-3)] assms(4,9) by simp
qed

lemma gpt_copy_update:
  assumes "p < 1024"
  shows "gpt_copy_valid (sampleGptDisk[p := b]) 512 3 = gpt_copy_valid sampleGptDisk 512 3"
    and "gpt_copy_partitions (sampleGptDisk[p := b]) 512 3 = gpt_copy_partitions sampleGptDisk 512 3"
proof -
  have sector: "table_sector (sampleGptDisk[p := b]) 512 3 = table_sector sampleGptDisk 512 3"
    using assms by (simp add: table_sector_def)
  have "header_of (table_sector sampleGptDisk 512 3) = sampleGptHeader 3 1"
    unfolding sampleGptDisk_sectors by (rule header_of_signed [OF sampleGptHeader_ok(1)]) simp_all
  moreover have "table_array (sampleGptDisk[p := b]) 512 (sampleGptHeader 3 1) = table_array sampleGptDisk 512 (sampleGptHeader 3 1)"
    using assms by (simp add: table_array_def sampleGptHeader_def)
  ultimately show "gpt_copy_valid (sampleGptDisk[p := b]) 512 3 = gpt_copy_valid sampleGptDisk 512 3"
    and "gpt_copy_partitions (sampleGptDisk[p := b]) 512 3 = gpt_copy_partitions sampleGptDisk 512 3"
    by (simp_all add: gpt_copy_valid_def gpt_copy_partitions_def sector table_entries_def)
qed

theorem damaged_primary_falls_back_to_backup_witness:
  "readGptPartitions (imageOf (sampleGptDisk[512 + 0 := 0])) =
     Inr \<lparr>gd_partitions = samplePartitions, gd_fromBackupHeader = True\<rparr>"
proof -
  let ?bad = "sampleGptDisk[512 + 0 := 0]"
  have "gh_myLba (sampleGptHeader 1 3) = 1" by (simp add: sampleGptHeader_def)
  then have valid: "gpt_header_valid (table_sector sampleGptDisk 512 1) 1"
    unfolding sampleGptDisk_sectors using signed_header_valid(1) [OF sampleGptHeader_ok(1) [of 1 3] sampleGptHeader_ok(2)]
    by (simp add: sampleGptHeader_def)
  have size: "header_size (table_sector sampleGptDisk 512 1) = 92"
    unfolding sampleGptDisk_sectors by (rule signed_header_valid(2) [OF sampleGptHeader_ok]) simp_all
  have "take 8 (table_sector sampleGptDisk 512 1) ! 0 = sampleGptDisk ! (512 + 0)"
    by (simp add: table_sector_def sampleGptDisk_length)
  then have first: "sampleGptDisk ! (512 + 0) = 0x45"
    using valid by (simp only: gpt_header_valid_def kGptSignature_def nth_Cons_0)
  have last: "length sampleGptDisk div 512 - 1 = 3" by (simp add: sampleGptDisk_length)
  have "serves (imageOf ?bad) ?bad" by (rule imageOf_serves) (simp add: sampleGptDisk_length max64_def)
  moreover have "bd_sectorSize (imageOf ?bad) = 512" by (simp add: imageOf_def imageFileDevice_def)
  moreover have "length sampleGptDisk + kMaxEntryArrayBytes \<le> max64"
    by (simp add: sampleGptDisk_length kMaxEntryArrayBytes_def max64_def)
  moreover have "gpt_copy_valid ?bad 512 (length sampleGptDisk div 512 - 1)"
    unfolding last using gpt_copy_update(1) [of 512 0] sampleGptDisk_copy(1) [of 3 1] by (simp add: sampleGptDisk_length)
  ultimately have "readGptPartitions (imageOf ?bad) =
      Inr \<lparr>gd_partitions = gpt_copy_partitions ?bad 512 (length sampleGptDisk div 512 - 1), gd_fromBackupHeader = True\<rparr>"
    using valid size first by (intro damaged_primary_falls_back_to_backup) simp_all
  then show ?thesis
    unfolding last using gpt_copy_update(2) [of 512 0] sampleGptDisk_copy(2) [of 3 1] by (simp add: sampleGptDisk_length)
qed

end
