(* ===== verification/PartitionTables.thy ===== *)
theory PartitionTables
  imports Mbr Gpt
begin

text \<open>
  \<open>src/volume/PartitionLabel.cpp\<close> and \<open>PartitionTable.cpp\<close>: the label of a partition, its
  number, and the choice between the two partitioning schemes.
\<close>

subsection \<open>Labels\<close>

definition ascii :: "string \<Rightarrow> bytes" where "ascii = map byte_of_char"

definition kUnknownGptLabel :: bytes where "kUnknownGptLabel = ascii ''GPT partition''"

definition kHexDigits :: bytes where "kHexDigits = ascii ''0123456789ABCDEF''"

definition kKnownMbrTypes :: "(u8 \<times> bytes) list" where
  "kKnownMbrTypes =
     [(0x01, ascii ''FAT12''), (0x04, ascii ''FAT16''), (0x06, ascii ''FAT16''), (0x07, ascii ''NTFS/exFAT''),
      (0x0B, ascii ''FAT32''), (0x0C, ascii ''FAT32 (LBA)''), (0x82, ascii ''Linux swap''), (0x83, ascii ''Linux''),
      (0x8E, ascii ''Linux LVM''), (0xEF, ascii ''EFI system'')]"

definition kKnownGptTypes :: "(bytes \<times> bytes) list" where
  "kKnownGptTypes =
     [(ascii ''28732AC11FF8D211BA4B00A0C93EC93B'', ascii ''EFI system''),
      (ascii ''A2A0D0EBE5B9334487C068B6B72699C7'', ascii ''Windows basic data''),
      (ascii ''16E3C9E35C0BB84D817DF92DF00215AE'', ascii ''Microsoft reserved''),
      (ascii ''A4BB94DED106404DA16ABFD50179D6AC'', ascii ''Windows recovery''),
      (ascii ''AF3DC60F838472478E793D69D8477DE4'', ascii ''Linux filesystem''),
      (ascii ''6DFD5706ABA4C34384E50933C84B4F4F'', ascii ''Linux swap'')]"

definition toHex :: "bytes \<Rightarrow> bytes" where
  "toHex raw =
     foldl (\<lambda>txt val. txt @ [kHexDigits ! drop_bit 4 (unat val), kHexDigits ! (unat val AND 0x0F)]) [] raw"

fun firstNamed :: "('k \<times> bytes) list \<Rightarrow> 'k \<Rightarrow> bytes option" where
  "firstNamed [] key = None"
| "firstNamed ((k, name) # rest) key = (if k = key then Some name else firstNamed rest key)"

definition knownGptName :: "bytes \<Rightarrow> bytes" where
  "knownGptName onDiskHex =
     (case firstNamed kKnownGptTypes onDiskHex of Some name \<Rightarrow> name | None \<Rightarrow> kUnknownGptLabel)"

definition labelOfMbrType :: "u8 \<Rightarrow> bytes" where
  "labelOfMbrType typeCode =
     (case firstNamed kKnownMbrTypes typeCode of
        Some name \<Rightarrow> name
      | None \<Rightarrow> ascii ''type 0x'' @ toHex [of_nat typeCode])"

definition labelOfGptPartition :: "GptPartition \<Rightarrow> bytes" where
  "labelOfGptPartition part =
     (if gp_name part \<noteq> [] then gp_name part else knownGptName (toHex (gp_typeGuid part)))"

subsection \<open>The table\<close>

datatype PartitionScheme = kMbr | kGpt

record Partition =
  pt_startBytes :: u64
  pt_lengthBytes :: u64
  pt_number :: u32
  pt_label :: bytes

record PartitionTable =
  tb_scheme :: PartitionScheme
  tb_partitions :: "Partition list"
  tb_fromBackupHeader :: bool

definition partitionFromMbr :: "MbrPartition \<Rightarrow> u32 \<Rightarrow> Partition" where
  "partitionFromMbr entry number =
     \<lparr>pt_startBytes = mp_startBytes entry, pt_lengthBytes = mp_lengthBytes entry, pt_number = number,
      pt_label = labelOfMbrType (mp_typeCode entry)\<rparr>"

definition partitionFromGpt :: "GptPartition \<Rightarrow> u32 \<Rightarrow> Partition" where
  "partitionFromGpt entry number =
     \<lparr>pt_startBytes = gp_startBytes entry, pt_lengthBytes = gp_lengthBytes entry, pt_number = number,
      pt_label = labelOfGptPartition entry\<rparr>"

fun numberedFrom :: "('e \<Rightarrow> u32 \<Rightarrow> Partition) \<Rightarrow> u32 \<Rightarrow> 'e list \<Rightarrow> Partition list" where
  "numberedFrom partitionFrom number [] = []"
| "numberedFrom partitionFrom number (entry # entries) =
     (let number' = wrap32 (number + 1)
      in partitionFrom entry number' # numberedFrom partitionFrom number' entries)"

definition numbered :: "('e \<Rightarrow> u32 \<Rightarrow> Partition) \<Rightarrow> 'e list \<Rightarrow> Partition list" where
  "numbered partitionFrom entries = numberedFrom partitionFrom 0 entries"

definition gptTable :: "BlockDevice \<Rightarrow> PartitionTable result" where
  "gptTable device =
     mapResult (readGptPartitions device)
       (\<lambda>disk. \<lparr>tb_scheme = kGpt, tb_partitions = numbered partitionFromGpt (gd_partitions disk),
                tb_fromBackupHeader = gd_fromBackupHeader disk\<rparr>)"

definition mbrTable :: "BlockDevice \<Rightarrow> PartitionTable result" where
  "mbrTable device =
     mapResult (readMbrPartitions device)
       (\<lambda>entries. \<lparr>tb_scheme = kMbr, tb_partitions = numbered partitionFromMbr entries, tb_fromBackupHeader = False\<rparr>)"

definition gptOr :: "BlockDevice \<Rightarrow> PartitionTable result \<Rightarrow> PartitionTable result" where
  "gptOr device fallback = (let gpt = gptTable device in if hasValue gpt then gpt else fallback)"

definition tableFor :: "BlockDevice \<Rightarrow> MbrEntry list \<Rightarrow> PartitionTable result" where
  "tableFor device sectorZero =
     (if defersToGpt sectorZero then gptTable device
      else let mbr = mbrTable device
           in case mbr of
                Inr table \<Rightarrow> if tb_partitions table \<noteq> [] then mbr else gptOr device mbr
              | Inl _ \<Rightarrow> gptOr device mbr)"

definition readSectorZero :: "BlockDevice \<Rightarrow> MbrEntry list result" where
  "readSectorZero device = andThen (readTableSector device 0) parseMbrSector"

definition readPartitionTable :: "BlockDevice \<Rightarrow> PartitionTable result" where
  "readPartitionTable device =
     (case readSectorZero device of
        Inl e \<Rightarrow> gptOr device (Inl e)
      | Inr sectorZero \<Rightarrow> tableFor device sectorZero)"

subsection \<open>Numbers and labels\<close>

lemma numberedFrom_eq:
  "number + length entries \<le> max32 \<Longrightarrow>
   numberedFrom f number entries = map2 f entries [Suc number..<Suc (number + length entries)]"
proof (induction entries arbitrary: number)
  case (Cons e rest)
  then have "wrap32 (number + 1) = Suc number" by (simp add: wrap32_def max32_def)
  moreover have "[Suc number..<Suc (number + length (e # rest))]
      = Suc number # [Suc (Suc number)..<Suc (Suc number + length rest)]" by (simp add: upt_rec)
  ultimately show ?case using Cons.IH [of "Suc number"] Cons.prems by (simp add: Let_def)
qed simp

lemma numbered_eq: "length entries \<le> max32 \<Longrightarrow> numbered f entries = map2 f entries [1..<Suc (length entries)]"
  using numberedFrom_eq [of 0 entries f] by (simp add: numbered_def)

lemma map2_snd: "length xs = length ns \<Longrightarrow> (\<And>e n. g (f e n) = n) \<Longrightarrow> map g (map2 f xs ns) = ns"
  by (induction xs ns rule: list_induct2) simp_all

lemma numbered_numbers:
  assumes "length entries \<le> max32" and "\<And>e n. pt_number (f e n) = n"
  shows "map pt_number (numbered f entries) = [1..<Suc (length entries)]"
proof -
  have "length [1..<Suc (length entries)] = length entries" by (simp only: length_upt)
  then show ?thesis unfolding numbered_eq [OF assms(1)] using assms(2) by (intro map2_snd) simp_all
qed

lemma length_numbered: "length entries \<le> max32 \<Longrightarrow> length (numbered f entries) = length entries"
  by (simp only: numbered_eq length_map length_zip length_upt)

subsection \<open>How many partitions there can be\<close>

definition kMostPartitions :: nat where "kMostPartitions = 32768"

lemma contributionOf_bounded: "contributionOf device entry off = Inr ps \<Longrightarrow> length ps \<le> kMaxLogicalPartitions"
  by (auto simp: contributionOf_def oneOrChain_def mapResult_Inr_iff kMaxLogicalPartitions_def logicalPartitions_def
      intro: order_trans [OF conjunct1 [OF collectChain_bounded]] split: if_splits)

lemma mbr_partitions_bounded:
  assumes "readMbrPartitions device = Inr ps"
  shows "length ps \<le> kMostPartitions"
proof -
  obtain table where table: "partitionsOf device table = Inr ps"
    using assms by (auto simp: readMbrPartitions_def andThen_Inr_iff)
  define part where "part i = (case contributionOf device (table ! i) (slotOffset i + kTypeField) of
    Inl _ \<Rightarrow> [] | Inr ps \<Rightarrow> ps)" for i
  have part: "length (part i) \<le> kMaxLogicalPartitions" for i
    by (simp add: part_def contributionOf_bounded split: sum.split)
  have "partitionsOf device table = Inr ps \<longleftrightarrow>
      (\<forall>i \<in> set [0..<kMbrEntryCount]. hasValue (contributionOf device (table ! i) (slotOffset i + kTypeField))) \<and>
      ps = [] @ concat (map part [0..<kMbrEntryCount])"
    unfolding partitionsOf_def
    by (rule foldl_andThen_Inr_iff) (auto simp: appendSlot_def mapResult_Inr_iff hasValue_iff part_def)
  then have "ps = part 0 @ part 1 @ part 2 @ part 3" using table by (simp add: kMbrEntryCount_def four)
  then show ?thesis
    using part [of 0] part [of 1] part [of 2] part [of 3] by (simp add: kMostPartitions_def kMaxLogicalPartitions_def)
qed

lemma appendEntry_length: "appendEntry slot found ss = Inr out \<Longrightarrow> length out \<le> Suc (length found)"
  by (auto simp: appendEntry_def andThen_Inr_iff mapResult_Inr_iff split: if_splits)

lemma foldl_length_bound:
  assumes "\<And>found i out. step found i = Inr out \<Longrightarrow> length out \<le> Suc (length found)"
  shows "foldl (\<lambda>found i. andThen found (\<lambda>built. step built i)) (Inr acc) is = Inr out \<Longrightarrow>
    length out \<le> length acc + length is"
proof (induction "is" arbitrary: acc)
  case (Cons i rest)
  have fails: "foldl (\<lambda>found i. andThen found (\<lambda>built. step built i)) (Inl e) js = Inl e" for e js
    by (induction js) simp_all
  then obtain next' where n: "step acc i = Inr next'" using Cons.prems by (cases "step acc i") auto
  then have "length out \<le> length next' + length rest" using Cons by simp
  then show ?case using assms [OF n] by simp
qed simp

lemma tableAt_bounded:
  assumes "tableAt device lba = Inr ps"
  shows "length ps \<le> kMostPartitions"
proof -
  obtain sector h array where h: "parseGptHeader sector lba = Inr h" and "partitionsIn array h (bd_sectorSize device) = Inr ps"
    using assms by (auto simp: tableAt_def partitionsFor_def andThen_Inr_iff)
  then have "length ps \<le> length ([] :: GptPartition list) + length [0..<gh_entryCount h]"
    unfolding partitionsIn_def using appendEntry_length by (intro foldl_length_bound)
  moreover have "header_rules h" using h by (auto simp: parseGptHeader_Inr_iff gpt_header_valid_def)
  then have "gh_entryCount h * 128 \<le> gh_entryCount h * gh_entryBytes h" "gh_entryCount h * gh_entryBytes h \<le> 2 ^ 22"
    by (simp_all add: header_rules_def kMaxEntryArrayBytes_def)
  then have "gh_entryCount h * 128 \<le> 2 ^ 22" by (rule order_trans)
  then have "gh_entryCount h \<le> 32768" by simp
  ultimately show ?thesis by (simp add: kMostPartitions_def)
qed

lemma gpt_partitions_bounded: "readGptPartitions device = Inr disk \<Longrightarrow> length (gd_partitions disk) \<le> kMostPartitions"
  using tableAt_bounded
  by (auto simp: readGptPartitions_def backupTable_def andThen_Inr_iff split: sum.splits)

subsection \<open>Each scheme's table\<close>

definition counted :: "PartitionTable \<Rightarrow> bool" where
  "counted t \<longleftrightarrow> length (tb_partitions t) \<le> kMostPartitions \<and>
     map pt_number (tb_partitions t) = [1..<Suc (length (tb_partitions t))]"

lemma numbered_counted:
  assumes "length entries \<le> kMostPartitions" and "\<And>e n. pt_number (f e n) = n" and "tb_partitions t = numbered f entries"
  shows "counted t"
proof -
  have "length entries \<le> max32" using assms(1) by (simp add: kMostPartitions_def max32_def)
  then show ?thesis using assms numbered_numbers [of entries f] by (simp add: counted_def length_numbered)
qed

lemma gptTable_Inr: "gptTable device = Inr t \<Longrightarrow> counted t \<and> tb_scheme t = kGpt"
proof -
  assume "gptTable device = Inr t"
  then obtain disk where disk: "readGptPartitions device = Inr disk" "tb_scheme t = kGpt"
      "tb_partitions t = numbered partitionFromGpt (gd_partitions disk)"
    by (auto simp: gptTable_def mapResult_Inr_iff)
  have "counted t"
    by (rule numbered_counted [OF gpt_partitions_bounded [OF disk(1)] _ disk(3)]) (simp add: partitionFromGpt_def)
  then show ?thesis using disk(2) by simp
qed

lemma mbrTable_Inr: "mbrTable device = Inr t \<Longrightarrow> counted t \<and> tb_scheme t = kMbr \<and> \<not> tb_fromBackupHeader t"
proof -
  assume "mbrTable device = Inr t"
  then obtain entries where entries: "readMbrPartitions device = Inr entries" "tb_scheme t = kMbr" "\<not> tb_fromBackupHeader t"
      "tb_partitions t = numbered partitionFromMbr entries"
    by (auto simp: mbrTable_def mapResult_Inr_iff)
  have "counted t"
    by (rule numbered_counted [OF mbr_partitions_bounded [OF entries(1)] _ entries(4)]) (simp add: partitionFromMbr_def)
  then show ?thesis using entries(2,3) by simp
qed

lemma gptTable_hasValue: "hasValue (gptTable device) = hasValue (readGptPartitions device)"
  by (simp add: gptTable_def)

subsection \<open>Properties\<close>

text \<open>
  Whatever the disk holds, a reported table numbers its partitions 1, 2, 3, ... in table order and
  holds at most 32768 of them. The MBR answers only when sector 0 parses and holds no protective
  entry; an MBR without partitions is reported only when no GPT verifies, and only a GPT can come
  from the backup header.
\<close>
theorem partition_table_is_consistent:
  assumes "readPartitionTable device = Inr table"
  shows "length (tb_partitions table) \<le> 32768 \<and>
    map pt_number (tb_partitions table) = [1..<Suc (length (tb_partitions table))] \<and>
    (tb_scheme table = kMbr \<longrightarrow>
       (\<exists>sectorZero. readSectorZero device = Inr sectorZero \<and> \<not> defersToGpt sectorZero) \<and>
       \<not> tb_fromBackupHeader table \<and> (tb_partitions table = [] \<longrightarrow> \<not> hasValue (readGptPartitions device)))"
proof -
  consider (gpt) "gptTable device = Inr table"
    | (mbr) sectorZero where "mbrTable device = Inr table" "readSectorZero device = Inr sectorZero" "\<not> defersToGpt sectorZero"
        "tb_partitions table = [] \<longrightarrow> \<not> hasValue (gptTable device)"
    using assms unfolding readPartitionTable_def tableFor_def gptOr_def
    by (auto simp: Let_def split: sum.splits if_splits)
  then show ?thesis
  proof cases
    case gpt
    then show ?thesis using gptTable_Inr [OF gpt] by (simp add: counted_def kMostPartitions_def)
  next
    case mbr
    then show ?thesis using mbrTable_Inr [OF mbr(1)] by (simp add: counted_def kMostPartitions_def gptTable_hasValue)
  qed
qed

lemma sampleGpt_table:
  "readPartitionTable (imageOf sampleGptDisk) =
     Inr \<lparr>tb_scheme = kGpt, tb_partitions = numbered partitionFromGpt samplePartitions, tb_fromBackupHeader = False\<rparr>"
proof -
  have src: "serves (imageOf sampleGptDisk) sampleGptDisk"
    by (rule imageOf_serves) (simp add: sampleGptDisk_length max64_def)
  have ss: "bd_sectorSize (imageOf sampleGptDisk) = 512" by (simp add: imageOf_def imageFileDevice_def)
  have room: "length sampleGptDisk + kMaxEntryArrayBytes \<le> max64"
    by (simp add: sampleGptDisk_length kMaxEntryArrayBytes_def max64_def)
  have "readTableSector (imageOf sampleGptDisk) 0 = Inr (take 512 sampleGptDisk)"
    using readTableSector_serves [OF src, of 0]
    by (simp add: ss sampleGptDisk_length kMbrSectorBytes_def max64_def)
  moreover have "take 512 sampleGptDisk = replicate 512 0" by (simp add: sampleGptDisk_def)
  moreover have "\<not> mbr_valid (replicate 512 0)" by (simp add: mbr_valid_def)
  ultimately obtain e where "readSectorZero (imageOf sampleGptDisk) = Inl e"
    using parseMbrSector_Inr_iff [of "replicate 512 0"]
    by (cases "parseMbrSector (replicate 512 0)") (auto simp: readSectorZero_def)
  moreover have "readGptPartitions (imageOf sampleGptDisk) =
      Inr \<lparr>gd_partitions = samplePartitions, gd_fromBackupHeader = False\<rparr>"
    using readGptPartitions_serves [OF src ss _ room] sampleGptDisk_copy [of 1 3] by simp
  ultimately show ?thesis by (simp add: readPartitionTable_def gptOr_def gptTable_def Let_def)
qed

theorem partition_table_is_consistent_witness:
  "\<exists>table. readPartitionTable (imageOf sampleGptDisk) = Inr table \<and> map pt_number (tb_partitions table) = [1]"
proof -
  have one: "length (numbered partitionFromGpt samplePartitions) = 1"
    using length_numbered [of samplePartitions partitionFromGpt] by (simp add: samplePartitions_def max32_def)
  show ?thesis
    using partition_table_is_consistent [OF sampleGpt_table] sampleGpt_table one by simp
qed

end
