(* ===== verification/Extents.thy ===== *)
theory Extents
  imports Devices Regions
begin

text \<open>
  What the filesystem parsers share: \<open>src/fs/ExtentSpan.cpp\<close> (merging and trimming the
  extents of a file), \<open>ExtentLocate.cpp\<close> (finding a range of a file in them),
  \<open>VolumeReader.cpp\<close> and \<open>MountRegion.cpp\<close> (whole reads) and \<open>BpbFields.cpp\<close> (the
  boot-sector fields NTFS and FAT32 have in common).
\<close>

subsection \<open>Whole reads\<close>

definition volumeRead :: "BlockDevice \<Rightarrow> u64 \<Rightarrow> size_t \<Rightarrow> bytes result" where
  "volumeRead device off n =
     (case bd_readAt device off n of
        Inl e \<Rightarrow> Inl e
      | Inr got \<Rightarrow> if length got \<noteq> n then Inl (mkError kOutOfRange off) else Inr got)"

record MountRegion =
  mr_offset :: u64
  mr_length :: size_t

definition kBootSectorBytes :: size_t where "kBootSectorBytes = 512"

definition readMountRegion :: "BlockDevice \<Rightarrow> MountRegion \<Rightarrow> bytes result" where
  "readMountRegion device region =
     (case bd_readAt device (mr_offset region) (mr_length region) of
        Inl e \<Rightarrow> Inl e
      | Inr got \<Rightarrow> if length got \<noteq> mr_length region then Inl (mkError kNotFound 0) else Inr got)"

subsection \<open>The extents of a file\<close>

definition continues :: "Extent \<Rightarrow> Extent \<Rightarrow> bool" where
  "continues extent run \<longleftrightarrow> wrap64 (deviceOffset extent + lengthBytes extent) = deviceOffset run"

definition takeExtent :: "Extent list \<Rightarrow> Extent \<Rightarrow> u64 \<Rightarrow> Extent list \<times> u64" where
  "takeExtent taken extent remaining =
     (let cnt = min (lengthBytes extent) remaining
      in if cnt = 0 then (taken, 0)
         else (taken @ [\<lparr>deviceOffset = deviceOffset extent, lengthBytes = cnt\<rparr>], remaining - cnt))"

definition appendExtent :: "Extent list \<Rightarrow> Extent \<Rightarrow> Extent list" where
  "appendExtent extents run =
     (if extents \<noteq> [] \<and> continues (last extents) run
      then butlast extents @ [(last extents)\<lparr>lengthBytes := wrap64 (lengthBytes (last extents) + lengthBytes run)\<rparr>]
      else extents @ [run])"

definition extentBytesTotal :: "Extent list \<Rightarrow> u64" where
  "extentBytesTotal extents = foldl (\<lambda>sofar extent. wrap64 (sofar + lengthBytes extent)) 0 extents"

fun takeExtents :: "Extent list \<Rightarrow> Extent list \<Rightarrow> u64 \<Rightarrow> Extent list \<times> u64" where
  "takeExtents taken [] remaining = (taken, remaining)"
| "takeExtents taken (extent # extents) remaining =
     (let (taken', remaining') = takeExtent taken extent remaining in takeExtents taken' extents remaining')"

definition trimToSize :: "Extent list \<Rightarrow> u64 \<Rightarrow> Extent list result" where
  "trimToSize extents sizeBytes =
     (let (taken, remaining) = takeExtents [] extents sizeBytes
      in if remaining \<noteq> 0 then Inl (mkError kInvalidArgument sizeBytes) else Inr taken)"

record FileRange =
  fr_offset :: u64
  fr_length :: u64

definition withinExtent :: "Extent \<Rightarrow> FileRange \<Rightarrow> u64 result" where
  "withinExtent extent inner =
     (if fr_length inner > wrap_sub64 (lengthBytes extent) (fr_offset inner) then Inl (mkError kInvalidArgument (fr_offset inner))
      else if fr_offset inner > max64 - deviceOffset extent then Inl (mkError kOverflow (deviceOffset extent))
      else Inr (wrap64 (deviceOffset extent + fr_offset inner)))"

fun findExtentFrom :: "Extent list \<Rightarrow> FileRange \<Rightarrow> u64 \<Rightarrow> u64 result" where
  "findExtentFrom [] wanted consumed = Inl (mkError kOutOfRange (fr_offset wanted))"
| "findExtentFrom (extent # extents) wanted consumed =
     (if wrap_sub64 (fr_offset wanted) consumed < lengthBytes extent
      then withinExtent extent \<lparr>fr_offset = wrap_sub64 (fr_offset wanted) consumed, fr_length = fr_length wanted\<rparr>
      else findExtentFrom extents wanted (wrap64 (consumed + lengthBytes extent)))"

definition findExtent :: "Extent list \<Rightarrow> FileRange \<Rightarrow> u64 result" where
  "findExtent extents wanted = findExtentFrom extents wanted 0"

definition locateInExtents :: "Extent list \<Rightarrow> FileRange \<Rightarrow> u64 result" where
  "locateInExtents extents wanted =
     (if fr_length wanted > max64 - fr_offset wanted then Inl (mkError kOverflow (fr_offset wanted))
      else findExtent extents wanted)"

subsection \<open>Shared boot-sector fields\<close>

definition kMaxSectorsPerCluster :: u32 where "kMaxSectorsPerCluster = 128"
definition kBytesPerSectorOffset :: u64 where "kBytesPerSectorOffset = 0x0B"
definition kSectorsPerClusterOffset :: u64 where "kSectorsPerClusterOffset = 0x0D"
definition kBootSignatureOffset :: u64 where "kBootSignatureOffset = 0x1FE"

definition isPowerOfTwo :: "u32 \<Rightarrow> bool" where
  "isPowerOfTwo val \<longleftrightarrow> val \<noteq> 0 \<and> unat ((of_nat val :: 32 word) AND (of_nat val - 1)) = 0"

definition isKnownSectorSize :: "u32 \<Rightarrow> bool" where
  "isKnownSectorSize val \<longleftrightarrow> val = 512 \<or> val = 1024 \<or> val = 2048 \<or> val = 4096"

definition bytesPerSector :: "bytes \<Rightarrow> u32 result" where
  "bytesPerSector reader =
     andThen (readLe 2 reader kBytesPerSectorOffset)
       (\<lambda>raw. if \<not> isKnownSectorSize raw then Inl (mkError kInvalidArgument kBytesPerSectorOffset) else Inr raw)"

definition sectorsPerCluster :: "bytes \<Rightarrow> u32 result" where
  "sectorsPerCluster reader =
     andThen (bytesAt reader kSectorsPerClusterOffset 1)
       (\<lambda>raw. let val = unat (hd raw)
              in if \<not> isPowerOfTwo val \<or> val > kMaxSectorsPerCluster
                 then Inl (mkError kInvalidArgument kSectorsPerClusterOffset) else Inr val)"

definition bootSignatureIsValid :: "bytes \<Rightarrow> bool result" where
  "bootSignatureIsValid reader =
     andThen (bytesAt reader kBootSignatureOffset 2)
       (\<lambda>raw. if hd raw \<noteq> 0x55 \<or> last raw \<noteq> 0xAA then Inl (mkError kInvalidArgument kBootSignatureOffset)
              else Inr True)"

subsection \<open>The bytes of a file\<close>

definition span_bytes :: "bytes \<Rightarrow> Extent list \<Rightarrow> bytes" where
  "span_bytes content extents = concat (map (extent_bytes content) extents)"

definition span_length :: "Extent list \<Rightarrow> nat" where
  "span_length extents = sum_list (map lengthBytes extents)"

fun cut_span :: "Extent list \<Rightarrow> nat \<Rightarrow> Extent list" where
  "cut_span [] n = []"
| "cut_span (e # es) n = (if n = 0 then [] else \<lparr>deviceOffset = deviceOffset e, lengthBytes = min (lengthBytes e) n\<rparr> # cut_span es (n - lengthBytes e))"

lemma span_simps [simp]:
  "span_bytes content [] = []" "span_bytes content (e # es) = extent_bytes content e @ span_bytes content es"
  "span_bytes content (es @ fs) = span_bytes content es @ span_bytes content fs"
  "span_length [] = 0" "span_length (e # es) = lengthBytes e + span_length es" "span_length (es @ fs) = span_length es + span_length fs"
  by (simp_all add: span_bytes_def span_length_def)

lemma length_span_bytes: "list_all (extent_inside content) es \<Longrightarrow> length (span_bytes content es) = span_length es"
  by (induction es) (simp_all add: length_extent_bytes)

lemma cut_span_0 [simp]: "cut_span es 0 = []"
  by (cases es) simp_all

lemma takeExtents_zero [simp]: "takeExtents taken es 0 = (taken, 0)"
  by (induction es) (simp_all add: takeExtent_def)

lemma takeExtents_cut:
  "\<forall>e \<in> set es. 0 < lengthBytes e \<Longrightarrow> takeExtents taken es n = (taken @ cut_span es n, n - span_length es)"
proof (induction es arbitrary: taken n)
  case (Cons e es)
  then show ?case by (cases "n = 0") (auto simp: takeExtent_def Let_def min_def)
qed simp

lemma trimToSize_eq:
  "\<forall>e \<in> set es. 0 < lengthBytes e \<Longrightarrow>
   trimToSize es n = (if span_length es < n then Inl (mkError kInvalidArgument n) else Inr (cut_span es n))"
  by (simp add: trimToSize_def takeExtents_cut)

lemma extent_bytes_cut:
  "extent_inside content e \<Longrightarrow>
   extent_bytes content \<lparr>deviceOffset = deviceOffset e, lengthBytes = min (lengthBytes e) n\<rparr> = take n (extent_bytes content e)"
  by (simp add: extent_bytes_def min.commute)

lemma cut_span_bytes:
  "list_all (extent_inside content) es \<Longrightarrow>
     span_bytes content (cut_span es n) = take n (span_bytes content es) \<and> list_all (extent_inside content) (cut_span es n)"
proof (induction es arbitrary: n)
  case (Cons e es)
  then show ?case
    by (auto simp: extent_bytes_cut length_extent_bytes extent_inside_def)
qed simp

lemma cut_span_length: "span_length (cut_span es n) = min n (span_length es)"
  by (induction es arbitrary: n) auto

lemma cut_span_subset:
  "e \<in> set (cut_span es n) \<Longrightarrow> \<exists>f \<in> set es. deviceOffset e = deviceOffset f \<and> lengthBytes e \<le> lengthBytes f"
  by (induction es arbitrary: n) (auto split: if_splits)

lemma cut_span_positive: "\<forall>e \<in> set es. 0 < lengthBytes e \<Longrightarrow> \<forall>e \<in> set (cut_span es n). 0 < lengthBytes e"
  by (induction es arbitrary: n) auto

text \<open>
  Trimming the extents of a file to the file's size hands back exactly the file: the bytes
  are the first \<open>sizeBytes\<close> bytes of what the extents hold, every trimmed extent stays inside
  the device and none is empty; extents that hold fewer bytes than the file claims are refused.
\<close>

theorem trimmed_extents_are_the_file:
  assumes "\<forall>e \<in> set extents. 0 < lengthBytes e" and "list_all (extent_inside content) extents"
  shows "case trimToSize extents sizeBytes of
      Inl e \<Rightarrow> e = mkError kInvalidArgument sizeBytes \<and> length (span_bytes content extents) < sizeBytes
    | Inr taken \<Rightarrow> sizeBytes \<le> length (span_bytes content extents) \<and>
        span_bytes content taken = take sizeBytes (span_bytes content extents) \<and>
        list_all (extent_inside content) taken \<and> (\<forall>e \<in> set taken. 0 < lengthBytes e)"
  using assms by (simp add: trimToSize_eq cut_span_bytes length_span_bytes cut_span_positive)

theorem trimmed_extents_are_the_file_witness:
  "span_bytes [1, 2, 3, 4, 5, 6] [\<lparr>deviceOffset = 4, lengthBytes = 2\<rparr>, \<lparr>deviceOffset = 0, lengthBytes = 1\<rparr>] = [5, 6, 1] \<and>
   trimToSize [\<lparr>deviceOffset = 4, lengthBytes = 2\<rparr>, \<lparr>deviceOffset = 0, lengthBytes = 3\<rparr>] 3 =
     Inr [\<lparr>deviceOffset = 4, lengthBytes = 2\<rparr>, \<lparr>deviceOffset = 0, lengthBytes = 1\<rparr>]"
proof -
  have "\<forall>e \<in> set [\<lparr>deviceOffset = 4, lengthBytes = 2\<rparr>, \<lparr>deviceOffset = 0, lengthBytes = 3\<rparr>]. 0 < lengthBytes e"
    "list_all (extent_inside [1, 2, 3, 4, 5, 6]) [\<lparr>deviceOffset = 4, lengthBytes = 2\<rparr>, \<lparr>deviceOffset = 0, lengthBytes = 3\<rparr>]"
    by (simp_all add: extent_inside_def)
  from trimmed_extents_are_the_file [OF this, of 3] show ?thesis
    by (simp add: trimToSize_def takeExtent_def extent_bytes_def)
qed

text \<open>
  A zero-length extent ends the trimming as if the file were complete: what follows it is dropped and the short result is accepted.
\<close>

lemma empty_extent_hides_truncation:
  "trimToSize [\<lparr>deviceOffset = 8, lengthBytes = 0\<rparr>, \<lparr>deviceOffset = 16, lengthBytes = 4\<rparr>] 100 = Inr []"
  by (simp add: trimToSize_def takeExtent_def)

lemma appendExtent_bytes:
  assumes "list_all (extent_inside content) es" and "extent_inside content run" and "length content \<le> max64"
  shows "span_bytes content (appendExtent es run) = span_bytes content es @ extent_bytes content run"
    and "list_all (extent_inside content) (appendExtent es run)"
proof -
  have "span_bytes content (appendExtent es run) = span_bytes content es @ extent_bytes content run \<and>
      list_all (extent_inside content) (appendExtent es run)"
  proof (cases "es \<noteq> [] \<and> continues (last es) run")
    case True
    define l where "l = last es"
    have es: "es = butlast es @ [l]" using True by (simp add: l_def)
    have l: "extent_inside content l" using assms(1) True by (simp add: l_def list_all_iff)
    then have run: "deviceOffset run = deviceOffset l + lengthBytes l"
      using True assms(3) by (simp add: continues_def extent_inside_def flip: l_def)
    have len: "wrap64 (lengthBytes l + lengthBytes run) = lengthBytes l + lengthBytes run"
      using assms(2,3) run by (simp add: extent_inside_def)
    have "extent_bytes content (l\<lparr>lengthBytes := lengthBytes l + lengthBytes run\<rparr>) = extent_bytes content l @ extent_bytes content run"
      using run by (simp add: extent_bytes_def take_add add.commute)
    moreover have "extent_inside content (l\<lparr>lengthBytes := lengthBytes l + lengthBytes run\<rparr>)"
      using assms(2) run by (simp add: extent_inside_def)
    moreover have "span_bytes content es = span_bytes content (butlast es) @ extent_bytes content l" "list_all (extent_inside content) (butlast es)"
      using es assms(1) by (metis append_Nil2 span_simps(1,2,3), metis list_all_append)
    ultimately show ?thesis using True len by (simp add: appendExtent_def flip: l_def)
  qed (use assms in \<open>auto simp: appendExtent_def\<close>)
  then show "span_bytes content (appendExtent es run) = span_bytes content es @ extent_bytes content run"
    and "list_all (extent_inside content) (appendExtent es run)" by simp_all
qed

subsection \<open>Finding a range\<close>

lemma findExtentFrom_spec:
  assumes "list_all (extent_inside content) es" and "length content \<le> max64" and "consumed + span_length es \<le> max64"
    and "consumed \<le> fr_offset r" and "fr_offset r + fr_length r \<le> max64"
  shows "case findExtentFrom es r consumed of
      Inl e \<Rightarrow> \<not> (\<exists>pre ext post. es = pre @ ext # post \<and> consumed + span_length pre \<le> fr_offset r \<and>
                fr_offset r < consumed + span_length (pre @ [ext]) \<and> fr_offset r + fr_length r \<le> consumed + span_length (pre @ [ext]))
    | Inr at \<Rightarrow> at + fr_length r \<le> length content \<and>
        fr_offset r + fr_length r \<le> consumed + span_length es \<and>
        take (fr_length r) (drop at content) = take (fr_length r) (drop (fr_offset r - consumed) (span_bytes content es))"
  using assms
proof (induction es arbitrary: consumed)
  case Nil
  then show ?case by simp
next
  case (Cons e es)
  let ?in = "fr_offset r - consumed"
  have inner: "wrap_sub64 (fr_offset r) consumed = ?in" using Cons.prems(4) by (simp add: wrap_sub64_def)
  have e: "deviceOffset e + lengthBytes e \<le> length content" using Cons.prems(1) by (simp add: extent_inside_def)
  show ?case
  proof (cases "?in < lengthBytes e")
    case True
    then have room: "wrap_sub64 (lengthBytes e) ?in = lengthBytes e - ?in" by (simp add: wrap_sub64_def)
    have fits: "\<not> ?in > max64 - deviceOffset e" "wrap64 (deviceOffset e + ?in) = deviceOffset e + ?in"
      using True e Cons.prems(2) by simp_all
    have found: "findExtentFrom (e # es) r consumed =
        (if fr_length r > lengthBytes e - ?in then Inl (mkError kInvalidArgument ?in) else Inr (deviceOffset e + ?in))"
      using True inner room fits by (simp add: withinExtent_def)
    show ?thesis
    proof (cases "fr_length r > lengthBytes e - ?in")
      case False
      have "take (fr_length r) (drop (deviceOffset e + ?in) content) = take (fr_length r) (drop ?in (extent_bytes content e))"
        using False True by (simp add: extent_bytes_def drop_take add.commute)
      moreover have "length (extent_bytes content e) = lengthBytes e" using Cons.prems(1) by (simp add: length_extent_bytes)
      moreover have "deviceOffset e + ?in + fr_length r \<le> length content" "fr_offset r + fr_length r \<le> consumed + lengthBytes e"
        using False True e Cons.prems(4) by linarith+
      ultimately show ?thesis unfolding found using False True by simp
    next
      case long: True
      have "\<not> (e # es = pre @ ext # post \<and> consumed + span_length pre \<le> fr_offset r \<and>
          fr_offset r < consumed + span_length (pre @ [ext]) \<and> fr_offset r + fr_length r \<le> consumed + span_length (pre @ [ext]))" for pre ext post
        using long True Cons.prems(4) by (cases pre) auto
      then show ?thesis unfolding found using long by auto
    qed
  next
    case False
    let ?next = "consumed + lengthBytes e"
    have step: "findExtentFrom (e # es) r consumed = findExtentFrom es r ?next"
      using False inner Cons.prems(3) by simp
    have len: "length (extent_bytes content e) = lengthBytes e" using Cons.prems(1) by (simp add: length_extent_bytes)
    have le: "?next \<le> fr_offset r" using False Cons.prems(4) by simp
    have IH: "case findExtentFrom es r ?next of
      Inl e \<Rightarrow> \<not> (\<exists>pre ext post. es = pre @ ext # post \<and> ?next + span_length pre \<le> fr_offset r \<and>
                fr_offset r < ?next + span_length (pre @ [ext]) \<and> fr_offset r + fr_length r \<le> ?next + span_length (pre @ [ext]))
    | Inr at \<Rightarrow> at + fr_length r \<le> length content \<and> fr_offset r + fr_length r \<le> ?next + span_length es \<and>
        take (fr_length r) (drop at content) = take (fr_length r) (drop (fr_offset r - ?next) (span_bytes content es))"
      using Cons.IH [of ?next] Cons.prems le by simp
    show ?thesis
    proof (cases "findExtentFrom es r ?next")
      case (Inr at)
      have "drop ?in (span_bytes content (e # es)) = drop (fr_offset r - ?next) (span_bytes content es)"
        using False len by simp
      then show ?thesis using IH Inr step by simp
    next
      case (Inl err)
      have "\<not> (e # es = pre @ ext # post \<and> consumed + span_length pre \<le> fr_offset r \<and>
          fr_offset r < consumed + span_length (pre @ [ext]) \<and> fr_offset r + fr_length r \<le> consumed + span_length (pre @ [ext]))" for pre ext post
      proof (cases pre)
        case Nil
        then show ?thesis using le by auto
      next
        case (Cons p pre')
        then show ?thesis using IH Inl by (auto simp: add.assoc)
      qed
      then show ?thesis unfolding step Inl by auto
    qed
  qed
qed

text \<open>
  Locating a range of a file in its extents is right in both directions. An answer is the
  device offset at which the range's bytes stand, all of them inside the device; a refusal means
  that no single extent holds the whole range.
\<close>

theorem located_range_is_the_file_range:
  assumes "list_all (extent_inside content) extents" and "length content \<le> max64" and "span_length extents \<le> max64"
    and "off + len \<le> max64"
  shows "case locateInExtents extents \<lparr>fr_offset = off, fr_length = len\<rparr> of
      Inl e \<Rightarrow> \<not> (\<exists>pre ext post. extents = pre @ ext # post \<and> span_length pre \<le> off \<and>
                off < span_length (pre @ [ext]) \<and> off + len \<le> span_length (pre @ [ext]))
    | Inr at \<Rightarrow> at + len \<le> length content \<and>
        take len (drop at content) = take len (drop off (span_bytes content extents))"
  using findExtentFrom_spec [OF assms(1,2), of 0 "\<lparr>fr_offset = off, fr_length = len\<rparr>"] assms(3,4)
  by (auto simp: locateInExtents_def findExtent_def split: sum.splits)

theorem located_range_is_the_file_range_witness:
  "locateInExtents [\<lparr>deviceOffset = 4, lengthBytes = 2\<rparr>, \<lparr>deviceOffset = 0, lengthBytes = 3\<rparr>] \<lparr>fr_offset = 3, fr_length = 2\<rparr> = Inr 1 \<and>
   take 2 (drop 1 [1, 2, 3, 4, 5, 6]) =
     take 2 (drop 3 (span_bytes [1, 2, 3, 4, 5, 6 :: byte] [\<lparr>deviceOffset = 4, lengthBytes = 2\<rparr>, \<lparr>deviceOffset = 0, lengthBytes = 3\<rparr>]))"
proof -
  let ?es = "[\<lparr>deviceOffset = 4, lengthBytes = 2\<rparr>, \<lparr>deviceOffset = 0, lengthBytes = 3\<rparr>]"
  have hyp: "list_all (extent_inside [1, 2, 3, 4, 5, 6 :: byte]) ?es" "length [1, 2, 3, 4, 5, 6 :: byte] \<le> max64"
      "span_length ?es \<le> max64" "3 + 2 \<le> max64"
    by (simp_all add: extent_inside_def max64_def)
  have at: "locateInExtents ?es \<lparr>fr_offset = 3, fr_length = 2\<rparr> = Inr 1"
    by (simp add: locateInExtents_def findExtent_def withinExtent_def wrap_sub64_def wrap64_def max64_def)
  show ?thesis using located_range_is_the_file_range [OF hyp] at by simp
qed

subsection \<open>What the shared boot-sector fields accept\<close>

declare readLe_in_range [simp del]

definition sector_sizes :: "nat set" where "sector_sizes = {512, 1024, 2048, 4096}"

definition cluster_sizes :: "nat set" where "cluster_sizes = {1, 2, 4, 8, 16, 32, 64, 128}"

lemma powers_of_two: "isPowerOfTwo v \<and> v \<le> 128 \<longleftrightarrow> v \<in> cluster_sizes"
proof -
  have "\<forall>v \<in> set [0..<129]. isPowerOfTwo v \<longleftrightarrow> v \<in> cluster_sizes" unfolding cluster_sizes_def by code_simp
  then have "v \<le> 128 \<Longrightarrow> isPowerOfTwo v \<longleftrightarrow> v \<in> cluster_sizes" by simp
  moreover have "v \<in> cluster_sizes \<Longrightarrow> v \<le> 128" by (auto simp: cluster_sizes_def)
  ultimately show ?thesis by blast
qed

lemma bytesPerSector_Inr:
  "512 \<le> length r \<Longrightarrow> bytesPerSector r = Inr v \<longleftrightarrow> v = le_at 2 r 0x0B \<and> v \<in> sector_sizes"
  by (auto simp: bytesPerSector_def kBytesPerSectorOffset_def isKnownSectorSize_def readLe_le_at sector_sizes_def)

lemma sectorsPerCluster_Inr:
  assumes "512 \<le> length r"
  shows "sectorsPerCluster r = Inr v \<longleftrightarrow> v = unat (r ! 0x0D) \<and> v \<in> cluster_sizes"
proof -
  define n where "n = unat (r ! 0x0D)"
  have "sectorsPerCluster r =
      (if \<not> (isPowerOfTwo n \<and> n \<le> 128) then Inl (mkError kInvalidArgument kSectorsPerClusterOffset) else Inr n)"
    using assms by (simp add: sectorsPerCluster_def kSectorsPerClusterOffset_def kMaxSectorsPerCluster_def Let_def hd_drop_conv_nth n_def
        linorder_not_le)
  then show ?thesis unfolding powers_of_two n_def [symmetric] by auto
qed

lemma bootSignatureIsValid_Inr:
  "length r = 512 \<Longrightarrow> bootSignatureIsValid r = Inr b \<longleftrightarrow> b \<and> r ! 0x1FE = 0x55 \<and> r ! 0x1FF = 0xAA"
proof -
  assume len: "length r = 512"
  have "take 2 (drop 0x1FE r) = [r ! 0x1FE, r ! 0x1FF]"
    using len by (intro nth_equalityI) (auto simp: less_Suc_eq numeral_2_eq_2 nth_Cons')
  then show ?thesis using len by (auto simp: bootSignatureIsValid_def kBootSignatureOffset_def)
qed

lemma cluster_size_fits:
  "bps \<in> sector_sizes \<Longrightarrow> spc \<in> cluster_sizes \<Longrightarrow> bps * spc \<le> (524288 :: nat) \<and> 0 < bps * spc"
  by (auto simp: sector_sizes_def cluster_sizes_def)

declare readLe_in_range [simp]

end
