(* ===== verification/NtfsRuns.thy ===== *)
theory NtfsRuns
  imports Extents
begin

text \<open>
  \<open>src/fs/ntfs/RunlistRun.cpp\<close>, \<open>Runlist.cpp\<close> and \<open>RunlistExtents.cpp\<close>: the data runs
  of a non-resident attribute, from their bytes to the extents of a file. Cluster numbers are
  signed 64-bit in the decoder and kept as \<^typ>\<open>int\<close>; the sign extension of an offset field
  works on the bits and is a \<^typ>\<open>64 word\<close> operation.
\<close>

record NtfsGeometry =
  ng_bytesPerSector :: u32
  ng_bytesPerCluster :: u32
  ng_totalClusters :: u64
  ng_mftOffsetBytes :: u64
  ng_bytesPerMftRecord :: u32

subsection \<open>One run\<close>

definition kBitsPerByte :: nat where "kBitsPerByte = 8"
definition kNibbleMask :: u8 where "kNibbleMask = 0x0F"
definition kNibbleBits :: nat where "kNibbleBits = 4"
definition kMaxFieldWidth :: size_t where "kMaxFieldWidth = 8"

record RawRun =
  rw_lengthClusters :: u64
  rw_rawOffset :: u64
  rw_offsetWidth :: size_t
  rw_encodedSize :: size_t

record RunHeader =
  rh_lengthWidth :: size_t
  rh_offsetWidth :: size_t

definition readRunHeader :: "bytes \<Rightarrow> size_t \<Rightarrow> RunHeader result" where
  "readRunHeader reader cursor =
     (case readLe 1 reader cursor of
        Inl e \<Rightarrow> Inl e
      | Inr raw \<Rightarrow>
          let widths = \<lparr>rh_lengthWidth = raw AND kNibbleMask, rh_offsetWidth = drop_bit kNibbleBits raw AND kNibbleMask\<rparr>
          in if rh_lengthWidth widths = 0 \<or> rh_lengthWidth widths > kMaxFieldWidth \<or> rh_offsetWidth widths > kMaxFieldWidth
             then Inl (mkError kInvalidArgument cursor) else Inr widths)"

definition readLeField :: "bytes \<Rightarrow> u64" where
  "readLeField field = foldl (\<lambda>sofar part. wrap64 (push_bit kBitsPerByte sofar) OR unat part) 0 (rev field)"

definition readRunFields :: "bytes \<Rightarrow> size_t \<Rightarrow> RunHeader \<Rightarrow> bytes result" where
  "readRunFields reader cursor widths = bytesAt reader (cursor + 1) (rh_lengthWidth widths + rh_offsetWidth widths)"

definition makeRawRun :: "bytes \<Rightarrow> RunHeader \<Rightarrow> u64 \<Rightarrow> RawRun result" where
  "makeRawRun parts widths off =
     (let lengthClusters = readLeField (take (rh_lengthWidth widths) parts)
      in if lengthClusters = 0 then Inl (mkError kInvalidArgument off)
         else Inr \<lparr>rw_lengthClusters = lengthClusters, rw_rawOffset = readLeField (drop (rh_lengthWidth widths) parts),
                   rw_offsetWidth = rh_offsetWidth widths,
                   rw_encodedSize = 1 + rh_lengthWidth widths + rh_offsetWidth widths\<rparr>)"

definition readRawRun :: "bytes \<Rightarrow> size_t \<Rightarrow> RawRun result" where
  "readRawRun reader cursor =
     (case readRunHeader reader cursor of
        Inl e \<Rightarrow> Inl e
      | Inr header \<Rightarrow>
          (case readRunFields reader cursor header of
             Inl e \<Rightarrow> Inl e
           | Inr parts \<Rightarrow> makeRawRun parts header cursor))"

subsection \<open>The list\<close>

record DataRun =
  dr_startCluster :: u64
  dr_lengthClusters :: u64
  dr_sparse :: bool

record Runlist =
  rl_runs :: "DataRun list"
  rl_totalClusters :: u64

record DecodeState =
  de_cursor :: size_t
  de_previousLcn :: int

datatype Step = kRunAppended | kEndReached

definition kEndMarker :: u8 where "kEndMarker = 0"
definition kMaxDataRuns :: size_t where "kMaxDataRuns = 1024"
definition kMaxInt64 :: int where "kMaxInt64 = 2 ^ 63 - 1"

definition signedDelta :: "RawRun \<Rightarrow> int" where
  "signedDelta raw =
     (let shift = (8 - rw_offsetWidth raw) * kBitsPerByte
      in sint (signed_drop_bit shift (push_bit shift (of_nat (rw_rawOffset raw) :: 64 word))))"

definition nextLcn :: "int \<Rightarrow> RawRun \<Rightarrow> u64 \<Rightarrow> int result" where
  "nextLcn previousLcn raw off =
     (let delta = signedDelta raw
      in if delta > 0 \<and> previousLcn > kMaxInt64 - delta then Inl (mkError kOverflow off)
         else if previousLcn + delta < 0 then Inl (mkError kInvalidArgument off)
         else Inr (previousLcn + delta))"

definition placeRun :: "RawRun \<Rightarrow> int \<Rightarrow> u64 \<Rightarrow> DataRun result" where
  "placeRun raw previousLcn off =
     (if rw_offsetWidth raw = 0
      then Inr \<lparr>dr_startCluster = 0, dr_lengthClusters = rw_lengthClusters raw, dr_sparse = True\<rparr>
      else mapResult (nextLcn previousLcn raw off)
             (\<lambda>lcn. \<lparr>dr_startCluster = nat lcn, dr_lengthClusters = rw_lengthClusters raw, dr_sparse = False\<rparr>))"

definition lcnAfter :: "DataRun \<Rightarrow> int \<Rightarrow> int" where
  "lcnAfter run previousLcn = (if dr_sparse run then previousLcn else int (dr_startCluster run))"

definition checkedTotal :: "Runlist \<Rightarrow> DataRun \<Rightarrow> u64 \<Rightarrow> u64 result" where
  "checkedTotal runlist run off =
     (if \<not> hasValue (boundedCount (length (rl_runs runlist) + 1) kMaxDataRuns) then Inl (mkError kOutOfRange off)
      else if dr_lengthClusters run > max64 - rl_totalClusters runlist then Inl (mkError kOverflow off)
      else Inr (rl_totalClusters runlist + dr_lengthClusters run))"

definition storeRun ::
  "DataRun \<Rightarrow> size_t \<Rightarrow> DecodeState \<Rightarrow> Runlist \<Rightarrow> (Step \<times> DecodeState \<times> Runlist) result" where
  "storeRun run encodedSize state runlist =
     mapResult (checkedTotal runlist run (de_cursor state))
       (\<lambda>sumClusters. (kRunAppended,
          \<lparr>de_cursor = de_cursor state + encodedSize, de_previousLcn = lcnAfter run (de_previousLcn state)\<rparr>,
          \<lparr>rl_runs = rl_runs runlist @ [run], rl_totalClusters = sumClusters\<rparr>))"

definition appendRun :: "RawRun \<Rightarrow> DecodeState \<Rightarrow> Runlist \<Rightarrow> (Step \<times> DecodeState \<times> Runlist) result" where
  "appendRun raw state runlist =
     (case placeRun raw (de_previousLcn state) (de_cursor state) of
        Inl e \<Rightarrow> Inl e
      | Inr run \<Rightarrow> storeRun run (rw_encodedSize raw) state runlist)"

definition classifyCursor :: "bytes \<Rightarrow> size_t \<Rightarrow> Step result" where
  "classifyCursor reader cursor =
     mapResult (readLe 1 reader cursor) (\<lambda>header. if header = kEndMarker then kEndReached else kRunAppended)"

definition stepOneRun ::
  "bytes \<Rightarrow> DecodeState \<Rightarrow> Runlist \<Rightarrow> (Step \<times> DecodeState \<times> Runlist) result" where
  "stepOneRun reader state runlist =
     (case classifyCursor reader (de_cursor state) of
        Inl e \<Rightarrow> Inl e
      | Inr kEndReached \<Rightarrow> Inr (kEndReached, state, runlist)
      | Inr kRunAppended \<Rightarrow>
          (case readRawRun reader (de_cursor state) of
             Inl e \<Rightarrow> Inl e
           | Inr raw \<Rightarrow> appendRun raw state runlist))"

lemma stepOneRun_advances:
  assumes "stepOneRun reader state runlist = Inr (kRunAppended, state', runlist')"
  shows "de_cursor state < de_cursor state' \<and> de_cursor state' \<le> length reader"
  using assms
  by (auto simp: stepOneRun_def classifyCursor_def appendRun_def storeRun_def readRawRun_def readRunFields_def makeRawRun_def
      bytesAt_def Let_def mapResult_Inr_iff split: sum.splits Step.splits if_splits)

function decodeFrom :: "bytes \<Rightarrow> DecodeState \<Rightarrow> Runlist \<Rightarrow> Runlist result" where
  "decodeFrom reader state runlist =
     (case stepOneRun reader state runlist of
        Inl e \<Rightarrow> Inl e
      | Inr (kEndReached, _, runlist') \<Rightarrow> Inr runlist'
      | Inr (kRunAppended, state', runlist') \<Rightarrow> decodeFrom reader state' runlist')"
  by pat_completeness auto
termination
  by (relation "measure (\<lambda>(reader, state, runlist). length reader - de_cursor state)")
     (auto dest!: stepOneRun_advances)

declare decodeFrom.simps [simp del]

definition decodeRunlist :: "bytes \<Rightarrow> Runlist result" where
  "decodeRunlist runlistBytes =
     decodeFrom runlistBytes \<lparr>de_cursor = 0, de_previousLcn = 0\<rparr> \<lparr>rl_runs = [], rl_totalClusters = 0\<rparr>"

subsection \<open>From clusters to bytes\<close>

definition volumeByteSize :: "NtfsGeometry \<Rightarrow> u64 result" where
  "volumeByteSize geometry = safeMul64 (ng_totalClusters geometry) (ng_bytesPerCluster geometry) 0"

definition runFitsVolume :: "DataRun \<Rightarrow> u64 \<Rightarrow> bool" where
  "runFitsVolume run totalClusters \<longleftrightarrow>
     dr_startCluster run \<le> totalClusters \<and> dr_lengthClusters run \<le> totalClusters - dr_startCluster run"

definition allRunsMappable :: "Runlist \<Rightarrow> NtfsGeometry \<Rightarrow> bool" where
  "allRunsMappable runlist geometry \<longleftrightarrow>
     list_all (\<lambda>run. \<not> (dr_sparse run \<or> \<not> runFitsVolume run (ng_totalClusters geometry))) (rl_runs runlist)"

definition runExtent :: "DataRun \<Rightarrow> NtfsGeometry \<Rightarrow> Extent" where
  "runExtent run geometry =
     \<lparr>deviceOffset = wrap64 (dr_startCluster run * ng_bytesPerCluster geometry),
      lengthBytes = wrap64 (dr_lengthClusters run * ng_bytesPerCluster geometry)\<rparr>"

definition mapRuns :: "Runlist \<Rightarrow> NtfsGeometry \<Rightarrow> Extent list result" where
  "mapRuns runlist geometry =
     (if \<not> allRunsMappable runlist geometry then Inl (mkError kInvalidArgument 0)
      else Inr (map (\<lambda>run. runExtent run geometry) (rl_runs runlist)))"

definition runlistExtents :: "Runlist \<Rightarrow> NtfsGeometry \<Rightarrow> u64 \<Rightarrow> Extent list result" where
  "runlistExtents runlist geometry realSize =
     andThen (andThen (volumeByteSize geometry) (\<lambda>_. mapRuns runlist geometry))
       (\<lambda>extents. trimToSize extents realSize)"

subsection \<open>The encoding of a run\<close>

record EncodedRun =
  en_lengthWidth :: nat
  en_offsetWidth :: nat
  en_length :: nat
  en_delta :: int

definition run_ok :: "EncodedRun \<Rightarrow> bool" where
  "run_ok r \<longleftrightarrow> 1 \<le> en_lengthWidth r \<and> en_lengthWidth r \<le> 8 \<and> en_offsetWidth r \<le> 8 \<and>
     0 < en_length r \<and> en_length r < 256 ^ en_lengthWidth r \<and>
     (if en_offsetWidth r = 0 then en_delta r = 0
      else - (2 ^ (8 * en_offsetWidth r - 1)) \<le> en_delta r \<and> en_delta r < 2 ^ (8 * en_offsetWidth r - 1))"

definition encode_run :: "EncodedRun \<Rightarrow> bytes" where
  "encode_run r = of_nat (en_lengthWidth r + 16 * en_offsetWidth r) #
     leBytes (en_lengthWidth r) (en_length r) @ leBytes (en_offsetWidth r) (nat (en_delta r mod 256 ^ en_offsetWidth r))"

lemma length_encode_run [simp]: "length (encode_run r) = 1 + en_lengthWidth r + en_offsetWidth r"
  by (simp add: encode_run_def)

lemma readLeField_eq: "length field \<le> 8 \<Longrightarrow> readLeField field = leNat field"
proof (induction field)
  case (Cons b field)
  have "leNat field < 256 ^ length field" by (rule leNat_less)
  also have "\<dots> \<le> 256 ^ 7" using Cons.prems by (intro power_increasing) auto
  finally have "256 * leNat field \<le> max64" by (simp add: max64_def)
  moreover have "push_bit kBitsPerByte (leNat field) = 256 * leNat field" by (simp add: kBitsPerByte_def push_bit_eq_mult)
  moreover have "unat b AND 255 = unat b" using unat_byte_less [of b] take_bit_eq_mask [of 8 "unat b"]
    by (simp add: mask_eq_exp_minus_1 take_bit_eq_mod)
  ultimately show ?case
    using Cons or_byte [of "leNat field" "unat b"]
    by (simp add: readLeField_def kBitsPerByte_def mult.commute)
qed (simp add: readLeField_def)

lemma drop_signed_push: 
  assumes "s \<le> n"
  shows "drop_bit s (signed_take_bit n (push_bit s x)) = signed_take_bit (n - s) (x :: int)"
proof (rule bit_eqI)
  fix k
  have "n - s \<le> k \<Longrightarrow> min n (s + k) = n" "k \<le> n - s \<Longrightarrow> min n (s + k) = s + k" using assms by auto
  then show "bit (drop_bit s (signed_take_bit n (push_bit s x))) k = bit (signed_take_bit (n - s) x) k"
    using assms by (cases "k \<le> n - s") (auto simp: bit_simps min_def)
qed

lemma signedDelta_eq:
  assumes "0 < rw_offsetWidth raw" and "rw_offsetWidth raw \<le> 8"
  shows "signedDelta raw = signed_take_bit (8 * rw_offsetWidth raw - 1) (int (rw_rawOffset raw))"
proof -
  define s where "s = (8 - rw_offsetWidth raw) * 8"
  have s: "63 - s = 8 * rw_offsetWidth raw - 1" "s \<le> 63" using assms by (auto simp: s_def)
  have "sint (push_bit s (of_nat (rw_rawOffset raw) :: 64 word)) = signed_take_bit 63 (push_bit s (int (rw_rawOffset raw)))"
  proof -
    have "push_bit s (of_nat (rw_rawOffset raw) :: 64 word) = word_of_int (push_bit s (int (rw_rawOffset raw)))"
      by (simp add: push_bit_eq_mult)
    then show ?thesis unfolding \<open>push_bit s (of_nat (rw_rawOffset raw) :: 64 word) = word_of_int _\<close> by (simp add: signed_of_int)
  qed
  then have "signedDelta raw = drop_bit s (signed_take_bit 63 (push_bit s (int (rw_rawOffset raw))))"
    by (simp add: signedDelta_def Let_def kBitsPerByte_def sint_signed_drop_bit_eq flip: s_def)
  then show ?thesis using drop_signed_push [OF s(2)] s(1) by simp
qed

lemma run_signed_field:
  assumes "0 < w" and "- (2 ^ (8 * w - 1)) \<le> d" and "d < 2 ^ (8 * w - 1)"
  shows "signed_take_bit (8 * w - 1) (int (nat (d mod 256 ^ w))) = d"
proof -
  have "(256 :: int) ^ w = 2 ^ (8 * w)" by (simp add: power_mult)
  then have "int (nat (d mod 256 ^ w)) = take_bit (8 * w) d" by (simp add: take_bit_eq_mod)
  then have "signed_take_bit (8 * w - 1) (int (nat (d mod 256 ^ w))) = signed_take_bit (8 * w - 1) d"
    using assms(1) by (auto simp: signed_take_bit_take_bit)
  then show ?thesis using assms(2,3) by (simp add: signed_take_bit_int_eq_self)
qed

definition raw_of :: "EncodedRun \<Rightarrow> RawRun" where
  "raw_of r = \<lparr>rw_lengthClusters = en_length r, rw_rawOffset = nat (en_delta r mod 256 ^ en_offsetWidth r),
     rw_offsetWidth = en_offsetWidth r, rw_encodedSize = length (encode_run r)\<rparr>"

lemma nibbles:
  assumes "b < (256 :: nat)"
  shows "b AND kNibbleMask = b mod 16" "drop_bit kNibbleBits b AND kNibbleMask = b div 16"
proof -
  have mask: "n AND kNibbleMask = n mod 16" for n :: nat
    using take_bit_eq_mask [of 4 n] by (simp add: kNibbleMask_def mask_eq_exp_minus_1 take_bit_eq_mod)
  show "b AND kNibbleMask = b mod 16" by (rule mask)
  show "drop_bit kNibbleBits b AND kNibbleMask = b div 16"
    using assms by (simp add: mask kNibbleBits_def drop_bit_eq_div)
qed

lemma readRunHeader_drop:
  assumes "drop cursor reader = b # more'"
  shows "readRunHeader reader cursor =
    (let lw = unat b mod 16; ow = unat b div 16
     in if lw = 0 \<or> lw > 8 \<or> ow > 8 then Inl (mkError kInvalidArgument cursor)
        else Inr \<lparr>rh_lengthWidth = lw, rh_offsetWidth = ow\<rparr>)"
proof -
  have "cursor < length reader" using assms by (metis drop_eq_Nil linorder_not_le list.distinct(1))
  then have "readLe 1 reader cursor = Inr (unat b)" using assms by simp
  then show ?thesis by (simp add: readRunHeader_def nibbles kMaxFieldWidth_def Let_def)
qed

lemma readRunFields_drop:
  assumes "drop cursor reader = b # more'"
  shows "readRunFields reader cursor \<lparr>rh_lengthWidth = lw, rh_offsetWidth = ow\<rparr> =
    (if lw + ow \<le> length more' then Inr (take (lw + ow) more') else Inl (mkError kOutOfRange (cursor + 1)))"
proof -
  have "cursor < length reader" using assms by (metis drop_eq_Nil linorder_not_le list.distinct(1))
  moreover have "drop (cursor + 1) reader = more'" using assms by (metis add.commute drop_drop drop_Suc_Cons drop0 plus_1_eq_Suc)
  moreover from this have "length more' = length reader - (cursor + 1)" by (metis length_drop)
  ultimately show ?thesis by (auto simp: readRunFields_def bytesAt_def)
qed

lemma readRawRun_encode:
  assumes "drop cursor reader = encode_run r @ post" and "run_ok r"
  shows "readRawRun reader cursor = Inr (raw_of r)"
proof -
  let ?lw = "en_lengthWidth r" and ?ow = "en_offsetWidth r"
  let ?d = "nat (en_delta r mod 256 ^ ?ow)"
  have ok: "1 \<le> ?lw" "?lw \<le> 8" "?ow \<le> 8" "0 < en_length r" "en_length r < 256 ^ ?lw" using assms(2) by (simp_all add: run_ok_def)
  have at: "drop cursor reader = of_nat (?lw + 16 * ?ow) # leBytes ?lw (en_length r) @ leBytes ?ow ?d @ post"
    using assms(1) by (simp add: encode_run_def)
  have b: "unat (of_nat (?lw + 16 * ?ow) :: byte) = ?lw + 16 * ?ow" using ok by (simp add: unat_of_nat del: of_nat_add of_nat_mult)
  have header: "readRunHeader reader cursor = Inr \<lparr>rh_lengthWidth = ?lw, rh_offsetWidth = ?ow\<rparr>"
    unfolding readRunHeader_drop [OF at] b using ok by (simp add: Let_def)
  have parts: "readRunFields reader cursor \<lparr>rh_lengthWidth = ?lw, rh_offsetWidth = ?ow\<rparr> = Inr (leBytes ?lw (en_length r) @ leBytes ?ow ?d)"
    unfolding readRunFields_drop [OF at] by simp
  have "?d < 256 ^ ?ow" by (simp add: nat_less_iff)
  then have vals: "readLeField (leBytes ?lw (en_length r)) = en_length r" "readLeField (leBytes ?ow ?d) = ?d"
    using ok by (simp_all add: readLeField_eq leNat_leBytes_id)
  show ?thesis using header parts ok vals by (simp add: readRawRun_def makeRawRun_def raw_of_def Let_def)
qed

lemma signed_field_inverse:
  assumes "x < 256 ^ w" and "0 < w"
  shows "nat (signed_take_bit (8 * w - 1) (int x) mod 256 ^ w) = x"
proof -
  have p: "(256 :: int) ^ w = 2 ^ (8 * w)" by (simp add: power_mult)
  have "signed_take_bit (8 * w - 1) (int x) mod 256 ^ w = take_bit (8 * w) (signed_take_bit (8 * w - 1) (int x))"
    unfolding p by (simp add: take_bit_eq_mod)
  also have "\<dots> = take_bit (8 * w) (int x)" using assms(2) by (simp add: take_bit_signed_take_bit)
  also have "\<dots> = int x"
    using assms(1) p by (simp add: take_bit_int_eq_self_iff) (metis of_nat_less_numeral_power_cancel_iff of_nat_numeral of_nat_power of_nat_less_iff)
  finally show ?thesis by simp
qed

lemma readRawRun_decode:
  assumes "drop cursor reader = b # more'" and "readRawRun reader cursor = Inr raw"
  shows "\<exists>r post. b # more' = encode_run r @ post \<and> run_ok r \<and> raw = raw_of r"
proof -
  define lw ow where "lw = unat b mod 16" and "ow = unat b div 16"
  have widths: "lw \<noteq> 0" "lw \<le> 8" "ow \<le> 8" "lw + ow \<le> length more'"
    and raw: "makeRawRun (take (lw + ow) more') \<lparr>rh_lengthWidth = lw, rh_offsetWidth = ow\<rparr> cursor = Inr raw"
    using assms(2) unfolding readRawRun_def readRunHeader_drop [OF assms(1)] lw_def ow_def
    by (auto simp: Let_def readRunFields_drop [OF assms(1)] split: if_splits)
  define len off where "len = leNat (take lw more')" and "off = leNat (take ow (drop lw more'))"
  define r where "r = \<lparr>en_lengthWidth = lw, en_offsetWidth = ow, en_length = len,
    en_delta = (if ow = 0 then 0 else signed_take_bit (8 * ow - 1) (int off))\<rparr>"
  have "take lw (take (lw + ow) more') = take lw more'" "drop lw (take (lw + ow) more') = take ow (drop lw more')"
    by (simp_all add: drop_take)
  then have val: "raw = \<lparr>rw_lengthClusters = len, rw_rawOffset = off, rw_offsetWidth = ow, rw_encodedSize = 1 + lw + ow\<rparr>" "len \<noteq> 0"
    using raw widths by (auto simp: makeRawRun_def readLeField_eq len_def off_def Let_def split: if_splits)
  have bounds: "len < 256 ^ lw" "off < 256 ^ ow"
    using leNat_less [of "take lw more'"] leNat_less [of "take ow (drop lw more')"] widths by (simp_all add: len_def off_def min_absorb1)
  have again: "nat (en_delta r mod 256 ^ ow) = off"
    using bounds(2) signed_field_inverse [of off ow] by (auto simp: r_def)
  have "run_ok r"
    using widths val(2) bounds(1) signed_take_bit_int_greater_eq_minus_exp [of "8 * ow - 1" "int off"] signed_take_bit_int_less_exp [of "8 * ow - 1" "int off"]
    by (auto simp: run_ok_def r_def)
  moreover have "b # more' = encode_run r @ drop (lw + ow) more'"
  proof -
    have "leBytes lw len = take lw more'" "leBytes ow off = take ow (drop lw more')"
      using leBytes_leNat [of "take lw more'"] leBytes_leNat [of "take ow (drop lw more')"] widths by (simp_all add: len_def off_def min_absorb1)
    moreover have "of_nat (lw + 16 * ow) = b"
    proof -
      have "lw + 16 * ow = unat b" by (simp add: lw_def ow_def)
      moreover have "of_nat (unat b) = b" by simp
      ultimately show ?thesis by metis
    qed
    ultimately show ?thesis
      using again by (simp add: encode_run_def r_def) (metis append_take_drop_id drop_drop add.commute)
  qed
  moreover have "raw = raw_of r" using val again by (simp add: raw_of_def) (simp add: r_def)
  ultimately show ?thesis by blast
qed

subsection \<open>Decoding is exact\<close>

definition placed_run :: "int \<Rightarrow> EncodedRun \<Rightarrow> DataRun" where
  "placed_run prev r =
     (if en_offsetWidth r = 0 then \<lparr>dr_startCluster = 0, dr_lengthClusters = en_length r, dr_sparse = True\<rparr>
      else \<lparr>dr_startCluster = nat (prev + en_delta r), dr_lengthClusters = en_length r, dr_sparse = False\<rparr>)"

fun placed :: "int \<Rightarrow> EncodedRun list \<Rightarrow> DataRun list" where
  "placed prev [] = []"
| "placed prev (r # rs) = placed_run prev r # placed (prev + en_delta r) rs"

fun lcns_ok :: "int \<Rightarrow> EncodedRun list \<Rightarrow> bool" where
  "lcns_ok prev [] = True"
| "lcns_ok prev (r # rs) = (0 \<le> prev + en_delta r \<and> prev + en_delta r \<le> kMaxInt64 \<and> lcns_ok (prev + en_delta r) rs)"

definition clusters_of :: "EncodedRun list \<Rightarrow> nat" where "clusters_of encs = sum_list (map en_length encs)"

definition step_fits :: "DecodeState \<Rightarrow> Runlist \<Rightarrow> EncodedRun \<Rightarrow> bool" where
  "step_fits st rl r \<longleftrightarrow> 0 \<le> de_previousLcn st + en_delta r \<and> de_previousLcn st + en_delta r \<le> kMaxInt64 \<and>
     length (rl_runs rl) + 1 \<le> kMaxDataRuns \<and> rl_totalClusters rl + en_length r \<le> max64"

definition state_after :: "DecodeState \<Rightarrow> EncodedRun \<Rightarrow> DecodeState" where
  "state_after st r = \<lparr>de_cursor = de_cursor st + length (encode_run r), de_previousLcn = de_previousLcn st + en_delta r\<rparr>"

definition runs_after :: "DecodeState \<Rightarrow> Runlist \<Rightarrow> EncodedRun \<Rightarrow> Runlist" where
  "runs_after st rl r =
     \<lparr>rl_runs = rl_runs rl @ [placed_run (de_previousLcn st) r], rl_totalClusters = rl_totalClusters rl + en_length r\<rparr>"

lemma appendRun_raw:
  assumes "run_ok r" and "0 \<le> de_previousLcn st" and "de_previousLcn st \<le> kMaxInt64" and "rl_totalClusters rl \<le> max64"
  shows "appendRun (raw_of r) st rl = Inr x \<longleftrightarrow> step_fits st rl r \<and> x = (kRunAppended, state_after st r, runs_after st rl r)"
proof (cases "en_offsetWidth r = 0")
  case True
  then have "en_delta r = 0" using assms(1) by (simp add: run_ok_def)
  then show ?thesis
    using True assms
    by (auto simp: appendRun_def placeRun_def raw_of_def storeRun_def checkedTotal_def lcnAfter_def step_fits_def state_after_def
        runs_after_def placed_run_def mapResult_Inr_iff hasValue_boundedCount)
next
  case False
  then have delta: "signedDelta (raw_of r) = en_delta r"
  proof -
    have "signed_take_bit (8 * en_offsetWidth r - 1) (int (nat (en_delta r mod 256 ^ en_offsetWidth r))) = en_delta r"
      using assms(1) False by (intro run_signed_field) (simp_all add: run_ok_def)
    then show ?thesis using False assms(1) by (simp add: signedDelta_eq raw_of_def run_ok_def)
  qed
  then show ?thesis
    using False assms
    by (auto simp: appendRun_def placeRun_def nextLcn_def storeRun_def checkedTotal_def lcnAfter_def step_fits_def state_after_def
        runs_after_def placed_run_def mapResult_Inr_iff hasValue_boundedCount Let_def split: if_splits) (auto simp: raw_of_def)
qed

lemma encode_run_head: "run_ok r \<Longrightarrow> \<exists>b bs. encode_run r = b # bs \<and> unat b \<noteq> 0"
proof -
  assume "run_ok r"
  then have "unat (of_nat (en_lengthWidth r + 16 * en_offsetWidth r) :: byte) = en_lengthWidth r + 16 * en_offsetWidth r"
      "en_lengthWidth r \<noteq> 0"
    by (simp_all add: run_ok_def unat_of_nat del: of_nat_add of_nat_mult)
  then show ?thesis by (simp add: encode_run_def del: of_nat_add of_nat_mult)
qed

lemma classifyCursor_drop:
  "classifyCursor reader cursor =
     (case drop cursor reader of
        [] \<Rightarrow> Inl (mkError kOutOfRange cursor)
      | b # _ \<Rightarrow> Inr (if unat b = 0 then kEndReached else kRunAppended))"
proof (cases "drop cursor reader")
  case Nil
  then show ?thesis by (simp add: classifyCursor_def)
next
  case (Cons b more')
  then have "cursor < length reader" by (metis drop_eq_Nil linorder_not_le list.distinct(1))
  then have "readLe 1 reader cursor = Inr (unat b)" using Cons by simp
  then show ?thesis using Cons by (simp add: classifyCursor_def kEndMarker_def)
qed

definition decoding :: "bytes \<Rightarrow> DecodeState \<Rightarrow> Runlist \<Rightarrow> bool" where
  "decoding reader st rl \<longleftrightarrow> 0 \<le> de_previousLcn st \<and> de_previousLcn st \<le> kMaxInt64 \<and> rl_totalClusters rl \<le> max64 \<and>
     length (rl_runs rl) \<le> kMaxDataRuns"

lemma stepOneRun_iff:
  assumes "decoding reader st rl"
  shows "stepOneRun reader st rl = Inr (kRunAppended, st', rl') \<longleftrightarrow>
      (\<exists>r post. drop (de_cursor st) reader = encode_run r @ post \<and> run_ok r \<and> step_fits st rl r \<and>
         st' = state_after st r \<and> rl' = runs_after st rl r)" (is "?run \<longleftrightarrow> ?enc")
    and "stepOneRun reader st rl = Inr (kEndReached, st', rl') \<longleftrightarrow>
      (\<exists>rest. drop (de_cursor st) reader = 0 # rest) \<and> st' = st \<and> rl' = rl"
proof -
  have inv: "0 \<le> de_previousLcn st" "de_previousLcn st \<le> kMaxInt64" "rl_totalClusters rl \<le> max64"
    using assms by (simp_all add: decoding_def)
  show "?run \<longleftrightarrow> ?enc"
  proof
    assume run: ?run
    then obtain b more' raw where at: "drop (de_cursor st) reader = b # more'" and
        raw: "readRawRun reader (de_cursor st) = Inr raw" "appendRun raw st rl = Inr (kRunAppended, st', rl')"
      by (auto simp: stepOneRun_def classifyCursor_drop split: sum.splits list.splits Step.splits if_splits)
    obtain r post where "b # more' = encode_run r @ post" "run_ok r" "raw = raw_of r" using readRawRun_decode [OF at raw(1)] by blast
    then show ?enc using raw(2) appendRun_raw [OF _ inv] at by auto
  next
    assume ?enc
    then obtain r post where r: "drop (de_cursor st) reader = encode_run r @ post" "run_ok r" "step_fits st rl r"
        "st' = state_after st r" "rl' = runs_after st rl r" by blast
    then have "classifyCursor reader (de_cursor st) = Inr kRunAppended"
      using encode_run_head [OF r(2)] by (auto simp: classifyCursor_drop)
    then show ?run using r readRawRun_encode [OF r(1,2)] appendRun_raw [OF r(2) inv] by (simp add: stepOneRun_def)
  qed
  have never: "appendRun raw st rl \<noteq> Inr (kEndReached, st', rl')" for raw
    by (auto simp: appendRun_def storeRun_def mapResult_Inr_iff split: sum.splits)
  show "stepOneRun reader st rl = Inr (kEndReached, st', rl') \<longleftrightarrow>
      (\<exists>rest. drop (de_cursor st) reader = 0 # rest) \<and> st' = st \<and> rl' = rl"
    using never by (auto simp: stepOneRun_def classifyCursor_drop unat_eq_0 split: sum.splits list.splits Step.splits)
qed

lemma decoding_after: "decoding reader st rl \<Longrightarrow> step_fits st rl r \<Longrightarrow> decoding reader (state_after st r) (runs_after st rl r)"
  by (auto simp: decoding_def step_fits_def state_after_def runs_after_def)

definition decodes_to :: "bytes \<Rightarrow> DecodeState \<Rightarrow> Runlist \<Rightarrow> Runlist \<Rightarrow> EncodedRun list \<Rightarrow> bool" where
  "decodes_to reader st rl final encs \<longleftrightarrow>
     (\<exists>rest. drop (de_cursor st) reader = concat (map encode_run encs) @ 0 # rest) \<and>
     list_all run_ok encs \<and> lcns_ok (de_previousLcn st) encs \<and> length (rl_runs rl) + length encs \<le> kMaxDataRuns \<and>
     rl_totalClusters rl + clusters_of encs \<le> max64 \<and>
     final = \<lparr>rl_runs = rl_runs rl @ placed (de_previousLcn st) encs, rl_totalClusters = rl_totalClusters rl + clusters_of encs\<rparr>"

lemma decodes_to_Nil: 
  "decoding reader st rl \<Longrightarrow> decodes_to reader st rl final [] \<longleftrightarrow> (\<exists>rest. drop (de_cursor st) reader = 0 # rest) \<and> final = rl"
  by (auto simp: decodes_to_def clusters_of_def decoding_def)

lemma drop_past: "drop c xs = a @ b \<Longrightarrow> drop (c + length a) xs = b"
  by (metis add.commute append_eq_conv_conj drop_drop)

lemma decodes_to_Cons:
  "decodes_to reader st rl final (r # rs) \<longleftrightarrow>
     (\<exists>post. drop (de_cursor st) reader = encode_run r @ post) \<and> run_ok r \<and> step_fits st rl r \<and>
     decodes_to reader (state_after st r) (runs_after st rl r) final rs" (is "?l \<longleftrightarrow> ?r")
proof
  assume ?l
  then obtain rest where at: "drop (de_cursor st) reader = encode_run r @ concat (map encode_run rs) @ 0 # rest"
    by (auto simp: decodes_to_def)
  then have "drop (de_cursor (state_after st r)) reader = concat (map encode_run rs) @ 0 # rest"
    using drop_past [OF at] by (simp add: state_after_def del: length_encode_run)
  then show ?r using \<open>?l\<close> at
    by (auto simp: decodes_to_def clusters_of_def step_fits_def state_after_def runs_after_def)
next
  assume r: ?r
  then obtain post rest where at: "drop (de_cursor st) reader = encode_run r @ post"
      "drop (de_cursor (state_after st r)) reader = concat (map encode_run rs) @ 0 # rest"
    by (auto simp: decodes_to_def)
  then have "post = concat (map encode_run rs) @ 0 # rest"
    using drop_past [OF at(1)] by (simp add: state_after_def del: length_encode_run)
  then show ?l using r at(1)
    by (auto simp: decodes_to_def clusters_of_def step_fits_def state_after_def runs_after_def)
qed

lemma decodeFrom_iff:
  assumes "decoding reader st rl"
  shows "decodeFrom reader st rl = Inr final \<longleftrightarrow> (\<exists>encs. decodes_to reader st rl final encs)" (is "?dec \<longleftrightarrow> ?enc")
proof
  show "?dec \<Longrightarrow> ?enc" using assms
  proof (induction reader st rl rule: decodeFrom.induct)
    case (1 reader st rl)
    show ?case
    proof (cases "stepOneRun reader st rl")
      case (Inl e)
      then show ?thesis using "1.prems"(1) by (simp add: decodeFrom.simps [of reader st rl])
    next
      case (Inr x)
      obtain s st' rl' where x: "x = (s, st', rl')" by (cases x)
      show ?thesis
      proof (cases s)
        case kEndReached
        then have "final = rl" "\<exists>rest. drop (de_cursor st) reader = 0 # rest"
          using "1.prems" Inr x stepOneRun_iff(2) [OF "1.prems"(2)] by (auto simp: decodeFrom.simps [of reader st rl])
        then show ?thesis using decodes_to_Nil [OF "1.prems"(2)] by (intro exI [of _ "[]"]) simp
      next
        case kRunAppended
        then obtain r post where r: "drop (de_cursor st) reader = encode_run r @ post" "run_ok r" "step_fits st rl r"
            "st' = state_after st r" "rl' = runs_after st rl r"
          using stepOneRun_iff(1) [OF "1.prems"(2)] Inr x by blast
        have "decodeFrom reader st' rl' = Inr final" using "1.prems"(1) Inr x kRunAppended by (simp add: decodeFrom.simps [of reader st rl])
        moreover have "decoding reader st' rl'" using decoding_after [OF "1.prems"(2) r(3)] r(4,5) by simp
        ultimately obtain encs where "decodes_to reader st' rl' final encs"
          using "1.IH" [OF Inr, of s "(st', rl')" st' rl'] x kRunAppended by auto
        then show ?thesis using r by (intro exI [of _ "r # encs"]) (auto simp: decodes_to_Cons)
      qed
    qed
  qed
next
  assume ?enc
  then obtain encs where "decodes_to reader st rl final encs" by blast
  then show ?dec using assms
  proof (induction encs arbitrary: st rl)
    case Nil
    then have "stepOneRun reader st rl = Inr (kEndReached, st, rl)" "final = rl"
      using decodes_to_Nil [OF Nil(2)] stepOneRun_iff(2) [OF Nil(2)] by auto
    then show ?case by (simp add: decodeFrom.simps [of reader st rl])
  next
    case (Cons r rs)
    then have "stepOneRun reader st rl = Inr (kRunAppended, state_after st r, runs_after st rl r)"
      using stepOneRun_iff(1) [OF Cons.prems(2)] by (auto simp: decodes_to_Cons)
    then show ?case using Cons decoding_after by (simp add: decodeFrom.simps [of reader st rl] decodes_to_Cons)
  qed
qed

lemma decodeRunlist_exact:
  "decodeRunlist reader = Inr runlist \<longleftrightarrow>
     (\<exists>encs rest. reader = concat (map encode_run encs) @ 0 # rest \<and> list_all run_ok encs \<and> lcns_ok 0 encs \<and>
        length encs \<le> 1024 \<and> clusters_of encs \<le> max64 \<and>
        runlist = \<lparr>rl_runs = placed 0 encs, rl_totalClusters = clusters_of encs\<rparr>)"
proof -
  let ?st = "\<lparr>de_cursor = 0, de_previousLcn = 0\<rparr>" and ?rl = "\<lparr>rl_runs = [], rl_totalClusters = 0\<rparr>"
  have "decoding reader ?st ?rl" by (simp add: decoding_def kMaxInt64_def)
  from decodeFrom_iff [OF this] show ?thesis
    by (simp add: decodeRunlist_def decodes_to_def kMaxDataRuns_def)
qed

text \<open>
  C23: The runlist decoder accepts exactly the encodings of run lists. It answers runs for a byte
  string if and only if the string begins with well-formed runs (widths of one to eight bytes, a
  length that is not zero, signed deltas in their width) followed by the zero marker, with every
  cluster number reached from 0 by the deltas in the signed 64-bit range and not negative, at most
  1024 runs, and a total that fits 64 bits; the runs it answers are the ones the deltas place,
  a run without offset field being a hole that leaves the cluster cursor where it was.
\<close>

theorem runlist_decoder_accepts_exactly_encodings:
  "decodeRunlist reader = Inr runlist \<longleftrightarrow>
     (\<exists>encs rest. reader = concat (map encode_run encs) @ 0 # rest \<and> list_all run_ok encs \<and> lcns_ok 0 encs \<and>
        length encs \<le> 1024 \<and> clusters_of encs \<le> max64 \<and>
        runlist = \<lparr>rl_runs = placed 0 encs, rl_totalClusters = clusters_of encs\<rparr>)"
  by (rule decodeRunlist_exact)

subsection \<open>From runs to the bytes of a file\<close>

definition cluster_bytes :: "bytes \<Rightarrow> nat \<Rightarrow> nat \<Rightarrow> bytes" where
  "cluster_bytes content bpc c = take bpc (drop (c * bpc) content)"

definition run_clusters :: "DataRun \<Rightarrow> nat list" where
  "run_clusters run = map (\<lambda>i. dr_startCluster run + i) [0..<dr_lengthClusters run]"

lemma run_clusters_bytes:
  "concat (map (cluster_bytes content bpc) (map (\<lambda>i. s + i) [0..<n])) = take (n * bpc) (drop (s * bpc) content)"
proof (induction n)
  case (Suc n)
  have "take (Suc n * bpc) (drop (s * bpc) content) =
      take (n * bpc) (drop (s * bpc) content) @ take bpc (drop (n * bpc) (drop (s * bpc) content))"
    by (subst take_add [symmetric]) (simp add: add.commute)
  then show ?case using Suc by (simp add: cluster_bytes_def algebra_simps)
qed simp

lemma concat_map_concat: "concat (map f (concat xss)) = concat (map (\<lambda>xs. concat (map f xs)) xss)"
  by (induction xss) simp_all

lemma runExtent_bytes:
  assumes "runFitsVolume run (ng_totalClusters g)" and "ng_totalClusters g * ng_bytesPerCluster g \<le> length content" and "length content \<le> max64"
  shows "runExtent run g = \<lparr>deviceOffset = dr_startCluster run * ng_bytesPerCluster g, lengthBytes = dr_lengthClusters run * ng_bytesPerCluster g\<rparr>"
    and "extent_inside content (runExtent run g)"
    and "extent_bytes content (runExtent run g) = concat (map (cluster_bytes content (ng_bytesPerCluster g)) (run_clusters run))"
proof -
  have "(dr_startCluster run + dr_lengthClusters run) * ng_bytesPerCluster g \<le> ng_totalClusters g * ng_bytesPerCluster g"
    using assms(1) by (intro mult_le_mono1) (auto simp: runFitsVolume_def)
  then have fit: "dr_startCluster run * ng_bytesPerCluster g + dr_lengthClusters run * ng_bytesPerCluster g \<le> length content"
    using assms(2) by (simp add: algebra_simps)
  then show ext: "runExtent run g = \<lparr>deviceOffset = dr_startCluster run * ng_bytesPerCluster g, lengthBytes = dr_lengthClusters run * ng_bytesPerCluster g\<rparr>"
    using assms(3) by (simp add: runExtent_def)
  show "extent_inside content (runExtent run g)" using fit by (simp add: ext extent_inside_def)
  show "extent_bytes content (runExtent run g) = concat (map (cluster_bytes content (ng_bytesPerCluster g)) (run_clusters run))"
    by (simp only: ext extent_bytes_def run_clusters_def run_clusters_bytes) simp
qed

lemma decoded_runs_positive: "decodeRunlist reader = Inr runlist \<Longrightarrow> run \<in> set (rl_runs runlist) \<Longrightarrow> 0 < dr_lengthClusters run"
proof -
  have "list_all run_ok encs \<Longrightarrow> run \<in> set (placed prev encs) \<Longrightarrow> 0 < dr_lengthClusters run" for encs prev
    by (induction encs arbitrary: prev) (auto simp: placed_run_def run_ok_def)
  then show "decodeRunlist reader = Inr runlist \<Longrightarrow> run \<in> set (rl_runs runlist) \<Longrightarrow> 0 < dr_lengthClusters run"
    by (auto simp: decodeRunlist_exact)
qed

lemma runlistExtents_Inr:
  assumes "runlistExtents runlist g realSize = Inr extents" and "\<forall>run \<in> set (rl_runs runlist). 0 < dr_lengthClusters run"
    and "0 < ng_bytesPerCluster g" and "ng_totalClusters g * ng_bytesPerCluster g \<le> length content" and "length content \<le> max64"
  shows "(\<forall>run \<in> set (rl_runs runlist). \<not> dr_sparse run) \<and> list_all (extent_inside content) extents \<and>
    (\<forall>e \<in> set extents. 0 < lengthBytes e) \<and>
    realSize \<le> length (concat (map (cluster_bytes content (ng_bytesPerCluster g)) (concat (map run_clusters (rl_runs runlist))))) \<and>
    span_bytes content extents =
      take realSize (concat (map (cluster_bytes content (ng_bytesPerCluster g)) (concat (map run_clusters (rl_runs runlist)))))"
proof -
  let ?runs = "rl_runs runlist" and ?all = "map (\<lambda>run. runExtent run g) (rl_runs runlist)"
  have "allRunsMappable runlist g" and trim: "trimToSize ?all realSize = Inr extents"
    using assms(1) by (auto simp: runlistExtents_def andThen_Inr_iff mapRuns_def split: if_splits)
  then have runs: "\<forall>run \<in> set ?runs. \<not> dr_sparse run \<and> runFitsVolume run (ng_totalClusters g)"
    by (auto simp: allRunsMappable_def list_all_iff)
  note ext = runExtent_bytes [OF _ assms(4,5)]
  have inside: "list_all (extent_inside content) ?all" using runs ext(2) by (auto simp: list_all_iff)
  have pos: "\<forall>e \<in> set ?all. 0 < lengthBytes e" using runs ext(1) assms(2,3) by auto
  have bytes: "span_bytes content ?all = concat (map (cluster_bytes content (ng_bytesPerCluster g)) (concat (map run_clusters ?runs)))"
  proof -
    have "map (extent_bytes content) ?all = map (\<lambda>run. concat (map (cluster_bytes content (ng_bytesPerCluster g)) (run_clusters run))) ?runs"
      using runs ext(3) by auto
    then show ?thesis unfolding span_bytes_def concat_map_concat by (simp only: map_map o_def)
  qed
  have "realSize \<le> length (span_bytes content ?all)" "extents = cut_span ?all realSize"
    using trim pos inside by (auto simp: trimToSize_eq length_span_bytes split: if_splits)
  then show ?thesis using runs bytes cut_span_bytes [OF inside] cut_span_positive [OF pos] by auto
qed

text \<open>
  C22: A non-resident file is read from its clusters. Whenever the runs decode and map, the
  extents handed back are non-empty, lie inside the volume and hold exactly the first
  \<open>realSize\<close> bytes of the clusters the runs name, in order; no hole is ever handed back as data.
\<close>

theorem mapped_runs_are_the_file:
  assumes "andThen (decodeRunlist runlistBytes) (\<lambda>runlist. runlistExtents runlist geometry realSize) = Inr extents"
    and "0 < ng_bytesPerCluster geometry"
    and "ng_totalClusters geometry * ng_bytesPerCluster geometry \<le> length content" and "length content \<le> max64"
  shows "\<exists>runlist. decodeRunlist runlistBytes = Inr runlist \<and> (\<forall>run \<in> set (rl_runs runlist). \<not> dr_sparse run) \<and>
    list_all (extent_inside content) extents \<and> (\<forall>e \<in> set extents. 0 < lengthBytes e) \<and>
    span_length extents = realSize \<and>
    span_bytes content extents =
      take realSize (concat (map (cluster_bytes content (ng_bytesPerCluster geometry)) (concat (map run_clusters (rl_runs runlist)))))"
proof -
  obtain runlist where dec: "decodeRunlist runlistBytes = Inr runlist" and ext: "runlistExtents runlist geometry realSize = Inr extents"
    using assms(1) by (auto simp: andThen_Inr_iff)
  note spec = runlistExtents_Inr [OF ext _ assms(2,3,4)]
  have "\<forall>run \<in> set (rl_runs runlist). 0 < dr_lengthClusters run" using decoded_runs_positive [OF dec] by blast
  from spec [OF this] show ?thesis using dec length_span_bytes [of content extents] by (intro exI [of _ runlist]) auto
qed

theorem mapped_runs_are_the_file_witness:
  "span_bytes [1, 2, 3, 4, 5, 6, 7, 8] [\<lparr>deviceOffset = 4, lengthBytes = 3\<rparr>] = [5, 6, 7]"
proof -
  let ?g = "\<lparr>ng_bytesPerSector = 2, ng_bytesPerCluster = 2, ng_totalClusters = 4, ng_mftOffsetBytes = 0, ng_bytesPerMftRecord = 2\<rparr>"
  let ?content = "[1, 2, 3, 4, 5, 6, 7, 8] :: bytes"
  let ?enc = "\<lparr>en_lengthWidth = 1, en_offsetWidth = 1, en_length = 2, en_delta = 2\<rparr>"
  have enc: "[0x11, 2, 2, 0] = concat (map encode_run [?enc]) @ 0 # ([] :: bytes)" "list_all run_ok [?enc]" "lcns_ok 0 [?enc]"
      "length [?enc] \<le> 1024" "clusters_of [?enc] \<le> max64"
    by (simp_all add: encode_run_def run_ok_def kMaxInt64_def clusters_of_def max64_def)
  then have dec: "decodeRunlist [0x11, 2, 2, 0] = Inr \<lparr>rl_runs = placed 0 [?enc], rl_totalClusters = clusters_of [?enc]\<rparr>"
    using decodeRunlist_exact by blast
  have "andThen (decodeRunlist [0x11, 2, 2, 0]) (\<lambda>runlist. runlistExtents runlist ?g 3) = Inr [\<lparr>deviceOffset = 4, lengthBytes = 3\<rparr>]"
    unfolding dec by (simp add: runlistExtents_def volumeByteSize_def safeMul64_def mapRuns_def allRunsMappable_def placed_run_def
        runFitsVolume_def runExtent_def trimToSize_def takeExtent_def max64_def wrap64_def)
  moreover have "0 < ng_bytesPerCluster ?g" "ng_totalClusters ?g * ng_bytesPerCluster ?g \<le> length ?content" "length ?content \<le> max64"
    by (simp_all add: max64_def)
  ultimately show ?thesis using mapped_runs_are_the_file [of "[0x11, 2, 2, 0]" ?g 3 _ ?content]
    by (auto simp: dec placed_run_def run_clusters_def cluster_bytes_def upt_rec numeral_2_eq_2)
qed

end
