(* ===== verification/NtfsRecords.thy ===== *)
theory NtfsRecords
  imports NtfsRuns Names "HOL-Library.Monad_Syntax"
begin

text \<open>
  \<open>src/fs/ntfs/MftRecordFixup.cpp\<close>, \<open>MftRecord.cpp\<close>, \<open>MftAttributes.cpp\<close> and
  \<open>MftRecordAttributes.cpp\<close>: one record of the master file table, from its bytes to a parsed
  view. The code reads many fields with an unchecked \<open>value()\<close>; a function that does so answers
  an option here, whose \<^term>\<open>None\<close> is the exception such a call throws on a failed read. Sums of
  a record offset and a 32-bit length are below \<open>2 ^ 33\<close> and written without a wrap.
\<close>

subsection \<open>Update sequence\<close>

definition kStrideSize :: size_t where "kStrideSize = 512"

record UsaHeader =
  uh_offset :: u16
  uh_count :: u16

record FixupOutcome =
  fo_applied :: bool
  fo_fixedUp :: bytes

definition validateUsaBounds :: "u16 \<Rightarrow> u16 \<Rightarrow> size_t \<Rightarrow> bool result" where
  "validateUsaBounds usaOffset usaCount recordSize =
     (if usaCount = 0 then Inl (mkError kInvalidArgument 0x06)
      else if usaOffset + usaCount * 2 > recordSize then Inl (mkError kOutOfRange 0x04)
      else if usaCount \<noteq> recordSize div kStrideSize + 1 then Inl (mkError kInvalidArgument 0x06)
      else Inr True)"

definition readUsaHeader :: "bytes \<Rightarrow> UsaHeader result option" where
  "readUsaHeader rec =
     do { off \<leftarrow> valueOf (readLe 2 rec 0x04);
          cnt \<leftarrow> valueOf (readLe 2 rec 0x06);
          Some (case validateUsaBounds off cnt (length rec) of
                  Inl e \<Rightarrow> Inl e | Inr _ \<Rightarrow> Inr \<lparr>uh_offset = off, uh_count = cnt\<rparr>) }"

definition readUsnValue :: "bytes \<Rightarrow> u16 \<Rightarrow> u16 result option" where
  "readUsnValue fixedUp usaOffset = map_option Inr (valueOf (readLe 2 fixedUp usaOffset))"

definition writeSavedWord :: "bytes \<Rightarrow> size_t \<Rightarrow> u16 \<Rightarrow> bytes" where
  "writeSavedWord fixedUp tailOffset saved =
     fixedUp[tailOffset := of_nat (saved AND 0xFF), tailOffset + 1 := of_nat (drop_bit 8 saved)]"

definition applyOneFixup :: "bytes \<Rightarrow> u16 \<Rightarrow> size_t \<Rightarrow> u16 \<Rightarrow> (bool \<times> bytes) option" where
  "applyOneFixup fixedUp usaOffset i usn =
     do { saved \<leftarrow> valueOf (readLe 2 fixedUp (usaOffset + 2 + i * 2));
          tailWord \<leftarrow> valueOf (readLe 2 fixedUp ((i + 1) * kStrideSize - 2));
          Some (if tailWord \<noteq> usn then (False, fixedUp)
                else (True, writeSavedWord fixedUp ((i + 1) * kStrideSize - 2) saved)) }"

fun applyFixupsFrom :: "bytes \<Rightarrow> u16 \<Rightarrow> u16 \<Rightarrow> size_t \<Rightarrow> nat \<Rightarrow> (bool \<times> bytes) option" where
  "applyFixupsFrom fixedUp usaOffset usn i 0 = Some (True, fixedUp)"
| "applyFixupsFrom fixedUp usaOffset usn i (Suc left) =
     do { (matched, fixedUp') \<leftarrow> applyOneFixup fixedUp usaOffset i usn;
          if \<not> matched then Some (False, fixedUp')
          else applyFixupsFrom fixedUp' usaOffset usn (i + 1) left }"

definition applyAllFixups :: "bytes \<Rightarrow> UsaHeader \<Rightarrow> u16 \<Rightarrow> (bool \<times> bytes) option" where
  "applyAllFixups fixedUp h usn = applyFixupsFrom fixedUp (uh_offset h) usn 0 (uh_count h - 1)"

definition applyFixupStrides :: "FixupOutcome \<Rightarrow> UsaHeader \<Rightarrow> FixupOutcome result option" where
  "applyFixupStrides outcome h =
     do { usn \<leftarrow> readUsnValue (fo_fixedUp outcome) (uh_offset h);
          case usn of
            Inl e \<Rightarrow> Some (Inl e)
          | Inr word \<Rightarrow>
              do { (matched, fixedUp) \<leftarrow> applyAllFixups (fo_fixedUp outcome) h word;
                   Some (Inr \<lparr>fo_applied = (if matched then True else fo_applied outcome), fo_fixedUp = fixedUp\<rparr>) } }"

definition applyUpdateSequenceFixup :: "bytes \<Rightarrow> FixupOutcome result option" where
  "applyUpdateSequenceFixup raw =
     do { usa \<leftarrow> readUsaHeader raw;
          case usa of
            Inl e \<Rightarrow> Some (Inl e)
          | Inr h \<Rightarrow>
              if uh_count h = 1 then Some (Inr \<lparr>fo_applied = True, fo_fixedUp = raw\<rparr>)
              else applyFixupStrides \<lparr>fo_applied = False, fo_fixedUp = raw\<rparr> h }"

subsection \<open>Record header\<close>

definition kRecordHeaderSize :: size_t where "kRecordHeaderSize = 0x38"
definition kInUseFlag :: u16 where "kInUseFlag = 0x01"
definition kDirectoryFlag :: u16 where "kDirectoryFlag = 0x02"

record RecordHeader =
  rc_usaOffset :: u16
  rc_usaCount :: u16
  rc_sequence :: u16
  rc_firstAttributeOffset :: u16
  rc_flags :: u16
  rc_usedSize :: u32
  rc_baseRecord :: u64

definition signatureIsFile :: "bytes \<Rightarrow> bool" where
  "signatureIsFile raw \<longleftrightarrow> \<not> length raw < 4 \<and> take 4 raw = [0x46, 0x49, 0x4C, 0x45]"

definition firstAttributeOffsetValid :: "u16 \<Rightarrow> u32 \<Rightarrow> size_t \<Rightarrow> bool" where
  "firstAttributeOffsetValid firstAttributeOffset usedSize recordSize \<longleftrightarrow>
     firstAttributeOffset \<ge> kRecordHeaderSize \<and> firstAttributeOffset \<le> usedSize \<and> usedSize \<le> recordSize"

definition readRecordHeaderFields :: "bytes \<Rightarrow> RecordHeader result option" where
  "readRecordHeaderFields raw =
     do { usaOffset \<leftarrow> valueOf (readLe 2 raw 0x04);
          usaCount \<leftarrow> valueOf (readLe 2 raw 0x06);
          seqn \<leftarrow> valueOf (readLe 2 raw 0x10);
          firstAttributeOffset \<leftarrow> valueOf (readLe 2 raw 0x14);
          flags \<leftarrow> valueOf (readLe 2 raw 0x16);
          usedSize \<leftarrow> valueOf (readLe 4 raw 0x18);
          baseRecord \<leftarrow> valueOf (readLe 8 raw 0x20);
          Some (if \<not> firstAttributeOffsetValid firstAttributeOffset usedSize (length raw)
                then Inl (mkError kInvalidArgument 0x14)
                else Inr \<lparr>rc_usaOffset = usaOffset, rc_usaCount = usaCount, rc_sequence = seqn,
                          rc_firstAttributeOffset = firstAttributeOffset, rc_flags = flags, rc_usedSize = usedSize,
                          rc_baseRecord = baseRecord\<rparr>) }"

definition readRecordHeader :: "bytes \<Rightarrow> RecordHeader result option" where
  "readRecordHeader raw =
     (if \<not> signatureIsFile raw then Some (Inl (mkError kNotFound 0))
      else if length raw < kRecordHeaderSize then Some (Inl (mkError kOutOfRange (length raw)))
      else readRecordHeaderFields raw)"

subsection \<open>Attributes\<close>

definition kAttributeEnd :: u32 where "kAttributeEnd = 0xFFFFFFFF"
definition kAttributeHeaderSize :: size_t where "kAttributeHeaderSize = 0x10"
definition kMinAttributeLength :: size_t where "kMinAttributeLength = 0x18"
definition kNonResidentHeaderSize :: size_t where "kNonResidentHeaderSize = 0x40"
definition kRecordMask :: u64 where "kRecordMask = 0x0000FFFFFFFFFFFF"
definition kSequenceShift :: nat where "kSequenceShift = 48"

record MftFileName =
  mf_parentRecord :: u64
  mf_parentSequence :: u16
  mf_nameSpace :: u8
  mf_name :: DecodedName
  mf_realSize :: u64

record MftData =
  md_resident :: bool
  md_residentContent :: bytes
  md_runlistBytes :: bytes
  md_realSize :: u64

record MftRecordView =
  mv_recordNumber :: u64
  mv_inUse :: bool
  mv_isDirectory :: bool
  mv_sequence :: u16
  mv_grade :: Confidence
  mv_standardInfo :: "Timestamps option"
  mv_names :: "MftFileName list"
  mv_data :: "MftData option"
  mv_fixedUp :: bytes

record AttributeView =
  av_type :: u32
  av_length :: u32
  av_offset :: u64
  av_nonResident :: bool
  av_nameLength :: u8
  av_nameOffset :: u16
  av_contentLength :: size_t
  av_contentOffset :: u16
  av_runlistOffset :: u16
  av_realSize :: u64

definition attributeLengthValid :: "u32 \<Rightarrow> u64 \<Rightarrow> size_t \<Rightarrow> bool" where
  "attributeLengthValid len off recordSize \<longleftrightarrow>
     len \<ge> kMinAttributeLength \<and> (len AND 0x07) = 0 \<and> off + len \<le> recordSize"

definition readResidentTail :: "AttributeView \<Rightarrow> bytes \<Rightarrow> AttributeView result option" where
  "readResidentTail view rec =
     do { contentLength \<leftarrow> valueOf (readLe 4 rec (av_offset view + 0x10));
          contentOffset \<leftarrow> valueOf (readLe 2 rec (av_offset view + 0x14));
          Some (if contentOffset < kMinAttributeLength \<or> contentOffset + contentLength > av_length view
                then Inl (mkError kInvalidArgument (av_offset view + 0x10))
                else Inr (view\<lparr>av_contentLength := contentLength, av_contentOffset := contentOffset\<rparr>)) }"

definition readNonResidentTail :: "AttributeView \<Rightarrow> bytes \<Rightarrow> AttributeView result option" where
  "readNonResidentTail view rec =
     (if av_length view < kNonResidentHeaderSize then Some (Inl (mkError kInvalidArgument (av_offset view + 4)))
      else do { runlistOffset \<leftarrow> valueOf (readLe 2 rec (av_offset view + 0x20));
                realSize \<leftarrow> valueOf (readLe 8 rec (av_offset view + 0x30));
                Some (if runlistOffset < kNonResidentHeaderSize \<or> runlistOffset > av_length view
                      then Inl (mkError kInvalidArgument (av_offset view + 0x20))
                      else Inr (view\<lparr>av_runlistOffset := runlistOffset, av_realSize := realSize\<rparr>)) })"

definition readAttributeHeader :: "bytes \<Rightarrow> u64 \<Rightarrow> u32 \<Rightarrow> AttributeView result option" where
  "readAttributeHeader reader off typ =
     (case bytesAt reader off kAttributeHeaderSize of
        Inl e \<Rightarrow> Some (Inl e)
      | Inr header \<Rightarrow>
          do { len \<leftarrow> valueOf (readLe 4 header 4);
               if \<not> attributeLengthValid len off (length reader) then Some (Inl (mkError kInvalidArgument (off + 4)))
               else do { nonResident \<leftarrow> valueOf (readLe 1 header 8);
                         nameLength \<leftarrow> valueOf (readLe 1 header 9);
                         nameOffset \<leftarrow> valueOf (readLe 2 header 10);
                         Some (Inr \<lparr>av_type = typ, av_length = len, av_offset = off, av_nonResident = (nonResident \<noteq> 0),
                                    av_nameLength = nameLength, av_nameOffset = nameOffset, av_contentLength = 0,
                                    av_contentOffset = 0, av_runlistOffset = 0, av_realSize = 0\<rparr>) } })"

definition readAttributeBase :: "bytes \<Rightarrow> u64 \<Rightarrow> AttributeView result option" where
  "readAttributeBase rec off =
     (case readLe 4 rec off of
        Inl e \<Rightarrow> Some (Inl e)
      | Inr typ \<Rightarrow>
          if typ = kAttributeEnd
          then Some (Inr \<lparr>av_type = kAttributeEnd, av_length = 0, av_offset = 0, av_nonResident = False, av_nameLength = 0,
                          av_nameOffset = 0, av_contentLength = 0, av_contentOffset = 0, av_runlistOffset = 0, av_realSize = 0\<rparr>)
          else readAttributeHeader rec off typ)"

definition readAttributeView :: "bytes \<Rightarrow> u64 \<Rightarrow> AttributeView result option" where
  "readAttributeView rec off =
     do { base \<leftarrow> readAttributeBase rec off;
          case base of
            Inl e \<Rightarrow> Some (Inl e)
          | Inr view \<Rightarrow>
              if av_type view = kAttributeEnd then Some (Inr view)
              else if av_nonResident view then readNonResidentTail view rec else readResidentTail view rec }"

definition parseStandardInformation :: "bytes \<Rightarrow> Timestamps result option" where
  "parseStandardInformation content =
     (if length content < 0x20 then Some (Inl (mkError kOutOfRange (length content)))
      else do { created \<leftarrow> valueOf (readLe 8 content 0x00);
                modified \<leftarrow> valueOf (readLe 8 content 0x08);
                accessed \<leftarrow> valueOf (readLe 8 content 0x18);
                Some (Inr \<lparr>ts_created = created, ts_modified = modified, ts_accessed = accessed\<rparr>) })"

definition readFileNameText :: "bytes \<Rightarrow> MftFileName \<Rightarrow> size_t \<Rightarrow> MftFileName result option" where
  "readFileNameText content fileName nameLengthChars =
     (if nameLengthChars * 2 > length content - 0x42 then Some (Inl (mkError kInvalidArgument 0x40))
      else do { rawName \<leftarrow> valueOf (bytesAt content 0x42 (nameLengthChars * 2));
                Some (Inr (fileName\<lparr>mf_name := decodeUtf16Name rawName\<rparr>)) })"

definition readFileNameHeader :: "bytes \<Rightarrow> (MftFileName \<times> size_t) option" where
  "readFileNameHeader content =
     do { parentRef \<leftarrow> valueOf (readLe 8 content 0x00);
          realSize \<leftarrow> valueOf (readLe 8 content 0x30);
          nameSpace \<leftarrow> valueOf (readLe 1 content 0x41);
          nameLengthChars \<leftarrow> valueOf (readLe 1 content 0x40);
          Some (\<lparr>mf_parentRecord = parentRef AND kRecordMask, mf_parentSequence = drop_bit kSequenceShift parentRef,
                 mf_nameSpace = nameSpace, mf_name = \<lparr>dn_utf8 = [], dn_lossless = True\<rparr>, mf_realSize = realSize\<rparr>, nameLengthChars) }"

definition parseFileName :: "bytes \<Rightarrow> MftFileName result option" where
  "parseFileName content =
     (if length content < 0x42 then Some (Inl (mkError kOutOfRange (length content)))
      else do { (fileName, nameLengthChars) \<leftarrow> readFileNameHeader content;
                readFileNameText content fileName nameLengthChars })"

definition readResidentData :: "AttributeView \<Rightarrow> bytes \<Rightarrow> MftData result" where
  "readResidentData view rec =
     (let contentStart = av_offset view + av_contentOffset view
      in if contentStart + av_contentLength view > length rec then Inl (mkError kOutOfRange contentStart)
         else Inr \<lparr>md_resident = True, md_residentContent = take (av_contentLength view) (drop contentStart rec),
                   md_runlistBytes = [], md_realSize = av_contentLength view\<rparr>)"

definition readNonResidentData :: "AttributeView \<Rightarrow> bytes \<Rightarrow> MftData result" where
  "readNonResidentData view rec =
     (let runlistStart = av_offset view + av_runlistOffset view; runlistLength = av_length view - av_runlistOffset view
      in if runlistStart + runlistLength > length rec then Inl (mkError kOutOfRange runlistStart)
         else Inr \<lparr>md_resident = False, md_residentContent = [],
                   md_runlistBytes = take runlistLength (drop runlistStart rec), md_realSize = av_realSize view\<rparr>)"

definition parseDataAttribute :: "AttributeView \<Rightarrow> bytes \<Rightarrow> MftData result" where
  "parseDataAttribute view rec =
     (if av_nonResident view then readNonResidentData view rec else readResidentData view rec)"

subsection \<open>The attribute walk\<close>

datatype AttributeStep = kContinue | kEnd | kInvalid

definition attributeFits :: "u64 \<Rightarrow> u32 \<Rightarrow> u32 \<Rightarrow> bool" where
  "attributeFits off len usedSize \<longleftrightarrow> off + len \<le> usedSize"

definition consumeContent ::
  "bytes \<Rightarrow> AttributeView \<Rightarrow> (bytes \<Rightarrow> 'a result option) \<Rightarrow> ('a \<Rightarrow> MftRecordView \<Rightarrow> MftRecordView) \<Rightarrow> MftRecordView \<Rightarrow>
   (MftRecordView \<times> bool) option" where
  "consumeContent rec attr parse store view =
     (case bytesAt rec (av_offset attr + av_contentOffset attr) (av_contentLength attr) of
        Inl _ \<Rightarrow> Some (view, False)
      | Inr content \<Rightarrow>
          do { parsed \<leftarrow> parse content;
               Some (case parsed of Inl _ \<Rightarrow> (view, False) | Inr val \<Rightarrow> (store val view, True)) })"

definition consumeStandardInformation :: "MftRecordView \<Rightarrow> bytes \<Rightarrow> AttributeView \<Rightarrow> (MftRecordView \<times> bool) option" where
  "consumeStandardInformation view rec attr =
     consumeContent rec attr parseStandardInformation (\<lambda>stamps v. v\<lparr>mv_standardInfo := Some stamps\<rparr>) view"

definition consumeFileName :: "MftRecordView \<Rightarrow> bytes \<Rightarrow> AttributeView \<Rightarrow> (MftRecordView \<times> bool) option" where
  "consumeFileName view rec attr =
     consumeContent rec attr parseFileName (\<lambda>name v. v\<lparr>mv_names := mv_names v @ [name]\<rparr>) view"

definition consumeData :: "MftRecordView \<Rightarrow> bytes \<Rightarrow> AttributeView \<Rightarrow> MftRecordView \<times> bool" where
  "consumeData view rec attr =
     (if av_nameLength attr \<noteq> 0 \<or> mv_data view \<noteq> None then (view, True)
      else case parseDataAttribute attr rec of
             Inl _ \<Rightarrow> (view, False)
           | Inr parsed \<Rightarrow> (view\<lparr>mv_data := Some parsed\<rparr>, True))"

definition consumeAttribute :: "MftRecordView \<Rightarrow> bytes \<Rightarrow> AttributeView \<Rightarrow> (MftRecordView \<times> bool) option" where
  "consumeAttribute view rec attr =
     (if av_type attr = 0x10 then consumeStandardInformation view rec attr
      else if av_type attr = 0x30 then consumeFileName view rec attr
      else if av_type attr = 0x80 then Some (consumeData view rec attr)
      else Some (view, True))"

definition classifyAttribute ::
  "MftRecordView \<Rightarrow> bytes \<Rightarrow> RecordHeader \<Rightarrow> AttributeView \<Rightarrow> (MftRecordView \<times> AttributeStep) option" where
  "classifyAttribute view rec h attr =
     (if av_type attr = kAttributeEnd then Some (view, kEnd)
      else if \<not> attributeFits (av_offset attr) (av_length attr) (rc_usedSize h) then Some (view, kInvalid)
      else map_option (\<lambda>(view', consumed). (view', if consumed then kContinue else kInvalid)) (consumeAttribute view rec attr))"

definition consumeOneAttribute ::
  "MftRecordView \<Rightarrow> bytes \<Rightarrow> RecordHeader \<Rightarrow> u64 \<Rightarrow> (MftRecordView \<times> u64 \<times> AttributeStep) option" where
  "consumeOneAttribute view rec h off =
     do { attr \<leftarrow> readAttributeView rec off;
          case attr of
            Inl _ \<Rightarrow> Some (view, off, kInvalid)
          | Inr a \<Rightarrow>
              do { (view', step) \<leftarrow> classifyAttribute view rec h a;
                   Some (view', if step = kContinue then off + av_length a else off, step) } }"

definition gradeFor :: "AttributeStep \<Rightarrow> Confidence" where
  "gradeFor step = (if step = kInvalid then kUncertain else kValid)"

text \<open>What a readable attribute is: the end marker, or a header whose length stays in the record.\<close>

lemma readAttributeView_Inr:
  assumes "readAttributeView rec off = Some (Inr a)" and "av_type a \<noteq> kAttributeEnd"
  shows "av_offset a = off \<and> kMinAttributeLength \<le> av_length a \<and> off + av_length a \<le> length rec"
  using assms
  by (auto simp: readAttributeView_def readAttributeBase_def readAttributeHeader_def readNonResidentTail_def
      readResidentTail_def attributeLengthValid_def split: sum.splits if_splits bind_splits)

lemma consumeOneAttribute_advances:
  assumes "consumeOneAttribute view rec h off = Some (view', off', kContinue)"
  shows "off < off' \<and> off' \<le> rc_usedSize h"
proof -
  obtain a where a: "readAttributeView rec off = Some (Inr a)" "classifyAttribute view rec h a = Some (view', kContinue)"
      "off' = off + av_length a"
    using assms by (auto simp: consumeOneAttribute_def split: bind_splits sum.splits prod.splits if_splits)
  have "av_type a \<noteq> kAttributeEnd" and fits: "attributeFits (av_offset a) (av_length a) (rc_usedSize h)"
    using a(2) by (auto simp: classifyAttribute_def split: if_splits)
  then show ?thesis using readAttributeView_Inr [OF a(1)] a(3) by (auto simp: attributeFits_def kMinAttributeLength_def)
qed

function attributesFrom ::
  "MftRecordView \<Rightarrow> bytes \<Rightarrow> RecordHeader \<Rightarrow> u64 \<Rightarrow> (MftRecordView \<times> AttributeStep) option" where
  "attributesFrom view rec h off =
     (if off < rc_usedSize h
      then case consumeOneAttribute view rec h off of
             None \<Rightarrow> None
           | Some (view', off', kContinue) \<Rightarrow> attributesFrom view' rec h off'
           | Some (view', off', step) \<Rightarrow> Some (view', step)
      else Some (view, kContinue))"
  by pat_completeness auto
termination
  by (relation "measure (\<lambda>(view, rec, h, off). rc_usedSize h - off)") (auto dest!: consumeOneAttribute_advances)

declare attributesFrom.simps [simp del]

definition parseRecordAttributes :: "MftRecordView \<Rightarrow> bytes \<Rightarrow> RecordHeader \<Rightarrow> (MftRecordView \<times> Confidence) option" where
  "parseRecordAttributes view rec h =
     map_option (\<lambda>(view', step). (view', gradeFor step)) (attributesFrom view rec h (rc_firstAttributeOffset h))"

subsection \<open>The record\<close>

definition recordShell :: "u64 \<Rightarrow> RecordHeader \<Rightarrow> MftRecordView" where
  "recordShell number h =
     \<lparr>mv_recordNumber = number, mv_inUse = (rc_flags h AND kInUseFlag \<noteq> 0), mv_isDirectory = (rc_flags h AND kDirectoryFlag \<noteq> 0),
      mv_sequence = rc_sequence h, mv_grade = kRejected, mv_standardInfo = None, mv_names = [], mv_data = None, mv_fixedUp = []\<rparr>"

definition recordViewFromFixup :: "u64 \<Rightarrow> RecordHeader \<Rightarrow> FixupOutcome \<Rightarrow> MftRecordView result option" where
  "recordViewFromFixup recordNumber h fixup =
     (let view = (recordShell recordNumber h)\<lparr>mv_fixedUp := fo_fixedUp fixup\<rparr>
      in if rc_baseRecord h \<noteq> 0 \<or> \<not> fo_applied fixup then Some (Inr (view\<lparr>mv_grade := kUncertain\<rparr>))
         else map_option (\<lambda>(view', grade). Inr (view'\<lparr>mv_grade := grade\<rparr>))
                (parseRecordAttributes view (mv_fixedUp view) h))"

definition parseMftRecord :: "bytes \<Rightarrow> u64 \<Rightarrow> MftRecordView result option" where
  "parseMftRecord raw recordNumber =
     (if \<not> signatureIsFile raw then Some (Inl (mkError kNotFound 0))
      else do { header \<leftarrow> readRecordHeader raw;
                case header of
                  Inl e \<Rightarrow> Some (Inl e)
                | Inr h \<Rightarrow>
                    do { fixup \<leftarrow> applyUpdateSequenceFixup raw;
                         case fixup of
                           Inl e \<Rightarrow> Some (Inl e)
                         | Inr f \<Rightarrow> recordViewFromFixup recordNumber h f } })"

subsection \<open>No read fails unnoticed\<close>

declare readLe_in_range [simp del]

lemma valueOf_readLe [simp]: "off + w \<le> length rec \<Longrightarrow> valueOf (readLe w rec off) = Some (le_at w rec off)"
  by (simp add: readLe_in_range le_at_def)

lemma valueOf_bytesAt [simp]: "off + n \<le> length rec \<Longrightarrow> valueOf (bytesAt rec off n) = Some (take n (drop off rec))"
  by simp

lemma length_writeSavedWord [simp]: "length (writeSavedWord rec at saved) = length rec"
  by (simp add: writeSavedWord_def)

lemma applyOneFixup_eq:
  assumes "off + 2 + i * 2 + 2 \<le> length rec" and "(i + 1) * kStrideSize \<le> length rec"
  shows "applyOneFixup rec off i usn =
    Some (if le_at 2 rec ((i + 1) * kStrideSize - 2) \<noteq> usn then (False, rec)
          else (True, writeSavedWord rec ((i + 1) * kStrideSize - 2) (le_at 2 rec (off + 2 + i * 2))))"
proof -
  have "(i + 1) * kStrideSize - 2 + 2 \<le> length rec" using assms(2) by (simp add: kStrideSize_def)
  then show ?thesis unfolding applyOneFixup_def using assms(1) by simp
qed

lemma applyFixupsFrom_total:
  "off + 2 + (i + left) * 2 \<le> length rec \<Longrightarrow> (i + left) * kStrideSize \<le> length rec \<Longrightarrow>
   \<exists>matched rec'. applyFixupsFrom rec off usn i left = Some (matched, rec') \<and> length rec' = length rec"
proof (induction left arbitrary: rec i)
  case (Suc left)
  have "off + 2 + i * 2 + 2 \<le> length rec" "(i + 1) * kStrideSize \<le> length rec"
    using Suc.prems by (simp_all add: algebra_simps)
  note one = applyOneFixup_eq [OF this, of usn]
  show ?case
  proof (cases "le_at 2 rec ((i + 1) * kStrideSize - 2) = usn")
    case True
    let ?next = "writeSavedWord rec ((i + 1) * kStrideSize - 2) (le_at 2 rec (off + 2 + i * 2))"
    have "\<exists>matched rec'. applyFixupsFrom ?next off usn (i + 1) left = Some (matched, rec') \<and> length rec' = length ?next"
      using Suc.prems by (intro Suc.IH) (simp_all add: algebra_simps)
    then show ?thesis using one True by (auto simp del: One_nat_def)
  qed (use one in \<open>auto simp del: One_nat_def\<close>)
qed auto

lemma validateUsaBounds_Inr:
  "validateUsaBounds off cnt n = Inr b \<longleftrightarrow> b \<and> 0 < cnt \<and> off + cnt * 2 \<le> n \<and> cnt = n div kStrideSize + 1"
  by (auto simp: validateUsaBounds_def)

lemma readUsaHeader_eq:
  "8 \<le> length rec \<Longrightarrow> readUsaHeader rec =
     Some (case validateUsaBounds (le_at 2 rec 4) (le_at 2 rec 6) (length rec) of
             Inl e \<Rightarrow> Inl e | Inr _ \<Rightarrow> Inr \<lparr>uh_offset = le_at 2 rec 4, uh_count = le_at 2 rec 6\<rparr>)"
  by (simp add: readUsaHeader_def)

lemma applyUpdateSequenceFixup_total:
  assumes "8 \<le> length raw"
  shows "\<exists>r. applyUpdateSequenceFixup raw = Some r \<and> (\<forall>f. r = Inr f \<longrightarrow> length (fo_fixedUp f) = length raw)"
proof (cases "validateUsaBounds (le_at 2 raw 4) (le_at 2 raw 6) (length raw)")
  case (Inl e)
  then show ?thesis using readUsaHeader_eq [OF assms] by (simp add: applyUpdateSequenceFixup_def)
next
  case (Inr b)
  let ?off = "le_at 2 raw 4" and ?cnt = "le_at 2 raw 6"
  have ok: "0 < ?cnt" "?off + ?cnt * 2 \<le> length raw" "?cnt = length raw div kStrideSize + 1"
    using Inr validateUsaBounds_Inr by blast+
  have "?off + 2 + (0 + (?cnt - 1)) * 2 \<le> length raw" "(0 + (?cnt - 1)) * kStrideSize \<le> length raw"
    using ok by (simp_all add: diff_mult_distrib)
  from applyFixupsFrom_total [OF this, of "le_at 2 raw ?off"]
  obtain matched fixedUp where "applyFixupsFrom raw ?off (le_at 2 raw ?off) 0 (?cnt - 1) = Some (matched, fixedUp)" "length fixedUp = length raw"
    by blast
  then show ?thesis
    using Inr ok readUsaHeader_eq [OF assms]
    by (simp add: applyUpdateSequenceFixup_def applyFixupStrides_def applyAllFixups_def readUsnValue_def)
qed

lemma readRecordHeader_total: "\<exists>r. readRecordHeader raw = Some r \<and> (\<forall>h. r = Inr h \<longrightarrow> kRecordHeaderSize \<le> length raw)"
proof (cases "length raw < kRecordHeaderSize")
  case False
  then have "0x38 \<le> length raw" by (simp add: kRecordHeaderSize_def)
  then show ?thesis using False by (simp add: readRecordHeader_def readRecordHeaderFields_def)
qed (simp add: readRecordHeader_def)

lemma readAttributeHeader_total:
  "\<exists>r. readAttributeHeader rec off typ = Some r \<and>
     (\<forall>a. r = Inr a \<longrightarrow> av_offset a = off \<and> av_type a = typ \<and> kMinAttributeLength \<le> av_length a \<and> off + av_length a \<le> length rec)"
proof (cases "bytesAt rec off kAttributeHeaderSize")
  case (Inr header)
  then have "length header = 16" by (auto simp: bytesAt_def kAttributeHeaderSize_def split: if_splits)
  then show ?thesis using Inr by (simp add: readAttributeHeader_def attributeLengthValid_def)
qed (simp add: readAttributeHeader_def)

lemma readAttributeView_total: "\<exists>r. readAttributeView rec off = Some r"
proof (cases "readLe 4 rec off")
  case (Inl e)
  then show ?thesis by (simp add: readAttributeView_def readAttributeBase_def)
next
  case (Inr t)
  show ?thesis
  proof (cases "t = kAttributeEnd")
    case False
    obtain r where r: "readAttributeHeader rec off t = Some r"
        "\<forall>a. r = Inr a \<longrightarrow> av_offset a = off \<and> av_type a = t \<and> kMinAttributeLength \<le> av_length a \<and> off + av_length a \<le> length rec"
      using readAttributeHeader_total by blast
    then show ?thesis using Inr False
      by (cases r) (auto simp: readAttributeView_def readAttributeBase_def readResidentTail_def readNonResidentTail_def
          kMinAttributeLength_def kNonResidentHeaderSize_def)
  qed (use Inr in \<open>simp add: readAttributeView_def readAttributeBase_def\<close>)
qed

lemma parsers_total:
  "\<exists>r. parseStandardInformation content = Some r" "\<exists>r. parseFileName content = Some r"
proof -
  show "\<exists>r. parseStandardInformation content = Some r"
    by (cases "length content < 0x20") (simp_all add: parseStandardInformation_def)
  show "\<exists>r. parseFileName content = Some r"
    by (cases "length content < 0x42") (simp_all add: parseFileName_def readFileNameHeader_def readFileNameText_def)
qed

lemma consumeContent_total: "(\<And>content. \<exists>r. parse content = Some r) \<Longrightarrow> \<exists>x. consumeContent rec attr parse store view = Some x"
proof -
  assume total: "\<And>content. \<exists>r. parse content = Some r"
  show ?thesis
  proof (cases "bytesAt rec (av_offset attr + av_contentOffset attr) (av_contentLength attr)")
    case (Inr content)
    then show ?thesis using total [of content] by (auto simp: consumeContent_def)
  qed (auto simp: consumeContent_def)
qed

lemma consumeOneAttribute_total: "\<exists>x. consumeOneAttribute view rec h off = Some x"
proof -
  have "\<exists>x. classifyAttribute view rec h a = Some x" for a
    using consumeContent_total [OF parsers_total(1), where rec = rec and attr = a and view = view and store = "\<lambda>stamps v. v\<lparr>mv_standardInfo := Some stamps\<rparr>"]
      consumeContent_total [OF parsers_total(2), where rec = rec and attr = a and view = view and store = "\<lambda>name v. v\<lparr>mv_names := mv_names v @ [name]\<rparr>"]
    by (auto simp: classifyAttribute_def consumeAttribute_def consumeStandardInformation_def consumeFileName_def)
  then show ?thesis using readAttributeView_total [of rec off]
    by (auto simp: consumeOneAttribute_def split: sum.splits) (metis (no_types) bind.bind_lunit case_prod_conv surj_pair)
qed

lemma attributesFrom_total: "\<exists>x. attributesFrom view rec h off = Some x"
proof (induction view rec h off rule: attributesFrom.induct)
  case (1 view rec h off)
  obtain view' off' step where one: "consumeOneAttribute view rec h off = Some (view', off', step)"
    using consumeOneAttribute_total [of view rec h off] by (metis surj_pair)
  then show ?case using "1.IH" [OF _ one]
    by (cases step) (simp_all add: attributesFrom.simps [of view rec h off])
qed

lemma parseMftRecord_total: "\<exists>r. parseMftRecord raw number = Some r"
proof -
  obtain rh where rh: "readRecordHeader raw = Some rh" "\<forall>h. rh = Inr h \<longrightarrow> kRecordHeaderSize \<le> length raw"
    using readRecordHeader_total by blast
  have "\<exists>r. recordViewFromFixup number h f = Some r" for h f
    using attributesFrom_total by (auto simp: recordViewFromFixup_def parseRecordAttributes_def Let_def) 
  then show ?thesis
    using rh applyUpdateSequenceFixup_total [of raw]
    by (cases rh) (auto simp: parseMftRecord_def kRecordHeaderSize_def split: sum.splits)
qed

subsection \<open>What the fixup restores\<close>

text \<open>The record with the tails of its first \<open>i\<close> strides put back from the update sequence array.\<close>

definition restored :: "bytes \<Rightarrow> nat \<Rightarrow> nat \<Rightarrow> bytes" where
  "restored raw off i =
     map (\<lambda>k. if k div 512 < i \<and> 510 \<le> k mod 512 then raw ! (off + 2 + 2 * (k div 512) + (k mod 512 - 510)) else raw ! k)
       [0..<length raw]"

lemma length_restored [simp]: "length (restored raw off i) = length raw"
  by (simp add: restored_def)

lemma restored_0 [simp]: "restored raw off 0 = raw"
  by (simp add: restored_def map_nth)

lemma restored_same: "k < length raw \<Longrightarrow> k mod 512 < 510 \<or> i \<le> k div 512 \<Longrightarrow> restored raw off i ! k = raw ! k"
  by (auto simp: restored_def)

lemma le_at_two: "at + 2 \<le> length rec \<Longrightarrow> le_at 2 rec at = unat (rec ! at) + 256 * unat (rec ! (at + 1))"
proof -
  assume "at + 2 \<le> length rec"
  then have "take 2 (drop at rec) = [rec ! at, rec ! (at + 1)]"
    by (simp add: numeral_2_eq_2 take_Suc_conv_app_nth nth_drop)
  then show ?thesis by (simp add: le_at_def)
qed

lemma writeSavedWord_bytes: "writeSavedWord rec at (unat a + 256 * unat b) = rec[at := a, at + 1 := (b :: byte)]"
proof -
  have "(unat a + 256 * unat b) AND 255 = unat a"
    using take_bit_eq_mask [of 8 "unat a + 256 * unat b"] unat_byte_less [of a] by (simp add: mask_eq_exp_minus_1 take_bit_eq_mod)
  moreover have "drop_bit 8 (unat a + 256 * unat b) = unat b" using unat_byte_less [of a] by (simp add: drop_bit_eq_div)
  ultimately show ?thesis by (simp add: writeSavedWord_def)
qed

lemma stride_position: "r < 512 \<Longrightarrow> s < 512 \<Longrightarrow> 512 * q + r = 512 * i + s \<longleftrightarrow> q = i \<and> r = (s :: nat)"
proof -
  assume rs: "r < 512" "s < 512"
  have "q = i \<and> r = s" if "512 * q + r = 512 * i + s"
    using arg_cong [OF that, of "\<lambda>n. n div 512"] arg_cong [OF that, of "\<lambda>n. n mod 512"] rs by simp
  then show ?thesis by auto
qed

lemma restored_Suc:
  assumes "(i + 1) * 512 \<le> length raw"
  shows "restored raw off (Suc i) =
    (restored raw off i)[(i + 1) * 512 - 2 := raw ! (off + 2 + 2 * i), (i + 1) * 512 - 1 := raw ! (off + 2 + 2 * i + 1)]"
proof (rule nth_equalityI)
  fix k assume "k < length (restored raw off (Suc i))"
  then have k: "k < length raw" by simp
  define q r where "q = k div 512" and "r = k mod 512"
  have kqr: "k = 512 * q + r" "r < 512" by (simp_all add: q_def r_def)
  have ends: "(i + 1) * 512 - 2 = 512 * i + 510" "(i + 1) * 512 - 1 = 512 * i + 511" by simp_all
  have pos: "k = 512 * i + 510 \<longleftrightarrow> q = i \<and> r = 510" "k = 512 * i + 511 \<longleftrightarrow> q = i \<and> r = 511"
    using stride_position [OF kqr(2), of 510 q i] stride_position [OF kqr(2), of 511 q i] kqr(1) by simp_all
  have new: "restored raw off n ! k = (if q < n \<and> 510 \<le> r then raw ! (off + 2 + 2 * q + (r - 510)) else raw ! k)" for n
    using k by (simp add: restored_def q_def r_def)
  consider "k = 512 * i + 510" | "k = 512 * i + 511" | "k \<noteq> 512 * i + 510" "k \<noteq> 512 * i + 511" by blast
  then show "restored raw off (Suc i) ! k =
      (restored raw off i)[(i + 1) * 512 - 2 := raw ! (off + 2 + 2 * i), (i + 1) * 512 - 1 := raw ! (off + 2 + 2 * i + 1)] ! k"
  proof cases
    case 1
    then show ?thesis using pos k unfolding ends new [of "Suc i"] by simp
  next
    case 2
    then show ?thesis using pos k unfolding ends new [of "Suc i"] by simp
  next
    case 3
    then have "q < Suc i \<and> 510 \<le> r \<longleftrightarrow> q < i \<and> 510 \<le> r" using pos kqr(2) by auto
    then show ?thesis using 3 k unfolding ends by (simp add: new)
  qed
qed simp

definition stride_tail :: "bytes \<Rightarrow> nat \<Rightarrow> nat" where
  "stride_tail raw j = le_at 2 raw ((j + 1) * 512 - 2)"

lemma le_at_restored:
  assumes "at + 2 \<le> length raw" and "\<And>k. k = at \<or> k = at + 1 \<Longrightarrow> k mod 512 < 510 \<or> i \<le> k div 512"
  shows "le_at 2 (restored raw off i) at = le_at 2 raw at"
  using assms by (simp add: le_at_two restored_same)

lemma tail_restored: "(i + 1) * 512 \<le> length raw \<Longrightarrow> le_at 2 (restored raw off i) ((i + 1) * 512 - 2) = stride_tail raw i"
  unfolding stride_tail_def
  by (intro le_at_restored) (auto simp: div_le_dividend)

lemma applyFixupsFrom_restored:
  assumes "off + 2 + 2 * (i + left) \<le> 510" and "(i + left) * 512 \<le> length raw" and "off + 2 + 2 * (i + left) \<le> length raw"
  shows "\<exists>matched m. applyFixupsFrom (restored raw off i) off usn i left = Some (matched, restored raw off m) \<and>
    (matched \<longleftrightarrow> (\<forall>j. i \<le> j \<and> j < i + left \<longrightarrow> stride_tail raw j = usn)) \<and> (matched \<longrightarrow> m = i + left)"
  using assms
proof (induction left arbitrary: i)
  case 0
  then show ?case by (intro exI [of _ True] exI [of _ i]) simp
next
  case (Suc left)
  have len: "(i + 1) * 512 \<le> length raw" using Suc.prems(2) by (simp add: algebra_simps)
  let ?rec = "restored raw off i" and ?at = "off + 2 + i * 2"
  have saved: "le_at 2 ?rec ?at = unat (raw ! ?at) + 256 * unat (raw ! (?at + 1))"
  proof -
    have bound: "?at + 1 < 510" "?at + 2 \<le> length raw" using Suc.prems(1,3) by simp_all
    have "k mod 512 < 510" if "k = ?at \<or> k = ?at + 1" for k
    proof -
      have "k < 510" using that bound(1) by auto
      then show ?thesis by simp
    qed
    then have "le_at 2 ?rec ?at = le_at 2 raw ?at" using bound(2) by (intro le_at_restored) auto
    then show ?thesis using le_at_two [OF bound(2)] by simp
  qed
  have one: "applyOneFixup ?rec off i usn =
      Some (if stride_tail raw i \<noteq> usn then (False, ?rec) else (True, restored raw off (Suc i)))"
  proof -
    have "off + 2 + i * 2 + 2 \<le> length ?rec" using Suc.prems(3) by simp
    moreover have "(i + 1) * kStrideSize \<le> length ?rec" using len by (simp only: kStrideSize_def length_restored)
    ultimately have "applyOneFixup ?rec off i usn =
        Some (if le_at 2 ?rec ((i + 1) * 512 - 2) \<noteq> usn then (False, ?rec)
              else (True, writeSavedWord ?rec ((i + 1) * 512 - 2) (le_at 2 ?rec ?at)))"
      using applyOneFixup_eq [of off i ?rec usn] unfolding kStrideSize_def by blast
    moreover have "writeSavedWord ?rec ((i + 1) * 512 - 2) (le_at 2 ?rec ?at) = restored raw off (Suc i)"
    proof -
      have "(i + 1) * 512 - 2 + 1 = (i + 1) * 512 - 1" "off + 2 + 2 * i = ?at" by simp_all
      then show ?thesis unfolding saved writeSavedWord_bytes restored_Suc [OF len] by (simp only:)
    qed
    ultimately show ?thesis unfolding tail_restored [OF len] by (simp only:)
  qed
  show ?case
  proof (cases "stride_tail raw i = usn")
    case False
    then have "applyFixupsFrom ?rec off usn i (Suc left) = Some (False, ?rec)" using one by simp
    moreover have "\<not> (\<forall>j. i \<le> j \<and> j < i + Suc left \<longrightarrow> stride_tail raw j = usn)"
    proof
      assume "\<forall>j. i \<le> j \<and> j < i + Suc left \<longrightarrow> stride_tail raw j = usn"
      then have "i \<le> i \<and> i < i + Suc left \<longrightarrow> stride_tail raw i = usn" by (rule spec)
      then show False using False by simp
    qed
    ultimately show ?thesis by (intro exI [of _ False] exI [of _ i]) simp
  next
    case True
    have next': "Suc i + left = i + Suc left" by simp
    have "off + 2 + 2 * (Suc i + left) \<le> 510" "(Suc i + left) * 512 \<le> length raw" "off + 2 + 2 * (Suc i + left) \<le> length raw"
      unfolding next' by (rule Suc.prems)+
    from Suc.IH [OF this]
    obtain matched m where rest: "applyFixupsFrom (restored raw off (Suc i)) off usn (Suc i) left = Some (matched, restored raw off m)"
        "matched \<longleftrightarrow> (\<forall>j. Suc i \<le> j \<and> j < Suc i + left \<longrightarrow> stride_tail raw j = usn)" "matched \<longrightarrow> m = Suc i + left" by blast
    have split: "i \<le> j \<and> j < i + Suc left \<longleftrightarrow> j = i \<or> Suc i \<le> j \<and> j < Suc i + left" for j by linarith
    have all: "matched \<longleftrightarrow> (\<forall>j. i \<le> j \<and> j < i + Suc left \<longrightarrow> stride_tail raw j = usn)"
      unfolding split rest(2) using True by auto
    have run: "applyFixupsFrom ?rec off usn i (Suc left) = Some (matched, restored raw off m)"
      using one True rest(1) by simp
    have len': "matched \<longrightarrow> m = i + Suc left" using rest(3) by simp
    show ?thesis by (rule exI [of _ matched], rule exI [of _ m], intro conjI run all len')
  qed
qed

text \<open>
  C24: The update sequence fixup detects every torn record and restores every whole one. For a
  record whose update sequence array fits before the first stride's end, the fixup is applied
  exactly when the last two bytes of every 512-byte stride carry the update sequence number; then
  those two bytes, and no others, are replaced by the ones saved in the array.
\<close>

theorem update_sequence_fixup_is_exact:
  assumes "8 \<le> length raw" and "le_at 2 raw 6 = length raw div 512 + 1"
    and "le_at 2 raw 4 + 2 * le_at 2 raw 6 \<le> min 510 (length raw)"
  shows "\<exists>f. applyUpdateSequenceFixup raw = Some (Inr f) \<and>
    (fo_applied f \<longleftrightarrow> (\<forall>j < length raw div 512. stride_tail raw j = le_at 2 raw (le_at 2 raw 4))) \<and>
    (fo_applied f \<longrightarrow> fo_fixedUp f = restored raw (le_at 2 raw 4) (length raw div 512))"
proof -
  let ?off = "le_at 2 raw 4" and ?n = "length raw div 512"
  have "readUsaHeader raw = Some (Inr \<lparr>uh_offset = ?off, uh_count = ?n + 1\<rparr>)"
    using assms by (simp add: readUsaHeader_eq validateUsaBounds_def kStrideSize_def)
  moreover have "?off + 2 + 2 * (0 + ?n) \<le> 510" "(0 + ?n) * 512 \<le> length raw" "?off + 2 + 2 * (0 + ?n) \<le> length raw"
    using assms(2,3) by simp_all
  from applyFixupsFrom_restored [OF this, of "le_at 2 raw ?off"]
  obtain matched m where "applyFixupsFrom raw ?off (le_at 2 raw ?off) 0 ?n = Some (matched, restored raw ?off m)"
      and matched: "matched \<longleftrightarrow> (\<forall>j. j < ?n \<longrightarrow> stride_tail raw j = le_at 2 raw ?off)" and m: "matched \<longrightarrow> m = ?n" by auto
  moreover have "?off + 2 \<le> length raw" using assms(2,3) by simp
  ultimately have "applyUpdateSequenceFixup raw = Some (Inr \<lparr>fo_applied = matched, fo_fixedUp = restored raw ?off m\<rparr>)"
    by (cases "?n = 0") (simp_all add: applyUpdateSequenceFixup_def applyFixupStrides_def applyAllFixups_def readUsnValue_def)
  then show ?thesis using matched m
    by (intro exI [of _ "\<lparr>fo_applied = matched, fo_fixedUp = restored raw ?off m\<rparr>"]) simp
qed

definition sampleRecord :: bytes where
  "sampleRecord = [0, 0, 0, 0, 48, 0, 2, 0] @ replicate 40 0 @ [7, 0, 0xAA, 0xBB] @ replicate 458 0 @ [7, 0]"

lemma sampleRecord_fields:
  "length sampleRecord = 512" "le_at 2 sampleRecord 4 = 48" "le_at 2 sampleRecord 6 = 2" "le_at 2 sampleRecord 48 = 7"
  "le_at 2 sampleRecord 510 = 7"
  by (simp_all add: sampleRecord_def le_at_def)

theorem update_sequence_fixup_is_exact_witness:
  "\<exists>f. applyUpdateSequenceFixup sampleRecord = Some (Inr f) \<and> fo_applied f \<and> fo_fixedUp f = restored sampleRecord 48 1"
proof -
  have "8 \<le> length sampleRecord" "le_at 2 sampleRecord 6 = length sampleRecord div 512 + 1"
    "le_at 2 sampleRecord 4 + 2 * le_at 2 sampleRecord 6 \<le> min 510 (length sampleRecord)"
    by (simp_all add: sampleRecord_fields)
  from update_sequence_fixup_is_exact [OF this] show ?thesis
    by (auto simp: sampleRecord_fields stride_tail_def)
qed

subsection \<open>Where the data of a record come from\<close>

text \<open>Both kinds of \<open>$DATA\<close> are ranges of the fixed-up record.\<close>

definition part_of :: "bytes \<Rightarrow> bytes \<Rightarrow> bool" where
  "part_of rec part \<longleftrightarrow> (\<exists>off. off + length part \<le> length rec \<and> part = take (length part) (drop off rec))"

lemma part_of_take: "off + n \<le> length rec \<Longrightarrow> part_of rec (take n (drop off rec))"
  unfolding part_of_def by (rule exI [of _ off]) simp

definition view_ok :: "bytes \<Rightarrow> MftRecordView \<Rightarrow> bool" where
  "view_ok rec view \<longleftrightarrow> mv_fixedUp view = rec \<and> (\<forall>d. mv_data view = Some d \<longrightarrow>
     (if md_resident d then part_of rec (md_residentContent d) \<and> md_realSize d = length (md_residentContent d)
      else part_of rec (md_runlistBytes d) \<and> md_realSize d \<le> max64))"

lemma valueOf_readLe_less: "valueOf (readLe w rec off) = Some v \<Longrightarrow> v < 256 ^ w"
  by (auto simp: valueOf_def dest: readLe_Inr_less split: sum.splits)

lemma readAttributeBase_realSize: "readAttributeBase rec off = Some (Inr v) \<Longrightarrow> av_realSize v = 0"
  by (auto simp: readAttributeBase_def readAttributeHeader_def split: sum.splits if_splits bind_splits)

lemma readNonResidentTail_realSize:
  assumes "readNonResidentTail v rec = Some (Inr a)"
  shows "av_realSize a \<le> max64"
proof -
  obtain n where "valueOf (readLe 8 rec n) = Some (av_realSize a)"
    using assms by (auto simp: readNonResidentTail_def split: if_splits bind_splits)
  from valueOf_readLe_less [OF this] show ?thesis by (simp add: max64_def)
qed

lemma readAttributeView_realSize: "readAttributeView rec off = Some (Inr a) \<Longrightarrow> av_realSize a \<le> max64"
proof -
  assume view: "readAttributeView rec off = Some (Inr a)"
  then obtain v where base: "readAttributeBase rec off = Some (Inr v)"
    and rest: "(if av_type v = kAttributeEnd then Some (Inr v)
       else if av_nonResident v then readNonResidentTail v rec else readResidentTail v rec) = Some (Inr a)"
    by (auto simp: readAttributeView_def split: bind_splits sum.splits)
  have "readResidentTail v rec = Some (Inr a) \<Longrightarrow> av_realSize a = av_realSize v"
    by (auto simp: readResidentTail_def split: bind_splits if_splits)
  then show ?thesis using rest readAttributeBase_realSize [OF base] readNonResidentTail_realSize [of v rec a]
    by (auto split: if_splits)
qed

lemma parseDataAttribute_part:
  assumes "parseDataAttribute a rec = Inr d" and "av_realSize a \<le> max64"
  shows "if md_resident d then part_of rec (md_residentContent d) \<and> md_realSize d = length (md_residentContent d)
     else part_of rec (md_runlistBytes d) \<and> md_realSize d \<le> max64"
proof (cases "av_nonResident a")
  case True
  then have d: "d = \<lparr>md_resident = False, md_residentContent = [],
        md_runlistBytes = take (av_length a - av_runlistOffset a) (drop (av_offset a + av_runlistOffset a) rec), md_realSize = av_realSize a\<rparr>"
      "av_offset a + av_runlistOffset a + (av_length a - av_runlistOffset a) \<le> length rec"
    using assms by (auto simp: parseDataAttribute_def readNonResidentData_def Let_def split: if_splits)
  then show ?thesis using part_of_take [OF d(2)] assms(2) by simp
next
  case False
  then have d: "d = \<lparr>md_resident = True, md_residentContent = take (av_contentLength a) (drop (av_offset a + av_contentOffset a) rec),
        md_runlistBytes = [], md_realSize = av_contentLength a\<rparr>"
      "av_offset a + av_contentOffset a + av_contentLength a \<le> length rec"
    using assms by (auto simp: parseDataAttribute_def readResidentData_def Let_def split: if_splits)
  then show ?thesis using part_of_take [OF d(2)] by simp
qed

lemma consumeContent_data:
  assumes "consumeContent rec a parse store view = Some (view', ok)" and "\<And>x v. mv_data (store x v) = mv_data v \<and> mv_fixedUp (store x v) = mv_fixedUp v"
  shows "mv_data view' = mv_data view \<and> mv_fixedUp view' = mv_fixedUp view"
  using assms(1) by (auto simp: consumeContent_def assms(2) split: sum.splits bind_splits)

lemma consumeAttribute_ok:
  assumes "view_ok rec view" and "consumeAttribute view rec a = Some (view', ok)" and "av_realSize a \<le> max64"
  shows "view_ok rec view'"
proof (cases "av_type a = 0x80")
  case True
  then have "consumeData view rec a = (view', ok)" using assms(2) by (simp add: consumeAttribute_def)
  then show ?thesis
    using assms(1,3) parseDataAttribute_part [of a rec] by (auto simp: consumeData_def view_ok_def split: if_splits sum.splits)
next
  case False
  have "consumeStandardInformation view rec a = Some (view', ok) \<Longrightarrow> mv_data view' = mv_data view \<and> mv_fixedUp view' = mv_fixedUp view"
    unfolding consumeStandardInformation_def by (erule consumeContent_data) simp
  moreover have "consumeFileName view rec a = Some (view', ok) \<Longrightarrow> mv_data view' = mv_data view \<and> mv_fixedUp view' = mv_fixedUp view"
    unfolding consumeFileName_def by (erule consumeContent_data) simp
  ultimately have "mv_data view' = mv_data view \<and> mv_fixedUp view' = mv_fixedUp view"
    using assms(2) False by (auto simp: consumeAttribute_def split: if_splits)
  then show ?thesis using assms(1) by (simp add: view_ok_def)
qed

lemma consumeOneAttribute_ok:
  assumes "view_ok rec view" and "consumeOneAttribute view rec h off = Some (view', off', step)"
  shows "view_ok rec view'"
  using assms consumeAttribute_ok [OF assms(1)] readAttributeView_realSize [of rec off]
  by (auto simp: consumeOneAttribute_def classifyAttribute_def split: bind_splits sum.splits prod.splits if_splits)

lemma attributesFrom_ok: "view_ok rec view \<Longrightarrow> attributesFrom view rec h off = Some (view', step) \<Longrightarrow> view_ok rec view'"
proof (induction view rec h off rule: attributesFrom.induct)
  case (1 view rec h off)
  show ?case
  proof (cases "off < rc_usedSize h")
    case True
    obtain view1 off1 step1 where one: "consumeOneAttribute view rec h off = Some (view1, off1, step1)"
      using consumeOneAttribute_total [of view rec h off] by (metis surj_pair)
    have ok: "view_ok rec view1" using consumeOneAttribute_ok [OF "1.prems"(1) one] .
    show ?thesis
    proof (cases step1)
      case kContinue
      then show ?thesis using "1.IH" [OF True one _ _ kContinue] ok "1.prems"(2) True one
        by (simp add: attributesFrom.simps [of view rec h off])
    qed (use ok one True "1.prems"(2) in \<open>simp_all add: attributesFrom.simps [of view rec h off]\<close>)
  qed (use "1.prems" in \<open>simp add: attributesFrom.simps [of view rec h off]\<close>)
qed

lemma recordViewFromFixup_ok:
  assumes "recordViewFromFixup number h f = Some (Inr view)"
  shows "mv_fixedUp view = fo_fixedUp f \<and> view_ok (mv_fixedUp view) view"
proof -
  let ?start = "(recordShell number h)\<lparr>mv_fixedUp := fo_fixedUp f\<rparr>"
  have start: "view_ok (fo_fixedUp f) ?start" by (simp add: view_ok_def recordShell_def)
  have "view_ok (fo_fixedUp f) view"
  proof (cases "rc_baseRecord h \<noteq> 0 \<or> \<not> fo_applied f")
    case True
    then have "view = ?start\<lparr>mv_grade := kUncertain\<rparr>" using assms by (auto simp: recordViewFromFixup_def Let_def)
    then show ?thesis using start by (simp add: view_ok_def)
  next
    case False
    then obtain view' step where walk: "attributesFrom ?start (fo_fixedUp f) h (rc_firstAttributeOffset h) = Some (view', step)"
        and v: "view = view'\<lparr>mv_grade := gradeFor step\<rparr>"
      using assms by (auto simp: recordViewFromFixup_def parseRecordAttributes_def Let_def)
    show ?thesis using attributesFrom_ok [OF start walk] v by (simp add: view_ok_def)
  qed
  then show ?thesis by (simp add: view_ok_def)
qed

lemma parseMftRecord_view:
  assumes "parseMftRecord raw number = Some (Inr view)"
  shows "length (mv_fixedUp view) = length raw \<and> view_ok (mv_fixedUp view) view"
proof -
  obtain h f where head: "readRecordHeader raw = Some (Inr h)" and fixup: "applyUpdateSequenceFixup raw = Some (Inr f)"
      and rec: "recordViewFromFixup number h f = Some (Inr view)"
    using assms by (auto simp: parseMftRecord_def split: if_splits bind_splits sum.splits)
  have "length (fo_fixedUp f) = length raw"
    using head fixup readRecordHeader_total [of raw] applyUpdateSequenceFixup_total [of raw] by (auto simp: kRecordHeaderSize_def)
  then show ?thesis using recordViewFromFixup_ok [OF rec] by auto
qed

text \<open>
  Whatever the bytes, parsing a record of the master file table ends, and never by an
  exception from an unchecked read. It answers a typed error, or a view whose record copy has the
  length of the input and whose data, resident content or encoded runs, are a range of that copy;
  resident content has the length the view states.
\<close>

theorem mft_record_parser_never_throws:
  "\<exists>r. parseMftRecord raw number = Some r \<and>
     (case r of Inl _ \<Rightarrow> True
      | Inr view \<Rightarrow> length (mv_fixedUp view) = length raw \<and> view_ok (mv_fixedUp view) view)"
proof -
  obtain r where "parseMftRecord raw number = Some r" using parseMftRecord_total [of raw number] by blast
  then show ?thesis using parseMftRecord_view [of raw number] by (cases r) auto
qed

end
