(* ===== verification/Sink.thy ===== *)
theory Sink
  imports Checkpoints Sha256 Naming Retrying
begin

text \<open>
  \<open>src/recovery/ExtractFile.cpp\<close> and \<open>RecoverySink.cpp\<close>: getting one winner's bytes into one
  file, and one run's winners into the destination. The destination is a map from paths to file
  contents. What the host does with an output stream is the parameter \<open>host\<close>: whether a file
  opens, which of the bytes put into it land, and whether the stream is still good once flushed.
\<close>

type_synonym files = "path \<rightharpoonup> bytes"

record SinkHost =
  sk_canon :: "path \<Rightarrow> path"
  sk_opens :: "path \<Rightarrow> bool"
  sk_lands :: "path \<Rightarrow> bytes \<Rightarrow> bytes"
  sk_good :: "path \<Rightarrow> bytes \<Rightarrow> bool"
  sk_available :: "path \<Rightarrow> nat option"
  sk_removes :: "path \<Rightarrow> bool"

subsection \<open>One file\<close>

definition kExtractChunkBytes :: size_t where "kExtractChunkBytes = 2 ^ 20"

record ExtractedFile =
  ex_bytes :: u64
  ex_content :: bytes

record Output =
  ou_file :: bytes
  ou_hash :: "Sha256 option"

definition outputPut :: "Output \<Rightarrow> bytes \<Rightarrow> Output" where
  "outputPut out raw =
     out\<lparr>ou_hash := Option.bind (ou_hash out) (\<lambda>hash. update hash raw), ou_file := ou_file out @ raw\<rparr>"

definition copyChunk :: "Output \<Rightarrow> BlockDevice \<Rightarrow> u64 \<Rightarrow> size_t \<Rightarrow> Output \<times> u64 result" where
  "copyChunk out device at want =
     (case bd_readAt device at want of
        Inl e \<Rightarrow> (out, Inl e)
      | Inr got \<Rightarrow> if length got \<noteq> want then (out, Inl (mkError kOutOfRange at))
                   else (outputPut out got, Inr want))"

lemma copyChunk_Inr: "copyChunk out device at want = (out', Inr copied) \<Longrightarrow> copied = want"
  by (auto simp: copyChunk_def split: sum.splits if_splits)

function advanceExtent :: "Output \<Rightarrow> BlockDevice \<Rightarrow> Extent \<Rightarrow> u64 \<Rightarrow> Output \<times> u64 result" where
  "advanceExtent out device extent sofar =
     (if sofar < lengthBytes extent
      then let want = min kExtractChunkBytes (lengthBytes extent - sofar)
           in case copyChunk out device (wrap64 (deviceOffset extent + sofar)) want of
                (out', Inl e) \<Rightarrow> (out', Inl e)
              | (out', Inr copied) \<Rightarrow> advanceExtent out' device extent (sofar + copied)
      else (out, Inr sofar))"
  by pat_completeness auto
termination
  by (relation "measure (\<lambda>(out, device, extent, sofar). lengthBytes extent - sofar)")
     (auto dest!: copyChunk_Inr [OF sym] simp: kExtractChunkBytes_def)

declare advanceExtent.simps [simp del]

definition plusExtent :: "u64 result \<Rightarrow> u64 result \<Rightarrow> u64 result" where
  "plusExtent sofar copied =
     (case (sofar, copied) of
        (Inr t, Inr c) \<Rightarrow> Inr (wrap64 (t + c))
      | (_, Inr _) \<Rightarrow> sofar
      | (_, Inl _) \<Rightarrow> copied)"

fun copyExtentsFrom :: "Output \<Rightarrow> BlockDevice \<Rightarrow> Extent list \<Rightarrow> u64 result \<Rightarrow> Output \<times> u64 result" where
  "copyExtentsFrom out device [] sofar = (out, sofar)"
| "copyExtentsFrom out device (extent # extents) sofar =
     (let (out', copied) = advanceExtent out device extent 0
      in copyExtentsFrom out' device extents (plusExtent sofar copied))"

definition copyExtents :: "Output \<Rightarrow> BlockDevice \<Rightarrow> Candidate \<Rightarrow> Output \<times> u64 result" where
  "copyExtents out device winner = copyExtentsFrom out device (cd_extents winner) (Inr 0)"

definition flushed :: "SinkHost \<Rightarrow> Output \<Rightarrow> u64 \<Rightarrow> path \<Rightarrow> u64 result" where
  "flushed host out written target =
     (if \<not> sk_good host target (ou_file out) then Inl (mkError (writeFailureAt (sk_available host target)) written)
      else Inr written)"

definition copyInto :: "SinkHost \<Rightarrow> Output \<Rightarrow> Candidate \<Rightarrow> BlockDevice \<Rightarrow> path \<Rightarrow> Output \<times> u64 result" where
  "copyInto host out winner device target =
     (if cd_extents winner = []
      then let out' = outputPut out (cd_residentContent winner)
           in (out', flushed host out' (length (cd_residentContent winner)) target)
      else let (out', copied) = copyExtents out device winner
           in (out', case copied of Inl e \<Rightarrow> Inl e | Inr written \<Rightarrow> flushed host out' written target))"

definition digestOrEmpty :: "Sha256 option \<Rightarrow> bytes" where
  "digestOrEmpty hash = (case Option.bind hash finish of Some digest \<Rightarrow> digest | None \<Rightarrow> [])"

definition writeContent :: "SinkHost \<Rightarrow> Candidate \<Rightarrow> BlockDevice \<Rightarrow> path \<Rightarrow> bytes \<times> ExtractedFile result" where
  "writeContent host winner device target =
     (let (out, written) = copyInto host \<lparr>ou_file = [], ou_hash = Some sha256Fresh\<rparr> winner device target
      in (ou_file out, mapResult written
            (\<lambda>count. \<lparr>ex_bytes = count, ex_content = digestOrEmpty (ou_hash out)\<rparr>)))"

definition extractTo ::
  "SinkHost \<Rightarrow> files \<Rightarrow> path \<Rightarrow> Candidate \<Rightarrow> BlockDevice \<Rightarrow> files \<times> ExtractedFile result" where
  "extractTo host files target winner device =
     (if \<not> sk_opens host target then (files, Inl (mkError (writeFailureAt (sk_available host target)) 0))
      else let (put, extracted) = writeContent host winner device target
           in (files(target \<mapsto> sk_lands host target put), extracted))"

subsection \<open>The sink\<close>

datatype ArtifactOutcome = kWritten | kDeduplicated | kFailed | kPreviewed | kNotAttempted

record ArtifactRecord =
  af_originalName :: string
  af_writtenName :: string
  af_extents :: "Extent list"
  af_bytes :: u64
  af_contentHash :: string
  af_invented :: "BadRange list"
  af_timestamps :: Timestamps
  af_confidence :: Confidence
  af_source :: CandidateSource
  af_outcome :: ArtifactOutcome

record ExtractionStats =
  st_filesWritten :: u64
  st_bytesWritten :: u64
  st_failed :: u64
  st_renamed :: u64
  st_deduplicated :: u64
  st_degraded :: u64

record Extraction =
  xt_stats :: ExtractionStats
  xt_artifacts :: "ArtifactRecord list"
  xt_stoppedBy :: "Error option"

record RecoverySink =
  rs_destination :: path
  rs_used :: "string set"
  rs_written :: "bytes set"
  rs_result :: Extraction
  rs_files :: files

record WrittenFile =
  wf_name :: string
  wf_target :: path
  wf_bytes :: u64
  wf_content :: bytes

definition recoverySink :: "path \<Rightarrow> files \<Rightarrow> RecoverySink" where
  "recoverySink destination files =
     \<lparr>rs_destination = destination, rs_used = {}, rs_written = {},
      rs_result = \<lparr>xt_stats = \<lparr>st_filesWritten = 0, st_bytesWritten = 0, st_failed = 0, st_renamed = 0,
                               st_deduplicated = 0, st_degraded = 0\<rparr>,
                   xt_artifacts = [], xt_stoppedBy = None\<rparr>,
      rs_files = files\<rparr>"

definition recordFor :: "Candidate \<Rightarrow> ArtifactOutcome \<Rightarrow> ArtifactRecord" where
  "recordFor winner outcome =
     \<lparr>af_originalName = cd_name winner, af_writtenName = [], af_extents = cd_extents winner, af_bytes = 0,
      af_contentHash = [], af_invented = [], af_timestamps = cd_timestamps winner,
      af_confidence = cd_confidence winner, af_source = cd_source winner, af_outcome = outcome\<rparr>"

definition addArtifact :: "ArtifactRecord \<Rightarrow> RecoverySink \<Rightarrow> RecoverySink" where
  "addArtifact artifact sink =
     sink\<lparr>rs_result := (rs_result sink)\<lparr>xt_artifacts := xt_artifacts (rs_result sink) @ [artifact]\<rparr>\<rparr>"

definition onStats :: "(ExtractionStats \<Rightarrow> ExtractionStats) \<Rightarrow> RecoverySink \<Rightarrow> RecoverySink" where
  "onStats f sink = sink\<lparr>rs_result := (rs_result sink)\<lparr>xt_stats := f (xt_stats (rs_result sink))\<rparr>\<rparr>"

definition recordNotAttempted :: "RecoverySink \<Rightarrow> (Candidate \<times> u64) list \<Rightarrow> RecoverySink" where
  "recordNotAttempted sink ordered =
     foldl (\<lambda>s item. addArtifact (recordFor (fst item) kNotAttempted) s) sink ordered"

definition endsTheRun :: "ErrorCode \<Rightarrow> bool" where
  "endsTheRun code \<longleftrightarrow> code = kStorageExhausted \<or> code = kSourceLost"

definition claimName :: "SinkHost \<Rightarrow> RecoverySink \<Rightarrow> Candidate \<Rightarrow> u64 \<Rightarrow> RecoverySink \<times> string option" where
  "claimName host sink winner ordinal =
     (let proposed = outputNameFor winner ordinal
      in if \<not> hasValue (sanitizeOutputPath (sk_canon host) (rs_destination sink) proposed) then (sink, None)
         else let claimed = disambiguate proposed (\<lambda>name. name \<in> rs_used sink);
                  counted = onStats (\<lambda>s. s\<lparr>st_renamed := wrap64 (st_renamed s + (if claimed = proposed then 0 else 1))\<rparr>) sink
              in (counted\<lparr>rs_used := insert claimed (rs_used counted)\<rparr>, Some claimed))"

definition sinkWrite ::
  "SinkHost \<Rightarrow> RecoverySink \<Rightarrow> Candidate \<Rightarrow> BlockDevice \<Rightarrow> u64 \<Rightarrow> RecoverySink \<times> WrittenFile result" where
  "sinkWrite host sink winner device ordinal =
     (case claimName host sink winner ordinal of
        (sink', None) \<Rightarrow> (sink', Inl (mkError kInvalidArgument 0))
      | (sink', Some claimed) \<Rightarrow>
          (case sanitizeOutputPath (sk_canon host) (rs_destination sink') claimed of
             Inl e \<Rightarrow> (sink', Inl e)
           | Inr target \<Rightarrow>
               let (files, extracted) = extractTo host (rs_files sink') target winner device
               in (sink'\<lparr>rs_files := files\<rparr>, mapResult extracted
                     (\<lambda>x. \<lparr>wf_name = claimed, wf_target = target, wf_bytes = ex_bytes x, wf_content = ex_content x\<rparr>))))"

definition dropDuplicate :: "SinkHost \<Rightarrow> RecoverySink \<Rightarrow> Candidate \<Rightarrow> WrittenFile \<Rightarrow> RecoverySink" where
  "dropDuplicate host sink winner written =
     addArtifact (recordFor winner kDeduplicated)
       (onStats (\<lambda>s. s\<lparr>st_deduplicated := wrap64 (st_deduplicated s + 1)\<rparr>)
         (if sk_removes host (wf_target written) then sink\<lparr>rs_files := (rs_files sink)(wf_target written := None)\<rparr>
          else sink))"

definition isDuplicate :: "RecoverySink \<Rightarrow> Candidate \<Rightarrow> WrittenFile \<Rightarrow> bool" where
  "isDuplicate sink winner written \<longleftrightarrow> \<not> (cd_source winner \<noteq> kCarve \<or> wf_content written \<notin> rs_written sink)"

definition keep :: "RecoverySink \<Rightarrow> Candidate \<Rightarrow> WrittenFile \<Rightarrow> RecoverySink" where
  "keep sink winner written =
     addArtifact ((recordFor winner kWritten)\<lparr>af_writtenName := wf_name written, af_bytes := wf_bytes written,
                                             af_contentHash := toHex (wf_content written)\<rparr>)
       (onStats (\<lambda>s. s\<lparr>st_filesWritten := wrap64 (st_filesWritten s + 1),
                        st_bytesWritten := wrap64 (st_bytesWritten s + wf_bytes written)\<rparr>)
         (sink\<lparr>rs_written := insert (wf_content written) (rs_written sink)\<rparr>))"

definition recordOutcome :: "SinkHost \<Rightarrow> RecoverySink \<Rightarrow> Candidate \<Rightarrow> WrittenFile result \<Rightarrow> RecoverySink" where
  "recordOutcome host sink winner written =
     (case written of
        Inl _ \<Rightarrow> addArtifact (recordFor winner kFailed)
                   (onStats (\<lambda>s. s\<lparr>st_failed := wrap64 (st_failed s + 1)\<rparr>) sink)
      | Inr file \<Rightarrow> if isDuplicate sink winner file then dropDuplicate host sink winner file
                    else keep sink winner file)"

definition writeOne ::
  "SinkHost \<Rightarrow> RecoverySink \<Rightarrow> Candidate \<Rightarrow> BlockDevice \<Rightarrow> u64 \<Rightarrow> RecoverySink \<times> bool" where
  "writeOne host sink winner device ordinal =
     (let (sink', written) = sinkWrite host sink winner device ordinal;
          recorded = recordOutcome host sink' winner written
      in case written of
           Inr _ \<Rightarrow> (recorded, True)
         | Inl e \<Rightarrow> if \<not> endsTheRun (err_code e) then (recorded, True)
                    else (recorded\<lparr>rs_result := (rs_result recorded)\<lparr>xt_stoppedBy := Some e\<rparr>\<rparr>, False))"

fun writeOrdered :: "SinkHost \<Rightarrow> RecoverySink \<Rightarrow> BlockDevice \<Rightarrow> (Candidate \<times> u64) list \<Rightarrow> RecoverySink" where
  "writeOrdered host sink device [] = sink"
| "writeOrdered host sink device (item # rest) =
     (case writeOne host sink (fst item) device (snd item) of
        (sink', True) \<Rightarrow> writeOrdered host sink' device rest
      | (sink', False) \<Rightarrow> recordNotAttempted sink' rest)"

definition writeEveryWinner :: "SinkHost \<Rightarrow> RecoverySink \<Rightarrow> Candidate list \<Rightarrow> BlockDevice \<Rightarrow> RecoverySink" where
  "writeEveryWinner host sink winners device = writeOrdered host sink device (orderedForWriting winners)"

definition sinkExtract :: "SinkHost \<Rightarrow> RecoverySink \<Rightarrow> Candidate list \<Rightarrow> BlockDevice \<Rightarrow> files \<times> Extraction" where
  "sinkExtract host sink winners device =
     (let final = writeEveryWinner host sink winners device in (rs_files final, rs_result final))"

definition previewOne :: "SinkHost \<Rightarrow> RecoverySink \<Rightarrow> Candidate \<Rightarrow> u64 \<Rightarrow> RecoverySink" where
  "previewOne host sink winner ordinal =
     (case claimName host sink winner ordinal of
        (sink', None) \<Rightarrow> addArtifact (recordFor winner kFailed)
                           (onStats (\<lambda>s. s\<lparr>st_failed := wrap64 (st_failed s + 1)\<rparr>) sink')
      | (sink', Some claimed) \<Rightarrow> addArtifact ((recordFor winner kPreviewed)\<lparr>af_writtenName := claimed\<rparr>) sink')"

definition sinkPreview :: "SinkHost \<Rightarrow> RecoverySink \<Rightarrow> Candidate list \<Rightarrow> Extraction" where
  "sinkPreview host sink winners =
     rs_result (foldl (\<lambda>s item. previewOne host s (fst item) (snd item)) sink (orderedForWriting winners))"

subsection \<open>What reaches the file is what is hashed\<close>

lemma updateAll_snoc: "updateAll h (chunks @ [c]) = Option.bind (updateAll h chunks) (\<lambda>g. update g c)"
  by (induction chunks arbitrary: h) (auto split: Option.bind_splits)

lemma outputs_put:
  "ou_file (foldl outputPut out chunks) = ou_file out @ concat chunks"
  "ou_hash (foldl outputPut out chunks) = Option.bind (ou_hash out) (\<lambda>h. updateAll h chunks)"
proof (induction chunks rule: rev_induct)
  case Nil
  { case 2 show ?case by simp }
  { case 1 show ?case by simp }
next
  case (snoc c chunks)
  { case 1 show ?case using snoc by (simp add: outputPut_def) }
  { case 2 show ?case using snoc by (cases "ou_hash out") (simp_all add: outputPut_def updateAll_snoc) }
qed

definition freshOutput :: Output where "freshOutput = \<lparr>ou_file = [], ou_hash = Some sha256Fresh\<rparr>"

lemma digest_of_puts: "digestOrEmpty (ou_hash (foldl outputPut freshOutput chunks)) = sha256_reference (concat chunks)"
  using streamed_reference [of chunks] by (simp add: digestOrEmpty_def outputs_put freshOutput_def)

lemma copyChunk_serves:
  assumes "serves device content" and "at + want \<le> length content"
  shows "copyChunk out device at want = (outputPut out (take want (drop at content)), Inr want)"
  using assms by (simp add: copyChunk_def serves_def)

lemma advanceExtent_serves:
  assumes "serves device content" and "deviceOffset extent + lengthBytes extent \<le> length content"
    and "sofar \<le> lengthBytes extent"
  shows "\<exists>chunks. advanceExtent out device extent sofar = (foldl outputPut out chunks, Inr (lengthBytes extent)) \<and>
    concat chunks = take (lengthBytes extent - sofar) (drop (deviceOffset extent + sofar) content)"
  using assms(3)
proof (induction "lengthBytes extent - sofar" arbitrary: out sofar rule: less_induct)
  case less
  show ?case
  proof (cases "sofar < lengthBytes extent")
    case False
    then have "advanceExtent out device extent sofar = (foldl outputPut out [], Inr (lengthBytes extent))"
      using less.prems by (simp add: advanceExtent.simps [of out])
    then show ?thesis using False less.prems by (intro exI [of _ "[]"]) simp
  next
    case True
    define want where "want = min kExtractChunkBytes (lengthBytes extent - sofar)"
    let ?at = "deviceOffset extent + sofar" and ?next = "sofar + want"
    let ?chunk = "take want (drop ?at content)"
    have want: "0 < want" "?next \<le> lengthBytes extent" using True by (simp_all add: want_def kExtractChunkBytes_def)
    have fits: "?at + want \<le> length content" "?at \<le> max64"
      using want assms(1,2) by (simp_all add: serves_def)
    have step: "advanceExtent out device extent sofar = advanceExtent (outputPut out ?chunk) device extent ?next"
      using True copyChunk_serves [OF assms(1) fits(1)] fits(2)
      by (simp add: advanceExtent.simps [of out] Let_def flip: want_def)
    have smaller: "lengthBytes extent - ?next < lengthBytes extent - sofar" using want True by linarith
    obtain chunks where chunks: "advanceExtent (outputPut out ?chunk) device extent ?next =
        (foldl outputPut (outputPut out ?chunk) chunks, Inr (lengthBytes extent))"
        "concat chunks = take (lengthBytes extent - ?next) (drop (deviceOffset extent + ?next) content)"
      using less.hyps [OF smaller, of "outputPut out ?chunk"] want by blast
    have "lengthBytes extent - sofar = want + (lengthBytes extent - ?next)" using want by simp
    then have "?chunk @ concat chunks = take (lengthBytes extent - sofar) (drop ?at content)"
      unfolding chunks(2) by (simp add: take_add ac_simps)
    then show ?thesis using step chunks(1) by (intro exI [of _ "?chunk # chunks"]) simp
  qed
qed

definition winner_bytes :: "bytes \<Rightarrow> Candidate \<Rightarrow> bytes" where
  "winner_bytes content winner =
     (if cd_extents winner = [] then cd_residentContent winner
      else concat (map (extent_bytes content) (cd_extents winner)))"

lemma copyExtentsFrom_serves:
  assumes "serves device content" and "list_all (extent_inside content) extents"
    and "t + length (concat (map (extent_bytes content) extents)) \<le> max64"
  shows "\<exists>chunks. copyExtentsFrom out device extents (Inr t) =
      (foldl outputPut out chunks, Inr (t + length (concat (map (extent_bytes content) extents)))) \<and>
    concat chunks = concat (map (extent_bytes content) extents)"
  using assms(2,3)
proof (induction extents arbitrary: out t)
  case Nil
  show ?case by (intro exI [of _ "[]"]) simp
next
  case (Cons extent extents)
  have inside: "deviceOffset extent + lengthBytes extent \<le> length content"
    using Cons.prems by (simp add: extent_inside_def)
  then have len: "length (extent_bytes content extent) = lengthBytes extent"
    by (simp add: length_extent_bytes extent_inside_def)
  obtain chunks where first: "advanceExtent out device extent 0 = (foldl outputPut out chunks, Inr (lengthBytes extent))"
      "concat chunks = extent_bytes content extent"
    using advanceExtent_serves [OF assms(1) inside, of 0 out] by (auto simp: extent_bytes_def)
  have "wrap64 (t + lengthBytes extent) = t + lengthBytes extent" using Cons.prems(2) len by simp
  moreover obtain more where
    "copyExtentsFrom (foldl outputPut out chunks) device extents (Inr (t + lengthBytes extent)) =
      (foldl outputPut (foldl outputPut out chunks) more,
       Inr (t + lengthBytes extent + length (concat (map (extent_bytes content) extents))))"
    "concat more = concat (map (extent_bytes content) extents)"
    using Cons.IH [of "t + lengthBytes extent" "foldl outputPut out chunks"] Cons.prems len by (auto simp: add.assoc)
  ultimately show ?case
    using first len by (intro exI [of _ "chunks @ more"]) (simp add: plusExtent_def)
qed

lemma copyInto_serves:
  assumes "serves device content" and "list_all (extent_inside content) (cd_extents winner)"
    and "length (winner_bytes content winner) \<le> max64"
  shows "\<exists>chunks. copyInto host freshOutput winner device target =
      (foldl outputPut freshOutput chunks,
       flushed host (foldl outputPut freshOutput chunks) (length (winner_bytes content winner)) target) \<and>
    concat chunks = winner_bytes content winner"
proof (cases "cd_extents winner = []")
  case True
  then show ?thesis
    by (intro exI [of _ "[cd_residentContent winner]"]) (simp add: copyInto_def winner_bytes_def Let_def)
next
  case False
  then show ?thesis
    using copyExtentsFrom_serves [OF assms(1,2), of 0 freshOutput] assms(3)
    by (auto simp: copyInto_def copyExtents_def winner_bytes_def)
qed

lemma extractTo_serves:
  assumes "serves device content" and "list_all (extent_inside content) (cd_extents winner)"
    and "length (winner_bytes content winner) \<le> max64"
  shows "extractTo host files target winner device =
    (if \<not> sk_opens host target then (files, Inl (mkError (writeFailureAt (sk_available host target)) 0))
     else (files(target \<mapsto> sk_lands host target (winner_bytes content winner)),
           if sk_good host target (winner_bytes content winner)
           then Inr \<lparr>ex_bytes = length (winner_bytes content winner), ex_content = sha256_reference (winner_bytes content winner)\<rparr>
           else Inl (mkError (writeFailureAt (sk_available host target)) (length (winner_bytes content winner)))))"
proof -
  obtain chunks where chunks: "copyInto host freshOutput winner device target =
      (foldl outputPut freshOutput chunks,
       flushed host (foldl outputPut freshOutput chunks) (length (winner_bytes content winner)) target)"
      "concat chunks = winner_bytes content winner"
    using copyInto_serves [OF assms] by blast
  have "ou_file (foldl outputPut freshOutput chunks) = winner_bytes content winner"
    using chunks(2) by (simp add: outputs_put freshOutput_def)
  moreover have "digestOrEmpty (ou_hash (foldl outputPut freshOutput chunks)) = sha256_reference (winner_bytes content winner)"
    using chunks(2) by (simp add: digest_of_puts)
  ultimately show ?thesis
    using chunks(1) unfolding freshOutput_def
    by (simp add: extractTo_def writeContent_def flushed_def)
qed

subsection \<open>One step of the sink\<close>

definition describes :: "Candidate \<Rightarrow> ArtifactRecord \<Rightarrow> bool" where
  "describes winner a \<longleftrightarrow>
     af_originalName a = cd_name winner \<and> af_extents a = cd_extents winner \<and> af_timestamps a = cd_timestamps winner \<and>
     af_confidence a = cd_confidence winner \<and> af_source a = cd_source winner"

definition outcomes :: "ArtifactOutcome \<Rightarrow> ArtifactRecord list \<Rightarrow> nat" where
  "outcomes k as = length (filter (\<lambda>a. af_outcome a = k) as)"

lemma sink_updates [simp]:
  "rs_files (addArtifact a sink) = rs_files sink" "rs_used (addArtifact a sink) = rs_used sink"
  "rs_destination (addArtifact a sink) = rs_destination sink" "rs_written (addArtifact a sink) = rs_written sink"
  "xt_artifacts (rs_result (addArtifact a sink)) = xt_artifacts (rs_result sink) @ [a]"
  "xt_stats (rs_result (addArtifact a sink)) = xt_stats (rs_result sink)"
  "xt_stoppedBy (rs_result (addArtifact a sink)) = xt_stoppedBy (rs_result sink)"
  "rs_files (onStats f sink) = rs_files sink" "rs_used (onStats f sink) = rs_used sink"
  "rs_destination (onStats f sink) = rs_destination sink" "rs_written (onStats f sink) = rs_written sink"
  "xt_artifacts (rs_result (onStats f sink)) = xt_artifacts (rs_result sink)"
  "xt_stats (rs_result (onStats f sink)) = f (xt_stats (rs_result sink))"
  "xt_stoppedBy (rs_result (onStats f sink)) = xt_stoppedBy (rs_result sink)"
  by (simp_all add: addArtifact_def onStats_def)

lemma artifact_record_simps [simp]:
  "describes w (recordFor w k)" "af_outcome (recordFor w k) = k" "af_writtenName (recordFor w k) = []"
  by (simp_all add: recordFor_def describes_def)

definition claimed_name :: "SinkHost \<Rightarrow> path \<Rightarrow> string set \<Rightarrow> Candidate \<times> u64 \<Rightarrow> string option" where
  "claimed_name host dest used item =
     (let proposed = outputNameFor (fst item) (snd item)
      in if hasValue (sanitizeOutputPath (sk_canon host) dest proposed)
         then Some (disambiguate proposed (\<lambda>name. name \<in> used)) else None)"

definition count_rename :: "nat \<Rightarrow> ExtractionStats \<Rightarrow> ExtractionStats" where
  "count_rename n s = s\<lparr>st_renamed := wrap64 (st_renamed s + n)\<rparr>"

lemma claimName_eq:
  "claimName host sink winner ordinal =
     (case claimed_name host (rs_destination sink) (rs_used sink) (winner, ordinal) of
        None \<Rightarrow> (sink, None)
      | Some name \<Rightarrow>
          ((onStats (count_rename (if name = outputNameFor winner ordinal then 0 else 1)) sink)
             \<lparr>rs_used := insert name (rs_used sink)\<rparr>, Some name))"
  by (simp add: claimName_def claimed_name_def Let_def count_rename_def [abs_def])

lemma claimName_keeps:
  "rs_used (fst (claimName host sink winner ordinal)) =
     rs_used sink \<union> set_option (claimed_name host (rs_destination sink) (rs_used sink) (winner, ordinal))"
  "rs_destination (fst (claimName host sink winner ordinal)) = rs_destination sink"
  "rs_files (fst (claimName host sink winner ordinal)) = rs_files sink"
  "rs_written (fst (claimName host sink winner ordinal)) = rs_written sink"
  "xt_artifacts (rs_result (fst (claimName host sink winner ordinal))) = xt_artifacts (rs_result sink)"
  "xt_stoppedBy (rs_result (fst (claimName host sink winner ordinal))) = xt_stoppedBy (rs_result sink)"
  by (simp_all add: claimName_eq split: option.split)

lemma claimName_stats:
  obtains n where "xt_stats (rs_result (fst (claimName host sink winner ordinal))) = count_rename n (xt_stats (rs_result sink))"
    | "fst (claimName host sink winner ordinal) = sink"
  by (cases "claimed_name host (rs_destination sink) (rs_used sink) (winner, ordinal)") (auto simp: claimName_eq)

lemma extractTo_files: "fst (extractTo host files target winner device) p \<noteq> files p \<Longrightarrow> p = target"
  by (auto simp: extractTo_def split: prod.splits if_splits)

lemma sinkWrite_cases:
  assumes "sinkWrite host sink winner device ordinal = (sink', written)"
  obtains (failed) e where "sink' = fst (claimName host sink winner ordinal)" "written = Inl e"
    | (tried) name target extracted where
        "claimed_name host (rs_destination sink) (rs_used sink) (winner, ordinal) = Some name"
        "sanitizeOutputPath (sk_canon host) (rs_destination sink) name = Inr target"
        "sink' = (fst (claimName host sink winner ordinal))
           \<lparr>rs_files := fst (extractTo host (rs_files sink) target winner device)\<rparr>"
        "extracted = snd (extractTo host (rs_files sink) target winner device)"
        "written = mapResult extracted
           (\<lambda>x. \<lparr>wf_name = name, wf_target = target, wf_bytes = ex_bytes x, wf_content = ex_content x\<rparr>)"
proof (cases "claimed_name host (rs_destination sink) (rs_used sink) (winner, ordinal)")
  case None
  then show thesis using assms by (intro failed) (auto simp: sinkWrite_def claimName_eq)
next
  case (Some name)
  show thesis
  proof (cases "sanitizeOutputPath (sk_canon host) (rs_destination sink) name")
    case (Inl e)
    then show thesis using assms Some by (intro failed) (auto simp: sinkWrite_def claimName_eq)
  next
    case (Inr target)
    then show thesis using assms tried [OF Some Inr] Some by (simp add: sinkWrite_def claimName_eq split: prod.splits)
  qed
qed

lemma sinkWrite_keeps:
  assumes "sinkWrite host sink winner device ordinal = (sink', written)"
  shows "rs_used sink' = rs_used (fst (claimName host sink winner ordinal)) \<and>
    rs_destination sink' = rs_destination sink \<and> rs_written sink' = rs_written sink \<and>
    rs_result sink' = rs_result (fst (claimName host sink winner ordinal))"
  using assms by (cases rule: sinkWrite_cases) (simp_all add: claimName_keeps)

lemma sinkWrite_target:
  assumes "sinkWrite host sink winner device ordinal = (sink', Inr outfile)"
  shows "claimed_name host (rs_destination sink) (rs_used sink) (winner, ordinal) = Some (wf_name outfile) \<and>
    sanitizeOutputPath (sk_canon host) (rs_destination sink) (wf_name outfile) = Inr (wf_target outfile)"
  using assms
proof (cases rule: sinkWrite_cases)
  case (tried name target extracted)
  then obtain x :: ExtractedFile where "outfile = \<lparr>wf_name = name, wf_target = target, wf_bytes = ex_bytes x, wf_content = ex_content x\<rparr>"
    using tried(5) [symmetric] unfolding mapResult_Inr_iff by blast
  then show ?thesis using tried(1,2) by simp
qed simp

lemma sinkWrite_files:
  assumes "sinkWrite host sink winner device ordinal = (sink', written)" and "rs_files sink' p \<noteq> rs_files sink p"
  shows "\<exists>name. sanitizeOutputPath (sk_canon host) (rs_destination sink) name = Inr p"
  using assms(1)
proof (cases rule: sinkWrite_cases)
  case (failed e)
  then show ?thesis using assms(2) by (simp add: claimName_keeps)
next
  case (tried name target extracted)
  then show ?thesis using assms(2) extractTo_files by fastforce
qed

lemma recordOutcome_keeps:
  "rs_used (recordOutcome host sink winner written) = rs_used sink"
  "rs_destination (recordOutcome host sink winner written) = rs_destination sink"
  "xt_stoppedBy (rs_result (recordOutcome host sink winner written)) = xt_stoppedBy (rs_result sink)"
  by (simp_all add: recordOutcome_def dropDuplicate_def keep_def split: sum.split)

lemma recordOutcome_files:
  assumes "rs_files (recordOutcome host sink winner written) p \<noteq> rs_files sink p"
  obtains outfile where "written = Inr outfile" "p = wf_target outfile"
  using assms by (auto simp: recordOutcome_def dropDuplicate_def keep_def split: sum.splits if_splits)

lemma writeOne_eq:
  assumes "sinkWrite host sink winner device ordinal = (mid, written)"
  shows "writeOne host sink winner device ordinal =
    (case written of
       Inl e \<Rightarrow> if endsTheRun (err_code e)
                then ((recordOutcome host mid winner written)\<lparr>rs_result :=
                       (rs_result (recordOutcome host mid winner written))\<lparr>xt_stoppedBy := Some e\<rparr>\<rparr>, False)
                else (recordOutcome host mid winner written, True)
     | Inr _ \<Rightarrow> (recordOutcome host mid winner written, True))"
  using assms by (simp add: writeOne_def Let_def split: sum.split)

lemma writeOne_sink:
  assumes "writeOne host sink winner device ordinal = (sink', go)"
  shows "rs_used sink' = rs_used (fst (claimName host sink winner ordinal)) \<and> rs_destination sink' = rs_destination sink"
proof -
  obtain mid written where mid: "sinkWrite host sink winner device ordinal = (mid, written)" by fastforce
  show ?thesis
    using assms sinkWrite_keeps [OF mid] unfolding writeOne_eq [OF mid]
    by (auto simp: recordOutcome_keeps split: sum.splits if_splits)
qed

lemma writeOne_files:
  assumes "writeOne host sink winner device ordinal = (sink', go)" and "rs_files sink' p \<noteq> rs_files sink p"
  shows "\<exists>name. sanitizeOutputPath (sk_canon host) (rs_destination sink) name = Inr p"
proof -
  obtain mid written where mid: "sinkWrite host sink winner device ordinal = (mid, written)" by fastforce
  have final: "rs_files sink' = rs_files (recordOutcome host mid winner written)"
    using assms(1) unfolding writeOne_eq [OF mid] by (auto split: sum.splits if_splits)
  show ?thesis
  proof (cases "rs_files mid p = rs_files sink p")
    case False
    then show ?thesis by (rule sinkWrite_files [OF mid])
  next
    case True
    then have "rs_files (recordOutcome host mid winner written) p \<noteq> rs_files mid p" using assms(2) final by simp
    then obtain outfile where "written = Inr outfile" "p = wf_target outfile" by (rule recordOutcome_files)
    then show ?thesis using sinkWrite_target mid by blast
  qed
qed

subsection \<open>The whole run\<close>

definition tallied :: "Extraction \<Rightarrow> bool" where
  "tallied x \<longleftrightarrow>
     st_filesWritten (xt_stats x) = wrap64 (outcomes kWritten (xt_artifacts x)) \<and>
     st_bytesWritten (xt_stats x) = wrap64 (sum_list (map af_bytes (filter (\<lambda>a. af_outcome a = kWritten) (xt_artifacts x)))) \<and>
     st_failed (xt_stats x) = wrap64 (outcomes kFailed (xt_artifacts x)) \<and>
     st_deduplicated (xt_stats x) = wrap64 (outcomes kDeduplicated (xt_artifacts x))"

lemma outcomes_snoc: "outcomes k (as @ [a]) = outcomes k as + (if af_outcome a = k then 1 else 0)"
  by (simp add: outcomes_def)

lemma recordOutcome_artifact:
  obtains a where "xt_artifacts (rs_result (recordOutcome host sink winner written)) = xt_artifacts (rs_result sink) @ [a]"
    "describes winner a" "af_outcome a \<noteq> kNotAttempted"
    "af_outcome a = kWritten \<Longrightarrow> \<exists>f. written = Inr f \<and> af_writtenName a = wf_name f"
proof (cases written)
  case (Inl e)
  then show thesis by (intro that [of "recordFor winner kFailed"]) (simp_all add: recordOutcome_def)
next
  case (Inr f)
  show thesis
  proof (cases "isDuplicate sink winner f")
    case True
    then show thesis using Inr
      by (intro that [of "recordFor winner kDeduplicated"]) (simp_all add: recordOutcome_def dropDuplicate_def)
  next
    case False
    then show thesis using Inr
      by (intro that [of "(recordFor winner kWritten)\<lparr>af_writtenName := wf_name f, af_bytes := wf_bytes f,
            af_contentHash := toHex (wf_content f)\<rparr>"])
         (simp_all add: recordOutcome_def keep_def describes_def recordFor_def)
  qed
qed

lemma tallied_recordOutcome:
  assumes "tallied (rs_result sink)"
  shows "tallied (rs_result (recordOutcome host sink winner written))"
proof (cases written)
  case (Inl e)
  then show ?thesis using assms by (simp add: recordOutcome_def tallied_def outcomes_snoc wrap64_add wrap64_Suc)
next
  case (Inr f)
  have "tallied (rs_result (dropDuplicate host sink winner f))"
    using assms by (simp add: dropDuplicate_def tallied_def outcomes_snoc wrap64_add wrap64_Suc)
  moreover have "tallied (rs_result (keep sink winner f))"
    using assms by (simp add: keep_def tallied_def outcomes_snoc wrap64_add wrap64_Suc)
  ultimately show ?thesis using Inr by (simp add: recordOutcome_def)
qed

lemma tallied_claimName: "tallied (rs_result sink) \<Longrightarrow> tallied (rs_result (fst (claimName host sink winner ordinal)))"
  by (simp add: claimName_eq tallied_def count_rename_def split: option.split)

lemma writeOne_artifact:
  assumes "writeOne host sink winner device ordinal = (sink', go)"
  obtains a where "xt_artifacts (rs_result sink') = xt_artifacts (rs_result sink) @ [a]" "describes winner a"
    "af_outcome a \<noteq> kNotAttempted"
    "af_outcome a = kWritten \<Longrightarrow>
       claimed_name host (rs_destination sink) (rs_used sink) (winner, ordinal) = Some (af_writtenName a)"
    "tallied (rs_result sink) \<Longrightarrow> tallied (rs_result sink')"
    "go \<Longrightarrow> xt_stoppedBy (rs_result sink') = xt_stoppedBy (rs_result sink)"
    "\<not> go \<Longrightarrow> xt_stoppedBy (rs_result sink') \<noteq> None"
proof -
  obtain mid written where mid: "sinkWrite host sink winner device ordinal = (mid, written)" by fastforce
  let ?rec = "recordOutcome host mid winner written"
  have result: "rs_result mid = rs_result (fst (claimName host sink winner ordinal))"
    using sinkWrite_keeps [OF mid] by simp
  have final: "xt_artifacts (rs_result sink') = xt_artifacts (rs_result ?rec)" "xt_stats (rs_result sink') = xt_stats (rs_result ?rec)"
      "go \<Longrightarrow> xt_stoppedBy (rs_result sink') = xt_stoppedBy (rs_result ?rec)" "\<not> go \<Longrightarrow> xt_stoppedBy (rs_result sink') \<noteq> None"
    using assms unfolding writeOne_eq [OF mid] by (auto split: sum.splits if_splits)
  obtain a where a: "xt_artifacts (rs_result ?rec) = xt_artifacts (rs_result mid) @ [a]" "describes winner a"
      "af_outcome a \<noteq> kNotAttempted" "af_outcome a = kWritten \<Longrightarrow> \<exists>f. written = Inr f \<and> af_writtenName a = wf_name f"
    using recordOutcome_artifact by blast
  show thesis
  proof (rule that [of a])
    show "xt_artifacts (rs_result sink') = xt_artifacts (rs_result sink) @ [a]"
      using final(1) a(1) result by (simp add: claimName_keeps)
    show "claimed_name host (rs_destination sink) (rs_used sink) (winner, ordinal) = Some (af_writtenName a)"
      if "af_outcome a = kWritten"
      using a(4) [OF that] sinkWrite_target mid by fastforce
    show "tallied (rs_result sink')" if "tallied (rs_result sink)"
    proof -
      have "tallied (rs_result ?rec)"
        using that tallied_claimName result by (intro tallied_recordOutcome) simp
      then show ?thesis using final(1,2) by (simp add: tallied_def)
    qed
    show "xt_stoppedBy (rs_result sink') = xt_stoppedBy (rs_result sink)" if go
      using final(3) [OF that] result by (simp add: recordOutcome_keeps claimName_keeps)
  qed (use a(2,3) final(4) in blast)+
qed

lemma recordNotAttempted_simps:
  "xt_artifacts (rs_result (recordNotAttempted sink items)) =
     xt_artifacts (rs_result sink) @ map (\<lambda>item. recordFor (fst item) kNotAttempted) items"
  "rs_files (recordNotAttempted sink items) = rs_files sink"
  "xt_stoppedBy (rs_result (recordNotAttempted sink items)) = xt_stoppedBy (rs_result sink)"
  "xt_stats (rs_result (recordNotAttempted sink items)) = xt_stats (rs_result sink)"
  unfolding recordNotAttempted_def by (induction items arbitrary: sink) simp_all

lemma tallied_recordNotAttempted:
  "tallied (rs_result sink) \<Longrightarrow> tallied (rs_result (recordNotAttempted sink items))"
  by (simp add: tallied_def recordNotAttempted_simps outcomes_def)

lemma writeOrdered_files:
  "rs_files (writeOrdered host sink device items) p \<noteq> rs_files sink p \<Longrightarrow>
   \<exists>name. sanitizeOutputPath (sk_canon host) (rs_destination sink) name = Inr p"
proof (induction items arbitrary: sink)
  case (Cons item rest)
  obtain sink' go where one: "writeOne host sink (fst item) device (snd item) = (sink', go)" by fastforce
  show ?case
  proof (cases "rs_files sink' p = rs_files sink p")
    case False
    then show ?thesis by (rule writeOne_files [OF one])
  next
    case True
    then have "go" "rs_files (writeOrdered host sink' device rest) p \<noteq> rs_files sink' p"
      using Cons.prems one by (auto simp: recordNotAttempted_simps split: bool.splits)
    then show ?thesis using Cons.IH [of sink'] writeOne_sink [OF one] by simp
  qed
qed simp

lemma writeOrdered_artifacts:
  "\<exists>as. xt_artifacts (rs_result (writeOrdered host sink device items)) = xt_artifacts (rs_result sink) @ as \<and>
     list_all2 describes (map fst items) as \<and>
     (tallied (rs_result sink) \<longrightarrow> tallied (rs_result (writeOrdered host sink device items))) \<and>
     ((\<exists>a \<in> set as. af_outcome a = kNotAttempted) \<longrightarrow> xt_stoppedBy (rs_result (writeOrdered host sink device items)) \<noteq> None)"
proof (induction items arbitrary: sink)
  case (Cons item rest)
  obtain sink' go where one: "writeOne host sink (fst item) device (snd item) = (sink', go)" by fastforce
  obtain a where a: "xt_artifacts (rs_result sink') = xt_artifacts (rs_result sink) @ [a]" "describes (fst item) a"
      "af_outcome a \<noteq> kNotAttempted" "tallied (rs_result sink) \<Longrightarrow> tallied (rs_result sink')"
      "\<not> go \<Longrightarrow> xt_stoppedBy (rs_result sink') \<noteq> None"
    using writeOne_artifact [OF one] by metis
  show ?case
  proof (cases go)
    case True
    obtain as where "xt_artifacts (rs_result (writeOrdered host sink' device rest)) = xt_artifacts (rs_result sink') @ as"
        "list_all2 describes (map fst rest) as"
        "tallied (rs_result sink') \<longrightarrow> tallied (rs_result (writeOrdered host sink' device rest))"
        "(\<exists>a \<in> set as. af_outcome a = kNotAttempted) \<longrightarrow> xt_stoppedBy (rs_result (writeOrdered host sink' device rest)) \<noteq> None"
      using Cons.IH [of sink'] by blast
    then show ?thesis using a one True by (intro exI [of _ "a # as"]) auto
  next
    case False
    let ?as = "map (\<lambda>item. recordFor (fst item) kNotAttempted) rest"
    have "list_all2 describes (map fst rest) ?as" by (simp add: list_all2_conv_all_nth)
    then show ?thesis using a one False
      by (intro exI [of _ "a # ?as"]) (auto simp: recordNotAttempted_simps tallied_recordNotAttempted)
  qed
qed simp

subsection \<open>Preview\<close>

lemma previewOne_eq:
  obtains b where "xt_artifacts (rs_result (previewOne host sink winner ordinal)) = xt_artifacts (rs_result sink) @ [b]"
    "describes winner b"
    "rs_used (previewOne host sink winner ordinal) = rs_used (fst (claimName host sink winner ordinal))"
    "rs_destination (previewOne host sink winner ordinal) = rs_destination sink"
    "\<And>name. claimed_name host (rs_destination sink) (rs_used sink) (winner, ordinal) = Some name \<Longrightarrow>
       af_outcome b = kPreviewed \<and> af_writtenName b = name"
proof (cases "claimed_name host (rs_destination sink) (rs_used sink) (winner, ordinal)")
  case None
  then show thesis by (intro that [of "recordFor winner kFailed"]) (simp_all add: previewOne_def claimName_eq)
next
  case (Some name)
  then show thesis
    by (intro that [of "(recordFor winner kPreviewed)\<lparr>af_writtenName := name\<rparr>"])
       (simp_all add: previewOne_def claimName_eq describes_def recordFor_def)
qed

definition foretold :: "ArtifactRecord \<Rightarrow> ArtifactRecord \<Rightarrow> bool" where
  "foretold previewed a \<longleftrightarrow>
     (af_outcome a = kWritten \<longrightarrow> af_outcome previewed = kPreviewed \<and> af_writtenName a = af_writtenName previewed)"

lemma preview_prefix:
  "\<exists>bs. xt_artifacts (rs_result (foldl (\<lambda>s item. previewOne host s (fst item) (snd item)) p items)) =
     xt_artifacts (rs_result p) @ bs \<and> length bs = length items"
proof (induction items arbitrary: p)
  case (Cons item rest)
  obtain b where "xt_artifacts (rs_result (previewOne host p (fst item) (snd item))) = xt_artifacts (rs_result p) @ [b]"
    using previewOne_eq by metis
  moreover obtain bs where "xt_artifacts (rs_result (foldl (\<lambda>s item. previewOne host s (fst item) (snd item))
      (previewOne host p (fst item) (snd item)) rest)) = xt_artifacts (rs_result (previewOne host p (fst item) (snd item))) @ bs"
      "length bs = length rest"
    using Cons.IH by blast
  ultimately show ?case by (intro exI [of _ "b # bs"]) simp
qed simp

lemma preview_foretells:
  assumes "rs_used p = rs_used s" and "rs_destination p = rs_destination s"
  shows "\<exists>as bs. xt_artifacts (rs_result (writeOrdered host s device items)) = xt_artifacts (rs_result s) @ as \<and>
    xt_artifacts (rs_result (foldl (\<lambda>s item. previewOne host s (fst item) (snd item)) p items)) =
      xt_artifacts (rs_result p) @ bs \<and> list_all2 foretold bs as"
  using assms
proof (induction items arbitrary: s p)
  case (Cons item rest)
  let ?p = "previewOne host p (fst item) (snd item)"
  let ?run = "foldl (\<lambda>s item. previewOne host s (fst item) (snd item))"
  obtain s' go where one: "writeOne host s (fst item) device (snd item) = (s', go)" by fastforce
  obtain a where a: "xt_artifacts (rs_result s') = xt_artifacts (rs_result s) @ [a]"
      "af_outcome a = kWritten \<Longrightarrow>
         claimed_name host (rs_destination s) (rs_used s) (fst item, snd item) = Some (af_writtenName a)"
    using writeOne_artifact [OF one] by metis
  obtain b where b: "xt_artifacts (rs_result ?p) = xt_artifacts (rs_result p) @ [b]"
      "rs_used ?p = rs_used (fst (claimName host p (fst item) (snd item)))" "rs_destination ?p = rs_destination p"
      "\<And>name. claimed_name host (rs_destination p) (rs_used p) (fst item, snd item) = Some name \<Longrightarrow>
         af_outcome b = kPreviewed \<and> af_writtenName b = name"
    using previewOne_eq [of host p "fst item" "snd item"] by metis
  have ab: "foretold b a" using a(2) b(4) Cons.prems by (simp add: foretold_def)
  show ?case
  proof (cases go)
    case True
    have "rs_used ?p = rs_used s'" "rs_destination ?p = rs_destination s'"
      using b(2,3) writeOne_sink [OF one] Cons.prems by (simp_all add: claimName_keeps)
    from Cons.IH [OF this] obtain as bs where
      "xt_artifacts (rs_result (writeOrdered host s' device rest)) = xt_artifacts (rs_result s') @ as"
      "xt_artifacts (rs_result (?run ?p rest)) = xt_artifacts (rs_result ?p) @ bs" "list_all2 foretold bs as" by blast
    then show ?thesis using a(1) b(1) ab one True by (intro exI [of _ "a # as"] exI [of _ "b # bs"]) simp
  next
    case False
    let ?as = "map (\<lambda>item. recordFor (fst item) kNotAttempted) rest"
    obtain bs where bs: "xt_artifacts (rs_result (?run ?p rest)) = xt_artifacts (rs_result ?p) @ bs" "length bs = length rest"
      using preview_prefix by blast
    then have "list_all2 foretold bs ?as" by (simp add: list_all2_conv_all_nth foretold_def)
    then show ?thesis using a(1) b(1) ab one False bs(1)
      by (intro exI [of _ "a # ?as"] exI [of _ "b # bs"]) (simp add: recordNotAttempted_simps)
  qed
qed simp

subsection \<open>Duplicates\<close>

lemma hex_digit_inj: "i < 16 \<Longrightarrow> j < 16 \<Longrightarrow> kHexDigits ! i = kHexDigits ! j \<Longrightarrow> i = j"
proof -
  have "distinct kHexDigits" "length kHexDigits = 16" by (simp_all add: kHexDigits_def)
  then show "i < 16 \<Longrightarrow> j < 16 \<Longrightarrow> kHexDigits ! i = kHexDigits ! j \<Longrightarrow> i = j"
    by (simp add: nth_eq_iff_index_eq)
qed

lemma toHex_inj: "toHex a = toHex b \<Longrightarrow> a = b"
proof (induction a arbitrary: b)
  case Nil
  then show ?case by (cases b) (simp_all add: toHex_def)
next
  case (Cons x a)
  then obtain y b' where b: "b = y # b'" by (cases b) (simp_all add: toHex_def)
  have eq: "kHexDigits ! (unat x div 16) = kHexDigits ! (unat y div 16)" "kHexDigits ! (unat x mod 16) = kHexDigits ! (unat y mod 16)"
      "toHex a = toHex b'"
    using Cons.prems b by (simp_all add: toHex_def)
  have "unat x div 16 < 16" "unat y div 16 < 16" using unat_byte_less [of x] unat_byte_less [of y] by linarith+
  then have "unat x div 16 = unat y div 16" using eq(1) hex_digit_inj by blast
  moreover have "unat x mod 16 = unat y mod 16" using eq(2) hex_digit_inj [of "unat x mod 16" "unat y mod 16"] by simp
  ultimately have "unat x = unat y" by (metis div_mult_mod_eq)
  then show ?case using eq(3) Cons.IH b by (simp add: word_unat_eq_iff)
qed

definition distinct_carves :: "ArtifactRecord list \<Rightarrow> bool" where
  "distinct_carves as \<longleftrightarrow>
     sorted_wrt (\<lambda>a b. af_outcome a = kWritten \<and> af_outcome b = kWritten \<and> af_source b = kCarve \<longrightarrow>
       af_contentHash a \<noteq> af_contentHash b) as"

definition digests_known :: "RecoverySink \<Rightarrow> bool" where
  "digests_known sink \<longleftrightarrow> distinct_carves (xt_artifacts (rs_result sink)) \<and>
     (\<forall>a \<in> set (xt_artifacts (rs_result sink)). af_outcome a = kWritten \<longrightarrow> af_contentHash a \<in> toHex ` rs_written sink)"

lemma digests_known_recordOutcome:
  assumes "digests_known sink"
  shows "digests_known (recordOutcome host sink winner written)"
proof (cases written)
  case (Inl e)
  then show ?thesis using assms
    by (auto simp: recordOutcome_def digests_known_def distinct_carves_def sorted_wrt_append)
next
  case (Inr f)
  have "digests_known (dropDuplicate host sink winner f)"
    using assms by (auto simp: dropDuplicate_def digests_known_def distinct_carves_def sorted_wrt_append)
  moreover have "digests_known (keep sink winner f)" if "\<not> isDuplicate sink winner f"
  proof -
    have fresh: "wf_content f \<notin> rs_written sink" if "cd_source winner = kCarve"
      using that \<open>\<not> isDuplicate sink winner f\<close> by (simp add: isDuplicate_def)
    then have "toHex (wf_content f) \<notin> toHex ` rs_written sink" if "cd_source winner = kCarve"
      using that toHex_inj by blast
    then show ?thesis using assms
      by (auto simp: keep_def digests_known_def distinct_carves_def sorted_wrt_append recordFor_def; metis)
  qed
  ultimately show ?thesis using Inr by (simp add: recordOutcome_def)
qed

lemma digests_known_writeOne:
  assumes "digests_known sink" and "writeOne host sink winner device ordinal = (sink', go)"
  shows "digests_known sink'"
proof -
  obtain mid written where mid: "sinkWrite host sink winner device ordinal = (mid, written)" by fastforce
  have "digests_known mid"
    using assms(1) sinkWrite_keeps [OF mid] by (simp add: digests_known_def claimName_keeps)
  then have "digests_known (recordOutcome host mid winner written)" by (rule digests_known_recordOutcome)
  then show ?thesis
    using assms(2) unfolding writeOne_eq [OF mid] by (auto simp: digests_known_def split: sum.splits if_splits)
qed

lemma digests_known_writeOrdered: "digests_known sink \<Longrightarrow> digests_known (writeOrdered host sink device items)"
proof (induction items arbitrary: sink)
  case (Cons item rest)
  obtain sink' go where one: "writeOne host sink (fst item) device (snd item) = (sink', go)" by fastforce
  have known: "digests_known sink'" using digests_known_writeOne [OF Cons.prems one] .
  show ?case
  proof (cases go)
    case True
    then show ?thesis using Cons.IH [OF known] one by simp
  next
    case False
    have "rs_written (recordNotAttempted sink' rest) = rs_written sink'"
      unfolding recordNotAttempted_def by (induction rest arbitrary: sink') simp_all
    then have "digests_known (recordNotAttempted sink' rest)"
      using known by (auto simp: digests_known_def recordNotAttempted_simps distinct_carves_def sorted_wrt_append sorted_wrt_map)
    then show ?thesis using one False by simp
  qed
qed simp

subsection \<open>Properties\<close>


definition openHost :: SinkHost where
  "openHost = \<lparr>sk_canon = (\<lambda>p. p), sk_opens = (\<lambda>_. True), sk_lands = (\<lambda>_ bs. bs), sk_good = (\<lambda>_ _. True),
     sk_available = (\<lambda>_. Some 1), sk_removes = (\<lambda>_. True)\<rparr>"

definition sampleWinner :: "string \<Rightarrow> bytes \<Rightarrow> Candidate" where
  "sampleWinner name content =
     \<lparr>cd_name = name, cd_extents = [], cd_residentContent = content,
      cd_timestamps = \<lparr>ts_created = 0, ts_modified = 0, ts_accessed = 0\<rparr>, cd_confidence = kValid, cd_source = kFilesystem\<rparr>"

definition sampleFragments :: Candidate where
  "sampleFragments = (sampleWinner ''a.txt'' [])\<lparr>cd_extents :=
     [\<lparr>deviceOffset = 1, lengthBytes = 2\<rparr>, \<lparr>deviceOffset = 0, lengthBytes = 1\<rparr>]\<rparr>"


lemma sanitize_sample:
  "sanitizeOutputPath (\<lambda>p. p) [''out''] ''a.txt'' = Inr [''out'', ''a.txt'']"
  "sanitizeOutputPath (\<lambda>p. p) [''out''] ''a.txt.'' = Inr [''out'', ''a.txt'']"
  by code_simp+

definition fullHost :: SinkHost where
  "fullHost = openHost\<lparr>sk_opens := (\<lambda>_. False), sk_available := (\<lambda>_. Some 0)\<rparr>"

lemma full_run:
  "sinkExtract fullHost (recoverySink [''out''] Map.empty) [sampleWinner ''a.txt'' [1], sampleWinner ''b.txt'' [2]] device =
     (Map.empty,
      \<lparr>xt_stats = \<lparr>st_filesWritten = 0, st_bytesWritten = 0, st_failed = 1, st_renamed = 0, st_deduplicated = 0, st_degraded = 0\<rparr>,
       xt_artifacts = [recordFor (sampleWinner ''a.txt'' [1]) kFailed, recordFor (sampleWinner ''b.txt'' [2]) kNotAttempted],
       xt_stoppedBy = Some (mkError kStorageExhausted 0)\<rparr>)"
  using sanitize_sample(1)
  by (simp add: sinkExtract_def writeEveryWinner_def orderedForWriting_def ofSource_def sampleWinner_def Let_def
      writeOne_def sinkWrite_def claimName_def outputNameFor_def disambiguate_def recoverySink_def fullHost_def openHost_def
      extractTo_def recordOutcome_def endsTheRun_def writeFailureAt_def recordNotAttempted_def addArtifact_def onStats_def wrap64_def)

text \<open>
  C18: An extraction run accounts for every winner: the artifact list has one record per winner, in
  writing order, each describing its winner; the counters are the numbers of records with each
  outcome and the byte total is that of the written ones; and if a winner was never attempted the
  run says what stopped it.
\<close>
theorem extraction_accounts_for_every_winner:
  "list_all2 describes (map fst (orderedForWriting winners))
     (xt_artifacts (snd (sinkExtract host (recoverySink dest files) winners device))) \<and>
   tallied (snd (sinkExtract host (recoverySink dest files) winners device)) \<and>
   (0 < outcomes kNotAttempted (xt_artifacts (snd (sinkExtract host (recoverySink dest files) winners device))) \<longrightarrow>
      xt_stoppedBy (snd (sinkExtract host (recoverySink dest files) winners device)) \<noteq> None)"
proof -
  have "tallied (rs_result (recoverySink dest files))"
    by (simp add: tallied_def recoverySink_def outcomes_def wrap64_def)
  then show ?thesis
    using writeOrdered_artifacts [of host "recoverySink dest files" device "orderedForWriting winners"]
    by (auto simp: sinkExtract_def writeEveryWinner_def Let_def recoverySink_def outcomes_def filter_empty_conv)
qed

theorem extraction_accounts_for_every_winner_witness:
  "xt_stoppedBy (snd (sinkExtract fullHost (recoverySink [''out''] Map.empty)
     [sampleWinner ''a.txt'' [1], sampleWinner ''b.txt'' [2]] (imageOf []))) \<noteq> None"
proof -
  let ?run = "sinkExtract fullHost (recoverySink [''out''] Map.empty)
     [sampleWinner ''a.txt'' [1], sampleWinner ''b.txt'' [2]] (imageOf [])"
  have "0 < outcomes kNotAttempted (xt_artifacts (snd ?run))" by (simp add: full_run outcomes_def)
  then show ?thesis using extraction_accounts_for_every_winner by blast
qed

text \<open>
  C8: Nothing outside the destination is ever created, changed or removed: every path whose content
  differs after a run lies under the destination as given and, resolved by the host, under the
  resolved destination, and every segment below the destination is safe.
\<close>
theorem extraction_stays_inside_destination:
  assumes "fst (sinkExtract host (recoverySink dest files) winners device) p \<noteq> files p"
  shows "prefix (sk_canon host dest) (sk_canon host p) \<and>
    (\<exists>segs. p = lexically_normal dest @ segs \<and> segs \<noteq> [] \<and> list_all safe_segment segs)"
proof -
  have "rs_files (writeOrdered host (recoverySink dest files) device (orderedForWriting winners)) p \<noteq>
      rs_files (recoverySink dest files) p"
    using assms by (simp add: sinkExtract_def writeEveryWinner_def Let_def recoverySink_def)
  then obtain name where "sanitizeOutputPath (sk_canon host) dest name = Inr p"
    using writeOrdered_files by (fastforce simp: recoverySink_def)
  then show ?thesis by (rule sanitize_Inr) blast
qed

lemma one_file_run:
  "fst (sinkExtract openHost (recoverySink [''out''] Map.empty) [sampleWinner ''a.txt'' [1]] device) = [[''out'', ''a.txt''] \<mapsto> [1]]"
  using sanitize_sample(1)
  by (simp add: sinkExtract_def writeEveryWinner_def orderedForWriting_def ofSource_def sampleWinner_def Let_def
      writeOne_def sinkWrite_def claimName_def outputNameFor_def disambiguate_def recoverySink_def openHost_def
      extractTo_def writeContent_def copyInto_def outputPut_def flushed_def recordOutcome_def isDuplicate_def keep_def
      addArtifact_def onStats_def)

theorem extraction_stays_inside_destination_witness:
  "prefix [''out''] [''out'', ''a.txt''] \<and>
   (\<exists>segs. [''out'', ''a.txt''] = lexically_normal [''out''] @ segs \<and> segs \<noteq> [] \<and> list_all safe_segment segs)"
proof -
  have "fst (sinkExtract openHost (recoverySink [''out''] Map.empty) [sampleWinner ''a.txt'' [1]] (imageOf [])) [''out'', ''a.txt'']
      \<noteq> Map.empty [''out'', ''a.txt'']" by (simp add: one_file_run)
  from extraction_stays_inside_destination [OF this] show ?thesis by (simp add: openHost_def)
qed


text \<open>
  No carved artifact is kept if a file with the same digest is already written, so that a carved
  copy of a named recovery never appears beside it.
\<close>
theorem kept_carves_are_distinct:
  "distinct_carves (xt_artifacts (snd (sinkExtract host (recoverySink dest files) winners device)))"
proof -
  have "digests_known (recoverySink dest files)"
    by (simp add: digests_known_def distinct_carves_def recoverySink_def)
  then have "digests_known (writeOrdered host (recoverySink dest files) device (orderedForWriting winners))"
    by (rule digests_known_writeOrdered)
  then show ?thesis by (simp add: digests_known_def sinkExtract_def writeEveryWinner_def Let_def)
qed

subsection \<open>Two losses the run does not report\<close>

text \<open>
  Names are claimed as proposed but written as sanitised, so two names that sanitise alike share a
  file: both are recorded as written, and only the second one's bytes are there.
\<close>

lemma sanitised_collision_overwrites:
  assumes "run = sinkExtract openHost (recoverySink [''out''] Map.empty)
    [sampleWinner ''a.txt'' [1], sampleWinner ''a.txt.'' [2]] device"
  shows "fst run = [[''out'', ''a.txt''] \<mapsto> [2]] \<and> st_filesWritten (xt_stats (snd run)) = 2 \<and>
    st_renamed (xt_stats (snd run)) = 0"
  using sanitize_sample unfolding assms
  by (simp add: sinkExtract_def writeEveryWinner_def orderedForWriting_def ofSource_def sampleWinner_def Let_def
      writeOne_def sinkWrite_def claimName_def outputNameFor_def disambiguate_def recoverySink_def openHost_def
      extractTo_def writeContent_def copyInto_def outputPut_def flushed_def recordOutcome_def isDuplicate_def keep_def
      addArtifact_def onStats_def wrap64_def)

text \<open>A failed extraction leaves the bytes it had already copied in the target.\<close>

lemma failed_extraction_leaves_partial_file:
  assumes "device = imageOf [1, 2, 3]"
    and "winner = (sampleWinner ''a.txt'' [])\<lparr>cd_extents :=
      [\<lparr>deviceOffset = 0, lengthBytes = 2\<rparr>, \<lparr>deviceOffset = 2, lengthBytes = 4\<rparr>]\<rparr>"
  shows "extractTo openHost Map.empty [''a''] winner device = ([[''a''] \<mapsto> [1, 2]], Inl (mkError kOutOfRange 2))"
proof -
  have src: "serves device [1, 2, 3]" unfolding assms(1) by (rule imageOf_serves) (simp add: max64_def)
  have reads: "bd_readAt device 0 2 = Inr [1, 2]" "bd_readAt device 2 4 = Inr [3]"
    using src by (simp_all add: serves_def max64_def)
  have first: "advanceExtent out device \<lparr>deviceOffset = 0, lengthBytes = 2\<rparr> 0 = (outputPut out [1, 2], Inr 2)" for out
    by (subst advanceExtent.simps, subst advanceExtent.simps)
       (simp add: copyChunk_def reads kExtractChunkBytes_def wrap64_def Let_def)
  have second: "advanceExtent out device \<lparr>deviceOffset = 2, lengthBytes = 4\<rparr> 0 = (out, Inl (mkError kOutOfRange 2))" for out
    by (subst advanceExtent.simps) (simp add: copyChunk_def reads kExtractChunkBytes_def wrap64_def Let_def)
  show ?thesis
    by (simp add: assms(2) extractTo_def writeContent_def copyInto_def copyExtents_def first second sampleWinner_def
        plusExtent_def openHost_def outputPut_def)
qed

end
