(* ===== verification/Pipeline.thy ===== *)
theory Pipeline
  imports Accounting PartitionTables CandidateFiles Sink
begin

text \<open>
  \<open>src/recovery/RunScope.cpp\<close>, \<open>VolumeWalk.cpp\<close>, \<open>PartitionedWalk.cpp\<close>,
  \<open>HybridRecovery.cpp\<close>, \<open>IndexingVisitors.cpp\<close> and \<open>Damage.cpp\<close>: the sequencing of one
  recovery run. Mounting a volume is the parameter \<open>volume\<close> (\<open>fs::mountVolume\<close>); a mounted
  \<open>FileSystem\<close> is what its virtual \<open>enumerate\<close> gives: the entries the visitor is called with
  and the outcome; scanning one region is the parameter
  \<open>scan\<close>, which gives the candidates the visitor is called with and the outcome; \<open>goOn\<close> is
  the progress reporter's answer. A visitor is the list of what it has been called with.
\<close>

record EnumerationStats =
  es_recordsScanned :: u64
  es_entriesReported :: u64
  es_nonConformingVolume :: bool

record CarveResult =
  cv_length :: u64
  cv_confidence :: Confidence
  cv_extension :: string

record ScanCandidate =
  sn_offset :: u64
  sn_result :: CarveResult

record FileSystem =
  fy_enumerate :: "RecoveredEntry list \<times> EnumerationStats result"

type_synonym mount = "BlockDevice \<Rightarrow> FileSystem result"

type_synonym region_scan = "BlockDevice \<Rightarrow> ScanRegion \<Rightarrow> ScanCandidate list \<times> u64 result"

subsection \<open>Where a run works\<close>

record RunScope =
  sc_device :: BlockDevice
  sc_layout :: "Partition list"
  sc_startBytes :: u64

definition kWholeSource :: u32 where "kWholeSource = 0"

fun entryNumberedIn :: "Partition list \<Rightarrow> u32 \<Rightarrow> Partition result" where
  "entryNumberedIn [] number = Inl (mkError kNotFound 0)"
| "entryNumberedIn (one # rest) number = (if pt_number one = number then Inr one else entryNumberedIn rest number)"

definition entryNumbered :: "PartitionTable \<Rightarrow> u32 \<Rightarrow> Partition result" where
  "entryNumbered table number = entryNumberedIn (tb_partitions table) number"

definition layoutOf :: "PartitionTable result \<Rightarrow> Partition list" where
  "layoutOf table = (case table of Inl _ \<Rightarrow> [] | Inr t \<Rightarrow> tb_partitions t)"

definition windowOnto :: "BlockDevice \<Rightarrow> Partition \<Rightarrow> RunScope" where
  "windowOnto source part =
     \<lparr>sc_device = partitionView source (pt_startBytes part) (pt_lengthBytes part), sc_layout = [],
      sc_startBytes = pt_startBytes part\<rparr>"

definition resolveScope :: "BlockDevice \<Rightarrow> u32 \<Rightarrow> RunScope result" where
  "resolveScope source number =
     (let table = readPartitionTable source
      in if number = kWholeSource
         then Inr \<lparr>sc_device = source, sc_layout = layoutOf table, sc_startBytes = 0\<rparr>
         else andThen table (\<lambda>t. mapResult (entryNumbered t number) (windowOnto source)))"

subsection \<open>Walking the volumes of a disk\<close>

definition enumerateVolume :: "mount \<Rightarrow> BlockDevice \<Rightarrow> RecoveredEntry list \<times> EnumerationStats result" where
  "enumerateVolume mountVolume device =
     (case mountVolume device of Inl e \<Rightarrow> ([], Inl e) | Inr mounted \<Rightarrow> fy_enumerate mounted)"

definition partitionPrefix :: "Partition \<Rightarrow> string" where
  "partitionPrefix part = ''partition-'' @ dec (pt_number part) @ ''/''"

definition movedExtent :: "u64 \<Rightarrow> Extent \<Rightarrow> Extent" where
  "movedExtent start extent = extent\<lparr>deviceOffset := saturatingAdd64 (deviceOffset extent) start\<rparr>"

definition placedEntry :: "Partition \<Rightarrow> RecoveredEntry \<Rightarrow> RecoveredEntry" where
  "placedEntry part entry =
     entry\<lparr>re_path := partitionPrefix part @ re_path entry,
           re_extents := map (movedExtent (pt_startBytes part)) (re_extents entry)\<rparr>"

definition plusStats :: "EnumerationStats \<Rightarrow> EnumerationStats \<Rightarrow> EnumerationStats" where
  "plusStats sofar one =
     \<lparr>es_recordsScanned = wrap64 (es_recordsScanned sofar + es_recordsScanned one),
      es_entriesReported = wrap64 (es_entriesReported sofar + es_entriesReported one),
      es_nonConformingVolume = (es_nonConformingVolume sofar \<or> es_nonConformingVolume one)\<rparr>"

definition walkOne ::
  "mount \<Rightarrow> BlockDevice \<Rightarrow> RecoveredEntry list \<times> EnumerationStats \<Rightarrow> Partition \<Rightarrow>
   RecoveredEntry list \<times> EnumerationStats" where
  "walkOne volume device sofar part =
     (let view = partitionView device (pt_startBytes part) (pt_lengthBytes part);
          (entries, walked) = enumerateVolume volume view
      in (fst sofar @ map (placedEntry part) entries,
          case walked of Inl _ \<Rightarrow> snd sofar | Inr stats \<Rightarrow> plusStats (snd sofar) stats))"

definition enumerateDisk ::
  "mount \<Rightarrow> BlockDevice \<Rightarrow> Partition list \<Rightarrow> RecoveredEntry list \<times> EnumerationStats" where
  "enumerateDisk volume device parts =
     foldl (walkOne volume device)
       ([], \<lparr>es_recordsScanned = 0, es_entriesReported = 0, es_nonConformingVolume = False\<rparr>) parts"

subsection \<open>The hybrid run\<close>

datatype RecoveryMode = kFilesystemOnly | kHybrid | kCarveOnly

definition kDefaultCheckpointBytes :: u64 where "kDefaultCheckpointBytes = 2 ^ 26"

record RecoveryPlan =
  rp_mode :: RecoveryMode
  rp_resumeFrom :: "u64 option"
  rp_checkpointBytes :: u64

record RecoveryStats =
  rt_entriesReported :: u64
  rt_candidatesReported :: u64
  rt_accountedBytes :: u64
  rt_regionsScanned :: u64
  rt_regionsDropped :: u64
  rt_filesystemMounted :: bool
  rt_nonConformingVolume :: bool
  rt_scanComplete :: bool
  rt_scannedUpTo :: u64

record FilesystemPass =
  fp_accounting :: ByteAccounting
  fp_entries :: u64
  fp_mounted :: bool
  fp_nonConforming :: bool

record ScanTotals =
  sl_candidates :: u64
  sl_regions :: u64
  sl_complete :: bool
  sl_scannedUpTo :: u64

definition freshRun :: "RecoveryMode \<Rightarrow> RecoveryPlan" where
  "freshRun mode = \<lparr>rp_mode = mode, rp_resumeFrom = None, rp_checkpointBytes = kDefaultCheckpointBytes\<rparr>"

definition emptyPass :: FilesystemPass where
  "emptyPass = \<lparr>fp_accounting = emptyAccounting, fp_entries = 0, fp_mounted = False, fp_nonConforming = False\<rparr>"

definition walkLayout :: "mount \<Rightarrow> RunScope \<Rightarrow> RecoveredEntry list \<times> EnumerationStats result" where
  "walkLayout volume scope =
     (if sc_layout scope = [] then enumerateVolume volume (sc_device scope)
      else let (entries, stats) = enumerateDisk volume (sc_device scope) (sc_layout scope) in (entries, Inr stats))"

definition mountFailure :: "RecoveryPlan \<Rightarrow> Error \<Rightarrow> FilesystemPass result" where
  "mountFailure plan failure =
     (if rp_mode plan = kFilesystemOnly \<or> err_code failure = kSourceLost then Inl failure else Inr emptyPass)"

definition walkScope :: "mount \<Rightarrow> RecoveryPlan \<Rightarrow> RunScope \<Rightarrow> RecoveredEntry list \<times> FilesystemPass result" where
  "walkScope volume plan scope =
     (let (entries, walked) = walkLayout volume scope
      in (entries, case walked of
            Inl e \<Rightarrow> mountFailure plan e
          | Inr stats \<Rightarrow> Inr \<lparr>fp_accounting = foldl account emptyAccounting entries,
                             fp_entries = wrap64 (length entries), fp_mounted = True,
                             fp_nonConforming = es_nonConformingVolume stats\<rparr>))"

definition runFilesystemPass ::
  "mount \<Rightarrow> RecoveryPlan \<Rightarrow> RunScope \<Rightarrow> RecoveredEntry list \<times> FilesystemPass result" where
  "runFilesystemPass volume plan scope =
     (if rp_mode plan = kCarveOnly then ([], Inr emptyPass)
      else if rp_resumeFrom plan \<noteq> None then ([], snd (walkScope volume plan scope))
      else walkScope volume plan scope)"

definition carveRegions :: "RecoveryPlan \<Rightarrow> FilesystemPass \<Rightarrow> u64 \<Rightarrow> ScanRegion list option" where
  "carveRegions plan pass deviceSize =
     (if rp_mode plan = kFilesystemOnly then Some []
      else chunked (regionsFrom (accountingGaps (fp_accounting pass) deviceSize)
                      (case rp_resumeFrom plan of None \<Rightarrow> 0 | Some cursor \<Rightarrow> cursor))
             (rp_checkpointBytes plan))"

definition scanNextRegion ::
  "region_scan \<Rightarrow> BlockDevice \<Rightarrow> ScanRegion \<Rightarrow> ScanTotals \<Rightarrow> ScanCandidate list \<times> ScanTotals result" where
  "scanNextRegion scan device region totals =
     (let (found, stats) = scan device region
      in (found, mapResult stats
            (\<lambda>cnt. \<lparr>sl_candidates = wrap64 (sl_candidates totals + cnt), sl_regions = wrap64 (sl_regions totals + 1),
                    sl_complete = True, sl_scannedUpTo = wrap64 (sr_offset region + sr_length region)\<rparr>)))"

fun scanRegionsFrom ::
  "region_scan \<Rightarrow> (u64 \<Rightarrow> bool) \<Rightarrow> BlockDevice \<Rightarrow> ScanRegion list \<Rightarrow> ScanTotals \<Rightarrow>
   ScanCandidate list \<times> ScanTotals result" where
  "scanRegionsFrom scan goOn device [] totals = ([], Inr totals)"
| "scanRegionsFrom scan goOn device (region # regions) totals =
     (case scanNextRegion scan device region totals of
        (found, Inl e) \<Rightarrow> (found, Inl e)
      | (found, Inr totals') \<Rightarrow>
          if \<not> goOn (wrap64 (sr_offset region + sr_length region)) then (found, Inr totals')
          else let (more', final) = scanRegionsFrom scan goOn device regions totals' in (found @ more', final))"

definition stoppedShort :: "ScanTotals result \<Rightarrow> size_t \<Rightarrow> ScanTotals result" where
  "stoppedShort totals regions = mapResult totals (\<lambda>t. t\<lparr>sl_complete := (sl_regions t = regions)\<rparr>)"

definition scanRegions ::
  "region_scan \<Rightarrow> (u64 \<Rightarrow> bool) \<Rightarrow> BlockDevice \<Rightarrow> ScanRegion list \<Rightarrow> ScanCandidate list \<times> ScanTotals result" where
  "scanRegions scan goOn device regions =
     (let (found, totals) = scanRegionsFrom scan goOn device regions
            \<lparr>sl_candidates = 0, sl_regions = 0, sl_complete = True, sl_scannedUpTo = 0\<rparr>
      in (found, stoppedShort totals (length regions)))"

definition statsOf :: "FilesystemPass \<Rightarrow> ScanTotals \<Rightarrow> RecoveryStats" where
  "statsOf pass totals =
     \<lparr>rt_entriesReported = fp_entries pass, rt_candidatesReported = sl_candidates totals,
      rt_accountedBytes = accountedBytes (fp_accounting pass), rt_regionsScanned = sl_regions totals,
      rt_regionsDropped = droppedRegions (fp_accounting pass), rt_filesystemMounted = fp_mounted pass,
      rt_nonConformingVolume = fp_nonConforming pass, rt_scanComplete = sl_complete totals,
      rt_scannedUpTo = sl_scannedUpTo totals\<rparr>"

record RunReport =
  rr_entries :: "RecoveredEntry list"
  rr_candidates :: "ScanCandidate list"
  rr_stats :: "RecoveryStats result"

text \<open>
  A run whose chunk size is zero never gets past \<open>chunked\<close>, so the run itself may not return;
  then its value is \<^term>\<open>None\<close>.
\<close>

definition hybridRun ::
  "mount \<Rightarrow> region_scan \<Rightarrow> (u64 \<Rightarrow> bool) \<Rightarrow> RecoveryPlan \<Rightarrow> RunScope \<Rightarrow> RunReport option" where
  "hybridRun volume scan goOn plan scope =
     (case runFilesystemPass volume plan scope of
        (entries, Inl e) \<Rightarrow> Some \<lparr>rr_entries = entries, rr_candidates = [], rr_stats = Inl e\<rparr>
      | (entries, Inr pass) \<Rightarrow>
          map_option (\<lambda>regions. case scanRegions scan goOn (sc_device scope) regions of
              (found, totals) \<Rightarrow> \<lparr>rr_entries = entries, rr_candidates = found, rr_stats = mapResult totals (statsOf pass)\<rparr>)
            (carveRegions plan pass (bd_size (sc_device scope))))"

subsection \<open>Into the index\<close>

definition candidateOfEntry :: "RecoveredEntry \<Rightarrow> Candidate" where
  "candidateOfEntry entry =
     \<lparr>cd_name = re_path entry, cd_extents = re_extents entry, cd_residentContent = re_residentContent entry,
      cd_timestamps = re_timestamps entry, cd_confidence = re_recoverability entry, cd_source = kFilesystem\<rparr>"

definition candidateOfScan :: "ScanCandidate \<Rightarrow> Candidate" where
  "candidateOfScan found =
     \<lparr>cd_name = cv_extension (sn_result found),
      cd_extents = [\<lparr>deviceOffset = sn_offset found, lengthBytes = cv_length (sn_result found)\<rparr>],
      cd_residentContent = [], cd_timestamps = \<lparr>ts_created = 0, ts_modified = 0, ts_accessed = 0\<rparr>,
      cd_confidence = cv_confidence (sn_result found), cd_source = kCarve\<rparr>"

record IndexingVisitor =
  iv_index :: CandidateIndex
  iv_failed :: u64

definition appendCounting :: "IndexHost \<Rightarrow> IndexingVisitor \<Rightarrow> Candidate \<Rightarrow> IndexingVisitor" where
  "appendCounting host visitor candidate =
     (let (index, appended) = writeEntry host (iv_index visitor) candidate
      in \<lparr>iv_index = index, iv_failed = wrap64 (iv_failed visitor + (if hasValue appended then 0 else 1))\<rparr>)"

definition onIndexEntry :: "IndexHost \<Rightarrow> IndexingVisitor \<Rightarrow> RecoveredEntry \<Rightarrow> IndexingVisitor" where
  "onIndexEntry host visitor entry = appendCounting host visitor (candidateOfEntry entry)"

definition onIndexCandidate :: "IndexHost \<Rightarrow> IndexingVisitor \<Rightarrow> ScanCandidate \<Rightarrow> IndexingVisitor" where
  "onIndexCandidate host visitor candidate =
     (if cv_confidence (sn_result candidate) = kRejected then visitor
      else appendCounting host visitor (candidateOfScan candidate))"

subsection \<open>Damage\<close>

definition placedOn :: "Extent \<Rightarrow> u64 \<Rightarrow> u64 \<times> u64" where
  "placedOn extent startBytes =
     (let begin' = saturatingAdd64 startBytes (deviceOffset extent)
      in (begin', saturatingAdd64 begin' (lengthBytes extent)))"

definition spanOf :: "BadRange \<Rightarrow> u64 \<times> u64" where
  "spanOf hole = (br_offsetBytes hole, saturatingAdd64 (br_offsetBytes hole) (br_lengthBytes hole))"

definition overlap :: "u64 \<times> u64 \<Rightarrow> u64 \<times> u64 \<Rightarrow> BadRange option" where
  "overlap extent damage =
     (let begin' = max (fst extent) (fst damage); end' = min (snd extent) (snd damage)
      in if begin' \<ge> end' then None else Some \<lparr>br_offsetBytes = begin', br_lengthBytes = end' - begin'\<rparr>)"

definition overlapsIn :: "u64 \<times> u64 \<Rightarrow> BadRange list \<Rightarrow> BadRange list" where
  "overlapsIn extent damage =
     foldl (\<lambda>found hole. case overlap extent (spanOf hole) of None \<Rightarrow> found | Some shared \<Rightarrow> found @ [shared]) [] damage"

definition inventedIn :: "Extent list \<Rightarrow> BadRange list \<Rightarrow> u64 \<Rightarrow> BadRange list" where
  "inventedIn extents damage startBytes =
     foldl (\<lambda>found extent. found @ overlapsIn (placedOn extent startBytes) damage) [] extents"

subsection \<open>The chunks of a scan are in order\<close>

abbreviation sr_before :: "ScanRegion \<Rightarrow> ScanRegion \<Rightarrow> bool" where
  "sr_before g h \<equiv> sr_offset g + sr_length g \<le> sr_offset h"

lemma regionsFrom_sorted:
  assumes "list_all scan_ok rs" and "sorted_wrt sr_before rs"
  shows "sorted_wrt sr_before (regionsFrom rs cursor) \<and>
    (\<forall>g \<in> set (regionsFrom rs cursor). \<exists>r \<in> set rs. sr_offset r \<le> sr_offset g \<and> sr_offset g + sr_length g = sr_offset r + sr_length r)"
  using assms
proof (induction rs)
  case (Cons r rs)
  then have IH: "sorted_wrt sr_before (regionsFrom rs cursor)"
      "\<And>g. g \<in> set (regionsFrom rs cursor) \<Longrightarrow>
         \<exists>r \<in> set rs. sr_offset r \<le> sr_offset g \<and> sr_offset g + sr_length g = sr_offset r + sr_length r" by auto
  have tail: "sr_offset r \<le> sr_offset (tailOf r cursor)"
      "sr_offset (tailOf r cursor) + sr_length (tailOf r cursor) = sr_offset r + sr_length r" if "srEnd r > cursor"
    using that Cons.prems(1) by (auto simp: tailOf_def Let_def wrap_sub64_def)
  have "sr_before (tailOf r cursor) g" if "srEnd r > cursor" "g \<in> set (regionsFrom rs cursor)" for g
    using tail [OF that(1)] IH(2) [OF that(2)] Cons.prems(2) by fastforce
  then show ?case using IH tail by auto
qed simp

lemma chunkedOnto_sorted:
  assumes "0 < chunkBytes"
  shows "list_all scan_ok rs \<Longrightarrow> sorted_wrt sr_before rs \<Longrightarrow>
    \<exists>new. chunkedOnto rs chunkBytes chunks = Some (chunks @ new) \<and> sorted_wrt sr_before new \<and>
      (\<forall>c \<in> set new. \<exists>r \<in> set rs. sr_offset r \<le> sr_offset c \<and> sr_offset c + sr_length c \<le> sr_offset r + sr_length r)"
proof (induction rs arbitrary: chunks)
  case (Cons r rs)
  have r: "scan_ok r" "srEnd r = sr_offset r + sr_length r" using Cons.prems by simp_all
  obtain first where first: "appendChunks r chunkBytes (sr_offset r) chunks = Some (chunks @ first)"
    "\<forall>c \<in> set first. sr_offset r \<le> sr_offset c \<and> sr_offset c + sr_length c \<le> srEnd r" "sorted_wrt sr_before first"
    using appendChunks_spec [OF assms r(1), of "sr_offset r" chunks] by blast
  obtain rest where rest: "chunkedOnto rs chunkBytes (chunks @ first) = Some ((chunks @ first) @ rest)" "sorted_wrt sr_before rest"
    "\<forall>c \<in> set rest. \<exists>r \<in> set rs. sr_offset r \<le> sr_offset c \<and> sr_offset c + sr_length c \<le> sr_offset r + sr_length r"
    using Cons.IH [of "chunks @ first"] Cons.prems by auto
  have "sr_before c d" if "c \<in> set first" "d \<in> set rest" for c d
    using that first(2) rest(3) Cons.prems(2) r(2) by fastforce
  then have "sorted_wrt sr_before (first @ rest)" using first(3) rest(2) by (simp add: sorted_wrt_append)
  then show ?case using first rest r(2) by (intro exI [of _ "first @ rest"]) fastforce
qed simp

lemma sorted_regions_length:
  assumes "sorted_wrt sr_before cs" and "\<forall>c \<in> set cs. 0 < sr_length c \<and> sr_offset c + sr_length c \<le> m"
  shows "length cs \<le> m"
proof -
  have "cs \<noteq> [] \<longrightarrow> length cs \<le> sr_offset (last cs) + sr_length (last cs)"
    using assms
  proof (induction cs rule: rev_induct)
    case (snoc c cs)
    show ?case
    proof (cases "cs = []")
      case False
      then have "length cs \<le> sr_offset (last cs) + sr_length (last cs)" "sr_before (last cs) c"
        using snoc by (auto simp: sorted_wrt_append)
      then show ?thesis using snoc.prems(2) by fastforce
    qed (use snoc.prems(2) in fastforce)
  qed simp
  then show ?thesis using assms(2) last_in_set by (cases "cs = []") fastforce+
qed

definition gap_regions :: "RecoveryPlan \<Rightarrow> ByteAccounting \<Rightarrow> nat \<Rightarrow> nat \<Rightarrow> ScanRegion list \<Rightarrow> bool" where
  "gap_regions plan acc ds cursor regions \<longleftrightarrow>
     chunked (regionsFrom (accountingGaps acc ds) cursor) (rp_checkpointBytes plan) = Some regions \<and>
     scanBytes regions = ({..<ds} - regionBytes (ba_claimed acc)) \<inter> {cursor..} \<and>
     sorted_wrt sr_before regions \<and> length regions \<le> max64 \<and>
     (\<forall>c \<in> set regions. 0 < sr_length c \<and> sr_offset c + sr_length c \<le> max64)"

lemma gap_regions_exist:
  assumes "regions_ok (ba_claimed acc)" and "ds \<le> max64" and "0 < rp_checkpointBytes plan"
  shows "\<exists>regions. gap_regions plan acc ds cursor regions"
proof -
  let ?gaps = "accountingGaps acc ds"
  have gaps: "scanBytes ?gaps = {..<ds} - regionBytes (ba_claimed acc)" "\<forall>g \<in> set ?gaps. 0 < sr_length g"
      "sorted_wrt (\<lambda>g h. sr_offset g + sr_length g < sr_offset h) ?gaps"
    using regionGaps_spec [OF assms(1,2)] by (auto simp: accountingGaps_def gaps_between_def)
  have ok: "list_all scan_ok ?gaps"
  proof -
    have "sr_offset g + sr_length g \<le> ds" if "g \<in> set ?gaps" for g
    proof -
      have "sr_offset g + sr_length g - 1 \<in> scanBytes ?gaps"
        using that gaps(2) by (auto simp: scanBytes_def intro!: bexI [of _ g])
      then show ?thesis using gaps(1,2) that by fastforce
    qed
    then show ?thesis using assms(2) by (fastforce simp: list_all_iff scan_ok_def)
  qed
  have sorted: "sorted_wrt sr_before ?gaps"
    using gaps(3) by (rule sorted_wrt_mono_rel [rotated]) simp
  note from' = regionsFrom_spec [OF ok, of cursor] regionsFrom_sorted [OF ok sorted, of cursor]
  obtain regions where regions: "chunkedOnto (regionsFrom ?gaps cursor) (rp_checkpointBytes plan) [] = Some regions"
      "scanBytes regions = scanBytes (regionsFrom ?gaps cursor)"
      "\<forall>c \<in> set regions. 0 < sr_length c \<and> sr_length c \<le> rp_checkpointBytes plan \<and> scan_ok c"
    using chunkedOnto_spec [OF assms(3), of "regionsFrom ?gaps cursor" "[]"] from' by auto
  have "sorted_wrt sr_before regions"
    using chunkedOnto_sorted [OF assms(3), of "regionsFrom ?gaps cursor" "[]"] from' regions(1) by auto
  moreover from this have "length regions \<le> max64"
    using regions(3) by (intro sorted_regions_length) (auto simp: scan_ok_def)
  ultimately have "gap_regions plan acc ds cursor regions"
    using regions from' gaps(1) by (auto simp: gap_regions_def chunked_def scan_ok_def)
  then show ?thesis by blast
qed

subsection \<open>The scan\<close>

definition region_end :: "ScanRegion \<Rightarrow> nat" where "region_end r = sr_offset r + sr_length r"

definition scan_works :: "region_scan \<Rightarrow> BlockDevice \<Rightarrow> bool" where
  "scan_works scan device \<longleftrightarrow> (\<forall>region. region_end region \<le> bd_size device \<longrightarrow> hasValue (snd (scan device region)))"

definition found_in :: "region_scan \<Rightarrow> BlockDevice \<Rightarrow> ScanRegion list \<Rightarrow> ScanCandidate list" where
  "found_in scan device regions = concat (map (\<lambda>r. fst (scan device r)) regions)"

lemma scanRegionsFrom_spec:
  assumes "scan_works scan device" and "\<forall>r \<in> set regions. region_end r \<le> max64 \<and> region_end r \<le> bd_size device" and "sl_regions totals \<le> max64"
  shows "\<exists>k totals'. scanRegionsFrom scan goOn device regions totals = (found_in scan device (take k regions), Inr totals') \<and>
    k \<le> length regions \<and> (k = length regions \<or> 0 < k) \<and> ((\<forall>c. goOn c) \<longrightarrow> k = length regions) \<and>
    sl_regions totals' = wrap64 (sl_regions totals + k) \<and>
    sl_scannedUpTo totals' = (if k = 0 then sl_scannedUpTo totals else region_end (regions ! (k - 1)))"
  using assms(2,3)
proof (induction regions arbitrary: totals)
  case Nil
  then show ?case by (intro exI [of _ 0]) (simp add: found_in_def)
next
  case (Cons r regions)
  obtain found n where scan: "scan device r = (found, Inr n)"
    using assms(1) Cons.prems by (cases "scan device r") (auto simp: scan_works_def hasValue_iff dest: spec [of _ r])
  obtain t1 where one: "scanNextRegion scan device r totals = (found, Inr t1)"
      "sl_regions t1 = wrap64 (sl_regions totals + 1)" "sl_scannedUpTo t1 = region_end r"
    using Cons.prems scan by (auto simp: scanNextRegion_def region_end_def)
  have endr: "wrap64 (sr_offset r + sr_length r) = region_end r" using Cons.prems by (simp add: region_end_def)
  show ?case
  proof (cases "goOn (region_end r)")
    case False
    then show ?thesis using one endr scan by (intro exI [of _ 1] exI [of _ t1]) (auto simp: found_in_def)
  next
    case True
    obtain k t2 where rest: "scanRegionsFrom scan goOn device regions t1 = (found_in scan device (take k regions), Inr t2)"
        "k \<le> length regions" "k = length regions \<or> 0 < k" "(\<forall>c. goOn c) \<longrightarrow> k = length regions"
        "sl_regions t2 = wrap64 (sl_regions t1 + k)"
        "sl_scannedUpTo t2 = (if k = 0 then sl_scannedUpTo t1 else region_end (regions ! (k - 1)))"
    proof -
      have "sl_regions t1 \<le> max64" using one(2) by (simp add: wrap64_less)
      then show ?thesis using Cons.IH [of t1] Cons.prems that by auto
    qed
    have "sl_regions t2 = wrap64 (sl_regions totals + Suc k)" using rest(5) one(2) by (simp add: wrap64_add)
    moreover have "sl_scannedUpTo t2 = region_end ((r # regions) ! k)" using rest(6) one(3) by (cases k) simp_all
    ultimately show ?thesis using True one(1) rest(1-4) endr scan
      by (intro exI [of _ "Suc k"] exI [of _ t2]) (auto simp: found_in_def)
  qed
qed

lemma scanRegions_spec:
  assumes "scan_works scan device" and "\<forall>r \<in> set regions. region_end r \<le> max64 \<and> region_end r \<le> bd_size device" and "length regions \<le> max64"
  shows "\<exists>k totals'. scanRegions scan goOn device regions = (found_in scan device (take k regions), Inr totals') \<and>
    k \<le> length regions \<and> (k = length regions \<or> 0 < k) \<and> ((\<forall>c. goOn c) \<longrightarrow> k = length regions) \<and>
    (sl_complete totals' \<longleftrightarrow> k = length regions) \<and>
    sl_scannedUpTo totals' = (if k = 0 then 0 else region_end (regions ! (k - 1)))"
proof -
  define init where "init = \<lparr>sl_candidates = 0, sl_regions = 0, sl_complete = True, sl_scannedUpTo = 0\<rparr>"
  have init: "sl_regions init = 0" "sl_scannedUpTo init = 0" by (simp_all add: init_def)
  then obtain k t where k: "scanRegionsFrom scan goOn device regions init = (found_in scan device (take k regions), Inr t)"
      "k \<le> length regions" "k = length regions \<or> 0 < k" "(\<forall>c. goOn c) \<longrightarrow> k = length regions"
      "sl_regions t = wrap64 (sl_regions init + k)"
      "sl_scannedUpTo t = (if k = 0 then sl_scannedUpTo init else region_end (regions ! (k - 1)))"
    using scanRegionsFrom_spec [OF assms(1,2), of init goOn] by auto
  have "sl_regions t = k" using k(2,5) init assms(3) by simp
  then show ?thesis using k init
    by (intro exI [of _ k] exI [of _ "t\<lparr>sl_complete := (sl_regions t = length regions)\<rparr>"])
       (simp add: scanRegions_def stoppedShort_def flip: init_def)
qed

lemma scanBytes_append [simp]: "scanBytes (xs @ ys) = scanBytes xs \<union> scanBytes ys"
  by (simp add: scanBytes_def)

lemma scanBytes_take_drop: "scanBytes regions = scanBytes (take k regions) \<union> scanBytes (drop k regions)"
  by (simp flip: scanBytes_append)

lemma sorted_split:
  assumes "sorted_wrt sr_before regions" and "0 < k" and "k \<le> length regions"
  shows "scanBytes (take k regions) \<subseteq> {..<region_end (regions ! (k - 1))}"
    and "scanBytes (drop k regions) \<subseteq> {region_end (regions ! (k - 1))..}"
proof -
  define last where "last = regions ! (k - 1)"
  have "take k regions = take (k - 1) regions @ [last]"
    using assms(2,3) take_Suc_conv_app_nth [of "k - 1" regions] by (simp add: last_def)
  then have split: "regions = take (k - 1) regions @ last # drop k regions" by (metis append.assoc append_Cons append_Nil append_take_drop_id)
  then have "sorted_wrt sr_before (take (k - 1) regions @ last # drop k regions)" using assms(1) by simp
  then have before: "\<And>c. c \<in> set (take (k - 1) regions) \<Longrightarrow> sr_before c last" "\<And>c. c \<in> set (drop k regions) \<Longrightarrow> sr_before last c"
    by (simp_all add: sorted_wrt_append)
  have "scanBytes (take (k - 1) regions) \<subseteq> {..<region_end last}"
    using before(1) by (fastforce simp: scanBytes_def region_end_def)
  moreover have "scanBytes [last] \<subseteq> {..<region_end last}" by (auto simp: scanBytes_def region_end_def)
  ultimately show "scanBytes (take k regions) \<subseteq> {..<region_end (regions ! (k - 1))}"
    using \<open>take k regions = take (k - 1) regions @ [last]\<close> by (simp add: last_def)
  show "scanBytes (drop k regions) \<subseteq> {region_end (regions ! (k - 1))..}"
    using before(2) by (fastforce simp: scanBytes_def region_end_def last_def)
qed

subsection \<open>The filesystem pass\<close>

lemma pass_accounting:
  assumes "runFilesystemPass volume plan scope = (entries, Inr pass)" and "list_all entry_ok (fst (walkLayout volume scope))"
  shows "regions_ok (ba_claimed (fp_accounting pass))"
    and "regionBytes (ba_claimed (fp_accounting pass)) \<subseteq> extentsBytes (validExtents (fst (walkLayout volume scope)))"
proof -
  let ?es = "fst (walkLayout volume scope)"
  have start: "regions_ok (ba_claimed emptyAccounting)" "regionBytes (ba_claimed emptyAccounting) = {}"
    by (simp_all add: emptyAccounting_def)
  have "fp_accounting pass = emptyAccounting \<or> fp_accounting pass = foldl account emptyAccounting ?es"
    using assms(1)
    by (auto simp: runFilesystemPass_def walkScope_def mountFailure_def emptyPass_def split: if_splits prod.splits sum.splits)
  then show "regions_ok (ba_claimed (fp_accounting pass))"
    and "regionBytes (ba_claimed (fp_accounting pass)) \<subseteq> extentsBytes (validExtents ?es)"
    using account_foldl_sound [OF start(1) assms(2)] start by auto
qed

lemma resumed_pass:
  assumes "runFilesystemPass volume plan scope = (entries, Inr pass)" and "rp_resumeFrom plan = None"
  shows "runFilesystemPass volume (plan\<lparr>rp_resumeFrom := Some c\<rparr>) scope = ([], Inr pass)"
    and "set entries \<subseteq> set (fst (walkLayout volume scope))"
  using assms
  by (auto simp: runFilesystemPass_def walkScope_def mountFailure_def split: if_splits prod.splits sum.splits)

subsection \<open>A run and its resumption\<close>

lemma gap_regions_inside:
  assumes "gap_regions plan acc ds cursor regions" and "r \<in> set regions"
  shows "region_end r \<le> ds"
proof -
  have "0 < sr_length r" using assms by (simp add: gap_regions_def)
  then have "region_end r - 1 \<in> scanBytes regions" using assms(2) by (auto simp: scanBytes_def region_end_def intro!: bexI [of _ r])
  then show ?thesis using assms(1) by (auto simp: gap_regions_def)
qed

text \<open>What one leg of a run does to the gaps, from the leg's cursor on.\<close>

lemma scanned_leg:
  assumes "runFilesystemPass volume plan scope = (entries, Inr pass)" and "rp_mode plan \<noteq> kFilesystemOnly"
    and "gap_regions plan (fp_accounting pass) (bd_size (sc_device scope)) (case rp_resumeFrom plan of None \<Rightarrow> 0 | Some c \<Rightarrow> c) regions"
    and "scan_works scan (sc_device scope)"
  shows "\<exists>k totals. hybridRun volume scan goOn plan scope =
      Some \<lparr>rr_entries = entries, rr_candidates = found_in scan (sc_device scope) (take k regions), rr_stats = Inr (statsOf pass totals)\<rparr> \<and>
    k \<le> length regions \<and> (k = length regions \<or> 0 < k) \<and> ((\<forall>c. goOn c) \<longrightarrow> k = length regions) \<and>
    (sl_complete totals \<longleftrightarrow> k = length regions) \<and>
    sl_scannedUpTo totals = (if k = 0 then 0 else region_end (regions ! (k - 1)))"
proof -
  have carve: "carveRegions plan pass (bd_size (sc_device scope)) = Some regions"
    using assms(2,3) by (simp add: carveRegions_def gap_regions_def)
  have "\<forall>r \<in> set regions. region_end r \<le> max64 \<and> region_end r \<le> bd_size (sc_device scope)" "length regions \<le> max64"
    using assms(3) gap_regions_inside [OF assms(3)] by (auto simp: gap_regions_def region_end_def)
  from scanRegions_spec [OF assms(4) this, of goOn] show ?thesis
    using assms(1) carve by (elim exE conjE) (intro exI conjI; simp add: hybridRun_def)
qed

lemma scanBytes_empty_iff: "\<forall>c \<in> set regions. 0 < sr_length c \<Longrightarrow> scanBytes regions = {} \<longleftrightarrow> regions = []"
  by (cases regions) (auto simp: scanBytes_def)

lemma gaps_after_cut:
  assumes "gap_regions plan acc ds 0 regions" and "gap_regions plan acc ds cursor rest"
    and "k \<le> length regions" and "k = length regions \<or> 0 < k"
    and "cursor = (if k = 0 then 0 else region_end (regions ! (k - 1)))"
  shows "scanBytes (take k regions) \<inter> scanBytes rest = {}"
    and "scanBytes (take k regions) \<union> scanBytes rest = {..<ds} - regionBytes (ba_claimed acc)"
    and "scanBytes (drop k regions) = scanBytes rest"
proof -
  let ?gaps = "{..<ds} - regionBytes (ba_claimed acc)"
  have all: "scanBytes regions = ?gaps" and rest: "scanBytes rest = ?gaps \<inter> {cursor..}"
    using assms(1,2) by (auto simp: gap_regions_def)
  have "scanBytes (take k regions) \<subseteq> {..<cursor}" "scanBytes (drop k regions) \<subseteq> {cursor..}" if "0 < k"
    using sorted_split [OF _ that assms(3)] assms(1,5) that by (auto simp: gap_regions_def)
  moreover have "scanBytes (take k regions) = {}" "regions = []" if "k = 0"
    using that assms(4) by (simp_all add: scanBytes_def)
  ultimately have cut: "scanBytes (take k regions) \<subseteq> {..<cursor}" "scanBytes (drop k regions) \<subseteq> {cursor..}"
    using assms(4) by (cases "k = 0"; fastforce simp: scanBytes_def)+
  show "scanBytes (take k regions) \<inter> scanBytes rest = {}" using cut(1) rest by auto
  show "scanBytes (take k regions) \<union> scanBytes rest = ?gaps"
    using cut rest all scanBytes_take_drop [of regions k] by auto
  show "scanBytes (drop k regions) = scanBytes rest"
    using cut rest all scanBytes_take_drop [of regions k] by fastforce
qed

lemma resumed_run:
  assumes "rp_mode plan \<noteq> kFilesystemOnly" and "rp_resumeFrom plan = None" and "0 < rp_checkpointBytes plan"
    and "bd_size (sc_device scope) \<le> max64" and "list_all entry_ok (fst (walkLayout volume scope))"
    and "scan_works scan (sc_device scope)"
    and "hybridRun volume scan goOn plan scope = Some first" and "rr_stats first = Inr stats"
  shows "\<exists>scanned rest stats'. (\<forall>r \<in> set scanned \<union> set rest. region_end r \<le> bd_size (sc_device scope)) \<and>
    rr_candidates first = found_in scan (sc_device scope) scanned \<and>
    hybridRun volume scan (\<lambda>_. True) (plan\<lparr>rp_resumeFrom := Some (rt_scannedUpTo stats)\<rparr>) scope =
      Some \<lparr>rr_entries = [], rr_candidates = found_in scan (sc_device scope) rest, rr_stats = Inr stats'\<rparr> \<and>
    rt_scanComplete stats' \<and> (rt_scanComplete stats \<longleftrightarrow> scanBytes rest = {}) \<and>
    scanBytes scanned \<inter> scanBytes rest = {} \<and>
    {..<bd_size (sc_device scope)} - extentsBytes (validExtents (fst (walkLayout volume scope))) \<subseteq> scanBytes scanned \<union> scanBytes rest"
proof -
  obtain entries pass where pass: "runFilesystemPass volume plan scope = (entries, Inr pass)"
    using assms(7,8) by (auto simp: hybridRun_def split: prod.splits sum.splits)
  note acc = pass_accounting [OF pass assms(5)] and again = resumed_pass(1) [OF pass assms(2), of "rt_scannedUpTo stats"]
  let ?acc = "fp_accounting pass" and ?ds = "bd_size (sc_device scope)" and ?cursor = "rt_scannedUpTo stats"
  let ?plan = "plan\<lparr>rp_resumeFrom := Some ?cursor\<rparr>"
  obtain regions where regions: "gap_regions plan ?acc ?ds 0 regions"
    using gap_regions_exist [OF acc(1) assms(4,3)] by blast
  obtain rest where rest: "gap_regions ?plan ?acc ?ds ?cursor rest"
    using gap_regions_exist [OF acc(1) assms(4), of ?plan] assms(3) by auto
  obtain k totals where one: "hybridRun volume scan goOn plan scope =
      Some \<lparr>rr_entries = entries, rr_candidates = found_in scan (sc_device scope) (take k regions), rr_stats = Inr (statsOf pass totals)\<rparr>"
      "k \<le> length regions" "k = length regions \<or> 0 < k" "sl_complete totals \<longleftrightarrow> k = length regions"
      "sl_scannedUpTo totals = (if k = 0 then 0 else region_end (regions ! (k - 1)))"
    using scanned_leg [OF pass assms(1) _ assms(6), where regions = regions and goOn = goOn] regions assms(2) by auto
  have stats: "stats = statsOf pass totals" "rr_candidates first = found_in scan (sc_device scope) (take k regions)"
    using one(1) assms(7,8) by auto
  then have cursor: "?cursor = (if k = 0 then 0 else region_end (regions ! (k - 1)))" using one(5) by (simp add: statsOf_def)
  have rest': "gap_regions plan ?acc ?ds ?cursor rest" using rest by (simp add: gap_regions_def)
  note cut = gaps_after_cut [OF regions rest' one(2,3) cursor]
  obtain k' totals' where two: "hybridRun volume scan (\<lambda>_. True) ?plan scope =
      Some \<lparr>rr_entries = [], rr_candidates = found_in scan (sc_device scope) (take k' rest), rr_stats = Inr (statsOf pass totals')\<rparr>"
      "k' = length rest" "sl_complete totals' \<longleftrightarrow> k' = length rest"
    using scanned_leg [OF again _ _ assms(6), where regions = rest and goOn = "\<lambda>_. True"] rest assms(1) by auto
  have "scanBytes (drop k regions) = {} \<longleftrightarrow> drop k regions = []"
    using regions by (intro scanBytes_empty_iff) (auto simp: gap_regions_def dest: in_set_dropD)
  then have "rt_scanComplete stats \<longleftrightarrow> scanBytes (drop k regions) = {}"
    using one(2,4) stats(1) by (auto simp: statsOf_def)
  moreover have "\<forall>r \<in> set (take k regions) \<union> set rest. region_end r \<le> ?ds"
    using gap_regions_inside [OF regions] gap_regions_inside [OF rest'] by (auto dest: in_set_takeD)
  ultimately show ?thesis
    using stats(2) two cut acc(2) by (intro exI [of _ "take k regions"] exI [of _ rest] exI [of _ "statsOf pass totals'"]) (auto simp: statsOf_def)
qed

text \<open>
  C1: A scan that the progress reporter interrupts loses nothing. Resuming at the cursor the
  interrupted run left, the second run reports no filesystem entry a second time, scans to the
  end and says so; no byte is scanned in both runs, and together they scan every byte of the
  source that no valid extent of a filesystem entry covers. The interrupted run says itself
  whether it was complete.
\<close>

theorem interrupted_run_resumes_without_loss:
  assumes "rp_mode plan \<noteq> kFilesystemOnly" and "rp_resumeFrom plan = None" and "0 < rp_checkpointBytes plan"
    and "bd_size (sc_device scope) \<le> max64" and "list_all entry_ok (fst (walkLayout volume scope))"
    and "scan_works scan (sc_device scope)"
    and "hybridRun volume scan goOn plan scope = Some first" and "rr_stats first = Inr stats"
  shows "\<exists>scanned rest stats'.
    rr_candidates first = found_in scan (sc_device scope) scanned \<and>
    hybridRun volume scan (\<lambda>_. True) (plan\<lparr>rp_resumeFrom := Some (rt_scannedUpTo stats)\<rparr>) scope =
      Some \<lparr>rr_entries = [], rr_candidates = found_in scan (sc_device scope) rest, rr_stats = Inr stats'\<rparr> \<and>
    rt_scanComplete stats' \<and> (rt_scanComplete stats \<longleftrightarrow> scanBytes rest = {}) \<and>
    scanBytes scanned \<inter> scanBytes rest = {} \<and>
    {..<bd_size (sc_device scope)} - extentsBytes (validExtents (fst (walkLayout volume scope))) \<subseteq> scanBytes scanned \<union> scanBytes rest"
  using resumed_run [OF assms] by blast

text \<open>A two-chunk source whose scan finds nothing and is interrupted after the first chunk.\<close>

definition blankDevice :: BlockDevice where
  "blankDevice = \<lparr>bd_size = 16, bd_sectorSize = 4, bd_readAt = (\<lambda>off len. Inr (replicate len 0))\<rparr>"

definition blankScope :: RunScope where
  "blankScope = \<lparr>sc_device = blankDevice, sc_layout = [], sc_startBytes = 0\<rparr>"

definition unmountable :: mount where "unmountable device = Inl (mkError kNotFound 0)"

definition findsNothing :: region_scan where "findsNothing device region = ([], Inr 0)"


definition blankPlan :: RecoveryPlan where
  "blankPlan = \<lparr>rp_mode = kHybrid, rp_resumeFrom = None, rp_checkpointBytes = 8\<rparr>"

lemma appendChunks_next:
  "at < srEnd region \<Longrightarrow> appendChunks region chunkBytes at chunks =
     appendChunks region chunkBytes (wrap64 (at + min chunkBytes (srEnd region - at)))
       (chunks @ [\<lparr>sr_offset = at, sr_length = min chunkBytes (srEnd region - at)\<rparr>])"
  by (subst appendChunks.simps) simp

lemma appendChunks_stop: "srEnd region \<le> at \<Longrightarrow> appendChunks region chunkBytes at chunks = Some chunks"
  by (subst appendChunks.simps) simp

lemma blank_first_run:
  "hybridRun unmountable findsNothing (\<lambda>_. False) blankPlan blankScope =
     Some \<lparr>rr_entries = [], rr_candidates = [],
       rr_stats = Inr (statsOf emptyPass \<lparr>sl_candidates = 0, sl_regions = 1, sl_complete = False, sl_scannedUpTo = 8\<rparr>)\<rparr>"
proof -
  have "runFilesystemPass unmountable blankPlan blankScope = ([], Inr emptyPass)"
    by (simp add: runFilesystemPass_def walkScope_def walkLayout_def enumerateVolume_def mountFailure_def
        unmountable_def blankPlan_def blankScope_def mkError_def)
  moreover have gaps: "accountingGaps emptyAccounting 16 = [\<lparr>sr_offset = 0, sr_length = 16\<rparr>]"
    by (simp add: accountingGaps_def emptyAccounting_def region_eval Let_def)
  moreover have "carveRegions blankPlan emptyPass 16 = Some [\<lparr>sr_offset = 0, sr_length = 8\<rparr>, \<lparr>sr_offset = 8, sr_length = 8\<rparr>]"
    by (simp add: gaps carveRegions_def blankPlan_def emptyPass_def
        chunked_def tailOf_def srEnd_def wrap64_def wrap_sub64_def appendChunks_next appendChunks_stop)
  ultimately show ?thesis
    by (simp add: hybridRun_def blankScope_def blankDevice_def scanRegions_def wrap64_def scanNextRegion_def findsNothing_def stoppedShort_def)
qed

theorem interrupted_run_resumes_without_loss_witness:
  "\<exists>rest stats'. hybridRun unmountable findsNothing (\<lambda>_. True) (blankPlan\<lparr>rp_resumeFrom := Some 8\<rparr>) blankScope =
     Some \<lparr>rr_entries = [], rr_candidates = found_in findsNothing blankDevice rest, rr_stats = Inr stats'\<rparr> \<and>
   rt_scanComplete stats' \<and> scanBytes rest \<noteq> {}"
proof -
  have ok: "rp_mode blankPlan \<noteq> kFilesystemOnly" "rp_resumeFrom blankPlan = None" "0 < rp_checkpointBytes blankPlan"
      "bd_size (sc_device blankScope) \<le> max64" "list_all entry_ok (fst (walkLayout unmountable blankScope))"
      "scan_works findsNothing (sc_device blankScope)"
    by (simp_all add: blankPlan_def blankScope_def blankDevice_def max64_def walkLayout_def enumerateVolume_def unmountable_def
        scan_works_def findsNothing_def)
  show ?thesis
    using interrupted_run_resumes_without_loss [OF ok blank_first_run, simplified, OF refl]
    by (fastforce simp: statsOf_def blankScope_def)
qed

subsection \<open>The entries of a partitioned disk\<close>

lemma foldl_collects:
  assumes "\<And>s x. f (g s x) = f s @ h x"
  shows "f (foldl g s xs) = f s @ concat (map h xs)"
  by (induction xs arbitrary: s) (simp_all add: assms)

lemma enumerateDisk_entries:
  "fst (enumerateDisk volume device parts) =
     concat (map (\<lambda>part. map (placedEntry part)
       (fst (enumerateVolume volume (partitionView device (pt_startBytes part) (pt_lengthBytes part))))) parts)"
  unfolding enumerateDisk_def
  by (subst foldl_collects [where f = fst]) (auto simp: walkOne_def Let_def split: prod.splits)

lemma saturatingAdd64_exact: "a + b \<le> max64 \<Longrightarrow> saturatingAdd64 a b = a + b"
  by (auto simp: saturatingAdd64_def)

lemma moved_extent_bytes:
  assumes "start + len \<le> length content" and "length content \<le> max64" and "extent_inside (take len (drop start content)) extent"
  shows "extent_bytes content (movedExtent start extent) = extent_bytes (take len (drop start content)) extent"
    and "extent_inside content (movedExtent start extent)"
proof -
  have fits: "deviceOffset extent + lengthBytes extent \<le> len" using assms(1,3) by (simp add: extent_inside_def)
  then have sat: "saturatingAdd64 (deviceOffset extent) start = deviceOffset extent + start"
    using assms(1,2) saturatingAdd64_exact by simp
  have "min (lengthBytes extent) (len - deviceOffset extent) = lengthBytes extent" using fits by simp
  then show "extent_bytes content (movedExtent start extent) = extent_bytes (take len (drop start content)) extent"
    by (simp add: extent_bytes_def movedExtent_def sat drop_take)
  show "extent_inside content (movedExtent start extent)"
    using assms(1) fits by (simp add: extent_inside_def movedExtent_def sat)
qed

lemma partition_prefix_separates:
  assumes "partitionPrefix p @ a = partitionPrefix q @ b"
  shows "pt_number p = pt_number q"
proof -
  have noslash: "CHR ''/'' \<notin> set (dec n)" for n using dec_digits [of "CHR ''/''" n] by (auto simp: char_byte_def)
  have cut: "takeWhile (\<lambda>c. c \<noteq> CHR ''/'') (dec n @ CHR ''/'' # r) = dec n" for n r
    using noslash by (subst takeWhile_append2) auto
  have "dec (pt_number p) @ CHR ''/'' # a = dec (pt_number q) @ CHR ''/'' # b" using assms by (simp add: partitionPrefix_def)
  then have "dec (pt_number p) = dec (pt_number q)" using cut by metis
  then show ?thesis by simp
qed

text \<open>
  A walk of a partitioned disk restates each volume's entries in the coordinates of the
  disk. Every entry it reports is one that the walk of a partition's window reported, under that
  partition's directory; where the window's entry named bytes of the window, the reported
  entry names the same bytes of the disk, and names bytes inside the disk. Entries of partitions with different
  numbers never have the same path.
\<close>

theorem partitioned_entries_keep_their_bytes:
  assumes "entry \<in> set (fst (enumerateDisk volume device parts))" and "length content \<le> max64"
    and "\<forall>part \<in> set parts. pt_startBytes part + pt_lengthBytes part \<le> length content"
  shows "\<exists>part \<in> set parts. \<exists>seen \<in> set (fst (enumerateVolume volume (partitionView device (pt_startBytes part) (pt_lengthBytes part)))).
    entry = placedEntry part seen \<and>
    (list_all (extent_inside (take (pt_lengthBytes part) (drop (pt_startBytes part) content))) (re_extents seen) \<longrightarrow>
       map (extent_bytes content) (re_extents entry) =
         map (extent_bytes (take (pt_lengthBytes part) (drop (pt_startBytes part) content))) (re_extents seen) \<and>
       list_all (extent_inside content) (re_extents entry)) \<and>
    (\<forall>other seen'. pt_number other \<noteq> pt_number part \<longrightarrow> re_path (placedEntry other seen') \<noteq> re_path entry)"
proof -
  obtain part seen where part: "part \<in> set parts" "entry = placedEntry part seen"
      "seen \<in> set (fst (enumerateVolume volume (partitionView device (pt_startBytes part) (pt_lengthBytes part))))"
    using assms(1) by (auto simp: enumerateDisk_entries)
  let ?window = "take (pt_lengthBytes part) (drop (pt_startBytes part) content)"
  have "map (extent_bytes content) (re_extents entry) = map (extent_bytes ?window) (re_extents seen) \<and>
      list_all (extent_inside content) (re_extents entry)" if "list_all (extent_inside ?window) (re_extents seen)"
    using that moved_extent_bytes [OF bspec [OF assms(3) part(1)] assms(2)] part(2)
    by (auto simp: placedEntry_def list_all_iff)
  moreover have "re_path (placedEntry other seen') \<noteq> re_path entry" if "pt_number other \<noteq> pt_number part" for other seen'
    using that part(2) partition_prefix_separates [of other "re_path seen'" part "re_path seen"] by (auto simp: placedEntry_def)
  ultimately show ?thesis using part by blast
qed

definition onePartition :: Partition where
  "onePartition = \<lparr>pt_startBytes = 2, pt_lengthBytes = 3, pt_number = 1, pt_label = []\<rparr>"

definition oneFile :: mount where
  "oneFile device =
     Inr \<lparr>fy_enumerate = ([sampleEntry [\<lparr>deviceOffset = 1, lengthBytes = 2\<rparr>] kValid], Inl (mkError kNotFound 0))\<rparr>"

theorem partitioned_entries_keep_their_bytes_witness:
  "map (extent_bytes [9, 8, 7, 6, 5]) (re_extents (placedEntry onePartition (sampleEntry [\<lparr>deviceOffset = 1, lengthBytes = 2\<rparr>] kValid))) = [[6, 5]]"
proof -
  let ?seen = "sampleEntry [\<lparr>deviceOffset = 1, lengthBytes = 2\<rparr>] kValid"
  have hyp: "placedEntry onePartition ?seen \<in> set (fst (enumerateDisk oneFile (imageOf [9, 8, 7, 6, 5]) [onePartition]))"
      "length [9, 8, 7, 6, 5 :: byte] \<le> max64"
      "\<forall>part \<in> set [onePartition]. pt_startBytes part + pt_lengthBytes part \<le> length [9, 8, 7, 6, 5 :: byte]"
    by (simp_all add: enumerateDisk_entries enumerateVolume_def oneFile_def onePartition_def max64_def)
  from partitioned_entries_keep_their_bytes [OF hyp] show ?thesis
    by (auto simp: enumerateVolume_def oneFile_def onePartition_def sampleEntry_def extent_inside_def extent_bytes_def)
qed

subsection \<open>Invented bytes\<close>

definition placed_bytes :: "u64 \<Rightarrow> Extent list \<Rightarrow> nat set" where
  "placed_bytes start extents = (\<Union>e \<in> set extents. {start + deviceOffset e..<start + deviceOffset e + lengthBytes e})"

definition shared_with :: "u64 \<times> u64 \<Rightarrow> BadRange \<Rightarrow> BadRange list" where
  "shared_with extent hole = (case overlap extent (spanOf hole) of None \<Rightarrow> [] | Some shared \<Rightarrow> [shared])"

lemma inventedIn_concat:
  "inventedIn extents damage start = concat (map (\<lambda>e. concat (map (shared_with (placedOn e start)) damage)) extents)"
proof -
  have one: "overlapsIn extent damage = concat (map (shared_with extent) damage)" for extent
    unfolding overlapsIn_def
    by (subst foldl_collects [where f = id and h = "shared_with extent", simplified])
       (auto simp: shared_with_def split: option.splits)
  show ?thesis
    unfolding inventedIn_def one by (subst foldl_collects [where f = id, simplified]) simp_all
qed

lemma badBytes_concat: "badBytes (concat (map f xs)) = (\<Union>x \<in> set xs. badBytes (f x))"
  by (auto simp: badBytes_def)

lemma shared_with_bytes:
  assumes "start + deviceOffset e + lengthBytes e \<le> max64" and "br_offsetBytes b + br_lengthBytes b \<le> max64"
  shows "badBytes (shared_with (placedOn e start) b) =
      {start + deviceOffset e..<start + deviceOffset e + lengthBytes e} \<inter> {br_offsetBytes b..<br_offsetBytes b + br_lengthBytes b}"
    and "\<forall>r \<in> set (shared_with (placedOn e start) b). 0 < br_lengthBytes r"
proof -
  have spans: "placedOn e start = (start + deviceOffset e, start + deviceOffset e + lengthBytes e)"
      "spanOf b = (br_offsetBytes b, br_offsetBytes b + br_lengthBytes b)"
    using assms by (simp_all add: placedOn_def spanOf_def Let_def saturatingAdd64_exact)
  show "badBytes (shared_with (placedOn e start) b) =
      {start + deviceOffset e..<start + deviceOffset e + lengthBytes e} \<inter> {br_offsetBytes b..<br_offsetBytes b + br_lengthBytes b}"
    and "\<forall>r \<in> set (shared_with (placedOn e start) b). 0 < br_lengthBytes r"
    by (auto simp: shared_with_def spans overlap_def Let_def)
qed

text \<open>
  The ranges a recovered file is told are invented are exactly the bytes of its extents,
  placed on the source the damage was recorded against, that fall in a damaged range, and no
  range among them is empty.
\<close>

theorem invented_bytes_are_the_damaged_ones:
  assumes "\<forall>e \<in> set extents. start + deviceOffset e + lengthBytes e \<le> max64"
    and "\<forall>b \<in> set damage. br_offsetBytes b + br_lengthBytes b \<le> max64"
  shows "badBytes (inventedIn extents damage start) = placed_bytes start extents \<inter> badBytes damage \<and>
    (\<forall>r \<in> set (inventedIn extents damage start). 0 < br_lengthBytes r)"
proof
  note shared = shared_with_bytes [OF bspec [OF assms(1)] bspec [OF assms(2)]]
  have "badBytes (inventedIn extents damage start) =
      (\<Union>e \<in> set extents. \<Union>b \<in> set damage. badBytes (shared_with (placedOn e start) b))"
    by (simp add: inventedIn_concat badBytes_concat)
  also have "\<dots> = placed_bytes start extents \<inter> badBytes damage"
    unfolding placed_bytes_def badBytes_def [of damage] Int_UN_distrib2 by (intro SUP_cong refl shared(1))
  finally show "badBytes (inventedIn extents damage start) = placed_bytes start extents \<inter> badBytes damage" .
  show "\<forall>r \<in> set (inventedIn extents damage start). 0 < br_lengthBytes r"
    using shared(2) by (auto simp: inventedIn_concat)
qed

theorem invented_bytes_are_the_damaged_ones_witness:
  "badBytes (inventedIn [\<lparr>deviceOffset = 4, lengthBytes = 4\<rparr>] [\<lparr>br_offsetBytes = 12, br_lengthBytes = 3\<rparr>] 10) = {14..<15}"
proof -
  have "\<forall>e \<in> set [\<lparr>deviceOffset = 4, lengthBytes = 4\<rparr>]. 10 + deviceOffset e + lengthBytes e \<le> max64"
    "\<forall>b \<in> set [\<lparr>br_offsetBytes = 12, br_lengthBytes = 3\<rparr>]. br_offsetBytes b + br_lengthBytes b \<le> max64"
    by (simp_all add: max64_def)
  from invented_bytes_are_the_damaged_ones [OF this] show ?thesis by (auto simp: placed_bytes_def)
qed

text \<open>
  On a disk with a partition layout the filesystem pass cannot fail, not even when every walk
  reports that the source is gone: \<open>walkOne\<close> drops the error that \<open>mountFailure\<close> tests for.
\<close>

lemma partitioned_pass_ignores_a_lost_source:
  assumes "sc_layout scope \<noteq> []" and "\<And>device. volume device = Inl (mkError kSourceLost at)"
  shows "\<exists>pass. walkScope volume plan scope = ([], Inr pass)"
  using assms enumerateDisk_entries [of volume "sc_device scope" "sc_layout scope"]
  by (auto simp: walkScope_def walkLayout_def enumerateVolume_def split: prod.splits)

end
