(* ===== verification/FileSystems.thy ===== *)
theory FileSystems
  imports Extents Pipeline
begin

text \<open>
  What every filesystem reader owes its callers (\<open>include/revenant/fs/FileSystem.hpp\<close> and
  \<open>RecoveredEntry.hpp\<close>): the contract of a reported entry, and the interface of a driver
  that \<open>src/fs/Mount.cpp\<close> probes a volume with.
\<close>

text \<open>
  An entry is exact when its extents are non-empty and end inside the volume, and its content (its
  extents or its resident bytes, never both) has the stated size; an entry whose content could not be located hands
  nothing over and is not graded valid, and neither is an orphan.
\<close>

definition entry_exact :: "nat \<Rightarrow> RecoveredEntry \<Rightarrow> bool" where
  "entry_exact volume entry \<longleftrightarrow>
     list_all (\<lambda>x. 0 < lengthBytes x \<and> deviceOffset x + lengthBytes x \<le> volume) (re_extents entry) \<and>
     (if span_length (re_extents entry) + length (re_residentContent entry) = re_sizeInBytes entry
      then re_extents entry = [] \<or> re_residentContent entry = []
      else re_extents entry = [] \<and> re_residentContent entry = [] \<and> re_recoverability entry \<noteq> kValid) \<and>
     (re_state entry = kOrphaned \<longrightarrow> re_recoverability entry \<noteq> kValid)"

lemma entry_exact_mono: "entry_exact volume entry \<Longrightarrow> volume \<le> volume' \<Longrightarrow> entry_exact volume' entry"
  by (auto simp: entry_exact_def list_all_iff split: if_splits)

lemma entry_exact_ok: "entry_exact max64 entry \<Longrightarrow> entry_ok entry"
  by (auto simp: entry_exact_def entry_ok_def extent_ok_def list_all_iff)

locale filesystem_driver =
  fixes mounter :: mount
  assumes exact_entries: "mounter device = Inr fs \<Longrightarrow> list_all (entry_exact max64) (fst (fy_enumerate fs))"
begin

lemma ok_entries: "mounter device = Inr fs \<Longrightarrow> list_all entry_ok (fst (fy_enumerate fs))"
  using exact_entries entry_exact_ok by (auto simp: list_all_iff)

end

end
