(* ===== verification/NtfsVolumes.thy ===== *)
theory NtfsVolumes
  imports NtfsRecords FileSystems
begin

text \<open>
  \<open>src/fs/ntfs/BootSectorFields.cpp\<close>, \<open>BootSector.cpp\<close>, \<open>MftTable.cpp\<close>, \<open>EntryPath.cpp\<close>,
  \<open>EntryFromRecord.cpp\<close>, \<open>EntryEnumeration.cpp\<close> and \<open>NtfsFileSystem.cpp\<close>: an NTFS volume,
  from its boot sector to the entries a visitor is called with. A record is parsed with
  \<open>parseMftRecord\<close>, which never throws, so its result is taken with \<^term>\<open>the\<close>.
\<close>

subsection \<open>Boot sector\<close>

definition kOemId :: bytes where "kOemId = [0x4E, 0x54, 0x46, 0x53, 0x20, 0x20, 0x20, 0x20]"

definition toSigned :: "u8 \<Rightarrow> int" where
  "toSigned val = (if val < 128 then int val else int val - 256)"

definition recordSizeFromClusters :: "int \<Rightarrow> u32 \<Rightarrow> u32 result" where
  "recordSizeFromClusters val bytesPerCluster =
     andThen (safeMul32 (nat val) bytesPerCluster 0x40)
       (\<lambda>recordBytes. if recordBytes < 256 \<or> recordBytes > 65536 then Inl (mkError kInvalidArgument 0x40) else Inr recordBytes)"

definition recordSizeFromLog2 :: "int \<Rightarrow> u32 result" where
  "recordSizeFromLog2 val =
     (let shift = - val
      in if shift < 8 \<or> shift > 16 then Inl (mkError kInvalidArgument 0x40) else Inr (push_bit (nat shift) 1))"

definition recordSizeFromRaw :: "int \<Rightarrow> u32 \<Rightarrow> u32 result" where
  "recordSizeFromRaw val bytesPerCluster =
     (if val > 0 then recordSizeFromClusters val bytesPerCluster
      else if val < 0 then recordSizeFromLog2 val
      else Inl (mkError kInvalidArgument 0x40))"

definition oemIdIsValid :: "bytes \<Rightarrow> bool result" where
  "oemIdIsValid reader =
     andThen (bytesAt reader 0x03 8) (\<lambda>raw. if raw \<noteq> kOemId then Inl (mkError kInvalidArgument 0x03) else Inr True)"

definition totalSectors :: "bytes \<Rightarrow> u64 result" where
  "totalSectors reader =
     andThen (readLe 8 reader 0x28) (\<lambda>raw. if raw = 0 then Inl (mkError kInvalidArgument 0x28) else Inr raw)"

definition mftClusterNumber :: "bytes \<Rightarrow> u64 result" where
  "mftClusterNumber reader = readLe 8 reader 0x30"

definition mftRecordSize :: "bytes \<Rightarrow> u32 \<Rightarrow> u32 result" where
  "mftRecordSize reader bytesPerCluster =
     andThen (bytesAt reader 0x40 1) (\<lambda>raw. recordSizeFromRaw (toSigned (unat (hd raw))) bytesPerCluster)"

record BootState =
  bs_bytesPerSector :: u32
  bs_sectorsPerCluster :: u32
  bs_bytesPerCluster :: u32
  bs_totalSectors :: u64
  bs_mftCluster :: u64
  bs_mftOffsetBytes :: u64
  bs_bytesPerMftRecord :: u32

definition withBytesPerSector :: "bytes \<Rightarrow> bool \<Rightarrow> BootState result" where
  "withBytesPerSector reader unused =
     mapResult (bytesPerSector reader)
       (\<lambda>bps. \<lparr>bs_bytesPerSector = bps, bs_sectorsPerCluster = 0, bs_bytesPerCluster = 0, bs_totalSectors = 0,
               bs_mftCluster = 0, bs_mftOffsetBytes = 0, bs_bytesPerMftRecord = 0\<rparr>)"

definition withSectorsPerCluster :: "bytes \<Rightarrow> BootState \<Rightarrow> BootState result" where
  "withSectorsPerCluster reader s = mapResult (sectorsPerCluster reader) (\<lambda>spc. s\<lparr>bs_sectorsPerCluster := spc\<rparr>)"

definition withClusterSize :: "bytes \<Rightarrow> BootState \<Rightarrow> BootState result" where
  "withClusterSize reader s =
     mapResult (safeMul32 (bs_bytesPerSector s) (bs_sectorsPerCluster s) 0x0D) (\<lambda>bpc. s\<lparr>bs_bytesPerCluster := bpc\<rparr>)"

definition withTotalSectors :: "bytes \<Rightarrow> BootState \<Rightarrow> BootState result" where
  "withTotalSectors reader s = mapResult (totalSectors reader) (\<lambda>cnt. s\<lparr>bs_totalSectors := cnt\<rparr>)"

definition withMftCluster :: "bytes \<Rightarrow> BootState \<Rightarrow> BootState result" where
  "withMftCluster reader s =
     andThen (mftClusterNumber reader)
       (\<lambda>mft. if mft \<ge> bs_totalSectors s div bs_sectorsPerCluster s then Inl (mkError kInvalidArgument 0x30)
              else Inr (s\<lparr>bs_mftCluster := mft\<rparr>))"

definition withMftOffset :: "bytes \<Rightarrow> BootState \<Rightarrow> BootState result" where
  "withMftOffset reader s =
     mapResult (safeMul64 (bs_mftCluster s) (bs_bytesPerCluster s) 0x30) (\<lambda>off. s\<lparr>bs_mftOffsetBytes := off\<rparr>)"

definition withRecordSize :: "bytes \<Rightarrow> BootState \<Rightarrow> BootState result" where
  "withRecordSize reader s =
     mapResult (mftRecordSize reader (bs_bytesPerCluster s)) (\<lambda>rec. s\<lparr>bs_bytesPerMftRecord := rec\<rparr>)"

definition withSignature :: "bytes \<Rightarrow> BootState \<Rightarrow> NtfsGeometry result" where
  "withSignature reader s =
     mapResult (bootSignatureIsValid reader)
       (\<lambda>_. \<lparr>ng_bytesPerSector = bs_bytesPerSector s, ng_bytesPerCluster = bs_bytesPerCluster s,
             ng_totalClusters = bs_totalSectors s div bs_sectorsPerCluster s, ng_mftOffsetBytes = bs_mftOffsetBytes s,
             ng_bytesPerMftRecord = bs_bytesPerMftRecord s\<rparr>)"

definition parseBootSector :: "bytes \<Rightarrow> NtfsGeometry result" where
  "parseBootSector sector =
     (if length sector < kBootSectorBytes then Inl (mkError kOutOfRange (length sector))
      else let reader = take kBootSectorBytes sector
           in andThen (andThen (andThen (andThen (andThen (andThen (andThen (andThen
                (oemIdIsValid reader)
                (withBytesPerSector reader)) (withSectorsPerCluster reader)) (withClusterSize reader))
                (withTotalSectors reader)) (withMftCluster reader)) (withMftOffset reader)) (withRecordSize reader))
                (withSignature reader))"

subsection \<open>The master file table\<close>

definition kMftRecordNumber :: u64 where "kMftRecordNumber = 0"

record MftTable =
  mt_device :: BlockDevice
  mt_geometry :: NtfsGeometry
  mt_extents :: "Extent list"
  mt_recordCount :: u64

definition readBlock :: "BlockDevice \<Rightarrow> Extent \<Rightarrow> bytes result" where
  "readBlock device extent =
     (case bd_readAt device (deviceOffset extent) (lengthBytes extent) of
        Inl e \<Rightarrow> Inl e
      | Inr got \<Rightarrow> if length got \<noteq> lengthBytes extent then Inl (mkError kOutOfRange (deviceOffset extent)) else Inr got)"

definition parseBlockAsRecord :: "bytes result \<Rightarrow> u64 \<Rightarrow> MftRecordView result" where
  "parseBlockAsRecord block number = andThen block (\<lambda>raw. the (parseMftRecord raw number))"

definition readRecordZero :: "BlockDevice \<Rightarrow> NtfsGeometry \<Rightarrow> MftRecordView result" where
  "readRecordZero device geometry =
     parseBlockAsRecord
       (readBlock device \<lparr>deviceOffset = ng_mftOffsetBytes geometry, lengthBytes = ng_bytesPerMftRecord geometry\<rparr>) kMftRecordNumber"

definition nonResidentData :: "MftRecordView \<Rightarrow> MftData option" where
  "nonResidentData view =
     (case mv_data view of None \<Rightarrow> None | Some data \<Rightarrow> if md_resident data then None else Some data)"

definition layoutFrom :: "MftRecordView \<Rightarrow> NtfsGeometry \<Rightarrow> (Extent list \<times> u64) result" where
  "layoutFrom recordZero geometry =
     (case nonResidentData recordZero of
        None \<Rightarrow> Inl (mkError kInvalidArgument (ng_mftOffsetBytes geometry))
      | Some data \<Rightarrow>
          mapResult (andThen (decodeRunlist (md_runlistBytes data)) (\<lambda>runlist. runlistExtents runlist geometry (md_realSize data)))
            (\<lambda>extents. (extents, md_realSize data div ng_bytesPerMftRecord geometry)))"

definition openMftTable :: "BlockDevice \<Rightarrow> NtfsGeometry \<Rightarrow> MftTable result" where
  "openMftTable device geometry =
     (case readRecordZero device geometry of
        Inl e \<Rightarrow> Inl e
      | Inr recordZero \<Rightarrow>
          mapResult (layoutFrom recordZero geometry)
            (\<lambda>layout. \<lparr>mt_device = device, mt_geometry = geometry, mt_extents = fst layout, mt_recordCount = snd layout\<rparr>))"

definition recordOffset :: "MftTable \<Rightarrow> u64 \<Rightarrow> u64 result" where
  "recordOffset table number =
     (if number \<ge> mt_recordCount table then Inl (mkError kOutOfRange number)
      else let recordBytes = ng_bytesPerMftRecord (mt_geometry table)
           in locateInExtents (mt_extents table) \<lparr>fr_offset = wrap64 (number * recordBytes), fr_length = recordBytes\<rparr>)"

definition readRecord :: "MftTable \<Rightarrow> u64 \<Rightarrow> MftRecordView result" where
  "readRecord table number =
     (case recordOffset table number of
        Inl e \<Rightarrow> Inl e
      | Inr off \<Rightarrow>
          parseBlockAsRecord
            (readBlock (mt_device table) \<lparr>deviceOffset = off, lengthBytes = ng_bytesPerMftRecord (mt_geometry table)\<rparr>) number)"

subsection \<open>Paths\<close>

definition kDosNameSpace :: u8 where "kDosNameSpace = 2"
definition kRootRecordNumber :: u64 where "kRootRecordNumber = 5"
definition kMaxPathDepth :: size_t where "kMaxPathDepth = 64"

record ParentLink =
  pl_record :: u64
  pl_sequence :: u16

record PathStep =
  ps_segment :: string
  ps_parent :: ParentLink

record Ascent =
  as_directories :: "string list"
  as_stoppedAt :: ParentLink

record EntryPath =
  ep_path :: string
  ep_reachedRoot :: bool

definition linkTo :: "MftFileName \<Rightarrow> ParentLink" where
  "linkTo name = \<lparr>pl_record = mf_parentRecord name, pl_sequence = mf_parentSequence name\<rparr>"

definition isLiveDirectory :: "MftRecordView \<Rightarrow> ParentLink \<Rightarrow> bool" where
  "isLiveDirectory parent link \<longleftrightarrow> mv_isDirectory parent \<and> mv_sequence parent = pl_sequence link"

definition preferredName :: "MftFileName list \<Rightarrow> MftFileName option" where
  "preferredName names =
     (if names = [] then None
      else case find (\<lambda>name. mf_nameSpace name \<noteq> kDosNameSpace) names of Some longName \<Rightarrow> Some longName | None \<Rightarrow> Some (hd names))"

definition nameText :: "MftFileName \<Rightarrow> string" where
  "nameText name = map char_of_byte (dn_utf8 (mf_name name))"

definition stepOf :: "MftRecordView \<Rightarrow> PathStep option" where
  "stepOf parent =
     (case preferredName (mv_names parent) of
        None \<Rightarrow> None
      | Some name \<Rightarrow> Some \<lparr>ps_segment = nameText name, ps_parent = linkTo name\<rparr>)"

definition stepUp :: "MftTable \<Rightarrow> ParentLink \<Rightarrow> PathStep option" where
  "stepUp table link =
     (case readRecord table (pl_record link) of
        Inl _ \<Rightarrow> None
      | Inr parsed \<Rightarrow> if \<not> isLiveDirectory parsed link then None else stepOf parsed)"

definition climb :: "MftTable \<Rightarrow> Ascent \<Rightarrow> Ascent \<times> bool" where
  "climb table ascent =
     (if pl_record (as_stoppedAt ascent) = kRootRecordNumber then (ascent, False)
      else case stepUp table (as_stoppedAt ascent) of
             None \<Rightarrow> (ascent, False)
           | Some step \<Rightarrow> (\<lparr>as_directories = as_directories ascent @ [ps_segment step], as_stoppedAt = ps_parent step\<rparr>, True))"

lemma climb_grows: "climb table ascent = (ascent', True) \<Longrightarrow> length (as_directories ascent') = Suc (length (as_directories ascent))"
  by (auto simp: climb_def split: if_splits option.splits)

function ascendFrom :: "MftTable \<Rightarrow> Ascent \<Rightarrow> Ascent" where
  "ascendFrom table ascent =
     (if length (as_directories ascent) < kMaxPathDepth
      then case climb table ascent of
             (ascent', True) \<Rightarrow> ascendFrom table ascent'
           | (ascent', False) \<Rightarrow> ascent'
      else ascent)"
  by pat_completeness auto
termination
  by (relation "measure (\<lambda>(table, ascent). kMaxPathDepth - length (as_directories ascent))")
     (auto dest!: climb_grows [OF sym])

declare ascendFrom.simps [simp del]

definition ascend :: "MftTable \<Rightarrow> ParentLink \<Rightarrow> Ascent" where
  "ascend table from = ascendFrom table \<lparr>as_directories = [], as_stoppedAt = from\<rparr>"

definition joinPath :: "string list \<Rightarrow> string \<Rightarrow> string" where
  "joinPath directories leaf = foldl (\<lambda>path directory. path @ directory @ ''/'') [] (rev directories) @ leaf"

definition resolveEntryPath :: "MftTable \<Rightarrow> MftRecordView \<Rightarrow> EntryPath" where
  "resolveEntryPath table view =
     (case preferredName (mv_names view) of
        None \<Rightarrow> \<lparr>ep_path = [], ep_reachedRoot = False\<rparr>
      | Some self \<Rightarrow>
          let ascent = ascend table (linkTo self)
          in \<lparr>ep_path = joinPath (as_directories ascent) (nameText self),
              ep_reachedRoot = (pl_record (as_stoppedAt ascent) = kRootRecordNumber)\<rparr>)"

subsection \<open>Entries\<close>

record EntryContent =
  ec_extents :: "Extent list"
  ec_resident :: bytes
  ec_sizeBytes :: u64
  ec_located :: bool

definition noContent :: EntryContent where
  "noContent = \<lparr>ec_extents = [], ec_resident = [], ec_sizeBytes = 0, ec_located = False\<rparr>"

definition nonResidentContent :: "MftData \<Rightarrow> NtfsGeometry \<Rightarrow> EntryContent" where
  "nonResidentContent data geometry =
     (case andThen (decodeRunlist (md_runlistBytes data)) (\<lambda>runlist. runlistExtents runlist geometry (md_realSize data)) of
        Inl _ \<Rightarrow> \<lparr>ec_extents = [], ec_resident = [], ec_sizeBytes = md_realSize data, ec_located = False\<rparr>
      | Inr extents \<Rightarrow> \<lparr>ec_extents = extents, ec_resident = [], ec_sizeBytes = md_realSize data, ec_located = True\<rparr>)"

definition dataContent :: "MftData \<Rightarrow> NtfsGeometry \<Rightarrow> EntryContent" where
  "dataContent data geometry =
     (if \<not> md_resident data then nonResidentContent data geometry
      else \<lparr>ec_extents = [], ec_resident = md_residentContent data, ec_sizeBytes = md_realSize data, ec_located = True\<rparr>)"

definition contentOf :: "MftRecordView \<Rightarrow> NtfsGeometry \<Rightarrow> EntryContent" where
  "contentOf view geometry = (case mv_data view of None \<Rightarrow> noContent | Some data \<Rightarrow> dataContent data geometry)"

definition stateOf :: "MftRecordView \<Rightarrow> EntryPath \<Rightarrow> EntryState" where
  "stateOf view path =
     (if \<not> ep_reachedRoot path then kOrphaned else if mv_inUse view then kLive else kDeleted)"

definition gradeOf :: "MftRecordView \<Rightarrow> EntryPath \<Rightarrow> bool \<Rightarrow> Confidence" where
  "gradeOf view path located = (if mv_grade view = kValid \<and> ep_reachedRoot path \<and> located then kValid else kUncertain)"

definition entryFromRecord :: "MftRecordView \<Rightarrow> EntryPath \<Rightarrow> NtfsGeometry \<Rightarrow> RecoveredEntry" where
  "entryFromRecord view path geometry =
     (let content = contentOf view geometry
      in \<lparr>re_path = ep_path path, re_sizeInBytes = ec_sizeBytes content, re_extents = ec_extents content,
          re_residentContent = ec_resident content,
          re_timestamps = (case mv_standardInfo view of Some stamps \<Rightarrow> stamps | None \<Rightarrow> \<lparr>ts_created = 0, ts_modified = 0, ts_accessed = 0\<rparr>),
          re_state = stateOf view path, re_recoverability = gradeOf view path (ec_located content)\<rparr>)"

definition kFirstUserRecord :: u64 where "kFirstUserRecord = 16"

definition isRecoverableFile :: "MftRecordView \<Rightarrow> bool" where
  "isRecoverableFile view \<longleftrightarrow> \<not> mv_isDirectory view \<and> mv_data view \<noteq> None \<and> mv_names view \<noteq> []"

text \<open>Reporting a record calls the visitor with at most one entry; that entry is the value.\<close>

definition reportRecord :: "MftTable \<Rightarrow> MftRecordView \<Rightarrow> RecoveredEntry option" where
  "reportRecord table view =
     (if \<not> isRecoverableFile view then None
      else Some (entryFromRecord view (resolveEntryPath table view) (mt_geometry table)))"

definition stepRecord :: "MftTable \<Rightarrow> u64 \<Rightarrow> RecoveredEntry option result" where
  "stepRecord table number =
     (case readRecord table number of
        Inr parsed \<Rightarrow> Inr (reportRecord table parsed)
      | Inl e \<Rightarrow> if err_code e = kIoFailure then Inl e else Inr None)"

definition countRecord :: "MftTable \<Rightarrow> u64 \<Rightarrow> EnumerationStats \<Rightarrow> (RecoveredEntry option \<times> EnumerationStats) result" where
  "countRecord table number stats =
     mapResult (stepRecord table number)
       (\<lambda>reported. (reported,
          \<lparr>es_recordsScanned = wrap64 (es_recordsScanned stats + 1),
           es_entriesReported = wrap64 (es_entriesReported stats + (if reported \<noteq> None then 1 else 0)),
           es_nonConformingVolume = False\<rparr>))"

function enumerateFrom :: "MftTable \<Rightarrow> u64 \<Rightarrow> EnumerationStats \<Rightarrow> RecoveredEntry list \<times> EnumerationStats result" where
  "enumerateFrom table number stats =
     (if number < mt_recordCount table
      then case countRecord table number stats of
             Inl e \<Rightarrow> ([], Inl e)
           | Inr (reported, stats') \<Rightarrow>
               let (entries, final) = enumerateFrom table (number + 1) stats'
               in ((case reported of None \<Rightarrow> [] | Some entry \<Rightarrow> [entry]) @ entries, final)
      else ([], Inr stats))"
  by pat_completeness auto
termination
  by (relation "measure (\<lambda>(table, number, stats). mt_recordCount table - number)") auto

declare enumerateFrom.simps [simp del]

definition enumerateEntries :: "MftTable \<Rightarrow> RecoveredEntry list \<times> EnumerationStats result" where
  "enumerateEntries table =
     enumerateFrom table kFirstUserRecord \<lparr>es_recordsScanned = 0, es_entriesReported = 0, es_nonConformingVolume = False\<rparr>"

subsection \<open>Mounting\<close>

definition recognize :: "bytes \<Rightarrow> NtfsGeometry result" where
  "recognize sector =
     (if \<not> hasValue (oemIdIsValid sector) then Inl (mkError kNotFound 0) else parseBootSector sector)"

definition mountedOn :: "MftTable \<Rightarrow> FileSystem result" where
  "mountedOn table = Inr \<lparr>fy_enumerate = enumerateEntries table\<rparr>"

definition mountNtfs :: mount where
  "mountNtfs device =
     andThen (andThen (andThen (readMountRegion device \<lparr>mr_offset = 0, mr_length = kBootSectorBytes\<rparr>)
       recognize) (openMftTable device)) mountedOn"

subsection \<open>Which boot sectors are accepted\<close>

declare readLe_in_range [simp del]

lemma totalSectors_Inr: "512 \<le> length r \<Longrightarrow> totalSectors r = Inr v \<longleftrightarrow> v = le_at 8 r 0x28 \<and> v \<noteq> 0"
  by (auto simp: totalSectors_def readLe_le_at)

definition record_size_rule :: "int \<Rightarrow> nat \<Rightarrow> nat \<Rightarrow> bool" where
  "record_size_rule c bpc v \<longleftrightarrow>
     (if 0 < c then v = nat c * bpc \<and> 256 \<le> v \<and> v \<le> 65536 else -16 \<le> c \<and> c \<le> -8 \<and> v = 2 ^ nat (- c))"

lemma mftRecordSize_Inr:
  assumes "512 \<le> length r" and "bpc \<le> max32"
  shows "mftRecordSize r bpc = Inr v \<longleftrightarrow> record_size_rule (toSigned (unat (r ! 0x40))) bpc v"
proof -
  let ?c = "toSigned (unat (r ! 0x40))"
  have signed: "toSigned n \<le> 127 \<and> - 128 \<le> toSigned n" if "n < 256" for n using that by (auto simp: toSigned_def)
  have c: "?c \<le> 127" "- 128 \<le> ?c" using signed [OF unat_byte_less [of "r ! 0x40"]] by blast+
  have "nat ?c \<le> max32" using c by (simp add: max32_def)
  then have mul: "safeMul32 (nat ?c) bpc 0x40 = (if nat ?c * bpc \<le> max32 then Inr (nat ?c * bpc) else Inl (mkError kOverflow 0x40))"
    using safeMul32_exact [OF _ assms(2)] by blast
  have "mftRecordSize r bpc = recordSizeFromRaw ?c bpc" using assms(1) by (simp add: mftRecordSize_def hd_drop_conv_nth)
  then show ?thesis
    using c by (auto simp: recordSizeFromRaw_def recordSizeFromClusters_def recordSizeFromLog2_def record_size_rule_def mul
        push_bit_eq_mult max32_def Let_def)
qed

text \<open>The conditions a boot sector satisfies, and the geometry it then states.\<close>

definition boot_geometry :: "bytes \<Rightarrow> nat \<Rightarrow> NtfsGeometry" where
  "boot_geometry sector rec =
     (let bps = le_at 2 sector 0x0B; spc = unat (sector ! 0x0D)
      in \<lparr>ng_bytesPerSector = bps, ng_bytesPerCluster = bps * spc, ng_totalClusters = le_at 8 sector 0x28 div spc,
          ng_mftOffsetBytes = le_at 8 sector 0x30 * (bps * spc), ng_bytesPerMftRecord = rec\<rparr>)"

definition boot_valid :: "bytes \<Rightarrow> nat \<Rightarrow> bool" where
  "boot_valid sector rec \<longleftrightarrow>
     (let bps = le_at 2 sector 0x0B; spc = unat (sector ! 0x0D)
      in 512 \<le> length sector \<and> take 8 (drop 3 sector) = kOemId \<and> bps \<in> sector_sizes \<and>
         spc \<in> cluster_sizes \<and> le_at 8 sector 0x28 \<noteq> 0 \<and>
         le_at 8 sector 0x30 < le_at 8 sector 0x28 div spc \<and> le_at 8 sector 0x30 * (bps * spc) \<le> max64 \<and>
         record_size_rule (toSigned (unat (sector ! 0x40))) (bps * spc) rec \<and>
         sector ! 0x1FE = 0x55 \<and> sector ! 0x1FF = 0xAA)"

lemma oemIdIsValid_Inr: "512 \<le> length r \<Longrightarrow> oemIdIsValid r = Inr b \<longleftrightarrow> b \<and> take 8 (drop 3 r) = kOemId"
  by (auto simp: oemIdIsValid_def)

lemma parseBootSector_512:
  assumes "length r = 512"
  shows "parseBootSector r = Inr g \<longleftrightarrow> (\<exists>rec. boot_valid r rec \<and> g = boot_geometry r rec)"
proof -
  let ?bps = "le_at 2 r 0x0B" and ?spc = "unat (r ! 0x0D)"
  have len: "512 \<le> length r" using assms by simp
  have bpc: "?bps * ?spc \<le> max32" if "?bps \<in> sector_sizes" "?spc \<in> cluster_sizes"
    using cluster_size_fits [OF that] by (simp add: max32_def)
  have mul: "safeMul32 ?bps ?spc 0x0D = Inr (?bps * ?spc)" if "?bps \<in> sector_sizes" "?spc \<in> cluster_sizes"
  proof -
    have "?bps \<le> max32" "?spc \<le> max32" using that by (auto simp: sector_sizes_def cluster_sizes_def max32_def)
    then show ?thesis using safeMul32_exact [of ?bps ?spc 13] bpc [OF that] by simp
  qed
  have mul64: "safeMul64 a b off = Inr v \<longleftrightarrow> a * b \<le> max64 \<and> v = a * b" for a b off v
    by (auto simp: safeMul64_exact)
  let ?start = "\<lparr>bs_bytesPerSector = ?bps, bs_sectorsPerCluster = ?spc, bs_bytesPerCluster = ?bps * ?spc, bs_totalSectors = le_at 8 r 0x28,
      bs_mftCluster = le_at 8 r 0x30, bs_mftOffsetBytes = le_at 8 r 0x30 * (?bps * ?spc), bs_bytesPerMftRecord = 0\<rparr>"
  have mft: "withMftCluster r x = Inr y \<longleftrightarrow>
      le_at 8 r 0x30 < bs_totalSectors x div bs_sectorsPerCluster x \<and> y = x\<lparr>bs_mftCluster := le_at 8 r 0x30\<rparr>" for x y
    using len by (auto simp: withMftCluster_def mftClusterNumber_def readLe_le_at)
  have early: "andThen (andThen (andThen (andThen (andThen (andThen (oemIdIsValid r) (withBytesPerSector r)) (withSectorsPerCluster r))
      (withClusterSize r)) (withTotalSectors r)) (withMftCluster r)) (withMftOffset r) = Inr s \<longleftrightarrow>
      take 8 (drop 3 r) = kOemId \<and> ?bps \<in> sector_sizes \<and> ?spc \<in> cluster_sizes \<and> le_at 8 r 0x28 \<noteq> 0 \<and>
      le_at 8 r 0x30 < le_at 8 r 0x28 div ?spc \<and> le_at 8 r 0x30 * (?bps * ?spc) \<le> max64 \<and> s = ?start" for s
    unfolding andThen_Inr_iff withBytesPerSector_def withSectorsPerCluster_def withClusterSize_def withTotalSectors_def mft
      withMftOffset_def mapResult_Inr_iff mul64 oemIdIsValid_Inr [OF len] bytesPerSector_Inr [OF len] sectorsPerCluster_Inr [OF len]
      totalSectors_Inr [OF len]
    using mul by auto
  let ?ok = "take 8 (drop 3 r) = kOemId \<and> ?bps \<in> sector_sizes \<and> ?spc \<in> cluster_sizes \<and> le_at 8 r 0x28 \<noteq> 0 \<and>
      le_at 8 r 0x30 < le_at 8 r 0x28 div ?spc \<and> le_at 8 r 0x30 * (?bps * ?spc) \<le> max64"
  have late: "andThen (withRecordSize r ?start) (withSignature r) = Inr g \<longleftrightarrow>
      (\<exists>rec. mftRecordSize r (?bps * ?spc) = Inr rec \<and> r ! 0x1FE = 0x55 \<and> r ! 0x1FF = 0xAA \<and> g = boot_geometry r rec)"
    unfolding andThen_Inr_iff withRecordSize_def withSignature_def mapResult_Inr_iff bootSignatureIsValid_Inr [OF assms]
    by (auto simp: boot_geometry_def Let_def intro: exI [of _ True])
  have "parseBootSector r = Inr g \<longleftrightarrow> ?ok \<and> andThen (withRecordSize r ?start) (withSignature r) = Inr g"
  proof -
    have "take kBootSectorBytes r = r" "\<not> length r < kBootSectorBytes" using assms by (simp_all add: kBootSectorBytes_def)
    then have "parseBootSector r = andThen (andThen (andThen (andThen (andThen (andThen (andThen (andThen (oemIdIsValid r) (withBytesPerSector r))
        (withSectorsPerCluster r)) (withClusterSize r)) (withTotalSectors r)) (withMftCluster r)) (withMftOffset r)) (withRecordSize r)) (withSignature r)"
      unfolding parseBootSector_def Let_def by simp
    then show ?thesis by (simp only: andThen_Inr_iff [of "andThen _ (withRecordSize r)"] andThen_Inr_iff [of _ "withRecordSize r"]
        andThen_Inr_iff [of "withRecordSize r ?start"] early) blast
  qed
  also have "\<dots> \<longleftrightarrow> (\<exists>rec. boot_valid r rec \<and> g = boot_geometry r rec)"
  proof (cases ?ok)
    case True
    then have "mftRecordSize r (?bps * ?spc) = Inr rec \<longleftrightarrow> record_size_rule (toSigned (unat (r ! 0x40))) (?bps * ?spc) rec" for rec
      using mftRecordSize_Inr [OF len bpc] by blast
    then show ?thesis unfolding late boot_valid_def Let_def using True len by blast
  qed (unfold boot_valid_def Let_def, blast)
  finally show ?thesis .
qed

lemma parseBootSector_take: "512 \<le> length sector \<Longrightarrow> parseBootSector sector = parseBootSector (take 512 sector)"
  by (simp add: parseBootSector_def kBootSectorBytes_def)

lemma boot_take: "512 \<le> length sector \<Longrightarrow> boot_valid (take 512 sector) rec \<longleftrightarrow> boot_valid sector rec"
    "512 \<le> length sector \<Longrightarrow> boot_geometry (take 512 sector) rec = boot_geometry sector rec"
  by (simp_all add: boot_valid_def boot_geometry_def le_at_take drop_take)

lemma parseBootSector_Inr_iff:
  "parseBootSector sector = Inr g \<longleftrightarrow> (\<exists>rec. boot_valid sector rec \<and> g = boot_geometry sector rec)"
proof (cases "512 \<le> length sector")
  case True
  then show ?thesis using parseBootSector_512 [of "take 512 sector" g] by (simp add: parseBootSector_take [OF True] boot_take)
qed (auto simp: parseBootSector_def kBootSectorBytes_def boot_valid_def Let_def)

text \<open>
  The NTFS boot sector parser accepts exactly the boot sectors that satisfy every rule: the OEM
  id, a known sector size, a power-of-two cluster size, a sector count that is not zero, a table
  inside the volume at an offset that fits 64 bits, a record size of one of the two encodings, and
  the closing signature. The geometry it answers is the one the fields state, and its values are in range.
\<close>

theorem ntfs_boot_sector_is_accepted_exactly_when_valid:
  "parseBootSector sector = Inr g \<longleftrightarrow> (\<exists>rec. boot_valid sector rec \<and> g = boot_geometry sector rec)"
  by (rule parseBootSector_Inr_iff)

lemma boot_geometry_bounds:
  assumes "boot_valid sector rec"
  shows "0 < ng_bytesPerCluster (boot_geometry sector rec) \<and> ng_bytesPerCluster (boot_geometry sector rec) \<le> 524288 \<and>
    256 \<le> ng_bytesPerMftRecord (boot_geometry sector rec) \<and> ng_bytesPerMftRecord (boot_geometry sector rec) \<le> 65536 \<and>
    ng_mftOffsetBytes (boot_geometry sector rec) \<le> max64"
proof -
  have size: "256 \<le> rec \<and> rec \<le> 65536" if rule: "record_size_rule c b rec" for c b
  proof (cases "0 < c")
    case False
    then have range: "- 16 \<le> c" "c \<le> - 8" and rec: "rec = 2 ^ nat (- c)" using rule by (simp_all add: record_size_rule_def)
    have "2 ^ 8 \<le> (2 :: nat) ^ nat (- c)" "(2 :: nat) ^ nat (- c) \<le> 2 ^ 16" using range by (intro power_increasing; simp)+
    then show ?thesis using rec by simp
  qed (use rule in \<open>simp add: record_size_rule_def\<close>)
  show ?thesis
    using assms size cluster_size_fits by (auto simp: boot_valid_def boot_geometry_def Let_def)
qed

subsection \<open>Reading records\<close>

definition table_ok :: "bytes \<Rightarrow> MftTable \<Rightarrow> bool" where
  "table_ok content table \<longleftrightarrow> serves (mt_device table) content \<and> list_all (extent_inside content) (mt_extents table) \<and>
     (\<forall>e \<in> set (mt_extents table). 0 < lengthBytes e) \<and>
     span_length (mt_extents table) \<le> max64 \<and> 0 < ng_bytesPerMftRecord (mt_geometry table) \<and>
     mt_recordCount table * ng_bytesPerMftRecord (mt_geometry table) \<le> span_length (mt_extents table)"

lemma readBlock_serves:
  "serves device content \<Longrightarrow> off + n \<le> length content \<Longrightarrow>
   readBlock device \<lparr>deviceOffset = off, lengthBytes = n\<rparr> = Inr (take n (drop off content))"
  by (simp add: readBlock_def serves_def)

definition one_extent_holds :: "Extent list \<Rightarrow> nat \<Rightarrow> nat \<Rightarrow> bool" where
  "one_extent_holds extents off len \<longleftrightarrow>
     (\<exists>pre ext post. extents = pre @ ext # post \<and> span_length pre \<le> off \<and> off < span_length (pre @ [ext]) \<and>
        off + len \<le> span_length (pre @ [ext]))"

lemma findExtentFrom_error: "findExtentFrom es r c = Inl e \<Longrightarrow> err_code e \<noteq> kIoFailure"
  by (induction es r c rule: findExtentFrom.induct) (auto simp: withinExtent_def split: if_splits)

lemma readRecord_eq:
  assumes "table_ok content table" and "number < mt_recordCount table"
  shows "(\<exists>e. readRecord table number = Inl e \<and> err_code e \<noteq> kIoFailure \<and>
        \<not> one_extent_holds (mt_extents table) (number * ng_bytesPerMftRecord (mt_geometry table)) (ng_bytesPerMftRecord (mt_geometry table))) \<or>
    readRecord table number = the (parseMftRecord (take (ng_bytesPerMftRecord (mt_geometry table))
      (drop (number * ng_bytesPerMftRecord (mt_geometry table)) (span_bytes content (mt_extents table)))) number)"
proof -
  let ?rec = "ng_bytesPerMftRecord (mt_geometry table)" and ?es = "mt_extents table"
  have "(number + 1) * ?rec \<le> mt_recordCount table * ?rec" using assms(2) by (intro mult_le_mono1) simp
  then have fits: "number * ?rec + ?rec \<le> span_length ?es" using assms(1) by (simp add: table_ok_def)
  have ok: "list_all (extent_inside content) ?es" "length content \<le> max64" "span_length ?es \<le> max64" "serves (mt_device table) content"
    using assms(1) by (simp_all add: table_ok_def serves_def)
  have range: "number * ?rec + ?rec \<le> max64" using fits ok(3) by simp
  then have offset: "recordOffset table number = locateInExtents ?es \<lparr>fr_offset = number * ?rec, fr_length = ?rec\<rparr>"
    using assms(2) by (simp add: recordOffset_def Let_def)
  note spec = findExtentFrom_spec [OF ok(1,2), of 0 "\<lparr>fr_offset = number * ?rec, fr_length = ?rec\<rparr>"]
  have found: "locateInExtents ?es \<lparr>fr_offset = number * ?rec, fr_length = ?rec\<rparr> = findExtentFrom ?es \<lparr>fr_offset = number * ?rec, fr_length = ?rec\<rparr> 0"
    using range by (auto simp: locateInExtents_def findExtent_def)
  show ?thesis
  proof (cases "findExtentFrom ?es \<lparr>fr_offset = number * ?rec, fr_length = ?rec\<rparr> 0")
    case (Inl e)
    then show ?thesis using spec ok(3) range offset found findExtentFrom_error [OF Inl]
      by (simp add: readRecord_def one_extent_holds_def)
  next
    case (Inr at)
    then have "at + ?rec \<le> length content" "take ?rec (drop at content) = take ?rec (drop (number * ?rec) (span_bytes content ?es))"
      using spec ok(3) range by simp_all
    then show ?thesis using Inr offset found readBlock_serves [OF ok(4), of at ?rec]
      by (simp add: readRecord_def parseBlockAsRecord_def)
  qed
qed

lemma openMftTable_ok:
  assumes "serves device content" and "openMftTable device g = Inr table" and "0 < ng_bytesPerCluster g" and "0 < ng_bytesPerMftRecord g"
    and "ng_totalClusters g * ng_bytesPerCluster g \<le> length content"
  shows "table_ok content table" and "mt_geometry table = g" and "mt_device table = device"
proof -
  obtain zero data extents where zero: "readRecordZero device g = Inr zero" "nonResidentData zero = Some data"
      and runs: "andThen (decodeRunlist (md_runlistBytes data)) (\<lambda>runlist. runlistExtents runlist g (md_realSize data)) = Inr extents"
      and table: "table = \<lparr>mt_device = device, mt_geometry = g, mt_extents = extents, mt_recordCount = md_realSize data div ng_bytesPerMftRecord g\<rparr>"
    using assms(2) by (auto simp: openMftTable_def layoutFrom_def mapResult_Inr_iff split: sum.splits option.splits)
  have len: "length content \<le> max64" using assms(1) by (simp add: serves_def)
  obtain runlist where runlist: "decodeRunlist (md_runlistBytes data) = Inr runlist" "runlistExtents runlist g (md_realSize data) = Inr extents"
    using runs by (auto simp: andThen_Inr_iff)
  have "\<forall>run \<in> set (rl_runs runlist). 0 < dr_lengthClusters run" using decoded_runs_positive [OF runlist(1)] by blast
  note spec = runlistExtents_Inr [OF runlist(2) this assms(3,5) len]
  then have span: "span_length extents = md_realSize data" using length_span_bytes [of content extents] by auto
  have "md_realSize data \<le> max64"
  proof -
    obtain raw where "the (parseMftRecord raw kMftRecordNumber) = Inr zero"
      using zero(1) by (auto simp: readRecordZero_def parseBlockAsRecord_def andThen_Inr_iff)
    then have "parseMftRecord raw kMftRecordNumber = Some (Inr zero)" using parseMftRecord_total [of raw kMftRecordNumber] by auto
    from parseMftRecord_view [OF this] show ?thesis
      using zero(2) by (auto simp: view_ok_def nonResidentData_def split: option.splits if_splits)
  qed
  then show "table_ok content table" using spec span assms(1,4) by (simp add: table table_ok_def)
  show "mt_geometry table = g" and "mt_device table = device" by (simp_all add: table)
qed

subsection \<open>Paths\<close>

inductive ascends :: "MftTable \<Rightarrow> ParentLink \<Rightarrow> string list \<Rightarrow> ParentLink \<Rightarrow> bool" for table where
  here: "ascends table link [] link"
| up: "ascends table link (ds @ [nameText name]) (linkTo name)"
  if "ascends table link ds apex" and "pl_record apex \<noteq> kRootRecordNumber"
    and "readRecord table (pl_record apex) = Inr parent" and "mv_isDirectory parent" and "mv_sequence parent = pl_sequence apex"
    and "preferredName (mv_names parent) = Some name"

lemma stepUp_Some:
  assumes "stepUp table from = Some step"
  obtains parent name where "readRecord table (pl_record from) = Inr parent" "mv_isDirectory parent"
    "mv_sequence parent = pl_sequence from" "preferredName (mv_names parent) = Some name"
    "ps_segment step = nameText name" "ps_parent step = linkTo name"
  using assms by (auto simp: stepUp_def stepOf_def isLiveDirectory_def split: sum.splits if_splits option.splits)

lemma climb_True:
  assumes "climb table ascent = (ascent', True)" and "ascends table link (as_directories ascent) (as_stoppedAt ascent)"
  shows "ascends table link (as_directories ascent') (as_stoppedAt ascent')"
proof -
  obtain step where root: "pl_record (as_stoppedAt ascent) \<noteq> kRootRecordNumber" and step: "stepUp table (as_stoppedAt ascent) = Some step"
      and to: "ascent' = \<lparr>as_directories = as_directories ascent @ [ps_segment step], as_stoppedAt = ps_parent step\<rparr>"
    using assms(1) by (auto simp: climb_def split: if_splits option.splits)
  from step obtain parent name where "readRecord table (pl_record (as_stoppedAt ascent)) = Inr parent" "mv_isDirectory parent"
    "mv_sequence parent = pl_sequence (as_stoppedAt ascent)" "preferredName (mv_names parent) = Some name"
    and names: "ps_segment step = nameText name" "ps_parent step = linkTo name" by (rule stepUp_Some)
  from ascends.up [OF assms(2) root this(1-4)] show ?thesis by (simp add: to names)
qed

lemma climb_False: "climb table ascent = (ascent', False) \<Longrightarrow> ascent' = ascent"
  by (auto simp: climb_def split: if_splits option.splits)

lemma ascendFrom_cases:
  "length (as_directories ascent) < kMaxPathDepth \<Longrightarrow> climb table ascent = (ascent', True) \<Longrightarrow> ascendFrom table ascent = ascendFrom table ascent'"
  "length (as_directories ascent) < kMaxPathDepth \<Longrightarrow> climb table ascent = (ascent', False) \<Longrightarrow> ascendFrom table ascent = ascent"
  "\<not> length (as_directories ascent) < kMaxPathDepth \<Longrightarrow> ascendFrom table ascent = ascent"
proof -
  show "ascendFrom table ascent = ascendFrom table ascent'" if "length (as_directories ascent) < kMaxPathDepth" "climb table ascent = (ascent', True)"
    by (subst ascendFrom.simps) (simp only: that if_True prod.case bool.case)
  show "ascendFrom table ascent = ascent" if "length (as_directories ascent) < kMaxPathDepth" "climb table ascent = (ascent', False)"
    by (subst ascendFrom.simps) (simp only: that climb_False [OF that(2)] if_True prod.case bool.case)
  show "ascendFrom table ascent = ascent" if "\<not> length (as_directories ascent) < kMaxPathDepth"
    by (subst ascendFrom.simps) (simp only: that if_False)
qed

lemma ascendFrom_ascends:
  assumes "ascends table link (as_directories ascent) (as_stoppedAt ascent)" and "length (as_directories ascent) \<le> kMaxPathDepth"
  shows "ascends table link (as_directories (ascendFrom table ascent)) (as_stoppedAt (ascendFrom table ascent)) \<and>
    length (as_directories (ascendFrom table ascent)) \<le> kMaxPathDepth \<and>
    (length (as_directories (ascendFrom table ascent)) = kMaxPathDepth \<or> \<not> snd (climb table (ascendFrom table ascent)))"
  using assms
proof (induction "kMaxPathDepth - length (as_directories ascent)" arbitrary: ascent rule: less_induct)
  case less
  consider (full) "\<not> length (as_directories ascent) < kMaxPathDepth"
    | (on) ascent' where "length (as_directories ascent) < kMaxPathDepth" "climb table ascent = (ascent', True)"
    | (halt) ascent' where "length (as_directories ascent) < kMaxPathDepth" "climb table ascent = (ascent', False)"
    by (metis (full_types) surj_pair)
  then show ?case
  proof cases
    case full
    then show ?thesis using less.prems by (simp add: ascendFrom_cases(3))
  next
    case on
    note len = climb_grows [OF on(2)]
    have "kMaxPathDepth - length (as_directories ascent') < kMaxPathDepth - length (as_directories ascent)"
      "length (as_directories ascent') \<le> kMaxPathDepth" using on(1) len by simp_all
    from less.hyps [OF this(1) climb_True [OF on(2) less.prems(1)] this(2)] show ?thesis unfolding ascendFrom_cases(1) [OF on] .
  next
    case halt
    then show ?thesis using less.prems by (simp add: ascendFrom_cases(2))
  qed
qed

lemma joinPath_concat: "joinPath directories leaf = concat (map (\<lambda>d. d @ ''/'') (rev directories)) @ leaf"
proof -
  have "foldl (\<lambda>path directory. path @ directory @ ''/'') start ds = start @ concat (map (\<lambda>d. d @ ''/'') ds)" for start ds
    by (induction ds arbitrary: start) simp_all
  then show ?thesis by (simp add: joinPath_def)
qed

text \<open>
  C25: Rebuilding a path always ends, after at most 64 directories, even where parent
  references form a cycle. Every directory in the path was reached by a live link (its record
  parses, is a directory and still carries the sequence number the link remembers), the path spells
  the directories from the outermost one inwards, and an entry counts as reaching the root
  exactly when the last link names the root record. The walk stops early only at the root or at
  a link that is dead.
\<close>

theorem rebuilt_path_follows_live_links:
  "case preferredName (mv_names view) of
     None \<Rightarrow> resolveEntryPath table view = \<lparr>ep_path = [], ep_reachedRoot = False\<rparr>
   | Some self \<Rightarrow> \<exists>ds apex. ascends table (linkTo self) ds apex \<and> length ds \<le> 64 \<and>
       resolveEntryPath table view =
         \<lparr>ep_path = concat (map (\<lambda>d. d @ ''/'') (rev ds)) @ nameText self, ep_reachedRoot = (pl_record apex = 5)\<rparr> \<and>
       (length ds = 64 \<or> pl_record apex = 5 \<or> stepUp table apex = None)"
proof (cases "preferredName (mv_names view)")
  case (Some self)
  let ?asc = "ascend table (linkTo self)"
  have "ascends table (linkTo self) (as_directories ?asc) (as_stoppedAt ?asc)" "length (as_directories ?asc) \<le> kMaxPathDepth"
    and stop: "length (as_directories ?asc) = kMaxPathDepth \<or> \<not> snd (climb table ?asc)"
    using ascendFrom_ascends [of table "linkTo self" "\<lparr>as_directories = [], as_stoppedAt = linkTo self\<rparr>"]
    by (auto simp: ascend_def intro: ascends.here)
  moreover have "pl_record (as_stoppedAt ?asc) = kRootRecordNumber \<or> stepUp table (as_stoppedAt ?asc) = None" if "\<not> snd (climb table ?asc)"
    using that by (auto simp: climb_def split: if_splits option.splits)
  ultimately show ?thesis
    using Some by (auto simp: resolveEntryPath_def joinPath_concat kMaxPathDepth_def kRootRecordNumber_def Let_def)
qed (simp add: resolveEntryPath_def)

subsection \<open>Enumeration\<close>

definition reported :: "MftTable \<Rightarrow> u64 \<Rightarrow> RecoveredEntry option" where
  "reported table number = (case readRecord table number of Inl _ \<Rightarrow> None | Inr view \<Rightarrow> reportRecord table view)"

definition unreadable :: "MftTable \<Rightarrow> u64 \<Rightarrow> bool" where
  "unreadable table number = (case readRecord table number of Inl e \<Rightarrow> err_code e = kIoFailure | Inr _ \<Rightarrow> False)"

lemma stepRecord_eq:
  "stepRecord table number = (if unreadable table number then Inl (projl (readRecord table number)) else Inr (reported table number))"
  by (auto simp: stepRecord_def unreadable_def reported_def split: sum.splits)

lemma enumerateFrom_eq:
  "enumerateFrom table number stats =
     (let good = takeWhile (\<lambda>k. \<not> unreadable table k) [number..<mt_recordCount table];
          entries = List.map_filter (reported table) good
      in (entries,
          if number + length good < mt_recordCount table then Inl (projl (readRecord table (number + length good)))
          else Inr (if good = [] then stats
            else \<lparr>es_recordsScanned = wrap64 (es_recordsScanned stats + length good),
                  es_entriesReported = wrap64 (es_entriesReported stats + length entries), es_nonConformingVolume = False\<rparr>)))"
proof (induction table number stats rule: enumerateFrom.induct)
  case (1 table number stats)
  show ?case
  proof (cases "number < mt_recordCount table")
    case True
    then have slots: "[number..<mt_recordCount table] = number # [number + 1..<mt_recordCount table]" by (simp add: upt_conv_Cons)
    show ?thesis
    proof (cases "unreadable table number")
      case bad: True
      then show ?thesis using True by (simp add: enumerateFrom.simps [of table number] slots countRecord_def stepRecord_eq mapResult_def List.map_filter_def)
    next
      case ok: False
      let ?stats = "\<lparr>es_recordsScanned = wrap64 (es_recordsScanned stats + 1),
           es_entriesReported = wrap64 (es_entriesReported stats + (if reported table number \<noteq> None then 1 else 0)),
           es_nonConformingVolume = False\<rparr>"
      have count: "countRecord table number stats = Inr (reported table number, ?stats)"
        using ok by (simp add: countRecord_def stepRecord_eq mapResult_def)
      note IH = "1.IH" [OF True count refl]
      show ?thesis
        using True ok IH
        by (subst enumerateFrom.simps)
           (auto simp: count slots Let_def List.map_filter_simps add.assoc wrap64_def mod_simps split: option.splits)
    qed
  next
    case False
    then show ?thesis by (simp add: enumerateFrom.simps [of table number] List.map_filter_def)
  qed
qed


subsection \<open>What an entry promises\<close>

lemma mapped_extents_bounds:
  assumes "andThen (decodeRunlist raw) (\<lambda>runlist. runlistExtents runlist g realSize) = Inr extents" and "0 < ng_bytesPerCluster g"
  shows "list_all (\<lambda>x. 0 < lengthBytes x \<and> deviceOffset x + lengthBytes x \<le> ng_totalClusters g * ng_bytesPerCluster g) extents \<and>
    span_length extents = realSize \<and> ng_totalClusters g * ng_bytesPerCluster g \<le> max64"
proof -
  obtain runlist where dec: "decodeRunlist raw = Inr runlist" and ext: "runlistExtents runlist g realSize = Inr extents"
    using assms(1) by (auto simp: andThen_Inr_iff)
  have small: "ng_totalClusters g * ng_bytesPerCluster g \<le> max64"
    using ext by (auto simp: runlistExtents_def andThen_Inr_iff volumeByteSize_def safeMul64_exact split: if_splits)
  let ?content = "replicate (ng_totalClusters g * ng_bytesPerCluster g) 0 :: bytes"
  have "\<forall>run \<in> set (rl_runs runlist). 0 < dr_lengthClusters run" using decoded_runs_positive [OF dec] by blast
  from runlistExtents_Inr [OF ext this assms(2), of ?content] small
  have "list_all (extent_inside ?content) extents" "\<forall>e \<in> set extents. 0 < lengthBytes e"
    and "length (span_bytes ?content extents) = realSize" by auto
  then show ?thesis using length_span_bytes [of ?content extents] small by (auto simp: list_all_iff extent_inside_def)
qed

lemma entryFromRecord_exact:
  assumes "view_ok rec view" and "0 < ng_bytesPerCluster g"
  shows "entry_exact (min (ng_totalClusters g * ng_bytesPerCluster g) max64) (entryFromRecord view path g)"
proof (cases "mv_data view")
  case None
  then show ?thesis by (simp add: entryFromRecord_def contentOf_def noContent_def entry_exact_def stateOf_def gradeOf_def)
next
  case (Some data)
  show ?thesis
  proof (cases "md_resident data")
    case True
    then show ?thesis using Some assms(1)
      by (simp add: entryFromRecord_def contentOf_def dataContent_def entry_exact_def stateOf_def gradeOf_def view_ok_def)
  next
    case False
    let ?mapped = "andThen (decodeRunlist (md_runlistBytes data)) (\<lambda>runlist. runlistExtents runlist g (md_realSize data))"
    show ?thesis
    proof (cases ?mapped)
      case (Inl e)
      then show ?thesis using Some False
        by (simp add: entryFromRecord_def contentOf_def dataContent_def nonResidentContent_def entry_exact_def stateOf_def gradeOf_def)
    next
      case (Inr extents)
      then show ?thesis using Some False mapped_extents_bounds [OF Inr assms(2)]
        by (simp add: entryFromRecord_def contentOf_def dataContent_def nonResidentContent_def entry_exact_def stateOf_def gradeOf_def)
    qed
  qed
qed

lemma readRecord_view:
  assumes "readRecord table number = Inr view"
  obtains rec where "view_ok rec view"
proof -
  obtain raw where "the (parseMftRecord raw number) = Inr view"
    using assms by (auto simp: readRecord_def parseBlockAsRecord_def andThen_Inr_iff split: sum.splits)
  then have "parseMftRecord raw number = Some (Inr view)" using parseMftRecord_total [of raw number] by auto
  from parseMftRecord_view [OF this] show thesis using that by blast
qed

lemma enumerateEntries_exact:
  assumes "0 < ng_bytesPerCluster (mt_geometry table)"
  shows "list_all (entry_exact (min (ng_totalClusters (mt_geometry table) * ng_bytesPerCluster (mt_geometry table)) max64)) (fst (enumerateEntries table))"
proof -
  have "entry_exact (min (ng_totalClusters (mt_geometry table) * ng_bytesPerCluster (mt_geometry table)) max64) entry"
    if rep: "reported table k = Some entry" for k entry
  proof -
    obtain view where view: "readRecord table k = Inr view" and "entry = entryFromRecord view (resolveEntryPath table view) (mt_geometry table)"
      using rep by (auto simp: reported_def reportRecord_def split: sum.splits if_splits)
    with readRecord_view [OF view] entryFromRecord_exact [OF _ assms] show ?thesis by metis
  qed
  then show ?thesis
    unfolding enumerateEntries_def enumerateFrom_eq Let_def by (auto simp: list_all_iff List.map_filter_def) 
qed

lemma enumerated_weaker:
  assumes "0 < ng_bytesPerCluster (mt_geometry table)"
    and "min (ng_totalClusters (mt_geometry table) * ng_bytesPerCluster (mt_geometry table)) max64 \<le> volume"
  shows "list_all (entry_exact volume) (fst (enumerateEntries table))"
  using enumerateEntries_exact [OF assms(1)] entry_exact_mono [OF _ assms(2)] by (auto simp: list_all_iff)

lemma mountNtfs_Inr:
  assumes "mountNtfs device = Inr fs"
  obtains sector geometry table where "readMountRegion device \<lparr>mr_offset = 0, mr_length = 512\<rparr> = Inr sector"
    "parseBootSector sector = Inr geometry" "openMftTable device geometry = Inr table" "fs = \<lparr>fy_enumerate = enumerateEntries table\<rparr>"
  using assms by (auto simp: mountNtfs_def andThen_Inr_iff recognize_def mountedOn_def kBootSectorBytes_def split: if_splits)

lemma openMftTable_geometry: "openMftTable device g = Inr table \<Longrightarrow> mt_geometry table = g"
  by (auto simp: openMftTable_def mapResult_Inr_iff split: sum.splits)

text \<open>
  C20: Every entry a mounted NTFS volume reports tells the truth about its content: its
  extents are non-empty and inside the volume the boot sector describes, and either the content
  handed over (extents or resident bytes, never both) has exactly the stated size, or nothing is handed
  over and the entry is not graded valid. An orphaned entry is never graded valid.
\<close>

theorem ntfs_entries_state_their_content:
  "case readMountRegion device \<lparr>mr_offset = 0, mr_length = 512\<rparr> of
     Inl e \<Rightarrow> mountNtfs device = Inl e
   | Inr sector \<Rightarrow>
       (case parseBootSector sector of
          Inl _ \<Rightarrow> \<not> hasValue (mountNtfs device)
        | Inr geometry \<Rightarrow>
            (case mountNtfs device of
               Inl _ \<Rightarrow> True
             | Inr fs \<Rightarrow> list_all (entry_exact (ng_totalClusters geometry * ng_bytesPerCluster geometry)) (fst (fy_enumerate fs))))"
proof (cases "readMountRegion device \<lparr>mr_offset = 0, mr_length = 512\<rparr>")
  case (Inl e)
  then show ?thesis by (simp add: mountNtfs_def kBootSectorBytes_def)
next
  case sector: (Inr sector)
  show ?thesis
  proof (cases "parseBootSector sector")
    case (Inl e)
    then show ?thesis using sector by (auto simp: hasValue_iff elim!: mountNtfs_Inr)
  next
    case geometry: (Inr geometry)
    then have "0 < ng_bytesPerCluster geometry" using boot_geometry_bounds by (auto simp: parseBootSector_Inr_iff)
    then show ?thesis using sector geometry enumerated_weaker
      by (auto elim!: mountNtfs_Inr dest!: openMftTable_geometry split: sum.splits)
  qed
qed

interpretation ntfs: filesystem_driver mountNtfs
proof
  fix device fs
  assume "mountNtfs device = Inr fs"
  then obtain sector geometry table where parts: "parseBootSector sector = Inr geometry" "openMftTable device geometry = Inr table"
      "fs = \<lparr>fy_enumerate = enumerateEntries table\<rparr>"
    by (rule mountNtfs_Inr)
  then have "0 < ng_bytesPerCluster geometry" using boot_geometry_bounds by (auto simp: parseBootSector_Inr_iff)
  then show "list_all (entry_exact max64) (fst (fy_enumerate fs))"
    using parts enumerated_weaker [of table max64] openMftTable_geometry by simp
qed

end
