(* ===== verification/ClusterChains.thy ===== *)
theory ClusterChains
  imports FileSystems
begin

text \<open>
  \<open>src/fs/ClusterChain.cpp\<close> and \<open>DirectoryTreeWalk.cpp/.hpp\<close>: following a chain of clusters
  through an allocation table, restating it as extents, and the parts of a directory walk that FAT32
  and exFAT share. Clusters are 32-bit numbers; offsets wrap at 64 bits where the code's do.
  The templates of \<open>DirectoryTreeWalk.hpp\<close> are higher-order functions over the state of the walk; the worklist
  loop has no bound of its own, so its value is \<^term>\<open>None\<close> where it would not end, and
  the locale \<open>worklist\<close> is what a walk has to show for it to end.
\<close>

subsection \<open>Chains\<close>

definition kFirstCluster :: u32 where "kFirstCluster = 2"
definition kClusterMask :: u32 where "kClusterMask = 0x0FFFFFFF"
definition kEndOfChain :: u32 where "kEndOfChain = 0x0FFFFFF8"
definition kEntryBytes :: size_t where "kEntryBytes = 4"

record ClusterGeometry =
  cg_bytesPerCluster :: u32
  cg_tableOffsetBytes :: u64
  cg_tableSizeBytes :: u64
  cg_dataOffsetBytes :: u64
  cg_totalClusters :: u64

record ClusterChain =
  cc_device :: BlockDevice
  cc_geometry :: ClusterGeometry

definition decodeEntry :: "bytes \<Rightarrow> u32" where
  "decodeEntry raw = and (leNat raw) kClusterMask"

definition isDataCluster :: "ClusterChain \<Rightarrow> u32 \<Rightarrow> bool" where
  "isDataCluster table val \<longleftrightarrow> val \<ge> kFirstCluster \<and> val < wrap64 (kFirstCluster + cg_totalClusters (cc_geometry table))"

definition entryAt :: "ClusterChain \<Rightarrow> u32 \<Rightarrow> u32 result" where
  "entryAt table cluster =
     (let geometry = cc_geometry table;
          off = wrap64 (cg_tableOffsetBytes geometry + wrap64 (cluster * kEntryBytes))
      in if wrap64 (off + kEntryBytes) > wrap64 (cg_tableOffsetBytes geometry + cg_tableSizeBytes geometry)
         then Inl (mkError kOutOfRange off)
         else mapResult (volumeRead (cc_device table) off kEntryBytes) decodeEntry)"

definition chainEnd :: "u32 result \<Rightarrow> u32 list \<Rightarrow> u32 list result" where
  "chainEnd final clusters =
     (case final of
        Inl e \<Rightarrow> Inl e
      | Inr val \<Rightarrow> if val < kEndOfChain then Inl (mkError kInvalidArgument val) else Inr clusters)"

function chainLoop :: "ClusterChain \<Rightarrow> u32 list \<Rightarrow> u32 result \<Rightarrow> u32 list result" where
  "chainLoop table clusters cluster =
     (case cluster of
        Inl e \<Rightarrow> chainEnd cluster clusters
      | Inr val \<Rightarrow>
          if isDataCluster table val
          then if length clusters \<ge> cg_totalClusters (cc_geometry table) then Inl (mkError kOutOfRange (length clusters))
               else chainLoop table (clusters @ [val]) (entryAt table val)
          else chainEnd cluster clusters)"
  by pat_completeness auto
termination
  by (relation "measure (\<lambda>(table, clusters, cluster). cg_totalClusters (cc_geometry table) - length clusters)") auto

declare chainLoop.simps [simp del]

definition chainFrom :: "ClusterChain \<Rightarrow> u32 \<Rightarrow> u32 list result" where
  "chainFrom table first = chainLoop table [] (Inr first)"

definition clusterOffset :: "ClusterGeometry \<Rightarrow> u32 \<Rightarrow> u64" where
  "clusterOffset geometry cluster =
     (let index = wrap_sub64 cluster kFirstCluster
      in wrap64 (cg_dataOffsetBytes geometry + wrap64 (index * cg_bytesPerCluster geometry)))"

definition appendCluster :: "ClusterGeometry \<Rightarrow> Extent list \<Rightarrow> u32 \<Rightarrow> Extent list" where
  "appendCluster geometry extents cluster =
     Extents.appendExtent extents \<lparr>deviceOffset = clusterOffset geometry cluster, lengthBytes = cg_bytesPerCluster geometry\<rparr>"

definition chainExtents :: "u32 list \<Rightarrow> ClusterGeometry \<Rightarrow> u64 \<Rightarrow> Extent list result" where
  "chainExtents clusters geometry sizeBytes =
     (if clusters = [] \<or> sizeBytes = 0 then Inr []
      else trimToSize (foldl (appendCluster geometry) [] clusters) sizeBytes)"

definition extentsFollowingChain :: "ClusterChain \<Rightarrow> u32 \<Rightarrow> u64 \<Rightarrow> Extent list" where
  "extentsFollowingChain table first sizeBytes =
     (case chainFrom table first of
        Inl _ \<Rightarrow> []
      | Inr clusters \<Rightarrow> (case chainExtents clusters (cc_geometry table) sizeBytes of Inl _ \<Rightarrow> [] | Inr extents \<Rightarrow> extents))"

definition extentsAssumingContiguous :: "ClusterChain \<Rightarrow> u32 \<Rightarrow> u64 \<Rightarrow> Extent list" where
  "extentsAssumingContiguous table first sizeBytes =
     (let geometry = cc_geometry table
      in if sizeBytes = 0 then []
         else let clusters = (sizeBytes - 1) div cg_bytesPerCluster geometry + 1
              in if wrap64 (first + clusters) > wrap64 (kFirstCluster + cg_totalClusters geometry) then []
                 else [\<lparr>deviceOffset = clusterOffset geometry first, lengthBytes = sizeBytes\<rparr>])"

subsection \<open>Walking directories\<close>

definition joinedPath :: "string \<Rightarrow> string \<Rightarrow> string" where
  "joinedPath parent name = (if parent = [] then name else parent @ ''/'' @ name)"

definition appendClusterBytes :: "bytes \<Rightarrow> ClusterChain \<Rightarrow> u32 \<Rightarrow> bytes result" where
  "appendClusterBytes sofar chain cluster =
     mapResult (volumeRead (cc_device chain) (clusterOffset (cc_geometry chain) cluster) (cg_bytesPerCluster (cc_geometry chain)))
       (\<lambda>got. sofar @ got)"

fun readDirectoryFrom :: "ClusterChain \<Rightarrow> u32 list \<Rightarrow> size_t \<Rightarrow> bytes \<Rightarrow> bytes result" where
  "readDirectoryFrom chain [] capBytes sofar = Inr sofar"
| "readDirectoryFrom chain (cluster # clusters) capBytes sofar =
     (if length sofar < capBytes
      then andThen (appendClusterBytes sofar chain cluster) (readDirectoryFrom chain clusters capBytes)
      else Inr sofar)"

definition readDirectoryBytes :: "ClusterChain \<Rightarrow> u32 list \<Rightarrow> size_t \<Rightarrow> bytes result" where
  "readDirectoryBytes chain clusters capBytes = readDirectoryFrom chain clusters capBytes []"

definition skipUnreadableDirectory :: "Error \<Rightarrow> u64 result" where
  "skipUnreadableDirectory e = (if err_code e = kIoFailure then Inl e else Inr 0)"

definition walkOneDirectory :: "bytes result \<Rightarrow> (bytes \<Rightarrow> 's \<Rightarrow> u64 \<times> 's) \<Rightarrow> 's \<Rightarrow> u64 result \<times> 's" where
  "walkOneDirectory got walkSlots state =
     (case got of
        Inl e \<Rightarrow> (skipUnreadableDirectory e, state)
      | Inr raw \<Rightarrow> (case walkSlots raw state of (cnt, state') \<Rightarrow> (Inr cnt, state')))"

definition slotsOf :: "bytes \<Rightarrow> size_t \<Rightarrow> bytes list" where
  "slotsOf raw slotBytes = map (\<lambda>i. take slotBytes (drop (i * slotBytes) raw)) [0..<length raw div slotBytes]"

definition foldSlots :: "bytes \<Rightarrow> size_t \<Rightarrow> (bytes \<Rightarrow> 's \<Rightarrow> u64 \<times> 's) \<Rightarrow> 's \<Rightarrow> u64 \<times> 's" where
  "foldSlots raw slotBytes visit state =
     foldl (\<lambda>(cnt, s) slot. case visit slot s of (n, s') \<Rightarrow> (wrap64 (cnt + n), s')) (0, state) (slotsOf raw slotBytes)"

definition takeBack :: "'c list \<Rightarrow> 'c \<times> 'c list" where
  "takeBack pending = (last pending, butlast pending)"

partial_function (option) driveWorklistFrom ::
    "('c \<Rightarrow> 'c list \<times> 's \<Rightarrow> u64 result \<times> 'c list \<times> 's) \<Rightarrow> 'c list \<Rightarrow> 's \<Rightarrow> u64 \<Rightarrow> (u64 result \<times> 's) option" where
  "driveWorklistFrom walk pending state cnt =
     (if pending = [] then Some (Inr cnt, state)
      else case takeBack pending of
             (next, rest) \<Rightarrow>
               (case walk next (rest, state) of
                  (found, pending', state') \<Rightarrow>
                    (case found of
                       Inl e \<Rightarrow> Some (Inl e, state')
                     | Inr n \<Rightarrow> driveWorklistFrom walk pending' state' (wrap64 (cnt + n)))))"

definition driveWorklist ::
    "('c \<Rightarrow> 'c list \<times> 's \<Rightarrow> u64 result \<times> 'c list \<times> 's) \<Rightarrow> 'c list \<Rightarrow> 's \<Rightarrow> (u64 result \<times> 's) option" where
  "driveWorklist walk pending state = driveWorklistFrom walk pending state 0"

subsection \<open>What a chain is\<close>

fun links :: "ClusterChain \<Rightarrow> u32 \<Rightarrow> u32 list \<Rightarrow> bool" where
  "links table at [] \<longleftrightarrow> \<not> isDataCluster table at \<and> kEndOfChain \<le> at"
| "links table at (cluster # clusters) \<longleftrightarrow>
     cluster = at \<and> isDataCluster table at \<and>
     (case entryAt table at of Inl _ \<Rightarrow> False | Inr next \<Rightarrow> links table next clusters)"

lemma links_unique: "links table at xs \<Longrightarrow> links table at ys \<Longrightarrow> xs = ys"
proof (induction xs arbitrary: at ys)
  case Nil
  then show ?case by (cases ys) simp_all
next
  case (Cons x xs)
  then show ?case by (cases ys) (auto split: sum.splits)
qed

lemma links_suffix: "links table at (xs @ d # ys) \<Longrightarrow> links table d (d # ys)"
  by (induction xs arbitrary: at) (auto split: sum.splits)

lemma links_data: "links table at clusters \<Longrightarrow> list_all (isDataCluster table) clusters"
  by (induction clusters arbitrary: at) (auto split: sum.splits)

lemma links_distinct: "links table at clusters \<Longrightarrow> distinct clusters"
proof (induction clusters arbitrary: at)
  case (Cons c cs)
  have "c \<notin> set cs"
  proof
    assume "c \<in> set cs"
    then obtain xs ys where split: "cs = xs @ c # ys" by (meson split_list)
    have "links table c (c # ys)" using links_suffix [of table at "c # xs" c ys] Cons.prems split by simp
    moreover have "links table c (c # cs)" using Cons.prems by simp
    ultimately have "c # ys = c # cs" by (rule links_unique)
    then show False using split by simp
  qed
  then show ?case using Cons by (auto split: sum.splits)
qed simp

lemma isDataCluster_range: "isDataCluster table c \<Longrightarrow> c \<in> {2..<2 + cg_totalClusters (cc_geometry table)}"
proof -
  have "wrap64 n \<le> n" for n by (simp add: wrap64_def)
  from this [of "kFirstCluster + cg_totalClusters (cc_geometry table)"]
  show "isDataCluster table c \<Longrightarrow> c \<in> {2..<2 + cg_totalClusters (cc_geometry table)}"
    by (auto simp: isDataCluster_def kFirstCluster_def)
qed

lemma distinct_data_bounded:
  assumes "distinct clusters" and "list_all (isDataCluster table) clusters"
  shows "length clusters \<le> cg_totalClusters (cc_geometry table)"
proof -
  have "set clusters \<subseteq> {2..<2 + cg_totalClusters (cc_geometry table)}" using assms(2) isDataCluster_range by (auto simp: list_all_iff)
  then have "card (set clusters) \<le> card {2..<2 + cg_totalClusters (cc_geometry table)}" by (rule card_mono [rotated]) simp
  then show ?thesis using distinct_card [OF assms(1)] by simp
qed

lemma chainLoop_iff:
  "chainLoop table clusters (Inr at) = Inr whole \<longleftrightarrow>
     (\<exists>more. whole = clusters @ more \<and> links table at more \<and>
        (more = [] \<or> length clusters + length more \<le> cg_totalClusters (cc_geometry table)))"
proof (induction "cg_totalClusters (cc_geometry table) - length clusters" arbitrary: clusters at rule: less_induct)
  case less
  let ?total = "cg_totalClusters (cc_geometry table)"
  consider (stop) "\<not> isDataCluster table at" | (full) "isDataCluster table at" "?total \<le> length clusters"
    | (on) "isDataCluster table at" "length clusters < ?total" by fastforce
  then show ?case
  proof cases
    case stop
    then have "links table at more \<longleftrightarrow> more = [] \<and> kEndOfChain \<le> at" for more by (cases more) auto
    then show ?thesis using stop by (auto simp: chainLoop.simps [of table clusters] chainEnd_def)
  next
    case full
    then have "\<not> (links table at more \<and> (more = [] \<or> length clusters + length more \<le> ?total))" for more by (cases more) auto
    then show ?thesis using full by (auto simp: chainLoop.simps [of table clusters])
  next
    case on
    have next_iff: "links table at more \<longleftrightarrow> (\<exists>rest nxt. more = at # rest \<and> entryAt table at = Inr nxt \<and> links table nxt rest)" for more
      using on(1) by (cases more) (auto split: sum.splits)
    show ?thesis
    proof (cases "entryAt table at")
      case (Inl e)
      then show ?thesis using on next_iff
        by (simp add: chainLoop.simps [of table clusters] chainLoop.simps [of table "clusters @ [at]"] chainEnd_def)
    next
      case (Inr nxt)
      have "?total - length (clusters @ [at]) < ?total - length clusters" using on(2) by simp
      from less.hyps [OF this, of nxt] show ?thesis
        using on Inr by (auto simp: chainLoop.simps [of table clusters "Inr at"] next_iff Suc_le_eq)
    qed
  qed
qed

lemma chainFrom_iff: "chainFrom table first = Inr clusters \<longleftrightarrow> links table first clusters"
  using links_distinct links_data distinct_data_bounded by (fastforce simp: chainFrom_def chainLoop_iff)

text \<open>
  C33: Following a cluster chain always ends, and it accepts exactly the chains whose every
  link is a data cluster and whose last entry is an end-of-chain marker. Such a chain never names a cluster twice, so the
  limit of as many links as the volume has clusters, which ends a crafted cycle, never cuts
  short a chain that ends.
\<close>

theorem cluster_chain_is_followed_to_its_end:
  "chainFrom table first = Inr clusters \<longleftrightarrow>
     links table first clusters \<and> distinct clusters \<and> length clusters \<le> cg_totalClusters (cc_geometry table)"
  using chainFrom_iff links_distinct links_data distinct_data_bounded by blast

subsection \<open>The bytes of a chain\<close>

definition holds_clusters :: "bytes \<Rightarrow> ClusterGeometry \<Rightarrow> bool" where
  "holds_clusters content g \<longleftrightarrow>
     0 < cg_bytesPerCluster g \<and> cg_dataOffsetBytes g + cg_totalClusters g * cg_bytesPerCluster g \<le> length content \<and>
     length content \<le> max64"

definition cluster_at :: "bytes \<Rightarrow> ClusterGeometry \<Rightarrow> u32 \<Rightarrow> bytes" where
  "cluster_at content g c = take (cg_bytesPerCluster g) (drop (cg_dataOffsetBytes g + (c - 2) * cg_bytesPerCluster g) content)"

lemma cluster_inside:
  assumes "holds_clusters content g" and "2 \<le> c" and "c + n \<le> 2 + cg_totalClusters g"
  shows "cg_dataOffsetBytes g + (c - 2) * cg_bytesPerCluster g + n * cg_bytesPerCluster g \<le> length content"
    and "clusterOffset g c = cg_dataOffsetBytes g + (c - 2) * cg_bytesPerCluster g"
proof -
  have "(c - 2 + n) * cg_bytesPerCluster g \<le> cg_totalClusters g * cg_bytesPerCluster g" using assms(2,3) by (intro mult_le_mono1) simp
  then show fit: "cg_dataOffsetBytes g + (c - 2) * cg_bytesPerCluster g + n * cg_bytesPerCluster g \<le> length content"
    using assms(1) unfolding holds_clusters_def add_mult_distrib by linarith
  have "cg_dataOffsetBytes g + (c - 2) * cg_bytesPerCluster g \<le> max64" using fit assms(1) by (simp add: holds_clusters_def)
  then show "clusterOffset g c = cg_dataOffsetBytes g + (c - 2) * cg_bytesPerCluster g"
    using assms(2) by (simp add: clusterOffset_def kFirstCluster_def wrap_sub64_def)
qed

lemma data_cluster_inside:
  assumes "holds_clusters content (cc_geometry table)" and "isDataCluster table c"
  shows "clusterOffset (cc_geometry table) c + cg_bytesPerCluster (cc_geometry table) \<le> length content"
    and "extent_bytes content \<lparr>deviceOffset = clusterOffset (cc_geometry table) c, lengthBytes = cg_bytesPerCluster (cc_geometry table)\<rparr> =
      cluster_at content (cc_geometry table) c"
    and "length (cluster_at content (cc_geometry table) c) = cg_bytesPerCluster (cc_geometry table)"
proof -
  have "2 \<le> c" "c + 1 \<le> 2 + cg_totalClusters (cc_geometry table)" using isDataCluster_range [OF assms(2)] by auto
  note fit = cluster_inside [OF assms(1) this]
  show "clusterOffset (cc_geometry table) c + cg_bytesPerCluster (cc_geometry table) \<le> length content" using fit by simp
  show "extent_bytes content \<lparr>deviceOffset = clusterOffset (cc_geometry table) c, lengthBytes = cg_bytesPerCluster (cc_geometry table)\<rparr> =
      cluster_at content (cc_geometry table) c" using fit(2) by (simp add: extent_bytes_def cluster_at_def)
  show "length (cluster_at content (cc_geometry table) c) = cg_bytesPerCluster (cc_geometry table)" using fit(1) by (simp add: cluster_at_def)
qed

lemma appendExtent_positive:
  "\<forall>e \<in> set es. 0 < lengthBytes e \<Longrightarrow> 0 < lengthBytes run \<Longrightarrow> list_all (extent_inside content) es \<Longrightarrow> extent_inside content run \<Longrightarrow>
   length content \<le> max64 \<Longrightarrow> \<forall>e \<in> set (Extents.appendExtent es run). 0 < lengthBytes e"
proof -
  assume pos: "\<forall>e \<in> set es. 0 < lengthBytes e" "0 < lengthBytes run" and inside: "list_all (extent_inside content) es" "extent_inside content run"
    and small: "length content \<le> max64"
  show ?thesis
  proof (cases "es \<noteq> [] \<and> continues (last es) run")
    case True
    then have l: "last es \<in> set es" by simp
    then have "deviceOffset (last es) + lengthBytes (last es) \<le> max64" using inside(1) small by (auto simp: list_all_iff extent_inside_def)
    then have "deviceOffset run = deviceOffset (last es) + lengthBytes (last es)" using True by (simp add: continues_def)
    then have "lengthBytes (last es) + lengthBytes run \<le> max64" using inside(2) small by (simp add: extent_inside_def)
    then show ?thesis using True pos l by (auto simp: Extents.appendExtent_def dest: in_set_butlastD)
  qed (use pos in \<open>auto simp: Extents.appendExtent_def\<close>)
qed

lemma appendClusters:
  assumes "holds_clusters content (cc_geometry table)" and "list_all (isDataCluster table) clusters"
    and "list_all (extent_inside content) es" and "\<forall>e \<in> set es. 0 < lengthBytes e"
  shows "span_bytes content (foldl (appendCluster (cc_geometry table)) es clusters) =
      span_bytes content es @ concat (map (cluster_at content (cc_geometry table)) clusters) \<and>
    list_all (extent_inside content) (foldl (appendCluster (cc_geometry table)) es clusters) \<and>
    (\<forall>e \<in> set (foldl (appendCluster (cc_geometry table)) es clusters). 0 < lengthBytes e)"
  using assms(2-4)
proof (induction clusters arbitrary: es)
  case (Cons c cs)
  let ?run = "\<lparr>deviceOffset = clusterOffset (cc_geometry table) c, lengthBytes = cg_bytesPerCluster (cc_geometry table)\<rparr>"
  have c: "isDataCluster table c" using Cons.prems by simp
  have small: "length content \<le> max64" "0 < lengthBytes ?run" using assms(1) by (simp_all add: holds_clusters_def)
  have inside: "extent_inside content ?run" using data_cluster_inside(1) [OF assms(1) c] by (simp add: extent_inside_def)
  note app = appendExtent_bytes [OF Cons.prems(2) inside small(1)] appendExtent_positive [OF Cons.prems(3) small(2) Cons.prems(2) inside small(1)]
  have "list_all (isDataCluster table) cs" using Cons.prems by simp
  from Cons.IH [OF this app(2,3)] show ?case
    using app(1) data_cluster_inside(2) [OF assms(1) c] by (simp add: appendCluster_def)
qed simp

lemma length_clusters:
  "holds_clusters content (cc_geometry table) \<Longrightarrow> list_all (isDataCluster table) clusters \<Longrightarrow>
   length (concat (map (cluster_at content (cc_geometry table)) clusters)) = length clusters * cg_bytesPerCluster (cc_geometry table)"
  by (induction clusters) (simp_all add: data_cluster_inside(3))

lemma chained_extents:
  assumes "holds_clusters content (cc_geometry table)"
  shows "list_all (extent_inside content) (extentsFollowingChain table first sizeBytes) \<and>
    (\<forall>e \<in> set (extentsFollowingChain table first sizeBytes). 0 < lengthBytes e) \<and>
    (case chainFrom table first of
       Inl _ \<Rightarrow> extentsFollowingChain table first sizeBytes = []
     | Inr clusters \<Rightarrow>
         span_bytes content (extentsFollowingChain table first sizeBytes) =
           (if sizeBytes \<le> length clusters * cg_bytesPerCluster (cc_geometry table)
            then take sizeBytes (concat (map (cluster_at content (cc_geometry table)) clusters)) else []))"
proof (cases "chainFrom table first")
  case (Inr clusters)
  then have data: "list_all (isDataCluster table) clusters" using chainFrom_iff links_data by blast
  let ?all = "foldl (appendCluster (cc_geometry table)) [] clusters"
  note all = appendClusters [OF assms data, of "[]", simplified]
  have len: "span_length ?all = length clusters * cg_bytesPerCluster (cc_geometry table)"
    using length_span_bytes [of content ?all] length_clusters [OF assms data] all by simp
  show ?thesis
  proof (cases "clusters = [] \<or> sizeBytes = 0")
    case False
    then show ?thesis
      using Inr all len cut_span_bytes [of content ?all sizeBytes] cut_span_positive [of ?all sizeBytes]
      by (simp add: extentsFollowingChain_def chainExtents_def trimToSize_eq)
  qed (use Inr in \<open>auto simp: extentsFollowingChain_def chainExtents_def\<close>)
qed (simp add: extentsFollowingChain_def)

text \<open>
  A live file is read through its chain: when the chain of its first cluster ends properly and
  holds enough bytes, the extents handed back are non-empty, lie inside the volume and hold exactly the
  first bytes of the clusters of the chain, in chain order; when the chain holds too few bytes, or
  does not end, nothing is handed back.
\<close>

theorem chained_file_is_its_clusters:
  assumes "holds_clusters content (cc_geometry table)"
  shows "list_all (extent_inside content) (extentsFollowingChain table first sizeBytes) \<and>
    (\<forall>e \<in> set (extentsFollowingChain table first sizeBytes). 0 < lengthBytes e) \<and>
    (case chainFrom table first of
       Inl _ \<Rightarrow> extentsFollowingChain table first sizeBytes = []
     | Inr clusters \<Rightarrow>
         span_bytes content (extentsFollowingChain table first sizeBytes) =
           (if sizeBytes \<le> length clusters * cg_bytesPerCluster (cc_geometry table)
            then take sizeBytes (concat (map (cluster_at content (cc_geometry table)) clusters)) else []))"
  by (rule chained_extents [OF assms])

definition sampleTable :: ClusterChain where
  "sampleTable =
     (let content = [0, 0, 0, 0, 0, 0, 0, 0, 4, 0, 0, 0, 0, 0, 0, 0, 0xF8, 0xFF, 0xFF, 0x0F, 10, 11, 12]
      in \<lparr>cc_device = \<lparr>bd_size = 23, bd_sectorSize = 1, bd_readAt = \<lambda>off n. Inr (take n (drop off content))\<rparr>,
          cc_geometry = \<lparr>cg_bytesPerCluster = 1, cg_tableOffsetBytes = 0, cg_tableSizeBytes = 20, cg_dataOffsetBytes = 20, cg_totalClusters = 3\<rparr>\<rparr>)"

theorem chained_file_is_its_clusters_witness:
  "span_bytes [0, 0, 0, 0, 0, 0, 0, 0, 4, 0, 0, 0, 0, 0, 0, 0, 0xF8, 0xFF, 0xFF, 0x0F, 10, 11, 12]
     (extentsFollowingChain sampleTable 2 2) = [10, 12]"
proof -
  let ?content = "[0, 0, 0, 0, 0, 0, 0, 0, 4, 0, 0, 0, 0, 0, 0, 0, 0xF8, 0xFF, 0xFF, 0x0F, 10, 11, 12] :: bytes"
  have "holds_clusters ?content (cc_geometry sampleTable)"
    by (simp add: holds_clusters_def sampleTable_def max64_def)
  from chained_file_is_its_clusters [OF this, of 2 2]
  have "case chainFrom sampleTable 2 of
       Inl _ \<Rightarrow> extentsFollowingChain sampleTable 2 2 = []
     | Inr clusters \<Rightarrow>
         span_bytes ?content (extentsFollowingChain sampleTable 2 2) =
           (if 2 \<le> length clusters * cg_bytesPerCluster (cc_geometry sampleTable)
            then take 2 (concat (map (cluster_at ?content (cc_geometry sampleTable)) clusters)) else [])" by blast
  moreover have "chainFrom sampleTable 2 = Inr [2, 4]"
    by (simp add: chainFrom_iff isDataCluster_def entryAt_def sampleTable_def volumeRead_def decodeEntry_def mapResult_def
        kFirstCluster_def kEntryBytes_def kClusterMask_def kEndOfChain_def max64_def)
  moreover have "map (cluster_at ?content (cc_geometry sampleTable)) [2, 4] = [[10], [12]]" "cg_bytesPerCluster (cc_geometry sampleTable) = 1"
    by (simp_all add: cluster_at_def sampleTable_def)
  ultimately show ?thesis by simp
qed

lemma contiguous_extents:
  assumes "holds_clusters content (cc_geometry table)" and "isDataCluster table first" and "first \<le> max32"
    and "2 \<le> cg_bytesPerCluster (cc_geometry table)" and "sizeBytes \<le> max64"
  shows "list_all (extent_inside content) (extentsAssumingContiguous table first sizeBytes) \<and>
    (\<forall>e \<in> set (extentsAssumingContiguous table first sizeBytes). 0 < lengthBytes e) \<and>
    (extentsAssumingContiguous table first sizeBytes = [] \<or> span_length (extentsAssumingContiguous table first sizeBytes) = sizeBytes)"
proof (cases "extentsAssumingContiguous table first sizeBytes = []")
  case False
  let ?g = "cc_geometry table" and ?n = "(sizeBytes - 1) div cg_bytesPerCluster (cc_geometry table) + 1"
  have pos: "sizeBytes \<noteq> 0" and fits: "\<not> wrap64 (first + ?n) > wrap64 (kFirstCluster + cg_totalClusters ?g)"
      and ext: "extentsAssumingContiguous table first sizeBytes = [\<lparr>deviceOffset = clusterOffset ?g first, lengthBytes = sizeBytes\<rparr>]"
    using False by (auto simp: extentsAssumingContiguous_def Let_def split: if_splits)
  have "(sizeBytes - 1) div cg_bytesPerCluster ?g \<le> (sizeBytes - 1) div 2" using assms(4) by (intro div_le_mono2) simp_all
  then have n: "first + ?n \<le> max64" using assms(3,5) by (simp add: max64_def max32_def)
  have "wrap64 (kFirstCluster + cg_totalClusters ?g) \<le> 2 + cg_totalClusters ?g" by (simp add: wrap64_def kFirstCluster_def)
  then have "first + ?n \<le> 2 + cg_totalClusters ?g" using fits n by simp
  moreover have "2 \<le> first" using isDataCluster_range [OF assms(2)] by simp
  ultimately have inside: "cg_dataOffsetBytes ?g + (first - 2) * cg_bytesPerCluster ?g + ?n * cg_bytesPerCluster ?g \<le> length content"
      "clusterOffset ?g first = cg_dataOffsetBytes ?g + (first - 2) * cg_bytesPerCluster ?g"
    using cluster_inside [OF assms(1)] by blast+
  have "sizeBytes - 1 < ?n * cg_bytesPerCluster ?g"
    using assms(4) div_less_iff_less_mult [of "cg_bytesPerCluster ?g" "sizeBytes - 1" ?n] by simp
  then have "sizeBytes \<le> ?n * cg_bytesPerCluster ?g" by simp
  then show ?thesis using inside pos by (simp add: ext extent_inside_def)
qed simp

subsection \<open>Worklists that end\<close>

locale worklist =
  fixes walk :: "'c \<Rightarrow> 'c list \<times> 's \<Rightarrow> u64 result \<times> 'c list \<times> 's"
    and invariant :: "'c list \<Rightarrow> 's \<Rightarrow> u64 \<Rightarrow> bool"
    and stopped :: "Error \<Rightarrow> 's \<Rightarrow> bool"
    and cost :: "'c list \<Rightarrow> 's \<Rightarrow> nat"
  assumes step: "invariant pending s cnt \<Longrightarrow> pending \<noteq> [] \<Longrightarrow> walk (last pending) (butlast pending, s) = (found, pending', s') \<Longrightarrow>
    (case found of Inl e \<Rightarrow> stopped e s' | Inr n \<Rightarrow> invariant pending' s' (wrap64 (cnt + n)) \<and> cost pending' s' < cost pending s)"
begin

lemma drive_ends:
  "invariant pending s cnt \<Longrightarrow>
   \<exists>found s'. driveWorklistFrom walk pending s cnt = Some (found, s') \<and> (case found of Inl e \<Rightarrow> stopped e s' | Inr n \<Rightarrow> invariant [] s' n)"
proof (induction "cost pending s" arbitrary: pending s cnt rule: less_induct)
  case less
  show ?case
  proof (cases "pending = []")
    case True
    then show ?thesis using less.prems by (auto simp: driveWorklistFrom.simps)
  next
    case False
    obtain found pending' s' where walked: "walk (last pending) (butlast pending, s) = (found, pending', s')"
      by (metis prod_cases3)
    note after = step [OF less.prems False walked]
    show ?thesis
    proof (cases found)
      case (Inl e)
      then have "driveWorklistFrom walk pending s cnt = Some (Inl e, s')"
        using False walked by (subst driveWorklistFrom.simps) (simp add: takeBack_def)
      then show ?thesis using after Inl by simp
    next
      case (Inr n)
      then have "driveWorklistFrom walk pending s cnt = driveWorklistFrom walk pending' s' (wrap64 (cnt + n))"
        using False walked by (subst driveWorklistFrom.simps) (simp add: takeBack_def)
      then show ?thesis using less.hyps [of pending' s' "wrap64 (cnt + n)"] after Inr by simp
    qed
  qed
qed

end

lemma foldSlots_preserves:
  assumes "P 0 state" and "\<And>slot cnt s n s'. slot \<in> set (slotsOf raw slotBytes) \<Longrightarrow> P cnt s \<Longrightarrow> visit slot s = (n, s') \<Longrightarrow> P (wrap64 (cnt + n)) s'"
  shows "case foldSlots raw slotBytes visit state of (cnt, s) \<Rightarrow> P cnt s"
proof -
  have "case foldl (\<lambda>(cnt, s) slot. case visit slot s of (n, s') \<Rightarrow> (wrap64 (cnt + n), s')) (c, t) slots of (cnt, s) \<Rightarrow> P cnt s"
    if "P c t" "set slots \<subseteq> set (slotsOf raw slotBytes)" for c t slots
    using that
  proof (induction slots arbitrary: c t)
    case (Cons slot slots)
    obtain n t' where visit: "visit slot t = (n, t')" by (cases "visit slot t")
    then have "P (wrap64 (c + n)) t'" using Cons.prems assms(2) by auto
    then show ?case using Cons visit by simp
  qed simp
  from this [OF assms(1)] show ?thesis by (simp add: foldSlots_def)
qed

lemma wrap64_count: "wrap64 a = wrap64 (b + cnt) \<Longrightarrow> wrap64 (a + m) = wrap64 (b + wrap64 (cnt + m))"
  unfolding wrap64_def by (metis (no_types) add.assoc mod_add_left_eq mod_add_right_eq)

lemma slotsOf_length: "slot \<in> set (slotsOf raw slotBytes) \<Longrightarrow> length slot = slotBytes"
proof -
  assume "slot \<in> set (slotsOf raw slotBytes)"
  then obtain i where i: "i < length raw div slotBytes" and slot: "slot = take slotBytes (drop (i * slotBytes) raw)" by (auto simp: slotsOf_def)
  have "(i + 1) * slotBytes \<le> length raw div slotBytes * slotBytes" using i by (intro mult_le_mono1) simp
  then have "i * slotBytes + slotBytes \<le> length raw" using div_times_less_eq_dividend [of "length raw" slotBytes] unfolding add_mult_distrib by linarith
  then show ?thesis by (simp add: slot)
qed

subsection \<open>Directories\<close>

lemma volumeRead_serves:
  "serves device content \<Longrightarrow> off + n \<le> length content \<Longrightarrow> volumeRead device off n = Inr (take n (drop off content))"
  by (simp add: volumeRead_def serves_def)

lemma readDirectoryFrom_serves:
  assumes "serves (cc_device chain) content" and "holds_clusters content (cc_geometry chain)"
    and "list_all (isDataCluster chain) clusters"
  shows "\<exists>n. readDirectoryFrom chain clusters capBytes sofar =
      Inr (sofar @ concat (map (cluster_at content (cc_geometry chain)) (take n clusters))) \<and>
    (n < length clusters \<longrightarrow> capBytes \<le> length sofar + n * cg_bytesPerCluster (cc_geometry chain))"
  using assms(3)
proof (induction clusters arbitrary: sofar)
  case (Cons c cs)
  let ?g = "cc_geometry chain"
  show ?case
  proof (cases "length sofar < capBytes")
    case True
    have c: "isDataCluster chain c" using Cons.prems by simp
    note inside = data_cluster_inside [OF assms(2) c]
    have "volumeRead (cc_device chain) (clusterOffset ?g c) (cg_bytesPerCluster ?g) = Inr (cluster_at content ?g c)"
      using volumeRead_serves [OF assms(1) inside(1)] inside(2) by (simp add: extent_bytes_def)
    then have "readDirectoryFrom chain (c # cs) capBytes sofar = readDirectoryFrom chain cs capBytes (sofar @ cluster_at content ?g c)"
      using True by (simp add: appendClusterBytes_def mapResult_def)
    moreover obtain n where "readDirectoryFrom chain cs capBytes (sofar @ cluster_at content ?g c) =
          Inr ((sofar @ cluster_at content ?g c) @ concat (map (cluster_at content ?g) (take n cs)))"
        "n < length cs \<longrightarrow> capBytes \<le> length (sofar @ cluster_at content ?g c) + n * cg_bytesPerCluster ?g"
      using Cons.IH [of "sofar @ cluster_at content ?g c"] Cons.prems by auto
    ultimately show ?thesis using inside(3) by (intro exI [of _ "Suc n"]) (simp add: algebra_simps)
  next
    case False
    then show ?thesis by (intro exI [of _ 0]) simp
  qed
qed (intro exI [of _ 0], simp)

lemma span_zero: "\<forall>e \<in> set es. 0 < lengthBytes e \<Longrightarrow> span_length es = 0 \<Longrightarrow> es = []"
  by (cases es) auto

lemma located_extents:
  assumes "holds_clusters content (cc_geometry table)" and "2 \<le> cg_bytesPerCluster (cc_geometry table)"
    and "isDataCluster table first" and "first \<le> max32" and "sizeBytes \<le> max64"
    and "extents = extentsAssumingContiguous table first sizeBytes \<or> extents = extentsFollowingChain table first sizeBytes"
  shows "list_all (\<lambda>x. 0 < lengthBytes x \<and> deviceOffset x + lengthBytes x \<le> length content) extents \<and>
    (extents = [] \<or> span_length extents = sizeBytes)"
proof -
  have "list_all (extent_inside content) extents \<and> (\<forall>e \<in> set extents. 0 < lengthBytes e) \<and> (extents = [] \<or> span_length extents = sizeBytes)"
  proof (cases "extents = extentsAssumingContiguous table first sizeBytes")
    case True
    then show ?thesis using contiguous_extents [OF assms(1,3,4,2,5)] by simp
  next
    case False
    then have e: "extents = extentsFollowingChain table first sizeBytes" using assms(6) by simp
    note chained = chained_extents [OF assms(1), of first sizeBytes, folded e]
    show ?thesis
    proof (cases "chainFrom table first")
      case (Inr clusters)
      then have "list_all (isDataCluster table) clusters" using chainFrom_iff links_data by blast
      then have len: "length (concat (map (cluster_at content (cc_geometry table)) clusters)) = length clusters * cg_bytesPerCluster (cc_geometry table)"
        by (rule length_clusters [OF assms(1)])
      then have "span_length extents = sizeBytes \<or> span_length extents = 0"
        using chained Inr length_span_bytes [of content extents] by (auto split: if_splits)
      then show ?thesis using chained span_zero by blast
    qed (use chained in simp)
  qed
  then show ?thesis by (auto simp: list_all_iff extent_inside_def)
qed

subsection \<open>Trees whose directories are visited once\<close>

definition sound_volume :: "bytes \<Rightarrow> ClusterChain \<Rightarrow> bool" where
  "sound_volume content table \<longleftrightarrow> holds_clusters content (cc_geometry table) \<and> 2 \<le> cg_bytesPerCluster (cc_geometry table)"

definition visited_ok :: "ClusterChain \<Rightarrow> u32 \<Rightarrow> u32 list \<Rightarrow> bool" where
  "visited_ok table root visited \<longleftrightarrow> (\<exists>rest. visited = root # rest \<and> distinct visited \<and> list_all (isDataCluster table) rest)"

definition tree_cost :: "ClusterChain \<Rightarrow> u32 list \<Rightarrow> 'c list \<Rightarrow> nat" where
  "tree_cost table visited pending = 2 * (Suc (cg_totalClusters (cc_geometry table)) - length visited) + length pending"

lemma visited_ok_bounded: "visited_ok table root visited \<Longrightarrow> length visited \<le> Suc (cg_totalClusters (cc_geometry table))"
  using distinct_data_bounded by (fastforce simp: visited_ok_def)

lemma visited_ok_snoc:
  "visited_ok table root visited \<Longrightarrow> isDataCluster table c \<Longrightarrow> c \<notin> set visited \<Longrightarrow> visited_ok table root (visited @ [c])"
  by (auto simp: visited_ok_def)

lemma tree_cost_push:
  "visited_ok table root (visited @ [c]) \<Longrightarrow> tree_cost table (visited @ [c]) (pending @ [cursor]) \<le> tree_cost table visited pending"
  using visited_ok_bounded [of table root "visited @ [c]"] by (simp add: tree_cost_def)

lemma tree_cost_pop: "pending \<noteq> [] \<Longrightarrow> tree_cost table visited (butlast pending) < tree_cost table visited pending"
  by (simp add: tree_cost_def)

end
