(* ===== verification/DosTimes.thy ===== *)
theory DosTimes
  imports Bytes "HOL-Library.Signed_Division"
begin

text \<open>
  \<open>src/fs/DosTime.cpp\<close>, \<open>UnixTime.cpp\<close> and \<open>SlotReader.hpp\<close>: packed DOS dates and Unix seconds restated as
  FILETIME ticks, and fixed-offset reads inside a slot whose length was checked. Signed
  64-bit values that the code cannot drive out of range are integers.
\<close>

subsection \<open>Slots\<close>

definition slotReader :: "bytes \<Rightarrow> size_t \<Rightarrow> bytes result" where
  "slotReader slot slotBytes =
     (if length slot < slotBytes then Inl (mkError kOutOfRange (length slot)) else Inr (take slotBytes slot))"

definition slotByteAt :: "bytes \<Rightarrow> size_t \<Rightarrow> u8" where
  "slotByteAt reader off = (case bytesAt reader off 1 of Inl _ \<Rightarrow> 0 | Inr raw \<Rightarrow> unat (hd raw))"

definition slotFieldAt :: "nat \<Rightarrow> bytes \<Rightarrow> size_t \<Rightarrow> nat" where
  "slotFieldAt width reader off = (case readLe width reader off of Inl _ \<Rightarrow> 0 | Inr raw \<Rightarrow> raw)"

definition slotFieldBeAt :: "nat \<Rightarrow> bytes \<Rightarrow> size_t \<Rightarrow> nat" where
  "slotFieldBeAt width reader off = (case readBe width reader off of Inl _ \<Rightarrow> 0 | Inr raw \<Rightarrow> raw)"

subsection \<open>Unix seconds\<close>

definition kUnixEpochInFiletimeSeconds :: int where "kUnixEpochInFiletimeSeconds = 11644473600"
definition kTicksPerSecond :: u64 where "kTicksPerSecond = 10000000"

definition filetimeFromUnixSeconds :: "int \<Rightarrow> u64" where
  "filetimeFromUnixSeconds seconds =
     (if seconds = 0 then 0
      else wrap64 (nat ((seconds + kUnixEpochInFiletimeSeconds) mod 2 ^ 64) * kTicksPerSecond))"

subsection \<open>DOS dates\<close>

definition kSecondsPerDay :: int where "kSecondsPerDay = 86400"
definition kDosEpochYear :: int where "kDosEpochYear = 1980"

record DosTimestamp =
  dt_date :: u16
  dt_time :: u16

record Civil =
  cv_year :: int
  cv_month :: nat
  cv_day :: nat
  cv_hour :: nat
  cv_minute :: nat
  cv_second :: nat

definition unpack :: "DosTimestamp \<Rightarrow> Civil" where
  "unpack stamp =
     \<lparr>cv_year = kDosEpochYear + int (and (drop_bit 9 (dt_date stamp)) 0x7F),
      cv_month = and (drop_bit 5 (dt_date stamp)) 0x0F,
      cv_day = and (dt_date stamp) 0x1F,
      cv_hour = and (drop_bit 11 (dt_time stamp)) 0x1F,
      cv_minute = and (drop_bit 5 (dt_time stamp)) 0x3F,
      cv_second = and (dt_time stamp) 0x1F * 2\<rparr>"

definition isExpressible :: "Civil \<Rightarrow> bool" where
  "isExpressible civil \<longleftrightarrow>
     (let dateIsReal = cv_month civil \<ge> 1 \<and> cv_month civil \<le> 12 \<and> cv_day civil \<ge> 1 \<and> cv_day civil \<le> 31
      in dateIsReal \<and> cv_hour civil \<le> 23 \<and> cv_minute civil \<le> 59 \<and> cv_second civil \<le> 59)"

definition daysFromCivil :: "Civil \<Rightarrow> int" where
  "daysFromCivil civil =
     (let shifted = cv_year civil - (if cv_month civil \<le> 2 then 1 else 0);
          era = (if shifted \<ge> 0 then shifted else shifted - 399) sdiv 400;
          yearOfEra = nat (shifted - era * 400);
          marchBased = (if cv_month civil > 2 then cv_month civil - 3 else cv_month civil + 9);
          dayOfYear = (153 * marchBased + 2) div 5 + cv_day civil - 1;
          dayOfEra = yearOfEra * 365 + yearOfEra div 4 - yearOfEra div 100 + dayOfYear
      in era * 146097 + int dayOfEra - 719468)"

definition secondsOfDay :: "Civil \<Rightarrow> int" where
  "secondsOfDay civil = int (cv_hour civil) * 3600 + int (cv_minute civil) * 60 + int (cv_second civil)"

definition unixSecondsOf :: "Civil \<Rightarrow> int" where
  "unixSecondsOf civil = daysFromCivil civil * kSecondsPerDay + secondsOfDay civil"

definition toFiletime :: "DosTimestamp \<Rightarrow> u64" where
  "toFiletime stamp =
     (let civil = unpack stamp
      in if \<not> isExpressible civil then 0 else filetimeFromUnixSeconds (unixSecondsOf civil))"

subsection \<open>The calendar\<close>

definition leap :: "nat \<Rightarrow> bool" where
  "leap y \<longleftrightarrow> 4 dvd y \<and> (\<not> 100 dvd y \<or> 400 dvd y)"

definition month_days :: "nat \<Rightarrow> nat \<Rightarrow> nat" where
  "month_days y m = (if m = 2 then if leap y then 29 else 28 else if m \<in> {4, 6, 9, 11} then 30 else 31)"

definition year_days :: "nat \<Rightarrow> nat" where
  "year_days y = (if leap y then 366 else 365)"

text \<open>Days from 1601-01-01 to the first day of a month.\<close>

definition days_before :: "nat \<Rightarrow> nat \<Rightarrow> nat" where
  "days_before y m = sum_list (map year_days [1601..<y]) + sum_list (map (month_days y) [1..<m])"

lemma low_bits:
  "and n 0x7F = n mod (128 :: nat)" "and n 0x0F = n mod (16 :: nat)" "and n 0x1F = n mod (32 :: nat)" "and n 0x3F = n mod (64 :: nat)"
  using take_bit_eq_mask [of 7 n] take_bit_eq_mask [of 4 n] take_bit_eq_mask [of 5 n] take_bit_eq_mask [of 6 n]
  by (simp_all add: mask_eq_exp_minus_1 take_bit_eq_mod)

text \<open>The leap days up to the end of a year, and the days of the months from March.\<close>

definition leap_days :: "nat \<Rightarrow> int" where
  "leap_days y = int (y div 4) - int (y div 100) + int (y div 400)"

definition march_days :: "nat \<Rightarrow> nat" where
  "march_days m = (153 * m + 2) div 5"

definition era_days :: "nat \<Rightarrow> nat" where
  "era_days y = y * 365 + y div 4 - y div 100"

lemma div_step: "0 < y \<Longrightarrow> y div k = (y - 1) div k + (if k dvd y then 1 else 0)" for y k :: nat
  by (cases y) (simp_all add: div_Suc dvd_eq_mod_eq_0)

lemma year_days_step:
  assumes "0 < y"
  shows "int (year_days y) = 365 + leap_days y - leap_days (y - 1)"
proof -
  have "400 dvd y \<Longrightarrow> 100 dvd y" by (rule dvd_trans [of 100 400]) simp_all
  moreover have "100 dvd y \<Longrightarrow> 4 dvd y" by (rule dvd_trans [of 4 100]) simp_all
  moreover have "int (if a \<and> (\<not> b \<or> c) then 366 else 365) =
      365 + (int (p + (if a then 1 else 0)) - int (q + (if b then 1 else 0)) + int (r + (if c then 1 else 0))) - (int p - int q + int r)"
    if "c \<Longrightarrow> b" "b \<Longrightarrow> a" for a b c and p q r :: nat using that by auto
  ultimately show ?thesis
    unfolding year_days_def leap_def leap_days_def div_step [OF assms, of 4] div_step [OF assms, of 100] div_step [OF assms, of 400] by blast
qed

lemma years_closed:
  assumes "1601 \<le> y"
  shows "int (sum_list (map year_days [1601..<y])) = 365 * (int y - 1601) + leap_days (y - 1) - 388"
  using assms
proof (induction rule: dec_induct)
  case (step y)
  have "0 < y" using step.hyps by simp
  from year_days_step [OF this] show ?case using step by simp
qed (simp add: leap_days_def)

lemma era_closed: "int (s div 400) * 146097 + int (era_days (s mod 400)) = 365 * int s + leap_days s"
proof -
  define q r where "q = s div 400" and "r = s mod 400"
  have s: "s = 400 * q + r" and r: "r < 400" by (simp_all add: q_def r_def)
  have "s div 4 = 100 * q + r div 4" "s div 100 = 4 * q + r div 100" unfolding s
    using div_mult_self2 [of 4 r "100 * q"] div_mult_self2 [of 100 r "4 * q"] by simp_all
  moreover have "r div 100 \<le> r div 4" by (intro div_le_mono2) simp_all
  ultimately show ?thesis unfolding q_def [symmetric] r_def [symmetric] leap_days_def era_days_def using s by (simp add: of_nat_diff)
qed

lemma months_closed:
  assumes "1 \<le> m" and "m \<le> 12"
  shows "int (sum_list (map (month_days y) [1..<m])) =
    (if m > 2 then int (march_days (m - 3)) + 59 + (if leap y then 1 else 0) else int (march_days (m + 9)) - 306)"
proof -
  have "m = 1 \<or> m = 2 \<or> m = 3 \<or> m = 4 \<or> m = 5 \<or> m = 6 \<or> m = 7 \<or> m = 8 \<or> m = 9 \<or> m = 10 \<or> m = 11 \<or> m = 12"
    using assms by presburger
  then show ?thesis by (elim disjE) (simp_all add: month_days_def march_days_def upt_rec)
qed

lemma daysFromCivil_calendar:
  assumes "cv_year civil = int y" and "1601 \<le> y" and "1 \<le> cv_month civil" and "cv_month civil \<le> 12" and "1 \<le> cv_day civil"
  shows "daysFromCivil civil = int (days_before y (cv_month civil) + cv_day civil - 1) - 134774"
proof -
  define s where "s = (if cv_month civil \<le> 2 then y - 1 else y)"
  define march where "march = (if cv_month civil > 2 then cv_month civil - 3 else cv_month civil + 9)"
  have shifted: "cv_year civil - (if cv_month civil \<le> 2 then 1 else 0) = int s" using assms(1,2) by (simp add: s_def of_nat_diff)
  have era: "int s sdiv 400 = int (s div 400)" by (simp add: signed_divide_int_def sgn_if zdiv_int)
  have year: "nat (int s - int (s div 400) * 400) = s mod 400"
    by (metis minus_div_mult_eq_mod nat_int of_nat_mod of_nat_numeral zdiv_int)
  have "daysFromCivil civil = int (s div 400) * 146097 + int (era_days (s mod 400) + (march_days march + cv_day civil - 1)) - 719468"
    unfolding daysFromCivil_def Let_def shifted march_def [symmetric] if_P [OF of_nat_0_le_iff] era year era_days_def march_days_def by (rule refl)
  also have "\<dots> = 365 * int s + leap_days s + int (march_days march) + int (cv_day civil) - 719469"
    using era_closed [of s] assms(5) by simp
  also have "\<dots> = int (days_before y (cv_month civil)) + int (cv_day civil) - 1 - 134774"
  proof (cases "cv_month civil \<le> 2")
    case True
    then show ?thesis
      using years_closed [OF assms(2)] months_closed [OF assms(3,4), of y] assms(2) by (simp add: days_before_def march_def s_def of_nat_diff)
  next
    case False
    moreover have "(if leap y then 1 else 0) = int (year_days y) - 365" by (simp add: year_days_def)
    ultimately show ?thesis
      using years_closed [OF assms(2)] months_closed [OF assms(3,4), of y] year_days_step [of y] assms(2) by (simp add: days_before_def march_def s_def)
  qed
  finally show ?thesis using assms(5) by simp
qed

lemma days_before_bound: "days_before y m \<le> 366 * (y - 1601) + 31 * m"
proof -
  have "sum_list (map year_days [1601..<y]) \<le> sum_list (map (\<lambda>_. 366) [1601..<y])" by (rule sum_list_mono) (simp add: year_days_def)
  moreover have "sum_list (map (month_days y) [1..<m]) \<le> sum_list (map (\<lambda>_. 31) [1..<m])" by (rule sum_list_mono) (simp add: month_days_def)
  ultimately show ?thesis by (simp add: days_before_def sum_list_triv)
qed

lemma toFiletime_calendar:
  assumes "unpack stamp = \<lparr>cv_year = int y, cv_month = m, cv_day = d, cv_hour = h, cv_minute = mi, cv_second = s\<rparr>"
    and "1980 \<le> y" and "y \<le> 2107" and "d \<le> 31"
  shows "toFiletime stamp =
    (if 1 \<le> m \<and> m \<le> 12 \<and> 1 \<le> d \<and> h \<le> 23 \<and> mi \<le> 59 \<and> s \<le> 59
     then ((days_before y m + d - 1) * 86400 + h * 3600 + mi * 60 + s) * 10000000 else 0)"
proof (cases "isExpressible (unpack stamp)")
  case True
  then have fields: "1 \<le> m" "m \<le> 12" "1 \<le> d" "h \<le> 23" "mi \<le> 59" "s \<le> 59" by (simp_all add: assms(1) isExpressible_def)
  define k where "k = days_before y m + d - 1"
  define n where "n = k * 86400 + h * 3600 + mi * 60 + s"
  have "daysFromCivil (unpack stamp) = int k - 134774"
    using daysFromCivil_calendar [of "unpack stamp" y] fields assms(2) by (simp add: assms(1) k_def)
  then have secs: "unixSecondsOf (unpack stamp) = int n - 11644473600"
    by (simp add: unixSecondsOf_def secondsOfDay_def assms(1) kSecondsPerDay_def n_def algebra_simps)
  have "sum_list (map (\<lambda>_. 365) [1601..<y]) \<le> sum_list (map year_days [1601..<y])" by (rule sum_list_mono) (simp add: year_days_def)
  then have "365 * (y - 1601) \<le> days_before y m" by (simp add: sum_list_triv days_before_def)
  then have large: "11644473600 < n" using assms(2) fields(3) by (simp add: n_def k_def)
  have small: "n \<le> 10 ^ 12" using days_before_bound [of y m] assms(3,4) fields by (simp add: n_def k_def)
  have "toFiletime stamp = n * 10000000"
    using True small large secs
    by (simp add: toFiletime_def Let_def filetimeFromUnixSeconds_def kUnixEpochInFiletimeSeconds_def kTicksPerSecond_def max64_def)
  then show ?thesis using fields by (simp add: n_def k_def)
next
  case False
  then show ?thesis using assms(1,4) by (auto simp: toFiletime_def isExpressible_def)
qed

text \<open>
  A DOS timestamp is converted to the FILETIME of the same civil date and time: the
  days of the proleptic Gregorian calendar since 1601-01-01, counted year by year and month by month, plus
  the time of day, in ticks of 100 ns; nothing overflows, and a pair with a month, day or time DOS cannot express gives 0.
\<close>

theorem dos_timestamps_are_calendar_ticks:
  "toFiletime \<lparr>dt_date = date, dt_time = time\<rparr> =
     (let y = 1980 + date div 512 mod 128; m = date div 32 mod 16; d = date mod 32;
          h = time div 2048 mod 32; mi = time div 32 mod 64; s = time mod 32 * 2
      in if 1 \<le> m \<and> m \<le> 12 \<and> 1 \<le> d \<and> h \<le> 23 \<and> mi \<le> 59 \<and> s \<le> 59
         then ((days_before y m + d - 1) * 86400 + h * 3600 + mi * 60 + s) * 10000000 else 0)"
  unfolding Let_def
proof (rule toFiletime_calendar)
  show "unpack \<lparr>dt_date = date, dt_time = time\<rparr> =
      \<lparr>cv_year = int (1980 + date div 512 mod 128), cv_month = date div 32 mod 16, cv_day = date mod 32,
       cv_hour = time div 2048 mod 32, cv_minute = time div 32 mod 64, cv_second = time mod 32 * 2\<rparr>"
    by (simp add: unpack_def low_bits kDosEpochYear_def drop_bit_eq_div)
  show "1980 + date div 512 mod 128 \<le> 2107" using mod_less_divisor [of 128 "date div 512"] by linarith
  show "date mod 32 \<le> 31" using mod_less_divisor [of 32 date] by linarith
qed simp

subsection \<open>Slot fields\<close>

lemma slotFieldAt_less: "slotFieldAt width reader off < 256 ^ width"
  by (auto simp: slotFieldAt_def dest: readLe_Inr_less split: sum.splits)

lemma slotByteAt_less: "slotByteAt reader off < 256"
  by (auto simp: slotByteAt_def split: sum.splits)

end
