(* ===== verification/FatEntries.thy ===== *)
theory FatEntries
  imports ClusterChains DosTimes Names
begin

text \<open>
  The slots of a FAT32 directory: \<open>src/fs/fat/ShortName.cpp\<close>, \<open>LongName.cpp\<close>,
  \<open>LongNameAssembly.cpp\<close>, \<open>DirectoryEntry.cpp\<close> and \<open>EntryFromSlot.cpp\<close>. A slot is a list
  of bytes; the fragments a \<open>LongNameBuilder\<close> has collected are a list.
\<close>

subsection \<open>Short names\<close>

definition kLostFirstCharacter :: byte where "kLostFirstCharacter = 0x5F"
definition kBaseBytes :: size_t where "kBaseBytes = 8"
definition kExtensionBytes :: size_t where "kExtensionBytes = 3"
definition kPadding :: byte where "kPadding = 0x20"
definition kDeletionMarker :: byte where "kDeletionMarker = 0xE5"
definition kEscapedFirstCharacter :: byte where "kEscapedFirstCharacter = 0x05"
definition kLowerCaseBase :: u8 where "kLowerCaseBase = 0x08"
definition kLowerCaseExtension :: u8 where "kLowerCaseExtension = 0x10"

record NameState =
  ns_utf8 :: bytes
  ns_lossless :: bool

definition lowered :: "byte \<Rightarrow> byte" where
  "lowered raw = (if 65 \<le> unat raw \<and> unat raw \<le> 90 then raw + 32 else raw)"

definition appendByte :: "NameState \<Rightarrow> byte \<Rightarrow> bool \<Rightarrow> NameState" where
  "appendByte state raw toLower =
     (if \<not> passesThroughAsItself raw
      then \<lparr>ns_utf8 = appendEscapedByte (ns_utf8 state) raw, ns_lossless = False\<rparr>
      else state\<lparr>ns_utf8 := ns_utf8 state @ [if toLower then lowered raw else raw]\<rparr>)"

definition trimmed :: "bytes \<Rightarrow> bytes" where
  "trimmed field = rev (dropWhile (\<lambda>raw. raw = kPadding) (rev field))"

definition appendField :: "NameState \<Rightarrow> bytes \<Rightarrow> bool \<Rightarrow> NameState" where
  "appendField state field toLower = foldl (\<lambda>s raw. appendByte s raw toLower) state (trimmed field)"

definition appendFirstByte :: "NameState \<Rightarrow> byte \<Rightarrow> bool \<Rightarrow> bool \<Rightarrow> NameState" where
  "appendFirstByte state raw deleted toLower =
     (if deleted then \<lparr>ns_utf8 = ns_utf8 state @ [kLostFirstCharacter], ns_lossless = False\<rparr>
      else appendByte state (if raw = kEscapedFirstCharacter then kDeletionMarker else raw) toLower)"

definition appendBase :: "NameState \<Rightarrow> bytes \<Rightarrow> u8 \<Rightarrow> bool \<Rightarrow> NameState" where
  "appendBase state base flags deleted =
     (let toLower = and flags kLowerCaseBase \<noteq> 0;
          body = trimmed base
      in if body = [] then state
         else appendField (appendFirstByte state (hd body) deleted toLower) (tl body) toLower)"

definition appendExtension :: "NameState \<Rightarrow> bytes \<Rightarrow> u8 \<Rightarrow> NameState" where
  "appendExtension state extension flags =
     (if trimmed extension = [] then state
      else appendField (state\<lparr>ns_utf8 := ns_utf8 state @ [0x2E]\<rparr>) extension (and flags kLowerCaseExtension \<noteq> 0))"

definition decodeShortName :: "bytes \<Rightarrow> u8 \<Rightarrow> bool \<Rightarrow> DecodedName" where
  "decodeShortName raw caseFlags deleted =
     (if length raw < kBaseBytes + kExtensionBytes then \<lparr>dn_utf8 = [], dn_lossless = False\<rparr>
      else let state = appendExtension (appendBase \<lparr>ns_utf8 = [], ns_lossless = True\<rparr> (take kBaseBytes raw) caseFlags deleted)
                         (take kExtensionBytes (drop kBaseBytes raw)) caseFlags
           in \<lparr>dn_utf8 = ns_utf8 state, dn_lossless = ns_lossless state\<rparr>)"

subsection \<open>Slots\<close>

definition kDirectoryEntryBytes :: size_t where "kDirectoryEntryBytes = 32"
definition kNameOffset :: size_t where "kNameOffset = 0"
definition kNameBytes :: size_t where "kNameBytes = 11"
definition kAttributesOffset :: size_t where "kAttributesOffset = 0x0B"
definition kCaseFlagsOffset :: size_t where "kCaseFlagsOffset = 0x0C"
definition kCreatedTimeOffset :: size_t where "kCreatedTimeOffset = 0x0E"
definition kCreatedDateOffset :: size_t where "kCreatedDateOffset = 0x10"
definition kAccessedDateOffset :: size_t where "kAccessedDateOffset = 0x12"
definition kClusterHighOffset :: size_t where "kClusterHighOffset = 0x14"
definition kWrittenTimeOffset :: size_t where "kWrittenTimeOffset = 0x16"
definition kWrittenDateOffset :: size_t where "kWrittenDateOffset = 0x18"
definition kClusterLowOffset :: size_t where "kClusterLowOffset = 0x1A"
definition kSizeOffset :: size_t where "kSizeOffset = 0x1C"
definition kAttrVolumeLabel :: u8 where "kAttrVolumeLabel = 0x08"
definition kAttrDirectory :: u8 where "kAttrDirectory = 0x10"
definition kAttrLongName :: u8 where "kAttrLongName = 0x0F"
definition kAttrKindMask :: u8 where "kAttrKindMask = 0x3F"
definition kEndOfDirectoryMarker :: u8 where "kEndOfDirectoryMarker = 0"
definition kDeletedMarker :: u8 where "kDeletedMarker = 0xE5"

datatype EntryKind = kEndOfDirectory | kLongName | kVolumeLabel | kDirectory | kFile

record ShortEntry =
  se_name :: DecodedName
  se_firstCluster :: u32
  se_sizeInBytes :: u32
  se_timestamps :: Timestamps
  se_deleted :: bool

definition kindOfAttributes :: "u8 \<Rightarrow> EntryKind" where
  "kindOfAttributes attributes =
     (if and attributes kAttrKindMask = kAttrLongName then kLongName
      else if and attributes kAttrVolumeLabel \<noteq> 0 then kVolumeLabel
      else if and attributes kAttrDirectory \<noteq> 0 then kDirectory else kFile)"

definition clusterOf :: "bytes \<Rightarrow> u32" where
  "clusterOf reader =
     or (push_bit 16 (slotFieldAt 2 reader kClusterHighOffset)) (slotFieldAt 2 reader kClusterLowOffset)"

definition stampAt :: "bytes \<Rightarrow> size_t \<Rightarrow> size_t \<Rightarrow> u64" where
  "stampAt reader time date = toFiletime \<lparr>dt_date = slotFieldAt 2 reader date, dt_time = slotFieldAt 2 reader time\<rparr>"

definition accessedAt :: "bytes \<Rightarrow> u64" where
  "accessedAt reader = toFiletime \<lparr>dt_date = slotFieldAt 2 reader kAccessedDateOffset, dt_time = 0\<rparr>"

definition timestampsOf :: "bytes \<Rightarrow> Timestamps" where
  "timestampsOf reader =
     \<lparr>ts_created = stampAt reader kCreatedTimeOffset kCreatedDateOffset,
      ts_modified = stampAt reader kWrittenTimeOffset kWrittenDateOffset,
      ts_accessed = accessedAt reader\<rparr>"

definition shortNameOf :: "bytes \<Rightarrow> bool \<Rightarrow> DecodedName" where
  "shortNameOf reader deleted =
     (case bytesAt reader kNameOffset kNameBytes of
        Inl _ \<Rightarrow> \<lparr>dn_utf8 = [], dn_lossless = False\<rparr>
      | Inr raw \<Rightarrow> decodeShortName raw (slotByteAt reader kCaseFlagsOffset) deleted)"

definition entryFrom :: "bytes \<Rightarrow> ShortEntry" where
  "entryFrom reader =
     (let deleted = slotByteAt reader kNameOffset = kDeletedMarker
      in \<lparr>se_name = shortNameOf reader deleted, se_firstCluster = clusterOf reader,
          se_sizeInBytes = slotFieldAt 4 reader kSizeOffset, se_timestamps = timestampsOf reader, se_deleted = deleted\<rparr>)"

definition classifyEntry :: "bytes \<Rightarrow> EntryKind result" where
  "classifyEntry slot =
     mapResult (slotReader slot kDirectoryEntryBytes)
       (\<lambda>reader. if slotByteAt reader kNameOffset = kEndOfDirectoryMarker then kEndOfDirectory
                 else kindOfAttributes (slotByteAt reader kAttributesOffset))"

definition parseShortEntry :: "bytes \<Rightarrow> ShortEntry result" where
  "parseShortEntry slot = mapResult (slotReader slot kDirectoryEntryBytes) entryFrom"

subsection \<open>Long names\<close>

definition kOrdinalOffset :: size_t where "kOrdinalOffset = 0"
definition kChecksumOffset :: size_t where "kChecksumOffset = 0x0D"
definition kOrdinalMask :: u8 where "kOrdinalMask = 0x3F"
definition kLastFragmentFlag :: u8 where "kLastFragmentFlag = 0x40"
definition kMaxNameFragments :: size_t where "kMaxNameFragments = 20"

record NameRun =
  nr_offset :: size_t
  nr_bytes :: size_t

definition kNameRuns :: "NameRun list" where
  "kNameRuns = [\<lparr>nr_offset = 0x01, nr_bytes = 10\<rparr>, \<lparr>nr_offset = 0x0E, nr_bytes = 12\<rparr>, \<lparr>nr_offset = 0x1C, nr_bytes = 4\<rparr>]"

record LongNameFragment =
  lf_ordinal :: u8
  lf_last :: bool
  lf_deleted :: bool
  lf_checksum :: u8
  lf_nameBytes :: bytes

fun appendRun :: "bytes \<Rightarrow> bytes \<Rightarrow> bytes \<times> bool" where
  "appendRun name (low # high # run) = (if low = 0 \<and> high = 0 then (name, True) else appendRun (name @ [low, high]) run)"
| "appendRun name run = (name, False)"

fun appendRuns :: "bytes \<Rightarrow> bytes \<Rightarrow> NameRun list \<Rightarrow> bytes" where
  "appendRuns name slot [] = name"
| "appendRuns name slot (run # runs) =
     (case appendRun name (take (nr_bytes run) (drop (nr_offset run) slot)) of
        (name', ended) \<Rightarrow> if ended then name' else appendRuns name' slot runs)"

definition nameBytesOf :: "bytes \<Rightarrow> bytes" where
  "nameBytesOf slot = appendRuns [] slot kNameRuns"

definition parseLongNameFragment :: "bytes \<Rightarrow> LongNameFragment result" where
  "parseLongNameFragment slot =
     (if length slot < kDirectoryEntryBytes then Inl (mkError kOutOfRange (length slot))
      else let ent = take kDirectoryEntryBytes slot;
               marker = unat (ent ! kOrdinalOffset)
           in if marker \<noteq> kDeletedMarker \<and> and marker kOrdinalMask = 0 then Inl (mkError kInvalidArgument kOrdinalOffset)
              else Inr \<lparr>lf_ordinal = and marker kOrdinalMask, lf_last = (and marker kLastFragmentFlag \<noteq> 0),
                        lf_deleted = (marker = kDeletedMarker), lf_checksum = unat (ent ! kChecksumOffset),
                        lf_nameBytes = nameBytesOf ent\<rparr>)"

definition ordinalsDescendToOne :: "LongNameFragment list \<Rightarrow> bool" where
  "ordinalsDescendToOne fragments \<longleftrightarrow>
     list_all (\<lambda>at. lf_ordinal (fragments ! at) = length fragments - at) [0..<length fragments]"

definition ordersItself :: "LongNameFragment list \<Rightarrow> bool" where
  "ordersItself fragments \<longleftrightarrow> lf_last (hd fragments) \<and> ordinalsDescendToOne fragments"

definition anyDeleted :: "LongNameFragment list \<Rightarrow> bool" where
  "anyDeleted fragments \<longleftrightarrow> list_ex lf_deleted fragments"

definition joined :: "LongNameFragment list \<Rightarrow> bytes" where
  "joined fragments = concat (map lf_nameBytes (rev fragments))"

definition addFragment :: "LongNameFragment list \<Rightarrow> LongNameFragment \<Rightarrow> LongNameFragment list" where
  "addFragment fragments fragment = fragments @ [fragment]"

definition assembled :: "LongNameFragment list \<Rightarrow> DecodedName option" where
  "assembled fragments =
     (if fragments = [] \<or> length fragments > kMaxNameFragments then None
      else if \<not> anyDeleted fragments \<and> \<not> ordersItself fragments then None
      else Some (decodeUtf16Name (joined fragments)))"

definition collectFragment :: "LongNameFragment list \<Rightarrow> bytes \<Rightarrow> LongNameFragment list" where
  "collectFragment names slot =
     (case parseLongNameFragment slot of Inl _ \<Rightarrow> names | Inr fragment \<Rightarrow> addFragment names fragment)"

subsection \<open>Entries\<close>

record EntryPlace =
  pc_path :: string
  pc_name :: DecodedName
  pc_underDeleted :: bool

definition locate :: "ClusterChain \<Rightarrow> ShortEntry \<Rightarrow> Extent list" where
  "locate table entry =
     (if se_sizeInBytes entry = 0 \<or> \<not> isDataCluster table (se_firstCluster entry) then []
      else if se_deleted entry then extentsAssumingContiguous table (se_firstCluster entry) (se_sizeInBytes entry)
      else extentsFollowingChain table (se_firstCluster entry) (se_sizeInBytes entry))"

definition stateOf :: "ShortEntry \<Rightarrow> EntryPlace \<Rightarrow> EntryState" where
  "stateOf entry place =
     (if pc_underDeleted place then kOrphaned else if se_deleted entry then kDeleted else kLive)"

definition gradeOf :: "ShortEntry \<Rightarrow> EntryPlace \<Rightarrow> Extent list \<Rightarrow> Confidence" where
  "gradeOf entry place extents =
     (let guessed = se_deleted entry \<or> pc_underDeleted place \<or> \<not> dn_lossless (pc_name place);
          located = extents \<noteq> [] \<or> se_sizeInBytes entry = 0
      in if \<not> guessed \<and> located then kValid else kUncertain)"

definition entryFromSlot :: "ClusterChain \<Rightarrow> ShortEntry \<Rightarrow> EntryPlace \<Rightarrow> RecoveredEntry" where
  "entryFromSlot table entry place =
     (let extents = locate table entry
      in \<lparr>re_path = pc_path place, re_sizeInBytes = se_sizeInBytes entry, re_extents = extents, re_residentContent = [],
          re_timestamps = se_timestamps entry, re_state = stateOf entry place, re_recoverability = gradeOf entry place extents\<rparr>)"

subsection \<open>What a slot may hold\<close>

lemma parseShortEntry_bounds:
  assumes "parseShortEntry slot = Inr entry"
  shows "se_firstCluster entry \<le> max32 \<and> se_sizeInBytes entry \<le> max32"
proof -
  obtain reader where e: "entry = entryFrom reader" using assms by (auto simp: parseShortEntry_def mapResult_Inr_iff)
  have h: "slotFieldAt 2 reader kClusterHighOffset < 2 ^ 16" and l: "slotFieldAt 2 reader kClusterLowOffset < 2 ^ 16"
    using slotFieldAt_less [of 2 reader] by simp_all
  have "or (push_bit 16 (slotFieldAt 2 reader kClusterHighOffset)) (slotFieldAt 2 reader kClusterLowOffset) < 2 ^ 32"
    using or_add [OF l, of "slotFieldAt 2 reader kClusterHighOffset"] h l by (simp add: push_bit_eq_mult mult.commute)
  moreover have "slotFieldAt 4 reader kSizeOffset < 2 ^ 32" using slotFieldAt_less [of 4 reader] by simp
  ultimately show ?thesis by (simp add: e entryFrom_def clusterOf_def max32_def Let_def)
qed

lemma entryFromSlot_exact:
  assumes "holds_clusters content (cc_geometry table)" and "2 \<le> cg_bytesPerCluster (cc_geometry table)"
    and "se_firstCluster entry \<le> max32" and "se_sizeInBytes entry \<le> max32"
  shows "entry_exact (length content) (entryFromSlot table entry place)"
proof -
  have "se_sizeInBytes entry \<le> max64" using assms(4) by (simp add: max32_def max64_def)
  note located = located_extents [OF assms(1,2) _ assms(3) this]
  have "list_all (\<lambda>x. 0 < lengthBytes x \<and> deviceOffset x + lengthBytes x \<le> length content) (locate table entry) \<and>
      (locate table entry = [] \<or> span_length (locate table entry) = se_sizeInBytes entry)"
    using located by (auto simp: locate_def)
  then show ?thesis
    by (auto simp: entryFromSlot_def entry_exact_def Let_def stateOf_def gradeOf_def)
qed

subsection \<open>Long names as a formatter writes them\<close>

type_synonym code_unit = "byte \<times> byte"

definition unit_bytes :: "code_unit list \<Rightarrow> bytes" where
  "unit_bytes units = concat (map (\<lambda>(low, high). [low, high]) units)"

definition name_slot :: "nat \<Rightarrow> u8 \<Rightarrow> code_unit list \<Rightarrow> bytes" where
  "name_slot ordinal check units =
     (let full13 = take 13 (units @ [(0, 0)] @ replicate 13 (0xFF, 0xFF))
      in of_nat ordinal # unit_bytes (take 5 full13) @ [0x0F, 0, of_nat check] @
         unit_bytes (take 6 (drop 5 full13)) @ [0, 0] @ unit_bytes (drop 11 full13))"

definition fragment_count :: "code_unit list \<Rightarrow> nat" where
  "fragment_count units = (length units + 12) div 13"

definition name_slots :: "u8 \<Rightarrow> code_unit list \<Rightarrow> bytes list" where
  "name_slots check units =
     map (\<lambda>i. name_slot (i + (if i = fragment_count units then 64 else 0)) check (take 13 (drop (13 * (i - 1)) units)))
       (rev [1..<fragment_count units + 1])"

lemma unit_bytes_simps [simp]:
  "unit_bytes [] = []" "unit_bytes ((a, b) # us) = a # b # unit_bytes us" "unit_bytes (us @ vs) = unit_bytes us @ unit_bytes vs"
  "length (unit_bytes us) = 2 * length us"
  by (simp_all add: unit_bytes_def) (induction us; auto)

lemma appendRun_units:
  "appendRun name (unit_bytes units) = (name @ unit_bytes (takeWhile (\<lambda>u. u \<noteq> (0, 0)) units), (0, 0) \<in> set units)"
  by (induction units arbitrary: name) (auto split: if_splits)

lemma length_name_slot: "length (name_slot ordinal check units) = 32"
proof -
  define full13 where "full13 = take 13 (units @ [(0, 0)] @ replicate 13 (0xFF, 0xFF) :: code_unit list)"
  have "length full13 = 13" by (simp add: full13_def)
  then show ?thesis unfolding name_slot_def Let_def full13_def [symmetric] by simp
qed

lemma name_slot_runs:
  fixes units
  defines "full13 \<equiv> take 13 (units @ [(0, 0)] @ replicate 13 (0xFF, 0xFF))"
  shows "take 10 (drop 1 (name_slot ordinal check units)) = unit_bytes (take 5 full13)"
    and "take 12 (drop 14 (name_slot ordinal check units)) = unit_bytes (take 6 (drop 5 full13))"
    and "take 4 (drop 28 (name_slot ordinal check units)) = unit_bytes (drop 11 full13)"
proof -
  define p q r where "p = unit_bytes (take 5 full13)" and "q = unit_bytes (take 6 (drop 5 full13))" and "r = unit_bytes (drop 11 full13)"
  have len: "length p = 10" "length q = 12" "length r = 4" by (simp_all add: p_def q_def r_def full13_def)
  have slot: "name_slot ordinal check units = (of_nat ordinal # p) @ [0x0F, 0, of_nat check] @ q @ [0, 0] @ r"
    by (simp add: name_slot_def p_def q_def r_def full13_def Let_def)
  show "take 10 (drop 1 (name_slot ordinal check units)) = p" "take 12 (drop 14 (name_slot ordinal check units)) = q"
    "take 4 (drop 28 (name_slot ordinal check units)) = r"
    using len by (simp_all add: slot drop_Cons')
qed

lemma nameBytesOf_slot:
  assumes "length units \<le> 13" and "(0, 0) \<notin> set units" and "slot = name_slot ordinal check units \<or> slot = (name_slot ordinal check units)[0 := marker]"
  shows "nameBytesOf slot = unit_bytes units"
proof -
  define full13 :: "code_unit list" where "full13 = take 13 (units @ [(0, 0)] @ replicate 13 (0xFF, 0xFF))"
  let ?live = "takeWhile (\<lambda>u. u \<noteq> (0, 0))"
  have runs: "take 10 (drop 1 slot) = unit_bytes (take 5 full13)" "take 12 (drop 14 slot) = unit_bytes (take 6 (drop 5 full13))"
      "take 4 (drop 28 slot) = unit_bytes (drop 11 full13)"
    using name_slot_runs [of ordinal check units, folded full13_def] assms(3) by (auto simp: drop_update_cancel)
  have "?live full13 = units"
  proof (cases "length units = 13")
    case True
    then show ?thesis using assms(2) by (auto simp: full13_def takeWhile_eq_all_conv)
  next
    case False
    then obtain rest where "full13 = units @ (0, 0) # rest" using assms(1) by (auto simp: full13_def take_Cons')
    moreover have "?live (units @ (0, 0) # rest) = units @ ?live ((0, 0) # rest)"
      by (rule takeWhile_append2) (use assms(2) in auto)
    ultimately show ?thesis by simp
  qed
  moreover have "full13 = take 5 full13 @ take 6 (drop 5 full13) @ drop 11 full13"
    using append_take_drop_id [of 5 full13] append_take_drop_id [of 6 "drop 5 full13"] by simp
  moreover have "nameBytesOf slot = unit_bytes (?live (take 5 full13 @ take 6 (drop 5 full13) @ drop 11 full13))"
    unfolding nameBytesOf_def kNameRuns_def
    by (auto simp: runs runs(1) [simplified] appendRun_units takeWhile_append takeWhile_eq_all_conv [THEN iffD2])
  ultimately show ?thesis by simp
qed

lemma name_slot_fragment:
  assumes "length units \<le> 13" and "(0, 0) \<notin> set units" and "1 \<le> i" and "i \<le> 20" and "ordinal = i \<or> ordinal = i + 64"
  shows "parseLongNameFragment (name_slot ordinal check units) =
      Inr \<lparr>lf_ordinal = i, lf_last = (ordinal = i + 64), lf_deleted = False, lf_checksum = check mod 256, lf_nameBytes = unit_bytes units\<rparr>"
    and "\<exists>fragment. parseLongNameFragment ((name_slot ordinal check units)[0 := 0xE5]) = Inr fragment \<and> lf_deleted fragment \<and>
      lf_nameBytes fragment = unit_bytes units"
    and "classifyEntry (name_slot ordinal check units) = Inr kLongName"
proof -
  let ?slot = "name_slot ordinal check units"
  have len: "length ?slot = 32" by (rule length_name_slot)
  have at: "?slot ! 0 = of_nat ordinal" by (simp add: name_slot_def Let_def)
  have sum_at: "?slot ! 13 = of_nat check" and attr_at: "?slot ! 11 = 0x0F"
  proof -
    define full13 where "full13 = take 13 (units @ [(0, 0)] @ replicate 13 (0xFF, 0xFF) :: code_unit list)"
    have "length (unit_bytes (take 5 full13)) = 10" by (simp add: full13_def)
    then show "?slot ! 13 = of_nat check" "?slot ! 11 = 0x0F"
      unfolding name_slot_def Let_def full13_def [symmetric] by (simp_all add: nth_append)
  qed
  have ord: "unat (of_nat ordinal :: byte) = ordinal" using assms(4,5) by (auto simp: unat_of_nat)
  have mask: "and ordinal 0x3F = i"
  proof -
    have "ordinal mod 64 = i" using assms(4,5) by auto
    then show ?thesis by (simp add: low_bits)
  qed
  have flag: "and ordinal 0x40 \<noteq> 0 \<longleftrightarrow> ordinal = i + 64"
  proof -
    have "\<forall>i \<in> set [1..<21]. and i (0x40 :: nat) = 0 \<and> and (i + 64) (0x40 :: nat) \<noteq> 0" by code_simp
    then have "and i (0x40 :: nat) = 0 \<and> and (i + 64) (0x40 :: nat) \<noteq> 0" using assms(3,4) by auto
    then show ?thesis using assms(5) by auto
  qed
  show "parseLongNameFragment ?slot =
      Inr \<lparr>lf_ordinal = i, lf_last = (ordinal = i + 64), lf_deleted = False, lf_checksum = check mod 256, lf_nameBytes = unit_bytes units\<rparr>"
  proof -
    have "nameBytesOf ?slot = unit_bytes units" using nameBytesOf_slot [OF assms(1,2), of ?slot] by blast
    moreover have "ordinal \<noteq> 0xE5" "i \<noteq> 0" "take 32 ?slot = ?slot" "ordinal mod 256 = ordinal" using assms(3,4,5) len by auto
    ultimately show ?thesis
      unfolding parseLongNameFragment_def
      by (simp add: len at sum_at mask flag [simplified] kDirectoryEntryBytes_def kOrdinalOffset_def kChecksumOffset_def
          kOrdinalMask_def kLastFragmentFlag_def kDeletedMarker_def unat_of_nat Let_def)
  qed
  show "\<exists>fragment. parseLongNameFragment (?slot[0 := 0xE5]) = Inr fragment \<and> lf_deleted fragment \<and> lf_nameBytes fragment = unit_bytes units"
    using nameBytesOf_slot [OF assms(1,2), of "?slot[0 := 0xE5]"] len
    by (auto simp: parseLongNameFragment_def kDirectoryEntryBytes_def kOrdinalOffset_def kDeletedMarker_def Let_def)
  show "classifyEntry ?slot = Inr kLongName"
  proof -
    have "hd ?slot = of_nat ordinal" by (simp add: name_slot_def Let_def)
    moreover have "0 < ordinal" "ordinal mod 256 = ordinal" using assms(3,4,5) by auto
    ultimately show ?thesis
      using len attr_at
      by (simp add: classifyEntry_def slotReader_def slotByteAt_def mapResult_def kDirectoryEntryBytes_def kNameOffset_def kAttributesOffset_def
          kEndOfDirectoryMarker_def kindOfAttributes_def kAttrKindMask_def kAttrLongName_def hd_drop_conv_nth unat_of_nat)
  qed
qed

lemma chunk_concat: "concat (map (\<lambda>i. unit_bytes (take 13 (drop (13 * (i - 1)) units))) [1..<Suc n]) = unit_bytes (take (13 * n) units)"
proof (induction n)
  case (Suc n)
  have "take (13 * Suc n) units = take (13 * n) units @ take 13 (drop (13 * n) units)"
    using take_add [of "13 * n" 13 units] by (simp add: add.commute)
  then show ?case using Suc by simp
qed simp

lemma fragment_count_bounds:
  "units \<noteq> [] \<Longrightarrow> length units \<le> 260 \<Longrightarrow> 1 \<le> fragment_count units \<and> fragment_count units \<le> 20 \<and> length units \<le> 13 * fragment_count units"
proof -
  have "1 \<le> (l + 12) div 13 \<and> (l + 12) div 13 \<le> 20 \<and> l \<le> 13 * ((l + 12) div 13)" if "0 < l" "l \<le> 260" for l :: nat
    using that by presburger
  then show "units \<noteq> [] \<Longrightarrow> length units \<le> 260 \<Longrightarrow> 1 \<le> fragment_count units \<and> fragment_count units \<le> 20 \<and> length units \<le> 13 * fragment_count units"
    by (simp add: fragment_count_def)
qed

lemma collected:
  assumes "\<And>i. i \<in> set is \<Longrightarrow> parseLongNameFragment (slot i) = Inr (f i)"
  shows "foldl collectFragment names (map slot is) = names @ map f is"
  using assms by (induction "is" arbitrary: names) (simp_all add: collectFragment_def addFragment_def)

lemma countdown_orders_itself:
  assumes "1 \<le> n" and "\<And>i. i \<in> set [1..<Suc n] \<Longrightarrow> lf_ordinal (f i) = i" and "lf_last (f n)"
  shows "ordersItself (map f (rev [1..<Suc n]))"
proof -
  have "rev [1..<Suc n] ! at = n - at" if "at < n" for at using that by (simp add: rev_nth del: upt_Suc)
  then have "ordinalsDescendToOne (map f (rev [1..<Suc n]))"
    using assms(2) by (auto simp: ordinalsDescendToOne_def list_all_iff Suc_le_eq simp del: upt_Suc)
  moreover have "hd (rev [1..<Suc n]) = n" using assms(1) by simp
  then have "lf_last (hd (map f (rev [1..<Suc n])))" using assms(1,3) by (simp add: list.map_sel(1) del: upt_Suc)
  ultimately show ?thesis by (simp add: ordersItself_def)
qed

lemma joined_rev: "joined (map f (rev xs)) = concat (map (\<lambda>x. lf_nameBytes (f x)) xs)"
  by (simp add: joined_def rev_map o_def)

text \<open>
  C34: A long name survives the directory: the slots a formatter writes for a name of at most 260
  code units (13 to a slot, last slot first, ordinals counting down, a terminator and padding
  after the end) are each classified as long-name slots, and passing over them assembles exactly that name. Deleting the file, which overwrites
  the first byte of every slot, does not lose it.
\<close>

theorem long_name_round_trip:
  assumes "units \<noteq> []" and "length units \<le> 260" and "(0, 0) \<notin> set units"
  shows "list_all (\<lambda>slot. classifyEntry slot = Inr kLongName) (name_slots check units) \<and>
    assembled (foldl collectFragment [] (name_slots check units)) = Some (decodeUtf16Name (unit_bytes units)) \<and>
    assembled (foldl collectFragment [] (map (\<lambda>slot. slot[0 := 0xE5]) (name_slots check units))) = Some (decodeUtf16Name (unit_bytes units))"
proof -
  let ?n = "fragment_count units"
  let ?chunk = "\<lambda>i. take 13 (drop (13 * (i - 1)) units)"
  let ?slot = "\<lambda>i. name_slot (i + (if i = ?n then 64 else 0)) check (?chunk i)"
  let ?f = "\<lambda>i. \<lparr>lf_ordinal = i, lf_last = (i = ?n), lf_deleted = False, lf_checksum = check mod 256, lf_nameBytes = unit_bytes (?chunk i)\<rparr>"
  note n = fragment_count_bounds [OF assms(1,2)]
  have parsed: "parseLongNameFragment (?slot i) = Inr (?f i)"
      "\<exists>fragment. parseLongNameFragment ((?slot i)[0 := 0xE5]) = Inr fragment \<and> lf_deleted fragment \<and> lf_nameBytes fragment = unit_bytes (?chunk i)"
      "classifyEntry (?slot i) = Inr kLongName" if "i \<in> set [1..<Suc ?n]" for i
  proof -
    have "length (?chunk i) \<le> 13" "1 \<le> i" "i \<le> 20" using n that by auto
    moreover have "(0, 0) \<notin> set (?chunk i)" using assms(3) by (auto dest: in_set_takeD in_set_dropD)
    ultimately show "parseLongNameFragment (?slot i) = Inr (?f i)"
      "\<exists>fragment. parseLongNameFragment ((?slot i)[0 := 0xE5]) = Inr fragment \<and> lf_deleted fragment \<and> lf_nameBytes fragment = unit_bytes (?chunk i)"
      "classifyEntry (?slot i) = Inr kLongName"
      using name_slot_fragment [of "?chunk i" i "i + (if i = ?n then 64 else 0)" check] by auto
  qed
  have slots: "name_slots check units = map ?slot (rev [1..<Suc ?n])" by (simp add: name_slots_def del: upt_Suc)
  have whole: "concat (map (\<lambda>i. unit_bytes (?chunk i)) [1..<Suc ?n]) = unit_bytes units"
    using chunk_concat [of units ?n] n by simp
  have size: "0 < ?n" "?n \<le> kMaxNameFragments" using n by (simp_all add: kMaxNameFragments_def)
  have "assembled (map ?f (rev [1..<Suc ?n])) = Some (decodeUtf16Name (unit_bytes units))"
    using countdown_orders_itself [of ?n ?f] size whole by (simp add: assembled_def joined_rev del: upt_Suc)
  then have live: "assembled (foldl collectFragment [] (name_slots check units)) = Some (decodeUtf16Name (unit_bytes units))"
    using collected [of "rev [1..<Suc ?n]" ?slot ?f "[]"] parsed(1) by (simp add: slots del: upt_Suc)
  obtain g where g: "\<forall>i \<in> set [1..<Suc ?n]. parseLongNameFragment ((?slot i)[0 := 0xE5]) = Inr (g i) \<and> lf_deleted (g i) \<and> lf_nameBytes (g i) = unit_bytes (?chunk i)"
    using bchoice [of "set [1..<Suc ?n]" "\<lambda>i fragment. parseLongNameFragment ((?slot i)[0 := 0xE5]) = Inr fragment \<and> lf_deleted fragment \<and> lf_nameBytes fragment = unit_bytes (?chunk i)"]
      parsed(2) by blast
  then have "anyDeleted (map g (rev [1..<Suc ?n]))" using size by (auto simp: anyDeleted_def list_ex_iff)
  moreover have "map (\<lambda>i. lf_nameBytes (g i)) [1..<Suc ?n] = map (\<lambda>i. unit_bytes (?chunk i)) [1..<Suc ?n]"
    using g by (intro map_cong) auto
  then have "joined (map g (rev [1..<Suc ?n])) = unit_bytes units" unfolding joined_rev whole [symmetric] by (simp only:)
  ultimately have "assembled (map g (rev [1..<Suc ?n])) = Some (decodeUtf16Name (unit_bytes units))"
    using size by (simp add: assembled_def del: upt_Suc)
  then have dead: "assembled (foldl collectFragment [] (map (\<lambda>slot. slot[0 := 0xE5]) (name_slots check units))) = Some (decodeUtf16Name (unit_bytes units))"
    using collected [of "rev [1..<Suc ?n]" "\<lambda>i. (?slot i)[0 := 0xE5]" g "[]"] g by (simp add: slots o_def del: upt_Suc)
  have "list_all (\<lambda>slot. classifyEntry slot = Inr kLongName) (name_slots check units)" using parsed(3) by (simp add: slots list_all_iff del: upt_Suc)
  then show ?thesis using live dead by blast
qed

theorem long_name_round_trip_witness:
  "assembled (foldl collectFragment [] (map (\<lambda>slot. slot[0 := 0xE5]) (name_slots 7 [(0x61, 0), (0x62, 0)]))) =
     Some \<lparr>dn_utf8 = [0x61, 0x62], dn_lossless = True\<rparr>"
proof -
  have "(0, 0) \<notin> set [(0x61, 0), (0x62, 0) :: code_unit]" by simp
  from long_name_round_trip [OF _ _ this, of 7]
  have "assembled (foldl collectFragment [] (map (\<lambda>slot. slot[0 := 0xE5]) (name_slots 7 [(0x61, 0), (0x62, 0)]))) =
      Some (decodeUtf16Name (unit_bytes [(0x61, 0), (0x62, 0)]))" by simp
  also have "decodeUtf16Name (unit_bytes [(0x61, 0), (0x62, 0)]) = \<lparr>dn_utf8 = [0x61, 0x62], dn_lossless = True\<rparr>"
    by (simp add: utf16_eval)
  finally show ?thesis .
qed

end
