(* ===== verification/FatVolumes.thy ===== *)
theory FatVolumes
  imports FatEntries
begin

text \<open>
  A FAT32 volume, from its boot sector to the entries a visitor is called with:
  \<open>src/fs/fat/BootSectorFields.cpp\<close>, \<open>BootSectorGeometry.cpp\<close>, \<open>BootSector.cpp\<close>,
  \<open>DirectoryBytes.cpp\<close>, \<open>DirectoryWalk.cpp\<close> and \<open>Fat32FileSystem.cpp\<close>. The members of the class
  \<open>Walk\<close> are the state of the walk, with the entries the visitor was called with; its worklist is
  passed beside it.
\<close>

subsection \<open>Boot sector\<close>

definition kReservedSectorsOffset :: u64 where "kReservedSectorsOffset = 0x0E"
definition kFatCountOffset :: u64 where "kFatCountOffset = 0x10"
definition kTotalSectorsOffset :: u64 where "kTotalSectorsOffset = 0x20"
definition kFatSizeOffset :: u64 where "kFatSizeOffset = 0x24"
definition kRootClusterOffset :: u64 where "kRootClusterOffset = 0x2C"
definition kFilSysTypeOffset :: u64 where "kFilSysTypeOffset = 0x52"
definition kFirstDataCluster :: u32 where "kFirstDataCluster = 2"
definition kFat32MinimumClusters :: u64 where "kFat32MinimumClusters = 65525"
definition kFat32Type :: bytes where "kFat32Type = [0x46, 0x41, 0x54, 0x33, 0x32, 0x20, 0x20, 0x20]"
definition kFat16OnlyOffsets :: "u64 list" where "kFat16OnlyOffsets = [0x11, 0x13, 0x16]"

record Bpb =
  bp_bytesPerSector :: u32
  bp_sectorsPerCluster :: u32
  bp_reservedSectors :: u32
  bp_fatCount :: u32
  bp_fatSectors :: u64
  bp_totalSectors :: u64
  bp_rootCluster :: u32

record Fat32Geometry =
  fg_bytesPerSector :: u32
  fg_bytesPerCluster :: u32
  fg_fatCount :: u32
  fg_fatOffsetBytes :: u64
  fg_fatSizeBytes :: u64
  fg_dataOffsetBytes :: u64
  fg_totalClusters :: u64
  fg_rootCluster :: u32
  fg_belowClusterMinimum :: bool

definition nonZero :: "u64 result \<Rightarrow> u64 \<Rightarrow> u64 result" where
  "nonZero field off =
     (case field of Inl e \<Rightarrow> Inl e | Inr val \<Rightarrow> if val = 0 then Inl (mkError kInvalidArgument off) else Inr val)"

definition fieldIsZero :: "bytes \<Rightarrow> u64 \<Rightarrow> bool result" where
  "fieldIsZero reader off =
     andThen (readLe 2 reader off) (\<lambda>raw. if raw \<noteq> 0 then Inl (mkError kInvalidArgument off) else Inr True)"

definition readWide :: "bytes \<Rightarrow> u64 \<Rightarrow> u64 result" where
  "readWide reader off = readLe 4 reader off"

definition filSysTypeIsFat32 :: "bytes \<Rightarrow> bool result" where
  "filSysTypeIsFat32 reader =
     andThen (bytesAt reader kFilSysTypeOffset (length kFat32Type))
       (\<lambda>raw. if raw \<noteq> kFat32Type then Inl (mkError kInvalidArgument kFilSysTypeOffset) else Inr True)"

fun fieldsAreZero :: "bytes \<Rightarrow> u64 list \<Rightarrow> bool result" where
  "fieldsAreZero reader [] = Inr True"
| "fieldsAreZero reader (off # offs) = (case fieldIsZero reader off of Inl e \<Rightarrow> Inl e | Inr _ \<Rightarrow> fieldsAreZero reader offs)"

definition fat16OnlyFieldsAreZero :: "bytes \<Rightarrow> bool result" where
  "fat16OnlyFieldsAreZero reader = fieldsAreZero reader kFat16OnlyOffsets"

definition reservedSectors :: "bytes \<Rightarrow> u32 result" where
  "reservedSectors reader =
     andThen (readLe 2 reader kReservedSectorsOffset)
       (\<lambda>raw. if raw = 0 then Inl (mkError kInvalidArgument kReservedSectorsOffset) else Inr raw)"

definition fatCount :: "bytes \<Rightarrow> u32 result" where
  "fatCount reader =
     andThen (bytesAt reader kFatCountOffset 1)
       (\<lambda>raw. let val = unat (hd raw) in if val = 0 then Inl (mkError kInvalidArgument kFatCountOffset) else Inr val)"

definition fatSectors :: "bytes \<Rightarrow> u64 result" where
  "fatSectors reader = nonZero (readWide reader kFatSizeOffset) kFatSizeOffset"

definition totalSectors :: "bytes \<Rightarrow> u64 result" where
  "totalSectors reader = nonZero (readWide reader kTotalSectorsOffset) kTotalSectorsOffset"

definition rootCluster :: "bytes \<Rightarrow> u32 result" where
  "rootCluster reader = readLe 4 reader kRootClusterOffset"

record Placement =
  pm_dataStartSector :: u64
  pm_totalClusters :: u64
  pm_rootCluster :: u32

record FatBytes =
  fb_offset :: u64
  fb_size :: u64

record ByteLayout =
  bl_fatOffset :: u64
  bl_fatSize :: u64
  bl_dataOffset :: u64

definition dataStartSector :: "Bpb \<Rightarrow> u64 result" where
  "dataStartSector bpb =
     andThen (safeMul64 (bp_fatCount bpb) (bp_fatSectors bpb) kFatSizeOffset)
       (\<lambda>allFats. safeAdd64 (bp_reservedSectors bpb) allFats kFatSizeOffset)"

definition dataClusters :: "Bpb \<Rightarrow> u64 \<Rightarrow> u64 result" where
  "dataClusters bpb dataStart =
     (if dataStart \<ge> bp_totalSectors bpb then Inl (mkError kInvalidArgument kTotalSectorsOffset)
      else let clusters = (bp_totalSectors bpb - dataStart) div bp_sectorsPerCluster bpb
           in if clusters = 0 then Inl (mkError kInvalidArgument kTotalSectorsOffset) else Inr clusters)"

definition checkedRoot :: "u32 \<Rightarrow> u64 \<Rightarrow> u32 result" where
  "checkedRoot root clusters =
     (if root < kFirstDataCluster \<or> root \<ge> wrap64 (clusters + kFirstDataCluster)
      then Inl (mkError kInvalidArgument kRootClusterOffset) else Inr root)"

definition placementOf :: "Bpb \<Rightarrow> Placement result" where
  "placementOf bpb =
     andThen (dataStartSector bpb) (\<lambda>dataStart.
       andThen (dataClusters bpb dataStart) (\<lambda>clusters.
         mapResult (checkedRoot (bp_rootCluster bpb) clusters)
           (\<lambda>root. \<lparr>pm_dataStartSector = dataStart, pm_totalClusters = clusters, pm_rootCluster = root\<rparr>)))"

definition fatBytes :: "Bpb \<Rightarrow> FatBytes result" where
  "fatBytes bpb =
     andThen (safeMul64 (bp_reservedSectors bpb) (bp_bytesPerSector bpb) kReservedSectorsOffset) (\<lambda>off.
       mapResult (safeMul64 (bp_fatSectors bpb) (bp_bytesPerSector bpb) kFatSizeOffset) (\<lambda>n. \<lparr>fb_offset = off, fb_size = n\<rparr>))"

definition byteLayout :: "Bpb \<Rightarrow> u64 \<Rightarrow> ByteLayout result" where
  "byteLayout bpb dataStart =
     andThen (fatBytes bpb) (\<lambda>fats.
       mapResult (safeMul64 dataStart (bp_bytesPerSector bpb) kTotalSectorsOffset)
         (\<lambda>dataOffset. \<lparr>bl_fatOffset = fb_offset fats, bl_fatSize = fb_size fats, bl_dataOffset = dataOffset\<rparr>))"

definition assemble :: "Bpb \<Rightarrow> Placement \<Rightarrow> ByteLayout \<Rightarrow> u32 \<Rightarrow> Fat32Geometry" where
  "assemble bpb placement layout clusterBytes =
     \<lparr>fg_bytesPerSector = bp_bytesPerSector bpb, fg_bytesPerCluster = clusterBytes, fg_fatCount = bp_fatCount bpb,
      fg_fatOffsetBytes = bl_fatOffset layout, fg_fatSizeBytes = bl_fatSize layout, fg_dataOffsetBytes = bl_dataOffset layout,
      fg_totalClusters = pm_totalClusters placement, fg_rootCluster = pm_rootCluster placement,
      fg_belowClusterMinimum = (pm_totalClusters placement < kFat32MinimumClusters)\<rparr>"

definition geometryAt :: "Bpb \<Rightarrow> Placement \<Rightarrow> Fat32Geometry result" where
  "geometryAt bpb placement =
     andThen (byteLayout bpb (pm_dataStartSector placement)) (\<lambda>layout.
       mapResult (safeMul32 (bp_bytesPerSector bpb) (bp_sectorsPerCluster bpb) kSectorsPerClusterOffset)
         (\<lambda>clusterBytes. assemble bpb placement layout clusterBytes))"

definition geometryFrom :: "Bpb \<Rightarrow> Fat32Geometry result" where
  "geometryFrom bpb = andThen (placementOf bpb) (geometryAt bpb)"

definition withClusterSize :: "bytes \<Rightarrow> Bpb \<Rightarrow> Bpb result" where
  "withClusterSize reader bpb =
     andThen (bytesPerSector reader) (\<lambda>sectorBytes.
       mapResult (sectorsPerCluster reader)
         (\<lambda>clusterSectors. bpb\<lparr>bp_bytesPerSector := sectorBytes, bp_sectorsPerCluster := clusterSectors\<rparr>))"

definition withFatPlacement :: "bytes \<Rightarrow> Bpb \<Rightarrow> Bpb result" where
  "withFatPlacement reader bpb =
     andThen (reservedSectors reader) (\<lambda>reserved.
       mapResult (fatCount reader) (\<lambda>cnt. bpb\<lparr>bp_reservedSectors := reserved, bp_fatCount := cnt\<rparr>))"

definition withFatSize :: "bytes \<Rightarrow> Bpb \<Rightarrow> Bpb result" where
  "withFatSize reader bpb = mapResult (fatSectors reader) (\<lambda>sectors. bpb\<lparr>bp_fatSectors := sectors\<rparr>)"

definition withVolume :: "bytes \<Rightarrow> Bpb \<Rightarrow> Bpb result" where
  "withVolume reader bpb =
     andThen (totalSectors reader) (\<lambda>sectors.
       mapResult (rootCluster reader) (\<lambda>root. bpb\<lparr>bp_totalSectors := sectors, bp_rootCluster := root\<rparr>))"

definition emptyBpb :: Bpb where
  "emptyBpb = \<lparr>bp_bytesPerSector = 0, bp_sectorsPerCluster = 0, bp_reservedSectors = 0, bp_fatCount = 0, bp_fatSectors = 0,
     bp_totalSectors = 0, bp_rootCluster = 0\<rparr>"

definition readBpb :: "bytes \<Rightarrow> Bpb result" where
  "readBpb reader =
     andThen (andThen (andThen (withClusterSize reader emptyBpb) (withFatPlacement reader)) (withFatSize reader)) (withVolume reader)"

definition parseFat32BootSector :: "bytes \<Rightarrow> Fat32Geometry result" where
  "parseFat32BootSector sector =
     (if length sector < kBootSectorBytes then Inl (mkError kOutOfRange (length sector))
      else let reader = take kBootSectorBytes sector
           in andThen (andThen (andThen (andThen (filSysTypeIsFat32 reader)
                (\<lambda>_. fat16OnlyFieldsAreZero reader))
                (\<lambda>_. bootSignatureIsValid reader))
                (\<lambda>_. readBpb reader))
                geometryFrom)"

subsection \<open>Reading a directory\<close>

definition kMaxDirectoryDepth :: nat where "kMaxDirectoryDepth = 64"
definition kMaxDirectoryBytes :: size_t where "kMaxDirectoryBytes = 4194304"

definition readDirectory :: "ClusterChain \<Rightarrow> u32 \<Rightarrow> bool \<Rightarrow> bytes result" where
  "readDirectory table cluster freedChain =
     (if \<not> isDataCluster table cluster then Inl (mkError kInvalidArgument cluster)
      else if freedChain then readDirectoryBytes table [cluster] kMaxDirectoryBytes
      else andThen (chainFrom table cluster) (\<lambda>clusters. readDirectoryBytes table clusters kMaxDirectoryBytes))"

definition endsDirectory :: "bytes \<Rightarrow> bool" where
  "endsDirectory slot \<longleftrightarrow> classifyEntry slot = Inr kEndOfDirectory"

definition upToEndOfDirectory :: "bytes \<Rightarrow> bytes" where
  "upToEndOfDirectory raw =
     (case List.find (\<lambda>at. endsDirectory (take kDirectoryEntryBytes (drop at raw)))
             (map (\<lambda>i. i * kDirectoryEntryBytes) [0..<length raw div kDirectoryEntryBytes]) of
        Some at \<Rightarrow> take at raw
      | None \<Rightarrow> raw)"

subsection \<open>The walk\<close>

record Cursor =
  cu_path :: string
  cu_cluster :: u32
  cu_depth :: nat
  cu_underDeleted :: bool

record Walk =
  wk_visited :: "u32 list"
  wk_scanned :: u64
  wk_entries :: "RecoveredEntry list"

definition nameOf :: "LongNameFragment list \<Rightarrow> ShortEntry \<Rightarrow> DecodedName" where
  "nameOf names entry = (case assembled names of Some long \<Rightarrow> long | None \<Rightarrow> se_name entry)"

definition placeOf :: "Cursor \<Rightarrow> LongNameFragment list \<Rightarrow> ShortEntry \<Rightarrow> EntryPlace" where
  "placeOf cursor names entry =
     (let name = nameOf names entry
      in \<lparr>pc_path = joinedPath (cu_path cursor) (map char_of_byte (dn_utf8 name)), pc_name = name,
          pc_underDeleted = cu_underDeleted cursor\<rparr>)"

definition walkable :: "ClusterChain \<Rightarrow> Walk \<Rightarrow> Cursor \<Rightarrow> ShortEntry \<Rightarrow> bool" where
  "walkable table walk cursor entry \<longleftrightarrow>
     cu_depth cursor < kMaxDirectoryDepth \<and> isDataCluster table (se_firstCluster entry) \<and> se_firstCluster entry \<notin> set (wk_visited walk)"

definition enqueue :: "ClusterChain \<Rightarrow> Cursor \<Rightarrow> ShortEntry \<Rightarrow> EntryPlace \<Rightarrow> Cursor list \<times> Walk \<Rightarrow> Cursor list \<times> Walk" where
  "enqueue table cursor entry place = (\<lambda>(pending, walk).
     if \<not> walkable table walk cursor entry then (pending, walk)
     else (pending @ [\<lparr>cu_path = pc_path place, cu_cluster = se_firstCluster entry, cu_depth = cu_depth cursor + 1,
                       cu_underDeleted = (cu_underDeleted cursor \<or> se_deleted entry)\<rparr>],
           walk\<lparr>wk_visited := wk_visited walk @ [se_firstCluster entry]\<rparr>))"

definition emit :: "ClusterChain \<Rightarrow> ShortEntry \<Rightarrow> EntryPlace \<Rightarrow> Walk \<Rightarrow> u64 \<times> Walk" where
  "emit table entry place walk =
     (if dn_utf8 (pc_name place) = [] then (0, walk)
      else (1, walk\<lparr>wk_entries := wk_entries walk @ [entryFromSlot table entry place]\<rparr>))"

definition shortEntry ::
    "ClusterChain \<Rightarrow> Cursor \<Rightarrow> LongNameFragment list \<Rightarrow> bytes \<Rightarrow> EntryKind \<Rightarrow> Cursor list \<times> Walk \<Rightarrow> u64 \<times> Cursor list \<times> Walk" where
  "shortEntry table cursor names slot kind = (\<lambda>(pending, walk).
     case parseShortEntry slot of
       Inl _ \<Rightarrow> (0, pending, walk)
     | Inr entry \<Rightarrow>
         let place = placeOf cursor names entry
         in if kind = kDirectory then (0, enqueue table cursor entry place (pending, walk))
            else (case emit table entry place walk of (n, walk') \<Rightarrow> (n, pending, walk')))"

definition dispatch ::
    "ClusterChain \<Rightarrow> Cursor \<Rightarrow> bytes \<Rightarrow> EntryKind \<Rightarrow> LongNameFragment list \<times> Cursor list \<times> Walk \<Rightarrow>
     u64 \<times> LongNameFragment list \<times> Cursor list \<times> Walk" where
  "dispatch table cursor slot kind = (\<lambda>(names, pending, walk).
     if kind = kLongName then (0, collectFragment names slot, pending, walk)
     else case (if kind = kVolumeLabel then (0, pending, walk) else shortEntry table cursor names slot kind (pending, walk)) of
            (n, pending', walk') \<Rightarrow> (n, [], pending', walk'))"

definition visitSlot ::
    "ClusterChain \<Rightarrow> Cursor \<Rightarrow> bytes \<Rightarrow> LongNameFragment list \<times> Cursor list \<times> Walk \<Rightarrow> u64 \<times> LongNameFragment list \<times> Cursor list \<times> Walk" where
  "visitSlot table cursor slot = (\<lambda>(names, pending, walk).
     let walk' = walk\<lparr>wk_scanned := wrap64 (wk_scanned walk + 1)\<rparr>
     in case classifyEntry slot of
          Inl _ \<Rightarrow> (0, names, pending, walk')
        | Inr kind \<Rightarrow> dispatch table cursor slot kind (names, pending, walk'))"

definition walkSlots :: "ClusterChain \<Rightarrow> Cursor \<Rightarrow> bytes \<Rightarrow> Cursor list \<times> Walk \<Rightarrow> u64 \<times> Cursor list \<times> Walk" where
  "walkSlots table cursor raw = (\<lambda>(pending, walk).
     case foldSlots (upToEndOfDirectory raw) kDirectoryEntryBytes (visitSlot table cursor) ([], pending, walk) of
       (n, names, state) \<Rightarrow> (n, state))"

definition walkOne :: "ClusterChain \<Rightarrow> Cursor \<Rightarrow> Cursor list \<times> Walk \<Rightarrow> u64 result \<times> Cursor list \<times> Walk" where
  "walkOne table cursor state =
     walkOneDirectory (readDirectory table (cu_cluster cursor) (cu_underDeleted cursor)) (walkSlots table cursor) state"

definition statsOf :: "bool \<Rightarrow> Walk \<Rightarrow> u64 \<Rightarrow> EnumerationStats" where
  "statsOf nonConforming walk cnt =
     \<lparr>es_recordsScanned = wk_scanned walk, es_entriesReported = cnt, es_nonConformingVolume = nonConforming\<rparr>"

definition walkVolume :: "ClusterChain \<Rightarrow> u32 \<Rightarrow> bool \<Rightarrow> (RecoveredEntry list \<times> EnumerationStats result) option" where
  "walkVolume table root nonConforming =
     (case driveWorklist (walkOne table) [\<lparr>cu_path = [], cu_cluster = root, cu_depth = 0, cu_underDeleted = False\<rparr>]
             \<lparr>wk_visited = [root], wk_scanned = 0, wk_entries = []\<rparr> of
        None \<Rightarrow> None
      | Some (cnt, walk) \<Rightarrow> Some (wk_entries walk, mapResult cnt (statsOf nonConforming walk)))"

subsection \<open>Mounting\<close>

definition chainGeometryOf :: "Fat32Geometry \<Rightarrow> ClusterGeometry" where
  "chainGeometryOf geometry =
     \<lparr>cg_bytesPerCluster = fg_bytesPerCluster geometry, cg_tableOffsetBytes = fg_fatOffsetBytes geometry,
      cg_tableSizeBytes = fg_fatSizeBytes geometry, cg_dataOffsetBytes = fg_dataOffsetBytes geometry,
      cg_totalClusters = fg_totalClusters geometry\<rparr>"

definition recognize :: "bytes \<Rightarrow> Fat32Geometry result" where
  "recognize sector =
     (if \<not> hasValue (filSysTypeIsFat32 sector) then Inl (mkError kNotFound 0) else parseFat32BootSector sector)"

text \<open>The walk of a mounted volume always ends, so its value is taken with \<^term>\<open>the\<close>.\<close>

definition fat32FileSystem :: "BlockDevice \<Rightarrow> Fat32Geometry \<Rightarrow> FileSystem" where
  "fat32FileSystem device geometry =
     \<lparr>fy_enumerate = the (walkVolume \<lparr>cc_device = device, cc_geometry = chainGeometryOf geometry\<rparr>
        (fg_rootCluster geometry) (fg_belowClusterMinimum geometry))\<rparr>"

definition mountFat32 :: mount where
  "mountFat32 device =
     mapResult (andThen (readMountRegion device \<lparr>mr_offset = 0, mr_length = kBootSectorBytes\<rparr>) recognize)
       (fat32FileSystem device)"

subsection \<open>Which boot sectors are accepted\<close>

declare readLe_in_range [simp del]

lemma fat_fields_Inr:
  assumes "512 \<le> length r"
  shows "reservedSectors r = Inr v \<longleftrightarrow> v = le_at 2 r 0x0E \<and> v \<noteq> 0"
    and "fatCount r = Inr v \<longleftrightarrow> v = unat (r ! 0x10) \<and> v \<noteq> 0"
    and "fatSectors r = Inr v \<longleftrightarrow> v = le_at 4 r 0x24 \<and> v \<noteq> 0"
    and "totalSectors r = Inr v \<longleftrightarrow> v = le_at 4 r 0x20 \<and> v \<noteq> 0"
    and "rootCluster r = Inr v \<longleftrightarrow> v = le_at 4 r 0x2C"
    and "filSysTypeIsFat32 r = Inr b \<longleftrightarrow> b \<and> take 8 (drop 0x52 r) = kFat32Type"
    and "fat16OnlyFieldsAreZero r = Inr b \<longleftrightarrow> b \<and> le_at 2 r 0x11 = 0 \<and> le_at 2 r 0x13 = 0 \<and> le_at 2 r 0x16 = 0"
proof -
  have type: "length kFat32Type = 8" by (simp add: kFat32Type_def)
  show "reservedSectors r = Inr v \<longleftrightarrow> v = le_at 2 r 0x0E \<and> v \<noteq> 0"
    using assms by (auto simp: reservedSectors_def kReservedSectorsOffset_def readLe_le_at)
  show "fatCount r = Inr v \<longleftrightarrow> v = unat (r ! 0x10) \<and> v \<noteq> 0"
    using assms by (auto simp: fatCount_def kFatCountOffset_def hd_drop_conv_nth Let_def)
  show "fatSectors r = Inr v \<longleftrightarrow> v = le_at 4 r 0x24 \<and> v \<noteq> 0"
    using assms by (auto simp: fatSectors_def nonZero_def readWide_def kFatSizeOffset_def readLe_le_at)
  show "totalSectors r = Inr v \<longleftrightarrow> v = le_at 4 r 0x20 \<and> v \<noteq> 0"
    using assms by (auto simp: totalSectors_def nonZero_def readWide_def kTotalSectorsOffset_def readLe_le_at)
  show "rootCluster r = Inr v \<longleftrightarrow> v = le_at 4 r 0x2C"
    using assms by (auto simp: rootCluster_def kRootClusterOffset_def readLe_le_at)
  show "filSysTypeIsFat32 r = Inr b \<longleftrightarrow> b \<and> take 8 (drop 0x52 r) = kFat32Type"
    using assms by (auto simp: filSysTypeIsFat32_def kFilSysTypeOffset_def type)
  show "fat16OnlyFieldsAreZero r = Inr b \<longleftrightarrow> b \<and> le_at 2 r 0x11 = 0 \<and> le_at 2 r 0x13 = 0 \<and> le_at 2 r 0x16 = 0"
    using assms by (auto simp: fat16OnlyFieldsAreZero_def kFat16OnlyOffsets_def fieldIsZero_def readLe_le_at)
qed

definition bpb_of :: "bytes \<Rightarrow> Bpb" where
  "bpb_of r = \<lparr>bp_bytesPerSector = le_at 2 r 0x0B, bp_sectorsPerCluster = unat (r ! 0x0D), bp_reservedSectors = le_at 2 r 0x0E,
     bp_fatCount = unat (r ! 0x10), bp_fatSectors = le_at 4 r 0x24, bp_totalSectors = le_at 4 r 0x20, bp_rootCluster = le_at 4 r 0x2C\<rparr>"

definition bpb_valid :: "Bpb \<Rightarrow> bool" where
  "bpb_valid b \<longleftrightarrow> bp_bytesPerSector b \<in> sector_sizes \<and> bp_sectorsPerCluster b \<in> cluster_sizes \<and> bp_reservedSectors b \<noteq> 0 \<and>
     bp_fatCount b \<noteq> 0 \<and> bp_fatSectors b \<noteq> 0 \<and> bp_totalSectors b \<noteq> 0"

lemma readBpb_Inr:
  assumes "512 \<le> length r"
  shows "readBpb r = Inr b \<longleftrightarrow> bpb_valid (bpb_of r) \<and> b = bpb_of r"
  unfolding readBpb_def withClusterSize_def withFatPlacement_def withFatSize_def withVolume_def andThen_Inr_iff mapResult_Inr_iff
    bytesPerSector_Inr [OF assms] sectorsPerCluster_Inr [OF assms] fat_fields_Inr [OF assms]
  by (auto simp: bpb_valid_def bpb_of_def emptyBpb_def)

definition data_start :: "Bpb \<Rightarrow> nat" where
  "data_start b = bp_reservedSectors b + bp_fatCount b * bp_fatSectors b"

definition fat_clusters :: "Bpb \<Rightarrow> nat" where
  "fat_clusters b = (bp_totalSectors b - data_start b) div bp_sectorsPerCluster b"

definition bpb_fits :: "Bpb \<Rightarrow> bool" where
  "bpb_fits b \<longleftrightarrow> data_start b < bp_totalSectors b \<and> fat_clusters b \<noteq> 0 \<and> 2 \<le> bp_rootCluster b \<and> bp_rootCluster b < fat_clusters b + 2"

definition bpb_small :: "Bpb \<Rightarrow> bool" where
  "bpb_small b \<longleftrightarrow> bp_reservedSectors b < 2 ^ 16 \<and> bp_fatCount b < 2 ^ 8 \<and> bp_fatSectors b < 2 ^ 32 \<and> bp_totalSectors b < 2 ^ 32 \<and> bp_rootCluster b < 2 ^ 32"

definition fat_geometry :: "Bpb \<Rightarrow> Fat32Geometry" where
  "fat_geometry b =
     \<lparr>fg_bytesPerSector = bp_bytesPerSector b, fg_bytesPerCluster = bp_bytesPerSector b * bp_sectorsPerCluster b,
      fg_fatCount = bp_fatCount b, fg_fatOffsetBytes = bp_reservedSectors b * bp_bytesPerSector b,
      fg_fatSizeBytes = bp_fatSectors b * bp_bytesPerSector b, fg_dataOffsetBytes = data_start b * bp_bytesPerSector b,
      fg_totalClusters = fat_clusters b, fg_rootCluster = bp_rootCluster b, fg_belowClusterMinimum = (fat_clusters b < 65525)\<rparr>"

lemma bpb_of_small: "bpb_small (bpb_of r)"
  using le_at_less [of 2 r 14] le_at_less [of 4 r 36] le_at_less [of 4 r 32] le_at_less [of 4 r 44] unat_byte_less [of "r ! 16"]
  by (simp add: bpb_small_def bpb_of_def)

lemma geometryFrom_Inr:
  assumes "bpb_valid b" and "bpb_small b"
  shows "geometryFrom b = Inr g \<longleftrightarrow> bpb_fits b \<and> g = fat_geometry b"
proof -
  let ?bps = "bp_bytesPerSector b" and ?spc = "bp_sectorsPerCluster b"
  have sizes: "?bps \<le> 4096" "?bps * ?spc \<le> 524288" "?spc \<le> 128" "0 < ?spc"
    using assms(1) by (auto simp: bpb_valid_def sector_sizes_def cluster_sizes_def)
  have small: "bp_reservedSectors b < 2 ^ 16" "bp_fatCount b < 2 ^ 8" "bp_fatSectors b < 2 ^ 32" "bp_totalSectors b < 2 ^ 32" "bp_rootCluster b < 2 ^ 32"
    using assms(2) by (simp_all add: bpb_small_def)
  have fats: "bp_fatCount b * bp_fatSectors b \<le> 2 ^ 8 * 2 ^ 32" using small by (intro mult_le_mono) simp_all
  then have start: "dataStartSector b = Inr (data_start b)"
    using small by (simp add: dataStartSector_def safeMul64_exact safeAdd64_exact data_start_def max64_def)
  have le: "fat_clusters b \<le> bp_totalSectors b - data_start b" by (simp add: fat_clusters_def)
  have fit: "?bps * n \<le> max64" "n * ?bps \<le> max64" if "n < 2 ^ 42" for n
  proof -
    have "?bps * n \<le> 4096 * 2 ^ 42" using that sizes(1) by (intro mult_le_mono) simp_all
    then show "?bps * n \<le> max64" "n * ?bps \<le> max64" by (simp_all add: max64_def mult.commute)
  qed
  have begins: "data_start b < 2 ^ 42" using fats small(1) by (simp add: data_start_def)
  have size32: "safeMul32 ?bps ?spc kSectorsPerClusterOffset = Inr (?bps * ?spc)"
    using safeMul32_exact [of ?bps ?spc] sizes by (simp add: max32_def)
  have geo: "geometryAt b p = Inr (assemble b p
      \<lparr>bl_fatOffset = bp_reservedSectors b * ?bps, bl_fatSize = bp_fatSectors b * ?bps, bl_dataOffset = pm_dataStartSector p * ?bps\<rparr> (?bps * ?spc))"
    if "pm_dataStartSector p = data_start b" for p
    using that small fit begins by (simp add: geometryAt_def byteLayout_def fatBytes_def safeMul64_exact size32 mapResult_def)
  have wrap: "wrap64 (fat_clusters b + kFirstDataCluster) = fat_clusters b + 2"
    using le small(4) by (simp add: kFirstDataCluster_def max64_def)
  have clusters: "dataClusters b (data_start b) = Inr n \<longleftrightarrow> data_start b < bp_totalSectors b \<and> fat_clusters b \<noteq> 0 \<and> n = fat_clusters b" for n
    by (auto simp: dataClusters_def fat_clusters_def Let_def)
  have root: "checkedRoot (bp_rootCluster b) (fat_clusters b) = Inr n \<longleftrightarrow>
      2 \<le> bp_rootCluster b \<and> bp_rootCluster b < fat_clusters b + 2 \<and> n = bp_rootCluster b" for n
    unfolding checkedRoot_def wrap by (auto simp: kFirstDataCluster_def)
  have place: "placementOf b = Inr p \<longleftrightarrow> bpb_fits b \<and>
      p = \<lparr>pm_dataStartSector = data_start b, pm_totalClusters = fat_clusters b, pm_rootCluster = bp_rootCluster b\<rparr>" for p
    unfolding placementOf_def andThen_Inr_iff mapResult_Inr_iff start bpb_fits_def by (auto simp: clusters root)
  show ?thesis
    unfolding geometryFrom_def andThen_Inr_iff place
    by (auto simp: geo assemble_def fat_geometry_def kFat32MinimumClusters_def)
qed

definition fat_boot_valid :: "bytes \<Rightarrow> bool" where
  "fat_boot_valid sector \<longleftrightarrow>
     512 \<le> length sector \<and> take 8 (drop 0x52 sector) = kFat32Type \<and>
     le_at 2 sector 0x11 = 0 \<and> le_at 2 sector 0x13 = 0 \<and> le_at 2 sector 0x16 = 0 \<and>
     sector ! 0x1FE = 0x55 \<and> sector ! 0x1FF = 0xAA \<and> bpb_valid (bpb_of sector) \<and> bpb_fits (bpb_of sector)"

lemma fat_take: "512 \<le> length sector \<Longrightarrow> bpb_of (take 512 sector) = bpb_of sector \<and> fat_boot_valid (take 512 sector) = fat_boot_valid sector"
  by (simp add: bpb_of_def fat_boot_valid_def le_at_take drop_take)

lemma parseFat32BootSector_Inr:
  "parseFat32BootSector sector = Inr g \<longleftrightarrow> fat_boot_valid sector \<and> g = fat_geometry (bpb_of sector)"
proof (cases "512 \<le> length sector")
  case True
  define r where "r = take 512 sector"
  have r: "length r = 512" "512 \<le> length r" using True by (simp_all add: r_def)
  have parse: "parseFat32BootSector sector = andThen (andThen (andThen (andThen (filSysTypeIsFat32 r)
      (\<lambda>_. fat16OnlyFieldsAreZero r)) (\<lambda>_. bootSignatureIsValid r)) (\<lambda>_. readBpb r)) geometryFrom"
    using True by (simp add: parseFat32BootSector_def kBootSectorBytes_def r_def Let_def)
  have "parseFat32BootSector sector = Inr g \<longleftrightarrow> fat_boot_valid r \<and> g = fat_geometry (bpb_of r)"
    unfolding parse andThen_Inr_iff fat_fields_Inr [OF r(2)] bootSignatureIsValid_Inr [OF r(1)] readBpb_Inr [OF r(2)]
    using r(2) geometryFrom_Inr [OF _ bpb_of_small, of r g] by (auto simp: fat_boot_valid_def)
  then show ?thesis using fat_take [OF True] by (simp add: r_def)
qed (simp add: parseFat32BootSector_def kBootSectorBytes_def fat_boot_valid_def)

text \<open>
  The FAT32 boot sector parser accepts exactly the boot sectors that satisfy every rule: the type
  string, the three FAT12/16 fields zero, the signature, a known sector size, a power-of-two cluster size, no zero count, a data region
  that starts inside the volume and holds a cluster, and a root cluster inside it. The geometry is
  the one the fields state: no combination of field values overflows.
\<close>

theorem fat32_boot_sector_is_accepted_exactly_when_valid:
  "parseFat32BootSector sector = Inr g \<longleftrightarrow> fat_boot_valid sector \<and> g = fat_geometry (bpb_of sector)"
  by (rule parseFat32BootSector_Inr)
subsection \<open>The walk ends and reports exact entries\<close>

definition walk_ok :: "nat \<Rightarrow> ClusterChain \<Rightarrow> u32 \<Rightarrow> Walk \<Rightarrow> bool" where
  "walk_ok volume table root walk \<longleftrightarrow> visited_ok table root (wk_visited walk) \<and> list_all (entry_exact volume) (wk_entries walk)"

definition walk_cost :: "ClusterChain \<Rightarrow> Cursor list \<Rightarrow> Walk \<Rightarrow> nat" where
  "walk_cost table pending walk = tree_cost table (wk_visited walk) pending"

lemma enqueue_ok:
  assumes "walk_ok volume table root walk" and "enqueue table cursor entry place (pending, walk) = (pending', walk')"
  shows "walk_ok volume table root walk' \<and> walk_cost table pending' walk' \<le> walk_cost table pending walk \<and> wk_entries walk' = wk_entries walk"
proof (cases "walkable table walk cursor entry")
  case True
  then have "visited_ok table root (wk_visited walk @ [se_firstCluster entry])"
    using assms(1) visited_ok_snoc by (auto simp: walkable_def walk_ok_def)
  then show ?thesis
    using True assms tree_cost_push by (auto simp: enqueue_def walk_ok_def walk_cost_def)
next
  case False
  then show ?thesis using assms by (simp add: enqueue_def)
qed

lemma shortEntry_ok:
  assumes "sound_volume content table" and "walk_ok (length content) table root walk"
    and "shortEntry table cursor names slot kind (pending, walk) = (n, pending', walk')"
  shows "walk_ok (length content) table root walk' \<and> walk_cost table pending' walk' \<le> walk_cost table pending walk \<and>
    length (wk_entries walk') = length (wk_entries walk) + n"
proof (cases "parseShortEntry slot")
  case (Inl e)
  then show ?thesis using assms by (simp add: shortEntry_def)
next
  case (Inr entry)
  let ?place = "placeOf cursor names entry"
  show ?thesis
  proof (cases "kind = kDirectory")
    case True
    then have "enqueue table cursor entry ?place (pending, walk) = (pending', walk')" "n = 0"
      using assms(3) Inr by (simp_all add: shortEntry_def Let_def)
    then show ?thesis using enqueue_ok [OF assms(2)] by simp
  next
    case False
    have "entry_exact (length content) (entryFromSlot table entry ?place)"
      using entryFromSlot_exact [of content table entry ?place] parseShortEntry_bounds [OF Inr] assms(1) by (simp add: sound_volume_def)
    then show ?thesis
      using False Inr assms(2,3) by (auto simp: shortEntry_def Let_def emit_def walk_ok_def walk_cost_def split: if_splits)
  qed
qed

lemma visitSlot_ok:
  assumes "sound_volume content table" and "walk_ok (length content) table root walk"
    and "visitSlot table cursor slot (names, pending, walk) = (n, names', pending', walk')"
  shows "walk_ok (length content) table root walk' \<and> walk_cost table pending' walk' \<le> walk_cost table pending walk \<and>
    length (wk_entries walk') = length (wk_entries walk) + n"
proof -
  let ?walk = "walk\<lparr>wk_scanned := wrap64 (wk_scanned walk + 1)\<rparr>"
  have ok: "walk_ok (length content) table root ?walk" "walk_cost table pending ?walk = walk_cost table pending walk"
    using assms(2) by (simp_all add: walk_ok_def walk_cost_def)
  show ?thesis
  proof (cases "classifyEntry slot")
    case (Inl e)
    then show ?thesis using assms(3) ok by (auto simp: visitSlot_def Let_def walk_ok_def walk_cost_def)
  next
    case (Inr kind)
    then have step: "dispatch table cursor slot kind (names, pending, ?walk) = (n, names', pending', walk')"
      using assms(3) by (simp add: visitSlot_def Let_def)
    show ?thesis
    proof (cases "kind = kLongName \<or> kind = kVolumeLabel")
      case True
      then show ?thesis using step ok by (auto simp: dispatch_def walk_ok_def walk_cost_def)
    next
      case False
      then have "shortEntry table cursor names slot kind (pending, ?walk) = (n, pending', walk')"
        using step by (auto simp: dispatch_def split: prod.splits)
      from shortEntry_ok [OF assms(1) ok(1) this] show ?thesis using ok(2) by simp
    qed
  qed
qed

lemma walkSlots_ok:
  assumes "sound_volume content table" and "walk_ok (length content) table root walk"
    and "walkSlots table cursor raw (pending, walk) = (n, pending', walk')"
  shows "walk_ok (length content) table root walk' \<and> walk_cost table pending' walk' \<le> walk_cost table pending walk \<and>
    wrap64 (length (wk_entries walk')) = wrap64 (length (wk_entries walk) + n)"
proof -
  let ?P = "\<lambda>cnt (names :: LongNameFragment list, pend, w). walk_ok (length content) table root w \<and> walk_cost table pend w \<le> walk_cost table pending walk \<and>
    wrap64 (length (wk_entries w)) = wrap64 (length (wk_entries walk) + cnt)"
  have "case foldSlots (upToEndOfDirectory raw) kDirectoryEntryBytes (visitSlot table cursor) ([], pending, walk) of (cnt, s) \<Rightarrow> ?P cnt s"
  proof (rule foldSlots_preserves)
    show "?P 0 ([], pending, walk)" using assms(2) by simp
  next
    fix slot cnt s m s'
    assume P: "?P cnt s" and visit: "visitSlot table cursor slot s = (m, s')"
    obtain names pend w names' pend' w' where s: "s = (names, pend, w)" "s' = (names', pend', w')" by (metis prod_cases3)
    have "wrap64 (length (wk_entries w) + m) = wrap64 (length (wk_entries walk) + wrap64 (cnt + m))"
      using P s by (intro wrap64_count) simp
    then show "?P (wrap64 (cnt + m)) s'" using visitSlot_ok [OF assms(1), of root w cursor slot names pend m names' pend' w'] P visit s by auto
  qed
  then show ?thesis using assms(3) by (auto simp: walkSlots_def split: prod.splits)
qed
interpretation fat_walk: worklist "walkOne table"
  "\<lambda>pending walk cnt. sound_volume content table \<and> walk_ok (length content) table root walk \<and> cnt = wrap64 (length (wk_entries walk))"
  "\<lambda>e walk. err_code e = kIoFailure \<and> list_all (entry_exact (length content)) (wk_entries walk)"
  "walk_cost table"
  for table content root
proof
  fix pending :: "Cursor list" and walk cnt found pending' walk'
  assume inv: "sound_volume content table \<and> walk_ok (length content) table root walk \<and> cnt = wrap64 (length (wk_entries walk))"
    and more: "pending \<noteq> []" and walked: "walkOne table (last pending) (butlast pending, walk) = (found, pending', walk')"
  have cheaper: "walk_cost table (butlast pending) walk < walk_cost table pending walk" using more by (simp add: walk_cost_def tree_cost_pop)
  let ?read = "readDirectory table (cu_cluster (last pending)) (cu_underDeleted (last pending))"
  show "case found of Inl e \<Rightarrow> err_code e = kIoFailure \<and> list_all (entry_exact (length content)) (wk_entries walk')
      | Inr n \<Rightarrow> (sound_volume content table \<and> walk_ok (length content) table root walk' \<and> wrap64 (cnt + n) = wrap64 (length (wk_entries walk'))) \<and>
          walk_cost table pending' walk' < walk_cost table pending walk"
  proof (cases ?read)
    case (Inl e)
    then show ?thesis using inv walked cheaper
      by (auto simp: walkOne_def walkOneDirectory_def skipUnreadableDirectory_def walk_ok_def wrap64_id [OF wrap64_less])
  next
    case (Inr raw)
    then obtain n where found: "found = Inr n" and slots: "walkSlots table (last pending) raw (butlast pending, walk) = (n, pending', walk')"
      using walked by (auto simp: walkOne_def walkOneDirectory_def split: prod.splits)
    from walkSlots_ok [OF _ _ slots, of content root] inv cheaper show ?thesis
      by (auto simp: found wrap64_add)
  qed
qed

lemma walkVolume_ends:
  assumes "sound_volume content table"
  shows "\<exists>entries stats. walkVolume table root nonConforming = Some (entries, stats) \<and> list_all (entry_exact (length content)) entries \<and>
    (case stats of
       Inl e \<Rightarrow> err_code e = kIoFailure
     | Inr totals \<Rightarrow> es_entriesReported totals = wrap64 (length entries) \<and> es_nonConformingVolume totals = nonConforming)"
proof -
  have "sound_volume content table \<and> walk_ok (length content) table root \<lparr>wk_visited = [root], wk_scanned = 0, wk_entries = []\<rparr> \<and>
      0 = wrap64 (length (wk_entries \<lparr>wk_visited = [root], wk_scanned = 0, wk_entries = []\<rparr>))"
    using assms by (simp add: walk_ok_def visited_ok_def)
  from fat_walk.drive_ends [OF this, of "[\<lparr>cu_path = [], cu_cluster = root, cu_depth = 0, cu_underDeleted = False\<rparr>]"]
  obtain found walk where drive: "driveWorklistFrom (walkOne table) [\<lparr>cu_path = [], cu_cluster = root, cu_depth = 0, cu_underDeleted = False\<rparr>]
        \<lparr>wk_visited = [root], wk_scanned = 0, wk_entries = []\<rparr> 0 = Some (found, walk)"
      and after: "case found of Inl e \<Rightarrow> err_code e = kIoFailure \<and> list_all (entry_exact (length content)) (wk_entries walk)
        | Inr n \<Rightarrow> sound_volume content table \<and> walk_ok (length content) table root walk \<and> n = wrap64 (length (wk_entries walk))" by blast
  have "walkVolume table root nonConforming = Some (wk_entries walk, mapResult found (statsOf nonConforming walk))"
    by (simp add: walkVolume_def driveWorklist_def drive)
  then show ?thesis using after by (cases found) (auto simp: statsOf_def mapResult_def walk_ok_def)
qed

lemma fat_geometry_sound:
  assumes "fat_boot_valid sector" and "table = \<lparr>cc_device = device, cc_geometry = chainGeometryOf (fat_geometry (bpb_of sector))\<rparr>"
  shows "\<exists>content. sound_volume content table \<and> length content = bp_totalSectors (bpb_of sector) * bp_bytesPerSector (bpb_of sector)"
proof -
  let ?b = "bpb_of sector"
  let ?n = "bp_totalSectors ?b * bp_bytesPerSector ?b"
  have valid: "bpb_valid ?b" "bpb_fits ?b" using assms(1) by (simp_all add: fat_boot_valid_def)
  have sizes: "512 \<le> bp_bytesPerSector ?b" "bp_bytesPerSector ?b \<le> 4096" "0 < bp_sectorsPerCluster ?b"
    using valid(1) by (auto simp: bpb_valid_def sector_sizes_def cluster_sizes_def)
  have "bp_totalSectors ?b < 2 ^ 32" using bpb_of_small [of sector] by (simp add: bpb_small_def)
  then have small: "?n \<le> max64" using mult_le_mono [of "bp_totalSectors ?b" "2 ^ 32" "bp_bytesPerSector ?b" 4096] sizes(2) by (simp add: max64_def)
  have "fat_clusters ?b * bp_sectorsPerCluster ?b \<le> bp_totalSectors ?b - data_start ?b"
    unfolding fat_clusters_def by (rule div_times_less_eq_dividend)
  moreover have "data_start ?b < bp_totalSectors ?b" using valid(2) by (simp add: bpb_fits_def)
  ultimately have "data_start ?b + fat_clusters ?b * bp_sectorsPerCluster ?b \<le> bp_totalSectors ?b" by linarith
  then have "(data_start ?b + fat_clusters ?b * bp_sectorsPerCluster ?b) * bp_bytesPerSector ?b \<le> ?n" by (rule mult_le_mono1)
  moreover have "512 * 1 \<le> bp_bytesPerSector ?b * bp_sectorsPerCluster ?b" using sizes by (intro mult_le_mono) simp_all
  ultimately have "sound_volume (replicate ?n 0) table"
    using small sizes by (simp add: sound_volume_def holds_clusters_def assms(2) chainGeometryOf_def fat_geometry_def algebra_simps)
  then show ?thesis by (intro exI [of _ "replicate ?n 0"]) simp
qed

lemma mountFat32_Inr:
  assumes "mountFat32 device = Inr fs"
  obtains sector where "readMountRegion device \<lparr>mr_offset = 0, mr_length = 512\<rparr> = Inr sector" "fat_boot_valid sector"
    "fs = fat32FileSystem device (fat_geometry (bpb_of sector))"
  using assms
  by (auto simp: mountFat32_def mapResult_Inr_iff andThen_Inr_iff recognize_def kBootSectorBytes_def parseFat32BootSector_Inr split: if_splits)

lemma fat32_volume:
  assumes "fat_boot_valid sector"
  shows "case fy_enumerate (fat32FileSystem device (fat_geometry (bpb_of sector))) of
    (entries, stats) \<Rightarrow>
      list_all (entry_exact (bp_totalSectors (bpb_of sector) * bp_bytesPerSector (bpb_of sector))) entries \<and>
      (case stats of Inl e \<Rightarrow> err_code e = kIoFailure | Inr totals \<Rightarrow> es_entriesReported totals = wrap64 (length entries))"
proof -
  let ?g = "fat_geometry (bpb_of sector)"
  let ?table = "\<lparr>cc_device = device, cc_geometry = chainGeometryOf ?g\<rparr>"
  obtain content where content: "sound_volume content ?table" "length content = bp_totalSectors (bpb_of sector) * bp_bytesPerSector (bpb_of sector)"
    using fat_geometry_sound [OF assms refl] by blast
  from walkVolume_ends [OF content(1), of "fg_rootCluster ?g" "fg_belowClusterMinimum ?g"]
  obtain entries stats where walk: "walkVolume ?table (fg_rootCluster ?g) (fg_belowClusterMinimum ?g) = Some (entries, stats)"
      and after: "list_all (entry_exact (length content)) entries"
        "case stats of Inl e \<Rightarrow> err_code e = kIoFailure
         | Inr totals \<Rightarrow> es_entriesReported totals = wrap64 (length entries) \<and> es_nonConformingVolume totals = fg_belowClusterMinimum ?g" by blast
  then show ?thesis by (cases stats) (simp_all add: fat32FileSystem_def content(2) walk)
qed


interpretation fat32: filesystem_driver mountFat32
proof
  fix device fs
  assume "mountFat32 device = Inr fs"
  then obtain sector where sector: "fat_boot_valid sector" and fs: "fs = fat32FileSystem device (fat_geometry (bpb_of sector))" by (rule mountFat32_Inr)
  obtain content where "sound_volume content \<lparr>cc_device = device, cc_geometry = chainGeometryOf (fat_geometry (bpb_of sector))\<rparr>"
      and "length content = bp_totalSectors (bpb_of sector) * bp_bytesPerSector (bpb_of sector)"
    using fat_geometry_sound [OF sector refl] by blast
  then have "bp_totalSectors (bpb_of sector) * bp_bytesPerSector (bpb_of sector) \<le> max64" by (simp add: sound_volume_def holds_clusters_def)
  then show "list_all (entry_exact max64) (fst (fy_enumerate fs))"
    using fat32_volume [OF sector, of device] entry_exact_mono by (auto simp: fs list_all_iff split: prod.splits)
qed

end
