(* ===== verification/ExfatVolumes.thy ===== *)
theory ExfatVolumes
  imports ClusterChains DosTimes Names
begin

text \<open>
  An exFAT volume, from its boot sector to the entries a visitor is called with:
  \<open>src/fs/exfat/BootRegionFields.cpp\<close>, \<open>BootRegionGeometry.cpp\<close>, \<open>BootRegion.cpp\<close>,
  \<open>DirectoryEntry.cpp\<close>, \<open>AllocationBitmap.cpp\<close>, \<open>PendingSet.cpp\<close>,
  \<open>EntrySetWalk.cpp\<close> and \<open>ExfatFileSystem.cpp\<close>. As for FAT32, the members of the class \<open>Walk\<close> are
  the state of the walk; the set under construction, the worklist and the bitmap are passed beside it.
\<close>

subsection \<open>Boot region\<close>

definition kFileSystemNameOffset :: u64 where "kFileSystemNameOffset = 0x03"
definition kMustBeZeroOffset :: u64 where "kMustBeZeroOffset = 0x0B"
definition kVolumeLengthOffset :: u64 where "kVolumeLengthOffset = 0x48"
definition kFatOffsetOffset :: u64 where "kFatOffsetOffset = 0x50"
definition kFatLengthOffset :: u64 where "kFatLengthOffset = 0x54"
definition kClusterHeapOffsetOffset :: u64 where "kClusterHeapOffsetOffset = 0x58"
definition kClusterCountOffset :: u64 where "kClusterCountOffset = 0x5C"
definition kRootClusterOffset :: u64 where "kRootClusterOffset = 0x60"
definition kSectorShiftOffset :: u64 where "kSectorShiftOffset = 0x6C"
definition kClusterShiftOffset :: u64 where "kClusterShiftOffset = 0x6D"
definition kFatCountOffset :: u64 where "kFatCountOffset = 0x6E"
definition kSignatureOffset :: u64 where "kSignatureOffset = 0x1FE"
definition kMustBeZeroBytes :: size_t where "kMustBeZeroBytes = 53"
definition kFileSystemName :: bytes where "kFileSystemName = [0x45, 0x58, 0x46, 0x41, 0x54, 0x20, 0x20, 0x20]"
definition kMinSectorShift :: u32 where "kMinSectorShift = 9"
definition kMaxSectorShift :: u32 where "kMaxSectorShift = 12"
definition kMaxClusterShiftSum :: u32 where "kMaxClusterShiftSum = 25"
definition kFirstDataCluster :: u32 where "kFirstDataCluster = 2"

record BootRegion =
  br_bytesPerSector :: u32
  br_sectorsPerCluster :: u32
  br_fatCount :: u32
  br_volumeSectors :: u64
  br_fatSector :: u64
  br_fatSectors :: u64
  br_clusterHeapSector :: u64
  br_clusterCount :: u64
  br_rootCluster :: u32

record ExfatGeometry =
  xg_bytesPerSector :: u32
  xg_bytesPerCluster :: u32
  xg_fatCount :: u32
  xg_fatOffsetBytes :: u64
  xg_fatSizeBytes :: u64
  xg_clusterHeapOffsetBytes :: u64
  xg_totalClusters :: u64
  xg_rootCluster :: u32

definition nameMatches :: "bytes \<Rightarrow> bool result" where
  "nameMatches reader =
     andThen (bytesAt reader kFileSystemNameOffset (length kFileSystemName))
       (\<lambda>raw. if raw \<noteq> kFileSystemName then Inl (mkError kInvalidArgument kFileSystemNameOffset) else Inr True)"

definition mustBeZeroIsZero :: "bytes \<Rightarrow> bool result" where
  "mustBeZeroIsZero reader =
     andThen (bytesAt reader kMustBeZeroOffset kMustBeZeroBytes)
       (\<lambda>raw. if list_ex (\<lambda>val. val \<noteq> 0) raw then Inl (mkError kInvalidArgument kMustBeZeroOffset) else Inr True)"

definition shiftAt :: "bytes \<Rightarrow> u64 \<Rightarrow> u32 result" where
  "shiftAt reader off = mapResult (bytesAt reader off 1) (\<lambda>raw. unat (hd raw))"

definition namesExfat :: "bytes \<Rightarrow> bool result" where
  "namesExfat reader = andThen (nameMatches reader) (\<lambda>_. mustBeZeroIsZero reader)"

definition sectorBytesOf :: "bytes \<Rightarrow> u32 result" where
  "sectorBytesOf reader =
     andThen (shiftAt reader kSectorShiftOffset)
       (\<lambda>shift. if shift < kMinSectorShift \<or> shift > kMaxSectorShift then Inl (mkError kInvalidArgument kSectorShiftOffset)
                else Inr (push_bit shift 1))"

function countrZero :: "u32 \<Rightarrow> nat" where
  "countrZero val = (if val = 0 then 32 else if odd val then 0 else Suc (countrZero (val div 2)))"
  by pat_completeness auto
termination by (relation "measure id") auto

declare countrZero.simps [simp del]

definition clusterSectorsOf :: "bytes \<Rightarrow> u32 \<Rightarrow> u32 result" where
  "clusterSectorsOf reader sectorBytes =
     (let sectorShift = countrZero sectorBytes
      in andThen (shiftAt reader kClusterShiftOffset)
           (\<lambda>shift. if shift + sectorShift > kMaxClusterShiftSum then Inl (mkError kInvalidArgument kClusterShiftOffset)
                    else Inr (push_bit shift 1)))"

definition fatCount :: "bytes \<Rightarrow> u32 result" where
  "fatCount reader =
     andThen (bytesAt reader kFatCountOffset 1)
       (\<lambda>raw. let val = unat (hd raw)
              in if val \<noteq> 1 \<and> val \<noteq> 2 then Inl (mkError kInvalidArgument kFatCountOffset) else Inr val)"

definition signatureIsValid :: "bytes \<Rightarrow> bool result" where
  "signatureIsValid reader =
     andThen (bytesAt reader kSignatureOffset 2)
       (\<lambda>raw. if hd raw \<noteq> 0x55 \<or> last raw \<noteq> 0xAA then Inl (mkError kInvalidArgument kSignatureOffset) else Inr True)"

record ByteLayout =
  bl_fatOffset :: u64
  bl_fatSize :: u64
  bl_heapOffset :: u64

definition heapFits :: "BootRegion \<Rightarrow> bool result" where
  "heapFits region =
     (if br_clusterHeapSector region \<ge> br_volumeSectors region then Inl (mkError kInvalidArgument kClusterHeapOffsetOffset)
      else if br_clusterCount region = 0 then Inl (mkError kInvalidArgument kClusterCountOffset)
      else Inr True)"

definition checkedRoot :: "BootRegion \<Rightarrow> u32 result" where
  "checkedRoot region =
     (let root = br_rootCluster region
      in if root < kFirstDataCluster \<or> root \<ge> wrap64 (br_clusterCount region + kFirstDataCluster)
         then Inl (mkError kInvalidArgument kRootClusterOffset) else Inr root)"

definition layoutAfterFat :: "BootRegion \<Rightarrow> u64 \<Rightarrow> ByteLayout result" where
  "layoutAfterFat region fatOffset =
     andThen (safeMul64 (br_fatSectors region) (br_bytesPerSector region) kFatLengthOffset) (\<lambda>fatSize.
       mapResult (safeMul64 (br_clusterHeapSector region) (br_bytesPerSector region) kClusterHeapOffsetOffset)
         (\<lambda>heapOffset. \<lparr>bl_fatOffset = fatOffset, bl_fatSize = fatSize, bl_heapOffset = heapOffset\<rparr>))"

definition byteLayout :: "BootRegion \<Rightarrow> ByteLayout result" where
  "byteLayout region =
     andThen (safeMul64 (br_fatSector region) (br_bytesPerSector region) kFatOffsetOffset) (layoutAfterFat region)"

definition assemble :: "BootRegion \<Rightarrow> ByteLayout \<Rightarrow> u32 \<Rightarrow> u32 \<Rightarrow> ExfatGeometry" where
  "assemble region layout clusterBytes root =
     \<lparr>xg_bytesPerSector = br_bytesPerSector region, xg_bytesPerCluster = clusterBytes, xg_fatCount = br_fatCount region,
      xg_fatOffsetBytes = bl_fatOffset layout, xg_fatSizeBytes = bl_fatSize layout,
      xg_clusterHeapOffsetBytes = bl_heapOffset layout, xg_totalClusters = br_clusterCount region, xg_rootCluster = root\<rparr>"

definition geometryAt :: "BootRegion \<Rightarrow> u32 \<Rightarrow> ExfatGeometry result" where
  "geometryAt region root =
     andThen (byteLayout region) (\<lambda>layout.
       mapResult (safeMul32 (br_bytesPerSector region) (br_sectorsPerCluster region) kClusterShiftOffset)
         (\<lambda>clusterBytes. assemble region layout clusterBytes root))"

definition geometryOf :: "BootRegion \<Rightarrow> ExfatGeometry result" where
  "geometryOf region = andThen (andThen (heapFits region) (\<lambda>_. checkedRoot region)) (geometryAt region)"

definition withClusterSize :: "bytes \<Rightarrow> BootRegion \<Rightarrow> BootRegion result" where
  "withClusterSize reader region =
     andThen (sectorBytesOf reader) (\<lambda>sectorBytes.
       mapResult (clusterSectorsOf reader sectorBytes)
         (\<lambda>clusterSectors. region\<lparr>br_bytesPerSector := sectorBytes, br_sectorsPerCluster := clusterSectors\<rparr>))"

definition withPair ::
    "nat \<Rightarrow> nat \<Rightarrow> bytes \<Rightarrow> BootRegion \<Rightarrow> u64 \<times> u64 \<Rightarrow> (BootRegion \<Rightarrow> nat \<Rightarrow> nat \<Rightarrow> BootRegion) \<Rightarrow> BootRegion result" where
  "withPair firstWidth secondWidth reader region offsets combine =
     andThen (readLe firstWidth reader (fst offsets)) (\<lambda>one.
       mapResult (readLe secondWidth reader (snd offsets)) (\<lambda>two. combine region one two))"

definition withFatPlacement :: "bytes \<Rightarrow> BootRegion \<Rightarrow> BootRegion result" where
  "withFatPlacement reader region =
     withPair 4 4 reader region (kFatOffsetOffset, kFatLengthOffset) (\<lambda>block one two. block\<lparr>br_fatSector := one, br_fatSectors := two\<rparr>)"

definition withHeap :: "bytes \<Rightarrow> BootRegion \<Rightarrow> BootRegion result" where
  "withHeap reader region =
     withPair 4 4 reader region (kClusterHeapOffsetOffset, kClusterCountOffset)
       (\<lambda>block one two. block\<lparr>br_clusterHeapSector := one, br_clusterCount := two\<rparr>)"

definition withVolume :: "bytes \<Rightarrow> BootRegion \<Rightarrow> BootRegion result" where
  "withVolume reader region =
     withPair 8 4 reader region (kVolumeLengthOffset, kRootClusterOffset)
       (\<lambda>block one two. block\<lparr>br_volumeSectors := one, br_rootCluster := two\<rparr>)"

definition withFatCount :: "bytes \<Rightarrow> BootRegion \<Rightarrow> BootRegion result" where
  "withFatCount reader region = mapResult (fatCount reader) (\<lambda>cnt. region\<lparr>br_fatCount := cnt\<rparr>)"

definition emptyRegion :: BootRegion where
  "emptyRegion = \<lparr>br_bytesPerSector = 0, br_sectorsPerCluster = 0, br_fatCount = 0, br_volumeSectors = 0, br_fatSector = 0,
     br_fatSectors = 0, br_clusterHeapSector = 0, br_clusterCount = 0, br_rootCluster = 0\<rparr>"

definition readBootRegion :: "bytes \<Rightarrow> BootRegion result" where
  "readBootRegion reader =
     andThen (andThen (andThen (andThen (withClusterSize reader emptyRegion) (withFatPlacement reader)) (withHeap reader))
       (withVolume reader)) (withFatCount reader)"

definition parseExfatBootSector :: "bytes \<Rightarrow> ExfatGeometry result" where
  "parseExfatBootSector sector =
     (if length sector < kBootSectorBytes then Inl (mkError kOutOfRange (length sector))
      else let reader = take kBootSectorBytes sector
           in andThen (andThen (andThen (namesExfat reader) (\<lambda>_. signatureIsValid reader)) (\<lambda>_. readBootRegion reader)) geometryOf)"

subsection \<open>Directory entries\<close>

definition kDirectoryEntryBytes :: size_t where "kDirectoryEntryBytes = 32"
definition kInUseBit :: u8 where "kInUseBit = 0x80"
definition kTypeCodeMask :: u8 where "kTypeCodeMask = 0x7F"
definition kFileCode :: u8 where "kFileCode = 0x05"
definition kStreamExtensionCode :: u8 where "kStreamExtensionCode = 0x40"
definition kFileNameCode :: u8 where "kFileNameCode = 0x41"
definition kAllocationBitmapCode :: u8 where "kAllocationBitmapCode = 0x01"
definition kUpcaseTableCode :: u8 where "kUpcaseTableCode = 0x02"
definition kVolumeLabelCode :: u8 where "kVolumeLabelCode = 0x03"
definition kDirectoryAttribute :: u16 where "kDirectoryAttribute = 0x0010"
definition kNoFatChainFlag :: u8 where "kNoFatChainFlag = 0x02"
definition kNameFragmentOffset :: size_t where "kNameFragmentOffset = 0x02"
definition kNameFragmentBytes :: size_t where "kNameFragmentBytes = 30"

datatype ExfatEntryKind =
    kEndOfDirectory | kFile | kStreamExtension | kFileName | kAllocationBitmap | kUpcaseTable | kVolumeLabel | kUnknown

record ExfatEntryHeader =
  eh_kind :: ExfatEntryKind
  eh_inUse :: bool

record FileEntry =
  fe_secondaryCount :: u8
  fe_timestamps :: Timestamps
  fe_isDirectory :: bool

record StreamExtension =
  st_firstCluster :: u32
  st_validDataLength :: u64
  st_dataLength :: u64
  st_nameLength :: u8
  st_noFatChain :: bool

definition kindOfMetadataCode :: "u8 \<Rightarrow> ExfatEntryKind" where
  "kindOfMetadataCode code =
     (if code = kAllocationBitmapCode then kAllocationBitmap
      else if code = kUpcaseTableCode then kUpcaseTable
      else if code = kVolumeLabelCode then kVolumeLabel else kUnknown)"

definition kindOfCode :: "u8 \<Rightarrow> ExfatEntryKind" where
  "kindOfCode code =
     (if code = kFileCode then kFile
      else if code = kStreamExtensionCode then kStreamExtension
      else if code = kFileNameCode then kFileName
      else kindOfMetadataCode code)"

definition stampAt :: "bytes \<Rightarrow> size_t \<Rightarrow> u64" where
  "stampAt reader off =
     (let packed = slotFieldAt 4 reader off
      in toFiletime \<lparr>dt_date = drop_bit 16 packed mod 2 ^ 16, dt_time = and packed 0xFFFF\<rparr>)"

definition classifyExfatEntry :: "bytes \<Rightarrow> ExfatEntryHeader result" where
  "classifyExfatEntry slot =
     mapResult (slotReader slot kDirectoryEntryBytes)
       (\<lambda>reader. let code = slotByteAt reader 0
                 in if code = 0 then \<lparr>eh_kind = kEndOfDirectory, eh_inUse = False\<rparr>
                    else \<lparr>eh_kind = kindOfCode (and code kTypeCodeMask), eh_inUse = (and code kInUseBit \<noteq> 0)\<rparr>)"

definition parseFileEntry :: "bytes \<Rightarrow> FileEntry result" where
  "parseFileEntry slot =
     mapResult (slotReader slot kDirectoryEntryBytes)
       (\<lambda>reader. \<lparr>fe_secondaryCount = slotByteAt reader 0x01,
                  fe_timestamps = \<lparr>ts_created = stampAt reader 0x08, ts_modified = stampAt reader 0x0C, ts_accessed = stampAt reader 0x10\<rparr>,
                  fe_isDirectory = (and (slotFieldAt 2 reader 0x04) kDirectoryAttribute \<noteq> 0)\<rparr>)"

definition parseStreamExtension :: "bytes \<Rightarrow> StreamExtension result" where
  "parseStreamExtension slot =
     mapResult (slotReader slot kDirectoryEntryBytes)
       (\<lambda>reader. \<lparr>st_firstCluster = slotFieldAt 4 reader 0x14, st_validDataLength = slotFieldAt 8 reader 0x08,
                  st_dataLength = slotFieldAt 8 reader 0x18, st_nameLength = slotByteAt reader 0x03,
                  st_noFatChain = (and (slotByteAt reader 0x01) kNoFatChainFlag \<noteq> 0)\<rparr>)"

definition parseFileName :: "bytes \<Rightarrow> bytes result" where
  "parseFileName slot =
     mapResult (slotReader slot kDirectoryEntryBytes) (\<lambda>_. take kNameFragmentBytes (drop kNameFragmentOffset slot))"

subsection \<open>The allocation bitmap\<close>

definition kMaxBitmapBytes :: size_t where "kMaxBitmapBytes = 67108864"
definition kBitmapClusterOffset :: size_t where "kBitmapClusterOffset = 0x14"
definition kBitmapLengthOffset :: size_t where "kBitmapLengthOffset = 0x18"

record BitmapLocation =
  bm_firstCluster :: u32
  bm_lengthBytes :: u64

definition locationIn :: "bytes \<Rightarrow> BitmapLocation option" where
  "locationIn slot =
     (case (readLe 4 slot kBitmapClusterOffset, readLe 8 slot kBitmapLengthOffset) of
        (Inr cluster, Inr len) \<Rightarrow> Some \<lparr>bm_firstCluster = cluster, bm_lengthBytes = len\<rparr>
      | _ \<Rightarrow> None)"

definition namesBitmap :: "bytes \<Rightarrow> bool" where
  "namesBitmap slot = (case classifyExfatEntry slot of Inl _ \<Rightarrow> False | Inr header \<Rightarrow> eh_kind header = kAllocationBitmap)"

definition findBitmap :: "bytes \<Rightarrow> BitmapLocation option" where
  "findBitmap raw =
     (case List.find namesBitmap (slotsOf raw kDirectoryEntryBytes) of None \<Rightarrow> None | Some slot \<Rightarrow> locationIn slot)"

definition readBits :: "ClusterChain \<Rightarrow> BitmapLocation \<Rightarrow> bytes" where
  "readBits chain place =
     (case chainFrom chain (bm_firstCluster place) of
        Inl _ \<Rightarrow> []
      | Inr clusters \<Rightarrow>
          if bm_lengthBytes place > kMaxBitmapBytes then []
          else case readDirectoryBytes chain clusters kMaxBitmapBytes of
                 Inl _ \<Rightarrow> []
               | Inr raw \<Rightarrow> take (min (length raw) (bm_lengthBytes place)) raw)"

definition known :: "bytes \<Rightarrow> bool" where "known bits \<longleftrightarrow> bits \<noteq> []"

definition isAllocated :: "bytes \<Rightarrow> u32 \<Rightarrow> bool" where
  "isAllocated bits cluster =
     (if cluster < kFirstCluster then True
      else let index = cluster - kFirstCluster
           in if index div 8 \<ge> length bits then True
              else and (unat (bits ! (index div 8))) (push_bit (index mod 8) 1) \<noteq> 0)"

definition readAllocationBitmap :: "ClusterChain \<Rightarrow> bytes \<Rightarrow> bytes" where
  "readAllocationBitmap chain directoryBytes =
     (case findBitmap directoryBytes of None \<Rightarrow> [] | Some place \<Rightarrow> readBits chain place)"

subsection \<open>Entry sets\<close>

record AssembledSet =
  as_name :: DecodedName
  as_firstCluster :: u32
  as_sizeInBytes :: u64
  as_timestamps :: Timestamps
  as_isDirectory :: bool
  as_inUse :: bool
  as_contiguous :: bool

record PendingSet =
  ps_active :: bool
  ps_inUse :: bool
  ps_hasStream :: bool
  ps_file :: FileEntry
  ps_stream :: StreamExtension
  ps_nameBytes :: bytes

definition emptyFile :: FileEntry where
  "emptyFile = \<lparr>fe_secondaryCount = 0, fe_timestamps = \<lparr>ts_created = 0, ts_modified = 0, ts_accessed = 0\<rparr>, fe_isDirectory = False\<rparr>"

definition emptyStream :: StreamExtension where
  "emptyStream = \<lparr>st_firstCluster = 0, st_validDataLength = 0, st_dataLength = 0, st_nameLength = 0, st_noFatChain = False\<rparr>"

definition noSet :: PendingSet where
  "noSet = \<lparr>ps_active = False, ps_inUse = False, ps_hasStream = False, ps_file = emptyFile, ps_stream = emptyStream, ps_nameBytes = []\<rparr>"

definition nameOf :: "bytes \<Rightarrow> u8 \<Rightarrow> DecodedName" where
  "nameOf raw nameLength = decodeUtf16Name (take (min (length raw) (nameLength * 2)) raw)"

definition beginSet :: "PendingSet \<Rightarrow> bool \<Rightarrow> bytes \<Rightarrow> PendingSet" where
  "beginSet set' inUse slot =
     (let entry = parseFileEntry slot
      in set'\<lparr>ps_nameBytes := [], ps_hasStream := False, ps_active := hasValue entry, ps_inUse := inUse,
              ps_file := (case entry of Inr found \<Rightarrow> found | Inl _ \<Rightarrow> emptyFile)\<rparr>)"

definition takeStream :: "PendingSet \<Rightarrow> bytes \<Rightarrow> PendingSet" where
  "takeStream set' slot =
     (let stream = parseStreamExtension slot
      in set'\<lparr>ps_hasStream := hasValue stream, ps_stream := (case stream of Inr found \<Rightarrow> found | Inl _ \<Rightarrow> emptyStream)\<rparr>)"

definition appendName :: "PendingSet \<Rightarrow> bytes \<Rightarrow> PendingSet" where
  "appendName set' slot =
     (case parseFileName slot of Inl _ \<Rightarrow> set' | Inr fragment \<Rightarrow> set'\<lparr>ps_nameBytes := ps_nameBytes set' @ fragment\<rparr>)"

definition absorb :: "PendingSet \<Rightarrow> ExfatEntryKind \<Rightarrow> bytes \<Rightarrow> PendingSet" where
  "absorb set' kind slot =
     (if \<not> ps_active set' then set'
      else let streamed = (if kind = kStreamExtension then takeStream set' slot else set')
           in if kind = kFileName then appendName streamed slot else streamed)"

definition takeSet :: "PendingSet \<Rightarrow> AssembledSet option \<times> PendingSet" where
  "takeSet set' =
     (if \<not> ps_active set' \<or> \<not> ps_hasStream set' then (None, set'\<lparr>ps_active := False\<rparr>)
      else (Some \<lparr>as_name = nameOf (ps_nameBytes set') (st_nameLength (ps_stream set')),
                  as_firstCluster = st_firstCluster (ps_stream set'), as_sizeInBytes = st_dataLength (ps_stream set'),
                  as_timestamps = fe_timestamps (ps_file set'), as_isDirectory = fe_isDirectory (ps_file set'),
                  as_inUse = ps_inUse set', as_contiguous = st_noFatChain (ps_stream set')\<rparr>,
            set'\<lparr>ps_active := False\<rparr>))"

definition overwritten :: "bytes \<Rightarrow> AssembledSet \<Rightarrow> bool" where
  "overwritten bitmap set' \<longleftrightarrow> \<not> as_inUse set' \<and> known bitmap \<and> isAllocated bitmap (as_firstCluster set')"

definition locate :: "ClusterChain \<Rightarrow> bytes \<Rightarrow> AssembledSet \<Rightarrow> Extent list" where
  "locate chain bitmap set' =
     (if as_sizeInBytes set' = 0 \<or> \<not> isDataCluster chain (as_firstCluster set') then []
      else if overwritten bitmap set' then []
      else if as_contiguous set' then extentsAssumingContiguous chain (as_firstCluster set') (as_sizeInBytes set')
      else extentsFollowingChain chain (as_firstCluster set') (as_sizeInBytes set'))"

definition gradeOf :: "AssembledSet \<Rightarrow> Extent list \<Rightarrow> Confidence" where
  "gradeOf set' extents =
     (let located = extents \<noteq> [] \<or> as_sizeInBytes set' = 0
      in if as_inUse set' \<and> dn_lossless (as_name set') \<and> located then kValid else kUncertain)"

definition setText :: "AssembledSet \<Rightarrow> string" where
  "setText set' = map char_of_byte (dn_utf8 (as_name set'))"

definition entryOf :: "string \<Rightarrow> AssembledSet \<Rightarrow> ClusterChain \<Rightarrow> bytes \<Rightarrow> RecoveredEntry" where
  "entryOf parentPath set' chain bitmap =
     (let extents = locate chain bitmap set'
      in \<lparr>re_path = joinedPath parentPath (setText set'), re_sizeInBytes = as_sizeInBytes set', re_extents = extents,
          re_residentContent = [], re_timestamps = as_timestamps set',
          re_state = (if as_inUse set' then kLive else kDeleted), re_recoverability = gradeOf set' extents\<rparr>)"

subsection \<open>The walk\<close>

definition kMaxDirectoryDepth :: nat where "kMaxDirectoryDepth = 64"
definition kMaxDirectoryBytes :: size_t where "kMaxDirectoryBytes = 4194304"

record Cursor =
  cu_path :: string
  cu_cluster :: u32
  cu_depth :: nat

record Walk =
  wk_visited :: "u32 list"
  wk_scanned :: u64
  wk_entries :: "RecoveredEntry list"

definition endsDirectory :: "bytes \<Rightarrow> bool" where
  "endsDirectory slot = (case classifyExfatEntry slot of Inl _ \<Rightarrow> False | Inr header \<Rightarrow> eh_kind header = kEndOfDirectory)"

definition upToEnd :: "bytes \<Rightarrow> bytes" where
  "upToEnd raw =
     (case List.find (\<lambda>at. endsDirectory (take kDirectoryEntryBytes (drop at raw)))
             (map (\<lambda>i. i * kDirectoryEntryBytes) [0..<length raw div kDirectoryEntryBytes]) of
        Some at \<Rightarrow> take at raw
      | None \<Rightarrow> raw)"

definition readDirectory :: "ClusterChain \<Rightarrow> u32 \<Rightarrow> bytes result" where
  "readDirectory chain cluster =
     andThen (chainFrom chain cluster) (\<lambda>clusters. readDirectoryBytes chain clusters kMaxDirectoryBytes)"

definition loadBitmap :: "ClusterChain \<Rightarrow> u32 \<Rightarrow> bytes" where
  "loadBitmap chain root = (case readDirectory chain root of Inl _ \<Rightarrow> [] | Inr raw \<Rightarrow> readAllocationBitmap chain raw)"

definition enqueue :: "ClusterChain \<Rightarrow> Cursor \<Rightarrow> AssembledSet \<Rightarrow> Cursor list \<times> Walk \<Rightarrow> Cursor list \<times> Walk" where
  "enqueue chain cursor set' = (\<lambda>(pending, walk).
     let walkable = cu_depth cursor < kMaxDirectoryDepth \<and> isDataCluster chain (as_firstCluster set') \<and>
                    as_firstCluster set' \<notin> set (wk_visited walk)
     in if \<not> walkable then (pending, walk)
        else (pending @ [\<lparr>cu_path = joinedPath (cu_path cursor) (setText set'), cu_cluster = as_firstCluster set', cu_depth = cu_depth cursor + 1\<rparr>],
              walk\<lparr>wk_visited := wk_visited walk @ [as_firstCluster set']\<rparr>))"

definition finish ::
    "ClusterChain \<Rightarrow> bytes \<Rightarrow> Cursor \<Rightarrow> PendingSet \<times> Cursor list \<times> Walk \<Rightarrow> u64 \<times> PendingSet \<times> Cursor list \<times> Walk" where
  "finish chain bitmap cursor = (\<lambda>(set', pending, walk).
     case takeSet set' of
       (None, left) \<Rightarrow> (0, left, pending, walk)
     | (Some assembled, left) \<Rightarrow>
         if as_isDirectory assembled then (0, left, enqueue chain cursor assembled (pending, walk))
         else (1, left, pending, walk\<lparr>wk_entries := wk_entries walk @ [entryOf (cu_path cursor) assembled chain bitmap]\<rparr>))"

definition startSet ::
    "ClusterChain \<Rightarrow> bytes \<Rightarrow> Cursor \<Rightarrow> bool \<Rightarrow> bytes \<Rightarrow> PendingSet \<times> Cursor list \<times> Walk \<Rightarrow> u64 \<times> PendingSet \<times> Cursor list \<times> Walk" where
  "startSet chain bitmap cursor inUse slot state =
     (case finish chain bitmap cursor state of (n, left, rest) \<Rightarrow> (n, beginSet left inUse slot, rest))"

definition visitSlot ::
    "ClusterChain \<Rightarrow> bytes \<Rightarrow> Cursor \<Rightarrow> bytes \<Rightarrow> PendingSet \<times> Cursor list \<times> Walk \<Rightarrow> u64 \<times> PendingSet \<times> Cursor list \<times> Walk" where
  "visitSlot chain bitmap cursor slot = (\<lambda>(set', pending, walk).
     let walk' = walk\<lparr>wk_scanned := wrap64 (wk_scanned walk + 1)\<rparr>
     in case classifyExfatEntry slot of
          Inl _ \<Rightarrow> (0, set', pending, walk')
        | Inr header \<Rightarrow>
            if eh_kind header = kFile then startSet chain bitmap cursor (eh_inUse header) slot (set', pending, walk')
            else (0, absorb set' (eh_kind header) slot, pending, walk'))"

definition walkSlots :: "ClusterChain \<Rightarrow> bytes \<Rightarrow> Cursor \<Rightarrow> bytes \<Rightarrow> Cursor list \<times> Walk \<Rightarrow> u64 \<times> Cursor list \<times> Walk" where
  "walkSlots chain bitmap cursor raw = (\<lambda>(pending, walk).
     case foldSlots (upToEnd raw) kDirectoryEntryBytes (visitSlot chain bitmap cursor) (noSet, pending, walk) of
       (n, state) \<Rightarrow> (case finish chain bitmap cursor state of (m, left, rest) \<Rightarrow> (wrap64 (n + m), rest)))"

definition walkOne :: "ClusterChain \<Rightarrow> bytes \<Rightarrow> Cursor \<Rightarrow> Cursor list \<times> Walk \<Rightarrow> u64 result \<times> Cursor list \<times> Walk" where
  "walkOne chain bitmap cursor state =
     walkOneDirectory (readDirectory chain (cu_cluster cursor)) (walkSlots chain bitmap cursor) state"

definition walkVolume :: "ClusterChain \<Rightarrow> u32 \<Rightarrow> (RecoveredEntry list \<times> EnumerationStats result) option" where
  "walkVolume chain root =
     (case driveWorklist (walkOne chain (loadBitmap chain root)) [\<lparr>cu_path = [], cu_cluster = root, cu_depth = 0\<rparr>]
             \<lparr>wk_visited = [root], wk_scanned = 0, wk_entries = []\<rparr> of
        None \<Rightarrow> None
      | Some (cnt, walk) \<Rightarrow>
          Some (wk_entries walk,
            mapResult cnt (\<lambda>n. \<lparr>es_recordsScanned = wk_scanned walk, es_entriesReported = n, es_nonConformingVolume = False\<rparr>)))"

subsection \<open>Mounting\<close>

definition chainGeometryOf :: "ExfatGeometry \<Rightarrow> ClusterGeometry" where
  "chainGeometryOf geometry =
     \<lparr>cg_bytesPerCluster = xg_bytesPerCluster geometry, cg_tableOffsetBytes = xg_fatOffsetBytes geometry,
      cg_tableSizeBytes = xg_fatSizeBytes geometry, cg_dataOffsetBytes = xg_clusterHeapOffsetBytes geometry,
      cg_totalClusters = xg_totalClusters geometry\<rparr>"

definition recognize :: "bytes \<Rightarrow> ExfatGeometry result" where
  "recognize sector =
     (if \<not> hasValue (namesExfat sector) then Inl (mkError kNotFound 0) else parseExfatBootSector sector)"

definition exfatFileSystem :: "BlockDevice \<Rightarrow> ExfatGeometry \<Rightarrow> FileSystem" where
  "exfatFileSystem device geometry =
     \<lparr>fy_enumerate = the (walkVolume \<lparr>cc_device = device, cc_geometry = chainGeometryOf geometry\<rparr> (xg_rootCluster geometry))\<rparr>"

definition mountExfat :: mount where
  "mountExfat device =
     mapResult (andThen (readMountRegion device \<lparr>mr_offset = 0, mr_length = kBootSectorBytes\<rparr>) recognize)
       (exfatFileSystem device)"

subsection \<open>Which boot sectors are accepted\<close>

declare readLe_in_range [simp del]

lemma countrZero_power: "countrZero (2 ^ n) = n"
  by (induction n) (simp_all add: countrZero.simps [of "Suc 0"] countrZero.simps [of "2 * 2 ^ _"])

definition region_of :: "bytes \<Rightarrow> BootRegion" where
  "region_of r =
     \<lparr>br_bytesPerSector = 2 ^ unat (r ! 0x6C), br_sectorsPerCluster = 2 ^ unat (r ! 0x6D), br_fatCount = unat (r ! 0x6E),
      br_volumeSectors = le_at 8 r 0x48, br_fatSector = le_at 4 r 0x50, br_fatSectors = le_at 4 r 0x54,
      br_clusterHeapSector = le_at 4 r 0x58, br_clusterCount = le_at 4 r 0x5C, br_rootCluster = le_at 4 r 0x60\<rparr>"

definition shifts_valid :: "bytes \<Rightarrow> bool" where
  "shifts_valid r \<longleftrightarrow> 9 \<le> unat (r ! 0x6C) \<and> unat (r ! 0x6C) \<le> 12 \<and> unat (r ! 0x6D) + unat (r ! 0x6C) \<le> 25 \<and>
     (unat (r ! 0x6E) = 1 \<or> unat (r ! 0x6E) = 2)"

definition region_fits :: "BootRegion \<Rightarrow> bool" where
  "region_fits b \<longleftrightarrow> br_clusterHeapSector b < br_volumeSectors b \<and> br_clusterCount b \<noteq> 0 \<and>
     2 \<le> br_rootCluster b \<and> br_rootCluster b < br_clusterCount b + 2"

definition exfat_geometry :: "BootRegion \<Rightarrow> ExfatGeometry" where
  "exfat_geometry b =
     \<lparr>xg_bytesPerSector = br_bytesPerSector b, xg_bytesPerCluster = br_bytesPerSector b * br_sectorsPerCluster b,
      xg_fatCount = br_fatCount b, xg_fatOffsetBytes = br_fatSector b * br_bytesPerSector b,
      xg_fatSizeBytes = br_fatSectors b * br_bytesPerSector b, xg_clusterHeapOffsetBytes = br_clusterHeapSector b * br_bytesPerSector b,
      xg_totalClusters = br_clusterCount b, xg_rootCluster = br_rootCluster b\<rparr>"

definition exfat_boot_valid :: "bytes \<Rightarrow> bool" where
  "exfat_boot_valid sector \<longleftrightarrow>
     512 \<le> length sector \<and> take 8 (drop 0x03 sector) = kFileSystemName \<and> take 53 (drop 0x0B sector) = replicate 53 0 \<and>
     sector ! 0x1FE = 0x55 \<and> sector ! 0x1FF = 0xAA \<and> shifts_valid sector \<and> region_fits (region_of sector)"

lemma shiftAt_Inr: "off < length r \<Longrightarrow> shiftAt r off = Inr v \<longleftrightarrow> v = unat (r ! off)"
  by (auto simp: shiftAt_def mapResult_Inr_iff bytesAt_Inr_iff hd_drop_conv_nth)

lemma exfat_fields_Inr:
  assumes "512 \<le> length r"
  shows "sectorBytesOf r = Inr v \<longleftrightarrow> 9 \<le> unat (r ! 0x6C) \<and> unat (r ! 0x6C) \<le> 12 \<and> v = 2 ^ unat (r ! 0x6C)"
    and "clusterSectorsOf r (2 ^ n) = Inr v \<longleftrightarrow> unat (r ! 0x6D) + n \<le> 25 \<and> v = 2 ^ unat (r ! 0x6D)"
    and "fatCount r = Inr v \<longleftrightarrow> v = unat (r ! 0x6E) \<and> (v = 1 \<or> v = 2)"
    and "namesExfat r = Inr b \<longleftrightarrow> b \<and> take 8 (drop 0x03 r) = kFileSystemName \<and> take 53 (drop 0x0B r) = replicate 53 0"
proof -
  show "sectorBytesOf r = Inr v \<longleftrightarrow> 9 \<le> unat (r ! 0x6C) \<and> unat (r ! 0x6C) \<le> 12 \<and> v = 2 ^ unat (r ! 0x6C)"
    using assms by (auto simp: sectorBytesOf_def andThen_Inr_iff shiftAt_Inr kSectorShiftOffset_def kMinSectorShift_def kMaxSectorShift_def push_bit_eq_mult)
  show "clusterSectorsOf r (2 ^ n) = Inr v \<longleftrightarrow> unat (r ! 0x6D) + n \<le> 25 \<and> v = 2 ^ unat (r ! 0x6D)"
    using assms by (auto simp: clusterSectorsOf_def andThen_Inr_iff shiftAt_Inr countrZero_power kClusterShiftOffset_def kMaxClusterShiftSum_def push_bit_eq_mult)
  show "fatCount r = Inr v \<longleftrightarrow> v = unat (r ! 0x6E) \<and> (v = 1 \<or> v = 2)"
    using assms by (auto simp: fatCount_def kFatCountOffset_def hd_drop_conv_nth Let_def)
  have "\<not> list_ex (\<lambda>x. x \<noteq> 0) (take 53 (drop 0x0B r)) \<longleftrightarrow> take 53 (drop 0x0B r) = replicate 53 0"
  proof -
    have "length (take 53 (drop 0x0B r)) = 53" using assms by simp
    then show ?thesis using replicate_length_same [of "take 53 (drop 0x0B r)" 0] unfolding list_ex_iff by (metis in_set_replicate)
  qed
  moreover have "length kFileSystemName = 8" by (simp add: kFileSystemName_def)
  ultimately show "namesExfat r = Inr b \<longleftrightarrow> b \<and> take 8 (drop 0x03 r) = kFileSystemName \<and> take 53 (drop 0x0B r) = replicate 53 0"
    using assms by (auto simp: namesExfat_def nameMatches_def mustBeZeroIsZero_def kFileSystemNameOffset_def kMustBeZeroOffset_def kMustBeZeroBytes_def)
qed

lemma signatureIsValid_same: "signatureIsValid r = bootSignatureIsValid r"
  unfolding signatureIsValid_def bootSignatureIsValid_def kSignatureOffset_def kBootSignatureOffset_def ..

lemma readBootRegion_Inr:
  assumes "512 \<le> length r"
  shows "readBootRegion r = Inr b \<longleftrightarrow> shifts_valid r \<and> b = region_of r"
proof -
  have "readLe 4 r 0x50 = Inr (le_at 4 r 0x50)" "readLe 4 r 0x54 = Inr (le_at 4 r 0x54)" "readLe 4 r 0x58 = Inr (le_at 4 r 0x58)"
    "readLe 4 r 0x5C = Inr (le_at 4 r 0x5C)" "readLe 8 r 0x48 = Inr (le_at 8 r 0x48)" "readLe 4 r 0x60 = Inr (le_at 4 r 0x60)"
    using assms by (simp_all add: readLe_le_at)
  note reads = this
  have size: "withClusterSize r b0 = Inr b1 \<longleftrightarrow> 9 \<le> unat (r ! 0x6C) \<and> unat (r ! 0x6C) \<le> 12 \<and> unat (r ! 0x6D) + unat (r ! 0x6C) \<le> 25 \<and>
      b1 = b0\<lparr>br_bytesPerSector := 2 ^ unat (r ! 0x6C), br_sectorsPerCluster := 2 ^ unat (r ! 0x6D)\<rparr>" for b0 b1
    unfolding withClusterSize_def andThen_Inr_iff mapResult_Inr_iff exfat_fields_Inr [OF assms] by (auto simp: exfat_fields_Inr(2) [OF assms])
  show ?thesis
    unfolding readBootRegion_def andThen_Inr_iff mapResult_Inr_iff size withFatPlacement_def withHeap_def withVolume_def withFatCount_def withPair_def
      fst_conv snd_conv kFatOffsetOffset_def kFatLengthOffset_def kClusterHeapOffsetOffset_def kClusterCountOffset_def kVolumeLengthOffset_def
      kRootClusterOffset_def reads exfat_fields_Inr(3) [OF assms]
    by (auto simp: shifts_valid_def region_of_def emptyRegion_def)
qed

lemma region_bounds:
  assumes "shifts_valid r"
  shows "512 \<le> br_bytesPerSector (region_of r)" "br_bytesPerSector (region_of r) \<le> 4096"
    "br_bytesPerSector (region_of r) * br_sectorsPerCluster (region_of r) \<le> 2 ^ 25" "0 < br_sectorsPerCluster (region_of r)"
    "br_sectorsPerCluster (region_of r) \<le> 2 ^ 25"
    "br_fatSector (region_of r) < 2 ^ 32" "br_fatSectors (region_of r) < 2 ^ 32" "br_clusterHeapSector (region_of r) < 2 ^ 32"
    "br_clusterCount (region_of r) < 2 ^ 32" "br_rootCluster (region_of r) < 2 ^ 32"
proof -
  let ?ss = "unat (r ! 0x6C)" and ?cs = "unat (r ! 0x6D)"
  have s: "9 \<le> ?ss" "?ss \<le> 12" "?ss + ?cs \<le> 25" "?cs \<le> 25" using assms by (simp_all add: shifts_valid_def)
  have "2 ^ 9 \<le> (2 :: nat) ^ ?ss" "(2 :: nat) ^ ?ss \<le> 2 ^ 12" "(2 :: nat) ^ (?ss + ?cs) \<le> 2 ^ 25" "(2 :: nat) ^ ?cs \<le> 2 ^ 25"
    using s by (intro power_increasing; simp)+
  then show "512 \<le> br_bytesPerSector (region_of r)" "br_bytesPerSector (region_of r) \<le> 4096"
    "br_bytesPerSector (region_of r) * br_sectorsPerCluster (region_of r) \<le> 2 ^ 25" "0 < br_sectorsPerCluster (region_of r)"
    "br_sectorsPerCluster (region_of r) \<le> 2 ^ 25"
    by (simp_all add: region_of_def power_add)
  show "br_fatSector (region_of r) < 2 ^ 32" "br_fatSectors (region_of r) < 2 ^ 32" "br_clusterHeapSector (region_of r) < 2 ^ 32"
    "br_clusterCount (region_of r) < 2 ^ 32" "br_rootCluster (region_of r) < 2 ^ 32"
    using le_at_less [of 4 r] by (simp_all add: region_of_def)
qed

lemma geometryOf_Inr:
  assumes "shifts_valid r"
  shows "geometryOf (region_of r) = Inr g \<longleftrightarrow> region_fits (region_of r) \<and> g = exfat_geometry (region_of r)"
proof -
  let ?b = "region_of r"
  note small = region_bounds [OF assms]
  have fit: "n * br_bytesPerSector ?b \<le> max64" if "n < 2 ^ 32" for n
  proof -
    have "n * br_bytesPerSector ?b \<le> 2 ^ 32 * 4096" using that small(2) by (intro mult_le_mono) simp_all
    then show ?thesis by (simp add: max64_def)
  qed
  have mul: "safeMul32 (br_bytesPerSector ?b) (br_sectorsPerCluster ?b) kClusterShiftOffset = Inr (br_bytesPerSector ?b * br_sectorsPerCluster ?b)"
    using safeMul32_exact [of "br_bytesPerSector ?b" "br_sectorsPerCluster ?b"] small by (simp add: max32_def)
  have geo: "geometryAt ?b root = Inr (assemble ?b \<lparr>bl_fatOffset = br_fatSector ?b * br_bytesPerSector ?b,
      bl_fatSize = br_fatSectors ?b * br_bytesPerSector ?b, bl_heapOffset = br_clusterHeapSector ?b * br_bytesPerSector ?b\<rparr>
      (br_bytesPerSector ?b * br_sectorsPerCluster ?b) root)" for root
    using small fit by (simp add: geometryAt_def byteLayout_def layoutAfterFat_def safeMul64_exact mul mapResult_def)
  have wrap: "wrap64 (br_clusterCount ?b + kFirstDataCluster) = br_clusterCount ?b + 2"
    using small by (simp add: kFirstDataCluster_def max64_def)
  have root: "checkedRoot ?b = Inr n \<longleftrightarrow> 2 \<le> br_rootCluster ?b \<and> br_rootCluster ?b < br_clusterCount ?b + 2 \<and> n = br_rootCluster ?b" for n
    unfolding checkedRoot_def Let_def wrap by (auto simp: kFirstDataCluster_def)
  have heap: "heapFits ?b = Inr ok \<longleftrightarrow> ok \<and> br_clusterHeapSector ?b < br_volumeSectors ?b \<and> br_clusterCount ?b \<noteq> 0" for ok
    by (auto simp: heapFits_def)
  show ?thesis
    unfolding geometryOf_def andThen_Inr_iff root heap geo by (auto simp: region_fits_def assemble_def exfat_geometry_def)
qed

lemma exfat_take:
  "512 \<le> length sector \<Longrightarrow> region_of (take 512 sector) = region_of sector \<and> exfat_boot_valid (take 512 sector) = exfat_boot_valid sector"
  by (simp add: region_of_def exfat_boot_valid_def shifts_valid_def le_at_take drop_take)

lemma parseExfatBootSector_Inr:
  "parseExfatBootSector sector = Inr g \<longleftrightarrow> exfat_boot_valid sector \<and> g = exfat_geometry (region_of sector)"
proof (cases "512 \<le> length sector")
  case True
  define r where "r = take 512 sector"
  have r: "length r = 512" "512 \<le> length r" using True by (simp_all add: r_def)
  have parse: "parseExfatBootSector sector =
      andThen (andThen (andThen (namesExfat r) (\<lambda>_. signatureIsValid r)) (\<lambda>_. readBootRegion r)) geometryOf"
    using True by (simp add: parseExfatBootSector_def kBootSectorBytes_def r_def Let_def)
  have "parseExfatBootSector sector = Inr g \<longleftrightarrow> exfat_boot_valid r \<and> g = exfat_geometry (region_of r)"
    unfolding parse andThen_Inr_iff exfat_fields_Inr [OF r(2)] signatureIsValid_same bootSignatureIsValid_Inr [OF r(1)] readBootRegion_Inr [OF r(2)]
    using r(2) geometryOf_Inr [of r g] by (auto simp: exfat_boot_valid_def)
  then show ?thesis using exfat_take [OF True] by (simp add: r_def)
qed (simp add: parseExfatBootSector_def kBootSectorBytes_def exfat_boot_valid_def)

text \<open>
  The exFAT boot sector parser accepts exactly the boot sectors that satisfy every rule: the name,
  the zeroed FAT fields, the signature, a sector shift of 9 to 12, a cluster of at most 32 MiB, one or two
  allocation tables, a cluster heap that begins inside the volume and is not empty, and a root cluster inside it. The geometry
  is the one the fields state: no combination of field values overflows and no shift is out of range.
\<close>

theorem exfat_boot_sector_is_accepted_exactly_when_valid:
  "parseExfatBootSector sector = Inr g \<longleftrightarrow> exfat_boot_valid sector \<and> g = exfat_geometry (region_of sector)"
  by (rule parseExfatBootSector_Inr)

subsection \<open>The walk ends and reports exact entries\<close>

definition walk_ok :: "nat \<Rightarrow> ClusterChain \<Rightarrow> u32 \<Rightarrow> Walk \<Rightarrow> bool" where
  "walk_ok volume table root walk \<longleftrightarrow> visited_ok table root (wk_visited walk) \<and> list_all (entry_exact volume) (wk_entries walk)"

definition set_ok :: "PendingSet \<Rightarrow> bool" where
  "set_ok set' \<longleftrightarrow> st_firstCluster (ps_stream set') \<le> max32 \<and> st_dataLength (ps_stream set') \<le> max64"

lemma set_ok_steps:
  "set_ok noSet" "set_ok set' \<Longrightarrow> set_ok (beginSet set' inUse slot)" "set_ok set' \<Longrightarrow> set_ok (absorb set' kind slot)"
proof -
  have "slotFieldAt 4 r 0x14 \<le> max32" "slotFieldAt 8 r 0x18 \<le> max64" for r
    using slotFieldAt_less [of 4 r 20] slotFieldAt_less [of 8 r 24] by (simp_all add: max32_def max64_def)
  then have stream: "set_ok (takeStream set' slot)" for set'
    by (simp add: set_ok_def takeStream_def parseStreamExtension_def emptyStream_def Let_def mapResult_def split: sum.splits)
  show "set_ok noSet" by (simp add: set_ok_def noSet_def emptyStream_def)
  show "set_ok set' \<Longrightarrow> set_ok (beginSet set' inUse slot)" by (simp add: set_ok_def beginSet_def Let_def)
  show "set_ok set' \<Longrightarrow> set_ok (absorb set' kind slot)"
    using stream [of set'] by (auto simp: absorb_def appendName_def set_ok_def Let_def split: sum.splits)
qed

lemma entryOf_exact:
  assumes "sound_volume content chain" and "as_firstCluster set' \<le> max32" and "as_sizeInBytes set' \<le> max64"
  shows "entry_exact (length content) (entryOf path set' chain bitmap)"
proof -
  have "list_all (\<lambda>x. 0 < lengthBytes x \<and> deviceOffset x + lengthBytes x \<le> length content) (locate chain bitmap set') \<and>
      (locate chain bitmap set' = [] \<or> span_length (locate chain bitmap set') = as_sizeInBytes set')"
    using located_extents [of content chain "as_firstCluster set'" "as_sizeInBytes set'"] assms by (auto simp: locate_def sound_volume_def)
  then show ?thesis by (auto simp: entryOf_def entry_exact_def Let_def gradeOf_def)
qed

lemma exfat_enqueue_ok:
  assumes "walk_ok volume table root walk" and "enqueue table cursor set' (pending, walk) = (pending', walk')"
  shows "walk_ok volume table root walk' \<and> tree_cost table (wk_visited walk') pending' \<le> tree_cost table (wk_visited walk) pending \<and>
    wk_entries walk' = wk_entries walk"
proof (cases "cu_depth cursor < kMaxDirectoryDepth \<and> isDataCluster table (as_firstCluster set') \<and> as_firstCluster set' \<notin> set (wk_visited walk)")
  case True
  then have "visited_ok table root (wk_visited walk @ [as_firstCluster set'])"
    using assms(1) visited_ok_snoc by (auto simp: walk_ok_def)
  then show ?thesis
    using True assms tree_cost_push by (auto simp: enqueue_def walk_ok_def)
next
  case False
  then show ?thesis using assms by (auto simp: enqueue_def Let_def split: if_splits)
qed

definition advances :: "bytes \<Rightarrow> ClusterChain \<Rightarrow> u32 \<Rightarrow> Cursor list \<times> Walk \<Rightarrow> u64 \<Rightarrow> PendingSet \<times> Cursor list \<times> Walk \<Rightarrow> bool" where
  "advances content table root = (\<lambda>(pending, walk) cnt (set', pending', walk').
     set_ok set' \<and> walk_ok (length content) table root walk' \<and>
     tree_cost table (wk_visited walk') pending' \<le> tree_cost table (wk_visited walk) pending \<and>
     wrap64 (length (wk_entries walk')) = wrap64 (length (wk_entries walk) + cnt))"

lemma finish_advances:
  assumes "sound_volume content table" and "advances content table root start cnt state"
    and "finish table bitmap cursor state = (n, state')"
  shows "advances content table root start (wrap64 (cnt + n)) state'"
proof -
  obtain set0 pending walk where state: "state = (set0, pending, walk)" by (metis prod_cases3)
  obtain pending0 walk0 where start: "start = (pending0, walk0)" by (cases start)
  have inv: "set_ok set0" "walk_ok (length content) table root walk"
      "tree_cost table (wk_visited walk) pending \<le> tree_cost table (wk_visited walk0) pending0"
      "wrap64 (length (wk_entries walk)) = wrap64 (length (wk_entries walk0) + cnt)"
    using assms(2) by (simp_all add: advances_def state start)
  have left: "set_ok (set0\<lparr>ps_active := False\<rparr>)" using inv(1) by (simp add: set_ok_def)
  note count = wrap64_count [OF inv(4)]
  show ?thesis
  proof (cases "takeSet set0")
    case (Pair taken rest)
    then have rest: "rest = set0\<lparr>ps_active := False\<rparr>" by (auto simp: takeSet_def split: if_splits)
    show ?thesis
    proof (cases taken)
      case None
      then show ?thesis using assms(3) Pair inv left count [of 0] rest by (auto simp: finish_def state start advances_def)
    next
      case (Some found)
      have bounds: "as_firstCluster found \<le> max32" "as_sizeInBytes found \<le> max64"
        using Some Pair inv(1) by (auto simp: takeSet_def set_ok_def split: if_splits)
      show ?thesis
      proof (cases "as_isDirectory found")
        case True
        obtain pending' walk' where enq: "enqueue table cursor found (pending, walk) = (pending', walk')" by (cases "enqueue table cursor found (pending, walk)")
        from exfat_enqueue_ok [OF inv(2) enq] show ?thesis
          using True Some Pair assms(3) inv left rest enq count [of 0] by (auto simp: finish_def state start advances_def)
      next
        case False
        then show ?thesis
          using Some Pair assms(3) inv left rest count [of 1] entryOf_exact [OF assms(1) bounds]
          by (auto simp: finish_def state start advances_def walk_ok_def)
      qed
    qed
  qed
qed

lemma visitSlot_advances:
  assumes "sound_volume content table" and "advances content table root start cnt state"
    and "visitSlot table bitmap cursor slot state = (n, state')"
  shows "advances content table root start (wrap64 (cnt + n)) state'"
proof -
  obtain set0 pending walk where state: "state = (set0, pending, walk)" by (metis prod_cases3)
  obtain pending0 walk0 where start: "start = (pending0, walk0)" by (cases start)
  let ?walk = "walk\<lparr>wk_scanned := wrap64 (wk_scanned walk + 1)\<rparr>"
  have scanned: "advances content table root start cnt (set0, pending, ?walk)"
    using assms(2) by (simp add: advances_def state start walk_ok_def)
  have same: "advances content table root start (wrap64 cnt) (set1, pending, ?walk)" if "set_ok set1" for set1
    using scanned that wrap64_count [of "length (wk_entries walk)" "length (wk_entries walk0)" cnt 0] by (simp add: advances_def start)
  have ok: "set_ok set0" using assms(2) by (simp add: advances_def state start)
  show ?thesis
  proof (cases "classifyExfatEntry slot")
    case (Inl e)
    then show ?thesis using assms(3) same [OF ok] by (simp add: visitSlot_def state)
  next
    case (Inr header)
    show ?thesis
    proof (cases "eh_kind header = kFile")
      case True
      then have "startSet table bitmap cursor (eh_inUse header) slot (set0, pending, ?walk) = (n, state')"
        using assms(3) Inr by (simp add: visitSlot_def state Let_def)
      then obtain left rest where "finish table bitmap cursor (set0, pending, ?walk) = (n, left, rest)" "state' = (beginSet left (eh_inUse header) slot, rest)"
        by (auto simp: startSet_def split: prod.splits)
      then show ?thesis using finish_advances [OF assms(1) scanned] set_ok_steps(2)
        by (auto simp: advances_def start split: prod.splits)
    next
      case False
      then show ?thesis using assms(3) Inr same [OF set_ok_steps(3) [OF ok]] by (auto simp: visitSlot_def state Let_def)
    qed
  qed
qed

lemma exfat_slots_ok:
  assumes "sound_volume content table" and "walk_ok (length content) table root walk"
    and "walkSlots table bitmap cursor raw (pending, walk) = (n, pending', walk')"
  shows "walk_ok (length content) table root walk' \<and> tree_cost table (wk_visited walk') pending' \<le> tree_cost table (wk_visited walk) pending \<and>
    wrap64 (length (wk_entries walk')) = wrap64 (length (wk_entries walk) + n)"
proof -
  have "case foldSlots (upToEnd raw) kDirectoryEntryBytes (visitSlot table bitmap cursor) (noSet, pending, walk) of
      (cnt, s) \<Rightarrow> advances content table root (pending, walk) cnt s"
  proof (rule foldSlots_preserves)
    show "advances content table root (pending, walk) 0 (noSet, pending, walk)" using assms(2) set_ok_steps(1) by (simp add: advances_def)
  qed (rule visitSlot_advances [OF assms(1)])
  moreover obtain cnt state where slots: "foldSlots (upToEnd raw) kDirectoryEntryBytes (visitSlot table bitmap cursor) (noSet, pending, walk) = (cnt, state)"
    by (metis surj_pair)
  ultimately have adv: "advances content table root (pending, walk) cnt state" by simp
  obtain m left rest where finished: "finish table bitmap cursor state = (m, left, rest)" by (metis prod_cases3)
  then have "n = wrap64 (cnt + m)" "rest = (pending', walk')" using assms(3) slots by (simp_all add: walkSlots_def)
  then show ?thesis using finish_advances [OF assms(1) adv finished] by (simp add: advances_def)
qed

interpretation exfat_walk: worklist "walkOne table bitmap"
  "\<lambda>pending walk cnt. sound_volume content table \<and> walk_ok (length content) table root walk \<and> cnt = wrap64 (length (wk_entries walk))"
  "\<lambda>e walk. err_code e = kIoFailure \<and> list_all (entry_exact (length content)) (wk_entries walk)"
  "\<lambda>pending walk. tree_cost table (wk_visited walk) pending"
  for table bitmap content root
proof
  fix pending :: "Cursor list" and walk cnt found pending' walk'
  assume inv: "sound_volume content table \<and> walk_ok (length content) table root walk \<and> cnt = wrap64 (length (wk_entries walk))"
    and more: "pending \<noteq> []" and walked: "walkOne table bitmap (last pending) (butlast pending, walk) = (found, pending', walk')"
  note cheaper = tree_cost_pop [OF more, of table "wk_visited walk"]
  show "case found of Inl e \<Rightarrow> err_code e = kIoFailure \<and> list_all (entry_exact (length content)) (wk_entries walk')
      | Inr n \<Rightarrow> (sound_volume content table \<and> walk_ok (length content) table root walk' \<and> wrap64 (cnt + n) = wrap64 (length (wk_entries walk'))) \<and>
          tree_cost table (wk_visited walk') pending' < tree_cost table (wk_visited walk) pending"
  proof (cases "readDirectory table (cu_cluster (last pending))")
    case (Inl e)
    then show ?thesis using inv walked cheaper
      by (auto simp: walkOne_def walkOneDirectory_def skipUnreadableDirectory_def walk_ok_def wrap64_id [OF wrap64_less])
  next
    case (Inr raw)
    then obtain n where found: "found = Inr n" and slots: "walkSlots table bitmap (last pending) raw (butlast pending, walk) = (n, pending', walk')"
      using walked by (auto simp: walkOne_def walkOneDirectory_def split: prod.splits)
    from exfat_slots_ok [OF _ _ slots, of content root] inv cheaper show ?thesis
      by (auto simp: found wrap64_add)
  qed
qed

lemma exfat_walk_ends:
  assumes "sound_volume content table"
  shows "\<exists>entries stats. walkVolume table root = Some (entries, stats) \<and> list_all (entry_exact (length content)) entries \<and>
    (case stats of Inl e \<Rightarrow> err_code e = kIoFailure | Inr totals \<Rightarrow> es_entriesReported totals = wrap64 (length entries))"
proof -
  have "sound_volume content table \<and> walk_ok (length content) table root \<lparr>wk_visited = [root], wk_scanned = 0, wk_entries = []\<rparr> \<and>
      0 = wrap64 (length (wk_entries \<lparr>wk_visited = [root], wk_scanned = 0, wk_entries = []\<rparr>))"
    using assms by (simp add: walk_ok_def visited_ok_def)
  from exfat_walk.drive_ends [OF this, of "loadBitmap table root" "[\<lparr>cu_path = [], cu_cluster = root, cu_depth = 0\<rparr>]"]
  obtain found walk where drive: "driveWorklistFrom (walkOne table (loadBitmap table root)) [\<lparr>cu_path = [], cu_cluster = root, cu_depth = 0\<rparr>]
        \<lparr>wk_visited = [root], wk_scanned = 0, wk_entries = []\<rparr> 0 = Some (found, walk)"
      and after: "case found of Inl e \<Rightarrow> err_code e = kIoFailure \<and> list_all (entry_exact (length content)) (wk_entries walk)
        | Inr n \<Rightarrow> sound_volume content table \<and> walk_ok (length content) table root walk \<and> n = wrap64 (length (wk_entries walk))" by blast
  have "walkVolume table root = Some (wk_entries walk,
      mapResult found (\<lambda>n. \<lparr>es_recordsScanned = wk_scanned walk, es_entriesReported = n, es_nonConformingVolume = False\<rparr>))"
    by (simp add: walkVolume_def driveWorklist_def drive)
  then show ?thesis using after by (cases found) (auto simp: mapResult_def walk_ok_def)
qed

definition heap_end :: "BootRegion \<Rightarrow> nat" where
  "heap_end b = br_clusterHeapSector b * br_bytesPerSector b + br_clusterCount b * (br_bytesPerSector b * br_sectorsPerCluster b)"

lemma exfat_geometry_sound:
  assumes "exfat_boot_valid sector" and "table = \<lparr>cc_device = device, cc_geometry = chainGeometryOf (exfat_geometry (region_of sector))\<rparr>"
  shows "sound_volume (replicate (heap_end (region_of sector)) 0) table" and "heap_end (region_of sector) \<le> max64"
proof -
  let ?b = "region_of sector"
  have shifts: "shifts_valid sector" using assms(1) by (simp add: exfat_boot_valid_def)
  note small = region_bounds [OF shifts]
  have "br_clusterHeapSector ?b * br_bytesPerSector ?b \<le> 2 ^ 32 * 4096" using small by (intro mult_le_mono) simp_all
  moreover have "br_clusterCount ?b * (br_bytesPerSector ?b * br_sectorsPerCluster ?b) \<le> 2 ^ 32 * 2 ^ 25" using small by (intro mult_le_mono) simp_all
  ultimately show fits: "heap_end ?b \<le> max64" by (simp add: heap_end_def max64_def)
  have "512 * 1 \<le> br_bytesPerSector ?b * br_sectorsPerCluster ?b" using small by (intro mult_le_mono) simp_all
  then show "sound_volume (replicate (heap_end ?b) 0) table"
    using fits small by (simp add: sound_volume_def holds_clusters_def assms(2) chainGeometryOf_def exfat_geometry_def heap_end_def)
qed

lemma mountExfat_Inr:
  assumes "mountExfat device = Inr fs"
  obtains sector where "readMountRegion device \<lparr>mr_offset = 0, mr_length = 512\<rparr> = Inr sector" "exfat_boot_valid sector"
    "fs = exfatFileSystem device (exfat_geometry (region_of sector))"
  using assms
  by (auto simp: mountExfat_def mapResult_Inr_iff andThen_Inr_iff recognize_def kBootSectorBytes_def parseExfatBootSector_Inr split: if_splits)


interpretation exfat: filesystem_driver mountExfat
proof
  fix device fs
  assume "mountExfat device = Inr fs"
  then obtain sector where sector: "exfat_boot_valid sector" and fs: "fs = exfatFileSystem device (exfat_geometry (region_of sector))"
    by (rule mountExfat_Inr)
  note sound = exfat_geometry_sound [OF sector refl]
  from exfat_walk_ends [OF sound(1), of device "xg_rootCluster (exfat_geometry (region_of sector))"]
  show "list_all (entry_exact max64) (fst (fy_enumerate fs))"
    by (auto simp: fs exfatFileSystem_def list_all_iff intro: entry_exact_mono [OF _ sound(2)])
qed

subsection \<open>The heap may end past the volume\<close>

text \<open>
  The boot sector is only required to begin the heap inside the volume: a cluster count
  that no volume of the stated length can hold is accepted.
\<close>

lemma heap_past_the_volume_is_accepted:
  "region_fits \<lparr>br_bytesPerSector = 512, br_sectorsPerCluster = 1, br_fatCount = 1, br_volumeSectors = 64, br_fatSector = 24, br_fatSectors = 8,
     br_clusterHeapSector = 32, br_clusterCount = 1000, br_rootCluster = 4\<rparr> \<and>
   64 * 512 < heap_end \<lparr>br_bytesPerSector = 512, br_sectorsPerCluster = 1, br_fatCount = 1, br_volumeSectors = 64, br_fatSector = 24, br_fatSectors = 8,
     br_clusterHeapSector = 32, br_clusterCount = 1000, br_rootCluster = 4\<rparr>"
  by (simp add: region_fits_def heap_end_def)

end
