(* ===== verification/Ext4Layout.thy ===== *)
theory Ext4Layout
  imports ClusterChains DosTimes
begin

text \<open>
  The fixed structures of an ext4 volume (\<open>src/fs/ext4/\<close>): the superblock and the geometry derived from it
  (\<open>SuperblockFields.cpp\<close>, \<open>SuperblockGeometry.cpp\<close>, \<open>Superblock.cpp\<close>), block reads (\<open>BlockReader.cpp\<close>),
  group descriptors (\<open>GroupDescriptor.cpp\<close>), inodes (\<open>Inode.cpp\<close>) and the table they lie in
  (\<open>InodeTable.cpp\<close>, which keeps nothing but a pointer to the blocks it reads through).
  Products of block numbers and sizes wrap at 64 bits, as the code computes them.
\<close>

subsection \<open>Superblock fields\<close>

definition kInodeCountOffset :: u64 where "kInodeCountOffset = 0x00"
definition kBlockCountOffset :: u64 where "kBlockCountOffset = 0x04"
definition kFirstDataBlockOffset :: u64 where "kFirstDataBlockOffset = 0x14"
definition kBlockShiftOffset :: u64 where "kBlockShiftOffset = 0x18"
definition kBlocksPerGroupOffset :: u64 where "kBlocksPerGroupOffset = 0x20"
definition kInodesPerGroupOffset :: u64 where "kInodesPerGroupOffset = 0x28"
definition kMagicOffset :: u64 where "kMagicOffset = 0x38"
definition kInodeSizeOffset :: u64 where "kInodeSizeOffset = 0x58"
definition kFeatureIncompatOffset :: u64 where "kFeatureIncompatOffset = 0x60"
definition kLastOrphanOffset :: u64 where "kLastOrphanOffset = 0x64"
definition kDescriptorSizeOffset :: u64 where "kDescriptorSizeOffset = 0xFE"
definition kBlockCountHighOffset :: u64 where "kBlockCountHighOffset = 0x150"
definition kIncompatExtents :: u32 where "kIncompatExtents = 0x40"
definition kIncompat64Bit :: u32 where "kIncompat64Bit = 0x80"
definition kMagic :: u16 where "kMagic = 0xEF53"
definition kMinBlockSize :: u32 where "kMinBlockSize = 1024"
definition kMaxBlockShift :: u32 where "kMaxBlockShift = 6"
definition kMinInodeSize :: u32 where "kMinInodeSize = 128"
definition kSmallDescriptorSize :: u32 where "kSmallDescriptorSize = 32"
definition kMinLargeDescriptorSize :: u32 where "kMinLargeDescriptorSize = 64"
definition kBitsPerByte :: u32 where "kBitsPerByte = 8"
definition kSuperblockOffset :: u64 where "kSuperblockOffset = 1024"
definition kSuperblockBytes :: size_t where "kSuperblockBytes = 1024"
definition kRootInode :: u32 where "kRootInode = 2"
definition kJournalInode :: u32 where "kJournalInode = 8"

record SuperblockFields =
  sf_blockSizeBytes :: u32
  sf_totalInodes :: u32
  sf_totalBlocks :: u64
  sf_firstDataBlock :: u32
  sf_blocksPerGroup :: u32
  sf_inodesPerGroup :: u32
  sf_inodeSizeBytes :: u32
  sf_descriptorSizeBytes :: u32
  sf_featureIncompat :: u32
  sf_lastOrphanInode :: u32

record Ext4Geometry =
  eg_blockSizeBytes :: u32
  eg_totalBlocks :: u64
  eg_totalInodes :: u32
  eg_blocksPerGroup :: u32
  eg_inodesPerGroup :: u32
  eg_inodeSizeBytes :: u32
  eg_descriptorSizeBytes :: u32
  eg_firstDataBlock :: u32
  eg_groupDescriptorBlock :: u64
  eg_groupCount :: u32
  eg_lastOrphanInode :: u32
  eg_usesExtents :: bool

definition isBlockSizedPowerOfTwo :: "u32 \<Rightarrow> u32 \<Rightarrow> u32 \<Rightarrow> bool" where
  "isBlockSizedPowerOfTwo val low blockSizeBytes \<longleftrightarrow> isPowerOfTwo val \<and> val \<ge> low \<and> val \<le> blockSizeBytes"

definition rejectAt :: "u64 \<Rightarrow> 'a result" where
  "rejectAt off = Inl (mkError kInvalidArgument off)"

definition blockShift :: "bytes \<Rightarrow> u32 result" where
  "blockShift reader =
     andThen (readLe 4 reader kBlockShiftOffset)
       (\<lambda>shift. if shift > kMaxBlockShift then rejectAt kBlockShiftOffset else Inr shift)"

definition namesExt4 :: "bytes \<Rightarrow> bool result" where
  "namesExt4 reader =
     andThen (readLe 2 reader kMagicOffset)
       (\<lambda>magic. if magic \<noteq> kMagic then Inl (mkError kInvalidArgument kMagicOffset)
                else mapResult (blockShift reader) (\<lambda>_. True))"

definition blockSize :: "bytes \<Rightarrow> u32 result" where
  "blockSize reader = mapResult (blockShift reader) (\<lambda>shift. push_bit shift kMinBlockSize)"

definition firstDataBlock :: "bytes \<Rightarrow> u32 \<Rightarrow> u32 result" where
  "firstDataBlock reader blockSizeBytes =
     (let expected = if blockSizeBytes = kMinBlockSize then 1 else 0
      in andThen (readLe 4 reader kFirstDataBlockOffset)
           (\<lambda>first. if first \<noteq> expected then rejectAt kFirstDataBlockOffset else Inr first))"

definition perGroupCount :: "bytes \<Rightarrow> u64 \<Rightarrow> u32 \<Rightarrow> u32 result" where
  "perGroupCount reader off blockSizeBytes =
     (let cap = wrap32 (blockSizeBytes * kBitsPerByte)
      in andThen (readLe 4 reader off) (\<lambda>cnt. if cnt = 0 \<or> cnt > cap then rejectAt off else Inr cnt))"

definition inodeSize :: "bytes \<Rightarrow> u32 \<Rightarrow> u32 result" where
  "inodeSize reader blockSizeBytes =
     andThen (readLe 2 reader kInodeSizeOffset)
       (\<lambda>sz. if \<not> isBlockSizedPowerOfTwo sz kMinInodeSize blockSizeBytes then rejectAt kInodeSizeOffset else Inr sz)"

definition descriptorSize :: "bytes \<Rightarrow> SuperblockFields \<Rightarrow> u32 result" where
  "descriptorSize reader raw =
     (if and (sf_featureIncompat raw) kIncompat64Bit = 0 then Inr kSmallDescriptorSize
      else andThen (readLe 2 reader kDescriptorSizeOffset)
             (\<lambda>sz. if \<not> isBlockSizedPowerOfTwo sz kMinLargeDescriptorSize (sf_blockSizeBytes raw)
                   then rejectAt kDescriptorSizeOffset else Inr sz))"

definition inodeCount :: "bytes \<Rightarrow> u32 result" where
  "inodeCount reader =
     andThen (readLe 4 reader kInodeCountOffset) (\<lambda>cnt. if cnt = 0 then rejectAt kInodeCountOffset else Inr cnt)"

definition blockCount :: "bytes \<Rightarrow> u32 \<Rightarrow> u64 result" where
  "blockCount reader featureIncompat =
     (let wide = and featureIncompat kIncompat64Bit \<noteq> 0
      in andThen (readLe 4 reader kBlockCountOffset)
           (\<lambda>low. andThen (if wide then readLe 4 reader kBlockCountHighOffset else Inr 0)
              (\<lambda>upper. let total = or (push_bit 32 upper) low
                       in if total = 0 then Inl (mkError kInvalidArgument kBlockCountOffset) else Inr total)))"

subsection \<open>Reading the superblock\<close>

definition withBlockSize :: "bytes \<Rightarrow> SuperblockFields \<Rightarrow> SuperblockFields result" where
  "withBlockSize reader raw = mapResult (blockSize reader) (\<lambda>sz. raw\<lparr>sf_blockSizeBytes := sz\<rparr>)"

definition withFeatures :: "bytes \<Rightarrow> SuperblockFields \<Rightarrow> SuperblockFields result" where
  "withFeatures reader raw =
     andThen (readLe 4 reader kFeatureIncompatOffset)
       (\<lambda>features. mapResult (readLe 4 reader kLastOrphanOffset)
          (\<lambda>orphan. raw\<lparr>sf_featureIncompat := features, sf_lastOrphanInode := orphan\<rparr>))"

definition withLayout :: "bytes \<Rightarrow> SuperblockFields \<Rightarrow> SuperblockFields result" where
  "withLayout reader raw =
     andThen (firstDataBlock reader (sf_blockSizeBytes raw))
       (\<lambda>first. mapResult (perGroupCount reader kBlocksPerGroupOffset (sf_blockSizeBytes raw))
          (\<lambda>blocks. raw\<lparr>sf_firstDataBlock := first, sf_blocksPerGroup := blocks\<rparr>))"

definition withInodesPerGroup :: "bytes \<Rightarrow> SuperblockFields \<Rightarrow> SuperblockFields result" where
  "withInodesPerGroup reader raw =
     mapResult (perGroupCount reader kInodesPerGroupOffset (sf_blockSizeBytes raw))
       (\<lambda>inodes. raw\<lparr>sf_inodesPerGroup := inodes\<rparr>)"

definition withRecordSizes :: "bytes \<Rightarrow> SuperblockFields \<Rightarrow> SuperblockFields result" where
  "withRecordSizes reader raw =
     andThen (inodeSize reader (sf_blockSizeBytes raw))
       (\<lambda>inodeBytes. let sized = raw\<lparr>sf_inodeSizeBytes := inodeBytes\<rparr>
                     in mapResult (descriptorSize reader sized) (\<lambda>descriptorBytes. sized\<lparr>sf_descriptorSizeBytes := descriptorBytes\<rparr>))"

definition withCounts :: "bytes \<Rightarrow> SuperblockFields \<Rightarrow> SuperblockFields result" where
  "withCounts reader raw =
     andThen (inodeCount reader)
       (\<lambda>inodes. mapResult (blockCount reader (sf_featureIncompat raw))
          (\<lambda>blocks. raw\<lparr>sf_totalInodes := inodes, sf_totalBlocks := blocks\<rparr>))"

definition emptyFields :: SuperblockFields where
  "emptyFields = \<lparr>sf_blockSizeBytes = 0, sf_totalInodes = 0, sf_totalBlocks = 0, sf_firstDataBlock = 0, sf_blocksPerGroup = 0,
     sf_inodesPerGroup = 0, sf_inodeSizeBytes = 0, sf_descriptorSizeBytes = 0, sf_featureIncompat = 0, sf_lastOrphanInode = 0\<rparr>"

definition readFields :: "bytes \<Rightarrow> SuperblockFields result" where
  "readFields reader =
     andThen (andThen (andThen (andThen (andThen (withBlockSize reader emptyFields)
       (withFeatures reader)) (withLayout reader)) (withInodesPerGroup reader)) (withRecordSizes reader)) (withCounts reader)"

definition dataBlocks :: "SuperblockFields \<Rightarrow> u64 result" where
  "dataBlocks raw =
     (if sf_totalBlocks raw \<le> sf_firstDataBlock raw then Inl (mkError kInvalidArgument kBlockCountOffset)
      else Inr (sf_totalBlocks raw - sf_firstDataBlock raw))"

definition groupCount :: "SuperblockFields \<Rightarrow> u64 \<Rightarrow> u32 result" where
  "groupCount raw blocks =
     (let groups = (blocks - 1) div sf_blocksPerGroup raw + 1
      in if groups > max32 then Inl (mkError kOverflow kBlockCountOffset) else Inr groups)"

definition assemble :: "SuperblockFields \<Rightarrow> u32 \<Rightarrow> Ext4Geometry" where
  "assemble raw groups =
     \<lparr>eg_blockSizeBytes = sf_blockSizeBytes raw, eg_totalBlocks = sf_totalBlocks raw, eg_totalInodes = sf_totalInodes raw,
      eg_blocksPerGroup = sf_blocksPerGroup raw, eg_inodesPerGroup = sf_inodesPerGroup raw,
      eg_inodeSizeBytes = sf_inodeSizeBytes raw, eg_descriptorSizeBytes = sf_descriptorSizeBytes raw,
      eg_firstDataBlock = sf_firstDataBlock raw, eg_groupDescriptorBlock = sf_firstDataBlock raw + 1, eg_groupCount = groups,
      eg_lastOrphanInode = sf_lastOrphanInode raw,
      eg_usesExtents = (and (sf_featureIncompat raw) kIncompatExtents \<noteq> 0)\<rparr>"

definition geometryOf :: "SuperblockFields \<Rightarrow> Ext4Geometry result" where
  "geometryOf raw = mapResult (andThen (dataBlocks raw) (groupCount raw)) (assemble raw)"

definition parseExt4Superblock :: "bytes \<Rightarrow> Ext4Geometry result" where
  "parseExt4Superblock superblock =
     (if length superblock < kSuperblockBytes then Inl (mkError kOutOfRange (length superblock))
      else let reader = take kSuperblockBytes superblock
           in andThen (andThen (namesExt4 reader) (\<lambda>_. readFields reader)) geometryOf)"

subsection \<open>Blocks\<close>

record Ext4Blocks =
  eb_device :: BlockDevice
  eb_geometry :: Ext4Geometry

definition isDataBlock :: "Ext4Blocks \<Rightarrow> u64 \<Rightarrow> bool" where
  "isDataBlock blocks block \<longleftrightarrow> block \<ge> eg_firstDataBlock (eb_geometry blocks) \<and> block < eg_totalBlocks (eb_geometry blocks)"

definition blockOffset :: "Ext4Blocks \<Rightarrow> u64 \<Rightarrow> u64" where
  "blockOffset blocks block = wrap64 (block * eg_blockSizeBytes (eb_geometry blocks))"

definition readBlock :: "Ext4Blocks \<Rightarrow> u64 \<Rightarrow> bytes result" where
  "readBlock blocks block =
     (if \<not> isDataBlock blocks block then Inl (mkError kOutOfRange block)
      else volumeRead (eb_device blocks) (blockOffset blocks block) (eg_blockSizeBytes (eb_geometry blocks)))"

definition appendExtentBytes :: "bytes \<Rightarrow> Ext4Blocks \<Rightarrow> Extent \<Rightarrow> size_t \<Rightarrow> bytes result" where
  "appendExtentBytes sofar blocks extent capBytes =
     (let wanted = min (lengthBytes extent) (capBytes - length sofar)
      in mapResult (volumeRead (eb_device blocks) (deviceOffset extent) wanted) (\<lambda>got. sofar @ got))"

fun readExtentsFrom :: "Ext4Blocks \<Rightarrow> Extent list \<Rightarrow> size_t \<Rightarrow> bytes \<Rightarrow> bytes result" where
  "readExtentsFrom blocks [] capBytes sofar = Inr sofar"
| "readExtentsFrom blocks (extent # extents) capBytes sofar =
     (if length sofar < capBytes
      then andThen (appendExtentBytes sofar blocks extent capBytes) (readExtentsFrom blocks extents capBytes)
      else Inr sofar)"

definition readExtents :: "Ext4Blocks \<Rightarrow> Extent list \<Rightarrow> size_t \<Rightarrow> bytes result" where
  "readExtents blocks extents capBytes = readExtentsFrom blocks extents capBytes []"

subsection \<open>Group descriptors\<close>

definition kSmallDescriptorBytes :: size_t where "kSmallDescriptorBytes = 32"
definition kWideDescriptorBytes :: size_t where "kWideDescriptorBytes = 64"
definition kInodeTableLowOffset :: size_t where "kInodeTableLowOffset = 0x08"
definition kInodeTableHighOffset :: size_t where "kInodeTableHighOffset = 0x28"

record Ext4Group =
  gr_inodeTableBlock :: u64

definition inodeTableBlock :: "bytes \<Rightarrow> size_t \<Rightarrow> u64" where
  "inodeTableBlock reader descriptorBytes =
     (let low = slotFieldAt 4 reader kInodeTableLowOffset
      in if descriptorBytes < kWideDescriptorBytes then low
         else or (push_bit 32 (slotFieldAt 4 reader kInodeTableHighOffset)) low)"

definition parseGroupDescriptor :: "bytes \<Rightarrow> size_t \<Rightarrow> Ext4Group result" where
  "parseGroupDescriptor slot descriptorBytes =
     (if descriptorBytes < kSmallDescriptorBytes then Inl (mkError kInvalidArgument descriptorBytes)
      else mapResult (slotReader slot descriptorBytes) (\<lambda>reader. \<lparr>gr_inodeTableBlock = inodeTableBlock reader descriptorBytes\<rparr>))"

subsection \<open>Inodes\<close>

definition kMinInodeBytes :: size_t where "kMinInodeBytes = 128"
definition kBlockMapBytes :: size_t where "kBlockMapBytes = 60"
definition kModeOffset :: size_t where "kModeOffset = 0x00"
definition kSizeLowOffset :: size_t where "kSizeLowOffset = 0x04"
definition kAccessTimeOffset :: size_t where "kAccessTimeOffset = 0x08"
definition kModifyTimeOffset :: size_t where "kModifyTimeOffset = 0x10"
definition kDeleteTimeOffset :: size_t where "kDeleteTimeOffset = 0x14"
definition kLinkCountOffset :: size_t where "kLinkCountOffset = 0x1A"
definition kFlagsOffset :: size_t where "kFlagsOffset = 0x20"
definition kBlockMapOffset :: size_t where "kBlockMapOffset = 0x28"
definition kSizeHighOffset :: size_t where "kSizeHighOffset = 0x6C"
definition kExtraSizeOffset :: size_t where "kExtraSizeOffset = 0x80"
definition kCreateTimeOffset :: size_t where "kCreateTimeOffset = 0x90"
definition kFormatMask :: u16 where "kFormatMask = 0xF000"
definition kDirectoryFormat :: u16 where "kDirectoryFormat = 0x4000"
definition kRegularFileFormat :: u16 where "kRegularFileFormat = 0x8000"
definition kExtentsFlag :: u32 where "kExtentsFlag = 0x00080000"
definition kExtraBytesForCreateTime :: u16 where "kExtraBytesForCreateTime = 20"
definition kInodeBytesForCreateTime :: size_t where "kInodeBytesForCreateTime = 0x94"

record Ext4Inode =
  in_mode :: u16
  in_linkCount :: u16
  in_sizeInBytes :: u64
  in_flags :: u32
  in_deletionTime :: u32
  in_timestamps :: Timestamps
  in_blockMap :: bytes
  in_isDirectory :: bool
  in_isRegularFile :: bool
  in_usesExtents :: bool
  in_isDeleted :: bool
  in_isUnused :: bool

definition stampAt :: "bytes \<Rightarrow> size_t \<Rightarrow> u64" where
  "stampAt reader off = filetimeFromUnixSeconds (int (slotFieldAt 4 reader off))"

definition hasCreateTime :: "bytes \<Rightarrow> bool" where
  "hasCreateTime reader \<longleftrightarrow>
     length reader \<ge> kInodeBytesForCreateTime \<and> slotFieldAt 2 reader kExtraSizeOffset \<ge> kExtraBytesForCreateTime"

definition timestampsOf :: "bytes \<Rightarrow> Timestamps" where
  "timestampsOf reader =
     \<lparr>ts_created = (if hasCreateTime reader then stampAt reader kCreateTimeOffset else 0),
      ts_modified = stampAt reader kModifyTimeOffset, ts_accessed = stampAt reader kAccessTimeOffset\<rparr>"

definition sizeOf :: "bytes \<Rightarrow> bool \<Rightarrow> u64" where
  "sizeOf reader isRegularFile =
     (let low = slotFieldAt 4 reader kSizeLowOffset
      in if \<not> isRegularFile then low else or (push_bit 32 (slotFieldAt 4 reader kSizeHighOffset)) low)"

definition blockMapOf :: "bytes \<Rightarrow> bytes" where
  "blockMapOf slot = take kBlockMapBytes (drop kBlockMapOffset slot)"

definition inodeOf :: "bytes \<Rightarrow> bytes \<Rightarrow> Ext4Inode" where
  "inodeOf reader slot =
     (let mode = slotFieldAt 2 reader kModeOffset;
          links = slotFieldAt 2 reader kLinkCountOffset;
          flags = slotFieldAt 4 reader kFlagsOffset;
          regular = and mode kFormatMask = kRegularFileFormat
      in \<lparr>in_mode = mode, in_linkCount = links, in_sizeInBytes = sizeOf reader regular, in_flags = flags,
          in_deletionTime = slotFieldAt 4 reader kDeleteTimeOffset, in_timestamps = timestampsOf reader,
          in_blockMap = blockMapOf slot, in_isDirectory = (and mode kFormatMask = kDirectoryFormat),
          in_isRegularFile = regular, in_usesExtents = (and flags kExtentsFlag \<noteq> 0), in_isDeleted = (links = 0), in_isUnused = (mode = 0)\<rparr>)"

definition parseExt4Inode :: "bytes \<Rightarrow> Ext4Inode result" where
  "parseExt4Inode slot =
     (if length slot < kMinInodeBytes then Inl (mkError kOutOfRange (length slot)) else Inr (inodeOf slot slot))"

subsection \<open>The inode table\<close>

record InodePlace =
  ip_group :: u32
  ip_indexInGroup :: u32

definition placeOf :: "Ext4Geometry \<Rightarrow> u32 \<Rightarrow> InodePlace result" where
  "placeOf geometry number =
     (if number = 0 \<or> number > eg_totalInodes geometry then Inl (mkError kOutOfRange number)
      else let index = number - 1
           in Inr \<lparr>ip_group = index div eg_inodesPerGroup geometry, ip_indexInGroup = index mod eg_inodesPerGroup geometry\<rparr>)"

definition readDescriptor :: "Ext4Blocks \<Rightarrow> u32 \<Rightarrow> bytes result" where
  "readDescriptor blocks which =
     (let geometry = eb_geometry blocks;
          at = wrap64 (blockOffset blocks (eg_groupDescriptorBlock geometry) + wrap64 (which * eg_descriptorSizeBytes geometry))
      in volumeRead (eb_device blocks) at (eg_descriptorSizeBytes geometry))"

definition tableBlockOf :: "Ext4Blocks \<Rightarrow> InodePlace \<Rightarrow> u64 result" where
  "tableBlockOf blocks place =
     andThen (andThen (readDescriptor blocks (ip_group place))
         (\<lambda>slot. parseGroupDescriptor slot (eg_descriptorSizeBytes (eb_geometry blocks))))
       (\<lambda>found. if \<not> isDataBlock blocks (gr_inodeTableBlock found) then Inl (mkError kOutOfRange (gr_inodeTableBlock found))
                else Inr (gr_inodeTableBlock found))"

definition inodeOffset :: "Ext4Blocks \<Rightarrow> u64 \<Rightarrow> u32 \<Rightarrow> u64" where
  "inodeOffset blocks tableBlock indexInGroup =
     wrap64 (blockOffset blocks tableBlock + wrap64 (indexInGroup * eg_inodeSizeBytes (eb_geometry blocks)))"

definition offsetOf :: "Ext4Blocks \<Rightarrow> u32 \<Rightarrow> u64 result" where
  "offsetOf blocks number =
     andThen (placeOf (eb_geometry blocks) number)
       (\<lambda>place. mapResult (tableBlockOf blocks place) (\<lambda>tableBlock. inodeOffset blocks tableBlock (ip_indexInGroup place)))"

definition readInode :: "Ext4Blocks \<Rightarrow> u32 \<Rightarrow> Ext4Inode result" where
  "readInode blocks number =
     andThen (offsetOf blocks number)
       (\<lambda>at. andThen (volumeRead (eb_device blocks) at (eg_inodeSizeBytes (eb_geometry blocks))) parseExt4Inode)"

subsection \<open>Which superblocks are accepted\<close>

declare readLe_in_range [simp del]

definition wide_volume :: "bytes \<Rightarrow> bool" where
  "wide_volume s \<longleftrightarrow> and (le_at 4 s 0x60) 0x80 \<noteq> 0"

definition fields_of :: "bytes \<Rightarrow> SuperblockFields" where
  "fields_of s =
     \<lparr>sf_blockSizeBytes = 1024 * 2 ^ le_at 4 s 0x18, sf_totalInodes = le_at 4 s 0x00,
      sf_totalBlocks = 2 ^ 32 * (if wide_volume s then le_at 4 s 0x150 else 0) + le_at 4 s 0x04,
      sf_firstDataBlock = le_at 4 s 0x14, sf_blocksPerGroup = le_at 4 s 0x20, sf_inodesPerGroup = le_at 4 s 0x28,
      sf_inodeSizeBytes = le_at 2 s 0x58, sf_descriptorSizeBytes = (if wide_volume s then le_at 2 s 0xFE else 32),
      sf_featureIncompat = le_at 4 s 0x60, sf_lastOrphanInode = le_at 4 s 0x64\<rparr>"

definition record_fits :: "nat \<Rightarrow> nat \<Rightarrow> nat \<Rightarrow> bool" where
  "record_fits low block n \<longleftrightarrow> isPowerOfTwo n \<and> low \<le> n \<and> n \<le> block"

definition superblock_rules :: "SuperblockFields \<Rightarrow> bool \<Rightarrow> bool" where
  "superblock_rules f wide \<longleftrightarrow>
     sf_firstDataBlock f = (if sf_blockSizeBytes f = 1024 then 1 else 0) \<and>
     0 < sf_blocksPerGroup f \<and> sf_blocksPerGroup f \<le> 8 * sf_blockSizeBytes f \<and>
     0 < sf_inodesPerGroup f \<and> sf_inodesPerGroup f \<le> 8 * sf_blockSizeBytes f \<and>
     record_fits 128 (sf_blockSizeBytes f) (sf_inodeSizeBytes f) \<and>
     (if wide then record_fits 64 (sf_blockSizeBytes f) (sf_descriptorSizeBytes f) else True) \<and>
     sf_totalInodes f \<noteq> 0 \<and> sf_totalBlocks f \<noteq> 0"

definition group_count :: "SuperblockFields \<Rightarrow> nat" where
  "group_count f = (sf_totalBlocks f - sf_firstDataBlock f - 1) div sf_blocksPerGroup f + 1"

definition ext4_superblock_valid :: "bytes \<Rightarrow> bool" where
  "ext4_superblock_valid s \<longleftrightarrow>
     1024 \<le> length s \<and> le_at 2 s 0x38 = 0xEF53 \<and> le_at 4 s 0x18 \<le> 6 \<and> superblock_rules (fields_of s) (wide_volume s) \<and>
     sf_firstDataBlock (fields_of s) < sf_totalBlocks (fields_of s) \<and> group_count (fields_of s) \<le> max32"

lemma superblock_fields_Inr:
  assumes "1024 \<le> length s"
  shows "blockShift s = Inr v \<longleftrightarrow> le_at 4 s 0x18 \<le> 6 \<and> v = le_at 4 s 0x18"
    and "namesExt4 s = Inr b \<longleftrightarrow> b \<and> le_at 2 s 0x38 = 0xEF53 \<and> le_at 4 s 0x18 \<le> 6"
    and "firstDataBlock s block = Inr v \<longleftrightarrow> v = le_at 4 s 0x14 \<and> v = (if block = 1024 then 1 else 0)"
    and "off + 4 \<le> 1024 \<Longrightarrow> block \<le> 65536 \<Longrightarrow> perGroupCount s off block = Inr v \<longleftrightarrow> v = le_at 4 s off \<and> 0 < v \<and> v \<le> 8 * block"
    and "inodeSize s block = Inr v \<longleftrightarrow> v = le_at 2 s 0x58 \<and> record_fits 128 block v"
    and "inodeCount s = Inr v \<longleftrightarrow> v = le_at 4 s 0x00 \<and> v \<noteq> 0"
proof -
  have reads: "readLe 4 s off = Inr (le_at 4 s off)" "readLe 2 s off = Inr (le_at 2 s off)" if "off + 4 \<le> 1024" for off
    using that assms by (simp_all add: readLe_le_at)
  show shift: "blockShift s = Inr v \<longleftrightarrow> le_at 4 s 0x18 \<le> 6 \<and> v = le_at 4 s 0x18" for v
    by (auto simp: blockShift_def reads kBlockShiftOffset_def kMaxBlockShift_def rejectAt_def)
  show "namesExt4 s = Inr b \<longleftrightarrow> b \<and> le_at 2 s 0x38 = 0xEF53 \<and> le_at 4 s 0x18 \<le> 6"
    by (auto simp: namesExt4_def reads kMagicOffset_def kMagic_def mapResult_Inr_iff shift)
  show "firstDataBlock s block = Inr v \<longleftrightarrow> v = le_at 4 s 0x14 \<and> v = (if block = 1024 then 1 else 0)"
    by (auto simp: firstDataBlock_def Let_def reads kFirstDataBlockOffset_def kMinBlockSize_def rejectAt_def)
  show "perGroupCount s off block = Inr v \<longleftrightarrow> v = le_at 4 s off \<and> 0 < v \<and> v \<le> 8 * block" if "off + 4 \<le> 1024" "block \<le> 65536"
    using that by (auto simp: perGroupCount_def Let_def reads kBitsPerByte_def wrap32_def rejectAt_def)
  show "inodeSize s block = Inr v \<longleftrightarrow> v = le_at 2 s 0x58 \<and> record_fits 128 block v"
    by (auto simp: inodeSize_def reads kInodeSizeOffset_def kMinInodeSize_def isBlockSizedPowerOfTwo_def record_fits_def rejectAt_def)
  show "inodeCount s = Inr v \<longleftrightarrow> v = le_at 4 s 0x00 \<and> v \<noteq> 0"
    by (auto simp: inodeCount_def reads kInodeCountOffset_def rejectAt_def)
qed

lemma descriptorSize_Inr:
  assumes "1024 \<le> length s" and "sf_featureIncompat f = le_at 4 s 0x60"
  shows "descriptorSize s f = Inr v \<longleftrightarrow>
      v = (if wide_volume s then le_at 2 s 0xFE else 32) \<and> (if wide_volume s then record_fits 64 (sf_blockSizeBytes f) v else True)"
proof -
  have "readLe 2 s 0xFE = Inr (le_at 2 s 0xFE)" using assms(1) by (simp add: readLe_le_at)
  then show ?thesis
    by (auto simp: descriptorSize_def assms(2) wide_volume_def kIncompat64Bit_def kDescriptorSizeOffset_def kSmallDescriptorSize_def
        kMinLargeDescriptorSize_def isBlockSizedPowerOfTwo_def record_fits_def rejectAt_def)
qed

lemma blockCount_Inr:
  assumes "1024 \<le> length s"
  shows "blockCount s (le_at 4 s 0x60) = Inr v \<longleftrightarrow>
    v = 2 ^ 32 * (if wide_volume s then le_at 4 s 0x150 else 0) + le_at 4 s 0x04 \<and> v \<noteq> 0"
proof -
  have reads: "readLe 4 s 0x150 = Inr (le_at 4 s 0x150)" "readLe 4 s 0x04 = Inr (le_at 4 s 0x04)"
    using assms(1) by (simp_all add: readLe_le_at)
  have low: "le_at 4 s 0x04 < 2 ^ 32" using le_at_less [of 4 s] by simp
  have join: "or (push_bit 32 n) (le_at 4 s 0x04) = 2 ^ 32 * n + le_at 4 s 0x04" for n
    using or_add [OF low, of n] by (simp add: push_bit_eq_mult mult.commute)
  show ?thesis
    unfolding blockCount_def Let_def kBlockCountOffset_def kBlockCountHighOffset_def reads join andThen_simps
    by (auto simp: wide_volume_def kIncompat64Bit_def join)
qed

lemma readFields_Inr:
  assumes "1024 \<le> length s" and "le_at 4 s 0x18 \<le> 6"
  shows "readFields s = Inr f \<longleftrightarrow> superblock_rules (fields_of s) (wide_volume s) \<and> f = fields_of s"
proof -
  let ?bs = "1024 * 2 ^ le_at 4 s 0x18 :: nat"
  have "(2 :: nat) ^ le_at 4 s 0x18 \<le> 2 ^ 6" using assms(2) by (intro power_increasing) simp_all
  then have small: "?bs \<le> 65536" by simp
  have size: "blockSize s = Inr v \<longleftrightarrow> v = ?bs" for v
    using assms(2) by (auto simp: blockSize_def mapResult_Inr_iff superblock_fields_Inr [OF assms(1)] push_bit_eq_mult kMinBlockSize_def)
  have reads: "readLe 4 s 0x60 = Inr (le_at 4 s 0x60)" "readLe 4 s 0x64 = Inr (le_at 4 s 0x64)" using assms(1) by (simp_all add: readLe_le_at)
  have off: "0x20 + 4 \<le> (1024 :: nat)" "0x28 + 4 \<le> (1024 :: nat)" by simp_all
  note group = superblock_fields_Inr(4) [OF assms(1) off(1) small] superblock_fields_Inr(4) [OF assms(1) off(2) small]
  show ?thesis
    unfolding readFields_def andThen_Inr_iff mapResult_Inr_iff withBlockSize_def withFeatures_def withLayout_def withInodesPerGroup_def
      withRecordSizes_def withCounts_def size kFeatureIncompatOffset_def kLastOrphanOffset_def reads kBlocksPerGroupOffset_def kInodesPerGroupOffset_def Let_def
    by (auto simp: superblock_fields_Inr(3,5,6) [OF assms(1)] group descriptorSize_Inr [OF assms(1)] blockCount_Inr [OF assms(1)] superblock_rules_def fields_of_def emptyFields_def)
qed

lemma ext4_geometryOf_Inr:
  "geometryOf f = Inr g \<longleftrightarrow> sf_firstDataBlock f < sf_totalBlocks f \<and> group_count f \<le> max32 \<and> g = assemble f (group_count f)"
  by (auto simp: geometryOf_def mapResult_Inr_iff andThen_Inr_iff dataBlocks_def groupCount_def Let_def group_count_def)

lemma superblock_take:
  "1024 \<le> length s \<Longrightarrow> fields_of (take 1024 s) = fields_of s \<and> wide_volume (take 1024 s) = wide_volume s \<and>
   ext4_superblock_valid (take 1024 s) = ext4_superblock_valid s"
  by (simp add: ext4_superblock_valid_def fields_of_def wide_volume_def le_at_take)

lemma parseExt4Superblock_Inr:
  "parseExt4Superblock s = Inr g \<longleftrightarrow> ext4_superblock_valid s \<and> g = assemble (fields_of s) (group_count (fields_of s))"
proof (cases "1024 \<le> length s")
  case True
  define r where "r = take 1024 s"
  have r: "1024 \<le> length r" using True by (simp add: r_def)
  have parse: "parseExt4Superblock s = andThen (andThen (namesExt4 r) (\<lambda>_. readFields r)) geometryOf"
    using True by (simp add: parseExt4Superblock_def kSuperblockBytes_def r_def Let_def)
  have "parseExt4Superblock s = Inr g \<longleftrightarrow> ext4_superblock_valid r \<and> g = assemble (fields_of r) (group_count (fields_of r))"
    unfolding parse andThen_Inr_iff superblock_fields_Inr(2) [OF r] ext4_geometryOf_Inr
    using r by (cases "le_at 4 r 0x18 \<le> 6") (auto simp: ext4_superblock_valid_def readFields_Inr [OF r])
  then show ?thesis using superblock_take [OF True] by (simp add: r_def)
qed (simp add: parseExt4Superblock_def kSuperblockBytes_def ext4_superblock_valid_def)


lemma valid_block_size:
  "ext4_superblock_valid s \<Longrightarrow> 1024 \<le> sf_blockSizeBytes (fields_of s) \<and> sf_blockSizeBytes (fields_of s) \<le> 65536"
proof -
  assume "ext4_superblock_valid s"
  then have "(2 :: nat) ^ le_at 4 s 0x18 \<le> 2 ^ 6" by (intro power_increasing) (simp_all add: ext4_superblock_valid_def)
  then show ?thesis by (simp add: fields_of_def)
qed

end
