(* ===== verification/Ext4Trees.thy ===== *)
theory Ext4Trees
  imports Ext4Layout
begin

text \<open>
  Extent trees (\<open>src/fs/ext4/ExtentTree.cpp\<close> and \<open>ExtentWalk.cpp\<close>): the nodes of a tree, the
  worklist that follows it to its leaves, and the leaves restated as the extents of a file. The
  worklist reads what it queues, so its state is the nodes themselves; it is bounded by the nodes
  it may visit, hence \<open>runTree\<close> always has a value.
\<close>

subsection \<open>Nodes\<close>

definition kExtentHeaderBytes :: size_t where "kExtentHeaderBytes = 12"
definition kExtentEntryBytes :: size_t where "kExtentEntryBytes = 12"
definition kMaxExtentDepth :: u16 where "kMaxExtentDepth = 5"
definition kMagic :: u16 where "kMagic = 0xF30A"
definition kMagicOffset :: size_t where "kMagicOffset = 0x00"
definition kEntryCountOffset :: size_t where "kEntryCountOffset = 0x02"
definition kMaxEntriesOffset :: size_t where "kMaxEntriesOffset = 0x04"
definition kDepthOffset :: size_t where "kDepthOffset = 0x06"
definition kFileBlockOffset :: size_t where "kFileBlockOffset = 0x00"
definition kLengthOffset :: size_t where "kLengthOffset = 0x04"
definition kStartHighOffset :: size_t where "kStartHighOffset = 0x06"
definition kStartLowOffset :: size_t where "kStartLowOffset = 0x08"
definition kLeafLowOffset :: size_t where "kLeafLowOffset = 0x04"
definition kLeafHighOffset :: size_t where "kLeafHighOffset = 0x08"
definition kMaxInitializedLength :: u32 where "kMaxInitializedLength = 32768"

record ExtentNode =
  en_entries :: u16
  en_max :: u16
  en_depth :: u16

record Ext4Extent =
  ex_firstFileBlock :: u32
  ex_blockCount :: u32
  ex_firstDeviceBlock :: u64
  ex_initialized :: bool

record ExtentIndex =
  xi_firstFileBlock :: u32
  xi_nodeBlock :: u64

definition checkedNode :: "ExtentNode \<Rightarrow> size_t \<Rightarrow> ExtentNode result" where
  "checkedNode node nodeBytes =
     (if en_depth node > kMaxExtentDepth then rejectAt kDepthOffset
      else if kExtentHeaderBytes + en_entries node * kExtentEntryBytes > nodeBytes then rejectAt kEntryCountOffset
      else Inr node)"

definition headerOf :: "bytes \<Rightarrow> size_t \<Rightarrow> ExtentNode result" where
  "headerOf reader nodeBytes =
     (if slotFieldAt 2 reader kMagicOffset \<noteq> kMagic then rejectAt kMagicOffset
      else checkedNode
             \<lparr>en_entries = slotFieldAt 2 reader kEntryCountOffset, en_max = slotFieldAt 2 reader kMaxEntriesOffset,
              en_depth = slotFieldAt 2 reader kDepthOffset\<rparr> nodeBytes)"

definition parseExtentHeader :: "bytes \<Rightarrow> ExtentNode result" where
  "parseExtentHeader node = andThen (slotReader node kExtentHeaderBytes) (\<lambda>reader. headerOf reader (length node))"

definition nodeOfDepth :: "bytes \<Rightarrow> bool \<Rightarrow> ExtentNode result" where
  "nodeOfDepth node wantLeaf =
     andThen (parseExtentHeader node)
       (\<lambda>header. if (en_depth header = 0) = wantLeaf then Inr header else rejectAt kDepthOffset)"

definition entryAt :: "bytes \<Rightarrow> u16 \<Rightarrow> bytes" where
  "entryAt node at = take kExtentEntryBytes (drop (kExtentHeaderBytes + at * kExtentEntryBytes) node)"

definition leafOf :: "bytes \<Rightarrow> Ext4Extent" where
  "leafOf reader =
     (let len = slotFieldAt 2 reader kLengthOffset;
          initialized = len \<le> kMaxInitializedLength;
          high = slotFieldAt 2 reader kStartHighOffset
      in \<lparr>ex_firstFileBlock = slotFieldAt 4 reader kFileBlockOffset,
          ex_blockCount = (if initialized then len else len - kMaxInitializedLength),
          ex_firstDeviceBlock = or (push_bit 32 high) (slotFieldAt 4 reader kStartLowOffset),
          ex_initialized = initialized\<rparr>)"

definition indexOf :: "bytes \<Rightarrow> ExtentIndex" where
  "indexOf reader =
     (let high = slotFieldAt 2 reader kLeafHighOffset
      in \<lparr>xi_firstFileBlock = slotFieldAt 4 reader kFileBlockOffset,
          xi_nodeBlock = or (push_bit 32 high) (slotFieldAt 4 reader kLeafLowOffset)\<rparr>)"

definition entriesOf :: "bytes \<Rightarrow> u16 \<Rightarrow> (bytes \<Rightarrow> 'e) \<Rightarrow> 'e list" where
  "entriesOf node cnt readOne = map (\<lambda>at. readOne (entryAt node at)) [0..<cnt]"

definition parseExtentLeaves :: "bytes \<Rightarrow> Ext4Extent list result" where
  "parseExtentLeaves node = mapResult (nodeOfDepth node True) (\<lambda>header. entriesOf node (en_entries header) leafOf)"

definition parseExtentIndices :: "bytes \<Rightarrow> ExtentIndex list result" where
  "parseExtentIndices node = mapResult (nodeOfDepth node False) (\<lambda>header. entriesOf node (en_entries header) indexOf)"

subsection \<open>Walking the tree\<close>

definition kMaxExtentNodes :: size_t where "kMaxExtentNodes = 512"
definition kMaxExtents :: size_t where "kMaxExtents = 65536"

record TreeWalk =
  tw_leaves :: "Ext4Extent list"
  tw_visited :: size_t

definition takeLeaves :: "bytes \<Rightarrow> bytes list \<times> TreeWalk \<Rightarrow> u64 result \<times> bytes list \<times> TreeWalk" where
  "takeLeaves node = (\<lambda>(pending, walk).
     case parseExtentLeaves node of
       Inl e \<Rightarrow> (Inl e, pending, walk)
     | Inr found \<Rightarrow>
         if length (tw_leaves walk) + length found > kMaxExtents then (Inl (mkError kOutOfRange (length (tw_leaves walk))), pending, walk)
         else (Inr (length found), pending, walk\<lparr>tw_leaves := tw_leaves walk @ found\<rparr>))"

definition queueNode :: "Ext4Blocks \<Rightarrow> u64 \<Rightarrow> bytes list \<times> TreeWalk \<Rightarrow> u64 result \<times> bytes list \<times> TreeWalk" where
  "queueNode blocks block = (\<lambda>(pending, walk).
     if tw_visited walk + length pending \<ge> kMaxExtentNodes then (Inl (mkError kOutOfRange (length pending)), pending, walk)
     else case readBlock blocks block of
            Inl e \<Rightarrow> (Inl e, pending, walk)
          | Inr node \<Rightarrow> (Inr 0, pending @ [node], walk))"

fun enqueue :: "Ext4Blocks \<Rightarrow> ExtentIndex list \<Rightarrow> bytes list \<times> TreeWalk \<Rightarrow> u64 result \<times> bytes list \<times> TreeWalk" where
  "enqueue blocks [] state = (Inr 0, state)"
| "enqueue blocks (index # indices) state =
     (case queueNode blocks (xi_nodeBlock index) state of
        (Inl e, state') \<Rightarrow> (Inl e, state')
      | (Inr _, state') \<Rightarrow> enqueue blocks indices state')"

definition followIndices :: "Ext4Blocks \<Rightarrow> bytes \<Rightarrow> bytes list \<times> TreeWalk \<Rightarrow> u64 result \<times> bytes list \<times> TreeWalk" where
  "followIndices blocks node state =
     (case parseExtentIndices node of Inl e \<Rightarrow> (Inl e, state) | Inr indices \<Rightarrow> enqueue blocks indices state)"

definition walkNode :: "Ext4Blocks \<Rightarrow> bytes \<Rightarrow> bytes list \<times> TreeWalk \<Rightarrow> u64 result \<times> bytes list \<times> TreeWalk" where
  "walkNode blocks node = (\<lambda>(pending, walk).
     let walk' = walk\<lparr>tw_visited := tw_visited walk + 1\<rparr>
     in if tw_visited walk' > kMaxExtentNodes then (Inl (mkError kOutOfRange (tw_visited walk')), pending, walk')
        else case parseExtentHeader node of
               Inl e \<Rightarrow> (Inl e, pending, walk')
             | Inr header \<Rightarrow>
                 if en_depth header = 0 then takeLeaves node (pending, walk') else followIndices blocks node (pending, walk'))"

definition runTree :: "Ext4Blocks \<Rightarrow> bytes \<Rightarrow> Ext4Extent list result option" where
  "runTree blocks root =
     map_option (\<lambda>(found, walk). mapResult found (\<lambda>_. tw_leaves walk))
       (driveWorklist (walkNode blocks) [root] \<lparr>tw_leaves = [], tw_visited = 0\<rparr>)"

subsection \<open>Leaves as extents\<close>

definition usable :: "Ext4Blocks \<Rightarrow> Ext4Extent \<Rightarrow> bool" where
  "usable blocks leaf \<longleftrightarrow>
     (let final = wrap_sub64 (wrap64 (ex_firstDeviceBlock leaf + ex_blockCount leaf)) 1
      in ex_initialized leaf \<and> ex_blockCount leaf > 0 \<and> isDataBlock blocks (ex_firstDeviceBlock leaf) \<and> isDataBlock blocks final)"

definition deviceRun :: "Ext4Blocks \<Rightarrow> Ext4Extent \<Rightarrow> Extent" where
  "deviceRun blocks leaf =
     \<lparr>deviceOffset = blockOffset blocks (ex_firstDeviceBlock leaf),
      lengthBytes = wrap64 (ex_blockCount leaf * eg_blockSizeBytes (eb_geometry blocks))\<rparr>"

record Mapping =
  mp_extents :: "Extent list"
  mp_wanted :: u32

definition takeLeaf :: "Ext4Blocks \<Rightarrow> Mapping \<Rightarrow> Ext4Extent \<Rightarrow> Mapping option" where
  "takeLeaf blocks mapping leaf =
     (if ex_firstFileBlock leaf \<noteq> mp_wanted mapping \<or> \<not> usable blocks leaf then None
      else Some \<lparr>mp_extents = Extents.appendExtent (mp_extents mapping) (deviceRun blocks leaf),
                 mp_wanted = wrap32 (mp_wanted mapping + ex_blockCount leaf)\<rparr>)"

fun mapLeavesFrom :: "Ext4Blocks \<Rightarrow> Mapping \<Rightarrow> Ext4Extent list \<Rightarrow> Extent list result" where
  "mapLeavesFrom blocks mapping [] = Inr (mp_extents mapping)"
| "mapLeavesFrom blocks mapping (leaf # leaves) =
     (case takeLeaf blocks mapping leaf of
        None \<Rightarrow> Inl (mkError kInvalidArgument (ex_firstFileBlock leaf))
      | Some mapping' \<Rightarrow> mapLeavesFrom blocks mapping' leaves)"

definition mapLeaves :: "Ext4Blocks \<Rightarrow> Ext4Extent list \<Rightarrow> Extent list result" where
  "mapLeaves blocks leaves = mapLeavesFrom blocks \<lparr>mp_extents = [], mp_wanted = 0\<rparr> (sort_key ex_firstFileBlock leaves)"

definition treeExtents :: "Ext4Blocks \<Rightarrow> bytes \<Rightarrow> u64 \<Rightarrow> Extent list result" where
  "treeExtents blocks root sizeBytes =
     (if sizeBytes = 0 then Inr []
      else andThen (andThen (the (runTree blocks root)) (mapLeaves blocks)) (\<lambda>extents. trimToSize extents sizeBytes))"

definition inodeExtents :: "Ext4Blocks \<Rightarrow> Ext4Inode \<Rightarrow> Extent list result" where
  "inodeExtents blocks inode =
     (if \<not> in_usesExtents inode then Inl (mkError kInvalidArgument (in_flags inode))
      else treeExtents blocks (in_blockMap inode) (in_sizeInBytes inode))"

subsection \<open>What a tree is\<close>

text \<open>
  A tree is read from the node that roots it: a leaf node has the extents it lists, an interior
  node has those of the subtrees it points at, each in a block of its own. The second argument counts the
  nodes. Subtrees are listed in the order the worklist takes them, the one queued last first.
\<close>

definition child_of :: "Ext4Blocks \<Rightarrow> ExtentIndex \<Rightarrow> bytes \<Rightarrow> bool" where
  "child_of blocks index node \<longleftrightarrow> readBlock blocks (xi_nodeBlock index) = Inr node"

inductive tree_leaves :: "Ext4Blocks \<Rightarrow> bytes \<Rightarrow> nat \<Rightarrow> Ext4Extent list \<Rightarrow> bool"
  and forest_leaves :: "Ext4Blocks \<Rightarrow> bytes list \<Rightarrow> nat \<Rightarrow> Ext4Extent list \<Rightarrow> bool"
  for blocks where
  leaf: "parseExtentHeader node = Inr header \<Longrightarrow> en_depth header = 0 \<Longrightarrow> parseExtentLeaves node = Inr leaves \<Longrightarrow> tree_leaves blocks node 1 leaves"
| interior: "parseExtentHeader node = Inr header \<Longrightarrow> en_depth header \<noteq> 0 \<Longrightarrow> parseExtentIndices node = Inr indices \<Longrightarrow>
    list_all2 (child_of blocks) indices children \<Longrightarrow> forest_leaves blocks (rev children) n leaves \<Longrightarrow> tree_leaves blocks node (Suc n) leaves"
| none: "forest_leaves blocks [] 0 []"
| more: "tree_leaves blocks node n leaves \<Longrightarrow> forest_leaves blocks nodes m others \<Longrightarrow> forest_leaves blocks (node # nodes) (n + m) (leaves @ others)"

inductive_cases tree_leavesE: "tree_leaves blocks node n leaves"
inductive_simps forest_Nil [simp]: "forest_leaves blocks [] n leaves"
inductive_simps forest_Cons: "forest_leaves blocks (node # nodes) n leaves"

lemma forest_append:
  "forest_leaves blocks (xs @ ys) n ls \<longleftrightarrow>
   (\<exists>a b as bs. forest_leaves blocks xs a as \<and> forest_leaves blocks ys b bs \<and> n = a + b \<and> ls = as @ bs)"
proof (induction xs arbitrary: n ls)
  case (Cons x xs)
  show ?case (is "?l = ?r")
  proof
    assume ?l
    then obtain k m as others where x: "tree_leaves blocks x k as" and "forest_leaves blocks (xs @ ys) m others" and n: "n = k + m" "ls = as @ others"
      by (auto simp: forest_Cons)
    then obtain a b bs cs where "forest_leaves blocks xs a bs" "forest_leaves blocks ys b cs" "m = a + b" "others = bs @ cs" using Cons.IH by blast
    then show ?r using x n tree_leaves_forest_leaves.more [OF x] by (metis add.assoc append.assoc)
  next
    assume ?r
    then obtain a b k as bs cs where x: "tree_leaves blocks x k as" "forest_leaves blocks xs a bs" "forest_leaves blocks ys b cs"
        and n: "n = k + (a + b)" "ls = as @ (bs @ cs)"
      by (auto simp: forest_Cons)
    then have "forest_leaves blocks (xs @ ys) (a + b) (bs @ cs)" using Cons.IH by blast
    then show ?l using x n tree_leaves_forest_leaves.more [OF x(1)] by simp
  qed
qed simp

lemma tree_nodes_positive: "tree_leaves blocks node n ls \<Longrightarrow> 0 < n"
  by (erule tree_leavesE) simp_all

lemma forest_nodes: "forest_leaves blocks nodes n ls \<Longrightarrow> length nodes \<le> n"
  by (induction nodes arbitrary: n ls) (fastforce simp: forest_Cons dest: tree_nodes_positive)+

lemma children_unique: "list_all2 (child_of blocks) indices xs \<Longrightarrow> list_all2 (child_of blocks) indices ys \<Longrightarrow> xs = ys"
  by (induction indices arbitrary: xs ys) (fastforce simp: list_all2_Cons1 child_of_def)+

lemma enqueue_spec:
  "case enqueue blocks indices (pending, walk) of
     (Inl e, _) \<Rightarrow> \<not> (\<exists>children. list_all2 (child_of blocks) indices children \<and> tw_visited walk + length pending + length children \<le> kMaxExtentNodes)
   | (Inr n, pending', walk') \<Rightarrow> n = 0 \<and> walk' = walk \<and> (\<exists>children. pending' = pending @ children \<and> list_all2 (child_of blocks) indices children)"
proof (induction indices arbitrary: pending)
  case (Cons index indices)
  show ?case
  proof (cases "tw_visited walk + length pending \<ge> kMaxExtentNodes")
    case True
    then show ?thesis by (auto simp: queueNode_def list_all2_Cons1)
  next
    case False
    show ?thesis
    proof (cases "readBlock blocks (xi_nodeBlock index)")
      case (Inl e)
      then show ?thesis using False by (auto simp: queueNode_def list_all2_Cons1 child_of_def)
    next
      case (Inr node)
      then have queued: "queueNode blocks (xi_nodeBlock index) (pending, walk) = (Inr 0, pending @ [node], walk)"
        using False by (simp add: queueNode_def)
      show ?thesis using Cons.IH [of "pending @ [node]"] Inr
        by (auto simp: queued list_all2_Cons1 child_of_def split: sum.splits prod.splits)
    qed
  qed
qed simp

definition within_bounds :: "Ext4Blocks \<Rightarrow> bytes list \<Rightarrow> TreeWalk \<Rightarrow> Ext4Extent list \<Rightarrow> bool" where
  "within_bounds blocks pending walk leaves \<longleftrightarrow>
     (\<exists>n. forest_leaves blocks (rev pending) n leaves \<and> tw_visited walk + n \<le> kMaxExtentNodes \<and>
          length (tw_leaves walk) + length leaves \<le> kMaxExtents)"

lemma walkNode_spec:
  assumes "tw_visited walk \<le> kMaxExtentNodes" and "length (tw_leaves walk) \<le> kMaxExtents"
  shows "case walkNode blocks node (pending, walk) of
     (Inl e, _) \<Rightarrow> \<not> (\<exists>leaves. within_bounds blocks (pending @ [node]) walk leaves)
   | (Inr n, pending', walk') \<Rightarrow>
       tw_visited walk' = tw_visited walk + 1 \<and> tw_visited walk' \<le> kMaxExtentNodes \<and> length (tw_leaves walk') \<le> kMaxExtents \<and>
       (\<exists>found. tw_leaves walk' = tw_leaves walk @ found \<and>
         (\<forall>leaves. within_bounds blocks (pending @ [node]) walk leaves \<longleftrightarrow> (\<exists>others. leaves = found @ others \<and> within_bounds blocks pending' walk' others)))"
proof (cases "tw_visited walk < kMaxExtentNodes")
  case False
  then show ?thesis using assms
    by (auto simp: walkNode_def within_bounds_def forest_Cons dest!: tree_nodes_positive)
next
  case room: True
  let ?walk = "walk\<lparr>tw_visited := tw_visited walk + 1\<rparr>"
  show ?thesis
  proof (cases "parseExtentHeader node")
    case (Inl e)
    then show ?thesis using room by (auto simp: walkNode_def within_bounds_def forest_Cons elim!: tree_leavesE)
  next
    case (Inr header)
    show ?thesis
    proof (cases "en_depth header = 0")
      case True
      then have only: "tree_leaves blocks node n ls \<longleftrightarrow> n = 1 \<and> parseExtentLeaves node = Inr ls" for n ls
        using Inr tree_leaves_forest_leaves.leaf [of node header _ blocks] by (auto elim!: tree_leavesE)
      show ?thesis
      proof (cases "parseExtentLeaves node")
        case (Inr found)
        have walked: "walkNode blocks node (pending, walk) =
            (if length (tw_leaves walk) + length found > kMaxExtents then (Inl (mkError kOutOfRange (length (tw_leaves walk))), pending, ?walk)
             else (Inr (length found), pending, ?walk\<lparr>tw_leaves := tw_leaves walk @ found\<rparr>))"
          using room True Inr \<open>parseExtentHeader node = Inr header\<close> by (simp add: walkNode_def takeLeaves_def Let_def)
        show ?thesis
        proof (cases "length (tw_leaves walk) + length found > kMaxExtents")
          case big: True
          then show ?thesis by (auto simp: walked within_bounds_def forest_Cons only Inr)
        next
          case False
          have "within_bounds blocks (pending @ [node]) walk leaves \<longleftrightarrow>
              (\<exists>others. leaves = found @ others \<and> within_bounds blocks pending (?walk\<lparr>tw_leaves := tw_leaves walk @ found\<rparr>) others)" for leaves
            by (fastforce simp: within_bounds_def forest_Cons only Inr)
          then show ?thesis using False room by (auto simp: walked)
        qed
      qed (use room True Inr only in \<open>auto simp: walkNode_def takeLeaves_def within_bounds_def forest_Cons\<close>)
    next
      case interior: False
      then have tree: "tree_leaves blocks node n ls \<longleftrightarrow> (\<exists>indices children m. parseExtentIndices node = Inr indices \<and>
          list_all2 (child_of blocks) indices children \<and> forest_leaves blocks (rev children) m ls \<and> n = Suc m)" for n ls
        using Inr by (auto elim!: tree_leavesE intro: tree_leaves_forest_leaves.interior)
      show ?thesis
      proof (cases "parseExtentIndices node")
        case (Inl e)
        then show ?thesis using room interior Inr
          by (auto simp: walkNode_def followIndices_def within_bounds_def forest_Cons tree)
      next
        case indices: (Inr indices)
        have walked: "walkNode blocks node (pending, walk) = enqueue blocks indices (pending, ?walk)"
          using room interior Inr indices by (simp add: walkNode_def followIndices_def)
        have unfolded: "forest_leaves blocks (node # rest) n ls \<longleftrightarrow>
            (\<exists>children m. list_all2 (child_of blocks) indices children \<and> n = Suc m \<and> forest_leaves blocks (rev children @ rest) m ls)" for rest n ls
          by (simp add: forest_Cons forest_append tree indices) (metis add_Suc)
        have bounds: "within_bounds blocks (pending @ [node]) walk leaves \<longleftrightarrow>
            (\<exists>children. list_all2 (child_of blocks) indices children \<and> within_bounds blocks (pending @ children) ?walk leaves)" for leaves
          by (fastforce simp: within_bounds_def unfolded)
        show ?thesis
        proof (cases "enqueue blocks indices (pending, ?walk)")
          case (fields result pending' walk')
          note queued = enqueue_spec [where blocks = blocks and indices = indices and pending = pending and walk = ?walk, unfolded fields]
          show ?thesis
          proof (cases result)
            case (Inl e)
            have "\<not> within_bounds blocks (pending @ [node]) walk leaves" for leaves
              using queued Inl bounds by (auto simp: within_bounds_def dest!: forest_nodes)
            then show ?thesis unfolding walked fields Inl by simp
          next
            case (Inr n)
            then obtain children where "pending' = pending @ children" "list_all2 (child_of blocks) indices children" "walk' = ?walk"
              using queued by auto
            moreover from this(2) have "within_bounds blocks (pending @ [node]) walk leaves \<longleftrightarrow> within_bounds blocks (pending @ children) ?walk leaves" for leaves
              using bounds children_unique by blast
            ultimately show ?thesis using room assms unfolding walked fields Inr by auto
          qed
        qed
      qed
    qed
  qed
qed

lemma drive_tree:
  assumes "tw_visited walk \<le> kMaxExtentNodes" and "length (tw_leaves walk) \<le> kMaxExtents"
  shows "\<exists>found walk'. driveWorklistFrom (walkNode blocks) pending walk cnt = Some (found, walk') \<and>
    (case found of
       Inl e \<Rightarrow> \<not> (\<exists>leaves. within_bounds blocks pending walk leaves)
     | Inr _ \<Rightarrow> \<exists>leaves. tw_leaves walk' = tw_leaves walk @ leaves \<and> (\<forall>others. within_bounds blocks pending walk others \<longleftrightarrow> others = leaves))"
  using assms
proof (induction "kMaxExtentNodes - tw_visited walk" arbitrary: pending walk cnt rule: less_induct)
  case less
  show ?case
  proof (cases "pending = []")
    case True
    then show ?thesis using less.prems by (subst driveWorklistFrom.simps) (auto simp: within_bounds_def)
  next
    case False
    obtain found pending' walk' where walked: "walkNode blocks (last pending) (butlast pending, walk) = (found, pending', walk')" by (metis prod_cases3)
    have step: "driveWorklistFrom (walkNode blocks) pending walk cnt =
        (case found of Inl e \<Rightarrow> Some (Inl e, walk') | Inr n \<Rightarrow> driveWorklistFrom (walkNode blocks) pending' walk' (wrap64 (cnt + n)))"
      using False by (subst driveWorklistFrom.simps) (simp add: takeBack_def walked)
    note node = walkNode_spec [OF less.prems, where blocks = blocks and node = "last pending" and pending = "butlast pending", unfolded walked append_butlast_last_id [OF False]]
    show ?thesis
    proof (cases found)
      case (Inl e)
      then show ?thesis using node by (simp add: step)
    next
      case (Inr n)
      then obtain gained where after: "tw_visited walk' = tw_visited walk + 1" "tw_visited walk' \<le> kMaxExtentNodes" "length (tw_leaves walk') \<le> kMaxExtents"
          and gained: "tw_leaves walk' = tw_leaves walk @ gained"
          and bounds: "\<And>leaves. within_bounds blocks pending walk leaves \<longleftrightarrow> (\<exists>others. leaves = gained @ others \<and> within_bounds blocks pending' walk' others)"
        using node by auto
      have "kMaxExtentNodes - tw_visited walk' < kMaxExtentNodes - tw_visited walk" using after(1,2) by simp
      from less.hyps [OF this after(2,3), of pending' "wrap64 (cnt + n)"] obtain result final where
          driven: "driveWorklistFrom (walkNode blocks) pending' walk' (wrap64 (cnt + n)) = Some (result, final)" and
          result: "case result of
       Inl e \<Rightarrow> \<not> (\<exists>leaves. within_bounds blocks pending' walk' leaves)
     | Inr _ \<Rightarrow> \<exists>leaves. tw_leaves final = tw_leaves walk' @ leaves \<and> (\<forall>others. within_bounds blocks pending' walk' others \<longleftrightarrow> others = leaves)"
        by blast
      show ?thesis using driven result gained by (cases result) (auto simp: step Inr bounds)
    qed
  qed
qed

lemma runTree_exact:
  "\<exists>found. runTree blocks root = Some found \<and>
    (\<forall>leaves. found = Inr leaves \<longleftrightarrow> (\<exists>n. tree_leaves blocks root n leaves \<and> n \<le> kMaxExtentNodes \<and> length leaves \<le> kMaxExtents))"
proof -
  let ?walk = "\<lparr>tw_leaves = [], tw_visited = 0\<rparr>"
  have bounds: "within_bounds blocks [root] ?walk leaves \<longleftrightarrow>
      (\<exists>n. tree_leaves blocks root n leaves \<and> n \<le> kMaxExtentNodes \<and> length leaves \<le> kMaxExtents)" for leaves
    by (auto simp: within_bounds_def forest_Cons)
  obtain found walk where drive: "driveWorklistFrom (walkNode blocks) [root] ?walk 0 = Some (found, walk)" and
      found: "case found of
       Inl e \<Rightarrow> \<not> (\<exists>leaves. within_bounds blocks [root] ?walk leaves)
     | Inr _ \<Rightarrow> \<exists>leaves. tw_leaves walk = tw_leaves ?walk @ leaves \<and> (\<forall>others. within_bounds blocks [root] ?walk others \<longleftrightarrow> others = leaves)"
    using drive_tree [of ?walk blocks "[root]" 0] by (auto simp: kMaxExtentNodes_def kMaxExtents_def)
  have "runTree blocks root = Some (mapResult found (\<lambda>_. tw_leaves walk))" by (simp add: runTree_def driveWorklist_def drive)
  then show ?thesis using found by (cases found) (auto simp: bounds)
qed

subsection \<open>What the leaves of a tree hold\<close>

definition leaf_ok :: "Ext4Extent \<Rightarrow> bool" where
  "leaf_ok l \<longleftrightarrow> ex_blockCount l \<le> 32768 \<and> ex_firstDeviceBlock l < 2 ^ 48"

text \<open>The leaves, in file order, follow one another from a block of the file on, were written and lie inside the volume.\<close>

fun tiles :: "Ext4Blocks \<Rightarrow> nat \<Rightarrow> Ext4Extent list \<Rightarrow> bool" where
  "tiles blocks at [] = True"
| "tiles blocks at (l # ls) \<longleftrightarrow>
     ex_firstFileBlock l = at \<and> ex_initialized l \<and> 0 < ex_blockCount l \<and>
     eg_firstDataBlock (eb_geometry blocks) \<le> ex_firstDeviceBlock l \<and>
     ex_firstDeviceBlock l + ex_blockCount l \<le> eg_totalBlocks (eb_geometry blocks) \<and> tiles blocks (at + ex_blockCount l) ls"

definition holds_blocks :: "bytes \<Rightarrow> Ext4Blocks \<Rightarrow> bool" where
  "holds_blocks content blocks \<longleftrightarrow>
     eg_totalBlocks (eb_geometry blocks) * eg_blockSizeBytes (eb_geometry blocks) \<le> length content \<and> length content \<le> max64 \<and>
     0 < eg_blockSizeBytes (eb_geometry blocks)"

definition leaf_bytes :: "bytes \<Rightarrow> Ext4Blocks \<Rightarrow> Ext4Extent \<Rightarrow> bytes" where
  "leaf_bytes content blocks l =
     take (ex_blockCount l * eg_blockSizeBytes (eb_geometry blocks)) (drop (ex_firstDeviceBlock l * eg_blockSizeBytes (eb_geometry blocks)) content)"

lemma leafOf_ok: "leaf_ok (leafOf reader)"
proof -
  have len: "slotFieldAt 2 reader kLengthOffset < 65536" and high: "slotFieldAt 2 reader kStartHighOffset < 65536"
    using slotFieldAt_less [of 2 reader] by simp_all
  have low: "slotFieldAt 4 reader kStartLowOffset < 2 ^ 32" using slotFieldAt_less [of 4 reader] by simp
  have "or (push_bit 32 (slotFieldAt 2 reader kStartHighOffset)) (slotFieldAt 4 reader kStartLowOffset) < 2 ^ 48"
    using or_add [OF low, of "slotFieldAt 2 reader kStartHighOffset"] high low by (simp add: push_bit_eq_mult mult.commute)
  then show ?thesis using len by (auto simp: leaf_ok_def leafOf_def Let_def kMaxInitializedLength_def)
qed

lemma tree_leaves_ok: "(tree_leaves blocks node n ls \<longrightarrow> list_all leaf_ok ls) \<and> (forest_leaves blocks nodes m ms \<longrightarrow> list_all leaf_ok ms)"
  by (rule tree_leaves_forest_leaves.induct)
     (auto simp: parseExtentLeaves_def mapResult_Inr_iff entriesOf_def list_all_iff leafOf_ok)

lemma usable_iff:
  "leaf_ok l \<Longrightarrow> usable blocks l \<longleftrightarrow>
   ex_initialized l \<and> 0 < ex_blockCount l \<and> eg_firstDataBlock (eb_geometry blocks) \<le> ex_firstDeviceBlock l \<and>
   ex_firstDeviceBlock l + ex_blockCount l \<le> eg_totalBlocks (eb_geometry blocks)"
proof -
  assume ok: "leaf_ok l"
  then have "wrap64 (ex_firstDeviceBlock l + ex_blockCount l) = ex_firstDeviceBlock l + ex_blockCount l"
    by (simp add: leaf_ok_def max64_def)
  then show ?thesis by (auto simp: usable_def Let_def isDataBlock_def wrap_sub64_def)
qed

lemma deviceRun_bytes:
  assumes "holds_blocks content blocks" and "0 < ex_blockCount l" and "ex_firstDeviceBlock l + ex_blockCount l \<le> eg_totalBlocks (eb_geometry blocks)"
  shows "extent_inside content (deviceRun blocks l)" and "0 < lengthBytes (deviceRun blocks l)"
    and "extent_bytes content (deviceRun blocks l) = leaf_bytes content blocks l"
    and "length (leaf_bytes content blocks l) = ex_blockCount l * eg_blockSizeBytes (eb_geometry blocks)"
proof -
  let ?bs = "eg_blockSizeBytes (eb_geometry blocks)"
  have "(ex_firstDeviceBlock l + ex_blockCount l) * ?bs \<le> eg_totalBlocks (eb_geometry blocks) * ?bs" using assms(3) by (rule mult_right_mono) simp
  then have fits: "ex_firstDeviceBlock l * ?bs + ex_blockCount l * ?bs \<le> length content"
    using assms(1) by (simp add: holds_blocks_def add_mult_distrib)
  then have exact: "wrap64 (ex_firstDeviceBlock l * ?bs) = ex_firstDeviceBlock l * ?bs" "wrap64 (ex_blockCount l * ?bs) = ex_blockCount l * ?bs"
    using assms(1) by (simp_all add: holds_blocks_def)
  show "extent_inside content (deviceRun blocks l)" "0 < lengthBytes (deviceRun blocks l)"
    "extent_bytes content (deviceRun blocks l) = leaf_bytes content blocks l"
    using fits exact assms(1,2) by (simp_all add: deviceRun_def blockOffset_def extent_inside_def extent_bytes_def leaf_bytes_def holds_blocks_def)
  show "length (leaf_bytes content blocks l) = ex_blockCount l * ?bs" using fits by (simp add: leaf_bytes_def)
qed

lemma mapLeavesFrom_tiles:
  assumes "holds_blocks content blocks" and "list_all leaf_ok ls" and "list_all (extent_inside content) es" and "\<forall>e \<in> set es. 0 < lengthBytes e"
    and "at + 32768 * length ls \<le> max32"
  shows "case mapLeavesFrom blocks \<lparr>mp_extents = es, mp_wanted = at\<rparr> ls of
      Inl _ \<Rightarrow> \<not> tiles blocks at ls
    | Inr out \<Rightarrow> tiles blocks at ls \<and> list_all (extent_inside content) out \<and> (\<forall>e \<in> set out. 0 < lengthBytes e) \<and>
        span_bytes content out = span_bytes content es @ concat (map (leaf_bytes content blocks) ls)"
  using assms(2-)
proof (induction ls arbitrary: es at)
  case (Cons l ls)
  have ok: "leaf_ok l" and small: "length content \<le> max64" using Cons.prems(1) assms(1) by (simp_all add: holds_blocks_def)
  show ?case
  proof (cases "ex_firstFileBlock l = at \<and> usable blocks l")
    case True
    then have l: "0 < ex_blockCount l" "ex_firstDeviceBlock l + ex_blockCount l \<le> eg_totalBlocks (eb_geometry blocks)" by (simp_all add: usable_iff [OF ok])
    note run = deviceRun_bytes [OF assms(1) l]
    let ?es = "Extents.appendExtent es (deviceRun blocks l)"
    note app = appendExtent_bytes [OF Cons.prems(2) run(1) small] appendExtent_positive [OF Cons.prems(3) run(2) Cons.prems(2) run(1) small]
    have le: "at + ex_blockCount l + 32768 * length ls \<le> max32" using Cons.prems(4) ok by (simp add: leaf_ok_def)
    then have "wrap32 (at + ex_blockCount l) = at + ex_blockCount l" by (simp add: wrap32_def max32_def)
    then have step: "mapLeavesFrom blocks \<lparr>mp_extents = es, mp_wanted = at\<rparr> (l # ls) = mapLeavesFrom blocks \<lparr>mp_extents = ?es, mp_wanted = at + ex_blockCount l\<rparr> ls"
      using True by (simp add: takeLeaf_def)
    have "list_all leaf_ok ls" using Cons.prems(1) by simp
    from Cons.IH [OF this app(2,3) le] show ?thesis unfolding step
      using True app(1) run(3) usable_iff [OF ok] by (auto split: sum.splits)
  next
    case False
    then show ?thesis by (auto simp: takeLeaf_def usable_iff [OF ok])
  qed
qed simp

text \<open>
  The code sorts the leaves with a sort that is not stable. Leaves that start at the same block of the
  file are refused in either order, with the same error, so any sort gives the result of the stable one.
\<close>

lemma doubled_leaf_refused:
  assumes "leaf_ok a" and "ex_firstFileBlock b = ex_firstFileBlock a"
  shows "mapLeavesFrom blocks mapping (a # b # ls) = Inl (mkError kInvalidArgument (ex_firstFileBlock a))"
proof (cases "takeLeaf blocks mapping a")
  case (Some mapping')
  then have wanted: "mp_wanted mapping' = wrap32 (ex_firstFileBlock a + ex_blockCount a)" and pos: "0 < ex_blockCount a"
    by (auto simp: takeLeaf_def usable_iff [OF assms(1)] split: if_splits)
  have "wrap32 (v + c) \<noteq> v" if "0 < c" "c \<le> 32768" for v c
  proof
    assume "wrap32 (v + c) = v"
    then have "(v + c) mod 2 ^ 32 = v mod 2 ^ 32" unfolding wrap32_def by (metis mod_mod_trivial)
    then have "2 ^ 32 dvd c" by (metis add.commute add_diff_cancel_right' mod_eq_dvd_iff_nat le_add2)
    then show False using that by (auto dest: dvd_imp_le)
  qed
  then have "mp_wanted mapping' \<noteq> ex_firstFileBlock b" using wanted pos assms by (simp add: leaf_ok_def)
  then have "takeLeaf blocks mapping' b = None" by (simp add: takeLeaf_def)
  then show ?thesis using Some assms(2) by simp
qed simp

lemma mapLeaves_any_sort:
  assumes "list_all leaf_ok leaves" and "mset ordered = mset leaves" and "sorted (map ex_firstFileBlock ordered)"
  shows "mapLeavesFrom blocks \<lparr>mp_extents = [], mp_wanted = 0\<rparr> ordered = mapLeaves blocks leaves"
proof -
  have "mapLeavesFrom blocks mapping xs = mapLeavesFrom blocks mapping ys"
    if "mset xs = mset ys" "sorted (map ex_firstFileBlock xs)" "sorted (map ex_firstFileBlock ys)" "list_all leaf_ok xs" "list_all leaf_ok ys" for mapping xs ys
    using that
  proof (induction xs arbitrary: mapping ys)
    case (Cons a xs)
    then obtain b ys' where ys: "ys = b # ys'" by (cases ys) auto
    show ?case
    proof (cases "a = b")
      case True
      then show ?thesis using Cons.prems Cons.IH [of ys'] by (auto simp: ys split: option.splits)
    next
      case False
      then have b: "b \<in> set xs" and a: "a \<in> set ys'" using Cons.prems(1) by (auto simp: ys add_eq_conv_ex set_mset_mset [symmetric] simp del: set_mset_mset)
      then have same: "ex_firstFileBlock a = ex_firstFileBlock b" using Cons.prems(2,3) by (auto simp: ys intro: antisym)
      obtain c xs' where xs: "xs = c # xs'" using b by (cases xs) auto
      obtain d zs where zs: "ys' = d # zs" using a by (cases ys') auto
      have "ex_firstFileBlock c = ex_firstFileBlock a" "ex_firstFileBlock d = ex_firstFileBlock b"
        using a b same Cons.prems(2,3) by (auto simp: ys xs zs)
      then show ?thesis using doubled_leaf_refused [of a c] doubled_leaf_refused [of b d] Cons.prems(4,5) same by (simp add: ys xs zs del: mapLeavesFrom.simps)
    qed
  qed simp
  from this [of ordered "sort_key ex_firstFileBlock leaves"] assms show ?thesis
    by (simp add: mapLeaves_def list_all_iff) (metis set_mset_mset)
qed

lemma treeExtents_exact:
  assumes "holds_blocks content blocks" and "0 < sizeBytes"
  shows "case treeExtents blocks root sizeBytes of
      Inl _ \<Rightarrow> \<not> (\<exists>n leaves. tree_leaves blocks root n leaves \<and> n \<le> kMaxExtentNodes \<and> length leaves \<le> kMaxExtents \<and>
          tiles blocks 0 (sort_key ex_firstFileBlock leaves) \<and>
          sizeBytes \<le> length (concat (map (leaf_bytes content blocks) (sort_key ex_firstFileBlock leaves))))
    | Inr extents \<Rightarrow> (\<exists>n leaves. tree_leaves blocks root n leaves \<and> n \<le> kMaxExtentNodes \<and> length leaves \<le> kMaxExtents \<and>
          tiles blocks 0 (sort_key ex_firstFileBlock leaves) \<and>
          sizeBytes \<le> length (concat (map (leaf_bytes content blocks) (sort_key ex_firstFileBlock leaves))) \<and>
          span_bytes content extents = take sizeBytes (concat (map (leaf_bytes content blocks) (sort_key ex_firstFileBlock leaves)))) \<and>
        list_all (extent_inside content) extents \<and> (\<forall>e \<in> set extents. 0 < lengthBytes e)"
proof -
  obtain found where run: "runTree blocks root = Some found" and
      found: "\<And>leaves. found = Inr leaves \<longleftrightarrow> (\<exists>n. tree_leaves blocks root n leaves \<and> n \<le> kMaxExtentNodes \<and> length leaves \<le> kMaxExtents)"
    using runTree_exact by blast
  show ?thesis
  proof (cases found)
    case (Inl e)
    then show ?thesis using found assms(2) by (auto simp: treeExtents_def run)
  next
    case (Inr leaves)
    then obtain n where tree: "tree_leaves blocks root n leaves" "n \<le> kMaxExtentNodes" "length leaves \<le> kMaxExtents" using found by blast
    have only: "ls = leaves" if "tree_leaves blocks root m ls" "m \<le> kMaxExtentNodes" "length ls \<le> kMaxExtents" for m ls
      using that found [of ls] Inr by auto
    let ?ls = "sort_key ex_firstFileBlock leaves"
    have ok: "list_all leaf_ok ?ls" using tree_leaves_ok tree(1) by (fastforce simp: list_all_iff)
    have len: "0 + 32768 * length ?ls \<le> max32" using tree(3) by (simp add: kMaxExtents_def max32_def)
    have mapped: "case mapLeaves blocks leaves of
        Inl _ \<Rightarrow> \<not> tiles blocks 0 ?ls
      | Inr out \<Rightarrow> tiles blocks 0 ?ls \<and> list_all (extent_inside content) out \<and> (\<forall>e \<in> set out. 0 < lengthBytes e) \<and>
          span_bytes content out = concat (map (leaf_bytes content blocks) ?ls)"
      using mapLeavesFrom_tiles [OF assms(1) ok, of "[]" 0] len by (auto simp: mapLeaves_def split: sum.splits)
    show ?thesis
    proof (cases "mapLeaves blocks leaves")
      case (Inl e)
      then have "\<not> tiles blocks 0 ?ls" using mapped by simp
      then show ?thesis using Inl Inr assms(2) only by (auto simp: treeExtents_def run)
    next
      case all: (Inr all)
      then have bytes: "tiles blocks 0 ?ls" "list_all (extent_inside content) all" "\<forall>e \<in> set all. 0 < lengthBytes e"
          "span_bytes content all = concat (map (leaf_bytes content blocks) ?ls)" using mapped by simp_all
      have total: "span_length all = length (concat (map (leaf_bytes content blocks) ?ls))" using length_span_bytes [OF bytes(2)] bytes(4) by simp
      have extents: "treeExtents blocks root sizeBytes = trimToSize all sizeBytes" using assms(2) by (simp add: treeExtents_def run Inr all)
      show ?thesis
      proof (cases "span_length all < sizeBytes")
        case True
        then have "treeExtents blocks root sizeBytes = Inl (mkError kInvalidArgument sizeBytes)" using extents bytes(3) by (simp add: trimToSize_eq)
        then show ?thesis using True only total by fastforce
      next
        case False
        then have "treeExtents blocks root sizeBytes = Inr (cut_span all sizeBytes)" using extents bytes(3) by (simp add: trimToSize_eq)
        then show ?thesis
          using False tree bytes total cut_span_bytes [OF bytes(2), of sizeBytes] cut_span_positive [OF bytes(3), of sizeBytes] by fastforce
      qed
    qed
  qed
qed

text \<open>
  C29: A file is read through its extent tree. The walk over the tree always ends, and it hands back extents
  exactly when the nodes read as a tree of at most 512 nodes and 65536 leaves whose leaves, put in file order,
  cover the file from its first block without a gap, were written, lie inside the volume and hold enough
  bytes; then the extents are non-empty, inside the volume, and hold the first bytes of those leaves in file order.
\<close>

theorem ext4_file_is_its_extent_tree:
  assumes "holds_blocks content blocks" and "0 < sizeBytes"
  shows "case treeExtents blocks root sizeBytes of
      Inl _ \<Rightarrow> \<not> (\<exists>n leaves. tree_leaves blocks root n leaves \<and> n \<le> kMaxExtentNodes \<and> length leaves \<le> kMaxExtents \<and>
          tiles blocks 0 (sort_key ex_firstFileBlock leaves) \<and>
          sizeBytes \<le> length (concat (map (leaf_bytes content blocks) (sort_key ex_firstFileBlock leaves))))
    | Inr extents \<Rightarrow> (\<exists>n leaves. tree_leaves blocks root n leaves \<and> n \<le> kMaxExtentNodes \<and> length leaves \<le> kMaxExtents \<and>
          tiles blocks 0 (sort_key ex_firstFileBlock leaves) \<and>
          sizeBytes \<le> length (concat (map (leaf_bytes content blocks) (sort_key ex_firstFileBlock leaves))) \<and>
          span_bytes content extents = take sizeBytes (concat (map (leaf_bytes content blocks) (sort_key ex_firstFileBlock leaves)))) \<and>
        list_all (extent_inside content) extents \<and> (\<forall>e \<in> set extents. 0 < lengthBytes e)"
  by (rule treeExtents_exact [OF assms])

definition sampleBlocks :: Ext4Blocks where
  "sampleBlocks =
     \<lparr>eb_device = \<lparr>bd_size = 6, bd_sectorSize = 1, bd_readAt = \<lambda>off n. Inr (take n (drop off [1, 2, 3, 4, 5, 6]))\<rparr>,
      eb_geometry = \<lparr>eg_blockSizeBytes = 2, eg_totalBlocks = 3, eg_totalInodes = 1, eg_blocksPerGroup = 8, eg_inodesPerGroup = 8,
        eg_inodeSizeBytes = 128, eg_descriptorSizeBytes = 32, eg_firstDataBlock = 0, eg_groupDescriptorBlock = 1, eg_groupCount = 1,
        eg_lastOrphanInode = 0, eg_usesExtents = True\<rparr>\<rparr>"

lemma upt_two: "[0..<2] = [0, 1 :: nat]"
  by (simp add: numeral_2_eq_2)

definition sampleNode :: bytes where
  "sampleNode = [0x0A, 0xF3, 2, 0, 4, 0, 0, 0, 0, 0, 0, 0] @ [1, 0, 0, 0, 1, 0, 0, 0, 0, 0, 0, 0] @ [0, 0, 0, 0, 1, 0, 0, 0, 2, 0, 0, 0]"

lemma sampleNode_leaves:
  "parseExtentHeader sampleNode = Inr \<lparr>en_entries = 2, en_max = 4, en_depth = 0\<rparr>"
  "parseExtentLeaves sampleNode = Inr [\<lparr>ex_firstFileBlock = 1, ex_blockCount = 1, ex_firstDeviceBlock = 0, ex_initialized = True\<rparr>,
     \<lparr>ex_firstFileBlock = 0, ex_blockCount = 1, ex_firstDeviceBlock = 2, ex_initialized = True\<rparr>]"
  by (simp_all add: sampleNode_def parseExtentLeaves_def nodeOfDepth_def parseExtentHeader_def slotReader_def headerOf_def checkedNode_def
      upt_two readLe_in_range entriesOf_def entryAt_def leafOf_def slotFieldAt_def kExtentHeaderBytes_def kExtentEntryBytes_def kMaxExtentDepth_def kMagic_def
      kMagicOffset_def kEntryCountOffset_def kMaxEntriesOffset_def kDepthOffset_def kFileBlockOffset_def kLengthOffset_def kStartHighOffset_def
      kStartLowOffset_def kMaxInitializedLength_def)

theorem ext4_file_is_its_extent_tree_witness:
  "\<exists>extents. treeExtents sampleBlocks sampleNode 3 = Inr extents \<and> span_bytes [1, 2, 3, 4, 5, 6] extents = [5, 6, 1]"
proof -
  define leaves where "leaves = [\<lparr>ex_firstFileBlock = 1, ex_blockCount = 1, ex_firstDeviceBlock = 0, ex_initialized = True\<rparr>,
     \<lparr>ex_firstFileBlock = 0, ex_blockCount = 1, ex_firstDeviceBlock = 2, ex_initialized = True\<rparr>]"
  let ?content = "[1, 2, 3, 4, 5, 6] :: bytes"
  have holds: "holds_blocks ?content sampleBlocks" by (simp add: holds_blocks_def sampleBlocks_def max64_def)
  note parsed = sampleNode_leaves [folded leaves_def]
  have tree: "tree_leaves sampleBlocks sampleNode 1 leaves"
    by (rule tree_leaves_forest_leaves.leaf [OF parsed(1) _ parsed(2)]) simp
  have only: "ls = leaves" if "tree_leaves sampleBlocks sampleNode n ls" for n ls
    using that parsed by (auto elim!: tree_leavesE)
  have bounds: "1 \<le> kMaxExtentNodes" "length leaves \<le> kMaxExtents" by (simp_all add: leaves_def kMaxExtentNodes_def kMaxExtents_def)
  have facts: "tiles sampleBlocks 0 (sort_key ex_firstFileBlock leaves)"
      "concat (map (leaf_bytes ?content sampleBlocks) (sort_key ex_firstFileBlock leaves)) = [5, 6, 1, 2]"
    by (simp_all add: sampleBlocks_def leaf_bytes_def leaves_def)
  note exact = ext4_file_is_its_extent_tree [OF holds, of 3 sampleNode]
  show ?thesis
  proof (cases "treeExtents sampleBlocks sampleNode 3")
    case (Inl e)
    then have "\<not> (3 \<le> length (concat (map (leaf_bytes ?content sampleBlocks) (sort_key ex_firstFileBlock leaves))))"
      using exact tree bounds facts(1) by (simp del: length_concat)
    then show ?thesis unfolding facts(2) by simp
  next
    case (Inr extents)
    then obtain n ls where "tree_leaves sampleBlocks sampleNode n ls"
        "span_bytes ?content extents = take 3 (concat (map (leaf_bytes ?content sampleBlocks) (sort_key ex_firstFileBlock ls)))"
      using exact by auto
    then have "span_bytes ?content extents = take 3 [5, 6, 1, 2]" using only facts(2) by metis
    then show ?thesis using Inr by simp
  qed
qed

end
