(* ===== verification/Ext4Journal.thy ===== *)
theory Ext4Journal
  imports Ext4Trees
begin

text \<open>
  The jbd2 journal as a source of hints (\<open>src/fs/ext4/JournalFormat.hpp\<close>, \<open>JournalSuperblock.cpp\<close>, \<open>JournalTags.cpp\<close>,
  \<open>Journal.cpp\<close> and \<open>JournalHint.cpp\<close>): its superblock, the tags of a descriptor block, the sweep
  that indexes every copy of a block the journal still holds, and the older copy of an inode whose tree a deletion wiped.
\<close>

subsection \<open>The journal superblock\<close>

definition kJournalHeaderBytes :: size_t where "kJournalHeaderBytes = 12"
definition kJournalMagic :: u32 where "kJournalMagic = 0xC03B3998"
definition kDescriptorBlockType :: u32 where "kDescriptorBlockType = 1"
definition kSuperblockV1Type :: u32 where "kSuperblockV1Type = 3"
definition kSuperblockV2Type :: u32 where "kSuperblockV2Type = 4"
definition kReadableBytes :: size_t where "kReadableBytes = 0x30"
definition kMagicOffset :: size_t where "kMagicOffset = 0x00"
definition kBlockTypeOffset :: size_t where "kBlockTypeOffset = 0x04"
definition kBlockSizeOffset :: size_t where "kBlockSizeOffset = 0x0C"
definition kMaxLengthOffset :: size_t where "kMaxLengthOffset = 0x10"
definition kFirstBlockOffset :: size_t where "kFirstBlockOffset = 0x14"
definition kIncompatOffset :: size_t where "kIncompatOffset = 0x28"
definition kIncompatRevoke :: u32 where "kIncompatRevoke = 0x1"
definition kIncompat64Bit :: u32 where "kIncompat64Bit = 0x2"
definition kIncompatAsyncCommit :: u32 where "kIncompatAsyncCommit = 0x4"
definition kIncompatCsumV2 :: u32 where "kIncompatCsumV2 = 0x8"
definition kIncompatCsumV3 :: u32 where "kIncompatCsumV3 = 0x10"
definition kKnownIncompat :: u32 where
  "kKnownIncompat = or kIncompatRevoke (or kIncompat64Bit (or kIncompatAsyncCommit (or kIncompatCsumV2 kIncompatCsumV3)))"
definition kNarrowTagBytes :: size_t where "kNarrowTagBytes = 8"
definition kWideTagBytes :: size_t where "kWideTagBytes = 12"
definition kChecksumV3TagBytes :: size_t where "kChecksumV3TagBytes = 16"

record JournalHead =
  jh_blockSizeBytes :: u32
  jh_maxBlocks :: u32
  jh_firstBlock :: u32
  jh_tagBytes :: size_t
  jh_hasBlockTail :: bool

record TaggedBlock =
  tb_fileSystemBlock :: u64
  tb_blocksAfterDescriptor :: u32

definition tagBytesFor :: "u32 \<Rightarrow> size_t" where
  "tagBytesFor features =
     (if and features kIncompatCsumV3 \<noteq> 0 then kChecksumV3TagBytes
      else if and features kIncompat64Bit \<noteq> 0 then kWideTagBytes else kNarrowTagBytes)"

definition checkedFeatures :: "bytes \<Rightarrow> u32 result" where
  "checkedFeatures reader =
     (let features = slotFieldBeAt 4 reader kIncompatOffset
      in if and features (xor max32 kKnownIncompat) \<noteq> 0 then Inl (mkError kInvalidArgument kIncompatOffset) else Inr features)"

definition namesJournalSuperblock :: "bytes \<Rightarrow> bool result" where
  "namesJournalSuperblock reader =
     (if slotFieldBeAt 4 reader kMagicOffset \<noteq> kJournalMagic then Inl (mkError kInvalidArgument kMagicOffset)
      else let kind = slotFieldBeAt 4 reader kBlockTypeOffset
           in if kind \<noteq> kSuperblockV1Type \<and> kind \<noteq> kSuperblockV2Type then Inl (mkError kInvalidArgument kBlockTypeOffset) else Inr True)"

definition headOf :: "bytes \<Rightarrow> u32 \<Rightarrow> JournalHead" where
  "headOf reader features =
     \<lparr>jh_blockSizeBytes = slotFieldBeAt 4 reader kBlockSizeOffset, jh_maxBlocks = slotFieldBeAt 4 reader kMaxLengthOffset,
      jh_firstBlock = slotFieldBeAt 4 reader kFirstBlockOffset, jh_tagBytes = tagBytesFor features,
      jh_hasBlockTail = (and features (or kIncompatCsumV2 kIncompatCsumV3) \<noteq> 0)\<rparr>"

definition parseJournalSuperblock :: "bytes \<Rightarrow> JournalHead result" where
  "parseJournalSuperblock block =
     andThen (slotReader block kReadableBytes)
       (\<lambda>reader. mapResult (andThen (namesJournalSuperblock reader) (\<lambda>_. checkedFeatures reader)) (headOf reader))"

subsection \<open>Descriptor tags\<close>

definition kBlockTailBytes :: size_t where "kBlockTailBytes = 4"
definition kTagUuidBytes :: size_t where "kTagUuidBytes = 16"
definition kSameUuidFlag :: u32 where "kSameUuidFlag = 0x2"
definition kLastTagFlag :: u32 where "kLastTagFlag = 0x8"

record TagFields =
  tf_block :: u64
  tf_flags :: u32

definition checksumV3Tag :: "bytes \<Rightarrow> TagFields" where
  "checksumV3Tag reader =
     (let high = slotFieldBeAt 4 reader 0x08
      in \<lparr>tf_block = or (push_bit 32 high) (slotFieldBeAt 4 reader 0x00), tf_flags = slotFieldBeAt 4 reader 0x04\<rparr>)"

definition classicTag :: "bytes \<Rightarrow> size_t \<Rightarrow> TagFields" where
  "classicTag reader tagBytes =
     (let high = if tagBytes > 0x08 then slotFieldBeAt 4 reader 0x08 else 0
      in \<lparr>tf_block = or (push_bit 32 high) (slotFieldBeAt 4 reader 0x00), tf_flags = slotFieldBeAt 2 reader 0x06\<rparr>)"

definition tagAt :: "bytes \<Rightarrow> size_t \<Rightarrow> TagFields" where
  "tagAt tag tagBytes = (if tagBytes = kChecksumV3TagBytes then checksumV3Tag tag else classicTag tag tagBytes)"

definition strideOf :: "TagFields \<Rightarrow> size_t \<Rightarrow> size_t" where
  "strideOf tag tagBytes = tagBytes + (if and (tf_flags tag) kSameUuidFlag \<noteq> 0 then 0 else kTagUuidBytes)"

definition tagLimit :: "bytes \<Rightarrow> JournalHead \<Rightarrow> size_t" where
  "tagLimit block head =
     (let tail = if jh_hasBlockTail head then kBlockTailBytes else 0
      in if length block > tail then length block - tail else 0)"

definition isDescriptor :: "bytes \<Rightarrow> bool result" where
  "isDescriptor block =
     (if slotFieldBeAt 4 block kMagicOffset \<noteq> kJournalMagic then Inl (mkError kInvalidArgument kMagicOffset)
      else if slotFieldBeAt 4 block kBlockTypeOffset \<noteq> kDescriptorBlockType then Inl (mkError kInvalidArgument kBlockTypeOffset)
      else Inr True)"

definition takeTag :: "TaggedBlock list \<Rightarrow> bytes \<Rightarrow> size_t \<Rightarrow> TaggedBlock list \<times> size_t" where
  "takeTag tags rest tagBytes =
     (let tag = tagAt (take tagBytes rest) tagBytes
      in (tags @ [\<lparr>tb_fileSystemBlock = tf_block tag, tb_blocksAfterDescriptor = wrap32 (length tags + 1)\<rparr>],
          if and (tf_flags tag) kLastTagFlag \<noteq> 0 then 0 else strideOf tag tagBytes))"

function readTagsFrom :: "bytes \<Rightarrow> size_t \<Rightarrow> size_t \<Rightarrow> size_t \<Rightarrow> size_t \<Rightarrow> TaggedBlock list \<Rightarrow> TaggedBlock list" where
  "readTagsFrom block tagBytes limit at stride tags =
     (if stride \<noteq> 0 \<and> at + tagBytes \<le> limit
      then case takeTag tags (drop at block) tagBytes of
             (tags', stride') \<Rightarrow> readTagsFrom block tagBytes limit (at + stride') stride' tags'
      else tags)"
  by pat_completeness auto
termination
  by (relation "measure (\<lambda>(block, tagBytes, limit, at, stride, tags). if stride = 0 then 0 else Suc (Suc limit - at))") auto

declare readTagsFrom.simps [simp del]

definition readTags :: "bytes \<Rightarrow> JournalHead \<Rightarrow> TaggedBlock list" where
  "readTags block head = readTagsFrom block (jh_tagBytes head) (tagLimit block head) kJournalHeaderBytes (jh_tagBytes head) []"

definition parseDescriptorTags :: "bytes \<Rightarrow> JournalHead \<Rightarrow> TaggedBlock list result" where
  "parseDescriptorTags block head =
     (if length block < kJournalHeaderBytes + jh_tagBytes head then Inl (mkError kOutOfRange (length block))
      else mapResult (isDescriptor block) (\<lambda>_. readTags block head))"

subsection \<open>The copies a journal holds\<close>

definition kMaxJournalBlocks :: u64 where "kMaxJournalBlocks = 8192"
definition kMaxJournalCopies :: size_t where "kMaxJournalCopies = 65536"

record JournalCopy =
  jc_fileSystemBlock :: u64
  jc_deviceOffset :: u64

type_synonym Journal = "JournalCopy list"

record JournalFile =
  jf_blocks :: Ext4Blocks
  jf_extents :: "Extent list"

definition journalBlockCount :: "JournalFile \<Rightarrow> u64" where
  "journalBlockCount jfile = extentBytesTotal (jf_extents jfile) div eg_blockSizeBytes (eb_geometry (jf_blocks jfile))"

definition journalOffsetOf :: "JournalFile \<Rightarrow> u64 \<Rightarrow> u64 result" where
  "journalOffsetOf jfile journalBlock =
     (let blockBytes = eg_blockSizeBytes (eb_geometry (jf_blocks jfile))
      in locateInExtents (jf_extents jfile) \<lparr>fr_offset = wrap64 (journalBlock * blockBytes), fr_length = blockBytes\<rparr>)"

definition readJournalBlock :: "JournalFile \<Rightarrow> u64 \<Rightarrow> bytes result" where
  "readJournalBlock jfile journalBlock =
     andThen (journalOffsetOf jfile journalBlock)
       (\<lambda>at. volumeRead (eb_device (jf_blocks jfile)) at (eg_blockSizeBytes (eb_geometry (jf_blocks jfile))))"

definition collectCopies :: "JournalCopy list \<Rightarrow> JournalFile \<Rightarrow> u64 \<Rightarrow> TaggedBlock list \<Rightarrow> JournalCopy list" where
  "collectCopies copies jfile descriptorBlock tags =
     foldl (\<lambda>sofar tag.
       case journalOffsetOf jfile (wrap64 (descriptorBlock + tb_blocksAfterDescriptor tag)) of
         Inl _ \<Rightarrow> sofar
       | Inr at \<Rightarrow> sofar @ [\<lparr>jc_fileSystemBlock = tb_fileSystemBlock tag, jc_deviceOffset = at\<rparr>]) copies tags"

definition takeBlock :: "JournalCopy list \<Rightarrow> JournalFile \<Rightarrow> u64 \<Rightarrow> JournalHead \<Rightarrow> JournalCopy list \<times> u64" where
  "takeBlock copies jfile at head =
     (case readJournalBlock jfile at of
        Inl _ \<Rightarrow> (copies, 1)
      | Inr block \<Rightarrow>
          (case parseDescriptorTags block head of
             Inl _ \<Rightarrow> (copies, 1)
           | Inr tags \<Rightarrow> if tags = [] then (copies, 1) else (collectCopies copies jfile at tags, length tags + 1)))"

function sweepFrom :: "JournalFile \<Rightarrow> JournalHead \<Rightarrow> u64 \<Rightarrow> u64 \<Rightarrow> JournalCopy list \<Rightarrow> JournalCopy list" where
  "sweepFrom jfile head final at copies =
     (if at < final \<and> length copies < kMaxJournalCopies
      then case takeBlock copies jfile at head of (copies', n) \<Rightarrow> sweepFrom jfile head final (at + n) copies'
      else copies)"
  by pat_completeness auto
termination
  by (relation "measure (\<lambda>(jfile, head, final, at, copies). final - at)")
     (auto simp: takeBlock_def split: sum.splits if_splits)

declare sweepFrom.simps [simp del]

definition sweep :: "JournalFile \<Rightarrow> JournalHead \<Rightarrow> JournalCopy list" where
  "sweep jfile head = sweepFrom jfile head (min (journalBlockCount jfile) kMaxJournalBlocks) (jh_firstBlock head) []"

definition journalFileExtents :: "Ext4Blocks \<Rightarrow> Extent list result" where
  "journalFileExtents blocks = andThen (readInode blocks kJournalInode) (inodeExtents blocks)"

definition describesVolume :: "JournalHead \<Rightarrow> Ext4Geometry \<Rightarrow> bool" where
  "describesVolume head geometry \<longleftrightarrow> jh_blockSizeBytes head = eg_blockSizeBytes geometry \<and> jh_firstBlock head > 0"

definition journalHeadOf :: "JournalFile \<Rightarrow> Ext4Geometry \<Rightarrow> JournalHead result" where
  "journalHeadOf jfile geometry =
     andThen (andThen (readJournalBlock jfile 0) parseJournalSuperblock)
       (\<lambda>head. if \<not> describesVolume head geometry then Inl (mkError kInvalidArgument (jh_blockSizeBytes head)) else Inr head)"

definition known :: "Journal \<Rightarrow> bool" where "known journal \<longleftrightarrow> journal \<noteq> []"

definition copiesOf :: "Journal \<Rightarrow> u64 \<Rightarrow> u64 list" where
  "copiesOf journal block = map jc_deviceOffset (filter (\<lambda>copy. jc_fileSystemBlock copy = block) journal)"

definition readJournal :: "Ext4Blocks \<Rightarrow> Journal" where
  "readJournal blocks =
     (case journalFileExtents blocks of
        Inl _ \<Rightarrow> []
      | Inr extents \<Rightarrow>
          let jfile = \<lparr>jf_blocks = blocks, jf_extents = extents\<rparr>
          in (case journalHeadOf jfile (eb_geometry blocks) of Inl _ \<Rightarrow> [] | Inr head \<Rightarrow> sweep jfile head))"

subsection \<open>The hint\<close>

record JournalSource =
  js_blocks :: Ext4Blocks
  js_journal :: Journal

record InodeSite =
  is_block :: u64
  is_withinBlock :: u64

definition siteOf :: "JournalSource \<Rightarrow> u32 \<Rightarrow> InodeSite result" where
  "siteOf source number =
     (let blockBytes = eg_blockSizeBytes (eb_geometry (js_blocks source))
      in mapResult (offsetOf (js_blocks source) number) (\<lambda>at. \<lparr>is_block = at div blockBytes, is_withinBlock = at mod blockBytes\<rparr>))"

definition inodeInCopy :: "JournalSource \<Rightarrow> u64 \<Rightarrow> u64 \<Rightarrow> Ext4Inode result" where
  "inodeInCopy source copyOffset withinBlock =
     andThen (volumeRead (eb_device (js_blocks source)) (wrap64 (copyOffset + withinBlock)) (eg_inodeSizeBytes (eb_geometry (js_blocks source))))
       parseExt4Inode"

definition hintFrom :: "JournalSource \<Rightarrow> Ext4Inode \<Rightarrow> u64 \<Rightarrow> Extent list result" where
  "hintFrom source inode sizeBytes =
     (if \<not> in_usesExtents inode then Inl (mkError kNotFound 0)
      else andThen (treeExtents (js_blocks source) (in_blockMap inode) sizeBytes)
             (\<lambda>extents. if extents = [] then Inl (mkError kNotFound 0) else Inr extents))"

fun firstUsableFrom :: "JournalSource \<Rightarrow> u64 list \<Rightarrow> u64 \<Rightarrow> u64 \<Rightarrow> Extent list result" where
  "firstUsableFrom source [] withinBlock sizeBytes = Inl (mkError kNotFound 0)"
| "firstUsableFrom source (copyOffset # copies) withinBlock sizeBytes =
     (case andThen (inodeInCopy source copyOffset withinBlock) (\<lambda>inode. hintFrom source inode sizeBytes) of
        Inr found \<Rightarrow> Inr found
      | Inl _ \<Rightarrow> firstUsableFrom source copies withinBlock sizeBytes)"

definition firstUsableCopy :: "JournalSource \<Rightarrow> InodeSite \<Rightarrow> u64 \<Rightarrow> Extent list result" where
  "firstUsableCopy source site sizeBytes =
     firstUsableFrom source (copiesOf (js_journal source) (is_block site)) (is_withinBlock site) sizeBytes"

definition journalExtents :: "JournalSource \<Rightarrow> u32 \<Rightarrow> u64 \<Rightarrow> Extent list result" where
  "journalExtents source number sizeBytes =
     (if \<not> known (js_journal source) \<or> sizeBytes = 0 then Inl (mkError kNotFound 0)
      else andThen (siteOf source number) (\<lambda>site. firstUsableCopy source site sizeBytes))"

subsection \<open>Descriptor blocks are read back\<close>

text \<open>
  A tag as the journal writes it: the block it announces, its checksum, and the UUID that follows it unless it shares the
  previous one's. The three widths are those of the three feature sets.
\<close>

record JournalTag =
  jt_block :: nat
  jt_check :: nat
  jt_uuid :: bytes

definition tag_flags :: "bool \<Rightarrow> JournalTag \<Rightarrow> nat" where
  "tag_flags final t = (if jt_uuid t = [] then 2 else 0) + (if final then 8 else 0)"

definition tag_bytes :: "nat \<Rightarrow> bool \<Rightarrow> JournalTag \<Rightarrow> bytes" where
  "tag_bytes width final t =
     (if width = 16
      then beBytes 4 (jt_block t mod 2 ^ 32) @ beBytes 4 (tag_flags final t) @ beBytes 4 (jt_block t div 2 ^ 32) @ beBytes 4 (jt_check t)
      else beBytes 4 (jt_block t mod 2 ^ 32) @ beBytes 2 (jt_check t) @ beBytes 2 (tag_flags final t) @
           (if width = 12 then beBytes 4 (jt_block t div 2 ^ 32) else []))"

fun tags_bytes :: "nat \<Rightarrow> JournalTag list \<Rightarrow> bytes" where
  "tags_bytes width [] = []"
| "tags_bytes width (t # ts) = tag_bytes width (ts = []) t @ jt_uuid t @ tags_bytes width ts"

definition tag_ok :: "nat \<Rightarrow> JournalTag \<Rightarrow> bool" where
  "tag_ok width t \<longleftrightarrow> jt_block t < (if width = 8 then 2 ^ 32 else 2 ^ 64) \<and> (jt_uuid t = [] \<or> length (jt_uuid t) = 16)"

definition announced :: "nat \<Rightarrow> JournalTag list \<Rightarrow> TaggedBlock list" where
  "announced from' ts = map (\<lambda>(i, t). \<lparr>tb_fileSystemBlock = jt_block t, tb_blocksAfterDescriptor = wrap32 (i + 1)\<rparr>) (enumerate from' ts)"

lemma slotFieldBeAt_at:
  "slotFieldBeAt w (pre @ beBytes w v @ post) off = v" if "length pre = off" "v < 256 ^ w"
  using that by (simp add: slotFieldBeAt_def)

lemma length_tag_bytes: "width \<in> {8, 12, 16} \<Longrightarrow> length (tag_bytes width final t) = width"
  by (auto simp: tag_bytes_def)

lemma tagAt_tag_bytes:
  assumes "width \<in> {8, 12, 16}" and "tag_ok width t"
  shows "tagAt (tag_bytes width final t) width = \<lparr>tf_block = jt_block t, tf_flags = tag_flags final t\<rparr>"
proof -
  let ?low = "jt_block t mod 2 ^ 32" and ?high = "jt_block t div 2 ^ 32" and ?flags = "tag_flags final t"
  have "jt_block t < 2 ^ 64" using assms(2) by (auto simp: tag_ok_def split: if_splits)
  then have small: "?low < 256 ^ 4" "?high < 256 ^ 4" "?flags < 256 ^ 4" "?flags < 256 ^ 2"
    by (simp_all add: tag_flags_def less_mult_imp_div_less)
  have join: "or (push_bit 32 ?high) ?low = jt_block t"
  proof -
    have "or (push_bit 32 ?high) ?low = 2 ^ 32 * ?high + ?low"
      using or_add [of ?low 32 ?high] by (simp add: push_bit_eq_mult mult.commute)
    then show ?thesis by (simp only: mult_div_mod_eq)
  qed
  have narrow: "jt_block t < 2 ^ 32 \<Longrightarrow> ?low = jt_block t" by simp
  consider "width = 16" | "width = 12" | "width = 8" using assms(1) by auto
  then show ?thesis
  proof cases
    case 1
    have "slotFieldBeAt 4 (tag_bytes width final t) 0 = ?low" "slotFieldBeAt 4 (tag_bytes width final t) 4 = ?flags"
      "slotFieldBeAt 4 (tag_bytes width final t) 8 = ?high"
      using small slotFieldBeAt_at [of "[]" 0 ?low 4] slotFieldBeAt_at [of "beBytes 4 ?low" 4 ?flags 4] slotFieldBeAt_at [of "beBytes 4 ?low @ beBytes 4 ?flags" 8 ?high 4]
      by (simp_all add: tag_bytes_def 1)
    then show ?thesis using join by (simp add: tagAt_def checksumV3Tag_def kChecksumV3TagBytes_def 1)
  next
    case 2
    have "slotFieldBeAt 4 (tag_bytes width final t) 0 = ?low" "slotFieldBeAt 2 (tag_bytes width final t) 6 = ?flags"
      "slotFieldBeAt 4 (tag_bytes width final t) 8 = ?high"
      using small slotFieldBeAt_at [of "[]" 0 ?low 4] slotFieldBeAt_at [of "beBytes 4 ?low @ beBytes 2 (jt_check t)" 6 ?flags 2]
        slotFieldBeAt_at [of "beBytes 4 ?low @ beBytes 2 (jt_check t) @ beBytes 2 ?flags" 8 ?high 4 "[]"]
      by (simp_all add: tag_bytes_def 2)
    then show ?thesis using join by (simp add: tagAt_def classicTag_def kChecksumV3TagBytes_def 2)
  next
    case 3
    have "slotFieldBeAt 4 (tag_bytes width final t) 0 = ?low" "slotFieldBeAt 2 (tag_bytes width final t) 6 = ?flags"
      using small slotFieldBeAt_at [of "[]" 0 ?low 4] slotFieldBeAt_at [of "beBytes 4 ?low @ beBytes 2 (jt_check t)" 6 ?flags 2 "[]"]
      by (simp_all add: tag_bytes_def 3)
    then show ?thesis using assms(2) narrow by (simp add: tagAt_def classicTag_def kChecksumV3TagBytes_def 3 tag_ok_def)
  qed
qed

lemma tag_flag_bits: "and (tag_flags final t) 2 \<noteq> 0 \<longleftrightarrow> jt_uuid t = []" "and (tag_flags final t) 8 \<noteq> 0 \<longleftrightarrow> final"
  by (simp_all add: tag_flags_def)

lemma readTagsFrom_tags:
  assumes "width \<in> {8, 12, 16}" and "list_all (tag_ok width) ts" and "ts \<noteq> []" and "stride \<noteq> 0"
    and "length pre + length (tags_bytes width ts) \<le> limit"
  shows "readTagsFrom (pre @ tags_bytes width ts @ post) width limit (length pre) stride sofar = sofar @ announced (length sofar) ts"
  using assms(2-)
proof (induction ts arbitrary: pre stride sofar)
  case (Cons t ts)
  let ?tag = "tag_bytes width (ts = []) t" and ?entry = "\<lparr>tb_fileSystemBlock = jt_block t, tb_blocksAfterDescriptor = wrap32 (length sofar + 1)\<rparr>"
  have len: "length ?tag = width" using assms(1) by (rule length_tag_bytes)
  have tag: "tagAt ?tag width = \<lparr>tf_block = jt_block t, tf_flags = tag_flags (ts = []) t\<rparr>" using Cons.prems(1) assms(1) by (intro tagAt_tag_bytes) simp_all
  define whole where "whole = pre @ tags_bytes width (t # ts) @ post"
  have taken: "takeTag sofar (drop (length pre) whole) width =
      (sofar @ [?entry], if ts = [] then 0 else width + length (jt_uuid t))"
    using len tag tag_flag_bits [of "ts = []" t] Cons.prems(1)
    by (auto simp: whole_def takeTag_def strideOf_def kLastTagFlag_def kSameUuidFlag_def kTagUuidBytes_def tag_ok_def)
  have more: "length pre + width \<le> limit" using Cons.prems(4) len by simp
  have first: "announced (length sofar) (t # ts) = ?entry # announced (length (sofar @ [?entry])) ts" by (simp add: announced_def)
  show ?case
  proof (cases "ts = []")
    case True
    have "readTagsFrom whole width limit (length pre) stride sofar = readTagsFrom whole width limit (length pre) 0 (sofar @ [?entry])"
      using more Cons.prems(3) True by (subst readTagsFrom.simps) (simp add: taken)
    also have "\<dots> = sofar @ [?entry]" by (subst readTagsFrom.simps) simp
    finally show ?thesis unfolding first using True by (simp add: announced_def whole_def)
  next
    case False
    let ?pre = "pre @ ?tag @ jt_uuid t"
    have "readTagsFrom whole width limit (length pre) stride sofar = readTagsFrom whole width limit (length pre + (width + length (jt_uuid t))) (width + length (jt_uuid t)) (sofar @ [?entry])"
      using more Cons.prems(3) False by (subst readTagsFrom.simps) (simp add: taken)
    also have "\<dots> = readTagsFrom (?pre @ tags_bytes width ts @ post) width limit (length ?pre) (width + length (jt_uuid t)) (sofar @ [?entry])"
      using len by (simp add: whole_def)
    also have "\<dots> = (sofar @ [?entry]) @ announced (length (sofar @ [?entry])) ts"
      using Cons.prems(1,4) False assms(1) len by (intro Cons.IH) auto
    finally show ?thesis unfolding first whole_def by simp
  qed
qed simp

definition descriptor_block :: "nat \<Rightarrow> nat \<Rightarrow> JournalTag list \<Rightarrow> bytes \<Rightarrow> bytes" where
  "descriptor_block sequence width ts tail = beBytes 4 kJournalMagic @ beBytes 4 1 @ beBytes 4 sequence @ tags_bytes width ts @ tail"

text \<open>
  C31: A journal descriptor block is read back as it was written, in each of the three tag shapes: the blocks it announces come out complete, in
  order, each numbered by how far its copy follows the descriptor; a UUID between tags, the checksum tail and whatever else
  follows the last tag are not taken for tags.
\<close>

theorem descriptor_tags_round_trip:
  assumes "jh_tagBytes head \<in> {8, 12, 16}" and "list_all (tag_ok (jh_tagBytes head)) ts" and "ts \<noteq> []"
    and "(if jh_hasBlockTail head then 4 else 0) \<le> length tail"
  shows "parseDescriptorTags (descriptor_block sequence (jh_tagBytes head) ts tail) head = Inr (announced 0 ts)"
proof -
  let ?w = "jh_tagBytes head"
  let ?pre = "beBytes 4 kJournalMagic @ beBytes 4 1 @ beBytes 4 sequence"
  let ?block = "descriptor_block sequence ?w ts tail"
  have block: "?block = ?pre @ tags_bytes ?w ts @ tail" by (simp add: descriptor_block_def)
  have long: "?w \<le> length (tags_bytes ?w ts)" using assms(1,3) by (cases ts) (simp_all add: length_tag_bytes)
  have "slotFieldBeAt 4 ?block 0 = kJournalMagic" "slotFieldBeAt 4 ?block 4 = 1"
    using slotFieldBeAt_at [of "[]" 0 kJournalMagic 4] slotFieldBeAt_at [of "beBytes 4 kJournalMagic" 4 1 4]
    by (simp_all add: descriptor_block_def kJournalMagic_def)
  then have named: "isDescriptor ?block = Inr True" by (simp add: isDescriptor_def kMagicOffset_def kBlockTypeOffset_def kDescriptorBlockType_def)
  have limit: "length ?pre + length (tags_bytes ?w ts) \<le> tagLimit ?block head"
    using assms(4) long assms(1) by (auto simp: tagLimit_def block kBlockTailBytes_def Let_def)
  have "readTags ?block head = announced 0 ts"
    unfolding readTags_def block using readTagsFrom_tags [OF assms(1,2,3) _ limit [unfolded block], of ?w tail "[]"] assms(1)
    by (auto simp: kJournalHeaderBytes_def)
  moreover have "12 + ?w \<le> length ?block" using long by (simp add: block)
  ultimately show ?thesis by (simp add: parseDescriptorTags_def named kJournalHeaderBytes_def)
qed

theorem descriptor_tags_round_trip_witness:
  "parseDescriptorTags
     (descriptor_block 7 12 [\<lparr>jt_block = 2 ^ 33 + 5, jt_check = 0, jt_uuid = replicate 16 9\<rparr>, \<lparr>jt_block = 6, jt_check = 0, jt_uuid = []\<rparr>] [0, 0, 0, 0])
     \<lparr>jh_blockSizeBytes = 64, jh_maxBlocks = 10, jh_firstBlock = 1, jh_tagBytes = 12, jh_hasBlockTail = True\<rparr> =
   Inr [\<lparr>tb_fileSystemBlock = 2 ^ 33 + 5, tb_blocksAfterDescriptor = 1\<rparr>, \<lparr>tb_fileSystemBlock = 6, tb_blocksAfterDescriptor = 2\<rparr>]"
  using descriptor_tags_round_trip [where head = "\<lparr>jh_blockSizeBytes = 64, jh_maxBlocks = 10, jh_firstBlock = 1, jh_tagBytes = 12, jh_hasBlockTail = True\<rparr>"
      and ts = "[\<lparr>jt_block = 2 ^ 33 + 5, jt_check = 0, jt_uuid = replicate 16 9\<rparr>, \<lparr>jt_block = 6, jt_check = 0, jt_uuid = []\<rparr>]"
      and tail = "[0, 0, 0, 0]" and sequence = 7]
  by (simp add: tag_ok_def announced_def wrap32_def)

end
