(* ===== verification/Ext4Volumes.thy ===== *)
theory Ext4Volumes
  imports Ext4Journal
begin

text \<open>
  ext4 directories and volumes (\<open>src/fs/ext4/\<close>): linear directory entries (\<open>DirectoryEntry.cpp\<close>), the deleted ones left in
  the holes of live records (\<open>DirectoryHole.cpp\<close>), entries built from a name and its inode
  (\<open>WalkCursor.cpp\<close>, \<open>EntryFromInode.cpp\<close>), the orphan list (\<open>OrphanList.cpp\<close>, \<open>OrphanPass.cpp\<close>), the walk over
  the tree (\<open>DirectoryBytes.cpp\<close>, \<open>DirectoryWalk.cpp\<close>) and mounting (\<open>Ext4FileSystem.cpp\<close>). The visitor is the list of
  entries reported so far; of a live record and its hole the live entry is taken first.
\<close>

subsection \<open>Directory entries\<close>

definition kDirEntryHeaderBytes :: size_t where "kDirEntryHeaderBytes = 8"
definition kInodeOffset :: size_t where "kInodeOffset = 0x00"
definition kRecordLengthOffset :: size_t where "kRecordLengthOffset = 0x04"
definition kNameLengthOffset :: size_t where "kNameLengthOffset = 0x06"
definition kFileTypeOffset :: size_t where "kFileTypeOffset = 0x07"
definition kRecordAlignment :: u16 where "kRecordAlignment = 4"
definition kRegularFileCode :: u8 where "kRegularFileCode = 1"
definition kDirectoryCode :: u8 where "kDirectoryCode = 2"

datatype Ext4FileType = kUnknown | kRegularFile | kDirectory | kOther

record Ext4DirEntry =
  de_inode :: u32
  de_recordBytes :: u16
  de_type :: Ext4FileType
  de_nameBytes :: bytes

definition typeOfCode :: "u8 \<Rightarrow> Ext4FileType" where
  "typeOfCode code =
     (if code = kRegularFileCode then kRegularFile
      else if code = kDirectoryCode then kDirectory
      else if code = 0 then kUnknown else kOther)"

definition checkedRecordLength :: "bytes \<Rightarrow> size_t \<Rightarrow> u16 result" where
  "checkedRecordLength reader available =
     (let len = slotFieldAt 2 reader kRecordLengthOffset;
          usable = len \<ge> kDirEntryHeaderBytes \<and> len mod kRecordAlignment = 0 \<and> len \<le> available
      in if \<not> usable then Inl (mkError kInvalidArgument kRecordLengthOffset) else Inr len)"

definition checkedNameLength :: "bytes \<Rightarrow> u16 \<Rightarrow> u8 result" where
  "checkedNameLength reader record' =
     (let len = slotByteAt reader kNameLengthOffset
      in if kDirEntryHeaderBytes + len > record' then Inl (mkError kInvalidArgument kNameLengthOffset) else Inr len)"

definition nameOf :: "bytes \<Rightarrow> u8 \<Rightarrow> bytes" where
  "nameOf raw len = take len (drop kDirEntryHeaderBytes raw)"

definition dirEntryOf :: "bytes \<Rightarrow> bytes \<Rightarrow> u16 \<Rightarrow> Ext4DirEntry result" where
  "dirEntryOf reader raw record' =
     mapResult (checkedNameLength reader record')
       (\<lambda>nameLength. \<lparr>de_inode = slotFieldAt 4 reader kInodeOffset, de_recordBytes = record',
          de_type = typeOfCode (slotByteAt reader kFileTypeOffset), de_nameBytes = nameOf raw nameLength\<rparr>)"

definition parseExt4DirEntry :: "bytes \<Rightarrow> Ext4DirEntry result" where
  "parseExt4DirEntry raw =
     andThen (slotReader raw kDirEntryHeaderBytes)
       (\<lambda>reader. andThen (checkedRecordLength reader (length raw)) (dirEntryOf reader raw))"

subsection \<open>Holes\<close>

definition kAlignment :: size_t where "kAlignment = 4"

record HoleEntry =
  he_inode :: u32
  he_nameBytes :: bytes

record HoleBounds =
  hb_liveBytes :: size_t
  hb_inodeCount :: u32

definition alignUp :: "size_t \<Rightarrow> size_t" where
  "alignUp val = (val + kAlignment - 1) div kAlignment * kAlignment"

definition plausibleName :: "bytes \<Rightarrow> bool" where
  "plausibleName name \<longleftrightarrow> name \<noteq> [] \<and> list_all (\<lambda>raw. \<not> (raw = 0 \<or> raw = 0x2F)) name"

definition plausible :: "Ext4DirEntry \<Rightarrow> u32 \<Rightarrow> bool" where
  "plausible entry inodes \<longleftrightarrow> de_inode entry \<noteq> 0 \<and> de_inode entry \<le> inodes \<and> plausibleName (de_nameBytes entry)"

definition liveEntryBytes :: "size_t \<Rightarrow> size_t" where
  "liveEntryBytes nameLength = alignUp (kDirEntryHeaderBytes + nameLength)"

definition takeCandidate :: "HoleEntry list \<Rightarrow> bytes \<Rightarrow> u32 \<Rightarrow> HoleEntry list \<times> size_t" where
  "takeCandidate found rest inodes =
     (case parseExt4DirEntry rest of
        Inl _ \<Rightarrow> (found, kAlignment)
      | Inr entry \<Rightarrow>
          if \<not> plausible entry inodes then (found, kAlignment)
          else (found @ [\<lparr>he_inode = de_inode entry, he_nameBytes = de_nameBytes entry\<rparr>], liveEntryBytes (length (de_nameBytes entry))))"

lemma liveEntryBytes_positive: "0 < liveEntryBytes n"
  by (simp add: liveEntryBytes_def alignUp_def kAlignment_def kDirEntryHeaderBytes_def div_greater_zero_iff)

lemma takeCandidate_advances: "takeCandidate found rest inodes = (found', n) \<Longrightarrow> 0 < n"
  using liveEntryBytes_positive by (auto simp: takeCandidate_def kAlignment_def split: sum.splits if_splits)

function deletedEntriesFrom :: "bytes \<Rightarrow> u32 \<Rightarrow> size_t \<Rightarrow> HoleEntry list \<Rightarrow> HoleEntry list" where
  "deletedEntriesFrom record' inodes at found =
     (if at + kDirEntryHeaderBytes \<le> length record'
      then case takeCandidate found (drop at record') inodes of (found', n) \<Rightarrow> deletedEntriesFrom record' inodes (at + n) found'
      else found)"
  by pat_completeness auto
termination
  by (relation "measure (\<lambda>(record', inodes, at, found). length record' - at)")
     (auto simp: kDirEntryHeaderBytes_def dest!: takeCandidate_advances [OF sym])

declare deletedEntriesFrom.simps [simp del]

definition deletedEntriesIn :: "bytes \<Rightarrow> HoleBounds \<Rightarrow> HoleEntry list" where
  "deletedEntriesIn record' bounds = deletedEntriesFrom record' (hb_inodeCount bounds) (alignUp (hb_liveBytes bounds)) []"

subsection \<open>Names and entries\<close>

record EntrySource =
  so_blocks :: Ext4Blocks
  so_journal :: Journal

record FoundName =
  fn_path :: string
  fn_inodeNumber :: u32
  fn_state :: EntryState
  fn_nameIsExact :: bool

record Cursor =
  cu_path :: string
  cu_inode :: u32
  cu_depth :: nat

record RecordStep =
  rs_bytes :: size_t
  rs_reported :: u64

definition isSelfOrParent :: "bytes \<Rightarrow> bool" where
  "isSelfOrParent name \<longleftrightarrow> name \<noteq> [] \<and> length name \<le> 2 \<and> list_all (\<lambda>raw. raw = 0x2E) name"

definition foundName :: "Cursor \<Rightarrow> bytes \<Rightarrow> u32 \<Rightarrow> EntryState \<Rightarrow> FoundName" where
  "foundName cursor raw number state =
     (let decoded = decodeRawName raw
      in \<lparr>fn_path = joinedPath (cu_path cursor) (map char_of_byte (dn_utf8 decoded)), fn_inodeNumber = number, fn_state = state,
          fn_nameIsExact = dn_lossless decoded\<rparr>)"

definition orphanName :: "u32 \<Rightarrow> FoundName" where
  "orphanName number =
     \<lparr>fn_path = ''#'' @ dec number, fn_inodeNumber = number, fn_state = kOrphaned, fn_nameIsExact = False\<rparr>"

definition reused :: "FoundName \<Rightarrow> Ext4Inode \<Rightarrow> bool" where
  "reused found inode \<longleftrightarrow> fn_state found \<noteq> kLive \<and> \<not> in_isDeleted inode"

definition fromJournal :: "EntrySource \<Rightarrow> FoundName \<Rightarrow> u64 \<Rightarrow> Extent list" where
  "fromJournal source found sizeBytes =
     (case journalExtents \<lparr>js_blocks = so_blocks source, js_journal = so_journal source\<rparr> (fn_inodeNumber found) sizeBytes of
        Inl _ \<Rightarrow> [] | Inr recovered \<Rightarrow> recovered)"

definition locate :: "EntrySource \<Rightarrow> FoundName \<Rightarrow> Ext4Inode \<Rightarrow> Extent list" where
  "locate source found inode =
     (if in_sizeInBytes inode = 0 \<or> reused found inode then []
      else case inodeExtents (so_blocks source) inode of
             Inr own \<Rightarrow> own
           | Inl _ \<Rightarrow> fromJournal source found (in_sizeInBytes inode))"

definition gradeOf :: "FoundName \<Rightarrow> Ext4Inode \<Rightarrow> Extent list \<Rightarrow> Confidence" where
  "gradeOf found inode extents =
     (let located = extents \<noteq> [] \<or> in_sizeInBytes inode = 0
      in if fn_state found = kLive \<and> fn_nameIsExact found \<and> located then kValid else kUncertain)"

definition entryOf :: "EntrySource \<Rightarrow> FoundName \<Rightarrow> Ext4Inode \<Rightarrow> RecoveredEntry" where
  "entryOf source found inode =
     (let extents = locate source found inode
      in \<lparr>re_path = fn_path found, re_sizeInBytes = in_sizeInBytes inode, re_extents = extents, re_residentContent = [],
          re_timestamps = in_timestamps inode, re_state = fn_state found, re_recoverability = gradeOf found inode extents\<rparr>)"

subsection \<open>Orphans\<close>

definition kMaxOrphans :: size_t where "kMaxOrphans = 4096"

record OrphanPassResult =
  op_scanned :: u64
  op_reported :: u64

definition nextOrphan :: "Ext4Blocks \<Rightarrow> u32 \<Rightarrow> u32" where
  "nextOrphan inodes number =
     (case readInode inodes number of Inl _ \<Rightarrow> 0 | Inr inode \<Rightarrow> if in_isUnused inode then 0 else in_deletionTime inode)"

definition alreadySeen :: "u32 list \<Rightarrow> u32 \<Rightarrow> bool" where
  "alreadySeen found number \<longleftrightarrow> number \<in> set found"

function orphansFrom :: "Ext4Blocks \<Rightarrow> u32 list \<Rightarrow> u32 \<Rightarrow> u32 list" where
  "orphansFrom inodes found number =
     (if number \<noteq> 0 \<and> length found < kMaxOrphans \<and> \<not> alreadySeen found number
      then if \<not> hasValue (offsetOf inodes number) then found
           else orphansFrom inodes (found @ [number]) (nextOrphan inodes number)
      else found)"
  by pat_completeness auto
termination
  by (relation "measure (\<lambda>(inodes, found, number). kMaxOrphans - length found)") auto

declare orphansFrom.simps [simp del]

definition orphanInodes :: "Ext4Blocks \<Rightarrow> u32 \<Rightarrow> u32 list" where
  "orphanInodes inodes head = orphansFrom inodes [] head"

definition usableOrphan :: "Ext4Inode result \<Rightarrow> u32 \<Rightarrow> u32 list \<Rightarrow> bool" where
  "usableOrphan inode number alreadyReported =
     (case inode of
        Inl _ \<Rightarrow> False
      | Inr found \<Rightarrow> \<not> in_isUnused found \<and> \<not> in_isDirectory found \<and> number \<notin> set alreadyReported)"

definition reportOne :: "EntrySource \<Rightarrow> u32 \<Rightarrow> u32 list \<Rightarrow> RecoveredEntry list \<Rightarrow> u64 \<times> RecoveredEntry list" where
  "reportOne source number alreadyReported visitor =
     (case readInode (so_blocks source) number of
        Inl _ \<Rightarrow> (0, visitor)
      | Inr inode \<Rightarrow>
          if \<not> usableOrphan (Inr inode) number alreadyReported then (0, visitor)
          else (1, visitor @ [entryOf source (orphanName number) inode]))"

definition reportOrphans :: "EntrySource \<Rightarrow> RecoveredEntry list \<Rightarrow> u32 list \<Rightarrow> OrphanPassResult \<times> RecoveredEntry list" where
  "reportOrphans source visitor alreadyReported =
     foldl (\<lambda>(result, sofar) number.
         case reportOne source number alreadyReported sofar of
           (n, sofar') \<Rightarrow> (\<lparr>op_scanned = wrap64 (op_scanned result + 1), op_reported = wrap64 (op_reported result + n)\<rparr>, sofar'))
       (\<lparr>op_scanned = 0, op_reported = 0\<rparr>, visitor)
       (orphanInodes (so_blocks source) (eg_lastOrphanInode (eb_geometry (so_blocks source))))"

subsection \<open>The walk\<close>

definition kMaxDirectoryBytes :: size_t where "kMaxDirectoryBytes = 4194304"
definition kMaxDirectoryDepth :: nat where "kMaxDirectoryDepth = 64"

record Walk =
  wk_visited :: "u32 list"
  wk_reported :: "u32 list"
  wk_scanned :: u64
  wk_entries :: "RecoveredEntry list"

definition readDirectory :: "EntrySource \<Rightarrow> u32 \<Rightarrow> bytes result" where
  "readDirectory source number =
     andThen (readInode (so_blocks source) number)
       (\<lambda>inode. andThen (inodeExtents (so_blocks source) inode) (\<lambda>extents. readExtents (so_blocks source) extents kMaxDirectoryBytes))"

definition enqueue :: "Cursor \<Rightarrow> FoundName \<Rightarrow> Ext4Inode \<Rightarrow> Cursor list \<times> Walk \<Rightarrow> Cursor list \<times> Walk" where
  "enqueue cursor found inode = (\<lambda>(pending, walk).
     let walkable = cu_depth cursor < kMaxDirectoryDepth \<and> \<not> in_isDeleted inode \<and> fn_inodeNumber found \<notin> set (wk_visited walk)
     in if \<not> walkable then (pending, walk)
        else (pending @ [\<lparr>cu_path = fn_path found, cu_inode = fn_inodeNumber found, cu_depth = cu_depth cursor + 1\<rparr>],
              walk\<lparr>wk_visited := wk_visited walk @ [fn_inodeNumber found]\<rparr>))"

definition report :: "EntrySource \<Rightarrow> FoundName \<Rightarrow> Ext4Inode \<Rightarrow> Walk \<Rightarrow> Walk" where
  "report source found inode walk =
     (let noted = if in_isDeleted inode then walk\<lparr>wk_reported := wk_reported walk @ [fn_inodeNumber found]\<rparr> else walk
      in noted\<lparr>wk_entries := wk_entries noted @ [entryOf source found inode]\<rparr>)"

definition takeFound :: "EntrySource \<Rightarrow> Cursor \<Rightarrow> FoundName \<Rightarrow> Ext4Inode \<Rightarrow> Cursor list \<times> Walk \<Rightarrow> u64 \<times> Cursor list \<times> Walk" where
  "takeFound source cursor found inode = (\<lambda>(pending, walk).
     if in_isDirectory inode then (0, enqueue cursor found inode (pending, walk)) else (1, pending, report source found inode walk))"

definition visitLive :: "EntrySource \<Rightarrow> Cursor \<Rightarrow> Ext4DirEntry \<Rightarrow> Cursor list \<times> Walk \<Rightarrow> u64 \<times> Cursor list \<times> Walk" where
  "visitLive source cursor entry state =
     (if de_inode entry = 0 \<or> isSelfOrParent (de_nameBytes entry) then (0, state)
      else case readInode (so_blocks source) (de_inode entry) of
             Inl _ \<Rightarrow> (0, state)
           | Inr inode \<Rightarrow>
               if in_isUnused inode then (0, state)
               else takeFound source cursor (foundName cursor (de_nameBytes entry) (de_inode entry) kLive) inode state)"

definition visitDeleted :: "EntrySource \<Rightarrow> Cursor \<Rightarrow> HoleEntry \<Rightarrow> Cursor list \<times> Walk \<Rightarrow> u64 \<times> Cursor list \<times> Walk" where
  "visitDeleted source cursor hole = (\<lambda>(pending, walk).
     case readInode (so_blocks source) (he_inode hole) of
       Inl _ \<Rightarrow> (0, pending, walk)
     | Inr inode \<Rightarrow>
         if in_isUnused inode \<or> in_isDirectory inode then (0, pending, walk)
         else (1, pending, report source (foundName cursor (he_nameBytes hole) (he_inode hole) kDeleted) inode walk))"

definition visitHole :: "EntrySource \<Rightarrow> Cursor \<Rightarrow> bytes \<Rightarrow> Ext4DirEntry \<Rightarrow> Cursor list \<times> Walk \<Rightarrow> u64 \<times> Cursor list \<times> Walk" where
  "visitHole source cursor record' entry state =
     (let liveBytes = if de_inode entry = 0 then length record' else liveEntryBytes (length (de_nameBytes entry));
          bounds = \<lparr>hb_liveBytes = liveBytes, hb_inodeCount = eg_totalInodes (eb_geometry (so_blocks source))\<rparr>
      in foldl (\<lambda>(cnt, st) hole. case visitDeleted source cursor hole st of (n, st') \<Rightarrow> (wrap64 (cnt + n), st'))
           (0, state) (deletedEntriesIn record' bounds))"

definition visitRecord :: "EntrySource \<Rightarrow> Cursor \<Rightarrow> bytes \<Rightarrow> Cursor list \<times> Walk \<Rightarrow> RecordStep \<times> Cursor list \<times> Walk" where
  "visitRecord source cursor rest = (\<lambda>(pending, walk).
     case parseExt4DirEntry rest of
       Inl _ \<Rightarrow> (\<lparr>rs_bytes = 0, rs_reported = 0\<rparr>, pending, walk)
     | Inr entry \<Rightarrow>
         let scanned = walk\<lparr>wk_scanned := wrap64 (wk_scanned walk + 1)\<rparr>;
             record' = take (de_recordBytes entry) rest
         in case visitLive source cursor entry (pending, scanned) of
              (n, state) \<Rightarrow>
                (case visitHole source cursor record' entry state of
                   (m, state') \<Rightarrow> (\<lparr>rs_bytes = de_recordBytes entry, rs_reported = wrap64 (n + m)\<rparr>, state')))"

function walkBlockFrom :: "EntrySource \<Rightarrow> Cursor \<Rightarrow> bytes \<Rightarrow> size_t \<Rightarrow> u64 \<Rightarrow> Cursor list \<times> Walk \<Rightarrow> u64 \<times> Cursor list \<times> Walk" where
  "walkBlockFrom source cursor block at cnt state =
     (if at + kDirEntryHeaderBytes \<le> length block
      then case visitRecord source cursor (drop at block) state of
             (taken, state') \<Rightarrow>
               (if rs_bytes taken \<noteq> 0
                then walkBlockFrom source cursor block (at + rs_bytes taken) (wrap64 (cnt + rs_reported taken)) state'
                else (wrap64 (cnt + rs_reported taken), state'))
      else (cnt, state))"
  by pat_completeness auto
termination
  by (relation "measure (\<lambda>(source, cursor, block, at, cnt, state). length block - at)") (auto simp: kDirEntryHeaderBytes_def)

declare walkBlockFrom.simps [simp del]

definition walkBlock :: "EntrySource \<Rightarrow> Cursor \<Rightarrow> bytes \<Rightarrow> Cursor list \<times> Walk \<Rightarrow> u64 \<times> Cursor list \<times> Walk" where
  "walkBlock source cursor block state = walkBlockFrom source cursor block 0 0 state"

definition walkBlocks :: "EntrySource \<Rightarrow> Cursor \<Rightarrow> bytes \<Rightarrow> Cursor list \<times> Walk \<Rightarrow> u64 \<times> Cursor list \<times> Walk" where
  "walkBlocks source cursor raw = foldSlots raw (eg_blockSizeBytes (eb_geometry (so_blocks source))) (walkBlock source cursor)"

definition walkOne :: "EntrySource \<Rightarrow> Cursor \<Rightarrow> Cursor list \<times> Walk \<Rightarrow> u64 result \<times> Cursor list \<times> Walk" where
  "walkOne source cursor = walkOneDirectory (readDirectory source (cu_inode cursor)) (walkBlocks source cursor)"

definition statsOf :: "Walk \<Rightarrow> u64 \<Rightarrow> EnumerationStats" where
  "statsOf walk cnt = \<lparr>es_recordsScanned = wk_scanned walk, es_entriesReported = cnt, es_nonConformingVolume = False\<rparr>"

definition takeOrphans :: "EntrySource \<Rightarrow> Walk \<Rightarrow> u64 \<times> Walk" where
  "takeOrphans source walk =
     (case reportOrphans source (wk_entries walk) (wk_reported walk) of
        (pass, entries) \<Rightarrow> (op_reported pass, walk\<lparr>wk_scanned := wrap64 (wk_scanned walk + op_scanned pass), wk_entries := entries\<rparr>))"

definition walkVolume :: "EntrySource \<Rightarrow> (RecoveredEntry list \<times> EnumerationStats result) option" where
  "walkVolume source =
     (case driveWorklist (walkOne source) [\<lparr>cu_path = [], cu_inode = kRootInode, cu_depth = 0\<rparr>]
             \<lparr>wk_visited = [kRootInode], wk_reported = [], wk_scanned = 0, wk_entries = []\<rparr> of
        None \<Rightarrow> None
      | Some (Inl e, walk) \<Rightarrow> Some (wk_entries walk, Inl e)
      | Some (Inr cnt, walk) \<Rightarrow>
          (case takeOrphans source walk of (n, walk') \<Rightarrow> Some (wk_entries walk', Inr (statsOf walk' (wrap64 (cnt + n))))))"

subsection \<open>Mounting\<close>

definition recognize :: "bytes \<Rightarrow> Ext4Geometry result" where
  "recognize superblock =
     (if length superblock < kSuperblockBytes then Inl (mkError kNotFound 0)
      else if \<not> hasValue (namesExt4 (take kSuperblockBytes superblock)) then Inl (mkError kNotFound 0)
      else parseExt4Superblock superblock)"

definition ext4FileSystem :: "BlockDevice \<Rightarrow> Ext4Geometry \<Rightarrow> FileSystem" where
  "ext4FileSystem device geometry =
     (let blocks = \<lparr>eb_device = device, eb_geometry = geometry\<rparr>
      in \<lparr>fy_enumerate = the (walkVolume \<lparr>so_blocks = blocks, so_journal = readJournal blocks\<rparr>)\<rparr>)"

definition mountExt4 :: mount where
  "mountExt4 device =
     mapResult (andThen (readMountRegion device \<lparr>mr_offset = kSuperblockOffset, mr_length = kSuperblockBytes\<rparr>) recognize)
       (ext4FileSystem device)"

subsection \<open>Entries are exact\<close>

definition volume_bytes :: "Ext4Blocks \<Rightarrow> nat" where
  "volume_bytes blocks = eg_totalBlocks (eb_geometry blocks) * eg_blockSizeBytes (eb_geometry blocks)"

text \<open>Every byte of the volume has a 64-bit address. The superblock's own rules do not imply it.\<close>

definition addressable :: "Ext4Blocks \<Rightarrow> bool" where
  "addressable blocks \<longleftrightarrow> volume_bytes blocks \<le> max64 \<and> 0 < eg_blockSizeBytes (eb_geometry blocks)"

definition exact_in :: "Ext4Blocks \<Rightarrow> RecoveredEntry \<Rightarrow> bool" where
  "exact_in blocks entry \<longleftrightarrow> (if addressable blocks then entry_exact (volume_bytes blocks) entry else True)"

lemma treeExtents_located:
  assumes "addressable blocks" and "treeExtents blocks root sizeBytes = Inr extents"
  shows "list_all (\<lambda>x. 0 < lengthBytes x \<and> deviceOffset x + lengthBytes x \<le> volume_bytes blocks) extents \<and> span_length extents = sizeBytes"
proof (cases "sizeBytes = 0")
  case False
  let ?content = "replicate (volume_bytes blocks) 0 :: bytes"
  have "holds_blocks ?content blocks" using assms(1) by (simp add: holds_blocks_def addressable_def volume_bytes_def)
  from treeExtents_exact [OF this, of sizeBytes root] False assms(2) obtain bytes where
      "sizeBytes \<le> length bytes" "span_bytes ?content extents = take sizeBytes bytes"
      and inside: "list_all (extent_inside ?content) extents" "\<forall>e \<in> set extents. 0 < lengthBytes e"
    by (auto simp del: length_concat)
  then have "span_length extents = sizeBytes" using length_span_bytes [of ?content extents] by simp
  then show ?thesis using inside by (auto simp: list_all_iff extent_inside_def)
qed (use assms in \<open>auto simp: treeExtents_def\<close>)

lemma firstUsableFrom_tree:
  "firstUsableFrom source copies within sizeBytes = Inr extents \<Longrightarrow> \<exists>root. treeExtents (js_blocks source) root sizeBytes = Inr extents"
  by (induction copies) (auto simp: andThen_Inr_iff hintFrom_def split: sum.splits if_splits)

lemma journalExtents_tree:
  "journalExtents source number sizeBytes = Inr extents \<Longrightarrow> \<exists>root. treeExtents (js_blocks source) root sizeBytes = Inr extents"
  using firstUsableFrom_tree by (auto simp: journalExtents_def andThen_Inr_iff firstUsableCopy_def split: if_splits)

lemma ext4_locate:
  assumes "locate source found inode \<noteq> []"
  shows "\<exists>root. treeExtents (so_blocks source) root (in_sizeInBytes inode) = Inr (locate source found inode)"
proof (cases "inodeExtents (so_blocks source) inode")
  case (Inl e)
  then have "locate source found inode = fromJournal source found (in_sizeInBytes inode)"
    using assms by (auto simp: locate_def split: if_splits)
  then show ?thesis
    using assms journalExtents_tree [of "\<lparr>js_blocks = so_blocks source, js_journal = so_journal source\<rparr>"]
    by (auto simp: fromJournal_def split: sum.splits)
next
  case (Inr own)
  then show ?thesis using assms by (auto simp: locate_def inodeExtents_def split: if_splits)
qed

lemma ext4_entry_exact: "exact_in (so_blocks source) (entryOf source found inode)"
proof (cases "addressable (so_blocks source)")
  case True
  have "list_all (\<lambda>x. 0 < lengthBytes x \<and> deviceOffset x + lengthBytes x \<le> volume_bytes (so_blocks source)) (locate source found inode) \<and>
      (locate source found inode = [] \<or> span_length (locate source found inode) = in_sizeInBytes inode)"
    using ext4_locate treeExtents_located [OF True] by (cases "locate source found inode = []") fastforce+
  then show ?thesis using True by (auto simp: exact_in_def entryOf_def entry_exact_def Let_def gradeOf_def)
qed (simp add: exact_in_def)

subsection \<open>The walk ends\<close>

definition inodes_ok :: "Ext4Blocks \<Rightarrow> u32 list \<Rightarrow> bool" where
  "inodes_ok blocks visited \<longleftrightarrow> distinct visited \<and> set visited \<subseteq> insert kRootInode {1..eg_totalInodes (eb_geometry blocks)}"

definition walk_ok :: "Ext4Blocks \<Rightarrow> Walk \<Rightarrow> bool" where
  "walk_ok blocks walk \<longleftrightarrow> inodes_ok blocks (wk_visited walk) \<and> list_all (exact_in blocks) (wk_entries walk)"

definition walk_cost :: "Ext4Blocks \<Rightarrow> Cursor list \<times> Walk \<Rightarrow> nat" where
  "walk_cost blocks = (\<lambda>(pending, walk). 2 * (Suc (eg_totalInodes (eb_geometry blocks)) - length (wk_visited walk)) + length pending)"

definition advances :: "Ext4Blocks \<Rightarrow> Cursor list \<times> Walk \<Rightarrow> u64 \<Rightarrow> Cursor list \<times> Walk \<Rightarrow> bool" where
  "advances blocks state n state' \<longleftrightarrow>
     walk_ok blocks (snd state) \<longrightarrow>
       walk_ok blocks (snd state') \<and> walk_cost blocks state' \<le> walk_cost blocks state \<and>
       wrap64 (length (wk_entries (snd state'))) = wrap64 (length (wk_entries (snd state)) + n)"

lemma advances_refl: "advances blocks state 0 state"
  by (simp add: advances_def)

lemma advances_trans: "advances blocks s n t \<Longrightarrow> advances blocks t m u \<Longrightarrow> advances blocks s (wrap64 (n + m)) u"
  using wrap64_count by (fastforce simp: advances_def)

lemma inodes_bounded: "inodes_ok blocks visited \<Longrightarrow> length visited \<le> Suc (eg_totalInodes (eb_geometry blocks))"
proof -
  assume "inodes_ok blocks visited"
  then have "length visited \<le> card (insert kRootInode {1..eg_totalInodes (eb_geometry blocks)})"
    by (metis inodes_ok_def card_mono distinct_card finite.insertI finite_atLeastAtMost)
  also have "\<dots> \<le> Suc (eg_totalInodes (eb_geometry blocks))" by (simp add: card_insert_if)
  finally show ?thesis .
qed

lemma readInode_number: "readInode blocks number = Inr inode \<Longrightarrow> number \<in> {1..eg_totalInodes (eb_geometry blocks)}"
  by (auto simp: readInode_def offsetOf_def andThen_Inr_iff mapResult_Inr_iff placeOf_def split: if_splits)

lemma ext4_enqueue_advances:
  assumes "readInode blocks (fn_inodeNumber found) = Inr inode"
  shows "advances blocks state 0 (enqueue cursor found inode state)"
proof -
  obtain pending walk where state: "state = (pending, walk)" by (cases state)
  show ?thesis
  proof (cases "cu_depth cursor < kMaxDirectoryDepth \<and> \<not> in_isDeleted inode \<and> fn_inodeNumber found \<notin> set (wk_visited walk)")
    case True
    have "inodes_ok blocks (wk_visited walk @ [fn_inodeNumber found])" if "inodes_ok blocks (wk_visited walk)"
      using that True readInode_number [OF assms] by (auto simp: inodes_ok_def)
    then show ?thesis using True inodes_bounded [of blocks "wk_visited walk @ [fn_inodeNumber found]"]
      by (auto simp: state enqueue_def advances_def walk_ok_def walk_cost_def)
  qed (auto simp: state enqueue_def Let_def advances_refl)
qed

lemma report_advances: "advances (so_blocks source) (pending, walk) 1 (pending, report source found inode walk)"
  using ext4_entry_exact by (simp add: advances_def report_def Let_def walk_ok_def walk_cost_def)

lemma visitLive_advances:
  assumes "visitLive source cursor entry state = (n, state')"
  shows "advances (so_blocks source) state n state'"
proof -
  obtain pending walk where state: "state = (pending, walk)" by (cases state)
  show ?thesis
    using assms ext4_enqueue_advances [of "so_blocks source"] report_advances advances_refl
    by (auto simp: visitLive_def takeFound_def state foundName_def Let_def split: if_splits sum.splits)
qed

lemma visitDeleted_advances:
  assumes "visitDeleted source cursor hole state = (n, state')"
  shows "advances (so_blocks source) state n state'"
proof -
  obtain pending walk where state: "state = (pending, walk)" by (cases state)
  show ?thesis
    using assms report_advances advances_refl by (auto simp: visitDeleted_def state split: if_splits sum.splits)
qed

lemma foldl_advances:
  assumes "\<And>x s n s'. f x s = (n, s') \<Longrightarrow> advances blocks s n s'" and "advances blocks start cnt state"
    and "foldl (\<lambda>(cnt, st) x. case f x st of (n, st') \<Rightarrow> (wrap64 (cnt + n), st')) (cnt, state) xs = (n, state')"
  shows "advances blocks start n state'"
  using assms(2,3)
proof (induction xs arbitrary: cnt state)
  case (Cons x xs)
  obtain m t where x: "f x state = (m, t)" by (cases "f x state")
  then show ?case using Cons advances_trans [OF Cons.prems(1) assms(1) [OF x]] by simp
qed simp

lemma visitHole_advances: "visitHole source cursor record' entry state = (n, state') \<Longrightarrow> advances (so_blocks source) state n state'"
  unfolding visitHole_def Let_def by (rule foldl_advances [OF visitDeleted_advances advances_refl])

lemma visitRecord_advances:
  assumes "visitRecord source cursor rest state = (taken, state')"
  shows "advances (so_blocks source) state (rs_reported taken) state'"
proof -
  obtain pending walk where state: "state = (pending, walk)" by (cases state)
  show ?thesis
  proof (cases "parseExt4DirEntry rest")
    case (Inl e)
    then show ?thesis using assms advances_refl by (auto simp: visitRecord_def state)
  next
    case (Inr entry)
    let ?walk = "walk\<lparr>wk_scanned := wrap64 (wk_scanned walk + 1)\<rparr>"
    obtain n live where live: "visitLive source cursor entry (pending, ?walk) = (n, live)" by (cases "visitLive source cursor entry (pending, ?walk)")
    obtain m hole where hole: "visitHole source cursor (take (de_recordBytes entry) rest) entry live = (m, hole)"
      by (cases "visitHole source cursor (take (de_recordBytes entry) rest) entry live")
    have "advances (so_blocks source) (pending, walk) n live"
      using visitLive_advances [OF live] by (simp add: advances_def walk_ok_def walk_cost_def)
    from advances_trans [OF this visitHole_advances [OF hole]] show ?thesis
      using assms live by (auto simp: visitRecord_def state Inr hole Let_def)
  qed
qed

lemma walkBlock_advances: "walkBlock source cursor block state = (n, state') \<Longrightarrow> advances (so_blocks source) state n state'"
proof -
  have "advances (so_blocks source) start cnt state \<Longrightarrow> walkBlockFrom source cursor block at cnt state = (n, state') \<Longrightarrow>
      advances (so_blocks source) start n state'" for start cnt state at
  proof (induction source cursor block at cnt state rule: walkBlockFrom.induct)
    case (1 source cursor block at cnt state)
    show ?case
    proof (cases "at + kDirEntryHeaderBytes \<le> length block")
      case True
      obtain taken t where rec: "visitRecord source cursor (drop at block) state = (taken, t)" by (cases "visitRecord source cursor (drop at block) state")
      note step = advances_trans [OF "1.prems"(1) visitRecord_advances [OF rec]]
      show ?thesis
      proof (cases "rs_bytes taken = 0")
        case True
        then show ?thesis using "1.prems"(2) step \<open>at + kDirEntryHeaderBytes \<le> length block\<close> by (auto simp: rec walkBlockFrom.simps [of _ _ _ at])
      next
        case False
        have "walkBlockFrom source cursor block (at + rs_bytes taken) (wrap64 (cnt + rs_reported taken)) t = (n, state')"
          using "1.prems"(2) False True by (simp add: rec walkBlockFrom.simps [of _ _ _ at])
        then show ?thesis using "1.IH" [OF True rec [symmetric] False step] by simp
      qed
    qed (use "1.prems" in \<open>simp add: walkBlockFrom.simps [of _ _ _ at]\<close>)
  qed
  then show "walkBlock source cursor block state = (n, state') \<Longrightarrow> advances (so_blocks source) state n state'"
    using advances_refl unfolding walkBlock_def by blast
qed

lemma walkBlocks_advances: "walkBlocks source cursor raw state = (n, state') \<Longrightarrow> advances (so_blocks source) state n state'"
  unfolding walkBlocks_def foldSlots_def by (rule foldl_advances [OF walkBlock_advances advances_refl])

interpretation ext4_walk: worklist "walkOne source"
  "\<lambda>pending walk cnt. walk_ok (so_blocks source) walk \<and> cnt = wrap64 (length (wk_entries walk))"
  "\<lambda>e walk. err_code e = kIoFailure \<and> list_all (exact_in (so_blocks source)) (wk_entries walk)"
  "\<lambda>pending walk. walk_cost (so_blocks source) (pending, walk)"
  for source
proof
  fix pending :: "Cursor list" and walk cnt found pending' walk'
  assume inv: "walk_ok (so_blocks source) walk \<and> cnt = wrap64 (length (wk_entries walk))"
    and more: "pending \<noteq> []" and walked: "walkOne source (last pending) (butlast pending, walk) = (found, pending', walk')"
  have cheaper: "walk_cost (so_blocks source) (butlast pending, walk) < walk_cost (so_blocks source) (pending, walk)"
    using more by (simp add: walk_cost_def)
  show "case found of Inl e \<Rightarrow> err_code e = kIoFailure \<and> list_all (exact_in (so_blocks source)) (wk_entries walk')
      | Inr n \<Rightarrow> (walk_ok (so_blocks source) walk' \<and> wrap64 (cnt + n) = wrap64 (length (wk_entries walk'))) \<and>
          walk_cost (so_blocks source) (pending', walk') < walk_cost (so_blocks source) (pending, walk)"
  proof (cases "readDirectory source (cu_inode (last pending))")
    case (Inl e)
    then show ?thesis using inv walked cheaper
      by (auto simp: walkOne_def walkOneDirectory_def skipUnreadableDirectory_def walk_ok_def wrap64_id [OF wrap64_less])
  next
    case (Inr raw)
    then obtain n where found: "found = Inr n" and blocks: "walkBlocks source (last pending) raw (butlast pending, walk) = (n, pending', walk')"
      using walked by (auto simp: walkOne_def walkOneDirectory_def split: prod.splits)
    from walkBlocks_advances [OF blocks] inv cheaper show ?thesis
      by (auto simp: found advances_def wrap64_add)
  qed
qed

lemma reportOrphans_exact:
  assumes "reportOrphans source visitor already = (pass, entries)" and "list_all (exact_in (so_blocks source)) visitor"
  shows "list_all (exact_in (so_blocks source)) entries \<and> wrap64 (length entries) = wrap64 (length visitor + op_reported pass)"
proof -
  have "list_all (exact_in (so_blocks source)) out \<and> wrap64 (length out) = wrap64 (length visitor + op_reported result')"
    if "list_all (exact_in (so_blocks source)) sofar" "wrap64 (length sofar) = wrap64 (length visitor + op_reported result)"
      "foldl (\<lambda>(result, sofar) number. case reportOne source number already sofar of
           (n, sofar') \<Rightarrow> (\<lparr>op_scanned = wrap64 (op_scanned result + 1), op_reported = wrap64 (op_reported result + n)\<rparr>, sofar')) (result, sofar) numbers = (result', out)"
    for numbers sofar result result' out
    using that
  proof (induction numbers arbitrary: sofar result)
    case (Cons number numbers)
    obtain n next' where one: "reportOne source number already sofar = (n, next')" by (cases "reportOne source number already sofar")
    then have "list_all (exact_in (so_blocks source)) next'" "length next' = length sofar + n"
      using Cons.prems(1) ext4_entry_exact by (auto simp: reportOne_def split: sum.splits if_splits)
    moreover have "wrap64 (length sofar + n) = wrap64 (length visitor + wrap64 (op_reported result + n))"
      by (rule wrap64_count [OF Cons.prems(2)])
    ultimately show ?case using Cons.prems(3) one
      by (intro Cons.IH [of next' "\<lparr>op_scanned = wrap64 (op_scanned result + 1), op_reported = wrap64 (op_reported result + n)\<rparr>"]) simp_all
  qed simp
  from this [of visitor "\<lparr>op_scanned = 0, op_reported = 0\<rparr>"] assms show ?thesis by (simp add: reportOrphans_def)
qed

lemma ext4_walk_ends:
  "\<exists>entries stats. walkVolume source = Some (entries, stats) \<and> list_all (exact_in (so_blocks source)) entries \<and>
    (case stats of Inl e \<Rightarrow> err_code e = kIoFailure | Inr totals \<Rightarrow> es_entriesReported totals = wrap64 (length entries))"
proof -
  let ?walk = "\<lparr>wk_visited = [kRootInode], wk_reported = [], wk_scanned = 0, wk_entries = []\<rparr>"
  let ?start = "[\<lparr>cu_path = [], cu_inode = kRootInode, cu_depth = 0\<rparr>]"
  have "walk_ok (so_blocks source) ?walk \<and> 0 = wrap64 (length (wk_entries ?walk))"
    by (simp add: walk_ok_def inodes_ok_def)
  from ext4_walk.drive_ends [OF this, of ?start] obtain found walk where drive: "driveWorklistFrom (walkOne source) ?start ?walk 0 = Some (found, walk)"
      and after: "case found of Inl e \<Rightarrow> err_code e = kIoFailure \<and> list_all (exact_in (so_blocks source)) (wk_entries walk)
        | Inr n \<Rightarrow> walk_ok (so_blocks source) walk \<and> n = wrap64 (length (wk_entries walk))" by blast
  show ?thesis
  proof (cases found)
    case (Inl e)
    then show ?thesis using after by (simp add: walkVolume_def driveWorklist_def drive)
  next
    case (Inr n)
    obtain pass entries where orphans: "reportOrphans source (wk_entries walk) (wk_reported walk) = (pass, entries)"
      by (cases "reportOrphans source (wk_entries walk) (wk_reported walk)")
    have "list_all (exact_in (so_blocks source)) (wk_entries walk)" "n = wrap64 (length (wk_entries walk))" using after Inr by (simp_all add: walk_ok_def)
    then show ?thesis using reportOrphans_exact [OF orphans]
      by (simp add: walkVolume_def driveWorklist_def drive Inr takeOrphans_def orphans statsOf_def wrap64_add)
  qed
qed

lemma mountExt4_Inr:
  assumes "mountExt4 device = Inr fs"
  obtains s where "readMountRegion device \<lparr>mr_offset = 1024, mr_length = 1024\<rparr> = Inr s" "ext4_superblock_valid s"
    "fs = ext4FileSystem device (assemble (fields_of s) (group_count (fields_of s)))"
  using assms
  by (auto simp: mountExt4_def mapResult_Inr_iff andThen_Inr_iff recognize_def kSuperblockOffset_def kSuperblockBytes_def parseExt4Superblock_Inr split: if_splits)

text \<open>
  C28: Walking a mounted ext4 volume always ends, whatever its directories, extent trees, orphan list and
  journal point at. If the volume has no more bytes than 64 bits address, every entry it reports, live, deleted, recovered through the
  journal or orphaned, has extents inside the volume that hold exactly its size, or none and a grade below valid. The only failure is a
  device that cannot be read, and without it the total counts the entries reported.
\<close>

theorem ext4_walk_ends_with_exact_entries:
  "case mountExt4 device of
     Inl _ \<Rightarrow> True
   | Inr fs \<Rightarrow>
       \<exists>s blocks entries stats. readMountRegion device \<lparr>mr_offset = 1024, mr_length = 1024\<rparr> = Inr s \<and> ext4_superblock_valid s \<and>
         blocks = \<lparr>eb_device = device, eb_geometry = assemble (fields_of s) (group_count (fields_of s))\<rparr> \<and>
         walkVolume \<lparr>so_blocks = blocks, so_journal = readJournal blocks\<rparr> = Some (entries, stats) \<and> fy_enumerate fs = (entries, stats) \<and>
         (if volume_bytes blocks \<le> max64 then list_all (entry_exact (volume_bytes blocks)) entries else True) \<and>
         (case stats of Inl e \<Rightarrow> err_code e = kIoFailure | Inr totals \<Rightarrow> es_entriesReported totals = wrap64 (length entries))"
proof (cases "mountExt4 device")
  case (Inr fs)
  then obtain s where s: "readMountRegion device \<lparr>mr_offset = 1024, mr_length = 1024\<rparr> = Inr s" "ext4_superblock_valid s"
      and fs: "fs = ext4FileSystem device (assemble (fields_of s) (group_count (fields_of s)))" by (rule mountExt4_Inr)
  define blocks where "blocks = \<lparr>eb_device = device, eb_geometry = assemble (fields_of s) (group_count (fields_of s))\<rparr>"
  have "0 < eg_blockSizeBytes (eb_geometry blocks)" using valid_block_size [OF s(2)] by (simp add: blocks_def assemble_def)
  then have exact: "exact_in blocks = (if volume_bytes blocks \<le> max64 then entry_exact (volume_bytes blocks) else (\<lambda>_. True))"
    by (auto simp: exact_in_def addressable_def)
  from ext4_walk_ends [of "\<lparr>so_blocks = blocks, so_journal = readJournal blocks\<rparr>"] obtain entries stats where
      "walkVolume \<lparr>so_blocks = blocks, so_journal = readJournal blocks\<rparr> = Some (entries, stats)" "list_all (exact_in blocks) entries"
      "case stats of Inl e \<Rightarrow> err_code e = kIoFailure | Inr totals \<Rightarrow> es_entriesReported totals = wrap64 (length entries)" by auto
  moreover from this(1) have "fy_enumerate fs = (entries, stats)" by (simp add: fs ext4FileSystem_def Let_def flip: blocks_def)
  ultimately show ?thesis using Inr s exact blocks_def by auto
qed simp

subsection \<open>Deleted names are found again\<close>

text \<open>
  A deleted entry keeps its inode number, its record length, its type and its name; only the record before it
  was lengthened over it. Its own record length may in turn span entries deleted before it.
\<close>

record DeadEntry =
  dd_inode :: nat
  dd_record :: nat
  dd_type :: byte
  dd_name :: bytes

definition dead_bytes :: "DeadEntry \<Rightarrow> bytes" where
  "dead_bytes d = leBytes 4 (dd_inode d) @ leBytes 2 (dd_record d) @ [of_nat (length (dd_name d)), dd_type d] @ dd_name d @
     replicate (liveEntryBytes (length (dd_name d)) - (8 + length (dd_name d))) 0"

definition hole_bytes :: "DeadEntry list \<Rightarrow> nat \<Rightarrow> bytes" where
  "hole_bytes ds slack = concat (map dead_bytes ds) @ replicate slack 0"

fun holes_ok :: "nat \<Rightarrow> nat \<Rightarrow> DeadEntry list \<Rightarrow> bool" where
  "holes_ok inodes slack [] \<longleftrightarrow> True"
| "holes_ok inodes slack (d # ds) \<longleftrightarrow>
     0 < dd_inode d \<and> dd_inode d \<le> inodes \<and> plausibleName (dd_name d) \<and> length (dd_name d) \<le> 255 \<and>
     4 dvd dd_record d \<and> 8 + length (dd_name d) \<le> dd_record d \<and> dd_record d \<le> length (hole_bytes (d # ds) slack) \<and> dd_record d < 65536 \<and>
     holes_ok inodes slack ds"

lemma liveEntryBytes_bounds: "8 + n \<le> liveEntryBytes n" "liveEntryBytes n < 8 + n + 4" "4 dvd liveEntryBytes n"
proof -
  have "8 + n \<le> (8 + n + 3) div 4 * 4" "(8 + n + 3) div 4 * 4 < 8 + n + 4" by presburger+
  then show "8 + n \<le> liveEntryBytes n" "liveEntryBytes n < 8 + n + 4" "4 dvd liveEntryBytes n"
    by (simp_all add: liveEntryBytes_def alignUp_def kDirEntryHeaderBytes_def kAlignment_def)
qed

lemma length_dead_bytes [simp]: "length (dead_bytes d) = liveEntryBytes (length (dd_name d))"
  using liveEntryBytes_bounds(1) [of "length (dd_name d)"] by (simp add: dead_bytes_def length_simps)

lemma hole_bytes_Cons: "hole_bytes (d # ds) slack = dead_bytes d @ hole_bytes ds slack"
  by (simp add: hole_bytes_def)

lemma parse_dead:
  assumes "holes_ok inodes slack (d # ds)" and "inodes \<le> max32"
  shows "parseExt4DirEntry (hole_bytes (d # ds) slack) =
    Inr \<lparr>de_inode = dd_inode d, de_recordBytes = dd_record d, de_type = typeOfCode (unat (dd_type d)), de_nameBytes = dd_name d\<rparr>"
proof -
  define head where "head = leBytes 4 (dd_inode d) @ leBytes 2 (dd_record d) @ [of_nat (length (dd_name d)), dd_type d]"
  define rest where "rest = dd_name d @ replicate (liveEntryBytes (length (dd_name d)) - (8 + length (dd_name d))) 0 @ hole_bytes ds slack"
  have raw: "hole_bytes (d # ds) slack = head @ rest" by (simp add: hole_bytes_Cons dead_bytes_def head_def rest_def)
  have len: "length head = 8" by (simp add: head_def length_simps)
  have small: "dd_inode d < 256 ^ 4" "dd_record d < 256 ^ 2" "length (dd_name d) < 256" using assms by (simp_all add: max32_def)
  have fields: "slotFieldAt 4 head 0 = dd_inode d" "slotFieldAt 2 head 4 = dd_record d" "slotByteAt head 6 = length (dd_name d)" "slotByteAt head 7 = unat (dd_type d)"
    using small by (simp_all add: slotFieldAt_def slotByteAt_def head_def readLe_in_range length_simps leNat_leBytes_id unat_of_nat)
  have rec: "checkedRecordLength head (length (head @ rest)) = Inr (dd_record d)"
    using assms(1) by (simp add: checkedRecordLength_def Let_def fields kRecordLengthOffset_def kDirEntryHeaderBytes_def kRecordAlignment_def flip: raw)
  have name: "checkedNameLength head (dd_record d) = Inr (length (dd_name d))"
    using assms(1) by (simp add: checkedNameLength_def Let_def fields kNameLengthOffset_def kDirEntryHeaderBytes_def)
  have "slotReader (head @ rest) kDirEntryHeaderBytes = Inr head" by (simp add: slotReader_def kDirEntryHeaderBytes_def len)
  then show ?thesis
    unfolding parseExt4DirEntry_def raw by (simp only: andThen_simps rec)
      (simp add: dirEntryOf_def name fields nameOf_def kDirEntryHeaderBytes_def kInodeOffset_def kFileTypeOffset_def len rest_def)
qed

lemma zeros_hold_nothing: "deletedEntriesFrom (pre @ replicate k 0) inodes (length pre) found = found"
proof (induction k arbitrary: pre rule: less_induct)
  case (less k)
  show ?case
  proof (cases "8 \<le> k")
    case True
    have field: "slotFieldAt 2 (replicate 8 0) 4 = 0" by (simp add: slotFieldAt_def readLe_in_range numeral_eq_Suc)
    have "parseExt4DirEntry (replicate k 0) = Inl (mkError kInvalidArgument kRecordLengthOffset)"
      using True by (simp add: parseExt4DirEntry_def slotReader_def kDirEntryHeaderBytes_def checkedRecordLength_def kRecordLengthOffset_def field)
    then have "takeCandidate found (drop (length pre) (pre @ replicate k 0)) inodes = (found, 4)" by (simp add: takeCandidate_def kAlignment_def)
    then have "deletedEntriesFrom (pre @ replicate k 0) inodes (length pre) found = deletedEntriesFrom (pre @ replicate k 0) inodes (length pre + 4) found"
      using True by (subst deletedEntriesFrom.simps) (simp add: kDirEntryHeaderBytes_def)
    moreover have "replicate k 0 = replicate 4 0 @ (replicate (k - 4) 0 :: bytes)" using True by (simp flip: replicate_add)
    ultimately show ?thesis using less [of "k - 4" "pre @ replicate 4 0"] True by simp
  next
    case False
    then show ?thesis by (subst deletedEntriesFrom.simps) (simp add: kDirEntryHeaderBytes_def)
  qed
qed

lemma dead_entries_found:
  assumes "holes_ok inodes slack ds" and "inodes \<le> max32"
  shows "deletedEntriesFrom (pre @ hole_bytes ds slack) inodes (length pre) found =
    found @ map (\<lambda>d. \<lparr>he_inode = dd_inode d, he_nameBytes = dd_name d\<rparr>) ds"
  using assms(1)
proof (induction ds arbitrary: pre found)
  case Nil
  then show ?case using zeros_hold_nothing by (simp add: hole_bytes_def)
next
  case (Cons d ds)
  let ?e = "\<lparr>he_inode = dd_inode d, he_nameBytes = dd_name d\<rparr>"
  have "takeCandidate found (drop (length pre) (pre @ hole_bytes (d # ds) slack)) inodes = (found @ [?e], liveEntryBytes (length (dd_name d)))"
    using parse_dead [OF Cons.prems assms(2)] Cons.prems by (simp add: takeCandidate_def plausible_def)
  moreover have "length pre + 8 \<le> length (pre @ hole_bytes (d # ds) slack)"
    using liveEntryBytes_bounds(1) [of "length (dd_name d)"] by (simp add: hole_bytes_Cons)
  ultimately have "deletedEntriesFrom (pre @ hole_bytes (d # ds) slack) inodes (length pre) found =
      deletedEntriesFrom ((pre @ dead_bytes d) @ hole_bytes ds slack) inodes (length (pre @ dead_bytes d)) (found @ [?e])"
    by (subst deletedEntriesFrom.simps) (simp add: kDirEntryHeaderBytes_def hole_bytes_Cons)
  then show ?case using Cons.IH [of "pre @ dead_bytes d"] Cons.prems by simp
qed



subsection \<open>Two limits of the walk\<close>

text \<open>
  A record whose own inode number was cleared, the first of a block, is not searched at all: names it swallowed stay lost.
\<close>

lemma cleared_record_hides_its_hole: "de_inode entry = 0 \<Longrightarrow> visitHole source cursor record' entry state = (0, state)"
proof -
  assume cleared: "de_inode entry = 0"
  have "length record' \<le> (length record' + 3) div 4 * 4" by presburger
  then have "deletedEntriesIn record' \<lparr>hb_liveBytes = length record', hb_inodeCount = n\<rparr> = []" for n
    by (simp add: deletedEntriesIn_def alignUp_def kAlignment_def deletedEntriesFrom.simps kDirEntryHeaderBytes_def)
  then show ?thesis by (simp add: visitHole_def cleared)
qed

text \<open>
  The superblock may claim more bytes than 64 bits address. A leaf of such a volume can be usable and still be
  restated as an extent that ends past the last address.
\<close>

lemma oversized_leaf_is_usable:
  assumes "eb_geometry blocks = assemble f (group_count f)" and "sf_blockSizeBytes f = 65536" and "sf_totalBlocks f = 2 ^ 48 + 1"
    and "sf_firstDataBlock f = 0"
    and "l = \<lparr>ex_firstFileBlock = 0, ex_blockCount = 2, ex_firstDeviceBlock = 2 ^ 48 - 1, ex_initialized = True\<rparr>"
  shows "usable blocks l" and "max64 < deviceOffset (deviceRun blocks l) + lengthBytes (deviceRun blocks l)"
  using assms(2-5)
  by (simp_all add: usable_def isDataBlock_def deviceRun_def blockOffset_def assms(1) assemble_def wrap_sub64_def max64_def wrap64_def Let_def)

lemma oversized_superblock_is_accepted:
  "superblock_rules f True \<and> sf_firstDataBlock f < sf_totalBlocks f \<and> group_count f \<le> max32"
  if "f = \<lparr>sf_blockSizeBytes = 65536, sf_totalInodes = 16, sf_totalBlocks = 2 ^ 48 + 1, sf_firstDataBlock = 0, sf_blocksPerGroup = 524288,
     sf_inodesPerGroup = 16, sf_inodeSizeBytes = 256, sf_descriptorSizeBytes = 64, sf_featureIncompat = 0xC0, sf_lastOrphanInode = 0\<rparr>"
  by (simp add: that superblock_rules_def record_fits_def isPowerOfTwo_def group_count_def max32_def)

end
