(* ===== verification/Mounting.thy ===== *)
theory Mounting
  imports NtfsVolumes FatVolumes ExfatVolumes Ext4Volumes
begin

text \<open>
  \<open>src/fs/Mount.cpp\<close>: which of the four filesystem readers answers for a volume. The readers are asked in
  a fixed order and one that does not find its own signature declines with \<open>kNotFound\<close>; any other answer is final.
  The locale \<open>volume_driver\<close> is the contract of a reader on the devices it admits: what it mounts
  reports entries whose extents fit the 64-bit address space and hold exactly what they state. Probing a list of
  such readers is such a reader again.
\<close>

definition declined :: "FileSystem result \<Rightarrow> bool" where
  "declined mounted \<longleftrightarrow> (case mounted of Inl e \<Rightarrow> err_code e = kNotFound | Inr _ \<Rightarrow> False)"

definition kMounters :: "mount list" where
  "kMounters = [mountNtfs, mountExfat, mountFat32, mountExt4]"

fun mountFirst :: "mount list \<Rightarrow> mount" where
  "mountFirst [] device = Inl (mkError kNotFound 0)"
| "mountFirst (mounter # mounters) device =
     (let mounted = mounter device in if \<not> declined mounted then mounted else mountFirst mounters device)"

definition mountVolume :: mount where
  "mountVolume device = mountFirst kMounters device"

subsection \<open>Probing\<close>

lemma mountFirst_cases:
  "(\<exists>before mounter after. mounters = before @ mounter # after \<and> list_all (\<lambda>m. declined (m device)) before \<and>
      \<not> declined (mounter device) \<and> mountFirst mounters device = mounter device) \<or>
   list_all (\<lambda>m. declined (m device)) mounters \<and> mountFirst mounters device = Inl (mkError kNotFound 0)"
proof (induction mounters)
  case (Cons m mounters)
  show ?case
  proof (cases "declined (m device)")
    case True
    then have step: "mountFirst (m # mounters) device = mountFirst mounters device" by (simp add: Let_def)
    from Cons show ?thesis
    proof
      assume "\<exists>before mounter after. mounters = before @ mounter # after \<and> list_all (\<lambda>m. declined (m device)) before \<and>
        \<not> declined (mounter device) \<and> mountFirst mounters device = mounter device"
      then obtain before mounter after where "m # mounters = (m # before) @ mounter # after" "list_all (\<lambda>m. declined (m device)) (m # before)"
          "\<not> declined (mounter device)" "mountFirst (m # mounters) device = mounter device"
        using True step by auto
      then show ?thesis by blast
    qed (use True step in auto)
  next
    case False
    then have "mountFirst (m # mounters) device = m device" by (simp add: Let_def)
    then have "m # mounters = [] @ m # mounters \<and> list_all (\<lambda>m. declined (m device)) [] \<and> \<not> declined (m device) \<and>
        mountFirst (m # mounters) device = m device" using False by simp
    then show ?thesis by blast
  qed
qed simp

locale volume_driver =
  fixes mounter :: mount and admits :: "BlockDevice \<Rightarrow> bool"
  assumes admitted_entries: "admits device \<Longrightarrow> mounter device = Inr fs \<Longrightarrow> list_all (entry_exact max64) (fst (fy_enumerate fs))"
begin

lemma enumerated_ok: "admits device \<Longrightarrow> list_all entry_ok (fst (enumerateVolume mounter device))"
  using admitted_entries entry_exact_ok by (auto simp: enumerateVolume_def list_all_iff split: sum.splits)

end

sublocale filesystem_driver \<subseteq> unconditional: volume_driver mounter "\<lambda>_. True"
  by unfold_locales (rule exact_entries)

locale volume_drivers =
  fixes mounters :: "mount list" and admits :: "BlockDevice \<Rightarrow> bool"
  assumes each_driver: "mounter \<in> set mounters \<Longrightarrow> volume_driver mounter admits"

sublocale volume_drivers \<subseteq> probing: volume_driver "mountFirst mounters" admits
proof
  fix device fs
  assume admitted: "admits device" and mounted: "mountFirst mounters device = Inr fs"
  from mountFirst_cases [of mounters device] mounted obtain mounter where "mounter \<in> set mounters" "mounter device = Inr fs"
    by (metis in_set_conv_decomp sum.distinct(1))
  then show "list_all (entry_exact max64) (fst (fy_enumerate fs))"
    using each_driver admitted volume_driver.admitted_entries by blast
qed

subsection \<open>The four readers\<close>

text \<open>A device whose superblock, if it reads as an ext4 one, claims no more bytes than 64 bits address.\<close>

definition ext4_addressable :: "BlockDevice \<Rightarrow> bool" where
  "ext4_addressable device \<longleftrightarrow>
     (case readMountRegion device \<lparr>mr_offset = 1024, mr_length = 1024\<rparr> of
        Inl _ \<Rightarrow> True
      | Inr s \<Rightarrow> sf_totalBlocks (fields_of s) * sf_blockSizeBytes (fields_of s) \<le> max64)"

interpretation ext4: volume_driver mountExt4 ext4_addressable
proof
  fix device fs
  assume fits: "ext4_addressable device" and "mountExt4 device = Inr fs"
  from this(2) obtain s where s: "readMountRegion device \<lparr>mr_offset = 1024, mr_length = 1024\<rparr> = Inr s" "ext4_superblock_valid s"
      and fs: "fs = ext4FileSystem device (Ext4Layout.assemble (fields_of s) (group_count (fields_of s)))" by (rule mountExt4_Inr)
  define blocks where "blocks = \<lparr>eb_device = device, eb_geometry = Ext4Layout.assemble (fields_of s) (group_count (fields_of s))\<rparr>"
  have "addressable blocks"
    using fits s valid_block_size [OF s(2)] by (simp add: addressable_def volume_bytes_def ext4_addressable_def blocks_def Ext4Layout.assemble_def)
  moreover obtain entries stats where "walkVolume \<lparr>so_blocks = blocks, so_journal = readJournal blocks\<rparr> = Some (entries, stats)" "list_all (exact_in blocks) entries"
    using ext4_walk_ends [of "\<lparr>so_blocks = blocks, so_journal = readJournal blocks\<rparr>"] by auto
  ultimately show "list_all (entry_exact max64) (fst (fy_enumerate fs))"
    by (auto simp: fs ext4FileSystem_def Let_def list_all_iff exact_in_def addressable_def simp flip: blocks_def intro: entry_exact_mono)
qed

lemma weaken_driver: "filesystem_driver mounter \<Longrightarrow> volume_driver mounter admits"
  by (simp add: filesystem_driver_def volume_driver_def)

interpretation mounters: volume_drivers kMounters ext4_addressable
proof (rule volume_drivers.intro)
  fix mounter
  assume "mounter \<in> set kMounters"
  then show "volume_driver mounter ext4_addressable"
    using weaken_driver ntfs.filesystem_driver_axioms exfat.filesystem_driver_axioms fat32.filesystem_driver_axioms ext4.volume_driver_axioms
    by (auto simp: kMounters_def)
qed


end
