(* ===== verification/Signatures.thy ===== *)
theory Signatures
  imports Pipeline
begin

text \<open>
  Which signatures occur in a window of device bytes: \<open>src/carve/SignatureTable.cpp\<close>, \<open>CarverRegistry.cpp\<close>,
  \<open>PrefilterAvx2.cpp\<close> and the matching half of \<open>WindowMatch.cpp\<close>. A carver is the record of
  its two virtual functions. The AVX2 intrinsics are functions on the 32 bytes of a vector, as the
  instruction set documents them; whether the build and the processor have them is the parameter \<open>cpu\<close>. A window was read from a device, so the sum of
  its offset and a position in it does not wrap.
\<close>

subsection \<open>Carvers and signatures\<close>

record Signature =
  sg_magic :: bytes
  sg_offset :: size_t

record FormatCarver =
  fc_signatures :: "Signature list"
  fc_carve :: "bytes \<Rightarrow> CarveResult result"

record SignatureEntry =
  se_magic :: bytes
  se_inFileOffset :: size_t
  se_carver :: FormatCarver
  se_carverIndex :: u32

datatype MatchPath = kAuto | kPortableOnly

record NibbleFilter =
  nf_low :: "byte list"
  nf_high :: "byte list"

definition passes :: "NibbleFilter \<Rightarrow> byte \<Rightarrow> bool" where
  "passes filter' val =
     (let raw = unat val in nf_low filter' ! (raw AND 0x0F) AND nf_high filter' ! drop_bit 4 raw \<noteq> 0)"

record SignatureTable =
  st_entries :: "SignatureEntry list"
  st_groupBegin :: "u16 list"
  st_anyStartsWith :: "u8 list"
  st_nibbleFilter :: NibbleFilter
  st_usesFastPath :: bool

definition kByteValues :: size_t where "kByteValues = 256"

definition emptyFilter :: NibbleFilter where
  "emptyFilter = \<lparr>nf_low = replicate 16 0, nf_high = replicate 16 0\<rparr>"

definition emptyTable :: SignatureTable where
  "emptyTable = \<lparr>st_entries = [], st_groupBegin = replicate (kByteValues + 1) 0, st_anyStartsWith = replicate kByteValues 0,
     st_nibbleFilter = emptyFilter, st_usesFastPath = False\<rparr>"

subsection \<open>Building the table\<close>

definition indexOf :: "byte \<Rightarrow> size_t" where
  "indexOf val = unat val"

definition appendSignatures :: "SignatureEntry list \<Rightarrow> FormatCarver \<Rightarrow> u32 \<Rightarrow> SignatureEntry list" where
  "appendSignatures entries carver carverIndex =
     foldl (\<lambda>found signature.
       if sg_magic signature \<noteq> [] then
         found @ [\<lparr>se_magic = sg_magic signature, se_inFileOffset = sg_offset signature, se_carver = carver, se_carverIndex = carverIndex\<rparr>]
       else found) entries (fc_signatures carver)"

definition flatten :: "FormatCarver list \<Rightarrow> SignatureEntry list" where
  "flatten carvers =
     fst (foldl (\<lambda>(entries, carverIndex) carver. (appendSignatures entries carver carverIndex, wrap32 (carverIndex + 1))) ([], 0) carvers)"

record Cpu =
  cpu_buildHasAvx2 :: bool
  cpu_cpuHasAvx2 :: bool

definition fastPathFor :: "Cpu \<Rightarrow> MatchPath \<Rightarrow> bool" where
  "fastPathFor cpu path \<longleftrightarrow> path = kAuto \<and> cpu_buildHasAvx2 cpu \<and> cpu_cpuHasAvx2 cpu"

definition firstByte :: "SignatureEntry \<Rightarrow> byte" where
  "firstByte entry = hd (se_magic entry)"

function groupEndFrom :: "SignatureEntry list \<Rightarrow> size_t \<Rightarrow> size_t \<Rightarrow> size_t" where
  "groupEndFrom entries val at =
     (if at < length entries \<and> indexOf (firstByte (entries ! at)) = val then groupEndFrom entries val (at + 1) else at)"
  by pat_completeness auto
termination
  by (relation "measure (\<lambda>(entries, val, at). length entries - at)") auto

declare groupEndFrom.simps [simp del]

definition groupEnd :: "SignatureTable \<Rightarrow> size_t \<Rightarrow> size_t" where
  "groupEnd table val = groupEndFrom (st_entries table) val (st_groupBegin table ! val)"

definition wrap16 :: "nat \<Rightarrow> u16" where "wrap16 n = n mod 2 ^ 16"

definition indexGroup :: "SignatureTable \<times> size_t \<Rightarrow> size_t \<Rightarrow> SignatureTable \<times> size_t" where
  "indexGroup = (\<lambda>(table, at) val.
     let begun = table\<lparr>st_groupBegin := (st_groupBegin table)[val := wrap16 at]\<rparr>;
         stop = groupEnd begun val
     in (begun\<lparr>st_anyStartsWith := (st_anyStartsWith begun)[val := (if stop > at then 1 else 0)]\<rparr>, stop))"

definition indexGroups :: "SignatureTable \<Rightarrow> SignatureTable" where
  "indexGroups table =
     (let (indexed, at) = foldl indexGroup (table, 0) [0..<kByteValues]
      in indexed\<lparr>st_groupBegin := (st_groupBegin indexed)[kByteValues := wrap16 at]\<rparr>)"

definition admit :: "NibbleFilter \<Rightarrow> SignatureEntry \<Rightarrow> NibbleFilter" where
  "admit filter' entry =
     (let first = unat (firstByte entry);
          high = drop_bit 4 first;
          flag = (push_bit (high AND 7) 1 :: byte)
      in filter'\<lparr>nf_low := (nf_low filter')[first AND 0x0F := nf_low filter' ! (first AND 0x0F) OR flag],
                 nf_high := (nf_high filter')[high := nf_high filter' ! high OR flag]\<rparr>)"

definition buildNibbleFilter :: "SignatureTable \<Rightarrow> SignatureTable" where
  "buildNibbleFilter table = table\<lparr>st_nibbleFilter := foldl admit emptyFilter (st_entries table)\<rparr>"

definition rebuild :: "Cpu \<Rightarrow> SignatureTable \<Rightarrow> FormatCarver list \<Rightarrow> MatchPath \<Rightarrow> SignatureTable" where
  "rebuild cpu table carvers path =
     (buildNibbleFilter (indexGroups (table\<lparr>st_entries := sort_key (\<lambda>entry. indexOf (firstByte entry)) (flatten carvers)\<rparr>)))
       \<lparr>st_usesFastPath := fastPathFor cpu path\<rparr>"

definition none :: "SignatureTable \<Rightarrow> byte \<Rightarrow> bool" where
  "none table first \<longleftrightarrow> st_anyStartsWith table ! indexOf first = 0"

definition startingWith :: "SignatureTable \<Rightarrow> byte \<Rightarrow> SignatureEntry list" where
  "startingWith table first =
     (let front = st_groupBegin table ! indexOf first; back = st_groupBegin table ! (indexOf first + 1)
      in take (back - front) (drop front (st_entries table)))"

subsection \<open>The registry\<close>

record CarverRegistry =
  cr_carvers :: "FormatCarver list"
  cr_table :: SignatureTable
  cr_path :: MatchPath
  cr_maxSignatureBytes :: size_t

definition carverRegistry :: "MatchPath \<Rightarrow> CarverRegistry" where
  "carverRegistry path = \<lparr>cr_carvers = [], cr_table = emptyTable, cr_path = path, cr_maxSignatureBytes = 0\<rparr>"

definition widestSignature :: "FormatCarver \<Rightarrow> size_t" where
  "widestSignature carver =
     foldl (\<lambda>widest signature. max widest (length (sg_magic signature) + sg_offset signature)) 0 (fc_signatures carver)"

definition registerCarver :: "Cpu \<Rightarrow> CarverRegistry \<Rightarrow> FormatCarver \<Rightarrow> CarverRegistry" where
  "registerCarver cpu registry carver =
     (let widest = max (cr_maxSignatureBytes registry) (widestSignature carver);
          carvers = cr_carvers registry @ [carver]
      in registry\<lparr>cr_maxSignatureBytes := widest, cr_carvers := carvers,
                  cr_table := rebuild cpu (cr_table registry) carvers (cr_path registry)\<rparr>)"

subsection \<open>The vector reject\<close>

definition kPrefilterVectorBytes :: size_t where "kPrefilterVectorBytes = 32"
definition kPrefilterVectorsPerCall :: size_t where "kPrefilterVectorsPerCall = 4"
definition kPrefilterChunkBytes :: size_t where "kPrefilterChunkBytes = kPrefilterVectorBytes * kPrefilterVectorsPerCall"
definition kNibbleShift :: nat where "kNibbleShift = 4"
definition kLowNibbleMask :: byte where "kLowNibbleMask = 0x0F"

definition mm256_and :: "bytes \<Rightarrow> bytes \<Rightarrow> bytes" where
  "mm256_and a b = map2 (AND) a b"

definition mm256_shuffle_epi8 :: "bytes \<Rightarrow> bytes \<Rightarrow> bytes" where
  "mm256_shuffle_epi8 table indices =
     map (\<lambda>i. if bit (indices ! i) 7 then 0 else table ! (16 * (i div 16) + unat (indices ! i AND 0x0F))) [0..<32]"

definition mm256_srli_epi16 :: "bytes \<Rightarrow> nat \<Rightarrow> bytes" where
  "mm256_srli_epi16 vec n = concat (map (\<lambda>k. leBytes 2 (drop_bit n (leNat (take 2 (drop (2 * k) vec))))) [0..<16])"

definition mm256_cmpeq_epi8 :: "bytes \<Rightarrow> bytes \<Rightarrow> bytes" where
  "mm256_cmpeq_epi8 a b = map2 (\<lambda>x y. if x = y then 0xFF else 0) a b"

definition mm256_movemask_epi8 :: "bytes \<Rightarrow> 32 word" where
  "mm256_movemask_epi8 vec = horner_sum of_bool 2 (map (\<lambda>b. bit b 7) vec)"

definition inBothLanes :: "byte list \<Rightarrow> bytes" where
  "inBothLanes table = take 16 table @ take 16 table"

record VectorTables =
  vt_low :: bytes
  vt_high :: bytes
  vt_nibble :: bytes

definition tablesFor :: "NibbleFilter \<Rightarrow> VectorTables" where
  "tablesFor filter' =
     \<lparr>vt_low = inBothLanes (nf_low filter'), vt_high = inBothLanes (nf_high filter'), vt_nibble = replicate 32 kLowNibbleMask\<rparr>"

definition survivorsIn :: "bytes \<Rightarrow> VectorTables \<Rightarrow> 32 word" where
  "survivorsIn vector tables =
     (let data = take 32 vector;
          low = mm256_shuffle_epi8 (vt_low tables) (mm256_and data (vt_nibble tables));
          high = mm256_shuffle_epi8 (vt_high tables) (mm256_and (mm256_srli_epi16 data kNibbleShift) (vt_nibble tables));
          rejected = mm256_cmpeq_epi8 (mm256_and low high) (replicate 32 0)
      in NOT (mm256_movemask_epi8 rejected))"

definition survivorsAvx2 :: "bytes \<Rightarrow> NibbleFilter \<Rightarrow> 32 word list" where
  "survivorsAvx2 chunk filter' =
     (let tables = tablesFor filter'
      in map (\<lambda>vector. survivorsIn (drop (vector * kPrefilterVectorBytes) chunk) tables) [0..<kPrefilterVectorsPerCall])"

subsection \<open>Matching a window\<close>

record Match =
  mt_offset :: u64
  mt_carver :: FormatCarver
  mt_carverIndex :: u32

definition candidateStart :: "u64 \<Rightarrow> size_t \<Rightarrow> u64 option" where
  "candidateStart absolute inFileOffset = (if absolute < inFileOffset then None else Some (absolute - inFileOffset))"

definition magicIsAt :: "bytes \<Rightarrow> SignatureEntry \<Rightarrow> bool" where
  "magicIsAt tail entry \<longleftrightarrow> length tail \<ge> length (se_magic entry) \<and> take (length (se_magic entry)) tail = se_magic entry"

definition recordMatch :: "Match list \<Rightarrow> SignatureEntry \<Rightarrow> u64 \<Rightarrow> Match list" where
  "recordMatch matches entry absolute =
     (case candidateStart absolute (se_inFileOffset entry) of
        None \<Rightarrow> matches
      | Some start \<Rightarrow> matches @ [\<lparr>mt_offset = start, mt_carver = se_carver entry, mt_carverIndex = se_carverIndex entry\<rparr>])"

definition matchAt :: "bytes \<Rightarrow> u64 \<Rightarrow> SignatureTable \<Rightarrow> Match list \<Rightarrow> Match list" where
  "matchAt tail absolute table matches =
     foldl (\<lambda>found entry. if magicIsAt tail entry then recordMatch found entry absolute else found) matches (startingWith table (hd tail))"

definition matchPortable :: "bytes \<Rightarrow> u64 \<Rightarrow> SignatureTable \<Rightarrow> Match list \<Rightarrow> Match list" where
  "matchPortable window windowOffset table matches =
     foldl (\<lambda>found at. if \<not> none table (window ! at) then matchAt (drop at window) (windowOffset + at) table found else found)
       matches [0..<length window]"

definition countr_zero :: "32 word \<Rightarrow> nat" where
  "countr_zero w = length (takeWhile (\<lambda>n. \<not> bit w n) [0..<32])"

lemma clear_lowest_less: "w \<noteq> 0 \<Longrightarrow> unat (w AND (w - 1)) < unat (w :: 32 word)"
proof -
  assume "w \<noteq> 0"
  then have "unat (w - 1) < unat w" by (simp add: unat_minus_one unat_gt_0)
  moreover have "unat (w AND (w - 1)) \<le> unat (w - 1)" by (simp add: word_and_le1 word_le_nat_alt [symmetric])
  ultimately show ?thesis by simp
qed

function matchSurvivors :: "bytes \<Rightarrow> u64 \<Rightarrow> 32 word \<Rightarrow> SignatureTable \<Rightarrow> Match list \<Rightarrow> Match list" where
  "matchSurvivors bytes off surviving table matches =
     (if surviving \<noteq> 0
      then let at = countr_zero surviving
           in matchSurvivors bytes off (surviving AND (surviving - 1)) table (matchAt (drop at bytes) (off + at) table matches)
      else matches)"
  by pat_completeness auto
termination
  by (relation "measure (\<lambda>(bytes, off, surviving, table, matches). unat surviving)") (auto intro: clear_lowest_less)

declare matchSurvivors.simps [simp del]

definition matchBatch :: "bytes \<Rightarrow> u64 \<Rightarrow> SignatureTable \<Rightarrow> Match list \<Rightarrow> Match list" where
  "matchBatch window windowOffset table matches =
     (let masks = survivorsAvx2 window (st_nibbleFilter table)
      in foldl (\<lambda>found vector.
           let from' = vector * kPrefilterVectorBytes
           in matchSurvivors (drop from' window) (windowOffset + from') (masks ! vector) table found) matches [0..<length masks])"

function matchFastFrom :: "bytes \<Rightarrow> u64 \<Rightarrow> SignatureTable \<Rightarrow> size_t \<Rightarrow> Match list \<Rightarrow> Match list" where
  "matchFastFrom window windowOffset table at matches =
     (if length window - at \<ge> kPrefilterChunkBytes
      then matchFastFrom window windowOffset table (at + kPrefilterChunkBytes) (matchBatch (drop at window) (windowOffset + at) table matches)
      else matchPortable (drop at window) (windowOffset + at) table matches)"
  by pat_completeness auto
termination
  by (relation "measure (\<lambda>(window, windowOffset, table, at, matches). length window - at)")
     (auto simp: kPrefilterChunkBytes_def kPrefilterVectorBytes_def kPrefilterVectorsPerCall_def)

declare matchFastFrom.simps [simp del]

definition matchWithFastPath :: "bytes \<Rightarrow> u64 \<Rightarrow> SignatureTable \<Rightarrow> Match list \<Rightarrow> Match list" where
  "matchWithFastPath window windowOffset table matches = matchFastFrom window windowOffset table 0 matches"

definition matchKey :: "Match \<Rightarrow> u64 \<times> u32" where
  "matchKey match' = (mt_offset match', mt_carverIndex match')"

definition sortCanonically :: "Match list \<Rightarrow> Match list" where
  "sortCanonically matches = sort_key matchKey matches"

definition matchWindow :: "bytes \<Rightarrow> u64 \<Rightarrow> SignatureTable \<Rightarrow> Match list" where
  "matchWindow window windowOffset table =
     sortCanonically (if st_usesFastPath table then matchWithFastPath window windowOffset table []
                      else matchPortable window windowOffset table [])"

definition overlapBytes :: "CarverRegistry \<Rightarrow> size_t \<Rightarrow> size_t" where
  "overlapBytes registry bytesRead =
     (if cr_maxSignatureBytes registry = 0 then 0 else min (cr_maxSignatureBytes registry - 1) bytesRead)"

definition readWindow :: "BlockDevice \<Rightarrow> u64 \<Rightarrow> size_t \<Rightarrow> bytes result" where
  "readWindow device off bufferSize = bd_readAt device off bufferSize"

record WindowMatches =
  wm_bytesRead :: size_t
  wm_overlap :: size_t
  wm_matches :: "Match list"

definition readAndMatch :: "BlockDevice \<Rightarrow> u64 \<Rightarrow> size_t \<Rightarrow> CarverRegistry \<Rightarrow> WindowMatches result" where
  "readAndMatch device cursor bufferSize registry =
     mapResult (readWindow device cursor bufferSize)
       (\<lambda>window.
          let matches = filter (\<lambda>match'. \<not> mt_offset match' < cursor) (matchWindow window cursor (cr_table registry))
          in \<lparr>wm_bytesRead = length window, wm_overlap = overlapBytes registry (length window), wm_matches = matches\<rparr>)"

subsection \<open>The table is an index of the signatures\<close>

lemma sorted_three_way:
  fixes f :: "'a \<Rightarrow> nat"
  assumes "sorted (map f xs)"
  shows "xs = filter (\<lambda>x. f x < v) xs @ filter (\<lambda>x. f x = v) xs @ filter (\<lambda>x. v < f x) xs"
  using assms
proof (induction xs)
  case (Cons x xs)
  have small: "filter (\<lambda>y. f y < v) xs = []" if "v \<le> f x" using Cons.prems that by (auto simp: filter_empty_conv dest!: bspec)
  have same: "filter (\<lambda>y. f y = v) xs = []" if "v < f x" using Cons.prems that by (auto simp: filter_empty_conv)
  from Cons have "xs = filter (\<lambda>x. f x < v) xs @ filter (\<lambda>x. f x = v) xs @ filter (\<lambda>x. v < f x) xs" by simp
  then show ?case using small same by (cases "f x" v rule: linorder_cases) auto
qed simp

abbreviation entryKey :: "SignatureEntry \<Rightarrow> nat" where
  "entryKey entry \<equiv> indexOf (firstByte entry)"

definition below :: "SignatureEntry list \<Rightarrow> nat \<Rightarrow> nat" where
  "below entries v = length (filter (\<lambda>e. entryKey e < v) entries)"

lemma below_Suc: "below entries (Suc v) = below entries v + length (filter (\<lambda>e. entryKey e = v) entries)"
  by (induction entries) (auto simp: below_def)

lemma below_le: "below entries v \<le> length entries"
  by (simp add: below_def)

lemma group_slice:
  assumes "sorted (map entryKey entries)"
  shows "take (below entries (Suc v) - below entries v) (drop (below entries v) entries) = filter (\<lambda>e. entryKey e = v) entries"
  unfolding below_Suc
  by (subst (3) sorted_three_way [OF assms, of v]) (simp add: below_def)

lemma groupEndFrom_run:
  "(\<And>e. e \<in> set run \<Longrightarrow> entryKey e = v) \<Longrightarrow> (rest = [] \<or> entryKey (hd rest) \<noteq> v) \<Longrightarrow>
   groupEndFrom (before @ run @ rest) v (length before) = length before + length run"
proof (induction run arbitrary: before)
  case Nil
  then show ?case by (subst groupEndFrom.simps) (auto simp: nth_append hd_conv_nth)
next
  case (Cons e run)
  have "groupEndFrom (before @ (e # run) @ rest) v (length before) = groupEndFrom ((before @ [e]) @ run @ rest) v (length (before @ [e]))"
    using Cons.prems(1) by (subst groupEndFrom.simps) (simp add: nth_append)
  also have "\<dots> = length (before @ [e]) + length run" using Cons.prems by (intro Cons.IH) auto
  finally show ?case by simp
qed

lemma groupEndFrom_below:
  assumes "sorted (map entryKey entries)"
  shows "groupEndFrom entries v (below entries v) = below entries (Suc v)"
proof -
  let ?rest = "filter (\<lambda>e. v < entryKey e) entries"
  have "?rest = [] \<or> entryKey (hd ?rest) \<noteq> v" using hd_in_set [of ?rest] by auto
  from groupEndFrom_run [OF _ this, of "filter (\<lambda>e. entryKey e = v) entries" "filter (\<lambda>e. entryKey e < v) entries"]
  show ?thesis by (simp add: below_def sorted_three_way [OF assms, symmetric] below_Suc [unfolded below_def])
qed

definition indexed_upto :: "SignatureTable \<Rightarrow> nat \<Rightarrow> SignatureTable \<times> size_t \<Rightarrow> bool" where
  "indexed_upto table n = (\<lambda>(t, at).
     st_entries t = st_entries table \<and> at = below (st_entries table) n \<and>
     length (st_groupBegin t) = kByteValues + 1 \<and> length (st_anyStartsWith t) = kByteValues \<and>
     (\<forall>u < n. st_groupBegin t ! u = below (st_entries table) u \<and>
        (st_anyStartsWith t ! u = 0 \<longleftrightarrow> below (st_entries table) (Suc u) \<le> below (st_entries table) u)))"

lemma indexGroup_step:
  assumes "sorted (map entryKey (st_entries table))" and "length (st_entries table) < 2 ^ 16" and "n < kByteValues"
    and "indexed_upto table n state"
  shows "indexed_upto table (Suc n) (indexGroup state n)"
proof -
  obtain t at where state: "state = (t, at)" by (cases state)
  have "below (st_entries table) n < 2 ^ 16" using below_le [of "st_entries table" n] assms(2) by linarith
  then have small: "wrap16 (below (st_entries table) n) = below (st_entries table) n" by (simp add: wrap16_def)
  then have at: "wrap16 at = below (st_entries table) n" using assms(4) by (simp add: state indexed_upto_def)
  have stop: "groupEnd (t\<lparr>st_groupBegin := (st_groupBegin t)[n := wrap16 at]\<rparr>) n = below (st_entries table) (Suc n)"
    using assms(3,4) groupEndFrom_below [OF assms(1)] by (simp add: state indexed_upto_def groupEnd_def small)
  show ?thesis using assms(3,4) at stop
    by (auto simp: state indexed_upto_def indexGroup_def Let_def less_Suc_eq nth_list_update)
qed

lemma indexGroups_indexed:
  assumes "sorted (map entryKey (st_entries table))" and "length (st_entries table) < 2 ^ 16"
    and "length (st_groupBegin table) = kByteValues + 1" and "length (st_anyStartsWith table) = kByteValues"
  shows "st_entries (indexGroups table) = st_entries table"
    and "length (st_groupBegin (indexGroups table)) = kByteValues + 1"
    and "length (st_anyStartsWith (indexGroups table)) = kByteValues"
    and "u \<le> kByteValues \<Longrightarrow> st_groupBegin (indexGroups table) ! u = below (st_entries table) u"
    and "u < kByteValues \<Longrightarrow> st_anyStartsWith (indexGroups table) ! u = 0 \<longleftrightarrow> filter (\<lambda>e. entryKey e = u) (st_entries table) = []"
proof -
  have "n \<le> kByteValues \<Longrightarrow> indexed_upto table n (foldl indexGroup (table, 0) [0..<n])" for n
    using indexGroup_step [OF assms(1,2)]
    by (induction n) (auto simp: indexed_upto_def assms(3,4) below_def)
  from this [of kByteValues] obtain t at where run: "foldl indexGroup (table, 0) [0..<kByteValues] = (t, at)"
    and ix: "indexed_upto table kByteValues (t, at)"
    by (cases "foldl indexGroup (table, 0) [0..<kByteValues]") simp
  have "below (st_entries table) kByteValues < 2 ^ 16" using below_le [of "st_entries table" kByteValues] assms(2) by linarith
  then have at: "wrap16 at = below (st_entries table) kByteValues" using ix by (simp add: indexed_upto_def wrap16_def)
  note facts = run ix [unfolded indexed_upto_def, simplified]
  show "st_entries (indexGroups table) = st_entries table" "length (st_groupBegin (indexGroups table)) = kByteValues + 1"
    "length (st_anyStartsWith (indexGroups table)) = kByteValues"
    using facts by (simp_all add: indexGroups_def)
  show "st_groupBegin (indexGroups table) ! u = below (st_entries table) u" if "u \<le> kByteValues"
    using facts at that by (cases "u = kByteValues") (simp_all add: indexGroups_def)
  show "st_anyStartsWith (indexGroups table) ! u = 0 \<longleftrightarrow> filter (\<lambda>e. entryKey e = u) (st_entries table) = []" if "u < kByteValues"
    using facts that by (simp add: indexGroups_def below_Suc)
qed

definition table_ok :: "SignatureTable \<Rightarrow> bool" where
  "table_ok table \<longleftrightarrow> length (st_groupBegin table) = kByteValues + 1 \<and> length (st_anyStartsWith table) = kByteValues"

lemma indexOf_less: "indexOf b < kByteValues"
  by (simp add: indexOf_def kByteValues_def)

lemma indexOf_eq [simp]: "indexOf a = indexOf b \<longleftrightarrow> a = b"
  by (simp add: indexOf_def word_unat_eq_iff)

lemma rebuild_fields:
  "st_entries (rebuild cpu table carvers path) = st_entries (indexGroups (table\<lparr>st_entries := sort_key entryKey (flatten carvers)\<rparr>))"
  "st_groupBegin (rebuild cpu table carvers path) = st_groupBegin (indexGroups (table\<lparr>st_entries := sort_key entryKey (flatten carvers)\<rparr>))"
  "st_anyStartsWith (rebuild cpu table carvers path) = st_anyStartsWith (indexGroups (table\<lparr>st_entries := sort_key entryKey (flatten carvers)\<rparr>))"
  by (simp_all add: rebuild_def buildNibbleFilter_def)

lemma table_is_index:
  assumes "table_ok table" and "length (flatten carvers) < 2 ^ 16"
  shows "startingWith (rebuild cpu table carvers path) b = filter (\<lambda>e. firstByte e = b) (flatten carvers)"
    and "none (rebuild cpu table carvers path) b \<longleftrightarrow> (\<forall>e \<in> set (flatten carvers). firstByte e \<noteq> b)"
    and "table_ok (rebuild cpu table carvers path)"
    and "st_entries (rebuild cpu table carvers path) = sort_key entryKey (flatten carvers)"
proof -
  let ?t = "table\<lparr>st_entries := sort_key entryKey (flatten carvers)\<rparr>"
  have srt: "sorted (map entryKey (st_entries ?t))" by simp
  have len: "length (st_entries ?t) < 2 ^ 16" "length (st_groupBegin ?t) = kByteValues + 1" "length (st_anyStartsWith ?t) = kByteValues"
    using assms by (simp_all add: table_ok_def)
  note ix = indexGroups_indexed [OF srt len]
  have same: "filter (\<lambda>e. entryKey e = indexOf b) (st_entries ?t) = filter (\<lambda>e. firstByte e = b) (flatten carvers)"
    by (simp add: sort_key_stable [of entryKey "indexOf b", simplified])
  show "startingWith (rebuild cpu table carvers path) b = filter (\<lambda>e. firstByte e = b) (flatten carvers)"
    using indexOf_less [of b] group_slice [OF srt, of "indexOf b"] same
    by (simp add: startingWith_def rebuild_fields ix)
  show "none (rebuild cpu table carvers path) b \<longleftrightarrow> (\<forall>e \<in> set (flatten carvers). firstByte e \<noteq> b)"
    using indexOf_less [of b] same by (simp add: none_def rebuild_fields ix filter_empty_conv)
  show "table_ok (rebuild cpu table carvers path)" by (simp add: table_ok_def rebuild_fields ix)
  show "st_entries (rebuild cpu table carvers path) = sort_key entryKey (flatten carvers)" by (simp add: rebuild_fields ix)
qed

subsection \<open>The reject never drops a first byte\<close>

lemma nibble_split: "(v :: nat) AND 0x0F = v mod 16" "drop_bit 4 v = v div 16" "v AND 7 = v mod 8"
proof -
  have "v AND 0x0F = take_bit 4 v" "v AND 7 = take_bit 3 v" by (simp_all add: take_bit_eq_mask mask_eq_exp_minus_1)
  then show "v AND 0x0F = v mod 16" "drop_bit 4 v = v div 16" "v AND 7 = v mod 8" by (simp_all add: take_bit_eq_mod drop_bit_eq_div)
qed

lemma nibble_bounds: "unat (b :: byte) mod 16 < 16" "unat (b :: byte) div 16 < 16"
  using unat_byte_less [of b] by (simp, linarith)

lemma and_nonzero_iff: "(x AND y :: byte) \<noteq> 0 \<longleftrightarrow> (\<exists>j. bit x j \<and> bit y j)"
  by (simp add: bit_eq_iff bit_simps) (meson bit_imp_le_length byte_bit_high)

lemma passes_iff:
  "passes f b \<longleftrightarrow> (\<exists>j. bit (nf_low f ! (unat b mod 16)) j \<and> bit (nf_high f ! (unat b div 16)) j)"
  by (simp add: passes_def Let_def nibble_split and_nonzero_iff)

definition filter_ok :: "NibbleFilter \<Rightarrow> bool" where
  "filter_ok f \<longleftrightarrow> length (nf_low f) = 16 \<and> length (nf_high f) = 16"

lemma admit_ok: "filter_ok f \<Longrightarrow> filter_ok (admit f e)"
  by (simp add: filter_ok_def admit_def Let_def)

lemma or_update_mono: "k < length xs \<Longrightarrow> bit (xs ! k) j \<Longrightarrow> bit (xs[m := xs ! m OR flag] ! k) (j :: nat)" for xs :: "byte list"
  by (cases "m = k") (simp_all add: bit_or_iff)

lemma admit_mono:
  assumes "filter_ok f" and "passes f b"
  shows "passes (admit f e) b"
proof -
  obtain j where "bit (nf_low f ! (unat b mod 16)) j" "bit (nf_high f ! (unat b div 16)) j" using assms(2) by (auto simp: passes_iff)
  then show ?thesis using assms(1) nibble_bounds [of b]
    by (auto simp: passes_iff filter_ok_def admit_def Let_def intro!: exI [of _ j] or_update_mono)
qed

lemma admit_first:
  assumes "filter_ok f"
  shows "passes (admit f e) (firstByte e)"
proof -
  let ?j = "unat (firstByte e) div 16 mod 8"
  have "bit (push_bit ?j 1 :: byte) ?j" by (simp add: bit_simps)
  then show ?thesis using assms nibble_bounds [of "firstByte e"]
    by (auto simp: passes_iff filter_ok_def admit_def Let_def nibble_split bit_or_iff intro!: exI [of _ ?j])
qed

lemma admit_all:
  "filter_ok f \<Longrightarrow> filter_ok (foldl admit f es) \<and> (\<forall>b. passes f b \<longrightarrow> passes (foldl admit f es) b) \<and>
     (\<forall>e \<in> set es. passes (foldl admit f es) (firstByte e))"
proof (induction es arbitrary: f)
  case (Cons e es)
  from Cons.IH [OF admit_ok [OF Cons.prems]] show ?case
    using admit_mono [OF Cons.prems] admit_first [OF Cons.prems] by simp
qed simp

lemma emptyFilter_ok: "filter_ok emptyFilter"
  by (simp add: filter_ok_def emptyFilter_def)

lemma rebuilt_filter:
  assumes "table_ok table" and "length (flatten carvers) < 2 ^ 16"
  shows "filter_ok (st_nibbleFilter (rebuild cpu table carvers path))"
    and "\<not> passes (st_nibbleFilter (rebuild cpu table carvers path)) b \<Longrightarrow> none (rebuild cpu table carvers path) b"
proof -
  let ?t = "rebuild cpu table carvers path"
  have "st_nibbleFilter ?t = foldl admit emptyFilter (sort_key entryKey (flatten carvers))"
    using table_is_index(4) [OF assms, of cpu path] by (simp add: rebuild_def buildNibbleFilter_def)
  note all = admit_all [OF emptyFilter_ok, of "sort_key entryKey (flatten carvers)", folded this]
  show "filter_ok (st_nibbleFilter ?t)" using all by blast
  show "none ?t b" if "\<not> passes (st_nibbleFilter ?t) b" using all that by (auto simp: table_is_index(2) [OF assms])
qed

subsection \<open>The vector step answers what the scalar one does\<close>

lemma leNat_pair: "leNat [a, b] = unat a + 256 * unat b"
  by simp

lemma srli_length: "length (mm256_srli_epi16 vec n) = 32"
  by (simp add: mm256_srli_epi16_def length_concat comp_def sum_list_triv)

lemma concat_pairs_nth:
  "(\<And>x. x \<in> set xs \<Longrightarrow> length (f x) = 2) \<Longrightarrow> k < length xs \<Longrightarrow> r < 2 \<Longrightarrow> concat (map f xs) ! (2 * k + r) = f (xs ! k) ! r"
proof (induction xs arbitrary: k)
  case (Cons x xs)
  then show ?case by (cases k) (auto simp: nth_append)
qed simp

lemma high_nibble_even: "drop_bit 4 (unat a + 256 * unat (b :: byte)) mod 256 mod 16 = unat (a :: byte) div 16"
proof -
  have "(unat a + 256 * unat b) div 16 = unat a div 16 + 16 * unat b" by simp
  then show ?thesis using nibble_bounds(2) [of a] by (simp add: drop_bit_eq_div mod_mod_cancel)
qed

lemma high_nibble_odd: "drop_bit 4 (unat a + 256 * unat (b :: byte)) div 256 mod 256 mod 16 = unat b div 16" for a :: byte
proof -
  have "(unat a + 256 * unat b) div 16 div 256 = (unat a + 256 * unat b) div 256 div 16" by (simp only: div_mult2_eq [symmetric] mult.commute)
  also have "\<dots> = unat b div 16" by simp
  finally show ?thesis using nibble_bounds(2) [of b] by (simp add: drop_bit_eq_div mod_mod_cancel)
qed

lemma low_nibble_byte: "unat (b AND kLowNibbleMask) = unat (b :: byte) mod 16" "\<not> bit (b AND kLowNibbleMask) 7"
proof -
  have mask: "b AND kLowNibbleMask = take_bit 4 b" unfolding kLowNibbleMask_def take_bit_eq_mask mask_eq_exp_minus_1 by simp
  show "unat (b AND kLowNibbleMask) = unat b mod 16" unfolding mask by (simp only: unsigned_take_bit_eq) (simp add: take_bit_eq_mod)
  show "\<not> bit (b AND kLowNibbleMask) 7" unfolding mask bit_take_bit_iff by simp
qed

lemma srli_nibble:
  assumes "length vec = 32" and "i < 32"
  shows "unat (mm256_srli_epi16 vec 4 ! i AND kLowNibbleMask) = unat (vec ! i) div 16"
proof -
  define k where "k = i div 2"
  have k: "k < 16" "i = 2 * k + i mod 2" using assms(2) by (simp_all add: k_def)
  have "take 2 (drop (2 * k) vec) = [vec ! (2 * k), vec ! (2 * k + 1)]"
    using assms(1) k(1) by (intro nth_equalityI) (auto simp: nth_Cons' less_2_cases_iff)
  then have pair: "leNat (take 2 (drop (2 * k) vec)) = unat (vec ! (2 * k)) + 256 * unat (vec ! (2 * k + 1))" by simp
  have "mm256_srli_epi16 vec 4 ! (2 * k + i mod 2) = leBytes 2 (drop_bit 4 (leNat (take 2 (drop (2 * k) vec)))) ! (i mod 2)"
    unfolding mm256_srli_epi16_def using k(1) by (subst concat_pairs_nth) simp_all
  then have at: "mm256_srli_epi16 vec 4 ! i = leBytes 2 (drop_bit 4 (unat (vec ! (2 * k)) + 256 * unat (vec ! (2 * k + 1)))) ! (i mod 2)"
    unfolding pair using k(2) by simp
  have "i mod 2 = 0 \<or> i mod 2 = 1" by auto
  then show ?thesis
  proof
    assume "i mod 2 = 0"
    then show ?thesis using at k(2) by (simp add: low_nibble_byte numeral_2_eq_2 unat_of_nat_byte high_nibble_even del: One_nat_def)
  next
    assume "i mod 2 = 1"
    then show ?thesis using at k(2) by (simp add: low_nibble_byte numeral_2_eq_2 unat_of_nat_byte high_nibble_odd)
  qed
qed

lemma shuffle_nth:
  assumes "length t = 16" and "i < 32" and "\<not> bit (indices ! i) 7"
  shows "mm256_shuffle_epi8 (inBothLanes t) indices ! i = t ! (unat (indices ! i) mod 16)"
proof -
  have k: "unat (indices ! i AND 0x0F) = unat (indices ! i) mod 16" using low_nibble_byte(1) [of "indices ! i"] by (simp add: kLowNibbleMask_def)
  obtain lane where lane: "i div 16 = lane" by simp
  then have "lane < 2" using assms(2) by auto
  have "mm256_shuffle_epi8 (inBothLanes t) indices ! i = inBothLanes t ! (16 * lane + unat (indices ! i) mod 16)"
    using assms k by (simp add: mm256_shuffle_epi8_def lane)
  then show ?thesis using assms(1) \<open>lane < 2\<close> by (auto simp: less_2_cases_iff inBothLanes_def nth_append)
qed

lemma survivorsIn_bit:
  assumes "32 \<le> length vec" and "filter_ok f"
  shows "bit (survivorsIn vec (tablesFor f)) n \<longleftrightarrow> n < 32 \<and> passes f (vec ! n)"
proof (cases "n < 32")
  case True
  let ?data = "take 32 vec"
  let ?mask = "replicate 32 kLowNibbleMask"
  let ?low = "mm256_shuffle_epi8 (inBothLanes (nf_low f)) (mm256_and ?data ?mask)"
  let ?high = "mm256_shuffle_epi8 (inBothLanes (nf_high f)) (mm256_and (mm256_srli_epi16 ?data 4) ?mask)"
  have len: "length (mm256_and ?data ?mask) = 32" "length (mm256_and (mm256_srli_epi16 ?data 4) ?mask) = 32" "length ?low = 32" "length ?high = 32"
    using assms(1) by (simp_all add: mm256_and_def srli_length mm256_shuffle_epi8_def)
  have at: "mm256_and ?data ?mask ! n = vec ! n AND kLowNibbleMask"
    "mm256_and (mm256_srli_epi16 ?data 4) ?mask ! n = mm256_srli_epi16 ?data 4 ! n AND kLowNibbleMask"
    using True assms(1) by (simp_all add: mm256_and_def srli_length)
  have low: "?low ! n = nf_low f ! (unat (vec ! n) mod 16)"
    using assms(2) True by (subst shuffle_nth) (simp_all add: filter_ok_def at low_nibble_byte)
  have high: "?high ! n = nf_high f ! (unat (vec ! n) div 16)"
    using assms True srli_nibble [of ?data n] nibble_bounds(2) [of "vec ! n"]
    by (subst shuffle_nth) (simp_all add: filter_ok_def at low_nibble_byte)
  have "bit (survivorsIn vec (tablesFor f)) n \<longleftrightarrow> ?low ! n AND ?high ! n \<noteq> 0"
    using True len
    by (simp add: survivorsIn_def tablesFor_def Let_def kNibbleShift_def mm256_movemask_epi8_def bit_simps bit_horner_sum_bit_iff
        mm256_cmpeq_epi8_def mm256_and_def)
  then show ?thesis using True by (simp add: low high passes_def nibble_split Let_def)
next
  case False
  then have "\<not> bit w n" for w :: "32 word" using crc_bit_high by blast
  then show ?thesis using False by simp
qed

lemma countr_zero_lowest:
  assumes "w \<noteq> 0"
  shows "countr_zero w < 32" "bit w (countr_zero w)" "\<forall>j < countr_zero w. \<not> bit w j"
proof -
  obtain n where "bit w n" using assms by (auto simp: bit_eq_iff)
  then have n: "bit w n" "n < 32" by (simp_all add: crc_bit_high)
  let ?run = "takeWhile (\<lambda>n. \<not> bit w n) [0..<32]"
  have run: "?run = take (countr_zero w) [0..<32]" unfolding countr_zero_def by (rule takeWhile_eq_take)
  have "n \<notin> set ?run" using n(1) set_takeWhileD by fastforce
  then show less: "countr_zero w < 32" using n(2) unfolding run by (cases "countr_zero w < 32") (simp_all add: not_less)
  show "bit w (countr_zero w)" using nth_length_takeWhile [of "\<lambda>n. \<not> bit w n" "[0..<32]"] less by (simp add: countr_zero_def)
  show "\<forall>j < countr_zero w. \<not> bit w j"
  proof (intro allI impI)
    fix j
    assume "j < countr_zero w"
    then have "j \<in> set ?run" unfolding run using less by simp
    then show "\<not> bit w j" using set_takeWhileD by fastforce
  qed
qed

lemma clear_lowest_bit:
  assumes "w \<noteq> (0 :: 32 word)"
  shows "bit (w AND (w - 1)) n \<longleftrightarrow> bit w n \<and> n \<noteq> countr_zero w"
proof -
  define k where "k = countr_zero w"
  note k = countr_zero_lowest [OF assms, folded k_def]
  obtain m where m: "\<And>j. m \<le> j \<longleftrightarrow> k < j" using Suc_le_eq by blast
  let ?high = "push_bit m (drop_bit m w)"
  have "w = ?high OR push_bit k 1"
    using k by (intro bit_eqI) (auto simp: bit_simps m linorder_neq_iff)
  also have "\<dots> = ?high + push_bit k 1" by (rule disjunctive_add [symmetric]) (auto simp: bit_simps m)
  finally have "w - 1 = ?high + mask k" by (simp add: mask_eq_exp_minus_1 push_bit_eq_mult)
  also have "\<dots> = ?high OR mask k" by (rule disjunctive_add) (auto simp: bit_simps m)
  finally have "w - 1 = ?high OR mask k" .
  then show ?thesis using k crc_bit_high by (auto simp: bit_simps m k_def [symmetric] linorder_neq_iff)
qed

lemma set_bits_step:
  assumes "w \<noteq> (0 :: 32 word)"
  shows "filter (bit w) [0..<32] = countr_zero w # filter (bit (w AND (w - 1))) [0..<32]"
proof -
  let ?k = "countr_zero w"
  note k = countr_zero_lowest [OF assms]
  have split: "[0..<32] = [0..<?k] @ ?k # [Suc ?k..<32]" using k(1) upt_add_eq_append [of 0 ?k "32 - ?k"] by (simp add: upt_conv_Cons)
  have none: "filter (bit w) [0..<?k] = []" "filter (bit (w AND (w - 1))) [0..<?k] = []"
    using k(3) by (auto simp: filter_empty_conv bit_and_iff)
  have "filter (bit w) [Suc ?k..<32] = filter (bit (w AND (w - 1))) [Suc ?k..<32]"
    by (rule filter_cong) (auto simp: clear_lowest_bit [OF assms])
  then show ?thesis using k(2) none by (subst (1 2) split) (simp add: clear_lowest_bit [OF assms])
qed

lemma matchSurvivors_fold:
  "matchSurvivors bytes off w table ms =
     foldl (\<lambda>found at. matchAt (drop at bytes) (off + at) table found) ms (filter (bit w) [0..<32])"
proof (induction bytes off w table ms rule: matchSurvivors.induct)
  case (1 bytes off w table ms)
  show ?case
  proof (cases "w = 0")
    case True
    then show ?thesis by (simp add: matchSurvivors.simps)
  next
    case False
    then show ?thesis using 1 [OF False refl] by (subst matchSurvivors.simps) (simp add: set_bits_step Let_def)
  qed
qed

subsection \<open>What a signature index promises its matcher\<close>

lemma foldl_filter: "foldl f a (filter P xs) = foldl (\<lambda>acc x. if P x then f acc x else acc) a xs"
  by (induction xs arbitrary: a) auto

lemma foldl_upt_shift: "foldl f a [m..<m + n] = foldl (\<lambda>acc i. f acc (m + i)) a [0..<n]"
  by (induction n) auto

definition askAt :: "SignatureTable \<Rightarrow> bytes \<Rightarrow> u64 \<Rightarrow> Match list \<Rightarrow> nat \<Rightarrow> Match list" where
  "askAt table window off found at =
     (if \<not> none table (window ! at) then matchAt (drop at window) (off + at) table found else found)"

lemma matchPortable_ask: "matchPortable window off table ms = foldl (askAt table window off) ms [0..<length window]"
  by (simp add: matchPortable_def askAt_def [abs_def])

lemma askAt_drop: "a + i < length window \<Longrightarrow> askAt table (drop a window) (off + a) found i = askAt table window off found (a + i)"
  by (simp add: askAt_def ac_simps)

definition matchOf :: "SignatureEntry \<Rightarrow> u64 \<Rightarrow> Match" where
  "matchOf entry start = \<lparr>mt_offset = start, mt_carver = se_carver entry, mt_carverIndex = se_carverIndex entry\<rparr>"

definition magic_at :: "bytes \<Rightarrow> nat \<Rightarrow> SignatureEntry \<Rightarrow> bool" where
  "magic_at content at entry \<longleftrightarrow> at + length (se_magic entry) \<le> length content \<and> take (length (se_magic entry)) (drop at content) = se_magic entry"

lemma matchAt_eq:
  "matchAt tail absolute table found =
     found @ map (\<lambda>e. matchOf e (absolute - se_inFileOffset e))
       (filter (\<lambda>e. magicIsAt tail e \<and> se_inFileOffset e \<le> absolute) (startingWith table (hd tail)))"
proof -
  have "foldl (\<lambda>found entry. if magicIsAt tail entry then recordMatch found entry absolute else found) found entries =
      found @ map (\<lambda>e. matchOf e (absolute - se_inFileOffset e)) (filter (\<lambda>e. magicIsAt tail e \<and> se_inFileOffset e \<le> absolute) entries)"
    for entries
    by (induction entries arbitrary: found) (auto simp: recordMatch_def candidateStart_def matchOf_def)
  then show ?thesis by (simp add: matchAt_def)
qed

locale signature_index =
  fixes table :: SignatureTable and entries :: "SignatureEntry list"
  assumes lookup: "startingWith table b = filter (\<lambda>e. firstByte e = b) entries"
    and reject: "none table b \<longleftrightarrow> filter (\<lambda>e. firstByte e = b) entries = []"
    and prefilter: "\<not> none table b \<Longrightarrow> passes (st_nibbleFilter table) b"
    and filter_width: "filter_ok (st_nibbleFilter table)"
    and real_magic: "e \<in> set entries \<Longrightarrow> se_magic e \<noteq> []"
begin

lemma askAt_eq:
  assumes "at < length window"
  shows "askAt table window off found at =
    found @ map (\<lambda>e. matchOf e (off + at - se_inFileOffset e)) (filter (\<lambda>e. magic_at window at e \<and> se_inFileOffset e \<le> off + at) entries)"
proof -
  have first: "firstByte e = window ! at" if occurs: "magic_at window at e" "e \<in> set entries" for e
  proof -
    obtain b bs where "se_magic e = b # bs" using real_magic [OF occurs(2)] by (cases "se_magic e") auto
    then show ?thesis using occurs(1) assms by (auto simp: magic_at_def firstByte_def Cons_nth_drop_Suc [symmetric])
  qed
  have "filter (\<lambda>e. magicIsAt (drop at window) e \<and> se_inFileOffset e \<le> off + at) (filter (\<lambda>e. firstByte e = window ! at) entries) =
      filter (\<lambda>e. magic_at window at e \<and> se_inFileOffset e \<le> off + at) entries"
    unfolding filter_filter using first assms by (intro filter_cong) (auto simp: magicIsAt_def magic_at_def)
  then show ?thesis using assms reject [of "window ! at"] first
    by (auto simp: askAt_def matchAt_eq lookup hd_drop_conv_nth filter_empty_conv)
qed

lemma survivors_ask:
  assumes "base + 32 \<le> length window"
  shows "matchSurvivors (drop base window) (off + base) (survivorsIn (drop base window) (tablesFor (st_nibbleFilter table))) table found =
    foldl (askAt table window off) found [base..<base + 32]"
proof -
  have bit: "bit (survivorsIn (drop base window) (tablesFor (st_nibbleFilter table))) i = passes (st_nibbleFilter table) (window ! (base + i))"
    if "i < 32" for i
    using assms that by (subst survivorsIn_bit [OF _ filter_width]) simp_all
  have skip: "matchAt (drop at window) (off + at) table found = found" if "none table (window ! at)" "at < length window" for at found
    using that reject [of "window ! at"] by (simp add: matchAt_eq lookup hd_drop_conv_nth)
  have step: "(if bit (survivorsIn (drop base window) (tablesFor (st_nibbleFilter table))) i
      then matchAt (drop i (drop base window)) (off + base + i) table found else found) = askAt table window off found (base + i)"
    if "i < 32" for i found
    using assms that skip [of "base + i"] prefilter [of "window ! (base + i)"] by (simp add: askAt_def bit add.commute add.left_commute)
  show ?thesis unfolding matchSurvivors_fold foldl_filter foldl_upt_shift
    by (rule foldl_cong) (simp_all add: step)
qed

lemma batch_ask:
  assumes "at + kPrefilterChunkBytes \<le> length window"
  shows "matchBatch (drop at window) (off + at) table found = foldl (askAt table window off) found [at..<at + kPrefilterChunkBytes]"
proof -
  note sizes = kPrefilterChunkBytes_def kPrefilterVectorBytes_def kPrefilterVectorsPerCall_def
  have one: "matchSurvivors (drop (at + base) window) (off + (at + base))
      (survivorsIn (drop (at + base) window) (tablesFor (st_nibbleFilter table))) table found =
      foldl (askAt table window off) found [at + base..<at + base + 32]" if "base + 32 \<le> 128" for base found
    using assms that by (intro survivors_ask) (simp add: sizes)
  have "[at..<at + 128] = [at..<at + 32] @ [at + 32..<at + 64] @ [at + 64..<at + 96] @ [at + 96..<at + 128]"
    using upt_add_eq_append [of at "at + 32" 96] upt_add_eq_append [of "at + 32" "at + 64" 64] upt_add_eq_append [of "at + 64" "at + 96" 32]
    by (simp add: add.assoc)
  then show ?thesis using one [of 0] one [of 32] one [of 64] one [of 96]
    by (simp add: matchBatch_def survivorsAvx2_def Let_def sizes upt_rec [of _ 4] add.assoc ac_simps)
qed

lemma fast_ask: "at \<le> length window \<Longrightarrow> matchFastFrom window off table at found = foldl (askAt table window off) found [at..<length window]"
proof (induction "length window - at" arbitrary: at found rule: less_induct)
  case less
  have pos: "0 < kPrefilterChunkBytes" by (simp add: kPrefilterChunkBytes_def kPrefilterVectorBytes_def kPrefilterVectorsPerCall_def)
  show ?case
  proof (cases "kPrefilterChunkBytes \<le> length window - at")
    case True
    then have fits: "at + kPrefilterChunkBytes \<le> length window" using less.prems by simp
    have split: "[at..<length window] = [at..<at + kPrefilterChunkBytes] @ [at + kPrefilterChunkBytes..<length window]"
      using upt_add_eq_append [of at "at + kPrefilterChunkBytes" "length window - (at + kPrefilterChunkBytes)"] fits by simp
    have "length window - (at + kPrefilterChunkBytes) < length window - at" using fits pos by linarith
    from less.hyps [OF this fits] show ?thesis using True
      by (subst matchFastFrom.simps) (simp add: split batch_ask [OF fits])
  next
    case False
    then have "matchFastFrom window off table at found = foldl (askAt table (drop at window) (off + at)) found [0..<length window - at]"
      by (subst matchFastFrom.simps) (simp add: matchPortable_ask)
    also have "\<dots> = foldl (\<lambda>acc i. askAt table window off acc (at + i)) found [0..<length window - at]"
      by (rule foldl_cong) (simp_all add: askAt_drop)
    finally show ?thesis using less.prems foldl_upt_shift [of "askAt table window off" found at "length window - at"] by simp
  qed
qed

lemma fast_path_agrees: "matchWithFastPath window off table found = matchPortable window off table found"
  by (simp add: matchWithFastPath_def fast_ask matchPortable_ask)

lemma matchWindow_portable: "matchWindow window off table = sortCanonically (matchPortable window off table [])"
  by (simp add: matchWindow_def fast_path_agrees)

lemma matchPortable_all:
  "matchPortable window off table [] =
     concat (map (\<lambda>at. map (\<lambda>e. matchOf e (off + at - se_inFileOffset e))
       (filter (\<lambda>e. magic_at window at e \<and> se_inFileOffset e \<le> off + at) entries)) [0..<length window])"
proof -
  have "n \<le> length window \<Longrightarrow> foldl (askAt table window off) [] [0..<n] =
     concat (map (\<lambda>at. map (\<lambda>e. matchOf e (off + at - se_inFileOffset e))
       (filter (\<lambda>e. magic_at window at e \<and> se_inFileOffset e \<le> off + at) entries)) [0..<n])" for n
    by (induction n) (simp_all add: askAt_eq)
  then show ?thesis by (simp add: matchPortable_ask)
qed

lemma matchWindow_set:
  "m \<in> set (matchWindow window off table) \<longleftrightarrow>
     (\<exists>e \<in> set entries. \<exists>start. m = matchOf e start \<and> off \<le> start + se_inFileOffset e \<and> magic_at window (start + se_inFileOffset e - off) e)"
proof
  assume "m \<in> set (matchWindow window off table)"
  then obtain at e where e: "e \<in> set entries" "magic_at window at e" "se_inFileOffset e \<le> off + at" "m = matchOf e (off + at - se_inFileOffset e)"
    by (auto simp: matchWindow_portable sortCanonically_def matchPortable_all)
  then show "\<exists>e \<in> set entries. \<exists>start. m = matchOf e start \<and> off \<le> start + se_inFileOffset e \<and> magic_at window (start + se_inFileOffset e - off) e"
    by (intro bexI [OF _ e(1)] exI [of _ "off + at - se_inFileOffset e"]) simp
next
  assume "\<exists>e \<in> set entries. \<exists>start. m = matchOf e start \<and> off \<le> start + se_inFileOffset e \<and> magic_at window (start + se_inFileOffset e - off) e"
  then obtain e start where e: "e \<in> set entries" "m = matchOf e start" "off \<le> start + se_inFileOffset e"
    "magic_at window (start + se_inFileOffset e - off) e" by blast
  have "start + se_inFileOffset e - off < length window" using e(4) real_magic [OF e(1)] by (cases "se_magic e") (auto simp: magic_at_def)
  then show "m \<in> set (matchWindow window off table)" using e
    by (force simp: matchWindow_portable sortCanonically_def matchPortable_all)
qed

lemma matchWindow_sorted: "sorted (map matchKey (matchWindow window off table))"
  by (simp add: matchWindow_portable sortCanonically_def)

end

subsection \<open>Registering carvers\<close>

definition entriesOf :: "FormatCarver \<Rightarrow> u32 \<Rightarrow> SignatureEntry list" where
  "entriesOf carver carverIndex =
     map (\<lambda>s. \<lparr>se_magic = sg_magic s, se_inFileOffset = sg_offset s, se_carver = carver, se_carverIndex = carverIndex\<rparr>)
       (filter (\<lambda>s. sg_magic s \<noteq> []) (fc_signatures carver))"

lemma appendSignatures_eq: "appendSignatures entries carver carverIndex = entries @ entriesOf carver carverIndex"
proof -
  have "foldl (\<lambda>found s. if sg_magic s \<noteq> [] then found @ [\<lparr>se_magic = sg_magic s, se_inFileOffset = sg_offset s, se_carver = carver,
      se_carverIndex = carverIndex\<rparr>] else found) entries sigs =
    entries @ map (\<lambda>s. \<lparr>se_magic = sg_magic s, se_inFileOffset = sg_offset s, se_carver = carver, se_carverIndex = carverIndex\<rparr>)
       (filter (\<lambda>s. sg_magic s \<noteq> []) sigs)" for sigs
    by (induction sigs arbitrary: entries) auto
  then show ?thesis by (simp add: appendSignatures_def entriesOf_def)
qed

lemma flatten_state:
  "foldl (\<lambda>(entries, carverIndex) carver. (appendSignatures entries carver carverIndex, wrap32 (carverIndex + 1))) ([], 0) carvers =
     (flatten carvers, wrap32 (length carvers))"
proof -
  have "snd (foldl (\<lambda>(entries, carverIndex) carver. (appendSignatures entries carver carverIndex, wrap32 (carverIndex + 1))) ([], 0) carvers) =
     wrap32 (length carvers)"
    by (induction carvers rule: rev_induct) (auto simp: wrap32_def split_beta mod_Suc_eq)
  then show ?thesis by (simp add: flatten_def prod_eq_iff)
qed

lemma flatten_Nil [simp]: "flatten [] = []"
  by (simp add: flatten_def)

lemma flatten_snoc: "flatten (carvers @ [carver]) = flatten carvers @ entriesOf carver (wrap32 (length carvers))"
  unfolding flatten_def [of "carvers @ [carver]"] foldl_append flatten_state by (simp add: appendSignatures_eq)

lemma flatten_entry:
  assumes "e \<in> set (flatten carvers)"
  shows "se_magic e \<noteq> []"
    and "\<exists>i s. i < length carvers \<and> se_carver e = carvers ! i \<and> se_carverIndex e = wrap32 i \<and>
      s \<in> set (fc_signatures (carvers ! i)) \<and> se_magic e = sg_magic s \<and> se_inFileOffset e = sg_offset s"
proof -
  have "se_magic e \<noteq> [] \<and> (\<exists>i s. i < length carvers \<and> se_carver e = carvers ! i \<and> se_carverIndex e = wrap32 i \<and>
      s \<in> set (fc_signatures (carvers ! i)) \<and> se_magic e = sg_magic s \<and> se_inFileOffset e = sg_offset s)"
    using assms
  proof (induction carvers rule: rev_induct)
    case (snoc c cs)
    show ?case
    proof (cases "e \<in> set (flatten cs)")
      case True
      then show ?thesis using snoc.IH by (fastforce simp: nth_append)
    next
      case False
      then show ?thesis using snoc.prems by (auto simp: flatten_snoc entriesOf_def intro!: exI [of _ "length cs"])
    qed
  qed simp
  then show "se_magic e \<noteq> []" "\<exists>i s. i < length carvers \<and> se_carver e = carvers ! i \<and> se_carverIndex e = wrap32 i \<and>
      s \<in> set (fc_signatures (carvers ! i)) \<and> se_magic e = sg_magic s \<and> se_inFileOffset e = sg_offset s" by simp_all
qed

definition registered :: "Cpu \<Rightarrow> MatchPath \<Rightarrow> FormatCarver list \<Rightarrow> CarverRegistry" where
  "registered cpu path carvers = foldl (registerCarver cpu) (carverRegistry path) carvers"

lemma registered_snoc: "registered cpu path (cs @ [c]) = registerCarver cpu (registered cpu path cs) c"
  by (simp add: registered_def)

lemma registered_fields: "cr_carvers (registered cpu path carvers) = carvers" "cr_path (registered cpu path carvers) = path"
proof -
  have "cr_carvers (registered cpu path carvers) = carvers \<and> cr_path (registered cpu path carvers) = path"
    by (induction carvers rule: rev_induct) (simp_all add: registered_def carverRegistry_def registerCarver_def Let_def)
  then show "cr_carvers (registered cpu path carvers) = carvers" "cr_path (registered cpu path carvers) = path" by simp_all
qed

lemma registered_table_snoc:
  "cr_table (registered cpu path (cs @ [c])) = rebuild cpu (cr_table (registered cpu path cs)) (cs @ [c]) path"
  by (simp add: registered_snoc registerCarver_def Let_def registered_fields)

lemma emptyTable_ok: "table_ok emptyTable"
  by (simp add: table_ok_def emptyTable_def)

lemma registered_table_ok: "length (flatten carvers) < 2 ^ 16 \<Longrightarrow> table_ok (cr_table (registered cpu path carvers))"
proof (induction carvers rule: rev_induct)
  case Nil
  then show ?case by (simp add: registered_def carverRegistry_def emptyTable_ok)
next
  case (snoc c cs)
  then have "table_ok (cr_table (registered cpu path cs))" by (simp add: flatten_snoc)
  from table_is_index(3) [OF this snoc.prems] show ?case by (simp add: registered_table_snoc)
qed

lemma foldl_max_lower: "w \<le> foldl (\<lambda>widest x. max widest (f x)) w xs" for f :: "'a \<Rightarrow> nat"
proof (induction xs arbitrary: w)
  case (Cons x xs)
  from Cons.IH [of "max w (f x)"] show ?case by simp
qed simp

lemma foldl_max_upper: "x \<in> set xs \<Longrightarrow> f x \<le> foldl (\<lambda>widest x. max widest (f x)) w xs" for f :: "'a \<Rightarrow> nat"
proof (induction xs arbitrary: w)
  case (Cons y ys)
  then show ?case using foldl_max_lower [where w = "max w (f y)" and f = f and xs = ys] by auto
qed simp

lemma widestSignature_le: "s \<in> set (fc_signatures c) \<Longrightarrow> length (sg_magic s) + sg_offset s \<le> widestSignature c"
  unfolding widestSignature_def by (rule foldl_max_upper)

lemma registered_span: "e \<in> set (flatten carvers) \<Longrightarrow> length (se_magic e) + se_inFileOffset e \<le> cr_maxSignatureBytes (registered cpu path carvers)"
proof (induction carvers rule: rev_induct)
  case (snoc c cs)
  have widest: "cr_maxSignatureBytes (registered cpu path (cs @ [c])) = max (cr_maxSignatureBytes (registered cpu path cs)) (widestSignature c)"
    by (simp add: registered_snoc registerCarver_def Let_def)
  show ?case using snoc widestSignature_le [of _ c] by (fastforce simp: widest flatten_snoc entriesOf_def le_max_iff_disj)
qed simp

lemma registered_index:
  assumes "length (flatten carvers) < 2 ^ 16"
  shows "signature_index (cr_table (registered cpu path carvers)) (flatten carvers)"
proof (cases carvers rule: rev_cases)
  case Nil
  have zero: "replicate (kByteValues + 1) (0 :: nat) ! indexOf b = 0" "replicate kByteValues (0 :: nat) ! indexOf b = 0" for b
    using indexOf_less [of b] nth_replicate [of "indexOf b" "kByteValues + 1" "0 :: nat"] by simp_all
  have empty: "cr_table (registered cpu path carvers) = emptyTable" by (simp add: Nil registered_def carverRegistry_def)
  show ?thesis
    unfolding empty by unfold_locales (simp_all add: Nil startingWith_def none_def zero emptyTable_def emptyFilter_ok)
next
  case (snoc cs c)
  have "length (flatten cs) < 2 ^ 16" using assms by (simp add: snoc flatten_snoc)
  note ok = registered_table_ok [OF this, of cpu path]
  note few = assms [unfolded snoc]
  have table: "cr_table (registered cpu path carvers) = rebuild cpu (cr_table (registered cpu path cs)) (cs @ [c]) path"
    by (simp add: snoc registered_table_snoc)
  show ?thesis
    unfolding table unfolding snoc
    by unfold_locales
      (use table_is_index [OF ok few, of cpu path] rebuilt_filter [OF ok few, of cpu path] flatten_entry(1) in \<open>auto simp: filter_empty_conv\<close>)
qed

locale carver_set =
  fixes cpu :: Cpu and path :: MatchPath and carvers :: "FormatCarver list"
  assumes few_signatures: "length (flatten carvers) < 2 ^ 16"

sublocale carver_set \<subseteq> index: signature_index "cr_table (registered cpu path carvers)" "flatten carvers"
  by (rule registered_index [OF few_signatures])

lemma sortCanonically_any_sort:
  assumes "mset sorted' = mset matches" and "sorted (map matchKey sorted')" and "inj_on matchKey (set matches)"
  shows "sorted' = sortCanonically matches"
proof -
  have same: "set sorted' = set matches" using assms(1) by (rule mset_eq_setD)
  have "map matchKey sorted' = map matchKey (sortCanonically matches)"
    using assms(1,2) properties_for_sort [of "map matchKey sorted'" "map matchKey matches"]
      properties_for_sort [of "map matchKey (sortCanonically matches)" "map matchKey matches"]
    by (simp add: sortCanonically_def)
  then show ?thesis using assms(3) same by (intro map_inj_on [of matchKey]) (simp_all add: sortCanonically_def)
qed

definition occurs_at :: "bytes \<Rightarrow> SignatureEntry \<Rightarrow> u64 \<Rightarrow> bool" where
  "occurs_at content entry start \<longleftrightarrow> magic_at content (start + se_inFileOffset entry) entry"

text \<open>
  C4: The vector reject changes nothing that a scan finds: whatever carvers are registered (with fewer than \<open>2 ^ 16\<close> signatures), a window
  is matched to exactly the same list on a processor with AVX2 as by the portable byte-by-byte walk, and that list holds, in
  canonical order, exactly the signatures whose magic lies whole in the window and whose file would not begin before the device.
\<close>

theorem vector_reject_loses_no_match:
  assumes "length (flatten carvers) < 2 ^ 16"
  shows "matchWindow window off (cr_table (registered cpu kAuto carvers)) =
           matchWindow window off (cr_table (registered cpu' kPortableOnly carvers)) \<and>
         sorted (map matchKey (matchWindow window off (cr_table (registered cpu kAuto carvers)))) \<and>
         (m \<in> set (matchWindow window off (cr_table (registered cpu kAuto carvers))) \<longleftrightarrow>
            (\<exists>e \<in> set (flatten carvers). \<exists>start. m = matchOf e start \<and> off \<le> start + se_inFileOffset e \<and>
               magic_at window (start + se_inFileOffset e - off) e))"
proof -
  note index = registered_index [OF assms]
  note found = signature_index.matchWindow_portable [OF index] signature_index.matchPortable_all [OF index]
  show ?thesis unfolding signature_index.matchWindow_set [OF index]
    using signature_index.matchWindow_sorted [OF registered_index [OF assms, of cpu kAuto]] by (simp add: found)
qed

definition sampleCarver :: FormatCarver where
  "sampleCarver = \<lparr>fc_signatures = [\<lparr>sg_magic = [0x66, 0x74], sg_offset = 4\<rparr>], fc_carve = (\<lambda>_. Inl (mkError kNotFound 0))\<rparr>"

theorem vector_reject_loses_no_match_witness:
  "\<lparr>mt_offset = 10, mt_carver = sampleCarver, mt_carverIndex = 0\<rparr> \<in>
     set (matchWindow [0, 0, 0, 0, 0x66, 0x74, 0] 10 (cr_table (registered \<lparr>cpu_buildHasAvx2 = True, cpu_cpuHasAvx2 = True\<rparr> kAuto [sampleCarver])))"
proof -
  have flat: "flatten [sampleCarver] = [\<lparr>se_magic = [0x66, 0x74], se_inFileOffset = 4, se_carver = sampleCarver, se_carverIndex = 0\<rparr>]"
    by (simp add: flatten_def appendSignatures_def sampleCarver_def)
  then have "length (flatten [sampleCarver]) < 2 ^ 16" by simp
  from vector_reject_loses_no_match [OF this] show ?thesis
    by (simp add: flat matchOf_def magic_at_def)
qed

end
