(* ===== verification/Scanning.thy ===== *)
theory Scanning
  imports Signatures
begin

text \<open>
  The streaming scan: \<open>src/carve/SignatureScanner.cpp\<close>, \<open>CarveMatches.cpp\<close> and \<open>Plausibility.cpp\<close>. The visitor is the list of
  candidates it was called with, which every step returns beside its outcome; the scratch buffers are
  their sizes. A device answers \<open>kOverflow\<close> for a range past \<open>2 ^ 64\<close> and a carver reports no extent longer than the bytes it was
  given, so the sums of a device offset and a number of bytes read there do not wrap. The locale \<open>format_carver\<close> is the
  contract of a carver, \<open>carver_scan\<close> that of a scan over carvers that keep it.
\<close>

subsection \<open>Plausibility\<close>

definition kDefaultMinimumBytes :: u64 where "kDefaultMinimumBytes = 0"

definition kMinimums :: "(string \<times> u64) list" where
  "kMinimums = [(''jpg'', 512), (''png'', 128), (''mp4'', 1024), (''mov'', 1024), (''cr2'', 1024), (''nef'', 1024), (''arw'', 1024),
     (''tif'', 1024), (''pdf'', 256), (''zip'', 128), (''docx'', 128), (''xlsx'', 128), (''pptx'', 128)]"

definition plausibleMinimumBytes :: "string \<Rightarrow> u64" where
  "plausibleMinimumBytes extension =
     (case find (\<lambda>(name, minimum). name = extension) kMinimums of Some (_, minimum) \<Rightarrow> minimum | None \<Rightarrow> kDefaultMinimumBytes)"

definition belowFloor :: "CarveResult \<Rightarrow> bool" where
  "belowFloor result \<longleftrightarrow> cv_length result < plausibleMinimumBytes (cv_extension result)"

definition applyPlausibility :: "CarveResult \<Rightarrow> CarveResult" where
  "applyPlausibility result =
     (if cv_confidence result = kRejected \<or> \<not> belowFloor result then result
      else \<lparr>cv_length = 0, cv_confidence = kRejected, cv_extension = cv_extension result\<rparr>)"

subsection \<open>Carving the matches of a window\<close>

record MatchOutcome =
  mo_resumeCursor :: u64
  mo_candidatesReported :: size_t

definition buildCandidate :: "Match \<Rightarrow> bytes \<Rightarrow> ScanCandidate result" where
  "buildCandidate match' reader =
     mapResult (fc_carve (mt_carver match') reader) (\<lambda>result. \<lparr>sn_offset = mt_offset match', sn_result = applyPlausibility result\<rparr>)"

definition attemptCarve :: "BlockDevice \<Rightarrow> Match \<Rightarrow> size_t \<Rightarrow> ScanCandidate result" where
  "attemptCarve device match' carveBytes = andThen (readWindow device (mt_offset match') carveBytes) (buildCandidate match')"

definition resumeOffset :: "ScanCandidate \<Rightarrow> u64" where
  "resumeOffset candidate =
     (if cv_confidence (sn_result candidate) = kRejected then sn_offset candidate + 1
      else sn_offset candidate + max (cv_length (sn_result candidate)) 1)"

definition applyMatch :: "BlockDevice \<Rightarrow> Match \<Rightarrow> size_t \<Rightarrow> MatchOutcome \<Rightarrow> ScanCandidate list \<times> MatchOutcome result" where
  "applyMatch device match' carveBytes outcome =
     (if mt_offset match' < mo_resumeCursor outcome then ([], Inr outcome)
      else case attemptCarve device match' carveBytes of
             Inl e \<Rightarrow> ([], Inl e)
           | Inr candidate \<Rightarrow>
               ([candidate], Inr \<lparr>mo_resumeCursor = resumeOffset candidate, mo_candidatesReported = mo_candidatesReported outcome + 1\<rparr>))"

fun processMatchesFrom :: "BlockDevice \<Rightarrow> size_t \<Rightarrow> Match list \<Rightarrow> MatchOutcome \<Rightarrow> ScanCandidate list \<times> MatchOutcome result" where
  "processMatchesFrom device carveBytes [] outcome = ([], Inr outcome)"
| "processMatchesFrom device carveBytes (match' # matches) outcome =
     (let (found, next') = applyMatch device match' carveBytes outcome
      in case next' of
           Inl e \<Rightarrow> (found, Inl e)
         | Inr outcome' \<Rightarrow> let (more, final) = processMatchesFrom device carveBytes matches outcome' in (found @ more, final))"

definition processMatches :: "BlockDevice \<Rightarrow> Match list \<Rightarrow> size_t \<Rightarrow> ScanCandidate list \<times> MatchOutcome result" where
  "processMatches device matches carveBytes =
     processMatchesFrom device carveBytes matches \<lparr>mo_resumeCursor = 0, mo_candidatesReported = 0\<rparr>"

subsection \<open>The window loop\<close>

definition kDefaultScanWindowBytes :: size_t where "kDefaultScanWindowBytes = 4 * 2 ^ 20"
definition kDefaultMaxCarveBytes :: size_t where "kDefaultMaxCarveBytes = 64 * 2 ^ 20"

record ScanConfig =
  sw_windowBytes :: size_t
  sw_maxCarveBytes :: size_t

definition defaultScanConfig :: ScanConfig where
  "defaultScanConfig = \<lparr>sw_windowBytes = kDefaultScanWindowBytes, sw_maxCarveBytes = kDefaultMaxCarveBytes\<rparr>"

record ScanStats =
  ss_bytesScanned :: u64
  ss_candidateCount :: size_t

record SignatureScanner =
  sx_registry :: CarverRegistry
  sx_config :: ScanConfig

definition signatureScanner :: "CarverRegistry \<Rightarrow> ScanConfig \<Rightarrow> SignatureScanner" where
  "signatureScanner registry config = \<lparr>sx_registry = registry, sx_config = config\<rparr>"

record WindowStep =
  ws_nextCursor :: u64
  ws_candidatesReported :: size_t

definition nextCursor :: "u64 \<Rightarrow> u64 \<Rightarrow> size_t \<Rightarrow> u64 \<Rightarrow> u64" where
  "nextCursor cursor windowEnd overlapped resumeCursor =
     (let slidBack = max (windowEnd - overlapped) resumeCursor in if slidBack > cursor then slidBack else windowEnd)"

definition endOf :: "ScanRegion \<Rightarrow> u64" where
  "endOf region = (if sr_length region > max64 - sr_offset region then max64 else sr_offset region + sr_length region)"

definition stepWindow ::
  "SignatureScanner \<Rightarrow> BlockDevice \<Rightarrow> ScanRegion \<Rightarrow> u64 \<Rightarrow> WindowMatches \<Rightarrow> ScanCandidate list \<times> WindowStep result" where
  "stepWindow scanner device region cursor read =
     (if wm_bytesRead read = 0 then ([], Inr \<lparr>ws_nextCursor = endOf region, ws_candidatesReported = 0\<rparr>)
      else let (found, outcome) = processMatches device (wm_matches read) (sw_maxCarveBytes (sx_config scanner))
           in (found, mapResult outcome
                 (\<lambda>out. \<lparr>ws_nextCursor = nextCursor cursor (cursor + wm_bytesRead read) (wm_overlap read) (mo_resumeCursor out),
                         ws_candidatesReported = mo_candidatesReported out\<rparr>)))"

definition windowSlice :: "SignatureScanner \<Rightarrow> ScanRegion \<Rightarrow> u64 \<Rightarrow> size_t" where
  "windowSlice scanner region cursor =
     (let window = sw_windowBytes (sx_config scanner);
          remaining = endOf region - cursor;
          reach = remaining + cr_maxSignatureBytes (sx_registry scanner)
      in if remaining \<ge> window then window else min window reach)"

definition scanOneWindow ::
  "SignatureScanner \<Rightarrow> BlockDevice \<Rightarrow> ScanRegion \<Rightarrow> u64 \<Rightarrow> ScanCandidate list \<times> WindowStep result" where
  "scanOneWindow scanner device region cursor =
     (case readAndMatch device cursor (windowSlice scanner region cursor) (sx_registry scanner) of
        Inl e \<Rightarrow> ([], Inl e)
      | Inr read \<Rightarrow>
          stepWindow scanner device region cursor
            (read\<lparr>wm_matches := filter (\<lambda>match'. \<not> mt_offset match' \<ge> endOf region) (wm_matches read)\<rparr>))"

definition advanceWindow ::
  "SignatureScanner \<Rightarrow> BlockDevice \<Rightarrow> ScanRegion \<Rightarrow> u64 \<Rightarrow> ScanStats \<Rightarrow> ScanCandidate list \<times> ScanStats \<times> u64 result" where
  "advanceWindow scanner device region cursor stats =
     (let (found, step) = scanOneWindow scanner device region cursor
      in case step of
           Inl e \<Rightarrow> (found, stats, Inl e)
         | Inr st \<Rightarrow> (found, stats\<lparr>ss_candidateCount := ss_candidateCount stats + ws_candidatesReported st\<rparr>, Inr (ws_nextCursor st)))"

lemma advanceWindow_progress:
  "advanceWindow scanner device region cursor stats = (found, stats', Inr cursor') \<Longrightarrow> cursor < endOf region \<Longrightarrow> cursor < cursor'"
  by (auto simp: advanceWindow_def scanOneWindow_def stepWindow_def nextCursor_def Let_def mapResult_Inr_iff
      split: sum.splits prod.splits if_splits)

function scanFrom ::
  "SignatureScanner \<Rightarrow> BlockDevice \<Rightarrow> ScanRegion \<Rightarrow> u64 result \<Rightarrow> ScanStats \<Rightarrow> ScanCandidate list \<times> ScanStats result" where
  "scanFrom scanner device region cursor stats =
     (case cursor of
        Inl e \<Rightarrow> ([], Inl e)
      | Inr at \<Rightarrow>
          if at < endOf region
          then case advanceWindow scanner device region at stats of
                 (found, stats', cursor') \<Rightarrow> let (more, final) = scanFrom scanner device region cursor' stats' in (found @ more, final)
          else ([], Inr stats))"
  by pat_completeness auto
termination
  by (relation "measure (\<lambda>(scanner, device, region, cursor, stats). case cursor of Inl _ \<Rightarrow> 0 | Inr at \<Rightarrow> Suc (endOf region - at))")
     (auto split: sum.splits dest!: advanceWindow_progress [OF sym] intro: diff_less_mono2)

declare scanFrom.simps [simp del]

definition runScanLoop :: "SignatureScanner \<Rightarrow> BlockDevice \<Rightarrow> ScanRegion \<Rightarrow> ScanCandidate list \<times> ScanStats result" where
  "runScanLoop scanner device region =
     scanFrom scanner device region (Inr (sr_offset region)) \<lparr>ss_bytesScanned = sr_length region, ss_candidateCount = 0\<rparr>"

definition scanRegion :: "SignatureScanner \<Rightarrow> BlockDevice \<Rightarrow> ScanRegion \<Rightarrow> ScanCandidate list \<times> ScanStats result" where
  "scanRegion scanner device region = runScanLoop scanner device region"

definition scan :: "SignatureScanner \<Rightarrow> BlockDevice \<Rightarrow> ScanCandidate list \<times> ScanStats result" where
  "scan scanner device = scanRegion scanner device \<lparr>sr_offset = 0, sr_length = bd_size device\<rparr>"

subsection \<open>What a carver promises\<close>

locale format_carver =
  fixes carve :: "bytes \<Rightarrow> CarveResult result"
  assumes total: "\<exists>result. carve reader = Inr result"
    and inside: "carve reader = Inr result \<Longrightarrow> cv_length result \<le> length reader"
    and rejected_empty: "carve reader = Inr result \<Longrightarrow> cv_confidence result = kRejected \<Longrightarrow> cv_length result = 0"
begin

lemma plausible_inside:
  assumes "carve reader = Inr result"
  shows "cv_length (applyPlausibility result) \<le> length reader"
    and "cv_confidence (applyPlausibility result) = kRejected \<Longrightarrow> cv_length (applyPlausibility result) = 0"
  using inside [OF assms] rejected_empty [OF assms] by (auto simp: applyPlausibility_def)

end

definition verdict_at :: "ScanConfig \<Rightarrow> bytes \<Rightarrow> FormatCarver \<Rightarrow> u64 \<Rightarrow> CarveResult result" where
  "verdict_at config content carver start =
     mapResult (fc_carve carver (take (sw_maxCarveBytes config) (drop start content))) applyPlausibility"

lemma resumeOffset_bounds: "sn_offset c < resumeOffset c"
  by (simp add: resumeOffset_def less_max_iff_disj)

definition resume_order :: "ScanCandidate list \<Rightarrow> bool" where
  "resume_order found \<longleftrightarrow> sorted_wrt (\<lambda>a b. resumeOffset a \<le> sn_offset b) found"

definition swallowed :: "ScanCandidate list \<Rightarrow> u64 \<Rightarrow> bool" where
  "swallowed found start \<longleftrightarrow> (\<exists>c \<in> set found. sn_offset c \<le> start \<and> start < resumeOffset c)"

definition span :: "SignatureEntry \<Rightarrow> nat" where
  "span entry = length (se_magic entry) + se_inFileOffset entry"

definition overtaken :: "ScanCandidate list \<Rightarrow> SignatureEntry \<Rightarrow> u64 \<Rightarrow> bool" where
  "overtaken found entry start \<longleftrightarrow> (\<exists>c \<in> set found. start < sn_offset c \<and> sn_offset c < start + span entry)"

definition accounted :: "ScanCandidate list \<Rightarrow> SignatureEntry \<Rightarrow> u64 \<Rightarrow> bool" where
  "accounted found entry start \<longleftrightarrow> swallowed found start \<or> overtaken found entry start"

definition reported_ok :: "ScanConfig \<Rightarrow> bytes \<Rightarrow> FormatCarver list \<Rightarrow> u64 \<Rightarrow> u64 \<Rightarrow> ScanCandidate \<Rightarrow> bool" where
  "reported_ok config content carvers low high c \<longleftrightarrow>
     low \<le> sn_offset c \<and> sn_offset c < high \<and>
     (\<exists>e \<in> set (flatten carvers). occurs_at content e (sn_offset c) \<and> verdict_at config content (se_carver e) (sn_offset c) = Inr (sn_result c))"

lemma resume_order_last: "resume_order found \<Longrightarrow> c \<in> set found \<Longrightarrow> resumeOffset c \<le> resumeOffset (last found)"
proof (induction found)
  case (Cons a found)
  show ?case
  proof (cases "found = []")
    case False
    have "resumeOffset a \<le> sn_offset (last found)" using Cons.prems(1) False by (simp add: resume_order_def)
    also have "\<dots> < resumeOffset (last found)" by (rule resumeOffset_bounds)
    finally have "resumeOffset a \<le> resumeOffset (last found)" by simp
    then show ?thesis using Cons False by (cases "c = a") (simp_all add: resume_order_def)
  qed (use Cons.prems in simp)
qed simp

lemma magic_in_window:
  assumes "off \<le> start" and "off \<le> length content"
  shows "magic_at (take n (drop off content)) (start + se_inFileOffset e - off) e \<longleftrightarrow>
    occurs_at content e start \<and> start + span e \<le> off + length (take n (drop off content))"
proof -
  let ?at = "start + se_inFileOffset e - off"
  have at: "off + ?at = start + se_inFileOffset e" using assms(1) by simp
  have same: "take (length (se_magic e)) (drop ?at (take n (drop off content))) = take (length (se_magic e)) (drop (off + ?at) content)"
    if "?at + length (se_magic e) \<le> n"
    using that by (simp add: drop_take min_absorb1 add.commute)
  show ?thesis using same at assms(2) by (auto simp: magic_at_def occurs_at_def span_def)
qed

lemma accounted_append: "accounted (a @ b) e start \<longleftrightarrow> accounted a e start \<or> accounted b e start"
  by (auto simp: accounted_def swallowed_def overtaken_def)

lemma resume_order_append:
  "resume_order (a @ b) \<longleftrightarrow> resume_order a \<and> resume_order b \<and> (\<forall>x \<in> set a. \<forall>y \<in> set b. resumeOffset x \<le> sn_offset y)"
  by (auto simp: resume_order_def sorted_wrt_append)

definition scan_complete :: "ScanConfig \<Rightarrow> bytes \<Rightarrow> FormatCarver list \<Rightarrow> u64 \<Rightarrow> u64 \<Rightarrow> ScanCandidate list \<Rightarrow> bool" where
  "scan_complete config content carvers low high found \<longleftrightarrow>
     resume_order found \<and> (\<forall>c \<in> set found. reported_ok config content carvers low high c) \<and>
     (\<forall>e \<in> set (flatten carvers). \<forall>start. low \<le> start \<longrightarrow> start < high \<longrightarrow> occurs_at content e start \<longrightarrow> accounted found e start)"

locale carver_scan = carver_set +
  fixes config :: ScanConfig and device :: BlockDevice and content :: bytes
  assumes carvers_keep: "c \<in> set carvers \<Longrightarrow> format_carver (fc_carve c)"
    and serves_content: "serves device content"
    and window_addressable: "length content + sw_windowBytes config \<le> max64"
    and carve_addressable: "length content + sw_maxCarveBytes config \<le> max64"
    and window_holds_signature: "cr_maxSignatureBytes (registered cpu path carvers) \<le> sw_windowBytes config"
    and window_positive: "0 < sw_windowBytes config"
begin

lemma readWindow_content: "off \<le> length content \<Longrightarrow> length content + n \<le> max64 \<Longrightarrow> readWindow device off n = Inr (take n (drop off content))"
  using serves_content by (simp add: readWindow_def serves_def)

lemma entry_carver: "e \<in> set (flatten carvers) \<Longrightarrow> format_carver (fc_carve (se_carver e))"
  using flatten_entry(2) carvers_keep by (metis nth_mem)

lemma attemptCarve_verdict:
  assumes "e \<in> set (flatten carvers)" and "start \<le> length content"
  obtains result where "attemptCarve device (matchOf e start) (sw_maxCarveBytes config) = Inr \<lparr>sn_offset = start, sn_result = result\<rparr>"
    and "verdict_at config content (se_carver e) start = Inr result" and "start + cv_length result \<le> length content"
proof -
  let ?bytes = "take (sw_maxCarveBytes config) (drop start content)"
  obtain r where r: "fc_carve (se_carver e) ?bytes = Inr r" using format_carver.total [OF entry_carver [OF assms(1)]] by blast
  have "cv_length (applyPlausibility r) \<le> length ?bytes" by (rule format_carver.plausible_inside [OF entry_carver [OF assms(1)] r])
  then have "start + cv_length (applyPlausibility r) \<le> length content" using assms(2) by auto
  then show thesis using that [of "applyPlausibility r"] assms(2) carve_addressable r
    by (simp add: attemptCarve_def readWindow_content buildCandidate_def verdict_at_def matchOf_def)
qed

lemma process_matches:
  assumes "\<And>m. m \<in> set ms \<Longrightarrow> \<exists>e \<in> set (flatten carvers). \<exists>start \<le> length content. m = matchOf e start \<and> P e start"
    and "sorted (map mt_offset ms)"
  shows "\<exists>found out. processMatchesFrom device (sw_maxCarveBytes config) ms outcome = (found, Inr out) \<and>
    mo_candidatesReported out = mo_candidatesReported outcome + length found \<and>
    resume_order found \<and> (\<forall>c \<in> set found. mo_resumeCursor outcome \<le> sn_offset c \<and>
      (\<exists>e \<in> set (flatten carvers). P e (sn_offset c) \<and> verdict_at config content (se_carver e) (sn_offset c) = Inr (sn_result c))) \<and>
    mo_resumeCursor out = (if found = [] then mo_resumeCursor outcome else resumeOffset (last found)) \<and>
    (\<forall>m \<in> set ms. mt_offset m < mo_resumeCursor outcome \<or> swallowed found (mt_offset m))"
  using assms
proof (induction ms arbitrary: outcome)
  case (Cons m ms)
  obtain e start where e: "e \<in> set (flatten carvers)" "start \<le> length content" "m = matchOf e start" "P e start"
    using Cons.prems(1) [of m] by auto
  have off: "mt_offset m = start" by (simp add: e(3) matchOf_def)
  have later: "start \<le> mt_offset m'" if "m' \<in> set ms" for m' using Cons.prems(2) that by (auto simp: off)
  show ?case
  proof (cases "start < mo_resumeCursor outcome")
    case True
    have "applyMatch device m (sw_maxCarveBytes config) outcome = ([], Inr outcome)" by (simp add: applyMatch_def off True)
    then show ?thesis using Cons.IH [of outcome] Cons.prems True by (auto simp: off)
  next
    case False
    obtain r where r: "attemptCarve device m (sw_maxCarveBytes config) = Inr \<lparr>sn_offset = start, sn_result = r\<rparr>"
      "verdict_at config content (se_carver e) start = Inr r"
      using attemptCarve_verdict [OF e(1,2)] e(3) by metis
    let ?c = "\<lparr>sn_offset = start, sn_result = r\<rparr>"
    let ?o = "\<lparr>mo_resumeCursor = resumeOffset ?c, mo_candidatesReported = mo_candidatesReported outcome + 1\<rparr>"
    have applied: "applyMatch device m (sw_maxCarveBytes config) outcome = ([?c], Inr ?o)" using False by (simp add: applyMatch_def off r)
    obtain found out where rest: "processMatchesFrom device (sw_maxCarveBytes config) ms ?o = (found, Inr out)"
      "mo_candidatesReported out = mo_candidatesReported ?o + length found" "resume_order found"
      "\<forall>c \<in> set found. mo_resumeCursor ?o \<le> sn_offset c \<and>
        (\<exists>e \<in> set (flatten carvers). P e (sn_offset c) \<and> verdict_at config content (se_carver e) (sn_offset c) = Inr (sn_result c))"
      "mo_resumeCursor out = (if found = [] then mo_resumeCursor ?o else resumeOffset (last found))"
      "\<forall>m \<in> set ms. mt_offset m < mo_resumeCursor ?o \<or> swallowed found (mt_offset m)"
      using Cons.IH [of ?o] Cons.prems by auto
    have start: "mo_resumeCursor outcome \<le> start" using False by simp
    have beyond: "mo_resumeCursor outcome \<le> sn_offset c" if "c \<in> set found" for c
      using rest(4) that start resumeOffset_bounds [of ?c] by fastforce
    have covered: "swallowed (?c # found) (mt_offset m')" if "m' \<in> set (m # ms)" for m'
      using that rest(6) later resumeOffset_bounds [of ?c] by (auto simp: swallowed_def off)
    show ?thesis
      using applied rest e(1,4) r(2) start beyond covered
      by (intro exI [of _ "?c # found"] exI [of _ out]) (auto simp: resume_order_def)
  qed
qed (simp add: resume_order_def swallowed_def)

abbreviation "theScanner \<equiv> signatureScanner (registered cpu path carvers) config"
abbreviation "widest \<equiv> cr_maxSignatureBytes (registered cpu path carvers)"

definition windowAt :: "ScanRegion \<Rightarrow> u64 \<Rightarrow> bytes" where
  "windowAt region cursor = take (windowSlice theScanner region cursor) (drop cursor content)"

definition matchesAt :: "ScanRegion \<Rightarrow> u64 \<Rightarrow> Match list" where
  "matchesAt region cursor = filter (\<lambda>m. \<not> mt_offset m \<ge> endOf region)
     (filter (\<lambda>m. \<not> mt_offset m < cursor) (matchWindow (windowAt region cursor) cursor (cr_table (registered cpu path carvers))))"

lemma span_widest: "e \<in> set (flatten carvers) \<Longrightarrow> 0 < span e \<and> span e \<le> widest"
  using registered_span index.real_magic by (fastforce simp: span_def)

lemma slice_bounds: "windowSlice theScanner region cursor \<le> sw_windowBytes config"
  by (simp add: windowSlice_def signatureScanner_def Let_def)

lemma slice_cases:
  assumes "cursor < endOf region"
  shows "windowSlice theScanner region cursor = sw_windowBytes config \<or>
    endOf region + widest \<le> cursor + windowSlice theScanner region cursor"
  using assms by (auto simp: windowSlice_def signatureScanner_def Let_def)

lemma slice_positive: "cursor < endOf region \<Longrightarrow> 0 < windowSlice theScanner region cursor"
  using window_positive by (auto simp: windowSlice_def signatureScanner_def Let_def)

lemma matchesAt_set:
  assumes "cursor \<le> length content"
  shows "m \<in> set (matchesAt region cursor) \<longleftrightarrow>
     (\<exists>e \<in> set (flatten carvers). \<exists>start. m = matchOf e start \<and> cursor \<le> start \<and> start < endOf region \<and>
        occurs_at content e start \<and> start + span e \<le> cursor + length (windowAt region cursor))"
proof -
  have "m \<in> set (matchesAt region cursor) \<longleftrightarrow>
     (\<exists>e \<in> set (flatten carvers). \<exists>start. m = matchOf e start \<and> cursor \<le> start \<and> start < endOf region \<and>
        magic_at (windowAt region cursor) (start + se_inFileOffset e - cursor) e)"
    by (auto simp: matchesAt_def index.matchWindow_set matchOf_def)
  then show ?thesis by (simp add: windowAt_def magic_in_window [OF _ assms] cong: conj_cong)
qed

lemma matchesAt_sorted: "sorted (map mt_offset (matchesAt region cursor))"
proof -
  have "sorted_wrt (\<lambda>a b. matchKey a \<le> matchKey b) (matchWindow (windowAt region cursor) cursor (cr_table (registered cpu path carvers)))"
    using index.matchWindow_sorted by (simp add: sorted_map)
  then have "sorted_wrt (\<lambda>a b. mt_offset a \<le> mt_offset b) (matchWindow (windowAt region cursor) cursor (cr_table (registered cpu path carvers)))"
    by (rule sorted_wrt_mono_rel [rotated]) (auto simp: matchKey_def less_eq_prod_def)
  then show ?thesis by (simp add: matchesAt_def sorted_map sorted_wrt_filter)
qed

lemma occurs_inside: "occurs_at content e start \<Longrightarrow> start + span e \<le> length content"
  by (simp add: occurs_at_def magic_at_def span_def)

lemma missed_is_late:
  assumes "cursor < endOf region" and "endOf region \<le> length content"
    and "e \<in> set (flatten carvers)" and "occurs_at content e start" and "cursor \<le> start" and "start < endOf region"
    and "\<not> start + span e \<le> cursor + length (windowAt region cursor)"
  shows "cursor < cursor + length (windowAt region cursor) - overlapBytes (registered cpu path carvers) (length (windowAt region cursor))"
    and "cursor + length (windowAt region cursor) - overlapBytes (registered cpu path carvers) (length (windowAt region cursor)) \<le> start"
proof -
  let ?n = "windowSlice theScanner region cursor"
  have short: "start + span e \<le> length content" by (rule occurs_inside [OF assms(4)])
  have len: "length (windowAt region cursor) = min ?n (length content - cursor)" by (simp add: windowAt_def)
  then have full: "length (windowAt region cursor) = ?n" using short assms(1,2,7) by auto
  have span: "0 < span e" "span e \<le> widest" using span_widest [OF assms(3)] by simp_all
  have "?n = sw_windowBytes config" using slice_cases [OF assms(1)] span assms(6,7) full by auto
  then have "overlapBytes (registered cpu path carvers) ?n = widest - 1" "widest \<le> ?n"
    using span window_holds_signature by (auto simp: overlapBytes_def)
  then show "cursor < cursor + length (windowAt region cursor) - overlapBytes (registered cpu path carvers) (length (windowAt region cursor))"
    "cursor + length (windowAt region cursor) - overlapBytes (registered cpu path carvers) (length (windowAt region cursor)) \<le> start"
    using span assms(7) unfolding full by linarith+
qed

lemma window_step:
  assumes "cursor < endOf region" and "endOf region \<le> length content"
  shows "\<exists>found st. scanOneWindow theScanner device region cursor = (found, Inr st) \<and> ws_candidatesReported st = length found \<and>
    resume_order found \<and> (\<forall>c \<in> set found. reported_ok config content carvers cursor (endOf region) c \<and> resumeOffset c \<le> ws_nextCursor st) \<and>
    (\<forall>e \<in> set (flatten carvers). \<forall>start. cursor \<le> start \<longrightarrow> start < ws_nextCursor st \<longrightarrow> start < endOf region \<longrightarrow>
       occurs_at content e start \<longrightarrow> accounted found e start)"
proof -
  let ?n = "windowSlice theScanner region cursor"
  let ?ms = "matchesAt region cursor"
  let ?stop = "cursor + length (windowAt region cursor)"
  let ?P = "\<lambda>e start. cursor \<le> start \<and> start < endOf region \<and> occurs_at content e start \<and> start + span e \<le> ?stop"
  let ?over = "overlapBytes (registered cpu path carvers) (length (windowAt region cursor))"
  have at: "cursor \<le> length content" using assms by simp
  have read: "readWindow device cursor ?n = Inr (windowAt region cursor)"
    using at slice_bounds [of region cursor] window_addressable by (simp add: readWindow_content windowAt_def)
  have some: "length (windowAt region cursor) \<noteq> 0" using slice_positive [OF assms(1)] assms by (simp add: windowAt_def)
  have "\<exists>e \<in> set (flatten carvers). \<exists>start \<le> length content. m = matchOf e start \<and> ?P e start" if "m \<in> set ?ms" for m
    using that assms(2) unfolding matchesAt_set [OF at] by (meson less_imp_le less_le_trans)
  from process_matches [of ?ms ?P, OF this matchesAt_sorted, where outcome = "\<lparr>mo_resumeCursor = 0, mo_candidatesReported = 0\<rparr>"]
  obtain found out where run: "processMatches device ?ms (sw_maxCarveBytes config) = (found, Inr out)"
    and count: "mo_candidatesReported out = length found" and order: "resume_order found"
    and ok: "\<forall>c \<in> set found. \<exists>e \<in> set (flatten carvers). ?P e (sn_offset c) \<and>
      verdict_at config content (se_carver e) (sn_offset c) = Inr (sn_result c)"
    and resume: "mo_resumeCursor out = (if found = [] then 0 else resumeOffset (last found))"
    and met: "\<forall>m \<in> set ?ms. swallowed found (mt_offset m)"
    by (auto simp: processMatches_def)
  define next' where "next' = nextCursor cursor ?stop ?over (mo_resumeCursor out)"
  have step: "scanOneWindow theScanner device region cursor = (found, Inr \<lparr>ws_nextCursor = next', ws_candidatesReported = length found\<rparr>)"
    using read some run count
    by (simp add: scanOneWindow_def readAndMatch_def stepWindow_def signatureScanner_def matchesAt_def next'_def Let_def)
  have "mo_resumeCursor out \<le> next'" using ok resume_order_last [OF order] resumeOffset_bounds [of "last found"] resume
    by (auto simp: next'_def nextCursor_def Let_def split: if_splits)
  then have past: "resumeOffset c \<le> next'" if "c \<in> set found" for c
    using resume_order_last [OF order that] that by (auto simp: resume split: if_splits)
  have resolved: "accounted found e start"
    if "e \<in> set (flatten carvers)" "cursor \<le> start" "start < next'" "start < endOf region" "occurs_at content e start" for e start
  proof (cases "start + span e \<le> ?stop")
    case True
    then have "matchOf e start \<in> set ?ms" using that by (auto simp: matchesAt_set [OF at])
    then show ?thesis using met by (auto simp: accounted_def matchOf_def)
  next
    case False
    note late = missed_is_late [OF assms that(1,5,2,4) False]
    then have "next' = max (?stop - ?over) (mo_resumeCursor out)" by (simp add: next'_def nextCursor_def Let_def less_max_iff_disj)
    then have "start < mo_resumeCursor out" using late(2) that(3) by (simp add: max_def split: if_splits)
    then have last: "found \<noteq> []" "start < resumeOffset (last found)" by (auto simp: resume split: if_splits)
    obtain e' where "sn_offset (last found) + span e' \<le> ?stop" "0 < span e'" using ok last(1) span_widest by (meson last_in_set)
    then show ?thesis using last False
      by (cases "sn_offset (last found) \<le> start") (auto simp: accounted_def swallowed_def overtaken_def intro!: bexI [OF _ last_in_set])
  qed
  show ?thesis using step order ok past resolved
    by (intro exI [of _ found] exI [of _ "\<lparr>ws_nextCursor = next', ws_candidatesReported = length found\<rparr>"]) (auto simp: reported_ok_def)
qed

lemma scan_from:
  assumes "endOf region \<le> length content"
  shows "\<exists>found. scanFrom theScanner device region (Inr cursor) stats =
      (found, Inr (stats\<lparr>ss_candidateCount := ss_candidateCount stats + length found\<rparr>)) \<and>
    scan_complete config content carvers cursor (endOf region) found"
proof (induction "endOf region - cursor" arbitrary: cursor stats rule: less_induct)
  case less
  show ?case
  proof (cases "cursor < endOf region")
    case True
    obtain first st where step: "scanOneWindow theScanner device region cursor = (first, Inr st)" "ws_candidatesReported st = length first"
      and order: "resume_order first"
      and ok: "\<forall>c \<in> set first. reported_ok config content carvers cursor (endOf region) c \<and> resumeOffset c \<le> ws_nextCursor st"
      and seen: "\<forall>e \<in> set (flatten carvers). \<forall>start. cursor \<le> start \<longrightarrow> start < ws_nextCursor st \<longrightarrow> start < endOf region \<longrightarrow>
        occurs_at content e start \<longrightarrow> accounted first e start"
      using window_step [OF True assms] by blast
    let ?stats = "stats\<lparr>ss_candidateCount := ss_candidateCount stats + length first\<rparr>"
    have advance: "advanceWindow theScanner device region cursor stats = (first, ?stats, Inr (ws_nextCursor st))"
      using step by (simp add: advanceWindow_def)
    have further: "cursor < ws_nextCursor st" by (rule advanceWindow_progress [OF advance True])
    then have "endOf region - ws_nextCursor st < endOf region - cursor" using True by linarith
    from less [OF this, of ?stats] obtain rest where rest:
      "scanFrom theScanner device region (Inr (ws_nextCursor st)) ?stats =
         (rest, Inr (?stats\<lparr>ss_candidateCount := ss_candidateCount ?stats + length rest\<rparr>))"
      "scan_complete config content carvers (ws_nextCursor st) (endOf region) rest" by blast
    have "scan_complete config content carvers cursor (endOf region) (first @ rest)"
      unfolding scan_complete_def resume_order_append accounted_append set_append ball_Un
      using order ok seen rest(2) further
      by (fastforce simp: scan_complete_def reported_ok_def not_less)
    then show ?thesis using True advance rest(1) by (intro exI [of _ "first @ rest"]) (subst scanFrom.simps, simp)
  next
    case False
    then show ?thesis by (intro exI [of _ "[]"]) (simp add: scanFrom.simps scan_complete_def resume_order_def)
  qed
qed

lemma scanRegion_complete:
  assumes "sr_offset region + sr_length region \<le> length content"
  shows "\<exists>found. scanRegion theScanner device region = (found, Inr \<lparr>ss_bytesScanned = sr_length region, ss_candidateCount = length found\<rparr>) \<and>
    scan_complete config content carvers (sr_offset region) (sr_offset region + sr_length region) found"
proof -
  have "length content \<le> max64" using window_addressable by simp
  then have "endOf region = sr_offset region + sr_length region" using assms unfolding endOf_def by (cases "sr_length region > max64 - sr_offset region") auto
  then show ?thesis using scan_from [of region "sr_offset region" "\<lparr>ss_bytesScanned = sr_length region, ss_candidateCount = 0\<rparr>"] assms
    by (simp add: scanRegion_def runScanLoop_def)
qed

end

end
