(* ===== verification/PngCarving.thy ===== *)
theory PngCarving
  imports Scanning
begin

text \<open>
  The PNG carver (\<open>src/carve/formats/PngCarver.cpp\<close>, \<open>PngChunkWalk.cpp\<close>) and the two helpers every format shares
  (\<open>HeadMatch.cpp\<close>, \<open>AsciiText.cpp\<close>). A reader is the bytes it borrows; positions inside it are below its
  size and do not wrap. The walk over chunks moves forward by the twelve bytes of a chunk at least, so it ends.
\<close>

subsection \<open>Shared helpers\<close>

definition headMatches :: "bytes \<Rightarrow> bytes \<Rightarrow> bool" where
  "headMatches reader signature = (case bytesAt reader 0 (length signature) of Inl _ \<Rightarrow> False | Inr head \<Rightarrow> head = signature)"

definition asciiText :: "bytes \<Rightarrow> string" where
  "asciiText raw = map char_of_byte raw"

subsection \<open>Chunks\<close>

definition kSignatureBytes :: u64 where "kSignatureBytes = 8"
definition kTypeBytes :: size_t where "kTypeBytes = 4"
definition kLengthBytes :: size_t where "kLengthBytes = 4"
definition kCrcBytes :: size_t where "kCrcBytes = 4"
definition kChunkOverhead :: size_t where "kChunkOverhead = kLengthBytes + kTypeBytes + kCrcBytes"
definition kMaxChunkData :: u32 where "kMaxChunkData = 0x7FFFFFFF"
definition kIhdr :: bytes where "kIhdr = [0x49, 0x48, 0x44, 0x52]"
definition kIend :: bytes where "kIend = [0x49, 0x45, 0x4E, 0x44]"

record Chunk =
  ch_type :: bytes
  ch_covered :: bytes
  ch_storedCrc :: u32
  ch_next :: u64

definition readChunkLength :: "bytes \<Rightarrow> u64 \<Rightarrow> u32 result" where
  "readChunkLength reader off =
     andThen (readBe 4 reader off) (\<lambda>len. if len > kMaxChunkData then Inl (mkError kOutOfRange off) else Inr len)"

definition makeChunk :: "u64 \<Rightarrow> bytes \<Rightarrow> u32 \<Rightarrow> Chunk" where
  "makeChunk off covered storedCrc =
     \<lparr>ch_type = take kTypeBytes covered, ch_covered = covered, ch_storedCrc = storedCrc,
      ch_next = off + kChunkOverhead + (length covered - kTypeBytes)\<rparr>"

definition readChunk :: "bytes \<Rightarrow> u64 \<Rightarrow> Chunk result" where
  "readChunk reader off =
     andThen (readChunkLength reader off)
       (\<lambda>len. andThen (bytesAt reader (off + kLengthBytes) (kTypeBytes + len))
          (\<lambda>covered. mapResult (readBe 4 reader (off + kLengthBytes + length covered)) (makeChunk off covered)))"

definition typeIs :: "Chunk \<Rightarrow> bytes \<Rightarrow> bool" where
  "typeIs chunk name \<longleftrightarrow> ch_type chunk = name"

definition crcVerifies :: "Chunk \<Rightarrow> bool" where
  "crcVerifies chunk \<longleftrightarrow> unat (crc32 (ch_covered chunk)) = ch_storedCrc chunk"

subsection \<open>The walk\<close>

record PngWalkOutcome =
  pw_end :: u64
  pw_sawIhdr :: bool
  pw_reachedIend :: bool

definition noPng :: PngWalkOutcome where
  "noPng = \<lparr>pw_end = 0, pw_sawIhdr = False, pw_reachedIend = False\<rparr>"

definition acceptChunk :: "PngWalkOutcome \<Rightarrow> Chunk \<Rightarrow> bool \<times> PngWalkOutcome" where
  "acceptChunk outcome chunk =
     (if \<not> pw_sawIhdr outcome \<and> \<not> typeIs chunk kIhdr then (False, outcome)
      else (True, \<lparr>pw_end = ch_next chunk, pw_sawIhdr = True, pw_reachedIend = typeIs chunk kIend\<rparr>))"

datatype WalkStep = kContinue | kStop | kNotPng

definition stepChunk :: "bytes \<Rightarrow> PngWalkOutcome \<Rightarrow> u64 \<Rightarrow> WalkStep \<times> PngWalkOutcome \<times> u64" where
  "stepChunk reader outcome off =
     (case readChunk reader off of
        Inl _ \<Rightarrow> (kStop, outcome, off)
      | Inr chunk \<Rightarrow>
          if \<not> crcVerifies chunk then (kStop, outcome, off)
          else let (accepted, outcome') = acceptChunk outcome chunk
               in if \<not> accepted then (kNotPng, outcome', off) else (kContinue, outcome', ch_next chunk))"

lemma readChunk_Inr:
  "readChunk reader off = Inr chunk \<longleftrightarrow>
     (\<exists>len covered. readBe 4 reader off = Inr len \<and> len \<le> kMaxChunkData \<and> covered = take (4 + len) (drop (off + 4) reader) \<and>
        off + 12 + len \<le> length reader \<and>
        chunk = \<lparr>ch_type = take 4 covered, ch_covered = covered, ch_storedCrc = beNat (take 4 (drop (off + 8 + len) reader)), ch_next = off + 12 + len\<rparr>)"
  by (auto simp: readChunk_def readChunkLength_def andThen_Inr_iff mapResult_Inr_iff bytesAt_Inr_iff readBe_def makeChunk_def kTypeBytes_def
      kLengthBytes_def kChunkOverhead_def kCrcBytes_def split: if_splits) (simp_all add: ac_simps)

lemma stepChunk_advances:
  "stepChunk reader outcome off = (kContinue, outcome', off') \<Longrightarrow> off < off' \<and> off' \<le> length reader \<and> pw_end outcome' = off'"
  by (auto simp: stepChunk_def acceptChunk_def readChunk_Inr split: sum.splits if_splits)

function walkFrom :: "bytes \<Rightarrow> WalkStep \<Rightarrow> PngWalkOutcome \<Rightarrow> u64 \<Rightarrow> WalkStep \<times> PngWalkOutcome" where
  "walkFrom reader step outcome off =
     (if step = kContinue \<and> \<not> pw_reachedIend outcome
      then case stepChunk reader outcome off of (step', outcome', off') \<Rightarrow> walkFrom reader step' outcome' off'
      else (step, outcome))"
  by pat_completeness auto
termination
  by (relation "measure (\<lambda>(reader, step, outcome, off). if step = kContinue then Suc (length reader - off) else 0)")
     (auto split: prod.splits dest!: stepChunk_advances)

declare walkFrom.simps [simp del]

definition walkPngChunks :: "bytes \<Rightarrow> PngWalkOutcome" where
  "walkPngChunks reader =
     (let (step, outcome) = walkFrom reader kContinue \<lparr>pw_end = kSignatureBytes, pw_sawIhdr = False, pw_reachedIend = False\<rparr> kSignatureBytes
      in if step = kNotPng then noPng else outcome)"

subsection \<open>The carver\<close>

definition kPngSignature :: bytes where "kPngSignature = [0x89, 0x50, 0x4E, 0x47, 0x0D, 0x0A, 0x1A, 0x0A]"
definition kPngExtension :: string where "kPngExtension = ''png''"

definition makeResult :: "u64 \<Rightarrow> Confidence \<Rightarrow> CarveResult" where
  "makeResult len confidence = \<lparr>cv_length = len, cv_confidence = confidence, cv_extension = kPngExtension\<rparr>"

definition verdictFor :: "PngWalkOutcome \<Rightarrow> CarveResult" where
  "verdictFor outcome =
     (if \<not> pw_sawIhdr outcome then makeResult 0 kRejected
      else if pw_reachedIend outcome then makeResult (pw_end outcome) kValid
      else makeResult (pw_end outcome) kUncertain)"

definition pngCarve :: "bytes \<Rightarrow> CarveResult result" where
  "pngCarve reader = (if \<not> headMatches reader kPngSignature then Inr (verdictFor noPng) else Inr (verdictFor (walkPngChunks reader)))"

definition pngCarver :: FormatCarver where
  "pngCarver = \<lparr>fc_signatures = [\<lparr>sg_magic = kPngSignature, sg_offset = 0\<rparr>], fc_carve = pngCarve\<rparr>"

subsection \<open>What the carver accepts\<close>

definition chunk_bytes :: "bytes \<times> bytes \<Rightarrow> bytes" where
  "chunk_bytes = (\<lambda>(name, data). beBytes 4 (length data) @ name @ data @ beBytes 4 (unat (crc32 (name @ data))))"

fun chunks_ok :: "bool \<Rightarrow> (bytes \<times> bytes) list \<Rightarrow> bool" where
  "chunks_ok started [] \<longleftrightarrow> False"
| "chunks_ok started ((name, data) # chunks) \<longleftrightarrow>
     length name = 4 \<and> length data \<le> kMaxChunkData \<and> (started \<or> name = kIhdr) \<and>
     (if name = kIend then chunks = [] else chunks_ok True chunks)"

definition png_bytes :: "(bytes \<times> bytes) list \<Rightarrow> bytes" where
  "png_bytes chunks = kPngSignature @ concat (map chunk_bytes chunks)"

lemma length_chunk_bytes: "length name = 4 \<Longrightarrow> length (chunk_bytes (name, data)) = 12 + length data"
  by (simp add: chunk_bytes_def)

lemma beBytes_beNat: "beBytes (length bs) (beNat bs) = bs"
  using leBytes_leNat [of "rev bs"] by (simp add: beBytes_def beNat_def)

lemma crc_less: "unat (crc :: 32 word) < 256 ^ 4"
  using unsigned_less [of crc, where ?'a = nat] by simp

lemma split_three: "xs = take a xs @ take b (drop a xs) @ take c (drop (a + b) xs) @ drop (a + b + c) xs"
proof -
  have "drop a xs = take b (drop a xs) @ drop (a + b) xs" for a b
    using append_take_drop_id [of b "drop a xs"] by (simp add: add.commute)
  from this [of a b] this [of "a + b" c] show ?thesis using append_take_drop_id [of a xs] by simp
qed

definition chunk_at :: "u64 \<Rightarrow> bytes \<Rightarrow> bytes \<Rightarrow> Chunk" where
  "chunk_at off name data =
     \<lparr>ch_type = name, ch_covered = name @ data, ch_storedCrc = unat (crc32 (name @ data)), ch_next = off + 12 + length data\<rparr>"

lemma readChunk_verified:
  assumes "off \<le> length reader"
  shows "readChunk reader off = Inr chunk \<and> crcVerifies chunk \<longleftrightarrow>
    (\<exists>name data rest. drop off reader = chunk_bytes (name, data) @ rest \<and> length name = 4 \<and> length data \<le> kMaxChunkData \<and> chunk = chunk_at off name data)"
proof
  assume "readChunk reader off = Inr chunk \<and> crcVerifies chunk"
  then obtain len where len: "readBe 4 reader off = Inr len" "len \<le> kMaxChunkData" "off + 12 + len \<le> length reader"
    and chunk: "chunk = \<lparr>ch_type = take 4 (take (4 + len) (drop (off + 4) reader)), ch_covered = take (4 + len) (drop (off + 4) reader),
      ch_storedCrc = beNat (take 4 (drop (off + 8 + len) reader)), ch_next = off + 12 + len\<rparr>"
    and crc: "unat (crc32 (take (4 + len) (drop (off + 4) reader))) = beNat (take 4 (drop (off + 8 + len) reader))"
    by (auto simp: readChunk_Inr crcVerifies_def)
  define body where "body = drop off reader"
  have body: "length body \<ge> 12 + len" "len = beNat (take 4 body)" using len(1,3) by (auto simp: body_def readBe_def mapResult_Inr_iff bytesAt_Inr_iff)
  define name data rest where "name = take 4 (drop 4 body)" and "data = take len (drop 8 body)" and "rest = drop (12 + len) body"
  have "take (4 + len) (drop 4 body) = name @ data" by (simp add: name_def data_def take_add)
  moreover have "body = take 4 body @ take (4 + len) (drop 4 body) @ take 4 (drop (8 + len) body) @ rest"
    using split_three [of body 4 "4 + len" 4] by (simp add: rest_def add.commute add.left_commute)
  ultimately have parts: "body = take 4 body @ (name @ data) @ take 4 (drop (8 + len) body) @ rest" by simp
  have eqs: "length name = 4" "length data = len" using body(1) by (simp_all add: name_def data_def)
  have "beBytes 4 len = take 4 body" using beBytes_beNat [of "take 4 body"] body by simp
  moreover have "beBytes 4 (unat (crc32 (name @ data))) = take 4 (drop (8 + len) body)"
    using beBytes_beNat [of "take 4 (drop (8 + len) body)"] body(1) crc \<open>take (4 + len) (drop 4 body) = name @ data\<close>
    by (simp add: body_def add.commute add.left_commute)
  ultimately have "body = chunk_bytes (name, data) @ rest" using parts eqs by (simp add: chunk_bytes_def)
  moreover have "take 4 (drop (off + 4) reader) = name" by (simp add: name_def body_def add.commute)
  then have "chunk = chunk_at off name data"
    using chunk crc eqs \<open>take (4 + len) (drop 4 body) = name @ data\<close> by (simp add: chunk_at_def body_def add.commute add.left_commute)
  ultimately show "\<exists>name data rest. drop off reader = chunk_bytes (name, data) @ rest \<and> length name = 4 \<and> length data \<le> kMaxChunkData \<and>
      chunk = chunk_at off name data"
    using eqs len(2) by (auto simp: body_def)
next
  assume "\<exists>name data rest. drop off reader = chunk_bytes (name, data) @ rest \<and> length name = 4 \<and> length data \<le> kMaxChunkData \<and>
      chunk = chunk_at off name data"
  then obtain name data rest where body: "drop off reader = chunk_bytes (name, data) @ rest" and ok: "length name = 4" "length data \<le> kMaxChunkData"
    and chunk: "chunk = chunk_at off name data" by blast
  have fits: "off + 12 + length data \<le> length reader"
    using arg_cong [OF body, of length] assms ok(1) by (simp add: length_chunk_bytes)
  have small: "length data < 256 ^ 4" using ok(2) by (simp add: kMaxChunkData_def)
  have at: "take n (drop (off + k) reader) = take n (drop k (chunk_bytes (name, data) @ rest))" for n k
    by (simp flip: body add: add.commute)
  have "readBe 4 reader off = Inr (length data)"
    using fits at [of 4 0] small by (simp add: readBe_def bytesAt_def chunk_bytes_def)
  moreover have "take (4 + length data) (drop (off + 4) reader) = name @ data" using at [of "4 + length data" 4] ok(1) by (simp add: chunk_bytes_def)
  moreover have "take 4 (drop (off + 4) reader) = name" using at [of 4 4] ok(1) by (simp add: chunk_bytes_def)
  moreover have "take 4 (drop (off + (8 + length data)) reader) = beBytes 4 (unat (crc32 (name @ data)))"
    using at [of 4 "8 + length data"] ok(1) by (simp add: chunk_bytes_def)
  ultimately show "readChunk reader off = Inr chunk \<and> crcVerifies chunk"
    using fits ok crc_less [of "crc32 (name @ data)"] unfolding chunk readChunk_Inr
    by (auto simp: chunk_at_def crcVerifies_def add.assoc)
qed

definition verified_at :: "bytes \<Rightarrow> u64 \<Rightarrow> bytes \<Rightarrow> bytes \<Rightarrow> bool" where
  "verified_at reader off name data \<longleftrightarrow>
     length name = 4 \<and> length data \<le> kMaxChunkData \<and> (\<exists>rest. drop off reader = chunk_bytes (name, data) @ rest)"

lemma verified_readChunk:
  "off \<le> length reader \<Longrightarrow> verified_at reader off name data \<Longrightarrow>
     readChunk reader off = Inr (chunk_at off name data) \<and> crcVerifies (chunk_at off name data)"
  using readChunk_verified [of off reader "chunk_at off name data"] by (auto simp: verified_at_def)

lemma verified_unique:
  "off \<le> length reader \<Longrightarrow> verified_at reader off name data \<Longrightarrow> verified_at reader off name' data' \<Longrightarrow> name' = name \<and> data' = data"
  using verified_readChunk [of off reader name data] verified_readChunk [of off reader name' data'] by (auto simp: chunk_at_def)

lemma verified_next:
  assumes "off \<le> length reader" and "verified_at reader off name data"
  shows "off + 12 + length data \<le> length reader" and "drop off reader = chunk_bytes (name, data) @ drop (off + 12 + length data) reader"
proof -
  obtain rest where rest: "drop off reader = chunk_bytes (name, data) @ rest" "length name = 4" using assms(2) by (auto simp: verified_at_def)
  have "length reader - off = 12 + length data + length rest" using arg_cong [OF rest(1), of length] rest(2) by (simp add: length_chunk_bytes)
  then show "off + 12 + length data \<le> length reader" using assms(1) by linarith
  have "drop (off + 12 + length data) reader = drop (12 + length data) (drop off reader)" by (simp add: ac_simps)
  then show "drop off reader = chunk_bytes (name, data) @ drop (off + 12 + length data) reader" using rest by (simp add: length_chunk_bytes)
qed

lemma chunks_head:
  assumes "off \<le> length reader"
  shows "(\<exists>chunks rest. chunks_ok started chunks \<and> drop off reader = concat (map chunk_bytes chunks) @ rest \<and>
       n = off + length (concat (map chunk_bytes chunks))) \<longleftrightarrow>
    (\<exists>name data. verified_at reader off name data \<and> (started \<or> name = kIhdr) \<and>
       (if name = kIend then n = off + 12 + length data
        else \<exists>chunks rest. chunks_ok True chunks \<and> drop (off + 12 + length data) reader = concat (map chunk_bytes chunks) @ rest \<and>
               n = off + 12 + length data + length (concat (map chunk_bytes chunks))))" (is "?all \<longleftrightarrow> ?first")
proof
  assume ?all
  then obtain chunks rest where all: "chunks_ok started chunks" "drop off reader = concat (map chunk_bytes chunks) @ rest"
    "n = off + length (concat (map chunk_bytes chunks))" by blast
  obtain name data more where chunks: "chunks = (name, data) # more" using all(1) by (cases chunks) auto
  have at: "verified_at reader off name data" using all(1,2) by (auto simp: chunks verified_at_def)
  then have "drop (off + 12 + length data) reader = concat (map chunk_bytes more) @ rest"
    using verified_next(2) [OF assms at] all(2) by (simp add: chunks)
  moreover have "n = off + 12 + length data + length (concat (map chunk_bytes more))" using all(1,3) by (simp add: chunks length_chunk_bytes)
  ultimately show ?first using all(1) at
    by (intro exI [of _ name] exI [of _ data]) (auto simp: chunks split: if_splits)
next
  assume ?first
  then obtain name data where at: "verified_at reader off name data" "started \<or> name = kIhdr"
    and more: "if name = kIend then n = off + 12 + length data
        else \<exists>chunks rest. chunks_ok True chunks \<and> drop (off + 12 + length data) reader = concat (map chunk_bytes chunks) @ rest \<and>
               n = off + 12 + length data + length (concat (map chunk_bytes chunks))" by blast
  obtain chunks rest where rest: "if name = kIend then chunks = [] else chunks_ok True chunks"
    "drop (off + 12 + length data) reader = concat (map chunk_bytes chunks) @ rest"
    "n = off + 12 + length data + length (concat (map chunk_bytes chunks))" using more by (auto split: if_splits)
  then show ?all using at verified_next(2) [OF assms at(1)]
    by (intro exI [of _ "(name, data) # chunks"] exI [of _ rest]) (simp add: verified_at_def length_chunk_bytes)
qed

lemma chunks_head_at:
  assumes "off \<le> length reader" and "verified_at reader off name data"
  shows "(\<exists>chunks rest. chunks_ok started chunks \<and> drop off reader = concat (map chunk_bytes chunks) @ rest \<and>
       n = off + length (concat (map chunk_bytes chunks))) \<longleftrightarrow>
    (started \<or> name = kIhdr) \<and>
    (if name = kIend then n = off + 12 + length data
     else \<exists>chunks rest. chunks_ok True chunks \<and> drop (off + 12 + length data) reader = concat (map chunk_bytes chunks) @ rest \<and>
            n = off + 12 + length data + length (concat (map chunk_bytes chunks)))"
proof -
  have "verified_at reader off name' data' \<longleftrightarrow> name' = name \<and> data' = data" for name' data'
    using verified_unique [OF assms] assms(2) by blast
  then show ?thesis unfolding chunks_head [OF assms(1)] by simp
qed

lemma walk_reaches_iend:
  assumes "off \<le> length reader" and "\<not> pw_reachedIend outcome"
  shows "(\<exists>step final. walkFrom reader kContinue outcome off = (step, final) \<and> step \<noteq> kNotPng \<and> pw_reachedIend final \<and> pw_end final = n) \<longleftrightarrow>
    (\<exists>chunks rest. chunks_ok (pw_sawIhdr outcome) chunks \<and> drop off reader = concat (map chunk_bytes chunks) @ rest \<and>
       n = off + length (concat (map chunk_bytes chunks)))"
  using assms
proof (induction "length reader - off" arbitrary: off outcome rule: less_induct)
  case less
  have unfolds: "walkFrom reader kContinue outcome off = (case stepChunk reader outcome off of (step, out, at) \<Rightarrow> walkFrom reader step out at)"
    using less.prems(2) by (subst walkFrom.simps) simp
  have stopped: "walkFrom reader step out at = (step, out)" if "step \<noteq> kContinue \<or> pw_reachedIend out" for step out at
    using that by (subst walkFrom.simps) auto
  show ?case
  proof (cases "\<exists>name data. verified_at reader off name data")
    case True
    then obtain name data where at: "verified_at reader off name data" by blast
    note chunk = verified_readChunk [OF less.prems(1) at]
    note head = chunks_head_at [OF less.prems(1) at]
    let ?next = "off + 12 + length data"
    let ?out = "\<lparr>pw_end = ?next, pw_sawIhdr = True, pw_reachedIend = name = kIend\<rparr>"
    consider (foreign) "\<not> pw_sawIhdr outcome" "name \<noteq> kIhdr" | (final) "pw_sawIhdr outcome \<or> name = kIhdr" "name = kIend"
      | (more) "pw_sawIhdr outcome \<or> name = kIhdr" "name \<noteq> kIend" by blast
    then show ?thesis
    proof cases
      case foreign
      then have "walkFrom reader kContinue outcome off = (kNotPng, outcome)"
        using chunk less.prems(2) by (simp add: unfolds stepChunk_def acceptChunk_def chunk_at_def typeIs_def stopped)
      then show ?thesis unfolding head using foreign by simp
    next
      case final
      then have "walkFrom reader kContinue outcome off = (kContinue, ?out)"
        using chunk less.prems(2) by (auto simp: unfolds stepChunk_def acceptChunk_def chunk_at_def typeIs_def stopped)
      then show ?thesis unfolding head using final by auto
    next
      case more
      then have step: "walkFrom reader kContinue outcome off = walkFrom reader kContinue ?out ?next"
        using chunk less.prems(2) by (auto simp: unfolds stepChunk_def acceptChunk_def chunk_at_def typeIs_def)
      note next' = verified_next [OF less.prems(1) at]
      have "length reader - ?next < length reader - off" using next'(1) by linarith
      from less.hyps [OF this next'(1), of ?out] show ?thesis unfolding head step using more by simp
    qed
  next
    case False
    then have "\<not> crcVerifies chunk" if "readChunk reader off = Inr chunk" for chunk
      using readChunk_verified [OF less.prems(1), of chunk] that unfolding verified_at_def by metis
    then have "walkFrom reader kContinue outcome off = (kStop, outcome)" by (simp add: unfolds stepChunk_def stopped split: sum.splits)
    then show ?thesis unfolding chunks_head [OF less.prems(1)] using False less.prems(2) by simp
  qed
qed

lemma walk_bounds:
  assumes "off \<le> length reader" and "pw_end outcome \<le> length reader"
  shows "pw_end (snd (walkFrom reader step outcome off)) \<le> length reader"
  using assms
proof (induction reader step outcome off rule: walkFrom.induct)
  case (1 reader step outcome off)
  obtain s o' off' where st: "stepChunk reader outcome off = (s, o', off')" by (metis prod_cases3)
  have "off' \<le> length reader \<and> pw_end o' \<le> length reader"
    using st 1(2,3) stepChunk_advances [of reader outcome off o' off'] by (cases s) (auto simp: stepChunk_def acceptChunk_def Let_def split: sum.splits if_splits)
  then show ?case using 1 st by (subst walkFrom.simps) simp
qed

lemma walk_saw_ihdr: "(pw_reachedIend outcome \<Longrightarrow> pw_sawIhdr outcome) \<Longrightarrow> pw_reachedIend (snd (walkFrom reader step outcome off)) \<Longrightarrow>
    pw_sawIhdr (snd (walkFrom reader step outcome off))"
proof (induction reader step outcome off rule: walkFrom.induct)
  case (1 reader step outcome off)
  obtain s o' off' where st: "stepChunk reader outcome off = (s, o', off')" by (metis prod_cases3)
  then have "pw_reachedIend o' \<Longrightarrow> pw_sawIhdr o'" using 1(2) by (auto simp: stepChunk_def acceptChunk_def Let_def split: sum.splits if_splits)
  then show ?case using 1 st walkFrom.simps [of reader step outcome off] by (cases "step = kContinue \<and> \<not> pw_reachedIend outcome") auto
qed

lemma walkPngChunks_bounds:
  assumes "headMatches reader kPngSignature"
  shows "pw_end (walkPngChunks reader) \<le> length reader"
proof -
  have "8 \<le> length reader" using assms by (auto simp: headMatches_def bytesAt_def kPngSignature_def split: sum.splits if_splits)
  then show ?thesis
    using walk_bounds [of 8 reader "\<lparr>pw_end = 8, pw_sawIhdr = False, pw_reachedIend = False\<rparr>" kContinue]
    by (auto simp: walkPngChunks_def noPng_def kSignatureBytes_def split: prod.splits)
qed

interpretation png: format_carver pngCarve
  by unfold_locales (auto simp: pngCarve_def walkPngChunks_bounds verdictFor_def noPng_def makeResult_def split: if_splits)

lemma headMatches_iff: "headMatches reader signature \<longleftrightarrow> (\<exists>rest. reader = signature @ rest)"
  by (auto simp: headMatches_def bytesAt_def) (metis append_take_drop_id)

text \<open>
  C5: The PNG carver calls a file valid, and of length \<open>n\<close>, exactly when the first \<open>n\<close> bytes are a PNG file: the signature, then chunks of
  at most \<open>2 ^ 31 - 1\<close> data bytes with the right checksums, the first of them IHDR and the last, and only the last, IEND. Whatever follows
  the file on the device changes neither the verdict nor the length.
\<close>

theorem png_file_is_carved_exactly:
  "pngCarve reader = Inr \<lparr>cv_length = n, cv_confidence = kValid, cv_extension = ''png''\<rparr> \<longleftrightarrow>
     (\<exists>chunks rest. chunks_ok False chunks \<and> reader = png_bytes chunks @ rest \<and> n = length (png_bytes chunks))"
proof (cases "headMatches reader kPngSignature")
  case True
  then obtain body where body: "reader = kPngSignature @ body" by (auto simp: headMatches_iff)
  let ?init = "\<lparr>pw_end = 8, pw_sawIhdr = False, pw_reachedIend = False\<rparr>"
  have len: "8 \<le> length reader" "drop 8 reader = body" "length kPngSignature = 8" by (simp_all add: body kPngSignature_def)
  obtain step final where walk: "walkFrom reader kContinue ?init 8 = (step, final)" by fastforce
  have "pngCarve reader = Inr \<lparr>cv_length = n, cv_confidence = kValid, cv_extension = ''png''\<rparr> \<longleftrightarrow>
      step \<noteq> kNotPng \<and> pw_reachedIend final \<and> pw_end final = n \<and> pw_sawIhdr final"
    using True walk by (auto simp: pngCarve_def walkPngChunks_def kSignatureBytes_def verdictFor_def makeResult_def noPng_def kPngExtension_def)
  also have "\<dots> \<longleftrightarrow> (\<exists>chunks rest. chunks_ok False chunks \<and> body = concat (map chunk_bytes chunks) @ rest \<and>
      n = 8 + length (concat (map chunk_bytes chunks)))"
    using walk_reaches_iend [OF len(1), of ?init n] walk_saw_ihdr [of ?init reader kContinue 8] walk len(2) by auto
  finally show ?thesis using len(3) by (auto simp: png_bytes_def body)
next
  case False
  then show ?thesis by (auto simp: pngCarve_def verdictFor_def noPng_def makeResult_def png_bytes_def headMatches_iff)
qed

end
