(* ===== verification/JpegCarving.thy ===== *)
theory JpegCarving
  imports PngCarving
begin

text \<open>
  The JPEG carver: \<open>src/carve/formats/JpegEntropyScan.cpp\<close>, \<open>JpegMarkerWalk.cpp\<close> and \<open>JpegCarver.cpp\<close>. A position or walk the code
  takes by reference is returned beside the result. Every loop moves forward through the bytes of the reader.
\<close>

declare readLe_in_range [simp del]

subsection \<open>Entropy-coded data\<close>

definition kMarkerPrefix :: u8 where "kMarkerPrefix = 0xFF"
definition kStuffedZero :: u8 where "kStuffedZero = 0x00"
definition kMarkerRstFirst :: u8 where "kMarkerRstFirst = 0xD0"
definition kMarkerRstLast :: u8 where "kMarkerRstLast = 0xD7"
definition kMarkerPairBytes :: u64 where "kMarkerPairBytes = 2"

record EntropyOutcome =
  eo_pos :: u64
  eo_foundTerminator :: bool

definition isRestartMarker :: "u8 \<Rightarrow> bool" where
  "isRestartMarker code \<longleftrightarrow> code \<ge> kMarkerRstFirst \<and> code \<le> kMarkerRstLast"

definition classifyMarkerPair :: "bytes \<Rightarrow> u64 \<Rightarrow> EntropyOutcome option \<times> u64" where
  "classifyMarkerPair reader pos =
     (case readLe 1 reader (pos + 1) of
        Inl _ \<Rightarrow> (Some \<lparr>eo_pos = pos, eo_foundTerminator = False\<rparr>, pos)
      | Inr code \<Rightarrow>
          if code \<noteq> kStuffedZero \<and> \<not> isRestartMarker code then (Some \<lparr>eo_pos = pos, eo_foundTerminator = True\<rparr>, pos)
          else (None, pos + kMarkerPairBytes))"

definition advanceEntropyStep :: "bytes \<Rightarrow> u64 \<Rightarrow> EntropyOutcome option \<times> u64" where
  "advanceEntropyStep reader pos =
     (case readLe 1 reader pos of
        Inl _ \<Rightarrow> (Some \<lparr>eo_pos = pos, eo_foundTerminator = False\<rparr>, pos)
      | Inr b \<Rightarrow> if b \<noteq> kMarkerPrefix then (None, pos + 1) else classifyMarkerPair reader pos)"

lemma readLe1_Inr: "readLe (Suc 0) reader pos = Inr v \<longleftrightarrow> pos < length reader \<and> v = unat (reader ! pos)"
proof -
  have "leNat (take 1 (drop pos reader)) = unat (reader ! pos)" if "pos < length reader"
    using that by (simp add: Cons_nth_drop_Suc [symmetric])
  then show ?thesis by (auto simp: readLe_def mapResult_Inr_iff bytesAt_Inr_iff Suc_le_eq)
qed

lemma readLe1_Inl: "readLe (Suc 0) reader pos = Inl e \<Longrightarrow> length reader \<le> pos"
  using readLe1_Inr [of reader pos "unat (reader ! pos)"] by (cases "pos < length reader") simp_all

lemma advanceEntropyStep_moves: "advanceEntropyStep reader pos = (None, pos') \<Longrightarrow> pos < pos' \<and> pos' \<le> length reader"
  by (auto simp: advanceEntropyStep_def classifyMarkerPair_def kMarkerPairBytes_def readLe1_Inr split: sum.splits if_splits)

function entropyFrom :: "bytes \<Rightarrow> u64 \<Rightarrow> EntropyOutcome" where
  "entropyFrom reader pos =
     (case advanceEntropyStep reader pos of (Some outcome, _) \<Rightarrow> outcome | (None, pos') \<Rightarrow> entropyFrom reader pos')"
  by pat_completeness auto
termination
  by (relation "measure (\<lambda>(reader, pos). length reader - pos)") (auto dest!: advanceEntropyStep_moves [OF sym])

declare entropyFrom.simps [simp del]

definition scanEntropyData :: "bytes \<Rightarrow> u64 \<Rightarrow> EntropyOutcome result" where
  "scanEntropyData reader pos = Inr (entropyFrom reader pos)"

subsection \<open>Markers\<close>

definition kMarkerEoi :: u8 where "kMarkerEoi = 0xD9"
definition kMarkerSos :: u8 where "kMarkerSos = 0xDA"
definition kMarkerTem :: u8 where "kMarkerTem = 0x01"
definition kMinSegmentLength :: u16 where "kMinSegmentLength = 2"
definition kSoiBytes :: u64 where "kSoiBytes = 2"

record Walk =
  jw_pos :: u64
  jw_sawSos :: bool

definition isStandalone :: "u8 \<Rightarrow> bool" where
  "isStandalone code \<longleftrightarrow> code = kMarkerTem \<or> isRestartMarker code"

function skipFillBytes :: "bytes \<Rightarrow> u64 \<Rightarrow> u64" where
  "skipFillBytes reader pos =
     (case readLe 1 reader (pos + 1) of
        Inl _ \<Rightarrow> pos
      | Inr next' \<Rightarrow> if next' = kMarkerPrefix then skipFillBytes reader (pos + 1) else pos)"
  by pat_completeness auto
termination
  by (relation "measure (\<lambda>(reader, pos). length reader - pos)") (auto simp: readLe1_Inr dest!: sym [of "Inr _"])

declare skipFillBytes.simps [simp del]

definition readMarkerPrefix :: "bytes \<Rightarrow> u64 \<Rightarrow> u64 result" where
  "readMarkerPrefix reader pos =
     (case readLe 1 reader pos of
        Inl e \<Rightarrow> Inl e
      | Inr prefix' \<Rightarrow> if prefix' \<noteq> kMarkerPrefix then Inl (mkError kInvalidArgument pos) else Inr (skipFillBytes reader pos))"

definition readCodeAfterPrefix :: "bytes \<Rightarrow> u64 \<Rightarrow> u64 \<Rightarrow> u8 result \<times> u64" where
  "readCodeAfterPrefix reader prefixEnd pos =
     (let code = readLe 1 reader (prefixEnd + 1) in if \<not> hasValue code then (code, pos) else (code, prefixEnd + kMarkerPairBytes))"

definition readMarkerCode :: "bytes \<Rightarrow> u64 \<Rightarrow> u8 result \<times> u64" where
  "readMarkerCode reader pos =
     (case readMarkerPrefix reader pos of Inl e \<Rightarrow> (Inl e, pos) | Inr prefixEnd \<Rightarrow> readCodeAfterPrefix reader prefixEnd pos)"

definition validatedSegmentEnd :: "bytes \<Rightarrow> u64 \<Rightarrow> u16 \<Rightarrow> u64 result" where
  "validatedSegmentEnd reader pos len =
     (if len < kMinSegmentLength then Inl (mkError kInvalidArgument pos)
      else let stop = pos + len in if stop > length reader then Inl (mkError kInvalidArgument pos) else Inr stop)"

definition skipSegment :: "bytes \<Rightarrow> u64 \<Rightarrow> u64 result" where
  "skipSegment reader pos = andThen (readBe 2 reader pos) (validatedSegmentEnd reader pos)"

definition continueAfterEntropy :: "Walk \<Rightarrow> EntropyOutcome \<Rightarrow> bool result \<times> Walk" where
  "continueAfterEntropy walk outcome =
     (let walk' = walk\<lparr>jw_pos := eo_pos outcome\<rparr>
      in if \<not> eo_foundTerminator outcome then (Inl (mkError kOutOfRange (eo_pos outcome)), walk') else (Inr False, walk'))"

definition applyEntropyIfSos :: "bytes \<Rightarrow> Walk \<Rightarrow> u8 \<Rightarrow> bool result \<times> Walk" where
  "applyEntropyIfSos reader walk code =
     (if code \<noteq> kMarkerSos then (Inr False, walk)
      else let walk' = walk\<lparr>jw_sawSos := True\<rparr>
           in case scanEntropyData reader (jw_pos walk') of Inl e \<Rightarrow> (Inl e, walk') | Inr entropy \<Rightarrow> continueAfterEntropy walk' entropy)"

definition applySegmentMarker :: "bytes \<Rightarrow> Walk \<Rightarrow> u8 \<Rightarrow> bool result \<times> Walk" where
  "applySegmentMarker reader walk code =
     (case skipSegment reader (jw_pos walk) of
        Inl e \<Rightarrow> (Inl e, walk)
      | Inr afterSegment \<Rightarrow> applyEntropyIfSos reader (walk\<lparr>jw_pos := afterSegment\<rparr>) code)"

definition applyMarker :: "bytes \<Rightarrow> Walk \<Rightarrow> u8 \<Rightarrow> bool result \<times> Walk" where
  "applyMarker reader walk code =
     (if code = kMarkerEoi then (Inr True, walk)
      else if isStandalone code then (Inr False, walk)
      else applySegmentMarker reader walk code)"

definition advanceOneMarker :: "bytes \<Rightarrow> Walk \<Rightarrow> bool result \<times> Walk" where
  "advanceOneMarker reader walk =
     (let (code, pos) = readMarkerCode reader (jw_pos walk); walk' = walk\<lparr>jw_pos := pos\<rparr>
      in case code of Inl e \<Rightarrow> (Inl e, walk') | Inr c \<Rightarrow> applyMarker reader walk' c)"

record JpegWalkOutcome =
  jo_end :: u64
  jo_sawSos :: bool
  jo_reachedEoi :: bool

definition noJpeg :: JpegWalkOutcome where
  "noJpeg = \<lparr>jo_end = 0, jo_sawSos = False, jo_reachedEoi = False\<rparr>"

definition brokenAt :: "Walk \<Rightarrow> JpegWalkOutcome" where
  "brokenAt walk = \<lparr>jo_end = jw_pos walk, jo_sawSos = jw_sawSos walk, jo_reachedEoi = False\<rparr>"

definition stepWalk :: "bytes \<Rightarrow> Walk \<Rightarrow> JpegWalkOutcome option \<times> Walk" where
  "stepWalk reader walk =
     (let (finished, walk') = advanceOneMarker reader walk
      in case finished of
           Inl _ \<Rightarrow> (Some (brokenAt walk'), walk')
         | Inr reached \<Rightarrow>
             if \<not> reached then (None, walk')
             else (Some \<lparr>jo_end = jw_pos walk', jo_sawSos = jw_sawSos walk', jo_reachedEoi = True\<rparr>, walk'))"

subsection \<open>The walk moves forward\<close>

lemma entropyFrom_bounds: "pos \<le> length reader \<Longrightarrow> pos \<le> eo_pos (entropyFrom reader pos) \<and> eo_pos (entropyFrom reader pos) \<le> length reader"
proof (induction reader pos rule: entropyFrom.induct)
  case (1 reader pos)
  show ?case
  proof (cases "advanceEntropyStep reader pos")
    case (Pair done' pos')
    show ?thesis
    proof (cases done')
      case None
      then show ?thesis using 1 Pair advanceEntropyStep_moves [of reader pos pos'] by (subst (1 2) entropyFrom.simps) fastforce
    next
      case (Some outcome)
      then have "eo_pos outcome = pos" using Pair
        by (auto simp: advanceEntropyStep_def classifyMarkerPair_def split: sum.splits if_splits)
      then show ?thesis using 1 Pair Some by (subst (1 2) entropyFrom.simps) simp
    qed
  qed
qed

lemma skipFillBytes_bounds: "pos < length reader \<Longrightarrow> pos \<le> skipFillBytes reader pos \<and> skipFillBytes reader pos < length reader"
proof (induction reader pos rule: skipFillBytes.induct)
  case (1 reader pos)
  then show ?case by (subst (1 2) skipFillBytes.simps) (auto simp: readLe1_Inr split: sum.splits)
qed

lemma readMarkerCode_bounds:
  "readMarkerCode reader pos = (Inr code, pos') \<Longrightarrow> pos + 2 \<le> pos' \<and> pos' \<le> length reader"
  "readMarkerCode reader pos = (Inl e, pos') \<Longrightarrow> pos' = pos"
  using skipFillBytes_bounds [of pos reader]
  by (auto simp: readMarkerCode_def readMarkerPrefix_def readCodeAfterPrefix_def kMarkerPairBytes_def hasValue_iff readLe1_Inr Let_def
      dest: readLe1_Inl split: sum.splits if_splits)

lemma applyMarker_bounds:
  assumes "jw_pos walk \<le> length reader"
  shows "jw_pos walk \<le> jw_pos (snd (applyMarker reader walk code)) \<and> jw_pos (snd (applyMarker reader walk code)) \<le> length reader"
proof -
  have "jw_pos walk + 2 \<le> stop \<and> stop \<le> length reader" if "skipSegment reader (jw_pos walk) = Inr stop" for stop
    using that by (auto simp: skipSegment_def validatedSegmentEnd_def kMinSegmentLength_def andThen_Inr_iff Let_def split: if_splits)
  then show ?thesis using assms entropyFrom_bounds [of _ reader]
    by (fastforce simp: applyMarker_def applySegmentMarker_def applyEntropyIfSos_def continueAfterEntropy_def scanEntropyData_def Let_def
        split: sum.splits)
qed

lemma advanceOneMarker_inside:
  assumes "jw_pos walk \<le> length reader"
  shows "jw_pos (snd (advanceOneMarker reader walk)) \<le> length reader"
proof -
  obtain code pos where read: "readMarkerCode reader (jw_pos walk) = (code, pos)" by fastforce
  show ?thesis
    using read readMarkerCode_bounds [of reader "jw_pos walk" _ pos] applyMarker_bounds [of "walk\<lparr>jw_pos := pos\<rparr>" reader] assms
    by (cases code) (simp_all add: advanceOneMarker_def)
qed

lemma advanceOneMarker_moves:
  assumes "fst (advanceOneMarker reader walk) = Inr reached"
  shows "jw_pos walk < jw_pos (snd (advanceOneMarker reader walk)) \<and> jw_pos (snd (advanceOneMarker reader walk)) \<le> length reader"
proof -
  obtain code pos where read: "readMarkerCode reader (jw_pos walk) = (code, pos)" by fastforce
  obtain c where c: "code = Inr c" using assms read by (cases code) (simp_all add: advanceOneMarker_def)
  have "jw_pos walk + 2 \<le> pos" "pos \<le> length reader" using readMarkerCode_bounds(1) read c by blast+
  then show ?thesis using applyMarker_bounds [of "walk\<lparr>jw_pos := pos\<rparr>" reader c] read c by (simp add: advanceOneMarker_def)
qed

lemma stepWalk_moves: "stepWalk reader walk = (None, walk') \<Longrightarrow> jw_pos walk < jw_pos walk' \<and> jw_pos walk' \<le> length reader"
  using advanceOneMarker_moves [of reader walk] by (auto simp: stepWalk_def split: prod.splits sum.splits if_splits)

function walkFrom :: "bytes \<Rightarrow> Walk \<Rightarrow> JpegWalkOutcome" where
  "walkFrom reader walk =
     (case stepWalk reader walk of (Some outcome, _) \<Rightarrow> outcome | (None, walk') \<Rightarrow> walkFrom reader walk')"
  by pat_completeness auto
termination
  by (relation "measure (\<lambda>(reader, walk). length reader - jw_pos walk)") (auto dest!: stepWalk_moves [OF sym])

declare walkFrom.simps [simp del]

definition walkJpegMarkers :: "bytes \<Rightarrow> JpegWalkOutcome" where
  "walkJpegMarkers reader = walkFrom reader \<lparr>jw_pos = kSoiBytes, jw_sawSos = False\<rparr>"

subsection \<open>The carver\<close>

definition kSoiSignature :: bytes where "kSoiSignature = [0xFF, 0xD8, 0xFF]"
definition kJpegExtension :: string where "kJpegExtension = ''jpg''"

definition makeResult :: "u64 \<Rightarrow> Confidence \<Rightarrow> CarveResult" where
  "makeResult len confidence = \<lparr>cv_length = len, cv_confidence = confidence, cv_extension = kJpegExtension\<rparr>"

definition verdictFor :: "JpegWalkOutcome \<Rightarrow> CarveResult" where
  "verdictFor outcome =
     (if jo_reachedEoi outcome \<and> jo_sawSos outcome then makeResult (jo_end outcome) kValid
      else if jo_sawSos outcome then makeResult (jo_end outcome) kUncertain
      else makeResult 0 kRejected)"

definition jpegCarve :: "bytes \<Rightarrow> CarveResult result" where
  "jpegCarve reader = (if \<not> headMatches reader kSoiSignature then Inr (verdictFor noJpeg) else Inr (verdictFor (walkJpegMarkers reader)))"

definition jpegCarver :: FormatCarver where
  "jpegCarver = \<lparr>fc_signatures = [\<lparr>sg_magic = kSoiSignature, sg_offset = 0\<rparr>], fc_carve = jpegCarve\<rparr>"

lemma walkFrom_bounds: "jw_pos walk \<le> length reader \<Longrightarrow> jo_end (walkFrom reader walk) \<le> length reader"
proof (induction reader walk rule: walkFrom.induct)
  case (1 reader walk)
  obtain found walk' where step: "stepWalk reader walk = (found, walk')" by fastforce
  show ?case
  proof (cases found)
    case None
    then show ?thesis using 1 step stepWalk_moves [of reader walk walk'] by (subst walkFrom.simps) simp
  next
    case (Some outcome)
    then have "jo_end outcome \<le> length reader" using step advanceOneMarker_inside [OF 1(2)]
      by (auto simp: stepWalk_def brokenAt_def split: prod.splits sum.splits if_splits)
    then show ?thesis using 1(2) step Some by (subst walkFrom.simps) simp
  qed
qed

lemma walkJpegMarkers_bounds:
  assumes "headMatches reader kSoiSignature"
  shows "jo_end (walkJpegMarkers reader) \<le> length reader"
proof -
  have "2 \<le> length reader" using assms by (auto simp: headMatches_iff kSoiSignature_def)
  then show ?thesis using walkFrom_bounds [of "\<lparr>jw_pos = 2, jw_sawSos = False\<rparr>" reader] by (simp add: walkJpegMarkers_def kSoiBytes_def)
qed

interpretation jpeg: format_carver jpegCarve
  by unfold_locales (auto simp: jpegCarve_def walkJpegMarkers_bounds verdictFor_def noJpeg_def makeResult_def split: if_splits)

end
