(* ===== verification/Mp4Carving.thy ===== *)
theory Mp4Carving
  imports PngCarving
begin

text \<open>
  The ISO base media carver: \<open>src/carve/formats/Mp4BoxWalk.cpp\<close> and \<open>Mp4Carver.cpp\<close>. A box covers its own header, so the walk over the
  top-level boxes moves forward by eight bytes at least.
\<close>

subsection \<open>Boxes\<close>

definition kTypeBytes :: size_t where "kTypeBytes = 4"
definition kShortHeaderBytes :: u64 where "kShortHeaderBytes = 8"
definition kLongHeaderBytes :: u64 where "kLongHeaderBytes = 16"
definition kLargeSizeMarker :: u32 where "kLargeSizeMarker = 1"
definition kFirstPrintable :: byte where "kFirstPrintable = 0x20"
definition kLastPrintable :: byte where "kLastPrintable = 0x7E"
definition kFtyp :: bytes where "kFtyp = [0x66, 0x74, 0x79, 0x70]"
definition kMoov :: bytes where "kMoov = [0x6D, 0x6F, 0x6F, 0x76]"
definition kMdat :: bytes where "kMdat = [0x6D, 0x64, 0x61, 0x74]"

record Box =
  bx_type :: bytes
  bx_next :: u64

definition typeIsPrintable :: "bytes \<Rightarrow> bool" where
  "typeIsPrintable name \<longleftrightarrow> list_all (\<lambda>b. b \<ge> kFirstPrintable \<and> b \<le> kLastPrintable) name"

definition readLargeSize :: "bytes \<Rightarrow> u64 \<Rightarrow> u64 result" where
  "readLargeSize reader off =
     andThen (readBe 8 reader (off + kShortHeaderBytes))
       (\<lambda>sz. if sz < kLongHeaderBytes then Inl (mkError kInvalidArgument off) else Inr sz)"

definition sizeFromDeclared :: "u32 \<Rightarrow> bytes \<Rightarrow> u64 \<Rightarrow> u64 result" where
  "sizeFromDeclared declared reader off =
     (if declared = kLargeSizeMarker then readLargeSize reader off
      else if declared < kShortHeaderBytes then Inl (mkError kInvalidArgument off)
      else Inr declared)"

definition readBoxSize :: "bytes \<Rightarrow> u64 \<Rightarrow> u64 result" where
  "readBoxSize reader off = andThen (readBe 4 reader off) (\<lambda>declared. sizeFromDeclared declared reader off)"

definition makeBox :: "u64 \<Rightarrow> bytes \<Rightarrow> u64 \<Rightarrow> Box result" where
  "makeBox off name sz =
     (if \<not> typeIsPrintable name then Inl (mkError kInvalidArgument off) else Inr \<lparr>bx_type = name, bx_next = off + sz\<rparr>)"

definition readBox :: "bytes \<Rightarrow> u64 \<Rightarrow> Box result" where
  "readBox reader off =
     andThen (readBoxSize reader off)
       (\<lambda>sz. if sz > length reader then Inl (mkError kOutOfRange off)
             else andThen (bytesAt reader off sz) (\<lambda>whole. makeBox off (take kTypeBytes (drop kTypeBytes whole)) sz))"

definition typeIs :: "Box \<Rightarrow> bytes \<Rightarrow> bool" where
  "typeIs box name \<longleftrightarrow> bx_type box = name"

subsection \<open>The walk\<close>

record Mp4WalkOutcome =
  mw_end :: u64
  mw_sawFtyp :: bool
  mw_sawMoov :: bool
  mw_sawMdat :: bool

definition noMp4 :: Mp4WalkOutcome where
  "noMp4 = \<lparr>mw_end = 0, mw_sawFtyp = False, mw_sawMoov = False, mw_sawMdat = False\<rparr>"

definition acceptBox :: "Mp4WalkOutcome \<Rightarrow> Box \<Rightarrow> bool \<times> Mp4WalkOutcome" where
  "acceptBox outcome box =
     (if \<not> mw_sawFtyp outcome \<and> \<not> typeIs box kFtyp then (False, outcome)
      else (True, \<lparr>mw_end = bx_next box, mw_sawFtyp = True, mw_sawMoov = (mw_sawMoov outcome \<or> typeIs box kMoov),
                   mw_sawMdat = (mw_sawMdat outcome \<or> typeIs box kMdat)\<rparr>))"

datatype WalkStep = kContinue | kStop | kNotMp4

definition stepBox :: "bytes \<Rightarrow> Mp4WalkOutcome \<Rightarrow> u64 \<Rightarrow> WalkStep \<times> Mp4WalkOutcome \<times> u64" where
  "stepBox reader outcome off =
     (case readBox reader off of
        Inl _ \<Rightarrow> (kStop, outcome, off)
      | Inr box \<Rightarrow>
          let (accepted, outcome') = acceptBox outcome box
          in if \<not> accepted then (kNotMp4, outcome', off) else (kContinue, outcome', bx_next box))"

lemma readBoxSize_least: "readBoxSize reader off = Inr sz \<Longrightarrow> 8 \<le> sz"
  by (auto simp: readBoxSize_def sizeFromDeclared_def readLargeSize_def andThen_Inr_iff kLongHeaderBytes_def kShortHeaderBytes_def split: if_splits)

lemma readBox_Inr:
  "readBox reader off = Inr box \<longleftrightarrow>
     (\<exists>sz. readBoxSize reader off = Inr sz \<and> off + sz \<le> length reader \<and> typeIsPrintable (take 4 (drop (off + 4) reader)) \<and>
        box = \<lparr>bx_type = take 4 (drop (off + 4) reader), bx_next = off + sz\<rparr>)"
proof -
  have name: "take 4 (drop 4 (take sz (drop off reader))) = take 4 (drop (off + 4) reader)" if "8 \<le> sz" for sz
    using that by (simp add: drop_take min_absorb1 add.commute)
  show ?thesis
  proof (cases "readBoxSize reader off")
    case (Inr sz)
    then show ?thesis using name [OF readBoxSize_least [OF Inr]]
      by (auto simp: readBox_def bytesAt_def makeBox_def kTypeBytes_def)
  qed (simp add: readBox_def)
qed

lemma stepBox_moves: "stepBox reader outcome off = (kContinue, outcome', off') \<Longrightarrow> off < off' \<and> off' \<le> length reader \<and> mw_end outcome' = off'"
  by (auto simp: stepBox_def acceptBox_def readBox_Inr Let_def dest!: readBoxSize_least split: sum.splits if_splits prod.splits)

function walkFrom :: "bytes \<Rightarrow> WalkStep \<Rightarrow> Mp4WalkOutcome \<Rightarrow> u64 \<Rightarrow> WalkStep \<times> Mp4WalkOutcome" where
  "walkFrom reader step outcome off =
     (if step = kContinue
      then case stepBox reader outcome off of (step', outcome', off') \<Rightarrow> walkFrom reader step' outcome' off'
      else (step, outcome))"
  by pat_completeness auto
termination
  by (relation "measure (\<lambda>(reader, step, outcome, off). if step = kContinue then Suc (length reader - off) else 0)")
     (auto split: prod.splits dest!: stepBox_moves)

declare walkFrom.simps [simp del]

definition walkMp4Boxes :: "bytes \<Rightarrow> Mp4WalkOutcome" where
  "walkMp4Boxes reader = (let (step, outcome) = walkFrom reader kContinue noMp4 0 in if step = kNotMp4 then noMp4 else outcome)"

subsection \<open>The carver\<close>

definition kFtypOffset :: size_t where "kFtypOffset = 4"
definition kBrandOffset :: size_t where "kBrandOffset = 8"
definition kMp4Extension :: string where "kMp4Extension = ''mp4''"
definition kMovExtension :: string where "kMovExtension = ''mov''"
definition kFtypMagic :: bytes where "kFtypMagic = [0x66, 0x74, 0x79, 0x70]"
definition kQuickTimeBrand :: bytes where "kQuickTimeBrand = [0x71, 0x74, 0x20, 0x20]"

definition extensionFor :: "bytes \<Rightarrow> string" where
  "extensionFor reader =
     (case bytesAt reader kBrandOffset kTypeBytes of
        Inl _ \<Rightarrow> kMp4Extension
      | Inr brand \<Rightarrow> if brand = kQuickTimeBrand then kMovExtension else kMp4Extension)"

definition verdictFor :: "Mp4WalkOutcome \<Rightarrow> string \<Rightarrow> CarveResult" where
  "verdictFor outcome extension =
     (if \<not> mw_sawFtyp outcome then \<lparr>cv_length = 0, cv_confidence = kRejected, cv_extension = extension\<rparr>
      else let grade = (if mw_sawMoov outcome \<and> mw_sawMdat outcome then kValid else kUncertain)
           in \<lparr>cv_length = mw_end outcome, cv_confidence = grade, cv_extension = extension\<rparr>)"

definition mp4Carve :: "bytes \<Rightarrow> CarveResult result" where
  "mp4Carve reader = Inr (verdictFor (walkMp4Boxes reader) (extensionFor reader))"

definition mp4Carver :: FormatCarver where
  "mp4Carver = \<lparr>fc_signatures = [\<lparr>sg_magic = kFtypMagic, sg_offset = kFtypOffset\<rparr>], fc_carve = mp4Carve\<rparr>"

lemma walk_inside:
  assumes "off \<le> length reader" and "mw_end outcome \<le> length reader"
  shows "mw_end (snd (walkFrom reader step outcome off)) \<le> length reader"
  using assms
proof (induction reader step outcome off rule: walkFrom.induct)
  case (1 reader step outcome off)
  obtain s o' off' where st: "stepBox reader outcome off = (s, o', off')" by (metis prod_cases3)
  have "off' \<le> length reader \<and> mw_end o' \<le> length reader"
    using st 1(2,3) stepBox_moves [of reader outcome off o' off']
    by (cases s) (auto simp: stepBox_def acceptBox_def Let_def split: sum.splits if_splits)
  then show ?case using 1 st by (subst walkFrom.simps) simp
qed

lemma walkMp4Boxes_inside: "mw_end (walkMp4Boxes reader) \<le> length reader"
  using walk_inside [of 0 reader noMp4 kContinue] by (auto simp: walkMp4Boxes_def noMp4_def split: prod.splits)

interpretation mp4: format_carver mp4Carve
  by unfold_locales (auto simp: mp4Carve_def walkMp4Boxes_inside verdictFor_def Let_def split: if_splits)

end
