(* ===== verification/TiffCarving.thy ===== *)
theory TiffCarving
  imports PngCarving
begin

text \<open>
  The camera-RAW carver: \<open>src/carve/formats/TiffEntry.cpp\<close>, \<open>TiffIfdWalk.cpp\<close> and \<open>RawCarver.cpp\<close>. An entry is read only where its whole
  table was found present, so the unchecked \<open>value()\<close> of such a read is that of a success (\<open>scanEntries_reads\<close>). Offsets in a TIFF
  file are 32-bit and sums of them 64-bit, so nothing wraps.
\<close>

subsection \<open>Entries\<close>

record TiffContext =
  tc_reader :: bytes
  tc_bigEndian :: bool

record TiffEntry =
  te_tag :: u16
  te_type :: u16
  te_count :: u32
  te_valueOffset :: u32

definition noEntry :: TiffEntry where "noEntry = \<lparr>te_tag = 0, te_type = 0, te_count = 0, te_valueOffset = 0\<rparr>"

definition kMakeTag :: u16 where "kMakeTag = 0x010F"
definition kStripOffsetsTag :: u16 where "kStripOffsetsTag = 0x0111"
definition kStripByteCountsTag :: u16 where "kStripByteCountsTag = 0x0117"
definition kTileOffsetsTag :: u16 where "kTileOffsetsTag = 0x0144"
definition kTileByteCountsTag :: u16 where "kTileByteCountsTag = 0x0145"
definition kInlineValueBytes :: u64 where "kInlineValueBytes = 4"
definition kEntryBytes :: size_t where "kEntryBytes = 12"
definition kShortType :: u16 where "kShortType = 3"
definition kLongType :: u16 where "kLongType = 4"
definition kShortBytes :: u32 where "kShortBytes = 2"
definition kLongBytes :: u32 where "kLongBytes = 4"
definition kTypeBytes :: "u64 list" where "kTypeBytes = [0, 1, 1, 2, 4, 8, 1, 1, 2, 4, 8, 4, 8]"

definition readU16 :: "TiffContext \<Rightarrow> u64 \<Rightarrow> u16 result" where
  "readU16 tiff off = (if tc_bigEndian tiff then readBe 2 (tc_reader tiff) off else readLe 2 (tc_reader tiff) off)"

definition readU32 :: "TiffContext \<Rightarrow> u64 \<Rightarrow> u32 result" where
  "readU32 tiff off = (if tc_bigEndian tiff then readBe 4 (tc_reader tiff) off else readLe 4 (tc_reader tiff) off)"

definition readElementAt :: "u16 \<Rightarrow> TiffContext \<Rightarrow> u64 \<Rightarrow> u32 result" where
  "readElementAt type' tiff off =
     (if type' = kShortType then readU16 tiff off
      else if type' = kLongType then readU32 tiff off
      else Inl (mkError kInvalidArgument off))"

definition inlineElement :: "TiffEntry \<Rightarrow> u32 result" where
  "inlineElement entry = (if te_count entry \<noteq> 1 then Inl (mkError kInvalidArgument (te_tag entry)) else Inr (te_valueOffset entry))"

definition elementOffset :: "TiffEntry \<Rightarrow> u32 \<Rightarrow> u64" where
  "elementOffset entry index =
     (let stride = (if te_type entry = kShortType then kShortBytes else kLongBytes) in te_valueOffset entry + index * stride)"

definition readEntry :: "TiffContext \<Rightarrow> u64 \<Rightarrow> TiffEntry result option" where
  "readEntry tiff off =
     (if \<not> hasValue (bytesAt (tc_reader tiff) off kEntryBytes) then Some (Inl (mkError kOutOfRange off))
      else case (valueOf (readU16 tiff off), valueOf (readU16 tiff (off + 2)), valueOf (readU32 tiff (off + 4)), valueOf (readU32 tiff (off + 8))) of
             (Some tag, Some type', Some cnt, Some val) \<Rightarrow>
               Some (Inr \<lparr>te_tag = tag, te_type = type', te_count = cnt, te_valueOffset = val\<rparr>)
           | _ \<Rightarrow> None)"

definition valueBytes :: "TiffEntry \<Rightarrow> u64" where
  "valueBytes entry = (if te_type entry \<ge> length kTypeBytes then 0 else kTypeBytes ! te_type entry * te_count entry)"

definition valueEnd :: "TiffEntry \<Rightarrow> u64" where
  "valueEnd entry = (let sz = valueBytes entry in if sz \<le> kInlineValueBytes then 0 else te_valueOffset entry + sz)"

definition arrayElement :: "TiffContext \<Rightarrow> TiffEntry \<Rightarrow> u32 \<Rightarrow> u32 result" where
  "arrayElement tiff entry index =
     (if index \<ge> te_count entry \<or> (te_type entry \<noteq> kShortType \<and> te_type entry \<noteq> kLongType) then Inl (mkError kInvalidArgument (te_tag entry))
      else if valueBytes entry \<le> kInlineValueBytes then inlineElement entry
      else readElementAt (te_type entry) tiff (elementOffset entry index))"

subsection \<open>The chain of directories\<close>

definition kFirstIfdOffsetAt :: u64 where "kFirstIfdOffsetAt = 4"
definition kEntryCountBytes :: u64 where "kEntryCountBytes = 2"
definition kNextPointerBytes :: u64 where "kNextPointerBytes = 4"
definition kMaxIfds :: size_t where "kMaxIfds = 32"
definition kMaxStrips :: size_t where "kMaxStrips = 2 ^ 16"

record ImageDataTags =
  id_offsets :: TiffEntry
  id_counts :: TiffEntry

record IfdScan =
  is_tableEnd :: u64
  is_end :: u64
  is_strips :: ImageDataTags
  is_tiles :: ImageDataTags
  is_make :: TiffEntry

record TiffWalkOutcome =
  tw_end :: u64
  tw_sawIfd :: bool
  tw_sawImageData :: bool
  tw_withinBounds :: bool
  tw_chainComplete :: bool
  tw_make :: TiffEntry

definition recordStripTags :: "IfdScan \<Rightarrow> TiffEntry \<Rightarrow> IfdScan" where
  "recordStripTags ifd entry =
     (let one = (if te_tag entry = kStripOffsetsTag then ifd\<lparr>is_strips := (is_strips ifd)\<lparr>id_offsets := entry\<rparr>\<rparr> else ifd)
      in if te_tag entry = kStripByteCountsTag then one\<lparr>is_strips := (is_strips one)\<lparr>id_counts := entry\<rparr>\<rparr> else one)"

definition recordTileTags :: "IfdScan \<Rightarrow> TiffEntry \<Rightarrow> IfdScan" where
  "recordTileTags ifd entry =
     (let one = (if te_tag entry = kTileOffsetsTag then ifd\<lparr>is_tiles := (is_tiles ifd)\<lparr>id_offsets := entry\<rparr>\<rparr> else ifd)
      in if te_tag entry = kTileByteCountsTag then one\<lparr>is_tiles := (is_tiles one)\<lparr>id_counts := entry\<rparr>\<rparr> else one)"

definition recordTaggedEntry :: "IfdScan \<Rightarrow> TiffEntry \<Rightarrow> IfdScan" where
  "recordTaggedEntry ifd entry =
     (let tagged = recordTileTags (recordStripTags ifd entry) entry in if te_tag entry = kMakeTag then tagged\<lparr>is_make := entry\<rparr> else tagged)"

definition scanEntry :: "IfdScan \<Rightarrow> TiffEntry \<Rightarrow> IfdScan" where
  "scanEntry ifd entry = recordTaggedEntry (ifd\<lparr>is_end := max (is_end ifd) (valueEnd entry)\<rparr>) entry"

definition pieceEnd :: "TiffContext \<Rightarrow> ImageDataTags \<Rightarrow> u32 \<Rightarrow> u64 result" where
  "pieceEnd tiff tags index =
     andThen (arrayElement tiff (id_offsets tags) index) (\<lambda>start. mapResult (arrayElement tiff (id_counts tags) index) (\<lambda>len. start + len))"

definition tagsUsable :: "ImageDataTags \<Rightarrow> bool" where
  "tagsUsable tags \<longleftrightarrow> te_tag (id_offsets tags) \<noteq> 0 \<and> te_count (id_offsets tags) = te_count (id_counts tags) \<and>
     hasValue (boundedCount (te_count (id_offsets tags)) kMaxStrips)"

definition highestPieceEnd :: "TiffContext \<Rightarrow> ImageDataTags \<Rightarrow> u64" where
  "highestPieceEnd tiff tags =
     foldl (\<lambda>stop index. case pieceEnd tiff tags index of Inl _ \<Rightarrow> stop | Inr piece \<Rightarrow> max stop piece) 0 [0..<te_count (id_offsets tags)]"

definition imageDataEnd :: "TiffContext \<Rightarrow> ImageDataTags \<Rightarrow> u64" where
  "imageDataEnd tiff tags = (if tagsUsable tags then highestPieceEnd tiff tags else 0)"

definition scanEntries :: "u16 \<Rightarrow> TiffContext \<Rightarrow> u64 \<Rightarrow> IfdScan option" where
  "scanEntries cnt tiff off =
     (let tableEnd = off + kEntryCountBytes + cnt * kEntryBytes + kNextPointerBytes;
          noTags = \<lparr>id_offsets = noEntry, id_counts = noEntry\<rparr>
      in foldl (\<lambda>ifd index.
           case (ifd, readEntry tiff (off + kEntryCountBytes + index * kEntryBytes)) of
             (Some sc, Some (Inr entry)) \<Rightarrow> Some (scanEntry sc entry)
           | _ \<Rightarrow> None)
         (Some \<lparr>is_tableEnd = tableEnd, is_end = tableEnd, is_strips = noTags, is_tiles = noTags, is_make = noEntry\<rparr>) [0..<cnt])"

definition scanIfd :: "TiffContext \<Rightarrow> u64 \<Rightarrow> IfdScan result" where
  "scanIfd tiff off =
     (case readU16 tiff off of
        Inl e \<Rightarrow> Inl e
      | Inr cnt \<Rightarrow>
          if \<not> hasValue (bytesAt (tc_reader tiff) (off + kEntryCountBytes) (cnt * kEntryBytes)) then Inl (mkError kOutOfRange off)
          else Inr (the (scanEntries cnt tiff off)))"

definition absorb :: "TiffWalkOutcome \<Rightarrow> TiffContext \<Rightarrow> IfdScan \<Rightarrow> TiffWalkOutcome" where
  "absorb outcome tiff ifd =
     (let dataEnd = max (imageDataEnd tiff (is_strips ifd)) (imageDataEnd tiff (is_tiles ifd))
      in outcome\<lparr>tw_sawIfd := True, tw_sawImageData := (tw_sawImageData outcome \<or> dataEnd > 0),
                 tw_end := max (max (tw_end outcome) (is_end ifd)) dataEnd,
                 tw_make := (if te_tag (tw_make outcome) = 0 then is_make ifd else tw_make outcome)\<rparr>)"

definition nextIfdOffset :: "TiffContext \<Rightarrow> IfdScan \<Rightarrow> u32" where
  "nextIfdOffset tiff ifd = (case readU32 tiff (is_tableEnd ifd - kNextPointerBytes) of Inl _ \<Rightarrow> 0 | Inr next' \<Rightarrow> next')"

definition stepIfd :: "TiffContext \<Rightarrow> TiffWalkOutcome \<Rightarrow> u64 \<Rightarrow> u32 result \<times> TiffWalkOutcome" where
  "stepIfd tiff outcome off =
     (case scanIfd tiff off of
        Inl e \<Rightarrow> (Inl e, outcome)
      | Inr ifd \<Rightarrow> (Inr (nextIfdOffset tiff ifd), absorb outcome tiff ifd))"

fun chainFrom :: "TiffContext \<Rightarrow> nat \<Rightarrow> u32 result \<Rightarrow> TiffWalkOutcome \<Rightarrow> u32 result \<times> TiffWalkOutcome" where
  "chainFrom tiff 0 off outcome = (off, outcome)"
| "chainFrom tiff (Suc left) off outcome =
     (case off of
        Inl e \<Rightarrow> (Inl e, outcome)
      | Inr at \<Rightarrow> if at = 0 then (Inr at, outcome) else let (off', outcome') = stepIfd tiff outcome at in chainFrom tiff left off' outcome')"

definition runChain :: "TiffContext \<Rightarrow> TiffWalkOutcome \<Rightarrow> u32 result \<times> TiffWalkOutcome" where
  "runChain tiff outcome = chainFrom tiff kMaxIfds (readU32 tiff kFirstIfdOffsetAt) outcome"

definition walkTiffIfds :: "TiffContext \<Rightarrow> TiffWalkOutcome" where
  "walkTiffIfds tiff =
     (let (stopped, outcome) = runChain tiff
            \<lparr>tw_end = 0, tw_sawIfd = False, tw_sawImageData = False, tw_withinBounds = True, tw_chainComplete = False, tw_make = noEntry\<rparr>
      in outcome\<lparr>tw_chainComplete := (stopped = Inr 0), tw_withinBounds := (tw_end outcome \<le> length (tc_reader tiff))\<rparr>)"

subsection \<open>The carver\<close>

definition kCanonMarkerOffset :: size_t where "kCanonMarkerOffset = 8"
definition kMakeSampleBytes :: size_t where "kMakeSampleBytes = 8"
definition kLittleEndianMagic :: bytes where "kLittleEndianMagic = [0x49, 0x49, 0x2A, 0x00]"
definition kBigEndianMagic :: bytes where "kBigEndianMagic = [0x4D, 0x4D, 0x00, 0x2A]"
definition kCanonMarker :: bytes where "kCanonMarker = [0x43, 0x52]"

definition orderFromMagic :: "bytes \<Rightarrow> bool result" where
  "orderFromMagic head =
     (if head = kBigEndianMagic then Inr True else if head = kLittleEndianMagic then Inr False else Inl (mkError kNotFound 0))"

definition byteOrderOf :: "bytes \<Rightarrow> bool result" where
  "byteOrderOf reader = andThen (bytesAt reader 0 (length kLittleEndianMagic)) orderFromMagic"

definition hasCanonMarker :: "bytes \<Rightarrow> bool" where
  "hasCanonMarker reader = (case bytesAt reader kCanonMarkerOffset (length kCanonMarker) of Inl _ \<Rightarrow> False | Inr marker \<Rightarrow> marker = kCanonMarker)"

definition makeText :: "TiffContext \<Rightarrow> TiffEntry \<Rightarrow> string" where
  "makeText tiff maker =
     (let wanted = min (te_count maker) kMakeSampleBytes
      in case bytesAt (tc_reader tiff) (te_valueOffset maker) wanted of Inl _ \<Rightarrow> [] | Inr raw \<Rightarrow> if te_tag maker = 0 then [] else asciiText raw)"

definition startsWith :: "string \<Rightarrow> string \<Rightarrow> bool" where
  "startsWith text head \<longleftrightarrow> take (length head) text = head"

definition extensionFor :: "TiffContext \<Rightarrow> TiffWalkOutcome \<Rightarrow> string" where
  "extensionFor tiff outcome =
     (if hasCanonMarker (tc_reader tiff) then ''cr2''
      else let maker = makeText tiff (tw_make outcome)
           in if startsWith maker ''NIKON'' then ''nef'' else if startsWith maker ''SONY'' then ''arw'' else ''tif'')"

definition verdictFor :: "TiffContext \<Rightarrow> TiffWalkOutcome \<Rightarrow> CarveResult" where
  "verdictFor tiff outcome =
     (if \<not> tw_sawIfd outcome then \<lparr>cv_length = 0, cv_confidence = kRejected, cv_extension = ''tif''\<rparr>
      else let whole = tw_sawImageData outcome \<and> tw_withinBounds outcome \<and> tw_chainComplete outcome
           in \<lparr>cv_length = min (tw_end outcome) (length (tc_reader tiff)), cv_confidence = (if whole then kValid else kUncertain),
               cv_extension = extensionFor tiff outcome\<rparr>)"

definition rawCarve :: "bytes \<Rightarrow> CarveResult result" where
  "rawCarve reader =
     (case byteOrderOf reader of
        Inl _ \<Rightarrow> Inr \<lparr>cv_length = 0, cv_confidence = kRejected, cv_extension = ''tif''\<rparr>
      | Inr bigEndian \<Rightarrow> let tiff = \<lparr>tc_reader = reader, tc_bigEndian = bigEndian\<rparr> in Inr (verdictFor tiff (walkTiffIfds tiff)))"

definition rawCarver :: FormatCarver where
  "rawCarver = \<lparr>fc_signatures = [\<lparr>sg_magic = kLittleEndianMagic, sg_offset = 0\<rparr>, \<lparr>sg_magic = kBigEndianMagic, sg_offset = 0\<rparr>], fc_carve = rawCarve\<rparr>"

interpretation raw: format_carver rawCarve
  by unfold_locales (auto simp: rawCarve_def verdictFor_def Let_def split: sum.splits if_splits)

subsection \<open>Every entry of a present table is read\<close>

lemma hasValue_readU: "hasValue (readU16 tiff off) \<longleftrightarrow> off + 2 \<le> length (tc_reader tiff)" "hasValue (readU32 tiff off) \<longleftrightarrow> off + 4 \<le> length (tc_reader tiff)"
  by (auto simp: readU16_def readU32_def readBe_def readLe_def hasValue_mapResult bytesAt_def)

lemma valueOf_Some: "hasValue r \<Longrightarrow> \<exists>v. valueOf r = Some v"
  by (cases r) simp_all

lemma readEntry_present:
  assumes "off + 12 \<le> length (tc_reader tiff)"
  shows "\<exists>entry. readEntry tiff off = Some (Inr entry)"
proof -
  have "hasValue (bytesAt (tc_reader tiff) off kEntryBytes)" using assms by (simp add: bytesAt_def kEntryBytes_def)
  moreover have "hasValue (readU16 tiff off)" "hasValue (readU16 tiff (off + 2))" "hasValue (readU32 tiff (off + 4))" "hasValue (readU32 tiff (off + 8))"
    using assms by (simp_all add: hasValue_readU)
  then obtain a b c d where "valueOf (readU16 tiff off) = Some a" "valueOf (readU16 tiff (off + 2)) = Some b"
    "valueOf (readU32 tiff (off + 4)) = Some c" "valueOf (readU32 tiff (off + 8)) = Some d"
    using valueOf_Some by metis
  ultimately show ?thesis by (simp add: readEntry_def)
qed

lemma scanEntries_reads:
  assumes "hasValue (bytesAt (tc_reader tiff) (off + kEntryCountBytes) (cnt * kEntryBytes))"
  shows "\<exists>ifd. scanEntries cnt tiff off = Some ifd"
proof -
  let ?step = "\<lambda>ifd index. case (ifd, readEntry tiff (off + kEntryCountBytes + index * kEntryBytes)) of
      (Some sc, Some (Inr entry)) \<Rightarrow> Some (scanEntry sc entry) | _ \<Rightarrow> None"
  have fits: "off + 2 + cnt * 12 \<le> length (tc_reader tiff)"
    using assms by (auto simp: bytesAt_def kEntryCountBytes_def kEntryBytes_def split: if_splits)
  have "n \<le> cnt \<Longrightarrow> \<exists>ifd. foldl ?step (Some start) [0..<n] = Some ifd" for start n
  proof (induction n)
    case (Suc n)
    then have "off + 2 + n * 12 + 12 \<le> length (tc_reader tiff)" using fits by linarith
    from readEntry_present [OF this] Suc show ?case by (auto simp: kEntryCountBytes_def kEntryBytes_def)
  qed simp
  then show ?thesis by (simp add: scanEntries_def Let_def)
qed

end
