(* ===== verification/TrailerCarving.thy ===== *)
theory TrailerCarving
  imports PngCarving
begin

text \<open>
  The two carvers whose files are bounded by a record at their end: ZIP archives with the Office documents among them
  (\<open>src/carve/formats/ZipEndRecord.cpp\<close>, \<open>ZipCarver.cpp\<close>) and PDF (\<open>PdfTrailer.cpp\<close>, \<open>PdfCarver.cpp\<close>). \<open>std::ranges::find_end\<close>,
  \<open>std::string::find\<close> and \<open>rfind\<close> are the first and last place a list occurs in another; \<open>std::from_chars\<close> reads the longest
  run of digits and fails on a number past 64 bits.
\<close>

subsection \<open>Searching\<close>

definition holds_at :: "'a list \<Rightarrow> 'a list \<Rightarrow> nat \<Rightarrow> bool" where
  "holds_at hay needle at \<longleftrightarrow> at + length needle \<le> length hay \<and> take (length needle) (drop at hay) = needle"

definition findLast :: "'a list \<Rightarrow> 'a list \<Rightarrow> nat option" where
  "findLast hay needle = find (holds_at hay needle) (rev [0..<Suc (length hay)])"

definition contains :: "'a list \<Rightarrow> 'a list \<Rightarrow> bool" where
  "contains hay needle \<longleftrightarrow> (\<exists>at \<in> set [0..<Suc (length hay)]. holds_at hay needle at)"

lemma findLast_Some:
  "findLast hay needle = Some at \<longleftrightarrow> holds_at hay needle at \<and> (\<forall>later > at. \<not> holds_at hay needle later)"
proof -
  have bound: "i \<le> length hay" if "holds_at hay needle i" for i using that by (simp add: holds_at_def)
  have "find P (rev [0..<Suc n]) = Some at \<longleftrightarrow> at \<le> n \<and> P at \<and> (\<forall>later. at < later \<and> later \<le> n \<longrightarrow> \<not> P later)" for P n
    by (induction n) (auto simp: le_Suc_eq)
  then show ?thesis unfolding findLast_def using bound by auto
qed

lemma findLast_None: "findLast hay needle = None \<longleftrightarrow> (\<forall>at. \<not> holds_at hay needle at)"
proof -
  have "i \<le> length hay" if "holds_at hay needle i" for i using that by (simp add: holds_at_def)
  then show ?thesis unfolding findLast_def find_None_iff by (auto simp del: upt_Suc simp: less_Suc_eq_le)
qed

subsection \<open>The end record of an archive\<close>

definition kEndRecordBytes :: size_t where "kEndRecordBytes = 22"
definition kEntryCountOffset :: u64 where "kEntryCountOffset = 10"
definition kDirectorySizeOffset :: u64 where "kDirectorySizeOffset = 12"
definition kDirectoryOffsetOffset :: u64 where "kDirectoryOffsetOffset = 16"
definition kCommentLengthOffset :: u64 where "kCommentLengthOffset = 20"
definition kEndSignature :: bytes where "kEndSignature = [0x50, 0x4B, 0x05, 0x06]"
definition kDirectorySignature :: bytes where "kDirectorySignature = [0x50, 0x4B, 0x01, 0x02]"

record ZipEndRecord =
  zr_offset :: u64
  zr_end :: u64
  zr_centralDirectoryOffset :: u64
  zr_entryCount :: u32
  zr_centralDirectoryChecksOut :: bool

definition lastSignatureOffset :: "bytes \<Rightarrow> u64 result" where
  "lastSignatureOffset reader =
     (case bytesAt reader 0 (length reader) of
        Inl _ \<Rightarrow> Inl (mkError kNotFound 0)
      | Inr all' \<Rightarrow> (case findLast all' kEndSignature of None \<Rightarrow> Inl (mkError kNotFound 0) | Some at \<Rightarrow> Inr at))"

definition directoryChecksOut :: "bytes \<Rightarrow> u64 \<Rightarrow> u64 \<Rightarrow> bool" where
  "directoryChecksOut reader eocd directoryOffset =
     (case readLe 4 reader (eocd + kDirectorySizeOffset) of
        Inl _ \<Rightarrow> False
      | Inr sz \<Rightarrow>
          if directoryOffset + sz \<noteq> eocd then False
          else case bytesAt reader directoryOffset (length kDirectorySignature) of Inl _ \<Rightarrow> False | Inr head \<Rightarrow> head = kDirectorySignature)"

definition readEndRecord :: "bytes \<Rightarrow> u64 \<Rightarrow> ZipEndRecord result" where
  "readEndRecord reader off =
     (case readLe 2 reader (off + kCommentLengthOffset) of
        Inl e \<Rightarrow> Inl e
      | Inr comment \<Rightarrow>
          (case readLe 4 reader (off + kDirectoryOffsetOffset) of
             Inl e \<Rightarrow> Inl e
           | Inr directory \<Rightarrow>
               Inr \<lparr>zr_offset = off, zr_end = off + kEndRecordBytes + comment, zr_centralDirectoryOffset = directory,
                    zr_entryCount = the (valueOf (readLe 2 reader (off + kEntryCountOffset))),
                    zr_centralDirectoryChecksOut = directoryChecksOut reader off directory\<rparr>))"

definition findZipEndRecord :: "bytes \<Rightarrow> ZipEndRecord result" where
  "findZipEndRecord reader = andThen (lastSignatureOffset reader) (readEndRecord reader)"

subsection \<open>The ZIP carver\<close>

definition kNameSampleBytes :: size_t where "kNameSampleBytes = 64"
definition kLocalHeaderSignature :: bytes where "kLocalHeaderSignature = [0x50, 0x4B, 0x03, 0x04]"

definition kOfficePrefixes :: "(string \<times> string) list" where
  "kOfficePrefixes = [(''word/'', ''docx''), (''xl/'', ''xlsx''), (''ppt/'', ''pptx'')]"

definition directorySample :: "bytes \<Rightarrow> ZipEndRecord \<Rightarrow> string" where
  "directorySample reader rec =
     (case bytesAt reader (zr_centralDirectoryOffset rec) kNameSampleBytes of Inl _ \<Rightarrow> [] | Inr raw \<Rightarrow> asciiText raw)"

definition zipExtensionFor :: "bytes \<Rightarrow> ZipEndRecord \<Rightarrow> string" where
  "zipExtensionFor reader rec =
     (let sample = directorySample reader rec
      in case find (\<lambda>(prefix', extension). contains sample prefix') kOfficePrefixes of Some (_, extension) \<Rightarrow> extension | None \<Rightarrow> ''zip'')"

definition zipRejected :: CarveResult where
  "zipRejected = \<lparr>cv_length = 0, cv_confidence = kRejected, cv_extension = ''zip''\<rparr>"

definition zipVerdictFor :: "bytes \<Rightarrow> ZipEndRecord \<Rightarrow> CarveResult" where
  "zipVerdictFor reader rec =
     (let whole = zr_centralDirectoryChecksOut rec \<and> zr_end rec \<le> length reader
      in \<lparr>cv_length = min (zr_end rec) (length reader), cv_confidence = (if whole then kValid else kUncertain),
          cv_extension = zipExtensionFor reader rec\<rparr>)"

definition zipCarve :: "bytes \<Rightarrow> CarveResult result" where
  "zipCarve reader =
     (if \<not> headMatches reader kLocalHeaderSignature then Inr zipRejected
      else case findZipEndRecord reader of Inl _ \<Rightarrow> Inr zipRejected | Inr rec \<Rightarrow> Inr (zipVerdictFor reader rec))"

definition zipCarver :: FormatCarver where
  "zipCarver = \<lparr>fc_signatures = [\<lparr>sg_magic = kLocalHeaderSignature, sg_offset = 0\<rparr>], fc_carve = zipCarve\<rparr>"

interpretation zip: format_carver zipCarve
  by unfold_locales (auto simp: zipCarve_def zipRejected_def zipVerdictFor_def Let_def split: sum.splits if_splits)

subsection \<open>The trailer of a PDF\<close>

definition kEofMarkerBytes :: u64 where "kEofMarkerBytes = 5"
definition kTrailerLookbackBytes :: size_t where "kTrailerLookbackBytes = 64"
definition kResolveSampleBytes :: size_t where "kResolveSampleBytes = 8"
definition kStartxref :: string where "kStartxref = ''startxref''"
definition kXrefKeyword :: string where "kXrefKeyword = ''xref''"
definition kDigits :: string where "kDigits = ''0123456789''"
definition kCarriageReturn :: byte where "kCarriageReturn = 0x0D"
definition kLineFeed :: byte where "kLineFeed = 0x0A"
definition kEofMarker :: bytes where "kEofMarker = [0x25, 0x25, 0x45, 0x4F, 0x46]"

record PdfTrailer =
  pt_end :: u64
  pt_crossReferenceResolves :: bool

definition lastEofOffset :: "bytes \<Rightarrow> u64 result" where
  "lastEofOffset reader =
     (case bytesAt reader 0 (length reader) of
        Inl _ \<Rightarrow> Inl (mkError kNotFound 0)
      | Inr all' \<Rightarrow> (case findLast all' kEofMarker of None \<Rightarrow> Inl (mkError kNotFound 0) | Some at \<Rightarrow> Inr at))"

definition lineEndBytes :: "bytes \<Rightarrow> u64 \<Rightarrow> u64" where
  "lineEndBytes reader after =
     (case bytesAt reader after 2 of
        Inr [a, b] \<Rightarrow>
          if a = kCarriageReturn \<and> b = kLineFeed then 2
          else (case bytesAt reader after 1 of Inr [c] \<Rightarrow> if c = kCarriageReturn \<or> c = kLineFeed then 1 else 0 | _ \<Rightarrow> 0)
      | _ \<Rightarrow> (case bytesAt reader after 1 of Inr [c] \<Rightarrow> if c = kCarriageReturn \<or> c = kLineFeed then 1 else 0 | _ \<Rightarrow> 0))"

definition digitValue :: "char \<Rightarrow> nat" where
  "digitValue c = of_char c - 48"

definition from_chars :: "string \<Rightarrow> u64 option" where
  "from_chars text =
     (let val = foldl (\<lambda>v c. 10 * v + digitValue c) 0 (takeWhile (\<lambda>c. c \<in> set kDigits) text) in if val > max64 then None else Some val)"

definition parseDigitsAfter :: "string \<Rightarrow> size_t \<Rightarrow> u64 result" where
  "parseDigitsAfter text start =
     (case find (\<lambda>i. text ! i \<in> set kDigits) [start..<length text] of
        None \<Rightarrow> Inl (mkError kNotFound start)
      | Some at \<Rightarrow> (case from_chars (drop at text) of None \<Rightarrow> Inl (mkError kInvalidArgument at) | Some val \<Rightarrow> Inr val))"

definition startxrefOffset :: "bytes \<Rightarrow> u64 \<Rightarrow> u64 result" where
  "startxrefOffset reader marker =
     (let start = (if marker > kTrailerLookbackBytes then marker - kTrailerLookbackBytes else 0)
      in case bytesAt reader start (marker - start) of
           Inl _ \<Rightarrow> Inl (mkError kNotFound marker)
         | Inr window \<Rightarrow>
             let text = asciiText window
             in case findLast text kStartxref of None \<Rightarrow> Inl (mkError kNotFound 0) | Some at \<Rightarrow> parseDigitsAfter text at)"

definition resolvesAt :: "bytes \<Rightarrow> u64 \<Rightarrow> bool" where
  "resolvesAt reader off =
     (case bytesAt reader off kResolveSampleBytes of
        Inl _ \<Rightarrow> False
      | Inr head \<Rightarrow>
          let text = asciiText head
          in take (length kXrefKeyword) text = kXrefKeyword \<or> hd text \<in> set kDigits)"

definition crossReferenceResolves :: "bytes \<Rightarrow> u64 \<Rightarrow> bool" where
  "crossReferenceResolves reader marker = (case startxrefOffset reader marker of Inl _ \<Rightarrow> False | Inr off \<Rightarrow> resolvesAt reader off)"

definition findPdfTrailer :: "bytes \<Rightarrow> PdfTrailer result" where
  "findPdfTrailer reader =
     mapResult (lastEofOffset reader)
       (\<lambda>marker.
          let afterMarker = marker + kEofMarkerBytes
          in \<lparr>pt_end = afterMarker + lineEndBytes reader afterMarker, pt_crossReferenceResolves = crossReferenceResolves reader marker\<rparr>)"

subsection \<open>The PDF carver\<close>

definition kPdfHeader :: bytes where "kPdfHeader = [0x25, 0x50, 0x44, 0x46, 0x2D]"

definition pdfRejected :: CarveResult where
  "pdfRejected = \<lparr>cv_length = 0, cv_confidence = kRejected, cv_extension = ''pdf''\<rparr>"

definition pdfVerdictFor :: "bytes \<Rightarrow> PdfTrailer \<Rightarrow> CarveResult" where
  "pdfVerdictFor reader trailer =
     \<lparr>cv_length = min (pt_end trailer) (length reader),
      cv_confidence = (if pt_crossReferenceResolves trailer then kValid else kUncertain), cv_extension = ''pdf''\<rparr>"

definition pdfCarve :: "bytes \<Rightarrow> CarveResult result" where
  "pdfCarve reader =
     (if \<not> headMatches reader kPdfHeader then Inr pdfRejected
      else case findPdfTrailer reader of Inl _ \<Rightarrow> Inr pdfRejected | Inr trailer \<Rightarrow> Inr (pdfVerdictFor reader trailer))"

definition pdfCarver :: FormatCarver where
  "pdfCarver = \<lparr>fc_signatures = [\<lparr>sg_magic = kPdfHeader, sg_offset = 0\<rparr>], fc_carve = pdfCarve\<rparr>"

interpretation pdf: format_carver pdfCarve
  by unfold_locales (auto simp: pdfCarve_def pdfRejected_def pdfVerdictFor_def split: sum.splits if_splits)

end
