(* ===== verification/BuiltinCarving.thy ===== *)
theory BuiltinCarving
  imports JpegCarving Mp4Carving TiffCarving TrailerCarving
begin

text \<open>
  \<open>src/carve/BuiltinCarvers.cpp\<close>: which carvers a registry is given, and what a scan with them finds. The
  template \<open>addIfAllowed\<close> takes the carver it would construct as an argument.
\<close>

definition kJpegNames :: "string list" where "kJpegNames = [''jpg'']"
definition kPngNames :: "string list" where "kPngNames = [''png'']"
definition kMp4Names :: "string list" where "kMp4Names = [''mp4'', ''mov'']"
definition kRawNames :: "string list" where "kRawNames = [''cr2'', ''nef'', ''arw'', ''tif'']"
definition kZipNames :: "string list" where "kZipNames = [''zip'', ''docx'', ''xlsx'', ''pptx'']"
definition kPdfNames :: "string list" where "kPdfNames = [''pdf'']"

definition kFormatNames :: "string list" where
  "kFormatNames = concat [kJpegNames, kPngNames, kMp4Names, kRawNames, kZipNames, kPdfNames]"

definition allowed :: "string list \<Rightarrow> string list \<Rightarrow> bool" where
  "allowed names allowlist \<longleftrightarrow> allowlist = [] \<or> list_ex (\<lambda>name. name \<in> set allowlist) names"

definition addIfAllowed :: "Cpu \<Rightarrow> FormatCarver \<Rightarrow> string list \<Rightarrow> CarverRegistry \<Rightarrow> string list \<Rightarrow> CarverRegistry" where
  "addIfAllowed cpu carver names registry allowlist = (if allowed names allowlist then registerCarver cpu registry carver else registry)"

definition registerBuiltinCarvers :: "Cpu \<Rightarrow> CarverRegistry \<Rightarrow> string list \<Rightarrow> CarverRegistry" where
  "registerBuiltinCarvers cpu registry allowlist =
     (let one = addIfAllowed cpu jpegCarver kJpegNames registry allowlist;
          two = addIfAllowed cpu pngCarver kPngNames one allowlist;
          three = addIfAllowed cpu mp4Carver kMp4Names two allowlist;
          four = addIfAllowed cpu rawCarver kRawNames three allowlist;
          five = addIfAllowed cpu zipCarver kZipNames four allowlist
      in addIfAllowed cpu pdfCarver kPdfNames five allowlist)"

definition isBuiltinFormat :: "string \<Rightarrow> bool" where
  "isBuiltinFormat name \<longleftrightarrow> name \<in> set kFormatNames"

subsection \<open>The registered carvers\<close>

definition builtinCarvers :: "string list \<Rightarrow> FormatCarver list" where
  "builtinCarvers allowlist = map snd (filter (\<lambda>(names, carver). allowed names allowlist)
     [(kJpegNames, jpegCarver), (kPngNames, pngCarver), (kMp4Names, mp4Carver), (kRawNames, rawCarver), (kZipNames, zipCarver), (kPdfNames, pdfCarver)])"

lemma registerBuiltinCarvers_registered:
  "registerBuiltinCarvers cpu (carverRegistry path) allowlist = registered cpu path (builtinCarvers allowlist)"
  by (simp add: registerBuiltinCarvers_def addIfAllowed_def builtinCarvers_def registered_def Let_def)

lemma builtin_cases: "c \<in> set (builtinCarvers allowlist) \<Longrightarrow> c \<in> {jpegCarver, pngCarver, mp4Carver, rawCarver, zipCarver, pdfCarver}"
  unfolding builtinCarvers_def set_map set_filter by auto

lemma builtin_keep: "c \<in> set (builtinCarvers allowlist) \<Longrightarrow> format_carver (fc_carve c)"
  using builtin_cases [of c allowlist] jpeg.format_carver_axioms png.format_carver_axioms mp4.format_carver_axioms raw.format_carver_axioms zip.format_carver_axioms
    pdf.format_carver_axioms
  by (auto simp: jpegCarver_def pngCarver_def mp4Carver_def rawCarver_def zipCarver_def pdfCarver_def)

lemmas carver_defs = jpegCarver_def pngCarver_def mp4Carver_def rawCarver_def zipCarver_def pdfCarver_def kSoiSignature_def kPngSignature_def
  kFtypMagic_def kFtypOffset_def kLittleEndianMagic_def kBigEndianMagic_def kLocalHeaderSignature_def kPdfHeader_def

lemma length_flatten: "length (flatten carvers) \<le> sum_list (map (\<lambda>c. length (fc_signatures c)) carvers)"
  by (induction carvers rule: rev_induct) (auto simp: flatten_snoc entriesOf_def intro: add_mono)

lemma builtin_few: "length (flatten (builtinCarvers allowlist)) < 2 ^ 16"
proof -
  have "sum_list (map (\<lambda>c. length (fc_signatures c)) (builtinCarvers allowlist)) \<le> 7"
    by (simp add: builtinCarvers_def carver_defs)
  then show ?thesis using length_flatten [of "builtinCarvers allowlist"] by simp
qed

lemma registered_widest: "(\<And>c. c \<in> set carvers \<Longrightarrow> widestSignature c \<le> n) \<Longrightarrow> cr_maxSignatureBytes (registered cpu path carvers) \<le> n"
  by (induction carvers rule: rev_induct) (simp_all add: registered_def carverRegistry_def registerCarver_def Let_def)

lemma builtin_widest: "cr_maxSignatureBytes (registered cpu path (builtinCarvers allowlist)) \<le> 8"
proof (rule registered_widest)
  fix c
  assume "c \<in> set (builtinCarvers allowlist)"
  from builtin_cases [OF this] show "widestSignature c \<le> 8" by (auto simp: widestSignature_def carver_defs)
qed

interpretation builtin_set: carver_set cpu path "builtinCarvers allowlist" for cpu :: Cpu and path :: MatchPath and allowlist :: "string list"
  by unfold_locales (rule builtin_few)

lemma builtin_scan:
  assumes "serves device content" and "length content + sw_windowBytes config \<le> max64" and "length content + sw_maxCarveBytes config \<le> max64"
    and "8 \<le> sw_windowBytes config"
  shows "carver_scan cpu path (builtinCarvers allowlist) config device content"
  using assms builtin_widest [of cpu path allowlist] builtin_few [of allowlist]
  by (intro carver_scan.intro carver_scan_axioms.intro carver_set.intro builtin_keep) simp_all

definition scannable :: nat where "scannable = max64 - kDefaultMaxCarveBytes"

interpretation image_scan: carver_scan cpu path "builtinCarvers allowlist" defaultScanConfig "imageOf (take scannable content)" "take scannable content"
  for cpu :: Cpu and path :: MatchPath and allowlist :: "string list" and content :: bytes
proof (rule builtin_scan)
  show "length (take scannable content) + sw_windowBytes defaultScanConfig \<le> max64"
    "length (take scannable content) + sw_maxCarveBytes defaultScanConfig \<le> max64" "8 \<le> sw_windowBytes defaultScanConfig"
    by (auto simp: scannable_def defaultScanConfig_def kDefaultScanWindowBytes_def kDefaultMaxCarveBytes_def max64_def)
  then show "serves (imageOf (take scannable content)) (take scannable content)" by (intro imageOf_serves) simp
qed

subsection \<open>What a scan finds\<close>

text \<open>
  C3: A scan misses no signature silently. Over a device that serves its content, with any allowlist, processor and window of at least eight
  bytes, a scan of a region inside the device always ends without an error, and what it reports is exact: every candidate starts in the
  region where a registered signature stands and carries that carver's verdict, no candidate starts before the point the one before it resumed at, and
  every signature whose file would start in the region is either carved, or lies inside a file already reported, or is
  overtaken by a reported candidate that starts within that signature's own few bytes.
\<close>

theorem every_signature_is_accounted_for:
  assumes "serves device content" and "length content + sw_windowBytes config \<le> max64" and "length content + sw_maxCarveBytes config \<le> max64"
    and "8 \<le> sw_windowBytes config" and "sr_offset region + sr_length region \<le> length content"
  shows "\<exists>found. scanRegion (signatureScanner (registerBuiltinCarvers cpu (carverRegistry path) allowlist) config) device region =
      (found, Inr \<lparr>ss_bytesScanned = sr_length region, ss_candidateCount = length found\<rparr>) \<and>
    sorted_wrt (\<lambda>a b. resumeOffset a \<le> sn_offset b) found \<and>
    (\<forall>c \<in> set found. sr_offset region \<le> sn_offset c \<and> sn_offset c < sr_offset region + sr_length region \<and>
       (\<exists>e \<in> set (flatten (builtinCarvers allowlist)). occurs_at content e (sn_offset c) \<and>
          verdict_at config content (se_carver e) (sn_offset c) = Inr (sn_result c))) \<and>
    (\<forall>e \<in> set (flatten (builtinCarvers allowlist)). \<forall>start.
       sr_offset region \<le> start \<and> start < sr_offset region + sr_length region \<and> occurs_at content e start \<longrightarrow>
       (\<exists>c \<in> set found. sn_offset c \<le> start \<and> start < resumeOffset c) \<or>
       (\<exists>c \<in> set found. start < sn_offset c \<and> sn_offset c < start + span e))"
proof -
  note scan = carver_scan.scanRegion_complete [OF builtin_scan [OF assms(1-4), of cpu path allowlist] assms(5)]
  show ?thesis unfolding registerBuiltinCarvers_registered imp_conjL
    by (rule scan [unfolded scan_complete_def resume_order_def reported_ok_def accounted_def swallowed_def overtaken_def])
qed

definition smallConfig :: ScanConfig where "smallConfig = \<lparr>sw_windowBytes = 8, sw_maxCarveBytes = 16\<rparr>"

definition sampleDisk :: bytes where "sampleDisk = [0, 0, 0xFF, 0xD8, 0xFF, 0]"

definition sampleScanner :: SignatureScanner where
  "sampleScanner = signatureScanner (registerBuiltinCarvers \<lparr>cpu_buildHasAvx2 = True, cpu_cpuHasAvx2 = True\<rparr> (carverRegistry kAuto) [''jpg'']) smallConfig"

lemma sample_signature: "\<exists>e \<in> set (flatten (builtinCarvers [''jpg''])). occurs_at sampleDisk e 2"
proof -
  let ?e = "\<lparr>se_magic = kSoiSignature, se_inFileOffset = 0, se_carver = jpegCarver, se_carverIndex = 0\<rparr>"
  have "builtinCarvers [''jpg''] = [jpegCarver]"
    by (simp add: builtinCarvers_def allowed_def kJpegNames_def kPngNames_def kMp4Names_def kRawNames_def kZipNames_def kPdfNames_def)
  then have "?e \<in> set (flatten (builtinCarvers [''jpg'']))"
    by (simp add: flatten_def appendSignatures_def jpegCarver_def kSoiSignature_def)
  moreover have "occurs_at sampleDisk ?e 2" by (simp add: occurs_at_def magic_at_def sampleDisk_def kSoiSignature_def)
  ultimately show ?thesis by (rule bexI [rotated])
qed

theorem every_signature_is_accounted_for_witness:
  "\<exists>found. scanRegion sampleScanner (imageOf sampleDisk) \<lparr>sr_offset = 1, sr_length = 4\<rparr> =
     (found, Inr \<lparr>ss_bytesScanned = 4, ss_candidateCount = length found\<rparr>) \<and> found \<noteq> []"
proof -
  have disk: "serves (imageOf sampleDisk) sampleDisk" by (rule imageOf_serves) (simp add: sampleDisk_def max64_def)
  have sizes: "length sampleDisk + sw_windowBytes smallConfig \<le> max64" "length sampleDisk + sw_maxCarveBytes smallConfig \<le> max64"
      "8 \<le> sw_windowBytes smallConfig"
      "sr_offset \<lparr>sr_offset = 1, sr_length = 4\<rparr> + sr_length \<lparr>sr_offset = 1, sr_length = 4\<rparr> \<le> length sampleDisk"
    by (simp_all add: sampleDisk_def smallConfig_def max64_def)
  obtain e where entry: "e \<in> set (flatten (builtinCarvers [''jpg'']))" and occurs: "occurs_at sampleDisk e 2" using sample_signature by blast
  obtain found where found: "scanRegion sampleScanner (imageOf sampleDisk) \<lparr>sr_offset = 1, sr_length = 4\<rparr> =
      (found, Inr \<lparr>ss_bytesScanned = 4, ss_candidateCount = length found\<rparr>)"
    and all: "\<forall>e \<in> set (flatten (builtinCarvers [''jpg''])). \<forall>start. 1 \<le> start \<and> start < 5 \<and> occurs_at sampleDisk e start \<longrightarrow>
       (\<exists>c \<in> set found. sn_offset c \<le> start \<and> start < resumeOffset c) \<or> (\<exists>c \<in> set found. start < sn_offset c \<and> sn_offset c < start + span e)"
    using every_signature_is_accounted_for [OF disk sizes, of "\<lparr>cpu_buildHasAvx2 = True, cpu_cpuHasAvx2 = True\<rparr>" kAuto "[''jpg'']"]
    by (auto simp: sampleScanner_def)
  have "found \<noteq> []" using all entry occurs by force
  then show ?thesis using found by blast
qed

end
