(* ===== verification/Spec2Isabelle.thy ===== *)
theory Spec2Isabelle
  imports Sha256 CandidateFiles Checkpoints Naming OutputPaths Caching Retrying PartitionTables Mounting BuiltinCarving
begin

text \<open>
  A verification development for the Revenant data recovery toolkit, the C++ program under \<open>src/\<close>. Paths below are
  relative to \<open>src/src/\<close>, and to \<open>src/include/revenant/\<close> for headers.

  \<^bold>\<open>The program.\<close> A source, an image file or a raw device, is read through a stack of block devices (\<open>core/io\<close>): clamped and
  looped positioned reads, retries that keep a map of unreadable sectors, a block cache. The volume layer (\<open>volume\<close>)
  finds the partitions. A filesystem pass mounts a volume with the first of four readers that recognises it (\<open>fs\<close>) and
  reports an entry for every file, deleted ones too, with the extents of its content and a grade of confidence. The bytes that no
  entry of the highest grade accounts for are cut into regions (\<open>recovery/ByteAccounting.cpp\<close>, \<open>ScanRegions.cpp\<close>), and a signature
  scan (\<open>carve\<close>) looks there for the files of six families of formats. Entries and carved files are appended as candidates to an index on
  disk, beside a checkpoint from which an interrupted run resumes. Arbitration then picks among the candidates those that are written, and the sink
  (\<open>recovery/RecoverySink.cpp\<close>) extracts each winner under a safe name, with its digest.

  \<^bold>\<open>Theories and code.\<close> Every theory names in its opening text the files it translates; definitions have the names of the code,
  and records have the members of the classes, with a short prefix. Where two files of the program use a name for two functions in anonymous
  namespaces, the theory's name tells them apart.

  \<^item> Foundations. \<open>Prelude\<close> models no code. \<open>Result\<close>: \<open>Error.hpp\<close>, \<open>Result.hpp\<close>, \<open>Confidence.hpp\<close>. \<open>Bytes\<close>: endian helpers, \<open>ByteReader\<close>,
    checked arithmetic. \<open>Crc32\<close>, \<open>Sha256\<close>: the checksums, against reference definitions. \<open>Names\<close>: escaping and decoding of file names.
  \<^item> Devices. \<open>Devices\<close>: \<open>BlockDevice\<close>, read clamping, the read loop, aligned reads, windows on a device. \<open>Caching\<close> and \<open>Retrying\<close>:
    the two decorators.
  \<^item> Volumes. \<open>Mbr\<close>, \<open>Gpt\<close>, \<open>PartitionTables\<close>: the two partition schemes with the extended chain and the backup table.
  \<^item> Filesystems. \<open>Extents\<close>: what the readers share. \<open>FileSystems\<close>: what a reader owes its caller. \<open>NtfsRuns\<close>, \<open>NtfsRecords\<close>, \<open>NtfsVolumes\<close>: data runs, file records
    with their fixup, the table and the enumeration. \<open>ClusterChains\<close>, \<open>DosTimes\<close>: chains, worklists and dates of the FAT family. \<open>FatEntries\<close>, \<open>FatVolumes\<close>: FAT32.
    \<open>ExfatVolumes\<close>: exFAT. \<open>Ext4Layout\<close>, \<open>Ext4Trees\<close>, \<open>Ext4Journal\<close>, \<open>Ext4Volumes\<close>: ext4 with extent trees, the journal as a source
    of older inodes, and entries swallowed by their neighbours. \<open>Mounting\<close>: \<open>fs/Mount.cpp\<close>.
  \<^item> Carving. \<open>Signatures\<close>: the registry, the signature table, the portable and the vector matcher. \<open>Scanning\<close>: the window loop, the carving of matches,
    plausibility. \<open>PngCarving\<close>, \<open>JpegCarving\<close>, \<open>Mp4Carving\<close>, \<open>TiffCarving\<close> (camera raw), \<open>TrailerCarving\<close> (ZIP and PDF): the formats. \<open>BuiltinCarving\<close>:
    the built-in set.
  \<^item> Recovery. \<open>Regions\<close>: the set of claimed regions. \<open>Accounting\<close>: accounted bytes and the remaining scan. \<open>Arbitration\<close>: the choice of winners.
    \<open>CandidateFiles\<close>: the index. \<open>Checkpoints\<close>: session files. \<open>OutputPaths\<close>, \<open>Naming\<close>: safe and distinct names. \<open>Sink\<close>: extraction. \<open>Pipeline\<close>:
    \<open>HybridRecovery.cpp\<close> and the walks and visitors it drives. This theory composes it with the program's own mounter
    and scanner, and arbitration with the index on disk.

  \<^bold>\<open>How the code is rendered.\<close> Unsigned integers are natural numbers, with \<open>wrap64\<close> or \<open>wrap32\<close> where the code lets an operation wrap and the
  check written out where it checks; code on bits uses words. A \<open>Result\<close> is a sum with the error on the left. An object is a record that its operations return
  updated; a visitor is the list of what it was called with. A device is a size and a reading function; \<open>serves\<close> says that it
  returns the bytes of a given content. Three kinds of outside behaviour are parameters: the positioned read of the operating system, which may
  return fewer bytes than asked for or fail; the host filesystem under the sink, the index and the session files, where each write may fail or be cut short; and the
  processor's answer whether it has the vector unit. \<open>std::ranges::sort\<close> may return any sorted permutation where the order of equal elements is
  observable.

  \<^bold>\<open>Loops.\<close> Loops whose progress is plain are recursive functions with their measure: the read loop, the walks over chunks, markers, boxes and
  directory slots, the window loop (which moves forward because its next cursor is past the current one). Four are partial functions whose value is
  \<open>None\<close> when they do not return, because progress depends on a value: the chunking of a region by the checkpoint interval, the update and the padding of the digest, and the
  worklist of directories and of the nodes of an extent tree. Each is shown to return: the chunking for a positive interval, the digest always, the worklist for
  the directories of each of the three filesystems, by the finite set that can still be visited, and for extent trees by the limit on visited nodes. No loop is bounded by fuel that the code does not have; the limits that occur
  (\<open>kMaxIfds\<close>, the depth of a path, the partitions of a table) are the code's own constants.

  \<^bold>\<open>Interfaces.\<close> Contracts between components are locales, interpreted on the program's definitions: \<open>claim_set\<close> (what arbitration and accounting rely on in the
  region set), \<open>block_device\<close> with \<open>image_source\<close> and \<open>device_window\<close> (a read returns the content), \<open>worklist\<close> (every step lowers a cost and keeps an invariant: the
  three directory walks), \<open>filesystem_driver\<close>, \<open>volume_driver\<close> and \<open>volume_drivers\<close> (the entries a mounted reader reports state exact content: the four readers and the
  mounter over them), \<open>signature_index\<close> and \<open>carver_set\<close> (the table finds what was registered), \<open>format_carver\<close> (a carver answers, stays inside its window and rejects with length
  zero: the six carvers), \<open>carver_scan\<close> (what a scan with them finds).

  \<^bold>\<open>What is proved.\<close>
  \<^item> The run: interrupted and resumed at its cursor it loses nothing, for any mounter and scanner that keep their contracts and, below, for those of the program.
  \<^item> Carving: the vector path finds the same matches as the portable one; a scan accounts for each occurrence of each signature: it is
    carved, lies in a carved file, or is overtaken within its own bytes by one; a PNG file is carved
    with exactly its bytes.
  \<^item> Readers: which reader answers; entries state content of the stated size within the address range; NTFS, FAT32, exFAT and ext4 walks end on every input; runlists, extent trees,
    cluster chains, long names, journal tags and superblocks are decoded exactly; a damaged name or path stays safe.
  \<^item> Recovery: accounting never hides a byte that no valid entry holds; arbitration yields disjoint winners, each loser beaten by a better one; the region set is a union; the index and the checkpoint round-trip and
    survive an interrupted write at every step; extraction writes the winner's bytes, inside the destination, with the right digest, and accounts for each winner.
  \<^item> Devices and volumes: the cache is invisible, the retrying device reports the truth about bad sectors, GPT and MBR disks are read as they are laid out.

  \<^bold>\<open>Not modelled.\<close> The manifest (JSON text of results already modelled), the destination rule and device identity (answers of the operating system about devices and
  mounts), detection of processor features, the command line and logging (text in and out). Time, memory and
  concurrency do not occur: the program is sequential, and its stop flag is the predicate a run asks between regions.
\<close>

subsection \<open>Arbitration over the index on disk\<close>

text \<open>
  \<open>arbitrateIndex\<close> of \<open>Arbitration.cpp\<close>. The reader of the index casts the stored confidence and source to their enumerations without a check; a
  record with a value that is no enumerator has no candidate in the model, and the whole answer is \<open>None\<close>.
\<close>

definition candidateOf :: "StoredCandidate \<Rightarrow> Candidate option" where
  "candidateOf stored =
     (case (find (\<lambda>c. confidence_value c = sc_confidence stored) [kRejected, kUncertain, kValid],
            find (\<lambda>src. source_value src = sc_source stored) [kFilesystem, kCarve]) of
        (Some confidence, Some source) \<Rightarrow>
          Some \<lparr>cd_name = sc_name stored, cd_extents = sc_extents stored, cd_residentContent = sc_residentContent stored,
                cd_timestamps = sc_timestamps stored, cd_confidence = confidence, cd_source = source\<rparr>
      | _ \<Rightarrow> None)"

definition arbitrateIndex :: "IndexFiles \<Rightarrow> Arbitration result option" where
  "arbitrateIndex files =
     (case readIndex files of
        Inl e \<Rightarrow> Some (Inl e)
      | Inr contents \<Rightarrow> map_option (\<lambda>candidates. Inr (arbitrate candidates)) (those (map candidateOf (ic_candidates contents))))"

lemma candidateOf_storedOf [simp]: "candidateOf (storedOf c) = Some c"
  by (cases c; cases "cd_confidence c"; cases "cd_source c") (simp_all add: candidateOf_def storedOf_def)

lemma written_candidates_are_arbitrated:
  assumes "indexCreate host = Inr index" and "appendAll index new = Inr index'" and "indexable (map snd new)"
  shows "arbitrateIndex (ci_files index') = Some (Inr (arbitrate (map snd new)))"
proof -
  have blob: "ci_blobBytes index = 0" using assms(1) by (auto simp: indexCreate_def split: prod.splits if_splits)
  have "readIndex (ci_files index') = Inr \<lparr>ic_candidates = map storedOf (map snd new), ic_droppedRecords = 0\<rparr>"
    using appendAll_reads_back [OF indexCreate_ok [OF assms(1)] assms(2)] assms(3) blob by (simp add: indexable_def)
  moreover have "those (map candidateOf (map storedOf cs)) = Some cs" for cs by (induction cs) simp_all
  ultimately show ?thesis by (simp add: arbitrateIndex_def del: map_map)
qed

subsection \<open>A run over the program's own readers and carvers\<close>

definition carveScan :: "SignatureScanner \<Rightarrow> region_scan" where
  "carveScan scanner device region =
     (let (found, stats) = scanRegion scanner device region in (found, mapResult stats ss_candidateCount))"

definition builtinScanner :: "Cpu \<Rightarrow> MatchPath \<Rightarrow> string list \<Rightarrow> ScanConfig \<Rightarrow> SignatureScanner" where
  "builtinScanner cpu path allowlist config = signatureScanner (registerBuiltinCarvers cpu (carverRegistry path) allowlist) config"

lemma carveScan_complete:
  assumes "serves device content" and "length content + sw_windowBytes config \<le> max64" and "length content + sw_maxCarveBytes config \<le> max64"
    and "8 \<le> sw_windowBytes config" and "region_end region \<le> length content"
  shows "\<exists>found. carveScan (builtinScanner cpu path allowlist config) device region = (found, Inr (length found)) \<and>
    scan_complete config content (builtinCarvers allowlist) (sr_offset region) (region_end region) found"
  using carver_scan.scanRegion_complete [OF builtin_scan [OF assms(1-4), of cpu path allowlist] assms(5) [unfolded region_end_def]]
  by (auto simp: carveScan_def builtinScanner_def registerBuiltinCarvers_registered region_end_def)

lemma accounted_mono: "accounted found e start \<Longrightarrow> set found \<subseteq> set later \<Longrightarrow> accounted later e start"
  by (auto simp: accounted_def swallowed_def overtaken_def)

lemma found_in_accounts:
  assumes "serves device content" and "length content + sw_windowBytes config \<le> max64" and "length content + sw_maxCarveBytes config \<le> max64"
    and "8 \<le> sw_windowBytes config" and "\<forall>r \<in> set regions. region_end r \<le> length content"
    and "e \<in> set (flatten (builtinCarvers allowlist))" and "occurs_at content e start" and "start \<in> scanBytes regions"
  shows "accounted (found_in (carveScan (builtinScanner cpu path allowlist config)) device regions) e start"
proof -
  let ?scan = "carveScan (builtinScanner cpu path allowlist config)"
  obtain r where r: "r \<in> set regions" "sr_offset r \<le> start" "start < region_end r"
    using assms(8) by (auto simp: scanBytes_def region_end_def)
  obtain found where found: "?scan device r = (found, Inr (length found))"
    "scan_complete config content (builtinCarvers allowlist) (sr_offset r) (region_end r) found"
    using carveScan_complete [OF assms(1-4)] assms(5) r(1) by blast
  have "accounted found e start" using found(2) assms(6,7) r(2,3) by (simp add: scan_complete_def)
  moreover have "set found \<subseteq> set (found_in ?scan device regions)" using r(1) found(1) by (force simp: found_in_def)
  ultimately show ?thesis by (rule accounted_mono)
qed


text \<open>A disk too small for any filesystem, with the head of a JPEG file on it, in a run that is stopped after two bytes.\<close>

lemma small_image_mount_region:
  assumes "length content < 512" and "512 \<le> n" and "off + n \<le> max64"
  shows "readMountRegion (imageOf content) \<lparr>mr_offset = off, mr_length = n\<rparr> = Inl (mkError kNotFound 0)"
proof (cases "off \<le> length content")
  case True
  have "length content \<le> max64" using assms(1) by (simp add: max64_def)
  then have "bd_readAt (imageOf content) off n = Inr (take n (drop off content))"
    using imageOf_serves [of content] True assms(3) by (simp add: serves_def)
  then show ?thesis using assms(1,2) by (simp add: readMountRegion_def)
next
  case False
  then have "bd_readAt (imageOf content) off n = Inr []" using assms(3)
    by (simp add: imageOf_def imageFileDevice_def clampReadRange_def readNative_def driveReadLoop.simps)
  then show ?thesis using assms(2) by (simp add: readMountRegion_def)
qed

lemma small_image_unreadable: "length content < 512 \<Longrightarrow> mountVolume (imageOf content) = Inl (mkError kNotFound 0)"
proof -
  assume "length content < 512"
  note region = small_image_mount_region [OF this]
  have "512 + n \<le> max64" if "n \<le> 2048" for n using that by (simp add: max64_def)
  then have "mountNtfs (imageOf content) = Inl (mkError kNotFound 0)" "mountExfat (imageOf content) = Inl (mkError kNotFound 0)"
    "mountFat32 (imageOf content) = Inl (mkError kNotFound 0)" "mountExt4 (imageOf content) = Inl (mkError kNotFound 0)"
    using region
    by (simp_all add: mountNtfs_def mountExfat_def mountFat32_def mountExt4_def kBootSectorBytes_def
        kSuperblockOffset_def kSuperblockBytes_def max64_def)
  then show ?thesis by (simp add: mountVolume_def kMounters_def declined_def)
qed

definition sampleScope :: RunScope where
  "sampleScope = \<lparr>sc_device = imageOf sampleDisk, sc_layout = [], sc_startBytes = 0\<rparr>"

definition samplePlan :: RecoveryPlan where
  "samplePlan = \<lparr>rp_mode = kHybrid, rp_resumeFrom = None, rp_checkpointBytes = 2\<rparr>"

definition sampleCpu :: Cpu where "sampleCpu = \<lparr>cpu_buildHasAvx2 = True, cpu_cpuHasAvx2 = True\<rparr>"

lemma sample_disk: "serves (imageOf sampleDisk) sampleDisk" "length sampleDisk = 6"
    "length sampleDisk + sw_windowBytes smallConfig \<le> max64" "length sampleDisk + sw_maxCarveBytes smallConfig \<le> max64"
    "8 \<le> sw_windowBytes smallConfig"
  using imageOf_serves [of sampleDisk] by (simp_all add: sampleDisk_def smallConfig_def max64_def)

lemma sample_first_run:
  "\<exists>first stats. hybridRun mountVolume (carveScan (builtinScanner sampleCpu kAuto [''jpg''] smallConfig)) (\<lambda>_. False) samplePlan sampleScope = Some first \<and>
     rr_stats first = Inr stats"
proof -
  let ?scan = "carveScan (builtinScanner sampleCpu kAuto [''jpg''] smallConfig)"
  have size: "bd_size (imageOf sampleDisk) = 6" using sample_disk(1,2) by (simp add: serves_def)
  have pass: "runFilesystemPass mountVolume samplePlan sampleScope = ([], Inr emptyPass)"
    using small_image_unreadable [of sampleDisk] sample_disk(2)
    by (simp add: runFilesystemPass_def walkScope_def walkLayout_def enumerateVolume_def mountFailure_def samplePlan_def sampleScope_def mkError_def)
  obtain regions where regions: "gap_regions samplePlan (fp_accounting emptyPass) (bd_size (sc_device sampleScope)) 0 regions"
    using gap_regions_exist [of emptyAccounting 6 samplePlan 0]
    by (auto simp: emptyAccounting_def emptyPass_def samplePlan_def sampleScope_def size max64_def)
  have works: "scan_works ?scan (sc_device sampleScope)"
    using carveScan_complete [OF sample_disk(1,3-5), of _ sampleCpu kAuto "[''jpg'']"] size sample_disk(2)
    by (fastforce simp: scan_works_def sampleScope_def)
  show ?thesis
    using scanned_leg [OF pass _ _ works, of regions "\<lambda>_. False"] regions by (fastforce simp: samplePlan_def)
qed


end
